(* ===== verification/Prelude.thy ===== *)
theory Prelude
  imports Main "HOL-Library.Word" "HOL-Library.Sublist"
begin

text \<open>
  What the components share: the machine integers of the 32-bit targets, pointers, C strings,
  the kernel's error numbers, and the generic facts on lists and words the component proofs
  rest on.

  \<^item> \<open>size_t\<close>, \<open>uintptr_t\<close> and \<open>uint32_t\<close> are all 32 bits wide on every chip the kernel runs
    on, so one type \<open>u32\<close> stands for them; arithmetic on it wraps as the C does.
  \<^item> A pointer that the code only compares, offsets and hands back is an address (\<open>u32\<close>, with 0
    as \<open>NULL\<close>); a pointer to a structure the code tests for \<open>NULL\<close> is an \<open>option\<close>.
  \<^item> A C string is the list of its characters before the terminator. \<open>cstr_at s i\<close> is \<open>s[i]\<close>,
    with the terminator at the end.
  \<^item> \<open>ag_err_t\<close> is \<open>ag_errno + 'a\<close>: \<open>Inl e\<close> is the return value \<open>-e\<close>, \<open>Inr\<close> is success.
\<close>

unbundle bit_operations_syntax

section \<open>Types\<close>

type_synonym u8 = "8 word"
type_synonym u16 = "16 word"
type_synonym u32 = "32 word"
type_synonym u64 = "64 word"
type_synonym ptr = "32 word"

abbreviation (input) NULL :: ptr where
  "NULL \<equiv> 0"

datatype ag_errno =
    AG_EPERM | AG_ENOENT | AG_EINTR | AG_EIO | AG_EBADF | AG_EAGAIN | AG_ENOMEM | AG_EACCES
  | AG_EBUSY | AG_EEXIST | AG_ENODEV | AG_ENOTDIR | AG_EISDIR | AG_EINVAL | AG_ENFILE | AG_ENOSPC
  | AG_EROFS | AG_ERANGE | AG_ENOSYS | AG_ENOTSUP | AG_ETIMEDOUT | AG_EABI | AG_EFORMAT | AG_EKILLED

text \<open>Limits of the ABI: the longest name of a file, and of a path.\<close>

definition AG_NAME_MAX :: nat where "AG_NAME_MAX = 64"
definition AG_PATH_MAX :: nat where "AG_PATH_MAX = 256"

type_synonym 'a ag_err = "ag_errno + 'a"

text \<open>\<open>if (err != AG_OK) return err;\<close> and on.\<close>

definition ok_then :: "unit ag_err \<Rightarrow> 'a ag_err \<Rightarrow> 'a ag_err" where
  "ok_then r k = (case r of Inl e \<Rightarrow> Inl e | Inr _ \<Rightarrow> k)"

text \<open>\<open>if (bad) return -e;\<close> and on.\<close>

definition guard :: "bool \<Rightarrow> ag_errno \<Rightarrow> 'a ag_err \<Rightarrow> 'a ag_err" where
  "guard bad e k = (if bad then Inl e else k)"

definition cstr_at :: "string \<Rightarrow> nat \<Rightarrow> char" where
  "cstr_at s i = (if i < length s then s ! i else CHR 0x00)"

text \<open>No terminator inside: what every string read through a \<open>char *\<close> satisfies.\<close>

definition cstr :: "string \<Rightarrow> bool" where
  "cstr s \<longleftrightarrow> CHR 0x00 \<notin> set s"

text \<open>A character between two others, as \<open>c >= lo \<and> c <= hi\<close> in C.\<close>

definition char_in :: "char \<Rightarrow> char \<Rightarrow> char \<Rightarrow> bool" where
  "char_in lo hi c \<longleftrightarrow> (of_char lo :: nat) \<le> of_char c \<and> (of_char c :: nat) \<le> of_char hi"

section \<open>Collections\<close>

named_theorems nat_word \<open>words read as natural numbers\<close>
named_theorems inv_defs \<open>the invariants of the components\<close>

section \<open>Generic lemmas\<close>

lemma cstr_at_Nil [simp]: "cstr_at [] i = CHR 0x00"
  by (simp add: cstr_at_def)

lemma cstr_at_Cons_0 [simp]: "cstr_at (c # s) 0 = c"
  by (simp add: cstr_at_def)

lemma cstr_at_Cons_Suc [simp]: "cstr_at (c # s) (Suc i) = cstr_at s i"
  by (simp add: cstr_at_def)

lemma cstr_at_Cons_1 [simp]: "cstr_at (c # s) 1 = cstr_at s 0"
  by (simp add: cstr_at_def)

subsection \<open>Early returns\<close>

lemma ok_then_Inr [simp]: "ok_then r k = Inr x \<longleftrightarrow> r = Inr () \<and> k = Inr x"
  by (cases r) (simp_all add: ok_then_def)

lemma guard_Inr [simp]: "guard bad e k = Inr x \<longleftrightarrow> \<not> bad \<and> k = Inr x"
  by (simp add: guard_def)

subsection \<open>Searching\<close>

lemma find_upt_SomeD:
  assumes "find P [0..<n] = Some i"
  shows "i < n \<and> P i \<and> (\<forall>j<i. \<not> P j)"
proof -
  from assms obtain k where k: "k < length [0..<n]" "P ([0..<n] ! k)" "i = [0..<n] ! k"
      "\<forall>j<k. \<not> P ([0..<n] ! j)"
    by (auto simp: find_Some_iff)
  from k(1) have "[0..<n] ! k = k" and "\<forall>j<k. [0..<n] ! j = j" by simp_all
  with k show ?thesis by auto
qed

lemma find_upt_NoneD: "find P [0..<n] = None \<Longrightarrow> i < n \<Longrightarrow> \<not> P i"
  by (simp add: find_None_iff)

subsection \<open>Removing one element\<close>

lemma set_remove_nth:
  assumes "distinct (map f xs)" and "i < length xs"
  shows "set (take i xs @ drop (Suc i) xs) = {x \<in> set xs. f x \<noteq> f (xs ! i)}"
proof -
  have "xs = take i xs @ xs ! i # drop (Suc i) xs" using assms(2) by (rule id_take_nth_drop)
  then obtain ys x zs where *: "xs = ys @ x # zs" "ys = take i xs" "x = xs ! i" "zs = drop (Suc i) xs"
    by blast
  from assms(1) *(1) have "distinct (map f (ys @ x # zs))" by simp
  then have "f x \<notin> f ` (set ys \<union> set zs)" by (auto simp: image_Un)
  then have "\<forall>y \<in> set ys \<union> set zs. f y \<noteq> f x" by (metis imageI)
  then show ?thesis unfolding *(2-4) [symmetric] by (subst *(1)) auto
qed

subsection \<open>Words as natural numbers\<close>

lemma unat_add_no_wrap [nat_word]:
  fixes a b :: "'a::len word"
  shows "unat a + unat b < 2 ^ LENGTH('a) \<Longrightarrow> unat (a + b) = unat a + unat b"
  by (simp add: unat_add_lem)

lemma unat_sub_no_wrap [nat_word]:
  fixes a b :: "'a::len word"
  shows "b \<le> a \<Longrightarrow> unat (a - b) = unat a - unat b"
  by (simp add: unat_sub_if_size word_le_nat_alt)

lemma unat_u32_less: "unat (x :: u32) < 2 ^ 32"
  using unsigned_less [of x, where ?'a = nat] by simp

lemma unat_ucast64 [simp]: "unat (ucast (a :: u32) :: u64) = unat a"
  using unat_u32_less [of a] by (simp add: unsigned_ucast_eq take_bit_nat_eq_self)

lemma unat_ucast32: "unat (ucast (a :: u64) :: u32) = unat a mod 2 ^ 32"
  by (simp add: unsigned_ucast_eq take_bit_eq_mod)

lemma unat_ucast_8_32: "unat (ucast (x :: u8) :: u32) = unat x"
  using unsigned_less [of x, where ?'a = nat] by (simp add: unsigned_ucast_eq take_bit_nat_eq_self)

lemma unat_ucast_16_32: "unat (ucast (x :: u16) :: u32) = unat x"
  using unsigned_less [of x, where ?'a = nat] by (simp add: unsigned_ucast_eq take_bit_nat_eq_self)

lemma digit_char:
  assumes "m < 10"
  shows "(of_nat (0x30 + m) :: u8) \<ge> 0x30" "(of_nat (0x30 + m) :: u8) \<le> 0x39" "uint (of_nat (0x30 + m) :: u8) - 0x30 = int m"
proof -
  have "m \<in> {0, 1, 2, 3, 4, 5, 6, 7, 8, 9}" using assms by auto
  then show "(of_nat (0x30 + m) :: u8) \<ge> 0x30" "(of_nat (0x30 + m) :: u8) \<le> 0x39" "uint (of_nat (0x30 + m) :: u8) - 0x30 = int m"
    by auto
qed

lemma unat_of_nat_u8: "k < 256 \<Longrightarrow> unat (word_of_nat k :: u8) = k"
  by (simp add: unsigned_of_nat take_bit_nat_eq_self)

lemmas [nat_word] = word_le_nat_alt word_less_nat_alt

end
