(* ===== verification/Interfaces.thy ===== *)
theory Interfaces
  imports Prelude "HOL-Library.Multiset"
begin

text \<open>
  The contracts between components, as locales: the operations a client calls are the parameters,
  what the provider promises are the assumptions, and what every client may conclude is proved
  once, under them. Each is interpreted in the theory of the component that provides it.
\<close>

section \<open>Allocating from a region\<close>

text \<open>
  A provider hands out spans of addresses. \<open>spans s\<close> are the ones handed out and not yet given
  back, as (address, size). A client issues requests in any order.
\<close>

datatype region_req = Alloc_req u32 u32 | Free_req ptr

fun run_reqs ::
  "('s \<Rightarrow> u32 \<Rightarrow> u32 \<Rightarrow> ptr \<times> 's) \<Rightarrow> ('s \<Rightarrow> ptr \<Rightarrow> bool \<times> 's) \<Rightarrow> 's \<Rightarrow> region_req list \<Rightarrow> 's" where
  "run_reqs alloc release s [] = s"
| "run_reqs alloc release s (Alloc_req n al # rs) = run_reqs alloc release (snd (alloc s n al)) rs"
| "run_reqs alloc release s (Free_req p # rs) = run_reqs alloc release (snd (release s p)) rs"

definition disjoint_spans :: "(nat \<times> nat) set \<Rightarrow> bool" where
  "disjoint_spans S \<longleftrightarrow>
     (\<forall>q m q' m'. (q, m) \<in> S \<longrightarrow> (q', m') \<in> S \<longrightarrow>
        (q, m) = (q', m') \<or> q + m \<le> q' \<or> q' + m' \<le> q)"

locale region_alloc =
  fixes inv :: "'s \<Rightarrow> bool"
    and spans :: "'s \<Rightarrow> (nat \<times> nat) set"
    and alloc :: "'s \<Rightarrow> u32 \<Rightarrow> u32 \<Rightarrow> ptr \<times> 's"
    and release :: "'s \<Rightarrow> ptr \<Rightarrow> bool \<times> 's"
  assumes alloc_inv: "inv s \<Longrightarrow> inv (snd (alloc s n al))"
    and alloc_none: "inv s \<Longrightarrow> alloc s n al = (NULL, s') \<Longrightarrow> spans s' = spans s"
    and alloc_some: "inv s \<Longrightarrow> alloc s n al = (p, s') \<Longrightarrow> p \<noteq> NULL \<Longrightarrow>
          spans s' = insert (unat p, unat n) (spans s)"
    and alloc_fresh: "inv s \<Longrightarrow> alloc s n al = (p, s') \<Longrightarrow> p \<noteq> NULL \<Longrightarrow> (q, m) \<in> spans s \<Longrightarrow>
          q + m \<le> unat p \<or> unat p + unat n \<le> q"
    and release_inv: "inv s \<Longrightarrow> inv (snd (release s p))"
    and release_spans: "inv s \<Longrightarrow> spans (snd (release s p)) = {(q, m) \<in> spans s. q \<noteq> unat p}"
begin

lemma run_inv: "inv s \<Longrightarrow> inv (run_reqs alloc release s rs)"
proof (induction rs arbitrary: s)
  case (Cons r rs)
  then show ?case by (cases r) (simp_all add: alloc_inv release_inv)
qed simp

lemma alloc_disjoint:
  assumes "inv s" and "disjoint_spans (spans s)"
  shows "disjoint_spans (spans (snd (alloc s n al)))"
proof -
  obtain p s' where call: "alloc s n al = (p, s')" by (cases "alloc s n al")
  show ?thesis
  proof (cases "p = NULL")
    case True
    with alloc_none [OF assms(1)] call assms(2) show ?thesis by simp
  next
    case False
    note new = alloc_fresh [OF assms(1) call False]
    have "spans s' = insert (unat p, unat n) (spans s)" by (rule alloc_some [OF assms(1) call False])
    with assms(2) new show ?thesis unfolding disjoint_spans_def call by auto
  qed
qed

lemma release_disjoint:
  assumes "inv s" and "disjoint_spans (spans s)"
  shows "disjoint_spans (spans (snd (release s p)))"
  using assms(2) unfolding release_spans [OF assms(1)] disjoint_spans_def by simp

lemma run_disjoint:
  "inv s \<Longrightarrow> disjoint_spans (spans s) \<Longrightarrow> disjoint_spans (spans (run_reqs alloc release s rs))"
proof (induction rs arbitrary: s)
  case (Cons r rs)
  then show ?case
    by (cases r) (simp_all add: alloc_inv release_inv alloc_disjoint release_disjoint)
qed simp

text \<open>A span stays the client's until the client gives back its address.\<close>

lemma run_keeps:
  "inv s \<Longrightarrow> (q, m) \<in> spans s \<Longrightarrow> \<forall>r \<in> set rs. \<forall>p. r = Free_req p \<longrightarrow> unat p \<noteq> q \<Longrightarrow>
   (q, m) \<in> spans (run_reqs alloc release s rs)"
proof (induction rs arbitrary: s)
  case (Cons r rs)
  have step: "(q, m) \<in> spans (snd (alloc s n al))" for n al
    using Cons.prems(2) alloc_none [OF Cons.prems(1)] alloc_some [OF Cons.prems(1)]
    by (cases "alloc s n al"; cases "fst (alloc s n al) = NULL") auto
  show ?case
  proof (cases r)
    case (Alloc_req n al)
    then show ?thesis using Cons step alloc_inv by simp
  next
    case (Free_req p)
    then show ?thesis using Cons release_inv by (simp add: release_spans)
  qed
qed simp

end

section \<open>A ledger of resources\<close>

text \<open>
  A provider records what a client was given and forgets what the client returned itself.
  \<open>inv n\<close> is an invariant good for \<open>n\<close> more requests. The client's guarantee: at any time the
  ledger holds exactly what was given and not returned, so settling it accounts for everything.
\<close>

datatype ('r, 'k) ledger_req = Take_req 'r | Give_req 'k

fun run_ledger ::
  "('s \<Rightarrow> 'r \<Rightarrow> bool \<times> 's) \<Rightarrow> ('s \<Rightarrow> 'k \<Rightarrow> 'r option \<times> 's) \<Rightarrow> 's \<Rightarrow> ('r, 'k) ledger_req list \<Rightarrow>
   's \<times> 'r multiset \<times> 'r multiset" where
  "run_ledger add remove s [] = (s, {#}, {#})"
| "run_ledger add remove s (Take_req r # qs) =
     (case add s r of (ok, s1) \<Rightarrow>
        (case run_ledger add remove s1 qs of
           (s', got, gave) \<Rightarrow> (s', (if ok then add_mset r got else got), gave)))"
| "run_ledger add remove s (Give_req k # qs) =
     (case remove s k of (x, s1) \<Rightarrow>
        (case run_ledger add remove s1 qs of
           (s', got, gave) \<Rightarrow> (s', got, (case x of None \<Rightarrow> gave | Some r \<Rightarrow> add_mset r gave))))"

locale resource_ledger =
  fixes inv :: "nat \<Rightarrow> 's \<Rightarrow> bool"
    and held :: "'s \<Rightarrow> 'r multiset"
    and add :: "'s \<Rightarrow> 'r \<Rightarrow> bool \<times> 's"
    and remove :: "'s \<Rightarrow> 'k \<Rightarrow> 'r option \<times> 's"
  assumes add_inv: "inv (Suc n) s \<Longrightarrow> inv n (snd (add s r))"
    and add_held: "inv (Suc n) s \<Longrightarrow>
          held (snd (add s r)) = (if fst (add s r) then add_mset r (held s) else held s)"
    and remove_inv: "inv (Suc n) s \<Longrightarrow> inv n (snd (remove s k))"
    and remove_held: "inv (Suc n) s \<Longrightarrow>
          held s = (case fst (remove s k) of
                      None \<Rightarrow> held (snd (remove s k))
                    | Some r \<Rightarrow> add_mset r (held (snd (remove s k))))"
begin

lemma run_accounts:
  assumes "inv (length qs + n) s" and "run_ledger add remove s qs = (s', got, gave)"
  shows "held s + got = held s' + gave" and "inv n s'"
proof -
  have "held s + got = held s' + gave \<and> inv n s'"
    using assms
  proof (induction qs arbitrary: s s' got gave)
    case (Cons q qs)
    show ?case
    proof (cases q)
      case (Take_req r)
      obtain ok s1 where call: "add s r = (ok, s1)" by (cases "add s r")
      obtain s2 got' gave' where run: "run_ledger add remove s1 qs = (s2, got', gave')"
        by (cases "run_ledger add remove s1 qs") auto
      have "inv (length qs + n) s1" using add_inv [of "length qs + n" s r] Cons.prems(1) call by simp
      from Cons.IH [OF this run] have "held s1 + got' = held s2 + gave'" "inv n s2" by auto
      then show ?thesis
        using Cons.prems Take_req call run add_held [of "length qs + n" s r]
        by (auto split: if_splits)
    next
      case (Give_req k)
      obtain x s1 where call: "remove s k = (x, s1)" by (cases "remove s k")
      obtain s2 got' gave' where run: "run_ledger add remove s1 qs = (s2, got', gave')"
        by (cases "run_ledger add remove s1 qs") auto
      have "inv (length qs + n) s1" using remove_inv [of "length qs + n" s k] Cons.prems(1) call by simp
      from Cons.IH [OF this run] have "held s1 + got' = held s2 + gave'" "inv n s2" by auto
      then show ?thesis
        using Cons.prems Give_req call run remove_held [of "length qs + n" s k]
        by (cases x) auto
    qed
  qed simp
  then show "held s + got = held s' + gave" and "inv n s'" by simp_all
qed

end

section \<open>Exclusive ownership\<close>

text \<open>
  A table of slots with at most one owner each, changed by calls made on behalf of somebody.
  The provider promises that no single call takes or alters another's slot; the client's
  guarantee is about whole histories.
\<close>

locale exclusive_owner =
  fixes inv :: "'s \<Rightarrow> bool"
    and slot_of :: "'s \<Rightarrow> 'k \<Rightarrow> 'v"
    and owner_of :: "'s \<Rightarrow> 'k \<Rightarrow> 'o option"
    and exec :: "'s \<Rightarrow> 'c \<Rightarrow> 's"
    and behalf :: "'c \<Rightarrow> 'o option"
  assumes exec_inv: "inv s \<Longrightarrow> inv (exec s c)"
    and exec_keeps: "inv s \<Longrightarrow> owner_of s k = Some p \<Longrightarrow> behalf c \<noteq> Some p \<Longrightarrow>
          slot_of (exec s c) k = slot_of s k"
    and owner_by_slot: "slot_of s k = slot_of s' k \<Longrightarrow> owner_of s k = owner_of s' k"
begin

lemma history_inv: "inv s \<Longrightarrow> inv (foldl exec s cs)"
  by (induction cs arbitrary: s) (simp_all add: exec_inv)

lemma history_keeps:
  "inv s \<Longrightarrow> owner_of s k = Some p \<Longrightarrow> \<forall>c \<in> set cs. behalf c \<noteq> Some p \<Longrightarrow>
   slot_of (foldl exec s cs) k = slot_of s k"
proof (induction cs arbitrary: s)
  case (Cons c cs)
  then have step: "slot_of (exec s c) k = slot_of s k" by (simp add: exec_keeps)
  from owner_by_slot [OF this] Cons.prems have "owner_of (exec s c) k = Some p" by simp
  from Cons.IH [OF exec_inv this] Cons.prems step show ?case by simp
qed simp

lemma history_keeps_owner:
  assumes "inv s" and "owner_of s k = Some p" and "\<forall>c \<in> set cs. behalf c \<noteq> Some p"
  shows "owner_of (foldl exec s cs) k = Some p"
  using owner_by_slot [OF history_keeps [OF assms]] assms(2) by simp

end

end
