(* ===== verification/Arena.thy ===== *)
theory Arena
  imports Interfaces
begin

text \<open>
  \<open>core/arena.c\<close>: the first-fit allocator of the application code arena. The bookkeeping is an
  array of blocks kept in offset order outside the region, so a free block is a gap between two
  used ones. The theory holds the record, one definition per function, the invariant
  (\<open>arena_inv\<close>: the live blocks are ordered, disjoint and inside the region) and the laws of
  allocation and release; \<open>region_alloc\<close> is the contract the loader relies on, interpreted on
  these definitions.
\<close>

section \<open>The allocator\<close>

record ag_arena_block =
  blk_offset :: u32
  blk_size :: u32

record ag_arena =
  ar_base :: ptr
  ar_size :: u32
  ar_blocks :: "ag_arena_block list"
  ar_max_blocks :: u32
  ar_count :: u32

definition zero_block :: ag_arena_block where
  "zero_block = \<lparr>blk_offset = 0, blk_size = 0\<rparr>"

definition zero_arena :: ag_arena where
  "zero_arena = \<lparr>ar_base = NULL, ar_size = 0, ar_blocks = [], ar_max_blocks = 0, ar_count = 0\<rparr>"

definition ag_arena_init ::
  "ag_arena option \<Rightarrow> ptr \<Rightarrow> u32 \<Rightarrow> ag_arena_block list option \<Rightarrow> u32 \<Rightarrow> ag_arena option" where
  "ag_arena_init arena base sz blocks max_blocks =
     (case arena of
        None \<Rightarrow> None
      | Some _ \<Rightarrow>
          Some (case blocks of
             None \<Rightarrow> zero_arena
           | Some bs \<Rightarrow>
               if base = NULL \<or> max_blocks = 0 then zero_arena
               else \<lparr>ar_base = base, ar_size = sz,
                      ar_blocks = replicate (unat max_blocks) zero_block @ drop (unat max_blocks) bs,
                      ar_max_blocks = max_blocks, ar_count = 0\<rparr>))"

definition align_up :: "u32 \<Rightarrow> u32 \<Rightarrow> u32" where
  "align_up value align = (let m = align - 1 in (value + m) AND NOT m)"

definition gap_start :: "ag_arena \<Rightarrow> nat \<Rightarrow> u32" where
  "gap_start a index =
     (if index = 0 then 0
      else let prev = ar_blocks a ! (index - 1) in blk_offset prev + blk_size prev)"

definition gap_end :: "ag_arena \<Rightarrow> nat \<Rightarrow> u32" where
  "gap_end a index =
     (if index \<ge> unat (ar_count a) then ar_size a else blk_offset (ar_blocks a ! index))"

definition not_pow2 :: "u32 \<Rightarrow> bool" where
  "not_pow2 align \<longleftrightarrow> align = 0 \<or> align AND (align - 1) \<noteq> 0"

text \<open>The test of the search loop: gap \<open>i\<close> holds \<open>bytes\<close> once its start is aligned.\<close>

definition gap_fits :: "ag_arena \<Rightarrow> u32 \<Rightarrow> u32 \<Rightarrow> nat \<Rightarrow> bool" where
  "gap_fits a bytes align i =
     (let start = align_up (gap_start a i) align; end = gap_end a i
      in \<not> (start > end \<or> end - start < bytes))"

text \<open>\<open>for (j = count; j > i; j--) blocks[j] = blocks[j - 1]\<close>\<close>

fun shift_up :: "'b list \<Rightarrow> nat \<Rightarrow> nat \<Rightarrow> 'b list" where
  "shift_up bs i 0 = bs"
| "shift_up bs i (Suc j) = (if Suc j > i then shift_up (bs[Suc j := bs ! j]) i j else bs)"

text \<open>\<open>for (j = i; j + 1 < count; j++) blocks[j] = blocks[j + 1]\<close>\<close>

function shift_down :: "'b list \<Rightarrow> nat \<Rightarrow> nat \<Rightarrow> 'b list" where
  "shift_down bs j n = (if j + 1 < n then shift_down (bs[j := bs ! (j + 1)]) (j + 1) n else bs)"
  by pat_completeness auto
termination
  by (relation "measure (\<lambda>(bs, j, n). n - j)") auto

definition ag_arena_alloc ::
  "ag_arena option \<Rightarrow> u32 \<Rightarrow> u32 \<Rightarrow> ptr \<times> ag_arena option" where
  "ag_arena_alloc arena bytes align =
     (case arena of
        None \<Rightarrow> (NULL, None)
      | Some a \<Rightarrow>
          if ar_base a = NULL \<or> bytes = 0 then (NULL, Some a)
          else if not_pow2 align then (NULL, Some a)
          else if ar_count a \<ge> ar_max_blocks a then (NULL, Some a)
          else case find (gap_fits a bytes align) [0..<Suc (unat (ar_count a))] of
                 None \<Rightarrow> (NULL, Some a)
               | Some i \<Rightarrow>
                   let start = align_up (gap_start a i) align
                   in (ar_base a + start,
                       Some (a\<lparr>ar_blocks :=
                                 (shift_up (ar_blocks a) i (unat (ar_count a)))
                                   [i := \<lparr>blk_offset = start, blk_size = bytes\<rparr>],
                               ar_count := ar_count a + 1\<rparr>)))"

definition ag_arena_free :: "ag_arena option \<Rightarrow> ptr \<Rightarrow> bool \<times> ag_arena option" where
  "ag_arena_free arena p =
     (case arena of
        None \<Rightarrow> (False, None)
      | Some a \<Rightarrow>
          if ar_base a = NULL \<or> p = NULL then (False, Some a)
          else if p < ar_base a \<or> p \<ge> ar_base a + ar_size a then (False, Some a)
          else let offset = p - ar_base a
               in case find (\<lambda>i. blk_offset (ar_blocks a ! i) = offset) [0..<unat (ar_count a)] of
                    None \<Rightarrow> (False, Some a)
                  | Some i \<Rightarrow>
                      let n = ar_count a - 1
                      in (True, Some (a\<lparr>ar_blocks :=
                                 (shift_down (ar_blocks a) i (unat (ar_count a)))
                                   [unat n := zero_block],
                               ar_count := n\<rparr>)))"

definition ag_arena_size :: "ag_arena option \<Rightarrow> u32" where
  "ag_arena_size arena = (case arena of None \<Rightarrow> 0 | Some a \<Rightarrow> ar_size a)"

definition ag_arena_used :: "ag_arena option \<Rightarrow> u32" where
  "ag_arena_used arena =
     (case arena of
        None \<Rightarrow> 0
      | Some a \<Rightarrow> foldl (\<lambda>used i. used + blk_size (ar_blocks a ! i)) 0 [0..<unat (ar_count a)])"

definition ag_arena_free_bytes :: "ag_arena option \<Rightarrow> u32" where
  "ag_arena_free_bytes arena =
     (case arena of None \<Rightarrow> 0 | Some a \<Rightarrow> ar_size a - ag_arena_used arena)"

definition ag_arena_largest_free :: "ag_arena option \<Rightarrow> u32 \<Rightarrow> u32" where
  "ag_arena_largest_free arena align =
     (case arena of
        None \<Rightarrow> 0
      | Some a \<Rightarrow>
          if ar_base a = NULL then 0
          else if not_pow2 align then 0
          else if ar_count a \<ge> ar_max_blocks a then 0
          else foldl (\<lambda>largest i.
                 let start = align_up (gap_start a i) align; end = gap_end a i
                 in if start < end \<and> end - start > largest then end - start else largest)
               0 [0..<Suc (unat (ar_count a))])"

definition ag_arena_blocks :: "ag_arena option \<Rightarrow> u32" where
  "ag_arena_blocks arena = (case arena of None \<Rightarrow> 0 | Some a \<Rightarrow> ar_count a)"

section \<open>The invariant\<close>

definition boff :: "ag_arena_block \<Rightarrow> nat" where
  "boff b = unat (blk_offset b)"

definition bend :: "ag_arena_block \<Rightarrow> nat" where
  "bend b = unat (blk_offset b) + unat (blk_size b)"

definition live :: "ag_arena \<Rightarrow> ag_arena_block list" where
  "live a = take (unat (ar_count a)) (ar_blocks a)"

definition blocks_ok :: "nat \<Rightarrow> ag_arena_block list \<Rightarrow> bool" where
  "blocks_ok n bs \<longleftrightarrow>
     sorted_wrt (\<lambda>x y. bend x \<le> boff y) bs \<and> (\<forall>b \<in> set bs. bend b \<le> n \<and> blk_size b \<noteq> 0)"

text \<open>
  The region is at most 2 GiB and does not end at the very top of the address space, which is what
  keeps \<open>align_up\<close> and \<open>base + size\<close> from wrapping.
\<close>

definition arena_inv :: "ag_arena \<Rightarrow> bool" where
  "arena_inv a \<longleftrightarrow>
     ar_base a \<noteq> NULL \<and> unat (ar_base a) + unat (ar_size a) < 2 ^ 32 \<and>
     unat (ar_size a) \<le> 2 ^ 31 \<and> length (ar_blocks a) = unat (ar_max_blocks a) \<and>
     ar_count a \<le> ar_max_blocks a \<and> blocks_ok (unat (ar_size a)) (live a)"

section \<open>Alignment\<close>

lemma pow2_word:
  fixes w :: "'a::len word"
  assumes "w \<noteq> 0" and "w AND (w - 1) = 0"
  shows "\<exists>n < LENGTH('a). w = 2 ^ n"
proof -
  let ?m = "unat w"
  from assms(1) have pos: "0 < ?m" by (simp add: unat_gt_0)
  then obtain n where n: "2 ^ n \<le> ?m" "?m < 2 ^ (n + 1)"
    using ex_power_ivl1 [of 2 ?m] by auto
  have "?m < 2 ^ LENGTH('a)" by (rule unsigned_less)
  with n(1) have nl: "n < LENGTH('a)"
    by (meson le_less_trans power_less_imp_less_exp one_less_numeral_iff semiring_norm(76))
  have "?m = 2 ^ n"
  proof (rule ccontr)
    assume "?m \<noteq> 2 ^ n"
    with n have r: "2 ^ n \<le> ?m - 1" "?m - 1 < 2 ^ (n + 1)" by auto
    have u1: "unat (w - 1) = ?m - 1" using pos by (metis assms(1) unat_minus_one)
    have "?m div 2 ^ n = 1" "(?m - 1) div 2 ^ n = 1"
      using n r by (simp_all add: div_nat_eqI)
    then have "bit ?m n" "bit (unat (w - 1)) n"
      by (simp_all add: bit_iff_odd u1)
    then have "bit w n" "bit (w - 1) n" using nl by (simp_all add: bit_unsigned_iff)
    then have "bit (w AND (w - 1)) n" by (simp add: bit_and_iff)
    with assms(2) show False by simp
  qed
  moreover have "w = word_of_nat ?m" by simp
  ultimately have "w = 2 ^ n" by simp
  then show ?thesis using nl by auto
qed

lemma not_pow2E:
  assumes "\<not> not_pow2 align"
  obtains n where "n < 32" and "align = 2 ^ n" and "unat align = 2 ^ n"
proof -
  from assms have "align \<noteq> 0" "align AND (align - 1) = 0" by (simp_all add: not_pow2_def)
  from pow2_word [OF this] obtain n where "n < 32" "align = 2 ^ n" by auto
  moreover from this have "unat align = 2 ^ n" by transfer simp
  ultimately show thesis by (rule that)
qed

lemma align_up_nat:
  assumes "\<not> not_pow2 align" and "unat v \<le> 2 ^ 31"
  shows "unat (align_up v align) = (unat v + unat align - 1) div unat align * unat align"
proof -
  from assms(1) obtain n where n: "n < 32" "align = 2 ^ n" "unat align = 2 ^ n"
    by (rule not_pow2E)
  have m: "align - 1 = mask n" by (simp add: n mask_eq_decr_exp)
  have um: "unat (mask n :: u32) = 2 ^ n - 1" using n by (metis m unat_minus_one power_not_zero zero_neq_numeral unat_eq_zero)
  have "(2::nat) ^ n \<le> 2 ^ 31" using n(1) by (intro power_increasing) auto
  with assms(2) um have lt: "unat v + unat (mask n :: u32) < 2 ^ 32" by simp
  let ?x = "v + mask n"
  have ux: "unat ?x = unat v + unat align - 1"
    using lt um by (simp add: unat_add_no_wrap n(3))
  have "?x AND NOT (mask n) = push_bit n (drop_bit n ?x)"
    by (rule bit_word_eqI) (auto simp: bit_simps)
  then have "unat (align_up v align) = unat (push_bit n (drop_bit n ?x))"
    by (simp add: align_up_def Let_def m)
  also have "\<dots> = unat ?x div 2 ^ n * 2 ^ n"
  proof -
    have "unat (drop_bit n ?x) = unat ?x div 2 ^ n" by (metis unat_drop_bit_eq drop_bit_eq_div)
    moreover have "unat ?x div 2 ^ n * 2 ^ n < 2 ^ 32"
      using unat_u32_less [of ?x] by (simp add: le_less_trans [OF div_times_less_eq_dividend])
    ultimately show ?thesis
      by (simp add: push_bit_eq_mult unat_word_ariths n(3) [unfolded n(2)] mult.commute)
  qed
  finally show ?thesis using ux n(3) by simp
qed

text \<open>\<open>align_up\<close> gives the least multiple of the alignment at or above its argument.\<close>

lemma align_up_least:
  assumes "\<not> not_pow2 align" and "unat v \<le> 2 ^ 31"
  shows "unat v \<le> unat (align_up v align)" (is ?ge)
    and "unat align dvd unat (align_up v align)" (is ?dvd)
    and "unat align dvd m \<Longrightarrow> unat v \<le> m \<Longrightarrow> unat (align_up v align) \<le> m" (is "_ \<Longrightarrow> _ \<Longrightarrow> ?le")
proof -
  let ?a = "unat align" and ?x = "unat v + unat align - 1"
  from assms(1) have pos: "0 < ?a" by (auto simp: not_pow2_def unat_gt_0)
  note eq = align_up_nat [OF assms]
  have "?x = ?x div ?a * ?a + ?x mod ?a" by simp
  moreover from pos have "?x mod ?a < ?a" by simp
  ultimately show ?ge using eq pos by linarith
  show ?dvd by (simp add: eq)
  assume "?a dvd m" "unat v \<le> m"
  then obtain k where k: "m = k * ?a" by (metis dvd_def mult.commute)
  have "?x div ?a \<le> (k * ?a + (?a - 1)) div ?a"
    using \<open>unat v \<le> m\<close> k pos by (intro div_le_mono) simp
  also have "\<dots> = k" using pos by (intro div_nat_eqI) (simp_all add: algebra_simps)
  finally show ?le using eq k by simp
qed

section \<open>The shifting loops\<close>

lemma length_shift_up [simp]: "length (shift_up bs i n) = length bs"
  by (induction bs i n rule: shift_up.induct) auto

lemma shift_up_eq:
  "i \<le> n \<Longrightarrow> n < length bs \<Longrightarrow>
   shift_up bs i n = take (Suc i) bs @ drop i (take n bs) @ drop (Suc n) bs"
proof (induction bs i n rule: shift_up.induct)
  case (1 bs i)
  then show ?case by (simp add: Cons_nth_drop_Suc)
next
  case (2 bs i j)
  show ?case
  proof (cases "Suc j > i")
    case True
    let ?bs = "bs[Suc j := bs ! j]"
    from True 2 have "shift_up ?bs i j = take (Suc i) ?bs @ drop i (take j ?bs) @ drop (Suc j) ?bs"
      by simp
    moreover have "drop (Suc j) ?bs = bs ! j # drop (Suc (Suc j)) bs"
      using 2 by (simp add: drop_update_swap flip: Cons_nth_drop_Suc)
    moreover have "drop i (take (Suc j) bs) = drop i (take j bs) @ [bs ! j]"
      using 2 True by (simp add: take_Suc_conv_app_nth)
    ultimately show ?thesis using True 2 by (simp add: take_update_swap list_update_beyond)
  next
    case False
    with 2 have "i = Suc j" by simp
    with 2 show ?thesis by (simp add: id_take_nth_drop flip: take_Suc_conv_app_nth)
  qed
qed

lemma shift_up_insert:
  assumes "i \<le> n" and "n < length bs"
  shows "take (Suc n) ((shift_up bs i n)[i := x]) = take i (take n bs) @ x # drop i (take n bs)"
proof -
  have "(shift_up bs i n)[i := x] = take i bs @ x # drop i (take n bs) @ drop (Suc n) bs"
    using assms by (simp add: shift_up_eq take_Suc_conv_app_nth list_update_append)
  with assms show ?thesis by (simp add: min_def Suc_diff_le)
qed

declare shift_down.simps [simp del]

lemma length_shift_down [simp]: "length (shift_down bs j n) = length bs"
  by (induction bs j n rule: shift_down.induct) (subst shift_down.simps, simp)

lemma shift_down_take:
  "j < n \<Longrightarrow> n \<le> length bs \<Longrightarrow>
   take (n - 1) (shift_down bs j n) = take j bs @ drop (Suc j) (take n bs)"
proof (induction bs j n rule: shift_down.induct)
  case (1 bs j n)
  show ?case
  proof (cases "j + 1 < n")
    case True
    let ?bs = "bs[j := bs ! (j + 1)]"
    from True 1 have "take (n - 1) (shift_down ?bs (j + 1) n) = take (j + 1) ?bs @ drop (Suc (j + 1)) (take n ?bs)"
      by simp
    also have "take (j + 1) ?bs = take j bs @ [bs ! (j + 1)]"
      using True 1 by (simp add: take_Suc_conv_app_nth)
    also have "drop (Suc (j + 1)) (take n ?bs) = drop (Suc (j + 1)) (take n bs)"
      using True by (simp add: take_update_swap drop_update_swap)
    also have "(take j bs @ [bs ! (j + 1)]) @ drop (Suc (j + 1)) (take n bs) = take j bs @ drop (Suc j) (take n bs)"
      using True 1 by (simp add: Cons_nth_drop_Suc [of "Suc j" "take n bs", symmetric])
    finally show ?thesis using True by (simp add: shift_down.simps [of bs j n])
  next
    case False
    with 1 have "n = Suc j" by simp
    with 1 show ?thesis by (simp add: shift_down.simps [of bs j "Suc j"])
  qed
qed


section \<open>Gaps\<close>

lemma arena_invD:
  assumes "arena_inv a"
  shows "ar_base a \<noteq> NULL" and "unat (ar_base a) + unat (ar_size a) < 2 ^ 32"
    and "unat (ar_size a) \<le> 2 ^ 31" and "length (ar_blocks a) = unat (ar_max_blocks a)"
    and "unat (ar_count a) \<le> unat (ar_max_blocks a)" and "length (live a) = unat (ar_count a)"
    and "sorted_wrt (\<lambda>x y. bend x \<le> boff y) (live a)"
    and "b \<in> set (live a) \<Longrightarrow> bend b \<le> unat (ar_size a)"
    and "b \<in> set (live a) \<Longrightarrow> blk_size b \<noteq> 0"
  using assms by (auto simp: arena_inv_def blocks_ok_def live_def word_le_nat_alt)

lemma boff_le_bend: "boff b \<le> bend b"
  by (simp add: boff_def bend_def)

lemma live_nth: "i < unat (ar_count a) \<Longrightarrow> live a ! i = ar_blocks a ! i"
  by (simp add: live_def)

lemma unat_block_end:
  assumes "arena_inv a" and "b \<in> set (live a)"
  shows "unat (blk_offset b + blk_size b) = bend b"
  using arena_invD(3) [OF assms(1)] arena_invD(8) [OF assms]
  by (simp add: bend_def unat_add_no_wrap)

lemma gap_start_nat:
  assumes "arena_inv a" and "i \<le> unat (ar_count a)"
  shows "unat (gap_start a i) = (if i = 0 then 0 else bend (live a ! (i - 1)))"
    and "unat (gap_start a i) \<le> unat (ar_size a)"
proof -
  have "i \<noteq> 0 \<Longrightarrow> live a ! (i - 1) \<in> set (live a) \<and> live a ! (i - 1) = ar_blocks a ! (i - 1)"
    using assms(2) arena_invD(6) [OF assms(1)] nth_mem [of "i - 1" "live a"]
    by (simp add: live_nth)
  then show "unat (gap_start a i) = (if i = 0 then 0 else bend (live a ! (i - 1)))"
    and "unat (gap_start a i) \<le> unat (ar_size a)"
    using unat_block_end [OF assms(1)] arena_invD(8) [OF assms(1)]
    by (auto simp: gap_start_def Let_def)
qed

lemma gap_end_nat:
  "unat (gap_end a i) = (if i < unat (ar_count a) then boff (live a ! i) else unat (ar_size a))"
  by (simp add: gap_end_def boff_def live_nth)

lemma gap_end_le:
  assumes "arena_inv a"
  shows "unat (gap_end a i) \<le> unat (ar_size a)"
proof (cases "i < unat (ar_count a)")
  case True
  then have "live a ! i \<in> set (live a)" using arena_invD(6) [OF assms] by simp
  from arena_invD(8) [OF assms this] boff_le_bend [of "live a ! i"] True show ?thesis
    by (simp add: gap_end_nat)
qed (simp add: gap_end_nat)

lemma gap_fits_nat:
  "gap_fits a bytes align i \<longleftrightarrow>
     unat (align_up (gap_start a i) align) + unat bytes \<le> unat (gap_end a i)"
proof -
  let ?s = "align_up (gap_start a i) align" and ?e = "gap_end a i"
  have "unat (?e - ?s) = unat ?e - unat ?s" if "?s \<le> ?e"
    using that by (rule unat_sub_no_wrap)
  then show ?thesis
    by (auto simp: gap_fits_def Let_def word_le_nat_alt word_less_nat_alt not_less not_le)
qed

lemma align_gap:
  assumes "arena_inv a" and "i \<le> unat (ar_count a)" and "\<not> not_pow2 align"
  shows "unat (gap_start a i) \<le> unat (align_up (gap_start a i) align)"
    and "unat align dvd unat (align_up (gap_start a i) align)"
    and "unat align dvd m \<Longrightarrow> unat (gap_start a i) \<le> m \<Longrightarrow>
           unat (align_up (gap_start a i) align) \<le> m"
proof -
  have "unat (gap_start a i) \<le> 2 ^ 31"
    using gap_start_nat(2) [OF assms(1,2)] arena_invD(3) [OF assms(1)] by simp
  note al = align_up_least [OF assms(3) this]
  show "unat (gap_start a i) \<le> unat (align_up (gap_start a i) align)" by (rule al(1))
  show "unat align dvd unat (align_up (gap_start a i) align)" by (rule al(2))
  show "unat align dvd m \<Longrightarrow> unat (gap_start a i) \<le> m \<Longrightarrow>
          unat (align_up (gap_start a i) align) \<le> m" by (rule al(3))
qed

text \<open>A block that fits gap \<open>i\<close> lies after the blocks before it and before the ones after it.\<close>

lemma gap_separates:
  assumes "arena_inv a" and "i \<le> unat (ar_count a)"
    and "unat (gap_start a i) \<le> x" and "y \<le> unat (gap_end a i)"
  shows "b \<in> set (take i (live a)) \<Longrightarrow> bend b \<le> x"
    and "b \<in> set (drop i (live a)) \<Longrightarrow> y \<le> boff b"
proof -
  note inv = arena_invD [OF assms(1)]
  assume "b \<in> set (take i (live a))"
  then obtain k where k: "k < i" "k < length (live a)" "b = live a ! k"
    by (auto simp: in_set_conv_nth)
  have "bend b \<le> bend (live a ! (i - 1))"
  proof (cases "k = i - 1")
    case False
    with k assms(2) have "bend b \<le> boff (live a ! (i - 1))"
      using sorted_wrt_nth_less [OF inv(7), of k "i - 1"] inv(6) by simp
    then show ?thesis using boff_le_bend [of "live a ! (i - 1)"] by simp
  qed (simp add: k)
  with gap_start_nat(1) [OF assms(1,2)] assms(3) k show "bend b \<le> x" by simp
next
  note inv = arena_invD [OF assms(1)]
  assume "b \<in> set (drop i (live a))"
  then obtain k where k: "i \<le> k" "k < length (live a)" "b = live a ! k"
    by (auto simp: in_set_conv_nth) (metis add.commute le_add2 less_diff_conv)
  have "boff (live a ! i) \<le> boff b"
  proof (cases "k = i")
    case False
    with k have "bend (live a ! i) \<le> boff b"
      using sorted_wrt_nth_less [OF inv(7), of i k] by simp
    then show ?thesis using boff_le_bend [of "live a ! i"] by simp
  qed (simp add: k)
  with k inv(6) gap_end_nat [of a i] assms(4) show "y \<le> boff b" by simp
qed

lemma blocks_ok_insert:
  assumes "blocks_ok n bs"
    and "\<And>c. c \<in> set (take i bs) \<Longrightarrow> bend c \<le> boff b"
    and "\<And>c. c \<in> set (drop i bs) \<Longrightarrow> bend b \<le> boff c"
    and "bend b \<le> n" and "blk_size b \<noteq> 0"
  shows "blocks_ok n (take i bs @ b # drop i bs)"
proof -
  have "sorted_wrt (\<lambda>x y. bend x \<le> boff y) (take i bs @ drop i bs)"
    using assms(1) by (simp add: blocks_ok_def)
  then have "sorted_wrt (\<lambda>x y. bend x \<le> boff y) (take i bs @ b # drop i bs)"
    using assms(2,3) by (simp only: sorted_wrt_append) auto
  then show ?thesis
    using assms by (auto simp: blocks_ok_def dest: in_set_takeD in_set_dropD)
qed

lemma blocks_ok_remove:
  assumes "blocks_ok n bs" and "i < length bs"
  shows "blocks_ok n (take i bs @ drop (Suc i) bs)"
proof -
  have "bs = take i bs @ bs ! i # drop (Suc i) bs" using assms(2) by (rule id_take_nth_drop)
  with assms(1) have "blocks_ok n (take i bs @ bs ! i # drop (Suc i) bs)" by simp
  then show ?thesis by (auto simp: blocks_ok_def sorted_wrt_append)
qed

section \<open>Allocation\<close>

text \<open>What a successful search gives: the gap, and the state the call leaves.\<close>

lemma arena_alloc_success:
  assumes inv: "arena_inv a" and call: "ag_arena_alloc (Some a) bytes align = (p, r)" and p: "p \<noteq> NULL"
  obtains i b a' where "i \<le> unat (ar_count a)" and "r = Some a'" and "arena_inv a'"
    and "live a' = take i (live a) @ b # drop i (live a)" and "blk_size b = bytes"
    and "unat p = unat (ar_base a) + boff b" and "unat align dvd boff b"
    and "bend b \<le> unat (ar_size a)"
    and "\<forall>c \<in> set (live a). bend c \<le> boff b \<or> bend b \<le> boff c"
    and "ar_base a' = ar_base a" and "ar_size a' = ar_size a"
proof -
  note ai = arena_invD [OF inv]
  from call p have pre: "bytes \<noteq> 0" "\<not> not_pow2 align" "unat (ar_count a) < unat (ar_max_blocks a)"
    by (auto simp: ag_arena_alloc_def not_le word_less_nat_alt split: if_splits)
  with call p obtain i where f: "find (gap_fits a bytes align) [0..<Suc (unat (ar_count a))] = Some i"
    by (auto simp: ag_arena_alloc_def split: if_splits option.splits)
  then have i: "i \<le> unat (ar_count a)" and fit: "gap_fits a bytes align i"
    using find_upt_SomeD [OF f] by auto
  define start where "start = align_up (gap_start a i) align"
  define b where "b = \<lparr>blk_offset = start, blk_size = bytes\<rparr>"
  define a' where "a' = a\<lparr>ar_blocks := (shift_up (ar_blocks a) i (unat (ar_count a)))[i := b],
                          ar_count := ar_count a + 1\<rparr>"
  have res: "p = ar_base a + start" "r = Some a'"
    using call pre f ai(1)
    by (simp_all add: ag_arena_alloc_def start_def b_def a'_def Let_def word_le_nat_alt)
  have cnt: "unat (ar_count a + 1) = Suc (unat (ar_count a))"
    using pre(3) unat_u32_less [of "ar_max_blocks a"] by (simp add: unat_add_no_wrap)
  have lv: "live a' = take i (live a) @ b # drop i (live a)"
    using shift_up_insert [OF i, of "ar_blocks a" b] pre(3) ai(4) by (simp add: live_def a'_def cnt)
  from fit have end_: "bend b \<le> unat (gap_end a i)"
    by (simp add: gap_fits_nat b_def bend_def start_def)
  then have le: "bend b \<le> unat (ar_size a)" using gap_end_le [OF inv, of i] by simp
  have st: "unat (gap_start a i) \<le> boff b" and dv: "unat align dvd boff b"
    using align_gap(1,2) [OF inv i pre(2)] by (simp_all add: boff_def b_def start_def)
  note sep = gap_separates [OF inv i st end_]
  have "blocks_ok (unat (ar_size a)) (live a')"
    unfolding lv using inv sep le pre(1)
    by (intro blocks_ok_insert) (simp_all add: arena_inv_def b_def)
  then have inv': "arena_inv a'"
    using inv pre(3) cnt by (simp add: arena_inv_def a'_def word_le_nat_alt)
  have "set (live a) = set (take i (live a)) \<union> set (drop i (live a))"
    by (metis append_take_drop_id set_append)
  then have dis: "\<forall>c \<in> set (live a). bend c \<le> boff b \<or> bend b \<le> boff c"
    using sep by blast
  have "unat start < unat (ar_size a)"
    using le pre(1) by (simp add: bend_def b_def) (metis add_gr_0 add_leD1 le_neq_implies_less less_add_same_cancel1 not_le unat_gt_0 word_neq_0_conv)
  then have "unat p = unat (ar_base a) + boff b"
    using ai(2) by (simp add: res(1) unat_add_no_wrap boff_def b_def)
  then show thesis
    using that [of i a' b] i res(2) inv' lv dv le dis by (simp add: b_def a'_def)
qed

text \<open>
  First fit is complete: an aligned place that no live block overlaps lies in some gap, and that
  gap passes the test.
\<close>

lemma free_place_fits:
  assumes inv: "arena_inv a" and pow2: "\<not> not_pow2 align" and "unat align dvd x"
    and fits: "x + unat bytes \<le> unat (ar_size a)"
    and free: "\<forall>b \<in> set (live a). bend b \<le> x \<or> x + unat bytes \<le> boff b"
  shows "\<exists>i \<le> unat (ar_count a). gap_fits a bytes align i"
proof -
  note ai = arena_invD [OF inv]
  define i where "i = length (takeWhile (\<lambda>b. bend b \<le> x) (live a))"
  have i: "i \<le> unat (ar_count a)" using length_takeWhile_le [of _ "live a"] ai(6) by (simp add: i_def)
  have "unat (gap_start a i) \<le> x"
  proof (cases "i = 0")
    case False
    then have "takeWhile (\<lambda>b. bend b \<le> x) (live a) ! (i - 1) \<in> set (takeWhile (\<lambda>b. bend b \<le> x) (live a))"
      by (intro nth_mem) (simp add: i_def)
    then have "bend (live a ! (i - 1)) \<le> x"
      using False by (metis set_takeWhileD takeWhile_nth diff_less i_def less_numeral_extra(1) neq0_conv)
    with False show ?thesis using gap_start_nat(1) [OF inv i] by simp
  qed (use gap_start_nat(1) [OF inv i] in simp)
  then have "unat (align_up (gap_start a i) align) \<le> x"
    by (rule align_gap(3) [OF inv i pow2 assms(3)])
  moreover have "x + unat bytes \<le> unat (gap_end a i)"
  proof (cases "i < unat (ar_count a)")
    case True
    then have "\<not> bend (live a ! i) \<le> x" "live a ! i \<in> set (live a)"
      using nth_length_takeWhile [of "\<lambda>b. bend b \<le> x" "live a"] ai(6) by (simp_all add: i_def)
    with free True show ?thesis by (auto simp: gap_end_nat)
  qed (simp add: gap_end_nat fits)
  ultimately have "gap_fits a bytes align i" by (simp add: gap_fits_nat)
  with i show ?thesis by blast
qed

lemma arena_alloc_fails:
  assumes inv: "arena_inv a" and "bytes \<noteq> 0" and "\<not> not_pow2 align"
    and "ar_count a < ar_max_blocks a" and call: "fst (ag_arena_alloc (Some a) bytes align) = NULL"
  shows "snd (ag_arena_alloc (Some a) bytes align) = Some a"
    and "i \<le> unat (ar_count a) \<Longrightarrow> \<not> gap_fits a bytes align i"
proof -
  note ai = arena_invD [OF inv]
  have "find (gap_fits a bytes align) [0..<Suc (unat (ar_count a))] = None"
  proof (rule ccontr)
    assume "find (gap_fits a bytes align) [0..<Suc (unat (ar_count a))] \<noteq> None"
    then obtain i where f: "find (gap_fits a bytes align) [0..<Suc (unat (ar_count a))] = Some i"
      by blast
    define s where "s = align_up (gap_start a i) align"
    from find_upt_SomeD [OF f] have "gap_fits a bytes align i" by blast
    then have "unat s + unat bytes \<le> unat (ar_size a)"
      using gap_end_le [OF inv, of i] by (simp add: gap_fits_nat s_def)
    then have "unat (ar_base a + s) = unat (ar_base a) + unat s"
      using ai(2) by (intro unat_add_no_wrap) simp
    with ai(1) have "ar_base a + s \<noteq> 0" by (metis add_is_0 unat_0 unat_eq_zero)
    moreover have "\<not> ar_max_blocks a \<le> ar_count a" using assms(4) by simp
    ultimately show False
      using call f assms(2,3) ai(1)
      by (simp del: upt_Suc add: ag_arena_alloc_def Let_def s_def)
  qed
  note none = this
  then show "snd (ag_arena_alloc (Some a) bytes align) = Some a"
    by (simp del: upt_Suc add: ag_arena_alloc_def)
  show "\<not> gap_fits a bytes align i" if "i \<le> unat (ar_count a)"
    using find_upt_NoneD [OF none, of i] that by simp
qed

lemma foldl_largest:
  fixes f g :: "nat \<Rightarrow> u32" and z n :: u32
  assumes "n \<noteq> 0"
  shows "n \<le> foldl (\<lambda>z i. if f i < g i \<and> z < g i - f i then g i - f i else z) z xs \<longleftrightarrow>
         n \<le> z \<or> (\<exists>i \<in> set xs. f i < g i \<and> n \<le> g i - f i)"
proof (induction xs arbitrary: z)
  case (Cons i xs)
  then show ?case by (auto simp: not_less intro: order_trans)
qed simp

lemma gap_fits_iff:
  assumes "bytes \<noteq> 0"
  shows "gap_fits a bytes align i \<longleftrightarrow>
    align_up (gap_start a i) align < gap_end a i \<and> bytes \<le> gap_end a i - align_up (gap_start a i) align"
  using assms by (auto simp: gap_fits_def Let_def not_less dest: order_le_imp_less_or_eq)

section \<open>Release\<close>

text \<open>
  \<open>remove1\<close> on the live blocks is what the shifting loop of \<open>ag_arena_free\<close> does, for the block
  whose offset the pointer names.
\<close>

lemma live_distinct_offsets:
  assumes "arena_inv a" and "i < j" and "j < unat (ar_count a)"
  shows "boff (live a ! i) < boff (live a ! j)"
proof -
  note ai = arena_invD [OF assms(1)]
  have "bend (live a ! i) \<le> boff (live a ! j)"
    using sorted_wrt_nth_less [OF ai(7) assms(2)] assms(3) ai(6) by simp
  moreover have "boff (live a ! i) < bend (live a ! i)"
    using ai(9) [of "live a ! i"] ai(6) assms(2,3)
    by (simp add: boff_def bend_def unat_gt_0)
  ultimately show ?thesis by simp
qed

lemma arena_free_success:
  assumes inv: "arena_inv a" and i: "i < unat (ar_count a)"
    and p: "unat p = unat (ar_base a) + boff (live a ! i)"
  obtains a' where "ag_arena_free (Some a) p = (True, Some a')" and "arena_inv a'"
    and "live a' = take i (live a) @ drop (Suc i) (live a)"
    and "ar_base a' = ar_base a" and "ar_size a' = ar_size a"
proof -
  note ai = arena_invD [OF inv]
  let ?b = "live a ! i" and ?n = "unat (ar_count a)"
  have mem: "?b \<in> set (live a)" using i ai(6) by simp
  have "boff ?b < unat (ar_size a)"
    using ai(8,9) [OF mem] by (simp add: boff_def bend_def) (metis add_leD1 le_neq_implies_less less_add_same_cancel1 not_le unat_gt_0 word_neq_0_conv)
  then have range: "\<not> p < ar_base a" "\<not> p \<ge> ar_base a + ar_size a"
    using p ai(2) by (simp_all add: word_le_nat_alt word_less_nat_alt unat_add_no_wrap)
  have p0: "p \<noteq> 0" using p ai(1) by (metis add_is_0 unat_0 unat_eq_zero)
  have "unat (p - ar_base a) = boff ?b" using range(1) p by (simp add: unat_sub_no_wrap)
  then have off: "p - ar_base a = blk_offset ?b" by (simp add: boff_def word_unat_eq_iff)
  have uniq: "blk_offset (ar_blocks a ! j) \<noteq> blk_offset ?b" if "j < i" for j
    using live_distinct_offsets [OF inv that i] that i by (auto simp: boff_def live_nth)
  have f: "find (\<lambda>k. blk_offset (ar_blocks a ! k) = p - ar_base a) [0..<?n] = Some i"
    unfolding find_Some_iff using i uniq off by (intro exI [of _ i]) (simp add: live_nth)
  define a' where "a' = a\<lparr>ar_blocks := (shift_down (ar_blocks a) i ?n)[unat (ar_count a - 1) := zero_block],
                          ar_count := ar_count a - 1\<rparr>"
  have call: "ag_arena_free (Some a) p = (True, Some a')"
    using ai(1) p0 range f by (simp add: ag_arena_free_def Let_def a'_def)
  have cnt: "unat (ar_count a - 1) = ?n - 1"
    using i by (metis gr_implies_not_zero unat_0 unat_minus_one)
  have lv: "live a' = take i (live a) @ drop (Suc i) (live a)"
    using shift_down_take [OF i, of "ar_blocks a"] i ai(4,5)
    by (simp add: live_def a'_def cnt min_def)
  have "blocks_ok (unat (ar_size a)) (live a')"
    unfolding lv using inv i ai(6) by (intro blocks_ok_remove) (simp_all add: arena_inv_def)
  then have "arena_inv a'"
    using inv cnt by (auto simp: arena_inv_def a'_def word_le_nat_alt)
  with call lv show thesis using that [of a'] by (simp add: a'_def)
qed

lemma arena_free_foreign:
  assumes "arena_inv a" and "\<forall>b \<in> set (live a). unat p \<noteq> unat (ar_base a) + boff b"
  shows "ag_arena_free (Some a) p = (False, Some a)"
proof -
  note ai = arena_invD [OF assms(1)]
  have "find (\<lambda>i. blk_offset (ar_blocks a ! i) = p - ar_base a) [0..<unat (ar_count a)] = None"
    if "\<not> p < ar_base a"
    unfolding find_None_iff
  proof (rule notI)
    assume "\<exists>x. x \<in> set [0..<unat (ar_count a)] \<and> blk_offset (ar_blocks a ! x) = p - ar_base a"
    then obtain i where i: "i < unat (ar_count a)" "blk_offset (live a ! i) = p - ar_base a"
      by (auto simp: live_nth)
    then have "unat p = unat (ar_base a) + boff (live a ! i)"
      using that by (simp add: boff_def unat_sub_no_wrap word_less_nat_alt word_le_nat_alt)
    moreover have "live a ! i \<in> set (live a)" using i ai(6) by simp
    ultimately show False using assms(2) by blast
  qed
  then show ?thesis by (auto simp: ag_arena_free_def Let_def)
qed

section \<open>The contract\<close>

definition arena_ok :: "ag_arena option \<Rightarrow> bool" where
  "arena_ok arena = (case arena of None \<Rightarrow> False | Some a \<Rightarrow> arena_inv a)"

text \<open>The addresses handed out: where each live block starts, and its size.\<close>

definition arena_spans :: "ag_arena option \<Rightarrow> (nat \<times> nat) set" where
  "arena_spans arena =
     (case arena of
        None \<Rightarrow> {}
      | Some a \<Rightarrow> (\<lambda>b. (unat (ar_base a) + boff b, unat (blk_size b))) ` set (live a))"

lemma arena_alloc_null_same:
  assumes "arena_inv a" and "fst (ag_arena_alloc (Some a) bytes align) = NULL"
  shows "snd (ag_arena_alloc (Some a) bytes align) = Some a"
proof (cases "bytes = 0 \<or> not_pow2 align \<or> ar_max_blocks a \<le> ar_count a")
  case True
  then show ?thesis by (auto simp: ag_arena_alloc_def)
next
  case False
  then show ?thesis using arena_alloc_fails(1) [OF assms(1) _ _ _ assms(2)] by (simp add: not_le)
qed

lemma arena_free_cases:
  assumes "arena_inv a"
  obtains (own) i a' where "i < unat (ar_count a)" "unat p = unat (ar_base a) + boff (live a ! i)"
      "ag_arena_free (Some a) p = (True, Some a')" "arena_inv a'"
      "live a' = take i (live a) @ drop (Suc i) (live a)" "ar_base a' = ar_base a"
  | (foreign) "ag_arena_free (Some a) p = (False, Some a)"
      "\<forall>b \<in> set (live a). unat p \<noteq> unat (ar_base a) + boff b"
proof (cases "\<exists>b \<in> set (live a). unat p = unat (ar_base a) + boff b")
  case True
  then obtain i where i: "i < unat (ar_count a)" "unat p = unat (ar_base a) + boff (live a ! i)"
    using arena_invD(6) [OF assms] by (auto simp: in_set_conv_nth)
  from arena_free_success [OF assms i] obtain a' where "ag_arena_free (Some a) p = (True, Some a')"
    "arena_inv a'" "live a' = take i (live a) @ drop (Suc i) (live a)" "ar_base a' = ar_base a"
    by blast
  with i show thesis by (rule own)
next
  case False
  then show thesis using arena_free_foreign [OF assms] foreign by blast
qed

lemma live_others:
  assumes "arena_inv a" and i: "i < unat (ar_count a)"
  shows "set (take i (live a) @ drop (Suc i) (live a)) = {b \<in> set (live a). boff b \<noteq> boff (live a ! i)}"
proof (rule set_remove_nth)
  have "boff (live a ! j) \<noteq> boff (live a ! k)" if "j < unat (ar_count a)" "k < unat (ar_count a)" "j \<noteq> k" for j k
    using live_distinct_offsets [OF assms(1), of k j] live_distinct_offsets [OF assms(1), of j k]
      that by (cases "k < j") auto
  then show "distinct (map boff (live a))"
    using arena_invD(6) [OF assms(1)] by (simp add: distinct_conv_nth)
  show "i < length (live a)" using i arena_invD(6) [OF assms(1)] by simp
qed

lemma arena_spans_alloc:
  assumes "arena_inv a" and "ag_arena_alloc (Some a) n al = (p, s')" and "p \<noteq> NULL"
  shows "arena_ok s'" and "arena_spans s' = insert (unat p, unat n) (arena_spans (Some a))"
    and "(q, m) \<in> arena_spans (Some a) \<Longrightarrow> q + m \<le> unat p \<or> unat p + unat n \<le> q"
proof -
  from arena_alloc_success [OF assms] obtain i b a' where *: "s' = Some a'" "arena_inv a'"
    "live a' = take i (live a) @ b # drop i (live a)" "blk_size b = n"
    "unat p = unat (ar_base a) + boff b" "ar_base a' = ar_base a"
    "\<forall>c \<in> set (live a). bend c \<le> boff b \<or> bend b \<le> boff c" by metis
  show "arena_ok s'" using * by (simp add: arena_ok_def)
  have "set (live a') = insert b (set (live a))"
    unfolding *(3) by (metis Un_insert_right append_take_drop_id list.simps(15) set_append)
  with * show "arena_spans s' = insert (unat p, unat n) (arena_spans (Some a))"
    by (simp add: arena_spans_def)
  assume "(q, m) \<in> arena_spans (Some a)"
  then obtain c where "c \<in> set (live a)" "q = unat (ar_base a) + boff c" "q + m = unat (ar_base a) + bend c"
    by (auto simp: arena_spans_def boff_def bend_def)
  moreover have "unat p + unat n = unat (ar_base a) + bend b" using * by (simp add: boff_def bend_def)
  ultimately show "q + m \<le> unat p \<or> unat p + unat n \<le> q" using * by auto
qed

lemma arena_spans_free:
  assumes "arena_inv a"
  shows "arena_ok (snd (ag_arena_free (Some a) p))"
    and "arena_spans (snd (ag_arena_free (Some a) p)) = {(q, m) \<in> arena_spans (Some a). q \<noteq> unat p}"
proof -
  consider (own) i a' where "i < unat (ar_count a)" "unat p = unat (ar_base a) + boff (live a ! i)"
      "ag_arena_free (Some a) p = (True, Some a')" "arena_inv a'"
      "set (live a') = {b \<in> set (live a). boff b \<noteq> boff (live a ! i)}" "ar_base a' = ar_base a"
    | (foreign) "ag_arena_free (Some a) p = (False, Some a)"
      "\<forall>b \<in> set (live a). unat p \<noteq> unat (ar_base a) + boff b"
    using live_others [OF assms] by (cases rule: arena_free_cases [OF assms, of p]) auto
  note cs = this
  show "arena_ok (snd (ag_arena_free (Some a) p))"
    using cs by cases (simp_all add: arena_ok_def assms)
  show "arena_spans (snd (ag_arena_free (Some a) p)) = {(q, m) \<in> arena_spans (Some a). q \<noteq> unat p}"
    using cs
  proof cases
    case (own i a')
    have "arena_spans (snd (ag_arena_free (Some a) p)) = (\<lambda>b. (unat (ar_base a) + boff b, unat (blk_size b))) `
        {b \<in> set (live a). unat (ar_base a) + boff b \<noteq> unat p}"
      by (simp add: arena_spans_def own(2,3,5,6))
    then show ?thesis by (auto simp: arena_spans_def)
  next
    case foreign
    then show ?thesis by (auto simp: arena_spans_def)
  qed
qed

interpretation arena: region_alloc arena_ok arena_spans ag_arena_alloc ag_arena_free
proof unfold_locales
  fix s n al and p :: ptr and q m :: nat and s'
  assume "arena_ok s"
  then obtain a where s: "s = Some a" "arena_inv a" by (auto simp: arena_ok_def split: option.splits)
  note null = arena_alloc_null_same [OF s(2), folded s(1)]
  note alloc = arena_spans_alloc [OF s(2), folded s(1)]
  show "arena_ok (snd (ag_arena_alloc s n al))"
    using null [of n al] alloc(1) [of n al] \<open>arena_ok s\<close>
    by (cases "ag_arena_alloc s n al") (auto simp: s(1))
  show "ag_arena_alloc s n al = (NULL, s') \<Longrightarrow> arena_spans s' = arena_spans s"
    using null [of n al] by (simp add: s(1))
  show "ag_arena_alloc s n al = (p, s') \<Longrightarrow> p \<noteq> NULL \<Longrightarrow>
        arena_spans s' = insert (unat p, unat n) (arena_spans s)" by (rule alloc(2))
  show "ag_arena_alloc s n al = (p, s') \<Longrightarrow> p \<noteq> NULL \<Longrightarrow> (q, m) \<in> arena_spans s \<Longrightarrow>
        q + m \<le> unat p \<or> unat p + unat n \<le> q" by (rule alloc(3))
  show "arena_ok (snd (ag_arena_free s p))"
    and "arena_spans (snd (ag_arena_free s p)) = {(q, m) \<in> arena_spans s. q \<noteq> unat p}"
    using arena_spans_free [OF s(2)] by (simp_all add: s(1))
qed

section \<open>Initial state and frame\<close>

lemma arena_init_inv:
  assumes "ag_arena_init (Some z) base sz (Some bs) mx = Some a" and "length bs = unat mx"
    and "base \<noteq> NULL" and "mx \<noteq> 0" and "unat base + unat sz < 2 ^ 32" and "unat sz \<le> 2 ^ 31"
  shows "arena_inv a" and "live a = []" and "ar_base a = base" and "ar_size a = sz"
  using assms by (auto simp: ag_arena_init_def arena_inv_def live_def blocks_ok_def)

lemma arena_frame:
  assumes "arena_inv a"
  shows "\<exists>a'. snd (ag_arena_alloc (Some a) n al) = Some a' \<and> ar_base a' = ar_base a \<and> ar_size a' = ar_size a"
    and "\<exists>a'. snd (ag_arena_free (Some a) p) = Some a' \<and> ar_base a' = ar_base a \<and> ar_size a' = ar_size a"
  by (auto simp: ag_arena_alloc_def ag_arena_free_def Let_def split: option.splits)

lemma arena_run_frame:
  "arena_inv a \<Longrightarrow> \<exists>a'. run_reqs ag_arena_alloc ag_arena_free (Some a) rs = Some a' \<and> arena_inv a' \<and>
     ar_base a' = ar_base a \<and> ar_size a' = ar_size a"
proof (induction rs arbitrary: a)
  case (Cons r rs)
  have ok: "arena_ok (Some a)" using Cons.prems by (simp add: arena_ok_def)
  obtain a1 where a1: "run_reqs ag_arena_alloc ag_arena_free (Some a) (r # rs) =
      run_reqs ag_arena_alloc ag_arena_free (Some a1) rs" "arena_inv a1" "ar_base a1 = ar_base a" "ar_size a1 = ar_size a"
  proof (cases r)
    case (Alloc_req n al)
    then show thesis
      using that arena_frame(1) [OF Cons.prems, of n al] arena.alloc_inv [OF ok, of n al]
      by (auto simp: arena_ok_def)
  next
    case (Free_req p)
    then show thesis
      using that arena_frame(2) [OF Cons.prems, of p] arena.release_inv [OF ok, of p]
      by (auto simp: arena_ok_def)
  qed
  from Cons.IH [OF a1(2)] a1 show ?case by simp
qed simp

lemma arena_spans_inside:
  assumes "arena_inv a" and "(q, m) \<in> arena_spans (Some a)"
  shows "unat (ar_base a) \<le> q" and "q + m \<le> unat (ar_base a) + unat (ar_size a)"
  using arena_invD(8) [OF assms(1)] assms(2) by (auto simp: arena_spans_def boff_def bend_def)

lemma arena_largest_free_iff:
  assumes "bytes \<noteq> 0" and "\<not> not_pow2 align" and "ar_base a \<noteq> NULL" and "ar_count a < ar_max_blocks a"
  shows "bytes \<le> ag_arena_largest_free (Some a) align \<longleftrightarrow>
         (\<exists>i \<le> unat (ar_count a). gap_fits a bytes align i)"
proof -
  have "\<not> ar_max_blocks a \<le> ar_count a" using assms(4) by (simp add: not_le)
  then have "ag_arena_largest_free (Some a) align =
      foldl (\<lambda>z i. if align_up (gap_start a i) align < gap_end a i \<and>
                      z < gap_end a i - align_up (gap_start a i) align
                   then gap_end a i - align_up (gap_start a i) align else z)
        0 [0..<Suc (unat (ar_count a))]"
    using assms by (simp del: upt_Suc add: ag_arena_largest_free_def Let_def)
  then show ?thesis
    using assms(1) by (simp del: upt_Suc add: foldl_largest [OF assms(1)] gap_fits_iff [OF assms(1)]
        Bex_def less_Suc_eq_le)
qed

section \<open>Properties\<close>

text \<open>
  C1. However an initialised arena is used, one of at most 2 GiB that does not wrap around the end of the address
  space - any sequence of allocations and releases, of any sizes, alignments and pointers - the blocks handed out and not given back never overlap one
  another, never leave the region, and the arena's invariant holds.
\<close>

theorem arena_run_safe:
  assumes "ag_arena_init (Some z) base sz (Some bs) mx = Some a" and "length bs = unat mx"
    and "base \<noteq> NULL" and "mx \<noteq> 0" and "unat base + unat sz < 2 ^ 32" and "unat sz \<le> 2 ^ 31"
  shows "\<exists>a'. run_reqs ag_arena_alloc ag_arena_free (Some a) rs = Some a' \<and> arena_inv a' \<and>
     disjoint_spans (arena_spans (Some a')) \<and>
     (\<forall>q m. (q, m) \<in> arena_spans (Some a') \<longrightarrow> unat base \<le> q \<and> q + m \<le> unat base + unat sz)"
proof -
  note i = arena_init_inv [OF assms]
  from arena_run_frame [OF i(1), of rs] i obtain a' where
    a': "run_reqs ag_arena_alloc ag_arena_free (Some a) rs = Some a'" "arena_inv a'"
      "ar_base a' = base" "ar_size a' = sz" by auto
  have "disjoint_spans (arena_spans (Some a))" and "arena_ok (Some a)"
    using i by (simp_all add: arena_ok_def arena_spans_def disjoint_spans_def)
  then have "disjoint_spans (arena_spans (Some a'))"
    using arena.run_disjoint [of "Some a" rs] a'(1) by simp
  then show ?thesis using a' arena_spans_inside [OF a'(2)] by auto
qed

definition demo_arena :: ag_arena where
  "demo_arena = \<lparr>ar_base = 1077411840, ar_size = 65536, ar_blocks = replicate 8 zero_block,
                 ar_max_blocks = 8, ar_count = 0\<rparr>"

theorem arena_run_safe_witness:
  "\<exists>a'. run_reqs ag_arena_alloc ag_arena_free (Some demo_arena)
       [Alloc_req 100 16, Alloc_req 40 4, Free_req 1077411840, Alloc_req 64 32] = Some a' \<and>
     arena_inv a' \<and> disjoint_spans (arena_spans (Some a')) \<and>
     (\<forall>q m. (q, m) \<in> arena_spans (Some a') \<longrightarrow>
        unat (1077411840 :: u32) \<le> q \<and> q + m \<le> unat (1077411840 :: u32) + unat (65536 :: u32))"
  by (rule arena_run_safe [where z = zero_arena and bs = "replicate 8 zero_block" and mx = 8])
    (simp_all add: ag_arena_init_def demo_arena_def)

text \<open>
  First fit is exact: with valid arguments and room in the block table, \<open>ag_arena_alloc\<close> fails
  precisely when every aligned place of that size in the region overlaps a live block.
\<close>

theorem arena_alloc_fails_iff:
  assumes "arena_inv a" and "bytes \<noteq> 0" and "\<not> not_pow2 align" and "ar_count a < ar_max_blocks a"
  shows "fst (ag_arena_alloc (Some a) bytes align) = NULL \<longleftrightarrow>
     (\<forall>x. unat align dvd x \<and> x + unat bytes \<le> unat (ar_size a) \<longrightarrow>
          (\<exists>b \<in> set (live a). \<not> (bend b \<le> x \<or> x + unat bytes \<le> boff b)))"
    (is "?fail \<longleftrightarrow> ?full")
proof
  assume ?fail
  then show ?full
    using free_place_fits [OF assms(1,3), of _ bytes] arena_alloc_fails(2) [OF assms] by blast
next
  assume full: ?full
  show ?fail
  proof (rule ccontr)
    assume ok: "\<not> ?fail"
    obtain p r where call: "ag_arena_alloc (Some a) bytes align = (p, r)"
      by (cases "ag_arena_alloc (Some a) bytes align")
    with ok have "p \<noteq> NULL" by simp
    from arena_alloc_success [OF assms(1) call this] obtain b where
      b: "blk_size b = bytes" "unat align dvd boff b" "bend b \<le> unat (ar_size a)"
      "\<forall>c \<in> set (live a). bend c \<le> boff b \<or> bend b \<le> boff c" by metis
    then have "boff b + unat bytes = bend b" by (simp add: boff_def bend_def)
    with b full show False by metis
  qed
qed

theorem arena_alloc_fails_iff_witness:
  "fst (ag_arena_alloc (Some demo_arena) 131072 16) = NULL \<longleftrightarrow>
     (\<forall>x. unat (16 :: u32) dvd x \<and> x + unat (131072 :: u32) \<le> unat (ar_size demo_arena) \<longrightarrow>
          (\<exists>b \<in> set (live demo_arena). \<not> (bend b \<le> x \<or> x + unat (131072 :: u32) \<le> boff b)))"
  by (rule arena_alloc_fails_iff)
    (simp_all add: demo_arena_def arena_inv_def live_def blocks_ok_def not_pow2_def)

text \<open>
  \<open>ag_arena_largest_free\<close> tells the truth: a request of a non-zero size succeeds exactly when it
  is no larger than the value reported for its alignment.
\<close>

theorem arena_largest_free_exact:
  assumes "arena_inv a" and "bytes \<noteq> 0" and "\<not> not_pow2 align"
  shows "fst (ag_arena_alloc (Some a) bytes align) \<noteq> NULL \<longleftrightarrow>
         bytes \<le> ag_arena_largest_free (Some a) align"
proof (cases "ar_count a < ar_max_blocks a")
  case True
  note ai = arena_invD [OF assms(1)]
  have "fst (ag_arena_alloc (Some a) bytes align) \<noteq> NULL \<longleftrightarrow>
        (\<exists>i \<le> unat (ar_count a). gap_fits a bytes align i)"
  proof
    assume ok: "fst (ag_arena_alloc (Some a) bytes align) \<noteq> NULL"
    show "\<exists>i \<le> unat (ar_count a). gap_fits a bytes align i"
    proof (rule ccontr)
      assume "\<not> (\<exists>i \<le> unat (ar_count a). gap_fits a bytes align i)"
      then have "find (gap_fits a bytes align) [0..<Suc (unat (ar_count a))] = None"
        by (simp del: upt_Suc add: find_None_iff less_Suc_eq_le)
      with ok show False by (simp del: upt_Suc add: ag_arena_alloc_def split: if_splits)
    qed
  next
    assume "\<exists>i \<le> unat (ar_count a). gap_fits a bytes align i"
    then show "fst (ag_arena_alloc (Some a) bytes align) \<noteq> NULL"
      using arena_alloc_fails(2) [OF assms True] by blast
  qed
  then show ?thesis using arena_largest_free_iff [OF assms(2,3) ai(1) True] by simp
next
  case False
  then show ?thesis using assms(2)
    by (simp add: ag_arena_alloc_def ag_arena_largest_free_def not_less)
qed

theorem arena_largest_free_exact_witness:
  "fst (ag_arena_alloc (Some demo_arena) 65536 16) \<noteq> NULL \<longleftrightarrow>
   65536 \<le> ag_arena_largest_free (Some demo_arena) 16"
  by (rule arena_largest_free_exact)
    (simp_all add: demo_arena_def arena_inv_def live_def blocks_ok_def not_pow2_def)

text \<open>
  Release undoes allocation: giving back the block just handed out succeeds and leaves the live
  blocks exactly as they were before the allocation.
\<close>

theorem arena_alloc_free_roundtrip:
  assumes "arena_inv a" and "ag_arena_alloc (Some a) bytes align = (p, r)" and "p \<noteq> NULL"
  shows "\<exists>a'. ag_arena_free r p = (True, Some a') \<and> live a' = live a \<and> arena_inv a'"
proof -
  from arena_alloc_success [OF assms] obtain i b a1 where
    *: "i \<le> unat (ar_count a)" "r = Some a1" "arena_inv a1" "live a1 = take i (live a) @ b # drop i (live a)"
      "unat p = unat (ar_base a) + boff b" "ar_base a1 = ar_base a" by metis
  have il: "i \<le> length (live a)" using *(1) arena_invD(6) [OF assms(1)] by simp
  have "i < length (live a1)" using il unfolding *(4) by simp
  then have i: "i < unat (ar_count a1)" using arena_invD(6) [OF *(3)] by simp
  have "live a1 ! i = b" using il unfolding *(4) by (simp add: nth_append)
  then have "unat p = unat (ar_base a1) + boff (live a1 ! i)" using * by simp
  from arena_free_success [OF *(3) i this] obtain a' where
    a': "ag_arena_free (Some a1) p = (True, Some a')" "arena_inv a'"
      "live a' = take i (live a1) @ drop (Suc i) (live a1)" by blast
  moreover have "take i (live a1) @ drop (Suc i) (live a1) = live a" using il unfolding *(4) by simp
  ultimately show ?thesis using *(2) by auto
qed

theorem arena_alloc_free_roundtrip_witness:
  "\<exists>a'. ag_arena_free (snd (ag_arena_alloc (Some demo_arena) 100 16)) 1077411840 = (True, Some a') \<and>
        live a' = live demo_arena \<and> arena_inv a'"
proof (rule arena_alloc_free_roundtrip)
  show "arena_inv demo_arena"
    by (simp add: demo_arena_def arena_inv_def live_def blocks_ok_def)
  have "gap_fits demo_arena 100 16 0"
    by (simp add: gap_fits_def gap_start_def gap_end_def align_up_def demo_arena_def)
  then have "fst (ag_arena_alloc (Some demo_arena) 100 16) = 1077411840"
    by (simp add: ag_arena_alloc_def not_pow2_def align_up_def gap_start_def demo_arena_def)
  then show "ag_arena_alloc (Some demo_arena) 100 16 =
      (1077411840, snd (ag_arena_alloc (Some demo_arena) 100 16))"
    by (simp add: prod_eq_iff)
qed simp

end
