(* ===== verification/Reslist.thy ===== *)
theory Reslist
  imports Interfaces
begin

text \<open>
  \<open>core/reslist.c\<close>: the list of everything a process obtained through a syscall, so that ending
  the process gives all of it back. The storage is the caller's array (a function of the slot
  index; slots from \<open>capacity\<close> on do not exist), a slot of type \<open>AG_RES_NONE\<close> is free, and the
  sequence number of an entry is its registration order. The invariant \<open>res_inv\<close> ties the counters
  to the entries; the properties are that recording and forgetting are exact and that the reclaim
  at process death releases every entry once, by type and newest first within a type.

  The release callback of \<open>ag_reslist_reclaim\<close> is a function on its context; it is called after
  the entry has left the list, and the model has it leave the list alone.
\<close>

section \<open>The list\<close>

datatype ag_res_type =
    AG_RES_NONE | AG_RES_THREAD | AG_RES_TIMER | AG_RES_FILE | AG_RES_MUTEX | AG_RES_SEM
  | AG_RES_QUEUE | AG_RES_MEM | AG_RES_TYPE_COUNT

fun res_type_num :: "ag_res_type \<Rightarrow> nat" where
  "res_type_num AG_RES_NONE = 0"
| "res_type_num AG_RES_THREAD = 1"
| "res_type_num AG_RES_TIMER = 2"
| "res_type_num AG_RES_FILE = 3"
| "res_type_num AG_RES_MUTEX = 4"
| "res_type_num AG_RES_SEM = 5"
| "res_type_num AG_RES_QUEUE = 6"
| "res_type_num AG_RES_MEM = 7"
| "res_type_num AG_RES_TYPE_COUNT = 8"

lemma res_type_num_inj: "res_type_num a = res_type_num b \<Longrightarrow> a = b"
  by (cases a; cases b) simp_all

text \<open>The order of the enumerators is the order of release.\<close>

instantiation ag_res_type :: linorder
begin

definition less_eq_ag_res_type :: "ag_res_type \<Rightarrow> ag_res_type \<Rightarrow> bool" where
  "a \<le> b \<longleftrightarrow> res_type_num a \<le> res_type_num b"

definition less_ag_res_type :: "ag_res_type \<Rightarrow> ag_res_type \<Rightarrow> bool" where
  "a < b \<longleftrightarrow> res_type_num a < res_type_num b"

instance
  by intro_classes (auto simp: less_eq_ag_res_type_def less_ag_res_type_def intro: res_type_num_inj)

end

record ag_res =
  res_type :: ag_res_type
  res_ref :: ptr
  res_extra :: u32
  res_seq :: u32

record ag_reslist =
  rl_slots :: "(nat \<Rightarrow> ag_res) option"
  rl_capacity :: u32
  rl_count :: u32
  rl_next_seq :: u32
  rl_peak :: u32

definition zero_res :: ag_res where
  "zero_res = \<lparr>res_type = AG_RES_NONE, res_ref = NULL, res_extra = 0, res_seq = 0\<rparr>"

definition ag_reslist_init ::
  "ag_reslist option \<Rightarrow> (nat \<Rightarrow> ag_res) option \<Rightarrow> u32 \<Rightarrow> ag_reslist option" where
  "ag_reslist_init list storage capacity =
     (case list of
        None \<Rightarrow> None
      | Some _ \<Rightarrow>
          let l = \<lparr>rl_slots = None, rl_capacity = 0, rl_count = 0, rl_next_seq = 0, rl_peak = 0\<rparr>
          in case storage of
               None \<Rightarrow> Some l
             | Some st \<Rightarrow>
                 if capacity > 0
                 then Some (l\<lparr>rl_slots := Some (\<lambda>i. if i < unat capacity then zero_res else st i),
                              rl_capacity := capacity\<rparr>)
                 else Some l)"

definition ag_reslist_add ::
  "ag_reslist option \<Rightarrow> ag_res_type \<Rightarrow> ptr \<Rightarrow> u32 \<Rightarrow> unit ag_err \<times> ag_reslist option" where
  "ag_reslist_add list type ref extra =
     (case list of
        None \<Rightarrow> (Inl AG_EINVAL, None)
      | Some l \<Rightarrow>
          (case rl_slots l of
             None \<Rightarrow> (Inl AG_EINVAL, Some l)
           | Some slots \<Rightarrow>
               if ref = NULL \<or> type \<le> AG_RES_NONE \<or> type \<ge> AG_RES_TYPE_COUNT
               then (Inl AG_EINVAL, Some l)
               else case find (\<lambda>i. res_type (slots i) = AG_RES_NONE) [0..<unat (rl_capacity l)] of
                      None \<Rightarrow> (Inl AG_ENOMEM, Some l)
                    | Some i \<Rightarrow>
                        let n = rl_count l + 1
                        in (Inr (),
                            Some (l\<lparr>rl_slots := Some (slots(i := \<lparr>res_type = type, res_ref = ref,
                                       res_extra = extra, res_seq = rl_next_seq l\<rparr>)),
                                    rl_next_seq := rl_next_seq l + 1,
                                    rl_count := n,
                                    rl_peak := (if n > rl_peak l then n else rl_peak l)\<rparr>))))"

definition find_slot :: "ag_reslist option \<Rightarrow> ag_res_type \<Rightarrow> ptr \<Rightarrow> nat option" where
  "find_slot list type ref =
     (case list of
        None \<Rightarrow> None
      | Some l \<Rightarrow>
          (case rl_slots l of
             None \<Rightarrow> None
           | Some slots \<Rightarrow>
               if ref = NULL then None
               else find (\<lambda>i. res_type (slots i) = type \<and> res_ref (slots i) = ref)
                      [0..<unat (rl_capacity l)]))"

text \<open>The result is the return value, what is stored through \<open>extra_out\<close>, and the list.\<close>

definition ag_reslist_remove ::
  "ag_reslist option \<Rightarrow> ag_res_type \<Rightarrow> ptr \<Rightarrow> bool \<times> u32 option \<times> ag_reslist option" where
  "ag_reslist_remove list type ref =
     (case find_slot list type ref of
        None \<Rightarrow> (False, None, list)
      | Some i \<Rightarrow>
          (case list of
             None \<Rightarrow> (False, None, list)
           | Some l \<Rightarrow>
               (case rl_slots l of
                  None \<Rightarrow> (False, None, list)
                | Some slots \<Rightarrow>
                    (True, Some (res_extra (slots i)),
                     Some (l\<lparr>rl_slots := Some (slots(i := zero_res)), rl_count := rl_count l - 1\<rparr>)))))"

definition ag_reslist_holds :: "ag_reslist option \<Rightarrow> ag_res_type \<Rightarrow> ptr \<Rightarrow> bool" where
  "ag_reslist_holds list type ref \<longleftrightarrow> find_slot list type ref \<noteq> None"

definition ag_reslist_count :: "ag_reslist option \<Rightarrow> u32" where
  "ag_reslist_count list = (case list of None \<Rightarrow> 0 | Some l \<Rightarrow> rl_count l)"

definition ag_reslist_count_of :: "ag_reslist option \<Rightarrow> ag_res_type \<Rightarrow> u32" where
  "ag_reslist_count_of list type =
     (case list of
        None \<Rightarrow> 0
      | Some l \<Rightarrow>
          (case rl_slots l of
             None \<Rightarrow> 0
           | Some slots \<Rightarrow>
               foldl (\<lambda>n i. if res_type (slots i) = type then n + 1 else n) 0
                 [0..<unat (rl_capacity l)]))"

definition ag_reslist_peak :: "ag_reslist option \<Rightarrow> u32" where
  "ag_reslist_peak list = (case list of None \<Rightarrow> 0 | Some l \<Rightarrow> rl_peak l)"

definition ag_reslist_total_of :: "ag_reslist option \<Rightarrow> ag_res_type \<Rightarrow> u32" where
  "ag_reslist_total_of list type =
     (case list of
        None \<Rightarrow> 0
      | Some l \<Rightarrow>
          (case rl_slots l of
             None \<Rightarrow> 0
           | Some slots \<Rightarrow>
               foldl (\<lambda>total i. if res_type (slots i) = type then total + res_extra (slots i) else total) 0
                 [0..<unat (rl_capacity l)]))"

text \<open>The scan for the newest entry of a type: the index it ends with.\<close>

definition newest_slot :: "nat \<Rightarrow> (nat \<Rightarrow> ag_res) \<Rightarrow> ag_res_type \<Rightarrow> nat option" where
  "newest_slot cap slots type =
     foldl (\<lambda>newest i.
        if res_type (slots i) \<noteq> type then newest
        else case newest of
               None \<Rightarrow> Some i
             | Some j \<Rightarrow> if res_seq (slots i) > res_seq (slots j) then Some i else newest)
       None [0..<cap]"

lemma newest_slot_Suc:
  "newest_slot (Suc cap) slots type =
     (if res_type (slots cap) \<noteq> type then newest_slot cap slots type
      else case newest_slot cap slots type of
             None \<Rightarrow> Some cap
           | Some j \<Rightarrow> if res_seq (slots cap) > res_seq (slots j) then Some cap
                       else newest_slot cap slots type)"
  unfolding newest_slot_def by (simp split: option.split)

lemma newest_slot_spec:
  "case newest_slot cap slots type of
     None \<Rightarrow> \<forall>j < cap. res_type (slots j) \<noteq> type
   | Some i \<Rightarrow> i < cap \<and> res_type (slots i) = type \<and>
       (\<forall>j < cap. res_type (slots j) = type \<longrightarrow> res_seq (slots j) \<le> res_seq (slots i))"
proof (induction cap)
  case (Suc cap)
  then show ?case
    by (auto simp: newest_slot_Suc less_Suc_eq not_less split: option.splits)
qed (simp add: newest_slot_def)

text \<open>
  One type of the reclaim loop: take the newest entry, clear its slot, call the callback, until
  none is left. The loop is entered for the types between \<open>AG_RES_NONE\<close> and
  \<open>AG_RES_TYPE_COUNT\<close> only; the guard on \<open>AG_RES_NONE\<close> says so.
\<close>

type_synonym 'c release_fn = "ag_res_type \<Rightarrow> ptr \<Rightarrow> u32 \<Rightarrow> 'c \<Rightarrow> 'c"

definition call_release :: "'c release_fn option \<Rightarrow> ag_res \<Rightarrow> 'c \<Rightarrow> 'c" where
  "call_release release r ctx =
     (case release of None \<Rightarrow> ctx | Some f \<Rightarrow> f (res_type r) (res_ref r) (res_extra r) ctx)"

function reclaim_type ::
  "nat \<Rightarrow> 'c release_fn option \<Rightarrow> ag_res_type \<Rightarrow> (nat \<Rightarrow> ag_res) \<Rightarrow> u32 \<Rightarrow> 'c \<Rightarrow> u32 \<Rightarrow>
   (nat \<Rightarrow> ag_res) \<times> u32 \<times> 'c \<times> u32" where
  "reclaim_type cap release type slots cnt ctx released =
     (if type = AG_RES_NONE then (slots, cnt, ctx, released)
      else case newest_slot cap slots type of
             None \<Rightarrow> (slots, cnt, ctx, released)
           | Some i \<Rightarrow>
               reclaim_type cap release type (slots(i := zero_res)) (cnt - 1)
                 (call_release release (slots i) ctx) (released + 1))"
  by pat_completeness auto
termination
proof (relation "measure (\<lambda>(cap, _, type, slots, _). card {i. i < cap \<and> res_type (slots i) = type})", goal_cases)
  case (2 cap release type slots cnt ctx released i)
  with newest_slot_spec [of cap slots type] have i: "i < cap" "res_type (slots i) = type" by auto
  from 2 have "{j. j < cap \<and> res_type ((slots(i := zero_res)) j) = type}
      = {j. j < cap \<and> res_type (slots j) = type} - {i}"
    by (auto simp: zero_res_def)
  moreover have "i \<in> {j. j < cap \<and> res_type (slots j) = type}" using i by simp
  moreover have "finite {j. j < cap \<and> res_type (slots j) = type}" by simp
  ultimately have "card {j. j < cap \<and> res_type ((slots(i := zero_res)) j) = type}
      < card {j. j < cap \<and> res_type (slots j) = type}"
    by (metis card_Diff1_less)
  then show ?case by (simp del: fun_upd_apply)
qed simp

definition reclaim_types :: "ag_res_type list" where
  "reclaim_types = [AG_RES_THREAD, AG_RES_TIMER, AG_RES_FILE, AG_RES_MUTEX, AG_RES_SEM,
                    AG_RES_QUEUE, AG_RES_MEM]"

fun reclaim_all ::
  "nat \<Rightarrow> 'c release_fn option \<Rightarrow> ag_res_type list \<Rightarrow> (nat \<Rightarrow> ag_res) \<Rightarrow> u32 \<Rightarrow> 'c \<Rightarrow> u32 \<Rightarrow>
   (nat \<Rightarrow> ag_res) \<times> u32 \<times> 'c \<times> u32" where
  "reclaim_all cap release [] slots cnt ctx released = (slots, cnt, ctx, released)"
| "reclaim_all cap release (t # ts) slots cnt ctx released =
     (case reclaim_type cap release t slots cnt ctx released of
        (slots', cnt', ctx', released') \<Rightarrow> reclaim_all cap release ts slots' cnt' ctx' released')"

definition ag_reslist_reclaim ::
  "ag_reslist option \<Rightarrow> 'c release_fn option \<Rightarrow> 'c \<Rightarrow> u32 \<times> ag_reslist option \<times> 'c" where
  "ag_reslist_reclaim list release ctx =
     (case list of
        None \<Rightarrow> (0, None, ctx)
      | Some l \<Rightarrow>
          (case rl_slots l of
             None \<Rightarrow> (0, Some l, ctx)
           | Some slots \<Rightarrow>
               (case reclaim_all (unat (rl_capacity l)) release reclaim_types slots (rl_count l) ctx 0 of
                  (slots', cnt', ctx', released) \<Rightarrow>
                    (released, Some (l\<lparr>rl_slots := Some slots', rl_count := cnt'\<rparr>), ctx'))))"

fun ag_res_type_name :: "ag_res_type \<Rightarrow> string" where
  "ag_res_type_name AG_RES_THREAD = ''thread''"
| "ag_res_type_name AG_RES_TIMER = ''timer''"
| "ag_res_type_name AG_RES_FILE = ''file''"
| "ag_res_type_name AG_RES_MUTEX = ''mutex''"
| "ag_res_type_name AG_RES_SEM = ''semaphore''"
| "ag_res_type_name AG_RES_QUEUE = ''queue''"
| "ag_res_type_name AG_RES_MEM = ''memory''"
| "ag_res_type_name _ = ''none''"

section \<open>Entries and the invariant\<close>

definition used_slot :: "ag_res \<Rightarrow> bool" where
  "used_slot r \<longleftrightarrow> res_type r \<noteq> AG_RES_NONE"

definition slot_entries :: "nat \<Rightarrow> (nat \<Rightarrow> ag_res) \<Rightarrow> ag_res multiset" where
  "slot_entries cap slots = mset (filter used_slot (map slots [0..<cap]))"

text \<open>What the list holds, as a multiset: the order of the slots means nothing.\<close>

definition res_entries :: "ag_reslist \<Rightarrow> ag_res multiset" where
  "res_entries l =
     (case rl_slots l of None \<Rightarrow> {#} | Some slots \<Rightarrow> slot_entries (unat (rl_capacity l)) slots)"

text \<open>No two entries share a sequence number.\<close>

definition seqs_distinct :: "ag_res multiset \<Rightarrow> bool" where
  "seqs_distinct M \<longleftrightarrow> (\<forall>s. size {#r \<in># M. res_seq r = s#} \<le> 1)"

definition res_inv :: "ag_reslist \<Rightarrow> bool" where
  "res_inv l \<longleftrightarrow>
     unat (rl_count l) = size (res_entries l) \<and> rl_count l \<le> rl_peak l \<and>
     (\<forall>r \<in># res_entries l. res_type r < AG_RES_TYPE_COUNT \<and> res_ref r \<noteq> NULL \<and> res_seq r < rl_next_seq l) \<and>
     seqs_distinct (res_entries l) \<and>
     (\<forall>slots i. rl_slots l = Some slots \<longrightarrow> i < unat (rl_capacity l) \<longrightarrow>
        res_type (slots i) = AG_RES_NONE \<longrightarrow> slots i = zero_res)"

lemma filter_mset_none: "\<forall>x \<in># M. \<not> P x \<Longrightarrow> filter_mset P M = {#}"
  by (induction M) auto

lemma filter_mset_all: "\<forall>x \<in># M. P x \<Longrightarrow> filter_mset P M = M"
  by (induction M) auto

lemma slot_entries_upd:
  assumes "i < cap"
  shows "slot_entries cap (slots(i := r)) =
     slot_entries cap slots - (if used_slot (slots i) then {#slots i#} else {#}) +
     (if used_slot r then {#r#} else {#})"
proof -
  have "map (slots(i := r)) [0..<cap] = (map slots [0..<cap])[i := r]"
    by (rule nth_equalityI) (auto simp: nth_list_update)
  then have "mset (map (slots(i := r)) [0..<cap]) = add_mset r (mset (map slots [0..<cap]) - {#slots i#})"
    using assms by (simp add: mset_update)
  then show ?thesis
    by (simp add: slot_entries_def mset_filter filter_mset_add_mset filter_diff_mset)
qed

lemma slot_entries_mem:
  "r \<in># slot_entries cap slots \<longleftrightarrow> (\<exists>i < cap. slots i = r \<and> used_slot r)"
  by (auto simp: slot_entries_def)

lemma slot_entries_take:
  assumes "i < cap" and "used_slot (slots i)"
  shows "slot_entries cap slots = add_mset (slots i) (slot_entries cap (slots(i := zero_res)))"
proof -
  have "slots i \<in># slot_entries cap slots" using assms by (auto simp: slot_entries_mem)
  then show ?thesis
    using assms by (simp add: slot_entries_upd) (simp add: used_slot_def zero_res_def)
qed

section \<open>The reclaim loop\<close>

declare reclaim_type.simps [simp del]

text \<open>The order of release.\<close>

definition release_before :: "ag_res \<Rightarrow> ag_res \<Rightarrow> bool" where
  "release_before x y \<longleftrightarrow> res_type x < res_type y \<or> (res_type x = res_type y \<and> res_seq y < res_seq x)"

lemma seqs_distinct_add:
  assumes "seqs_distinct (add_mset x M)"
  shows "seqs_distinct M" and "y \<in># M \<Longrightarrow> res_seq y \<noteq> res_seq x"
proof -
  have le: "size {#r \<in># M. res_seq r = s#} \<le> size {#r \<in># add_mset x M. res_seq r = s#}" for s by simp
  show "seqs_distinct M"
    unfolding seqs_distinct_def
  proof
    fix s
    from assms have "size {#r \<in># add_mset x M. res_seq r = s#} \<le> 1" by (auto simp: seqs_distinct_def)
    with le [of s] show "size {#r \<in># M. res_seq r = s#} \<le> 1" by (rule order_trans)
  qed
  assume "y \<in># M"
  show "res_seq y \<noteq> res_seq x"
  proof
    assume "res_seq y = res_seq x"
    with \<open>y \<in># M\<close> have "y \<in># {#r \<in># M. res_seq r = res_seq x#}" by simp
    then have "1 \<le> size {#r \<in># M. res_seq r = res_seq x#}"
      by (metis One_nat_def Suc_leI nonempty_has_size set_mset_empty empty_iff)
    moreover have "size {#r \<in># add_mset x M. res_seq r = res_seq x#} \<le> 1"
      using assms unfolding seqs_distinct_def by blast
    ultimately show False using \<open>res_seq y = res_seq x\<close> \<open>y \<in># M\<close> by auto
  qed
qed

lemma seqs_distinct_filter: "seqs_distinct M \<Longrightarrow> seqs_distinct (filter_mset P M)"
  unfolding seqs_distinct_def
proof
  fix s
  assume "\<forall>s. size {#r \<in># M. res_seq r = s#} \<le> 1"
  moreover have "size {#r \<in># filter_mset P M. res_seq r = s#} \<le> size {#r \<in># M. res_seq r = s#}"
    by (intro size_mset_mono multiset_filter_mono) simp
  ultimately show "size {#r \<in># filter_mset P M. res_seq r = s#} \<le> 1" by (meson order_trans)
qed

lemma seqs_distinct_insert:
  assumes "seqs_distinct M" and "\<forall>y \<in># M. res_seq y \<noteq> res_seq x"
  shows "seqs_distinct (add_mset x M)"
  unfolding seqs_distinct_def
proof
  fix s
  show "size {#r \<in># add_mset x M. res_seq r = s#} \<le> 1"
  proof (cases "s = res_seq x")
    case True
    then have "{#r \<in># M. res_seq r = s#} = {#}" using assms(2) by (intro filter_mset_none) auto
    then have "{#r \<in># add_mset x M. res_seq r = s#} = {#x#}" using True by simp
    then show ?thesis by simp
  next
    case False
    then show ?thesis using assms(1) by (simp add: seqs_distinct_def)
  qed
qed

lemma filter_mset_disj_split:
  assumes "\<And>x. x \<in># M \<Longrightarrow> P x \<Longrightarrow> \<not> Q x" and "\<And>x. x \<in># M \<Longrightarrow> R x \<longleftrightarrow> P x \<or> Q x"
  shows "filter_mset P M + filter_mset Q M = filter_mset R M"
  using assms by (induction M) auto

lemma reclaim_type_spec:
  assumes "type \<noteq> AG_RES_NONE" and "seqs_distinct (slot_entries cap slots)"
    and "reclaim_type cap release type slots cnt ctx released = (slots', cnt', ctx', released')"
  shows "\<exists>rs. mset rs = {#r \<in># slot_entries cap slots. res_type r = type#} \<and>
     sorted_wrt release_before rs \<and>
     slot_entries cap slots' = {#r \<in># slot_entries cap slots. res_type r \<noteq> type#} \<and>
     ctx' = foldl (\<lambda>c r. call_release release r c) ctx rs \<and>
     cnt' = cnt - word_of_nat (length rs) \<and> released' = released + word_of_nat (length rs)"
  using assms
proof (induction cap release type slots cnt ctx released rule: reclaim_type.induct)
  case (1 cap release type slots cnt ctx released)
  note spec = newest_slot_spec [of cap slots type]
  show ?case
  proof (cases "newest_slot cap slots type")
    case None
    with spec have no: "\<forall>r \<in># slot_entries cap slots. res_type r \<noteq> type"
      by (auto simp: slot_entries_mem)
    then have "{#r \<in># slot_entries cap slots. res_type r = type#} = {#}"
      and "{#r \<in># slot_entries cap slots. res_type r \<noteq> type#} = slot_entries cap slots"
      by (simp_all add: filter_mset_none filter_mset_all)
    with None 1(4) \<open>type \<noteq> AG_RES_NONE\<close> show ?thesis
      by (intro exI [of _ "[]"]) (simp add: reclaim_type.simps [of cap release type slots])
  next
    case (Some i)
    let ?slots = "slots(i := zero_res)" and ?r = "slots i"
    from Some spec have i: "i < cap" "res_type ?r = type"
      and newest: "\<And>j. j < cap \<Longrightarrow> res_type (slots j) = type \<Longrightarrow> res_seq (slots j) \<le> res_seq ?r"
      by auto
    then have used: "used_slot ?r" using 1(2) by (simp add: used_slot_def)
    note split = slot_entries_take [where slots = slots, OF i(1) used]
    from 1(3) have dist: "seqs_distinct (slot_entries cap ?slots)"
      and other: "\<And>y. y \<in># slot_entries cap ?slots \<Longrightarrow> res_seq y \<noteq> res_seq ?r"
      unfolding split by (auto dest: seqs_distinct_add)
    have "reclaim_type cap release type ?slots (cnt - 1) (call_release release ?r ctx) (released + 1)
        = (slots', cnt', ctx', released')"
      using 1(2,4) Some by (simp add: reclaim_type.simps [of cap release type slots])
    from "1.IH" [OF 1(2) Some 1(2) dist this] obtain rs where
      rs: "mset rs = {#r \<in># slot_entries cap ?slots. res_type r = type#}" "sorted_wrt release_before rs"
        "slot_entries cap slots' = {#r \<in># slot_entries cap ?slots. res_type r \<noteq> type#}"
        "ctx' = foldl (\<lambda>c r. call_release release r c) (call_release release ?r ctx) rs"
        "cnt' = cnt - 1 - word_of_nat (length rs)" "released' = released + 1 + word_of_nat (length rs)"
      by blast
    have "release_before ?r y" if "y \<in> set rs" for y
    proof -
      from that rs(1) have "y \<in># {#r \<in># slot_entries cap ?slots. res_type r = type#}"
        by (metis set_mset_mset)
      then have y: "y \<in># slot_entries cap ?slots" "res_type y = type" by auto
      then have "res_seq y \<le> res_seq ?r"
        using newest by (auto simp: slot_entries_mem used_slot_def zero_res_def split: if_splits)
      with other [OF y(1)] y(2) i(2) show ?thesis by (simp add: release_before_def order_less_le)
    qed
    then have "sorted_wrt release_before (?r # rs)" using rs(2) by simp
    moreover have "mset (?r # rs) = {#r \<in># slot_entries cap slots. res_type r = type#}"
      using rs(1) i(2) by (simp add: split)
    moreover have "slot_entries cap slots' = {#r \<in># slot_entries cap slots. res_type r \<noteq> type#}"
      using rs(3) i(2) by (simp add: split)
    ultimately show ?thesis
      using rs by (intro exI [of _ "?r # rs"]) (simp add: algebra_simps)
  qed
qed


lemma reclaim_all_spec:
  assumes "sorted_wrt (<) ts" and "\<forall>t \<in> set ts. t \<noteq> AG_RES_NONE" and "seqs_distinct (slot_entries cap slots)"
    and "reclaim_all cap release ts slots cnt ctx released = (slots', cnt', ctx', released')"
  shows "\<exists>rs. mset rs = {#r \<in># slot_entries cap slots. res_type r \<in> set ts#} \<and>
     sorted_wrt release_before rs \<and>
     slot_entries cap slots' = {#r \<in># slot_entries cap slots. res_type r \<notin> set ts#} \<and>
     ctx' = foldl (\<lambda>c r. call_release release r c) ctx rs \<and>
     cnt' = cnt - word_of_nat (length rs) \<and> released' = released + word_of_nat (length rs)"
  using assms
proof (induction cap release ts slots cnt ctx released rule: reclaim_all.induct)
  case (1 cap release slots cnt ctx released)
  then show ?case by (intro exI [of _ "[]"]) simp
next
  case (2 cap release t ts slots cnt ctx released)
  obtain slots1 cnt1 ctx1 released1 where
    one: "reclaim_type cap release t slots cnt ctx released = (slots1, cnt1, ctx1, released1)"
    by (cases "reclaim_type cap release t slots cnt ctx released") auto
  from reclaim_type_spec [OF _ _ one] 2(3,4) obtain rs1 where
    rs1: "mset rs1 = {#r \<in># slot_entries cap slots. res_type r = t#}" "sorted_wrt release_before rs1"
      "slot_entries cap slots1 = {#r \<in># slot_entries cap slots. res_type r \<noteq> t#}"
      "ctx1 = foldl (\<lambda>c r. call_release release r c) ctx rs1"
      "cnt1 = cnt - word_of_nat (length rs1)" "released1 = released + word_of_nat (length rs1)"
    by auto
  have dist: "seqs_distinct (slot_entries cap slots1)"
    using 2(4) unfolding rs1(3) by (rule seqs_distinct_filter)
  from 2(5) one have "reclaim_all cap release ts slots1 cnt1 ctx1 released1 = (slots', cnt', ctx', released')"
    by simp
  from "2.IH" [OF one [symmetric] refl refl _ _ dist this] 2(2,3) obtain rs2 where
    rs2: "mset rs2 = {#r \<in># slot_entries cap slots1. res_type r \<in> set ts#}" "sorted_wrt release_before rs2"
      "slot_entries cap slots' = {#r \<in># slot_entries cap slots1. res_type r \<notin> set ts#}"
      "ctx' = foldl (\<lambda>c r. call_release release r c) ctx1 rs2"
      "cnt' = cnt1 - word_of_nat (length rs2)" "released' = released1 + word_of_nat (length rs2)"
    by auto
  have t: "t \<notin> set ts" using 2(2) by auto
  have "release_before x y" if "x \<in> set rs1" "y \<in> set rs2" for x y
  proof -
    from that(1) have "x \<in># mset rs1" by simp
    then have "res_type x = t" unfolding rs1(1) by simp
    moreover from that(2) have "y \<in># mset rs2" by simp
    then have "res_type y \<in> set ts" unfolding rs2(1) by simp
    ultimately show ?thesis using 2(2) by (auto simp: release_before_def)
  qed
  then have srt: "sorted_wrt release_before (rs1 @ rs2)"
    using rs1(2) rs2(2) by (simp add: sorted_wrt_append)
  have ms: "mset (rs1 @ rs2) = {#r \<in># slot_entries cap slots. res_type r \<in> set (t # ts)#}"
    unfolding mset_append rs1(1) rs2(1) rs1(3) filter_filter_mset
    by (rule filter_mset_disj_split) (use t in auto)
  have left: "slot_entries cap slots' = {#r \<in># slot_entries cap slots. res_type r \<notin> set (t # ts)#}"
    unfolding rs2(3) rs1(3) filter_filter_mset by (rule filter_mset_cong) auto
  have "cnt' = cnt - word_of_nat (length (rs1 @ rs2))"
    and "released' = released + word_of_nat (length (rs1 @ rs2))"
    unfolding rs2(5,6) rs1(5,6) by simp_all
  then show ?case
    using srt ms left rs1(4) rs2(4) by (intro exI [of _ "rs1 @ rs2"]) simp
qed

section \<open>Recording and forgetting\<close>

lemma res_invD:
  assumes "res_inv l"
  shows "unat (rl_count l) = size (res_entries l)" and "rl_count l \<le> rl_peak l"
    and "r \<in># res_entries l \<Longrightarrow> res_type r < AG_RES_TYPE_COUNT"
    and "r \<in># res_entries l \<Longrightarrow> res_ref r \<noteq> NULL"
    and "r \<in># res_entries l \<Longrightarrow> res_seq r < rl_next_seq l"
    and "seqs_distinct (res_entries l)"
    and "rl_slots l = Some slots \<Longrightarrow> i < unat (rl_capacity l) \<Longrightarrow>
           res_type (slots i) = AG_RES_NONE \<Longrightarrow> slots i = zero_res"
  using assms by (auto simp: res_inv_def)

lemma size_entries_le: "size (slot_entries cap slots) \<le> cap"
  unfolding slot_entries_def size_mset by (metis diff_zero length_filter_le length_map length_upt)

lemma res_entries_slots [simp]:
  "rl_slots l = Some slots \<Longrightarrow> res_entries l = slot_entries (unat (rl_capacity l)) slots"
  by (simp add: res_entries_def)

text \<open>A successful \<open>ag_reslist_add\<close>: one entry more, with the next sequence number.\<close>

lemma reslist_add_ok:
  assumes inv: "res_inv l" and room: "unat (rl_next_seq l) + 1 < 2 ^ 32"
    and call: "ag_reslist_add (Some l) type ref extra = (Inr (), r)"
  obtains l' where "r = Some l'" and "res_inv l'"
    and "res_entries l' = add_mset \<lparr>res_type = type, res_ref = ref, res_extra = extra, res_seq = rl_next_seq l\<rparr> (res_entries l)"
    and "rl_capacity l' = rl_capacity l" and "rl_next_seq l' = rl_next_seq l + 1"
proof -
  from call obtain slots where sl: "rl_slots l = Some slots"
    and ok: "ref \<noteq> NULL" "\<not> type \<le> AG_RES_NONE" "\<not> AG_RES_TYPE_COUNT \<le> type"
    by (auto simp: ag_reslist_add_def split: option.splits if_splits)
  with call obtain i where f: "find (\<lambda>i. res_type (slots i) = AG_RES_NONE) [0..<unat (rl_capacity l)] = Some i"
    by (auto simp: ag_reslist_add_def split: option.splits)
  define e where "e = \<lparr>res_type = type, res_ref = ref, res_extra = extra, res_seq = rl_next_seq l\<rparr>"
  define l' where "l' = l\<lparr>rl_slots := Some (slots(i := e)), rl_next_seq := rl_next_seq l + 1,
      rl_count := rl_count l + 1, rl_peak := (if rl_count l + 1 > rl_peak l then rl_count l + 1 else rl_peak l)\<rparr>"
  from find_upt_SomeD [OF f] have i: "i < unat (rl_capacity l)" and free: "\<not> used_slot (slots i)"
    by (auto simp: used_slot_def)
  have r: "r = Some l'" using call sl ok f by (simp add: ag_reslist_add_def Let_def l'_def e_def)
  have "used_slot e" using ok by (auto simp: used_slot_def e_def)
  then have ent: "res_entries l' = add_mset e (res_entries l)"
    using free by (simp add: l'_def res_entries_def sl slot_entries_upd [OF i])
  have "size (res_entries l') \<le> unat (rl_capacity l)"
    using size_entries_le [of "unat (rl_capacity l)" "slots(i := e)"] by (simp add: l'_def res_entries_def)
  then have cnt: "unat (rl_count l + 1) = Suc (unat (rl_count l))"
    using res_invD(1) [OF inv] unat_u32_less [of "rl_capacity l"] unfolding ent by (simp add: unat_add_no_wrap)
  have nx: "unat (rl_next_seq l + 1) = Suc (unat (rl_next_seq l))" using room by (simp add: unat_add_no_wrap)
  have new: "res_seq r \<noteq> rl_next_seq l" if "r \<in># res_entries l" for r
    using res_invD(5) [OF inv that] by auto
  have "seqs_distinct (add_mset e (res_entries l))"
    using res_invD(6) [OF inv] new by (intro seqs_distinct_insert) (auto simp: e_def)
  moreover have "res_seq r < rl_next_seq l + 1" if "r \<in># add_mset e (res_entries l)" for r
    using that res_invD(5) [OF inv] nx by (auto simp: e_def word_less_nat_alt less_Suc_eq)
  moreover have "\<forall>i < unat (rl_capacity l). res_type ((slots(k := e)) i) = AG_RES_NONE \<longrightarrow> (slots(k := e)) i = zero_res" for k
    using res_invD(7) [OF inv sl] \<open>used_slot e\<close> by (simp add: used_slot_def)
  ultimately have "res_inv l'"
    using res_invD(1-6) [OF inv] ok cnt unfolding res_inv_def ent
    by (auto simp: l'_def e_def)
  with r ent show thesis using that by (simp add: e_def l'_def)
qed

lemma find_slot_SomeD:
  assumes "rl_slots l = Some slots" and "find_slot (Some l) type ref = Some i"
  shows "i < unat (rl_capacity l)" and "res_type (slots i) = type" and "res_ref (slots i) = ref"
proof -
  have "find (\<lambda>i. res_type (slots i) = type \<and> res_ref (slots i) = ref) [0..<unat (rl_capacity l)] = Some i"
    using assms by (simp add: find_slot_def split: if_splits)
  from find_upt_SomeD [OF this] show "i < unat (rl_capacity l)" and "res_type (slots i) = type"
    and "res_ref (slots i) = ref" by simp_all
qed

lemma find_slot_None_iff:
  assumes "rl_slots l = Some slots"
  shows "find_slot (Some l) type ref = None \<longleftrightarrow>
     ref = NULL \<or> (\<forall>i < unat (rl_capacity l). \<not> (res_type (slots i) = type \<and> res_ref (slots i) = ref))"
  using assms by (simp add: find_slot_def find_None_iff) blast

lemma reslist_holds_iff:
  assumes "res_inv l" and "type \<noteq> AG_RES_NONE"
  shows "ag_reslist_holds (Some l) type ref \<longleftrightarrow> (\<exists>r \<in># res_entries l. res_type r = type \<and> res_ref r = ref)"
proof (cases "rl_slots l")
  case None
  then show ?thesis by (simp add: ag_reslist_holds_def find_slot_def res_entries_def)
next
  case (Some slots)
  have "ref \<noteq> NULL" if "r \<in># res_entries l" "res_ref r = ref" for r
    using res_invD(4) [OF assms(1) that(1)] that(2) by simp
  moreover have "(\<exists>r \<in># res_entries l. res_type r = type \<and> res_ref r = ref) \<longleftrightarrow>
      (\<exists>i < unat (rl_capacity l). res_type (slots i) = type \<and> res_ref (slots i) = ref)"
    using assms(2) unfolding res_entries_slots [OF Some] Bex_def slot_entries_mem used_slot_def by metis
  ultimately show ?thesis
    unfolding ag_reslist_holds_def find_slot_None_iff [OF Some] by metis
qed

lemma reslist_remove_ok:
  assumes inv: "res_inv l" and ty: "type \<noteq> AG_RES_NONE"
    and call: "ag_reslist_remove (Some l) type ref = (True, x, r)"
  obtains e l' where "r = Some l'" and "res_inv l'" and "x = Some (res_extra e)"
    and "res_type e = type" and "res_ref e = ref" and "res_entries l = add_mset e (res_entries l')"
proof -
  from call obtain i slots where f: "find_slot (Some l) type ref = Some i" and sl: "rl_slots l = Some slots"
    by (auto simp: ag_reslist_remove_def split: option.splits)
  note i = find_slot_SomeD [OF sl f]
  define l' where "l' = l\<lparr>rl_slots := Some (slots(i := zero_res)), rl_count := rl_count l - 1\<rparr>"
  have used: "used_slot (slots i)" using i ty by (simp add: used_slot_def)
  have ent: "res_entries l = add_mset (slots i) (res_entries l')"
    using slot_entries_take [where slots = slots, OF i(1) used] by (simp add: l'_def res_entries_def sl)
  have r: "r = Some l'" and x: "x = Some (res_extra (slots i))"
    using call f sl by (simp_all add: ag_reslist_remove_def l'_def)
  have "rl_count l \<noteq> 0" using res_invD(1) [OF inv] ent by auto
  then have cnt: "unat (rl_count l - 1) = unat (rl_count l) - 1" by (rule unat_minus_one)
  have "rl_count l - 1 \<le> rl_peak l"
    using res_invD(2) [OF inv] cnt by (simp add: word_le_nat_alt)
  then have "res_inv l'"
    using inv cnt unfolding res_inv_def ent by (auto simp: l'_def sl dest: seqs_distinct_add)
  with r x i ent show thesis using that by blast
qed

lemma reslist_remove_none:
  assumes "res_inv l"
  shows "ag_reslist_remove (Some l) AG_RES_NONE ref = (False, None, Some l)"
proof -
  have "find_slot (Some l) AG_RES_NONE ref = None"
  proof (cases "rl_slots l")
    case None
    then show ?thesis by (simp add: find_slot_def)
  next
    case (Some slots)
    have "res_ref (slots i) = NULL" if "i < unat (rl_capacity l)" "res_type (slots i) = AG_RES_NONE" for i
      using res_invD(7) [OF assms Some that] by (simp add: zero_res_def)
    then show ?thesis unfolding find_slot_None_iff [OF Some] by metis
  qed
  then show ?thesis by (simp add: ag_reslist_remove_def)
qed

section \<open>The contract\<close>

definition res_add :: "ag_reslist option \<Rightarrow> ag_res_type \<times> ptr \<times> u32 \<Rightarrow> bool \<times> ag_reslist option" where
  "res_add s = (\<lambda>(t, r, e). case ag_reslist_add s t r e of (x, s') \<Rightarrow> (x = Inr (), s'))"

definition res_remove ::
  "ag_reslist option \<Rightarrow> ag_res_type \<times> ptr \<Rightarrow> (ag_res_type \<times> ptr \<times> u32) option \<times> ag_reslist option" where
  "res_remove s = (\<lambda>(t, r). case ag_reslist_remove s t r of
     (ok, x, s') \<Rightarrow> (if ok then Some (t, r, the x) else None, s'))"

definition res_triple :: "ag_res \<Rightarrow> ag_res_type \<times> ptr \<times> u32" where
  "res_triple r = (res_type r, res_ref r, res_extra r)"

definition res_held :: "ag_reslist option \<Rightarrow> (ag_res_type \<times> ptr \<times> u32) multiset" where
  "res_held s = (case s of None \<Rightarrow> {#} | Some l \<Rightarrow> image_mset res_triple (res_entries l))"

definition res_ok :: "nat \<Rightarrow> ag_reslist option \<Rightarrow> bool" where
  "res_ok n s = (case s of None \<Rightarrow> False | Some l \<Rightarrow> res_inv l \<and> unat (rl_next_seq l) + n < 2 ^ 32)"

lemma reslist_add_fail:
  assumes "ag_reslist_add (Some l) t r e = (Inl x, s')"
  shows "s' = Some l"
  using assms by (auto simp: ag_reslist_add_def Let_def split: option.splits if_splits)

lemma res_add_laws:
  assumes "res_ok (Suc n) s"
  shows "res_ok n (snd (res_add s q))"
    and "res_held (snd (res_add s q)) = (if fst (res_add s q) then add_mset q (res_held s) else res_held s)"
proof -
  from assms obtain l where l: "s = Some l" "res_inv l" "unat (rl_next_seq l) + Suc n < 2 ^ 32"
    by (auto simp: res_ok_def split: option.splits)
  obtain t r e where q: "q = (t, r, e)" by (cases q)
  obtain x s' where call: "ag_reslist_add (Some l) t r e = (x, s')" by (cases "ag_reslist_add (Some l) t r e")
  have "res_ok n (snd (res_add s q)) \<and>
    res_held (snd (res_add s q)) = (if fst (res_add s q) then add_mset q (res_held s) else res_held s)"
  proof (cases x)
    case (Inl err)
    then show ?thesis
      using reslist_add_fail [OF call [unfolded Inl]] call l by (simp add: res_add_def q res_ok_def)
  next
    case (Inr u)
    with call have call': "ag_reslist_add (Some l) t r e = (Inr (), s')" by simp
    from l(3) have room: "unat (rl_next_seq l) + 1 < 2 ^ 32" by simp
    from reslist_add_ok [OF l(2) room call'] obtain l' where
      l': "s' = Some l'" "res_inv l'" "rl_next_seq l' = rl_next_seq l + 1"
        "res_entries l' = add_mset \<lparr>res_type = t, res_ref = r, res_extra = e, res_seq = rl_next_seq l\<rparr> (res_entries l)"
      by metis
    have "unat (rl_next_seq l') = unat (rl_next_seq l) + 1"
      unfolding l'(3) using room by (simp add: unat_add_no_wrap)
    then show ?thesis
      using l l' call' by (simp add: res_add_def q res_ok_def res_held_def res_triple_def)
  qed
  then show "res_ok n (snd (res_add s q))"
    and "res_held (snd (res_add s q)) = (if fst (res_add s q) then add_mset q (res_held s) else res_held s)"
    by simp_all
qed

lemma reslist_remove_next_seq:
  assumes "ag_reslist_remove (Some l) t r = (ok, x, s')"
  shows "\<exists>l'. s' = Some l' \<and> rl_next_seq l' = rl_next_seq l"
  using assms by (auto simp: ag_reslist_remove_def split: option.splits)

lemma reslist_remove_fail:
  assumes "ag_reslist_remove (Some l) t r = (False, x, s')"
  shows "s' = Some l"
  using assms by (auto simp: ag_reslist_remove_def split: option.splits)

lemma res_remove_laws:
  assumes "res_ok (Suc n) s"
  shows "res_ok n (snd (res_remove s k))"
    and "res_held s = (case fst (res_remove s k) of
           None \<Rightarrow> res_held (snd (res_remove s k))
         | Some q \<Rightarrow> add_mset q (res_held (snd (res_remove s k))))"
proof -
  from assms obtain l where l: "s = Some l" "res_inv l" "unat (rl_next_seq l) + Suc n < 2 ^ 32"
    by (auto simp: res_ok_def split: option.splits)
  obtain t r where k: "k = (t, r)" by (cases k)
  obtain ok x s' where call: "ag_reslist_remove (Some l) t r = (ok, x, s')"
    by (cases "ag_reslist_remove (Some l) t r") auto
  have "res_ok n (snd (res_remove s k)) \<and> res_held s = (case fst (res_remove s k) of
           None \<Rightarrow> res_held (snd (res_remove s k))
         | Some q \<Rightarrow> add_mset q (res_held (snd (res_remove s k))))"
  proof (cases ok)
    case False
    then show ?thesis
      using reslist_remove_fail [of l t r x s'] call l by (simp add: res_remove_def k res_ok_def)
  next
    case True
    with call reslist_remove_none [OF l(2)] have t: "t \<noteq> AG_RES_NONE" by auto
    obtain l1 where "s' = Some l1" "rl_next_seq l1 = rl_next_seq l"
      using reslist_remove_next_seq [OF call] by blast
    with reslist_remove_ok [OF l(2) t call [unfolded True [THEN eqTrueI]]] obtain ent l' where
      "s' = Some l'" "res_inv l'" "x = Some (res_extra ent)" "res_type ent = t" "res_ref ent = r"
      "res_entries l = add_mset ent (res_entries l')" "rl_next_seq l' = rl_next_seq l"
      by (metis option.inject)
    then show ?thesis
      using l call True by (simp add: res_remove_def k res_ok_def res_held_def res_triple_def)
  qed
  then show "res_ok n (snd (res_remove s k))"
    and "res_held s = (case fst (res_remove s k) of
           None \<Rightarrow> res_held (snd (res_remove s k))
         | Some q \<Rightarrow> add_mset q (res_held (snd (res_remove s k))))" by simp_all
qed

interpretation reslist: resource_ledger res_ok res_held res_add res_remove
  by unfold_locales (rule res_add_laws res_remove_laws, assumption)+

section \<open>Settling the list\<close>

lemma reclaim_types_sorted: "sorted_wrt (<) reclaim_types"
  by (simp add: reclaim_types_def less_ag_res_type_def)

lemma reclaim_types_all: "res_type r \<in> set reclaim_types \<longleftrightarrow> res_type r \<noteq> AG_RES_NONE \<and> res_type r < AG_RES_TYPE_COUNT"
  by (cases "res_type r") (simp_all add: reclaim_types_def less_ag_res_type_def)

lemma reclaim_entries:
  assumes inv: "res_inv l" and call: "ag_reslist_reclaim (Some l) release ctx = (n, r, ctx')"
  shows "\<exists>rs l'. mset rs = res_entries l \<and> sorted_wrt release_before rs \<and>
     ctx' = foldl (\<lambda>c e. call_release release e c) ctx rs \<and> unat n = length rs \<and>
     r = Some l' \<and> res_entries l' = {#} \<and> rl_count l' = 0"
proof (cases "rl_slots l")
  case None
  then have "rl_count l = 0" using res_invD(1) [OF inv] by (simp add: res_entries_def unat_eq_zero)
  with None call show ?thesis
    by (intro exI [of _ "[]"]) (auto simp: ag_reslist_reclaim_def res_entries_def)
next
  case (Some slots)
  let ?cap = "unat (rl_capacity l)"
  obtain slots' cnt' released' where
    run: "reclaim_all ?cap release reclaim_types slots (rl_count l) ctx 0 = (slots', cnt', ctx', released')"
    and r: "n = released'" "r = Some (l\<lparr>rl_slots := Some slots', rl_count := cnt'\<rparr>)"
    using call Some
    by (cases "reclaim_all ?cap release reclaim_types slots (rl_count l) ctx 0")
      (auto simp: ag_reslist_reclaim_def)
  have dist: "seqs_distinct (slot_entries ?cap slots)" using res_invD(6) [OF inv] Some by simp
  have "\<forall>t \<in> set reclaim_types. t \<noteq> AG_RES_NONE" by (simp add: reclaim_types_def)
  from reclaim_all_spec [OF reclaim_types_sorted this dist run] obtain rs where
    rs: "mset rs = {#e \<in># slot_entries ?cap slots. res_type e \<in> set reclaim_types#}"
      "sorted_wrt release_before rs"
      "slot_entries ?cap slots' = {#e \<in># slot_entries ?cap slots. res_type e \<notin> set reclaim_types#}"
      "ctx' = foldl (\<lambda>c r. call_release release r c) ctx rs"
      "cnt' = rl_count l - word_of_nat (length rs)" "released' = 0 + word_of_nat (length rs)"
    by blast
  have "res_type e \<in> set reclaim_types" if "e \<in># slot_entries ?cap slots" for e
    using res_invD(3) [OF inv, of e] that Some
    by (auto simp: reclaim_types_all slot_entries_mem used_slot_def)
  then have all: "mset rs = res_entries l" "slot_entries ?cap slots' = {#}"
    using rs(1,3) Some by (simp_all add: filter_mset_all filter_mset_none)
  then have len: "length rs = unat (rl_count l)" using res_invD(1) [OF inv] by (metis size_mset)
  then have "cnt' = 0" using rs(5) by simp
  moreover have "unat n = length rs"
    using rs(6) r(1) len unat_u32_less [of "rl_count l"] by (simp add: unat_of_nat)
  ultimately show ?thesis
    using all rs(2,4) r(2) by (intro exI [of _ rs]) (simp add: res_entries_def)
qed

lemma reslist_init_ok:
  assumes "ag_reslist_init (Some z) (Some st) cap = s" and "n < 2 ^ 32"
  shows "res_ok n s" and "res_held s = {#}"
proof -
  have "slot_entries m (\<lambda>i. if i < m then zero_res else st i) = {#}" for m
    by (simp add: slot_entries_def used_slot_def zero_res_def filter_empty_conv)
  then show "res_ok n s" and "res_held s = {#}"
    using assms
    by (auto simp: ag_reslist_init_def Let_def res_ok_def res_held_def res_inv_def res_entries_def
        seqs_distinct_def)
qed

lemma entries_full:
  assumes "size (slot_entries cap slots) = cap" and "i < cap"
  shows "used_slot (slots i)"
proof (rule ccontr)
  assume "\<not> used_slot (slots i)"
  then have "length (filter used_slot (map slots [0..<cap])) < length (map slots [0..<cap])"
    using assms(2) by (intro length_filter_less [of "slots i"]) auto
  with assms(1) show False unfolding slot_entries_def size_mset by simp
qed

section \<open>Properties\<close>

text \<open>
  C2. Process death gives everything back. From a fresh list, after any sequence of fewer than
  \<open>2 ^ 32\<close> recordings and removals, in any order and with any arguments, \<open>ag_reslist_reclaim\<close>
  calls the release function once for each resource that was recorded and not removed by the
  process itself, and for nothing else; the list is then empty.
\<close>

theorem reslist_accounting:
  assumes "ag_reslist_init (Some z) (Some st) cap = s" and "length qs < 2 ^ 32"
    and "run_ledger res_add res_remove s qs = (s', got, gave)"
    and "ag_reslist_reclaim s' (Some release) ctx = (n, r, ctx')"
  shows "\<exists>rs l'. got = gave + mset (map res_triple rs) \<and>
     ctx' = foldl (\<lambda>c e. release (res_type e) (res_ref e) (res_extra e) c) ctx rs \<and>
     unat n = length rs \<and> r = Some l' \<and> res_entries l' = {#} \<and> rl_count l' = 0"
proof -
  note init = reslist_init_ok [OF assms(1,2)]
  have "res_ok (length qs + 0) s" using init by simp
  from reslist.run_accounts [OF this assms(3)] init(2)
  have acc: "got = res_held s' + gave" and "res_ok 0 s'" by simp_all
  then obtain l where l: "s' = Some l" "res_inv l" by (auto simp: res_ok_def split: option.splits)
  from reclaim_entries [OF l(2) assms(4) [unfolded l(1)]] obtain rs l' where
    rs: "mset rs = res_entries l" "ctx' = foldl (\<lambda>c e. call_release (Some release) e c) ctx rs"
      "unat n = length rs" "r = Some l'" "res_entries l' = {#}" "rl_count l' = 0" by blast
  have "got = gave + mset (map res_triple rs)"
    using acc l(1) rs(1) by (simp add: res_held_def union_commute)
  with rs show ?thesis
    by (intro exI [of _ rs] exI [of _ l']) (simp add: call_release_def)
qed

theorem reslist_accounting_witness:
  "\<exists>rs l'. (\<lambda>(_, got, gave). got = gave + mset (map res_triple rs))
       (run_ledger res_add res_remove (ag_reslist_init (Some undefined) (Some (\<lambda>_. zero_res)) 4)
          [Take_req (AG_RES_MEM, 256, 64), Take_req (AG_RES_THREAD, 512, 0), Give_req (AG_RES_MEM, 256)]) \<and>
     res_entries l' = {#} \<and> rl_count l' = 0"
proof -
  let ?s = "ag_reslist_init (Some undefined) (Some (\<lambda>_. zero_res)) 4"
  let ?qs = "[Take_req (AG_RES_MEM, 256, 64), Take_req (AG_RES_THREAD, 512, 0), Give_req (AG_RES_MEM, 256)]"
  obtain s' got gave where run: "run_ledger res_add res_remove ?s ?qs = (s', got, gave)"
    by (cases "run_ledger res_add res_remove ?s ?qs") auto
  obtain n r c where call: "ag_reslist_reclaim s' (Some (\<lambda>_ _ _ c. c + (1::nat))) 0 = (n, r, c)"
    by (cases "ag_reslist_reclaim s' (Some (\<lambda>_ _ _ c. c + (1::nat))) 0") auto
  have "length ?qs < 2 ^ 32" by simp
  from reslist_accounting [OF refl this run call] run show ?thesis by auto
qed

text \<open>
  The order of release: whatever a well-formed list holds is released by type, in the order of
  the enumeration (threads before files, files before memory), and within a type newest first.
\<close>

theorem reslist_reclaim_order:
  assumes "res_inv l"
  shows "\<exists>rs. mset rs = res_entries l \<and> sorted_wrt release_before rs \<and>
     snd (snd (ag_reslist_reclaim (Some l) (Some (\<lambda>t p e log. log @ [(t, p, e)])) [])) = map res_triple rs"
proof -
  obtain n r c where call: "ag_reslist_reclaim (Some l) (Some (\<lambda>t p e log. log @ [(t, p, e)])) [] = (n, r, c)"
    by (cases "ag_reslist_reclaim (Some l) (Some (\<lambda>t p e log. log @ [(t, p, e)])) []") auto
  from reclaim_entries [OF assms call] obtain rs where
    rs: "mset rs = res_entries l" "sorted_wrt release_before rs"
      "c = foldl (\<lambda>c e. call_release (Some (\<lambda>t p e log. log @ [(t, p, e)])) e c) [] rs" by blast
  have "foldl (\<lambda>c e. call_release (Some (\<lambda>t p e log. log @ [(t, p, e)])) e c) log xs = log @ map res_triple xs"
    for log xs
    by (induction xs arbitrary: log) (simp_all add: call_release_def res_triple_def)
  with rs call show ?thesis by auto
qed

definition demo_reslist :: ag_reslist where
  "demo_reslist =
     \<lparr>rl_slots = Some ((\<lambda>_. zero_res)(0 := \<lparr>res_type = AG_RES_MEM, res_ref = 256, res_extra = 64, res_seq = 0\<rparr>,
                                      1 := \<lparr>res_type = AG_RES_THREAD, res_ref = 512, res_extra = 0, res_seq = 1\<rparr>)),
      rl_capacity = 3, rl_count = 2, rl_next_seq = 2, rl_peak = 2\<rparr>"

lemma demo_reslist_entries:
  "res_entries demo_reslist =
     {#\<lparr>res_type = AG_RES_MEM, res_ref = 256, res_extra = 64, res_seq = 0\<rparr>,
       \<lparr>res_type = AG_RES_THREAD, res_ref = 512, res_extra = 0, res_seq = 1\<rparr>#}"
proof -
  have "filter used_slot (map (the (rl_slots demo_reslist)) [0..<3]) =
      [\<lparr>res_type = AG_RES_MEM, res_ref = 256, res_extra = 64, res_seq = 0\<rparr>,
       \<lparr>res_type = AG_RES_THREAD, res_ref = 512, res_extra = 0, res_seq = 1\<rparr>]"
    by (simp add: upt_rec demo_reslist_def used_slot_def zero_res_def)
  then have "mset (filter used_slot (map (the (rl_slots demo_reslist)) [0..<3])) =
      mset [\<lparr>res_type = AG_RES_MEM, res_ref = 256, res_extra = 64, res_seq = 0\<rparr>,
       \<lparr>res_type = AG_RES_THREAD, res_ref = 512, res_extra = 0, res_seq = 1\<rparr>]" by (rule arg_cong)
  moreover have "res_entries demo_reslist = slot_entries 3 (the (rl_slots demo_reslist))"
    by (simp add: res_entries_def demo_reslist_def)
  ultimately show ?thesis unfolding slot_entries_def by simp
qed

lemma demo_reslist_inv: "res_inv demo_reslist"
  unfolding res_inv_def demo_reslist_entries
  by (auto simp: demo_reslist_def less_ag_res_type_def seqs_distinct_def split: if_splits)

theorem reslist_reclaim_order_witness:
  "\<exists>rs. mset rs = res_entries demo_reslist \<and> sorted_wrt release_before rs \<and>
     snd (snd (ag_reslist_reclaim (Some demo_reslist) (Some (\<lambda>t p e log. log @ [(t, p, e)])) [])) = map res_triple rs"
  by (rule reslist_reclaim_order) (rule demo_reslist_inv)

text \<open>
  Recording fails only for a reason: on a well-formed list with storage, a valid type and a
  non-null reference, \<open>ag_reslist_add\<close> reports \<open>AG_ENOMEM\<close> exactly when every slot is in use, and
  the list is unchanged; otherwise it succeeds.
\<close>

theorem reslist_add_fails_iff_full:
  assumes "res_inv l" and "rl_slots l = Some slots" and "AG_RES_NONE < type" and "type < AG_RES_TYPE_COUNT"
    and "ref \<noteq> NULL"
  shows "if rl_count l = rl_capacity l
         then ag_reslist_add (Some l) type ref extra = (Inl AG_ENOMEM, Some l)
         else fst (ag_reslist_add (Some l) type ref extra) = Inr ()"
proof -
  let ?cap = "unat (rl_capacity l)"
  let ?f = "find (\<lambda>i. res_type (slots i) = AG_RES_NONE) [0..<?cap]"
  have "?f = None \<longleftrightarrow> size (slot_entries ?cap slots) = ?cap"
  proof
    assume "?f = None"
    then have "filter used_slot (map slots [0..<?cap]) = map slots [0..<?cap]"
      by (auto simp: find_None_iff used_slot_def filter_id_conv)
    then show "size (slot_entries ?cap slots) = ?cap" unfolding slot_entries_def size_mset by simp
  next
    assume "size (slot_entries ?cap slots) = ?cap"
    from entries_full [OF this] show "?f = None" by (auto simp: find_None_iff used_slot_def)
  qed
  also have "\<dots> \<longleftrightarrow> rl_count l = rl_capacity l"
    using res_invD(1) [OF assms(1)] assms(2) by (simp add: word_unat_eq_iff)
  finally have f: "?f = None \<longleftrightarrow> rl_count l = rl_capacity l" .
  have "\<not> type \<le> AG_RES_NONE" "\<not> AG_RES_TYPE_COUNT \<le> type" using assms(3,4) by (simp_all add: not_le)
  with f assms(2,5) show ?thesis
    by (auto simp: ag_reslist_add_def Let_def split: option.splits)
qed

theorem reslist_add_fails_iff_full_witness:
  "if rl_count demo_reslist = rl_capacity demo_reslist
   then ag_reslist_add (Some demo_reslist) AG_RES_FILE 7 0 = (Inl AG_ENOMEM, Some demo_reslist)
   else fst (ag_reslist_add (Some demo_reslist) AG_RES_FILE 7 0) = Inr ()"
  by (rule reslist_add_fails_iff_full [OF demo_reslist_inv, of "the (rl_slots demo_reslist)"])
    (simp_all add: demo_reslist_def less_ag_res_type_def)

end
