(* ===== verification/IoClaim.thy ===== *)
theory IoClaim
  imports Interfaces
begin

text \<open>
  \<open>dev/ioclaim.c\<close>: who owns which pin. The table is a fixed array of \<open>AG_IO_MAX_PINS\<close> pins of
  which the first \<open>count\<close> exist on this chip; the io layer's mutex serialises the calls, so a
  history of the table is a sequence of calls. The properties are about such histories: a pin an
  application holds is not touched by anybody else's calls, a pin the system reserved never reaches
  an application, and process death frees exactly the dead process's pins.
\<close>

section \<open>The table\<close>

datatype ag_pin_state = AG_PIN_FREE | AG_PIN_RESERVED | AG_PIN_HELD

record pin =
  pin_state :: ag_pin_state
  pin_isr :: bool
  pin_owner :: int
  pin_why :: string

record io_table =
  io_pins :: "pin list"
  io_count :: int

definition AG_IO_MAX_PINS :: nat where "AG_IO_MAX_PINS = 64"
definition AG_IO_REASON_MAX :: nat where "AG_IO_REASON_MAX = 16"
definition AG_PID_KERNEL :: int where "AG_PID_KERNEL = 0"

definition zero_pin :: pin where
  "zero_pin = \<lparr>pin_state = AG_PIN_FREE, pin_isr = False, pin_owner = 0, pin_why = []\<rparr>"

definition ag_io_claims_init :: "io_table \<Rightarrow> int \<Rightarrow> unit ag_err \<times> io_table" where
  "ag_io_claims_init t pins =
     (if pins < 0 \<or> pins > int AG_IO_MAX_PINS then (Inl AG_EINVAL, t)
      else (Inr (), \<lparr>io_pins = replicate AG_IO_MAX_PINS zero_pin, io_count = pins\<rparr>))"

definition ag_io_pin_count :: "io_table \<Rightarrow> int" where
  "ag_io_pin_count t = io_count t"

definition pin_at :: "io_table \<Rightarrow> int \<Rightarrow> pin option" where
  "pin_at t i = (if i < 0 \<or> i \<ge> io_count t then None else Some (io_pins t ! nat i))"

definition set_pin :: "io_table \<Rightarrow> int \<Rightarrow> pin \<Rightarrow> io_table" where
  "set_pin t i p = t\<lparr>io_pins := (io_pins t)[nat i := p]\<rparr>"

definition set_reason :: "pin \<Rightarrow> string option \<Rightarrow> pin" where
  "set_reason p why =
     (case why of None \<Rightarrow> p\<lparr>pin_why := []\<rparr> | Some w \<Rightarrow> p\<lparr>pin_why := take (AG_IO_REASON_MAX - 1) w\<rparr>)"

definition ag_io_reservable :: "io_table \<Rightarrow> int \<Rightarrow> bool" where
  "ag_io_reservable t i = (case pin_at t i of None \<Rightarrow> False | Some p \<Rightarrow> pin_state p \<noteq> AG_PIN_HELD)"

definition ag_io_reserve :: "io_table \<Rightarrow> int \<Rightarrow> string option \<Rightarrow> unit ag_err \<times> io_table" where
  "ag_io_reserve t i why =
     (case pin_at t i of
        None \<Rightarrow> (Inl AG_ERANGE, t)
      | Some p \<Rightarrow>
          if pin_state p = AG_PIN_HELD then (Inl AG_EBUSY, t)
          else (Inr (), set_pin t i (set_reason
                 (p\<lparr>pin_state := AG_PIN_RESERVED, pin_owner := AG_PID_KERNEL, pin_isr := False\<rparr>) why)))"

definition ag_io_claim :: "io_table \<Rightarrow> int \<Rightarrow> int \<Rightarrow> string option \<Rightarrow> unit ag_err \<times> io_table" where
  "ag_io_claim t i owner why =
     (case pin_at t i of
        None \<Rightarrow> (Inl AG_ERANGE, t)
      | Some p \<Rightarrow>
          if pin_state p = AG_PIN_RESERVED then (Inl AG_EACCES, t)
          else if pin_state p = AG_PIN_HELD \<and> pin_owner p \<noteq> owner then (Inl AG_EBUSY, t)
          else (Inr (), set_pin t i (set_reason
                 (p\<lparr>pin_state := AG_PIN_HELD, pin_owner := owner\<rparr>) why)))"

definition ag_io_release :: "io_table \<Rightarrow> int \<Rightarrow> int \<Rightarrow> unit ag_err \<times> io_table" where
  "ag_io_release t i owner =
     (case pin_at t i of
        None \<Rightarrow> (Inl AG_ERANGE, t)
      | Some p \<Rightarrow>
          if pin_state p \<noteq> AG_PIN_HELD
          then (Inl (if pin_state p = AG_PIN_RESERVED then AG_EACCES else AG_ENOENT), t)
          else if pin_owner p \<noteq> owner then (Inl AG_EPERM, t)
          else (Inr (), set_pin t i zero_pin))"

definition ag_io_held_by :: "io_table \<Rightarrow> int \<Rightarrow> int \<Rightarrow> bool" where
  "ag_io_held_by t i owner =
     (case pin_at t i of None \<Rightarrow> False | Some p \<Rightarrow> pin_state p = AG_PIN_HELD \<and> pin_owner p = owner)"

definition ag_io_writable_by :: "io_table \<Rightarrow> int \<Rightarrow> int \<Rightarrow> bool" where
  "ag_io_writable_by t i owner =
     (case pin_at t i of
        None \<Rightarrow> False
      | Some p \<Rightarrow>
          if pin_state p = AG_PIN_RESERVED then False
          else pin_state p = AG_PIN_FREE \<or> pin_owner p = owner)"

definition ag_io_set_isr :: "io_table \<Rightarrow> int \<Rightarrow> int \<Rightarrow> bool \<Rightarrow> unit ag_err \<times> io_table" where
  "ag_io_set_isr t i owner installed =
     (case pin_at t i of
        None \<Rightarrow> (Inl AG_ERANGE, t)
      | Some p \<Rightarrow>
          if pin_state p \<noteq> AG_PIN_HELD \<or> pin_owner p \<noteq> owner then (Inl AG_EPERM, t)
          else (Inr (), set_pin t i (p\<lparr>pin_isr := installed\<rparr>)))"

text \<open>The loop of \<open>ag_io_release_owner\<close> from pin \<open>i\<close> on, with \<open>n\<close> pins to go.\<close>

fun release_owner_from ::
  "int \<Rightarrow> (int \<Rightarrow> bool \<Rightarrow> 'c \<Rightarrow> 'c) option \<Rightarrow> nat \<Rightarrow> nat \<Rightarrow> io_table \<Rightarrow> 'c \<Rightarrow> u32 \<Rightarrow> u32 \<times> io_table \<times> 'c" where
  "release_owner_from owner release i 0 t ctx freed = (freed, t, ctx)"
| "release_owner_from owner release i (Suc n) t ctx freed =
     (let p = io_pins t ! i
      in if pin_state p \<noteq> AG_PIN_HELD \<or> pin_owner p \<noteq> owner
         then release_owner_from owner release (Suc i) n t ctx freed
         else release_owner_from owner release (Suc i) n (set_pin t (int i) zero_pin)
                (case release of None \<Rightarrow> ctx | Some f \<Rightarrow> f (int i) (pin_isr p) ctx) (freed + 1))"

definition ag_io_release_owner ::
  "io_table \<Rightarrow> int \<Rightarrow> (int \<Rightarrow> bool \<Rightarrow> 'c \<Rightarrow> 'c) option \<Rightarrow> 'c \<Rightarrow> u32 \<times> io_table \<times> 'c" where
  "ag_io_release_owner t owner release ctx =
     release_owner_from owner release 0 (nat (io_count t)) t ctx 0"

definition ag_io_pin_info :: "io_table \<Rightarrow> int \<Rightarrow> pin ag_err" where
  "ag_io_pin_info t i = (case pin_at t i of None \<Rightarrow> Inl AG_ERANGE | Some p \<Rightarrow> Inr p)"

definition ag_io_claimed_count :: "io_table \<Rightarrow> u32" where
  "ag_io_claimed_count t =
     foldl (\<lambda>n i. if pin_state (io_pins t ! i) \<noteq> AG_PIN_FREE then n + 1 else n) 0 [0..<nat (io_count t)]"

section \<open>Histories\<close>

text \<open>The calls that change the table, and on whose behalf: the system reserves, a process does the rest.\<close>

datatype io_call =
    Reserve int "string option"
  | Claim int int "string option"
  | Release int int
  | Set_isr int int bool
  | Release_owner int

fun io_exec :: "io_table \<Rightarrow> io_call \<Rightarrow> io_table" where
  "io_exec t (Reserve i why) = snd (ag_io_reserve t i why)"
| "io_exec t (Claim i owner why) = snd (ag_io_claim t i owner why)"
| "io_exec t (Release i owner) = snd (ag_io_release t i owner)"
| "io_exec t (Set_isr i owner on) = snd (ag_io_set_isr t i owner on)"
| "io_exec t (Release_owner owner) = fst (snd (ag_io_release_owner t owner None ()))"

fun on_behalf :: "io_call \<Rightarrow> int option" where
  "on_behalf (Reserve i why) = None"
| "on_behalf (Claim i owner why) = Some owner"
| "on_behalf (Release i owner) = Some owner"
| "on_behalf (Set_isr i owner on) = Some owner"
| "on_behalf (Release_owner owner) = Some owner"

definition io_inv :: "io_table \<Rightarrow> bool" where
  "io_inv t \<longleftrightarrow> length (io_pins t) = AG_IO_MAX_PINS \<and> 0 \<le> io_count t \<and> io_count t \<le> int AG_IO_MAX_PINS \<and>
     (\<forall>p \<in> set (io_pins t). length (pin_why p) < AG_IO_REASON_MAX \<and>
        (pin_state p = AG_PIN_FREE \<longrightarrow> p = zero_pin) \<and> (pin_isr p \<longrightarrow> pin_state p = AG_PIN_HELD))"

definition pin_holder :: "io_table \<Rightarrow> int \<Rightarrow> int option" where
  "pin_holder t i =
     (case pin_at t i of None \<Rightarrow> None | Some p \<Rightarrow> if pin_state p = AG_PIN_HELD then Some (pin_owner p) else None)"

text \<open>The pins process \<open>owner\<close> holds among those from \<open>i\<close> to \<open>i + n\<close>, in order.\<close>

definition held_pins :: "io_table \<Rightarrow> int \<Rightarrow> nat \<Rightarrow> nat \<Rightarrow> nat list" where
  "held_pins t owner i n =
     filter (\<lambda>j. pin_state (io_pins t ! j) = AG_PIN_HELD \<and> pin_owner (io_pins t ! j) = owner) [i..<i + n]"

section \<open>Lemmas\<close>

lemma io_inv_range: "io_inv t \<Longrightarrow> pin_at t i = Some p \<Longrightarrow> nat i < length (io_pins t) \<and> 0 \<le> i \<and> i < io_count t"
  by (auto simp: io_inv_def pin_at_def split: if_splits)

lemma pin_at_mem: "io_inv t \<Longrightarrow> pin_at t i = Some p \<Longrightarrow> p \<in> set (io_pins t)"
  using io_inv_range [of t i p] by (auto simp: pin_at_def split: if_splits)

lemma pin_at_set_pin:
  "io_inv t \<Longrightarrow> pin_at t i = Some q \<Longrightarrow> pin_at (set_pin t i p) j = (if j = i then Some p else pin_at t j)"
  using io_inv_range [of t i q] by (auto simp: pin_at_def set_pin_def nth_list_update)

definition pin_ok :: "pin \<Rightarrow> bool" where
  "pin_ok p \<longleftrightarrow> length (pin_why p) < AG_IO_REASON_MAX \<and>
     (pin_state p = AG_PIN_FREE \<longrightarrow> p = zero_pin) \<and> (pin_isr p \<longrightarrow> pin_state p = AG_PIN_HELD)"

lemma io_inv_set_pin: "io_inv t \<Longrightarrow> pin_ok p \<Longrightarrow> io_inv (set_pin t i p)"
  unfolding io_inv_def pin_ok_def set_pin_def
  by (auto dest!: set_update_subset_insert [THEN subsetD])

lemma io_inv_pin_ok: "io_inv t \<Longrightarrow> pin_at t i = Some p \<Longrightarrow> pin_ok p"
  using pin_at_mem [of t i p] by (simp add: io_inv_def pin_ok_def)

lemma pin_ok_zero [simp]: "pin_ok zero_pin"
  by (simp add: pin_ok_def zero_pin_def AG_IO_REASON_MAX_def)

lemma set_reason_simps [simp]:
  "pin_state (set_reason p w) = pin_state p" "pin_owner (set_reason p w) = pin_owner p"
  "pin_isr (set_reason p w) = pin_isr p" "length (pin_why (set_reason p w)) < AG_IO_REASON_MAX"
  by (auto simp: set_reason_def AG_IO_REASON_MAX_def split: option.splits)

text \<open>The loop of \<open>ag_io_release_owner\<close>, in closed form.\<close>

lemma held_pins_Suc:
  "held_pins t owner i (Suc n) =
     (if pin_state (io_pins t ! i) = AG_PIN_HELD \<and> pin_owner (io_pins t ! i) = owner
      then i # held_pins t owner (Suc i) n else held_pins t owner (Suc i) n)"
  unfolding held_pins_def by (subst upt_conv_Cons) simp_all

lemma held_pins_set_below: "j < i \<Longrightarrow> held_pins (set_pin t (int j) p) owner i n = held_pins t owner i n"
  unfolding held_pins_def set_pin_def by (intro filter_cong) auto

lemma release_owner_from_closed:
  assumes "release_owner_from owner release i n t ctx freed = (freed', t', ctx')"
    and "i + n \<le> length (io_pins t)"
  shows "io_count t' = io_count t \<and> length (io_pins t') = length (io_pins t) \<and>
    (\<forall>j < length (io_pins t). io_pins t' ! j = (if j \<in> set (held_pins t owner i n) then zero_pin else io_pins t ! j)) \<and>
    freed' = freed + of_nat (length (held_pins t owner i n)) \<and>
    ctx' = foldl (\<lambda>c j. case release of None \<Rightarrow> c | Some f \<Rightarrow> f (int j) (pin_isr (io_pins t ! j)) c) ctx
             (held_pins t owner i n)"
  using assms
proof (induction n arbitrary: i t ctx freed)
  case 0
  then show ?case by (simp add: held_pins_def)
next
  case (Suc n)
  show ?case
  proof (cases "pin_state (io_pins t ! i) = AG_PIN_HELD \<and> pin_owner (io_pins t ! i) = owner")
    case False
    with Suc.prems Suc.IH [of "Suc i" t ctx freed] show ?thesis by (auto simp: held_pins_Suc)
  next
    case True
    let ?t = "set_pin t (int i) zero_pin"
    let ?c = "case release of None \<Rightarrow> ctx | Some f \<Rightarrow> f (int i) (pin_isr (io_pins t ! i)) ctx"
    have run: "release_owner_from owner release (Suc i) n ?t ?c (freed + 1) = (freed', t', ctx')"
      using Suc.prems(1) True by simp
    have len: "Suc i + n \<le> length (io_pins ?t)" using Suc.prems(2) by (simp add: set_pin_def)
    have ctx: "foldl (\<lambda>c j. case release of None \<Rightarrow> c | Some f \<Rightarrow> f (int j) (pin_isr (io_pins ?t ! j)) c) ?c
             (held_pins t owner (Suc i) n) =
          foldl (\<lambda>c j. case release of None \<Rightarrow> c | Some f \<Rightarrow> f (int j) (pin_isr (io_pins t ! j)) c) ?c
             (held_pins t owner (Suc i) n)"
      by (intro foldl_cong) (auto simp: held_pins_def set_pin_def split: option.splits)
    have nth: "io_pins ?t ! j = (if j = i then zero_pin else io_pins t ! j)" if "j < length (io_pins t)" for j
      using that by (simp add: set_pin_def)
    have "io_count t' = io_count ?t \<and> length (io_pins t') = length (io_pins ?t) \<and>
      (\<forall>j < length (io_pins ?t). io_pins t' ! j =
         (if j \<in> set (held_pins t owner (Suc i) n) then zero_pin else io_pins ?t ! j)) \<and>
      freed' = freed + 1 + of_nat (length (held_pins t owner (Suc i) n)) \<and>
      ctx' = foldl (\<lambda>c j. case release of None \<Rightarrow> c | Some f \<Rightarrow> f (int j) (pin_isr (io_pins t ! j)) c) ?c
               (held_pins t owner (Suc i) n)"
      using Suc.IH [OF run len] by (simp add: held_pins_set_below ctx)
    then show ?thesis using True nth by (simp add: held_pins_Suc set_pin_def)
  qed
qed

lemma release_owner_closed:
  assumes "io_inv t" and "ag_io_release_owner t owner release ctx = (freed, t', ctx')"
  shows "io_count t' = io_count t" and "length (io_pins t') = length (io_pins t)"
    and "\<And>j. j < length (io_pins t) \<Longrightarrow> io_pins t' ! j =
          (if j \<in> set (held_pins t owner 0 (nat (io_count t))) then zero_pin else io_pins t ! j)"
    and "freed = of_nat (length (held_pins t owner 0 (nat (io_count t))))"
    and "ctx' = foldl (\<lambda>c j. case release of None \<Rightarrow> c | Some f \<Rightarrow> f (int j) (pin_isr (io_pins t ! j)) c) ctx
             (held_pins t owner 0 (nat (io_count t)))"
  using release_owner_from_closed [OF assms(2) [unfolded ag_io_release_owner_def]] assms(1)
  by (auto simp: io_inv_def)

lemma pin_at_release_owner:
  assumes "io_inv t" and "ag_io_release_owner t owner release ctx = (freed, t', ctx')"
  shows "pin_at t' i = (if pin_holder t i = Some owner then Some zero_pin else pin_at t i)"
proof (cases "i < 0 \<or> i \<ge> io_count t")
  case True
  then show ?thesis using release_owner_closed(1) [OF assms] by (auto simp: pin_at_def pin_holder_def)
next
  case False
  then have "nat i < length (io_pins t)" using assms(1) by (auto simp: io_inv_def)
  from release_owner_closed(3) [OF assms this] False show ?thesis
    using release_owner_closed(1) [OF assms]
    by (auto simp: pin_at_def pin_holder_def held_pins_def)
qed

lemma release_owner_inv:
  assumes "io_inv t" and "ag_io_release_owner t owner release ctx = (freed, t', ctx')"
  shows "io_inv t'"
proof -
  have "pin_ok p" if "p \<in> set (io_pins t')" for p
  proof -
    from that obtain j where "j < length (io_pins t)" "p = io_pins t' ! j"
      using release_owner_closed(2) [OF assms] by (auto simp: in_set_conv_nth)
    with release_owner_closed(3) [OF assms, of j] have "p = zero_pin \<or> p \<in> set (io_pins t)" by auto
    then show ?thesis using assms(1) pin_ok_zero by (auto simp: io_inv_def pin_ok_def)
  qed
  then show ?thesis
    using assms(1) release_owner_closed(1,2) [OF assms] unfolding io_inv_def pin_ok_def by simp
qed

lemmas io_call_defs = ag_io_reserve_def ag_io_claim_def ag_io_release_def ag_io_set_isr_def

lemma pin_ok_upd:
  "pin_state p \<noteq> AG_PIN_FREE \<Longrightarrow> (pin_isr p \<longrightarrow> pin_state p = AG_PIN_HELD) \<Longrightarrow> pin_ok (set_reason p w)"
  "pin_ok p \<Longrightarrow> pin_state p = AG_PIN_HELD \<Longrightarrow> pin_ok (p\<lparr>pin_isr := on\<rparr>)"
  by (simp_all add: pin_ok_def)

lemma io_exec_inv: "io_inv t \<Longrightarrow> io_inv (io_exec t c)"
proof (cases c)
  case (Release_owner owner)
  assume inv: "io_inv t"
  obtain a b d where "ag_io_release_owner t owner None () = (a, b, d)" by (cases "ag_io_release_owner t owner None ()") auto
  with release_owner_inv [OF inv this] Release_owner show ?thesis by simp
qed (auto simp: io_call_defs intro!: io_inv_set_pin pin_ok_upd dest: io_inv_pin_ok split: option.splits)

lemma io_exec_keeps:
  assumes "io_inv t" and "pin_holder t i = Some p" and "on_behalf c \<noteq> Some p"
  shows "pin_at (io_exec t c) i = pin_at t i"
proof (cases c)
  case (Release_owner owner)
  obtain a b d where "ag_io_release_owner t owner None () = (a, b, d)" by (cases "ag_io_release_owner t owner None ()") auto
  with pin_at_release_owner [OF assms(1) this] Release_owner assms(2,3) show ?thesis by simp
qed (use assms in \<open>auto simp: io_call_defs pin_holder_def pin_at_set_pin split: option.splits if_splits\<close>)

interpretation pins: exclusive_owner io_inv pin_at pin_holder io_exec on_behalf
proof unfold_locales
  fix t :: io_table and t' i assume "pin_at t i = pin_at t' i"
  then show "pin_holder t i = pin_holder t' i" by (simp add: pin_holder_def)
qed (simp_all add: io_exec_inv io_exec_keeps)

lemma io_exec_reserved:
  assumes "io_inv t" and "pin_at t i = Some p" and "pin_state p = AG_PIN_RESERVED"
  shows "\<exists>p'. pin_at (io_exec t c) i = Some p' \<and> pin_state p' = AG_PIN_RESERVED"
proof (cases c)
  case (Release_owner owner)
  obtain a b d where "ag_io_release_owner t owner None () = (a, b, d)" by (cases "ag_io_release_owner t owner None ()") auto
  with pin_at_release_owner [OF assms(1) this] Release_owner assms(2,3) show ?thesis by (simp add: pin_holder_def)
qed (use assms in \<open>auto simp: io_call_defs pin_at_set_pin split: option.splits if_splits\<close>)

lemma io_history_reserved:
  "io_inv t \<Longrightarrow> pin_at t i = Some p \<Longrightarrow> pin_state p = AG_PIN_RESERVED \<Longrightarrow>
   \<exists>p'. pin_at (foldl io_exec t cs) i = Some p' \<and> pin_state p' = AG_PIN_RESERVED"
proof (induction cs arbitrary: t p)
  case (Cons c cs)
  from io_exec_reserved [OF Cons.prems] obtain p' where
    "pin_at (io_exec t c) i = Some p'" "pin_state p' = AG_PIN_RESERVED" by blast
  from Cons.IH [OF io_exec_inv [OF Cons.prems(1)] this] show ?case by simp
qed auto

lemma io_init_inv: "ag_io_claims_init t n = (Inr (), t') \<Longrightarrow> io_inv t'"
  by (auto simp: ag_io_claims_init_def io_inv_def zero_pin_def AG_IO_REASON_MAX_def AG_IO_MAX_PINS_def split: if_splits)

section \<open>Properties\<close>

text \<open>
  C19. A held pin is private. In a table as the chip was set up with, followed by any history of
  calls, a pin held by process \<open>p\<close> keeps its whole entry (state, owner, interrupt flag, label)
  through any further calls made by others or by the system, whatever their arguments: nobody
  else can claim, release, reserve or re-arm it, and the death of another process does not free it.
\<close>

theorem io_held_pin_is_private:
  assumes "ag_io_claims_init t0 n = (Inr (), t)" and "ag_io_held_by (foldl io_exec t cs) i p"
    and "\<forall>c \<in> set ds. on_behalf c \<noteq> Some p"
  shows "ag_io_held_by (foldl io_exec t (cs @ ds)) i p \<and>
    ag_io_pin_info (foldl io_exec t (cs @ ds)) i = ag_io_pin_info (foldl io_exec t cs) i"
proof -
  let ?t = "foldl io_exec t cs"
  have inv: "io_inv ?t" by (rule pins.history_inv) (rule io_init_inv [OF assms(1)])
  have "pin_holder ?t i = Some p"
    using assms(2) by (auto simp: ag_io_held_by_def pin_holder_def split: option.splits)
  from pins.history_keeps [OF inv this assms(3)] have "pin_at (foldl io_exec t (cs @ ds)) i = pin_at ?t i" by simp
  with assms(2) show ?thesis by (simp add: ag_io_held_by_def ag_io_pin_info_def)
qed

theorem io_held_pin_is_private_witness:
  "ag_io_held_by (foldl io_exec (snd (ag_io_claims_init undefined 4))
     ([Claim 2 7 (Some ''led'')] @ [Claim 2 8 None, Reserve 2 None, Release_owner 8, Release 2 9])) 2 7"
proof -
  have h: "ag_io_held_by (foldl io_exec (snd (ag_io_claims_init undefined 4)) [Claim 2 7 (Some ''led'')]) 2 7"
    by (simp add: ag_io_claims_init_def AG_IO_MAX_PINS_def ag_io_claim_def pin_at_def ag_io_held_by_def
        set_pin_def set_reason_def AG_IO_REASON_MAX_def zero_pin_def)
  have i: "ag_io_claims_init undefined 4 = (Inr (), snd (ag_io_claims_init undefined 4))"
    by (simp add: ag_io_claims_init_def AG_IO_MAX_PINS_def)
  show ?thesis
    by (rule io_held_pin_is_private [OF i h, of "[Claim 2 8 None, Reserve 2 None, Release_owner 8, Release 2 9]",
          THEN conjunct1]) simp
qed

text \<open>
  A pin the system reserved stays out of reach for good: after any history of calls it is still
  reserved, no process may write it, hold it, claim it (the answer is \<open>AG_EACCES\<close>) or release it.
\<close>

theorem io_reserved_for_good:
  assumes "ag_io_claims_init t0 n = (Inr (), t)" and "ag_io_reserve (foldl io_exec t cs) i why = (Inr (), t1)"
  shows "let t2 = foldl io_exec t1 ds in
     \<not> ag_io_writable_by t2 i p \<and> \<not> ag_io_held_by t2 i p \<and>
     ag_io_claim t2 i p w = (Inl AG_EACCES, t2) \<and> ag_io_release t2 i p = (Inl AG_EACCES, t2)"
proof -
  have inv: "io_inv (foldl io_exec t cs)" by (rule pins.history_inv) (rule io_init_inv [OF assms(1)])
  have "io_exec (foldl io_exec t cs) (Reserve i why) = t1" by (simp add: assms(2))
  with io_exec_inv [OF inv] have inv1: "io_inv t1" by metis
  from assms(2) inv obtain q where "pin_at t1 i = Some q" "pin_state q = AG_PIN_RESERVED"
    by (auto simp: ag_io_reserve_def pin_at_set_pin split: option.splits if_splits)
  from io_history_reserved [OF inv1 this] obtain p' where
    "pin_at (foldl io_exec t1 ds) i = Some p'" "pin_state p' = AG_PIN_RESERVED" by blast
  then show ?thesis
    by (simp add: Let_def ag_io_writable_by_def ag_io_held_by_def ag_io_claim_def ag_io_release_def)
qed

theorem io_reserved_for_good_witness:
  "let t = snd (ag_io_claims_init undefined 4);
       t2 = foldl io_exec (snd (ag_io_reserve t 1 (Some ''flash''))) [Claim 1 5 None, Release 1 5, Release_owner 0]
   in \<not> ag_io_writable_by t2 1 5 \<and> \<not> ag_io_held_by t2 1 5 \<and>
     ag_io_claim t2 1 5 None = (Inl AG_EACCES, t2) \<and> ag_io_release t2 1 5 = (Inl AG_EACCES, t2)"
proof -
  let ?t = "snd (ag_io_claims_init undefined 4)"
  have i: "ag_io_claims_init undefined 4 = (Inr (), ?t)" by (simp add: ag_io_claims_init_def AG_IO_MAX_PINS_def)
  have r: "ag_io_reserve (foldl io_exec ?t []) 1 (Some ''flash'') = (Inr (), snd (ag_io_reserve ?t 1 (Some ''flash'')))"
    by (simp add: ag_io_claims_init_def AG_IO_MAX_PINS_def ag_io_reserve_def pin_at_def zero_pin_def)
  show ?thesis using io_reserved_for_good [OF i r] unfolding Let_def by blast
qed

text \<open>
  Process death frees its pins and nothing else: \<open>ag_io_release_owner\<close> returns how many pins the
  process held, hands each to the callback once, lowest first, with the interrupt flag it had, and
  leaves exactly those pins free; every other pin is unchanged and the table stays well formed.
\<close>

theorem io_release_owner_exact:
  assumes "io_inv t" and "ag_io_release_owner t owner (Some (\<lambda>i isr log. log @ [(i, isr)])) [] = (freed, t', log)"
  shows "let held = filter (\<lambda>i. ag_io_held_by t i owner) (map int [0..<nat (io_count t)]) in
     unat freed = length held \<and> log = map (\<lambda>i. (i, pin_isr (io_pins t ! nat i))) held \<and>
     (\<forall>i. ag_io_pin_info t' i = (if ag_io_held_by t i owner then Inr zero_pin else ag_io_pin_info t i)) \<and>
     io_inv t'"
proof -
  let ?hp = "held_pins t owner 0 (nat (io_count t))"
  have held: "filter (\<lambda>i. ag_io_held_by t i owner) (map int [0..<nat (io_count t)]) = map int ?hp"
    unfolding held_pins_def filter_map
    by (intro arg_cong [where f = "map int"] filter_cong)
      (auto simp: ag_io_held_by_def pin_at_def split: option.splits)
  have "length ?hp \<le> length [0..<nat (io_count t)]" unfolding held_pins_def by (simp only: length_filter_le add_0)
  also have "\<dots> \<le> 64" using assms(1) by (auto simp: io_inv_def AG_IO_MAX_PINS_def)
  finally have "length ?hp \<le> 64" .
  then have "unat freed = length ?hp"
    unfolding release_owner_closed(4) [OF assms] by (simp add: unat_of_nat)
  moreover have "foldl (\<lambda>l j. l @ [(int j, pin_isr (io_pins t ! j))]) l xs = l @ map (\<lambda>j. (int j, pin_isr (io_pins t ! j))) xs"
    for l xs by (induction xs arbitrary: l) simp_all
  then have "log = map (\<lambda>i. (i, pin_isr (io_pins t ! nat i))) (map int ?hp)"
    unfolding release_owner_closed(5) [OF assms] by (simp add: comp_def)
  moreover have "ag_io_pin_info t' i = (if ag_io_held_by t i owner then Inr zero_pin else ag_io_pin_info t i)" for i
    using pin_at_release_owner [OF assms, of i]
    by (auto simp: ag_io_pin_info_def ag_io_held_by_def pin_holder_def split: option.splits if_splits)
  ultimately show ?thesis unfolding held Let_def using release_owner_inv [OF assms] by simp
qed

theorem io_release_owner_exact_witness:
  "let t = foldl io_exec (snd (ag_io_claims_init undefined 4)) [Claim 2 7 None, Set_isr 2 7 True, Claim 1 8 None]
   in \<exists>freed t' log. ag_io_release_owner t 7 (Some (\<lambda>i isr log. log @ [(i, isr)])) [] = (freed, t', log) \<and> io_inv t'"
proof -
  let ?t = "foldl io_exec (snd (ag_io_claims_init undefined 4)) [Claim 2 7 None, Set_isr 2 7 True, Claim 1 8 None]"
  have "ag_io_claims_init undefined 4 = (Inr (), snd (ag_io_claims_init undefined 4))"
    by (simp add: ag_io_claims_init_def AG_IO_MAX_PINS_def)
  from pins.history_inv [OF io_init_inv [OF this]] have inv: "io_inv ?t" .
  obtain freed t' log where call: "ag_io_release_owner ?t 7 (Some (\<lambda>i isr log. log @ [(i, isr)])) [] = (freed, t', log)"
    by (cases "ag_io_release_owner ?t 7 (Some (\<lambda>i isr log. log @ [(i, isr)])) []") auto
  from io_release_owner_exact [OF inv call] have "io_inv t'" by (simp only: Let_def)
  with call show ?thesis unfolding Let_def by blast
qed

end
