(* ===== verification/AxeLoad.thy ===== *)
theory AxeLoad
  imports Prelude
begin

text \<open>
  \<open>loader/axeload.c\<close> on the format of \<open>sdk/include/argon/axe.h\<close>: checking the header of an
  application image and relocating its parts where the loader put them. Memory is a function from
  32-bit addresses to bytes, words are little-endian as on both instruction sets, and every sum of
  addresses and offsets wraps at 32 bits as in the code. The relocation tables are lists with (at
  least) as many entries as the count that comes with them; \<open>None\<close> is a null table.
\<close>

section \<open>The format\<close>

record ag_axe_part =
  p_base :: u32
  p_size :: u32
  p_file_size :: u32
  p_offset :: u32

record ag_axe_header =
  hd_magic :: "char list"
  hd_abi_major :: u16
  hd_abi_minor :: u16
  hd_arch :: u16
  hd_header_size :: u16
  hd_flags :: u32
  hd_code :: ag_axe_part
  hd_data :: ag_axe_part
  hd_entry :: u32
  hd_api_slot :: u32
  hd_reloc_offset :: u32
  hd_reloc_count :: u32
  hd_stack_size :: u32
  hd_heap_size :: u32
  hd_name :: "char list"
  hd_version :: "char list"
  hd_author :: "char list"
  hd_reserved :: "u32 list"
  hd_ireloc_offset :: u32
  hd_ireloc_count :: u32
  hd_icon_offset :: u32
  hd_icon_size :: u32
  hd_cold :: ag_axe_part
  hd_creloc_offset :: u32
  hd_creloc_count :: u32

datatype ag_axe_arch = AG_ARCH_NONE | AG_ARCH_XTENSA | AG_ARCH_RISCV32 | AG_ARCH_BC

fun arch_num :: "ag_axe_arch \<Rightarrow> u16" where
  "arch_num AG_ARCH_NONE = 0"
| "arch_num AG_ARCH_XTENSA = 1"
| "arch_num AG_ARCH_RISCV32 = 2"
| "arch_num AG_ARCH_BC = 3"

definition AG_AXE_CONTIGUOUS :: u32 where "AG_AXE_CONTIGUOUS = push_bit 5 1"
definition AG_AXE_WANT_PSRAM :: u32 where "AG_AXE_WANT_PSRAM = push_bit 9 1"
definition AG_AXE_NEEDS_FPU :: u32 where "AG_AXE_NEEDS_FPU = push_bit 9 1"

text \<open>Offsets in the packed header: \<open>AG_AXE_HEADER_MIN\<close>, the end of \<open>ireloc_count\<close>, the end of \<open>creloc_count\<close>.\<close>

definition AG_AXE_HEADER_MIN :: nat where "AG_AXE_HEADER_MIN = 176"
definition IRELOC_COUNT_END :: nat where "IRELOC_COUNT_END = 184"
definition CRELOC_COUNT_END :: nat where "CRELOC_COUNT_END = 216"

definition AG_AXE_MAX_PART :: u32 where "AG_AXE_MAX_PART = 8 * 1024 * 1024"
definition AG_AXE_MAX_RELOCS :: u32 where "AG_AXE_MAX_RELOCS = 64 * 1024"
definition AG_AXE_MAX_IRELOCS :: u32 where "AG_AXE_MAX_IRELOCS = 64 * 1024"

definition AG_AXE_R_OFFSET :: "u32 \<Rightarrow> u32" where "AG_AXE_R_OFFSET e = e AND NOT 3"
definition AG_AXE_R_IN_DATA :: u32 where "AG_AXE_R_IN_DATA = 1"
definition AG_AXE_R_TO_DATA :: u32 where "AG_AXE_R_TO_DATA = 2"

record ag_axe_ireloc =
  i_site :: u32
  i_target :: u32

definition AG_AXE_I_OFFSET :: "u32 \<Rightarrow> u32" where "AG_AXE_I_OFFSET e = e AND 0x0FFFFFFF"
definition AG_AXE_I_TO_DATA :: u32 where "AG_AXE_I_TO_DATA = 0x10000000"
definition AG_AXE_I_KIND :: "u32 \<Rightarrow> u32" where "AG_AXE_I_KIND e = e AND 0xE0000000"
definition AG_AXE_I_HI20 :: u32 where "AG_AXE_I_HI20 = 0x20000000"
definition AG_AXE_I_LO12_I :: u32 where "AG_AXE_I_LO12_I = 0x40000000"
definition AG_AXE_I_LO12_S :: u32 where "AG_AXE_I_LO12_S = 0x60000000"
definition AG_AXE_I_REACH :: u32 where "AG_AXE_I_REACH = 2048"

record ag_axe_creloc =
  c_site :: u32
  c_target :: u32

definition AG_AXE_C_PART :: "u32 \<Rightarrow> u32" where "AG_AXE_C_PART w = drop_bit 28 w"
definition AG_AXE_C_OFFSET :: "u32 \<Rightarrow> u32" where "AG_AXE_C_OFFSET w = w AND 0x0FFFFFFF"
definition AG_AXE_P_CODE :: u32 where "AG_AXE_P_CODE = 0"
definition AG_AXE_P_DATA :: u32 where "AG_AXE_P_DATA = 1"
definition AG_AXE_P_COLD :: u32 where "AG_AXE_P_COLD = 2"

record ag_axe_place =
  pl_code :: ptr
  pl_code_capacity :: u32
  pl_data :: ptr
  pl_data_capacity :: u32
  pl_code_writable :: ptr
  pl_cold :: ptr
  pl_cold_capacity :: u32
  pl_cold_writable :: ptr

record ag_axe_binding =
  b_code_base :: u32
  b_data_base :: u32
  b_cold_base :: u32
  b_entry :: ptr
  b_api_slot :: ptr
  b_relocated :: u32

section \<open>Memory\<close>

type_synonym memory = "u32 \<Rightarrow> u8"

definition load32 :: "memory \<Rightarrow> u32 \<Rightarrow> u32" where
  "load32 m a = ucast (m a) OR push_bit 8 (ucast (m (a + 1))) OR
     push_bit 16 (ucast (m (a + 2))) OR push_bit 24 (ucast (m (a + 3)))"

definition store32 :: "memory \<Rightarrow> u32 \<Rightarrow> u32 \<Rightarrow> memory" where
  "store32 m a w = m(a := ucast w, a + 1 := ucast (drop_bit 8 w), a + 2 := ucast (drop_bit 16 w),
     a + 3 := ucast (drop_bit 24 w))"

definition memset0 :: "memory \<Rightarrow> u32 \<Rightarrow> u32 \<Rightarrow> memory" where
  "memset0 m a n = (\<lambda>x. if x - a < n then 0 else m x)"

section \<open>Checking a header\<close>

definition ag_axe_arch_name :: "ag_axe_arch \<Rightarrow> string" where
  "ag_axe_arch_name arch =
     (case arch of AG_ARCH_XTENSA \<Rightarrow> ''xtensa'' | AG_ARCH_RISCV32 \<Rightarrow> ''riscv32'' | _ \<Rightarrow> ''unknown'')"

text \<open>The instruction set and the float unit the kernel was compiled for.\<close>

datatype build_target = Build_xtensa | Build_riscv bool | Build_host

definition ag_axe_native_arch :: "build_target \<Rightarrow> ag_axe_arch" where
  "ag_axe_native_arch tgt =
     (case tgt of Build_xtensa \<Rightarrow> AG_ARCH_XTENSA | Build_riscv _ \<Rightarrow> AG_ARCH_RISCV32 | Build_host \<Rightarrow> AG_ARCH_NONE)"

definition ag_axe_native_fpu :: "build_target \<Rightarrow> bool" where
  "ag_axe_native_fpu tgt = (case tgt of Build_riscv flen \<Rightarrow> flen | _ \<Rightarrow> True)"

definition part_covers :: "ag_axe_part \<Rightarrow> u32 \<Rightarrow> u32 \<Rightarrow> bool" where
  "part_covers part addr bytes =
     (if p_size part < bytes then False else addr - p_base part \<le> p_size part - bytes)"

text \<open>\<open>file_bytes\<close> is a \<open>size_t\<close>; the sums against it are made in 64 bits, so they are exact.\<close>

definition check_part :: "ag_axe_part \<Rightarrow> u32 \<Rightarrow> unit ag_err" where
  "check_part part file_bytes =
     (if p_size part = 0 then (if p_file_size part = 0 then Inr () else Inl AG_EFORMAT)
      else guard (p_size part > AG_AXE_MAX_PART) AG_EFORMAT
        (guard (p_file_size part > p_size part) AG_EFORMAT
        (guard (p_base part AND 3 \<noteq> 0 \<or> p_size part AND 3 \<noteq> 0) AG_EFORMAT
        (guard (p_base part > 0xFFFFFFFF - p_size part) AG_EFORMAT
        (guard ((ucast (p_offset part) :: u64) + ucast (p_file_size part) > ucast file_bytes) AG_EFORMAT
        (Inr ()))))))"

definition ag_axe_is_split :: "ag_axe_header \<Rightarrow> bool" where
  "ag_axe_is_split h = (if unat (hd_header_size h) < CRELOC_COUNT_END then False else p_size (hd_cold h) > 0)"

definition ag_axe_ireloc_count :: "ag_axe_header \<Rightarrow> u32" where
  "ag_axe_ireloc_count h = (if unat (hd_header_size h) < IRELOC_COUNT_END then 0 else hd_ireloc_count h)"

definition ag_axe_ireloc_offset :: "ag_axe_header \<Rightarrow> u32" where
  "ag_axe_ireloc_offset h = (if ag_axe_ireloc_count h = 0 then 0 else hd_ireloc_offset h)"

definition ag_axe_creloc_count :: "ag_axe_header \<Rightarrow> u32" where
  "ag_axe_creloc_count h = (if ag_axe_is_split h then hd_creloc_count h else 0)"

definition ag_axe_creloc_offset :: "ag_axe_header \<Rightarrow> u32" where
  "ag_axe_creloc_offset h = (if ag_axe_is_split h then hd_creloc_offset h else 0)"

text \<open>\<open>ag_axe_validate\<close>, block by block: what the image is, ...\<close>

definition validate_kind :: "build_target \<Rightarrow> ag_axe_header \<Rightarrow> u32 \<Rightarrow> ag_axe_arch \<Rightarrow> u16 \<Rightarrow> u16 \<Rightarrow> unit ag_err" where
  "validate_kind tgt h file_bytes arch abi_major abi_minor =
     guard (unat file_bytes < AG_AXE_HEADER_MIN) AG_EFORMAT
     (guard (hd_magic h \<noteq> ''AXE1'') AG_EFORMAT
     (guard (unat (hd_header_size h) < AG_AXE_HEADER_MIN) AG_EFORMAT
     (guard (hd_arch h \<noteq> arch_num arch) AG_ENOTSUP
     (guard (hd_flags h AND AG_AXE_NEEDS_FPU \<noteq> 0 \<and> \<not> ag_axe_native_fpu tgt) AG_ENOTSUP
     (guard (hd_abi_major h \<noteq> abi_major \<or> hd_abi_minor h > abi_minor) AG_EABI
     (guard (abi_major = 0 \<and> abi_minor \<ge> 63 \<and> hd_abi_minor h \<ge> 53 \<and> hd_abi_minor h \<le> 62) AG_EABI
     (guard (hd_name h ! 31 \<noteq> CHR 0x00 \<or> hd_version h ! 15 \<noteq> CHR 0x00 \<or> hd_author h ! 31 \<noteq> CHR 0x00) AG_EFORMAT
     (guard (p_size (hd_code h) = 0) AG_EFORMAT
     (guard (p_file_size (hd_code h) \<noteq> p_size (hd_code h)) AG_EFORMAT (Inr ()))))))))))"

text \<open>... the cold part of a split image, ...\<close>

definition validate_split :: "ag_axe_header \<Rightarrow> u32 \<Rightarrow> unit ag_err" where
  "validate_split h file_bytes =
     (if ag_axe_is_split h then
        ok_then (check_part (hd_cold h) file_bytes)
        (let cold_end = p_base (hd_cold h) + p_size (hd_cold h);
             hot_end = p_base (hd_code h) + p_size (hd_code h);
             dend = p_base (hd_data h) + p_size (hd_data h)
         in guard (p_size (hd_code h) > 0 \<and> p_base (hd_code h) < cold_end \<and> p_base (hd_cold h) < hot_end) AG_EFORMAT
           (guard (p_size (hd_data h) > 0 \<and> p_base (hd_data h) < cold_end \<and> p_base (hd_cold h) < dend) AG_EFORMAT
           (guard (hd_reloc_count h \<noteq> 0) AG_EFORMAT (Inr ()))))
      else Inr ())"

text \<open>... how code and data lie, ...\<close>

definition validate_layout :: "ag_axe_header \<Rightarrow> unit ag_err" where
  "validate_layout h =
     (if p_size (hd_data h) > 0 then
        (let code_end = p_base (hd_code h) + p_size (hd_code h);
             data_end = p_base (hd_data h) + p_size (hd_data h)
         in guard (p_base (hd_code h) < data_end \<and> p_base (hd_data h) < code_end) AG_EFORMAT
           (guard (hd_flags h AND AG_AXE_CONTIGUOUS \<noteq> 0 \<and> p_base (hd_data h) \<noteq> code_end) AG_EFORMAT (Inr ())))
      else guard (hd_flags h AND AG_AXE_CONTIGUOUS \<noteq> 0) AG_EFORMAT (Inr ()))"

text \<open>... the relocation tables, and the two addresses.\<close>

definition validate_tables :: "ag_axe_header \<Rightarrow> u32 \<Rightarrow> unit ag_err" where
  "validate_tables h file_bytes =
     guard (hd_reloc_count h > AG_AXE_MAX_RELOCS) AG_EFORMAT
     (guard ((ucast (hd_reloc_offset h) :: u64) + ucast (hd_reloc_count h) * 4 > ucast file_bytes) AG_EFORMAT
     (guard (ag_axe_ireloc_count h > AG_AXE_MAX_IRELOCS) AG_EFORMAT
     (guard ((ucast (ag_axe_ireloc_offset h) :: u64) + ucast (ag_axe_ireloc_count h) * 8 > ucast file_bytes) AG_EFORMAT
     (guard ((ucast (ag_axe_creloc_offset h) :: u64) + ucast (ag_axe_creloc_count h) * 8 > ucast file_bytes) AG_EFORMAT
     (Inr ())))))"

definition validate_addresses :: "ag_axe_header \<Rightarrow> unit ag_err" where
  "validate_addresses h =
     guard (\<not> part_covers (hd_code h) (hd_entry h) 1 \<and>
            \<not> (ag_axe_is_split h \<and> part_covers (hd_cold h) (hd_entry h) 1)) AG_EFORMAT
     (guard (\<not> part_covers (hd_code h) (hd_api_slot h) 4 \<and> \<not> part_covers (hd_data h) (hd_api_slot h) 4 \<and>
             \<not> (ag_axe_is_split h \<and> part_covers (hd_cold h) (hd_api_slot h) 4)) AG_EFORMAT (Inr ()))"

definition ag_axe_validate ::
  "build_target \<Rightarrow> ag_axe_header option \<Rightarrow> u32 \<Rightarrow> ag_axe_arch \<Rightarrow> u16 \<Rightarrow> u16 \<Rightarrow> unit ag_err" where
  "ag_axe_validate tgt header file_bytes arch abi_major abi_minor =
     (case header of None \<Rightarrow> Inl AG_EINVAL
      | Some h \<Rightarrow>
          ok_then (validate_kind tgt h file_bytes arch abi_major abi_minor)
          (ok_then (check_part (hd_code h) file_bytes)
          (ok_then (check_part (hd_data h) file_bytes)
          (ok_then (validate_split h file_bytes)
          (ok_then (validate_layout h)
          (ok_then (validate_tables h file_bytes)
          (validate_addresses h)))))))"

section \<open>Placing and relocating\<close>

definition ag_axe_resolve :: "ag_axe_header \<Rightarrow> ag_axe_place \<Rightarrow> u32 \<Rightarrow> ptr" where
  "ag_axe_resolve h place linked_addr =
     (if pl_code place \<noteq> NULL \<and> part_covers (hd_code h) linked_addr 1
      then pl_code place + (linked_addr - p_base (hd_code h))
      else if pl_data place \<noteq> NULL \<and> part_covers (hd_data h) linked_addr 1
      then pl_data place + (linked_addr - p_base (hd_data h))
      else if pl_cold place \<noteq> NULL \<and> ag_axe_is_split h \<and> part_covers (hd_cold h) linked_addr 1
      then pl_cold place + (linked_addr - p_base (hd_cold h))
      else NULL)"

definition ireloc_word :: "u32 \<Rightarrow> u32 \<Rightarrow> u32 \<Rightarrow> u32 option" where
  "ireloc_word kind addr word =
     (if kind = AG_AXE_I_HI20 then Some (((addr + 0x800) AND 0xFFFFF000) OR (word AND 0xFFF))
      else if kind = AG_AXE_I_LO12_I then Some (push_bit 20 (addr AND 0xFFF) OR (word AND 0x000FFFFF))
      else if kind = AG_AXE_I_LO12_S
      then Some (push_bit 25 (drop_bit 5 addr AND 0x7F) OR (word AND 0x01FFF07F) OR push_bit 7 (addr AND 0x1F))
      else None)"

definition ireloc_patch :: "memory \<Rightarrow> ptr \<Rightarrow> u32 \<Rightarrow> u32 \<Rightarrow> memory" where
  "ireloc_patch m at kind addr =
     (case ireloc_word kind addr (load32 m at) of None \<Rightarrow> m | Some w \<Rightarrow> store32 m at w)"

definition ag_axe_ireloc_apply ::
  "ag_axe_header \<Rightarrow> ptr \<Rightarrow> u32 \<Rightarrow> u32 \<Rightarrow> u32 \<Rightarrow> u32 \<Rightarrow> ag_axe_ireloc \<Rightarrow> memory \<Rightarrow> bool \<times> memory" where
  "ag_axe_ireloc_apply h code_bytes code_stored code_addr data_addr code_off entry m =
     (let at = AG_AXE_I_OFFSET (i_site entry);
          kind = AG_AXE_I_KIND (i_site entry);
          to_data = (i_site entry AND AG_AXE_I_TO_DATA \<noteq> 0)
      in if code_stored < 4 \<or> at > code_stored - 4 then (False, m)
         else if to_data \<and> i_target entry > p_size (hd_data h) + AG_AXE_I_REACH then (False, m)
         else if \<not> to_data \<and> i_target entry > p_size (hd_code h) + AG_AXE_I_REACH then (False, m)
         else if at < code_off then (True, m)
         else (True, ireloc_patch m (code_bytes + (at - code_off)) kind
                       ((if to_data then data_addr else code_addr) + i_target entry)))"

record part_view =
  v_write :: ptr
  v_stored :: u32
  v_final_base :: u32

definition view_of ::
  "u32 \<Rightarrow> ag_axe_header \<Rightarrow> ptr \<Rightarrow> ptr \<Rightarrow> ptr \<Rightarrow> ptr \<Rightarrow> ptr \<Rightarrow> part_view option" where
  "view_of part h code_write code_final data cold_write cold_final =
     (if part = AG_AXE_P_CODE
      then Some \<lparr>v_write = code_write, v_stored = p_file_size (hd_code h), v_final_base = code_final\<rparr>
      else if part = AG_AXE_P_DATA
      then (if data = NULL then None
            else Some \<lparr>v_write = data, v_stored = p_file_size (hd_data h), v_final_base = data\<rparr>)
      else if part = AG_AXE_P_COLD
      then (if cold_write = NULL then None
            else Some \<lparr>v_write = cold_write, v_stored = p_file_size (hd_cold h), v_final_base = cold_final\<rparr>)
      else None)"

text \<open>The addresses \<open>ag_axe_apply_split\<close> works with, once its arguments are checked.\<close>

record axe_ctx =
  x_code_final :: ptr
  x_code_write :: ptr
  x_data :: ptr
  x_cold_final :: ptr
  x_cold_write :: ptr

definition code_write :: "ag_axe_place \<Rightarrow> ptr" where
  "code_write pl = (if pl_code_writable pl \<noteq> NULL then pl_code_writable pl else pl_code pl)"

definition cold_write :: "ag_axe_place \<Rightarrow> ptr" where
  "cold_write pl = (if pl_cold_writable pl \<noteq> NULL then pl_cold_writable pl else pl_cold pl)"

definition ctx_of :: "ag_axe_header \<Rightarrow> ag_axe_place \<Rightarrow> axe_ctx" where
  "ctx_of h pl = \<lparr>x_code_final = pl_code pl, x_code_write = code_write pl,
     x_data = (if p_size (hd_data h) > 0 then pl_data pl else NULL),
     x_cold_final = (if ag_axe_is_split h then pl_cold pl else NULL),
     x_cold_write = (if ag_axe_is_split h then cold_write pl else NULL)\<rparr>"

text \<open>The word relocations, one entry and then the table.\<close>

definition apply_reloc :: "ag_axe_header \<Rightarrow> axe_ctx \<Rightarrow> u32 \<Rightarrow> memory \<Rightarrow> unit ag_err \<times> memory" where
  "apply_reloc h x entry m =
     (let code_bias = x_code_final x - p_base (hd_code h);
          data_bias = (if x_data x \<noteq> NULL then x_data x - p_base (hd_data h) else 0);
          at = AG_AXE_R_OFFSET entry;
          in_data = (entry AND AG_AXE_R_IN_DATA \<noteq> 0);
          to_data = (entry AND AG_AXE_R_TO_DATA \<noteq> 0)
      in if (in_data \<or> to_data) \<and> x_data x = NULL then (Inl AG_EFORMAT, m)
         else let part = (if in_data then x_data x else x_code_write x);
                  stored = (if in_data then p_file_size (hd_data h) else p_file_size (hd_code h))
              in if stored < 4 \<or> at > stored - 4 then (Inl AG_EFORMAT, m)
                 else (Inr (), store32 m (part + at)
                         (load32 m (part + at) + (if to_data then data_bias else code_bias))))"

definition apply_ireloc :: "ag_axe_header \<Rightarrow> axe_ctx \<Rightarrow> ag_axe_ireloc \<Rightarrow> memory \<Rightarrow> unit ag_err \<times> memory" where
  "apply_ireloc h x entry m =
     (if i_site entry AND AG_AXE_I_TO_DATA \<noteq> 0 \<and> x_data x = NULL then (Inl AG_EFORMAT, m)
      else case ag_axe_ireloc_apply h (x_code_write x) (p_file_size (hd_code h)) (x_code_final x) (x_data x) 0 entry m of
             (False, m') \<Rightarrow> (Inl AG_EFORMAT, m')
           | (True, m') \<Rightarrow> (Inr (), m'))"

definition apply_creloc :: "ag_axe_header \<Rightarrow> axe_ctx \<Rightarrow> ag_axe_creloc \<Rightarrow> memory \<Rightarrow> unit ag_err \<times> memory" where
  "apply_creloc h x entry m =
     (let at = AG_AXE_C_OFFSET (c_site entry);
          tgt = AG_AXE_C_OFFSET (c_target entry);
          view = (\<lambda>w. view_of (AG_AXE_C_PART w) h (x_code_write x) (x_code_final x) (x_data x)
                        (x_cold_write x) (x_cold_final x))
      in case (view (c_site entry), view (c_target entry)) of
           (Some at_part, Some to_part) \<Rightarrow>
             if v_stored at_part < 4 \<or> at > v_stored at_part - 4 then (Inl AG_EFORMAT, m)
             else (Inr (), store32 m (v_write at_part + at) (v_final_base to_part + tgt))
         | _ \<Rightarrow> (Inl AG_EFORMAT, m))"

text \<open>A table, applied in order until an entry is refused.\<close>

fun apply_table :: "('e \<Rightarrow> memory \<Rightarrow> unit ag_err \<times> memory) \<Rightarrow> 'e list \<Rightarrow> memory \<Rightarrow> unit ag_err \<times> memory" where
  "apply_table f [] m = (Inr (), m)"
| "apply_table f (e # es) m =
     (case f e m of (Inl err, m') \<Rightarrow> (Inl err, m') | (Inr _, m') \<Rightarrow> apply_table f es m')"

definition table_of :: "'e list option \<Rightarrow> u32 \<Rightarrow> 'e list" where
  "table_of t n = (case t of None \<Rightarrow> [] | Some es \<Rightarrow> take (unat n) es)"

definition apply_checks ::
  "ag_axe_header \<Rightarrow> ag_axe_place \<Rightarrow> u32 list option \<Rightarrow> u32 \<Rightarrow> ag_axe_ireloc list option \<Rightarrow> u32 \<Rightarrow>
   ag_axe_creloc list option \<Rightarrow> u32 \<Rightarrow> axe_ctx ag_err" where
  "apply_checks h place relocs reloc_count irelocs ireloc_count crelocs creloc_count =
     guard (pl_code place = NULL) AG_EINVAL
     (guard (pl_code_capacity place < p_size (hd_code h)) AG_ENOMEM
     (guard (p_size (hd_data h) > 0 \<and> pl_data place = NULL) AG_EINVAL
     (guard (p_size (hd_data h) > 0 \<and> pl_data_capacity place < p_size (hd_data h)) AG_ENOMEM
     (guard (reloc_count \<noteq> hd_reloc_count h) AG_EINVAL
     (guard (reloc_count > 0 \<and> relocs = None) AG_EINVAL
     (guard (ireloc_count \<noteq> ag_axe_ireloc_count h) AG_EINVAL
     (guard (ireloc_count > 0 \<and> irelocs = None) AG_EINVAL
     (guard (creloc_count \<noteq> ag_axe_creloc_count h) AG_EINVAL
     (guard (creloc_count > 0 \<and> crelocs = None) AG_EINVAL
     (guard (ag_axe_is_split h \<and> pl_cold place = NULL) AG_EINVAL
     (guard (ag_axe_is_split h \<and> pl_cold_capacity place < p_size (hd_cold h)) AG_ENOMEM
     (Inr (ctx_of h place)))))))))))))"

definition zero_bss :: "ag_axe_header \<Rightarrow> axe_ctx \<Rightarrow> memory \<Rightarrow> memory" where
  "zero_bss h x m =
     (if x_data x \<noteq> NULL \<and> p_size (hd_data h) > p_file_size (hd_data h)
      then memset0 m (x_data x + p_file_size (hd_data h)) (p_size (hd_data h) - p_file_size (hd_data h))
      else m)"

definition api_slot_of :: "ag_axe_header \<Rightarrow> ag_axe_place \<Rightarrow> axe_ctx \<Rightarrow> ptr" where
  "api_slot_of h place x =
     (if part_covers (hd_code h) (hd_api_slot h) 4
      then x_code_write x + (hd_api_slot h - p_base (hd_code h))
      else if x_cold_write x \<noteq> NULL \<and> part_covers (hd_cold h) (hd_api_slot h) 4
      then x_cold_write x + (hd_api_slot h - p_base (hd_cold h))
      else ag_axe_resolve h place (hd_api_slot h))"

definition ag_axe_apply_split ::
  "ag_axe_header option \<Rightarrow> ag_axe_place option \<Rightarrow> u32 list option \<Rightarrow> u32 \<Rightarrow> ag_axe_ireloc list option \<Rightarrow> u32 \<Rightarrow>
   ag_axe_creloc list option \<Rightarrow> u32 \<Rightarrow> memory \<Rightarrow> ag_axe_binding ag_err \<times> memory" where
  "ag_axe_apply_split header place relocs reloc_count irelocs ireloc_count crelocs creloc_count m =
     (case (header, place) of
        (Some h, Some pl) \<Rightarrow>
          (case apply_checks h pl relocs reloc_count irelocs ireloc_count crelocs creloc_count of
             Inl e \<Rightarrow> (Inl e, m)
           | Inr x \<Rightarrow>
               (case apply_table (apply_reloc h x) (table_of relocs reloc_count) (zero_bss h x m) of
                  (Inl e, m1) \<Rightarrow> (Inl e, m1)
                | (Inr _, m1) \<Rightarrow>
                    (case apply_table (apply_ireloc h x) (table_of irelocs ireloc_count) m1 of
                       (Inl e, m2) \<Rightarrow> (Inl e, m2)
                     | (Inr _, m2) \<Rightarrow>
                         (case apply_table (apply_creloc h x) (table_of crelocs creloc_count) m2 of
                            (Inl e, m3) \<Rightarrow> (Inl e, m3)
                          | (Inr _, m3) \<Rightarrow>
                              (let entry = ag_axe_resolve h pl (hd_entry h); slot = api_slot_of h pl x
                               in if entry = NULL \<or> slot = NULL then (Inl AG_EFORMAT, m3)
                                  else (Inr \<lparr>b_code_base = x_code_final x, b_data_base = x_data x,
                                             b_cold_base = x_cold_final x, b_entry = entry, b_api_slot = slot,
                                             b_relocated = reloc_count + ireloc_count + creloc_count\<rparr>, m3))))))
      | _ \<Rightarrow> (Inl AG_EINVAL, m))"

definition ag_axe_apply ::
  "ag_axe_header option \<Rightarrow> ag_axe_place option \<Rightarrow> u32 list option \<Rightarrow> u32 \<Rightarrow> ag_axe_ireloc list option \<Rightarrow> u32 \<Rightarrow>
   memory \<Rightarrow> ag_axe_binding ag_err \<times> memory" where
  "ag_axe_apply header place relocs reloc_count irelocs ireloc_count m =
     (if (case header of None \<Rightarrow> False | Some h \<Rightarrow> ag_axe_is_split h) then (Inl AG_ENOTSUP, m)
      else ag_axe_apply_split header place relocs reloc_count irelocs ireloc_count None 0 m)"

definition ag_axe_bind_api :: "ag_axe_binding option \<Rightarrow> ptr \<Rightarrow> memory \<Rightarrow> memory" where
  "ag_axe_bind_api binding api m =
     (case binding of None \<Rightarrow> m
      | Some b \<Rightarrow> if b_api_slot b = NULL then m else store32 m (b_api_slot b) api)"

section \<open>Lemmas\<close>

subsection \<open>Words in memory\<close>

lemma less_4_32: "(1::u32) \<noteq> 0" "(2::u32) \<noteq> 0" "(3::u32) \<noteq> 0" "(1::u32) \<noteq> 2" "(1::u32) \<noteq> 3" "(2::u32) \<noteq> 3"
  by simp_all

lemma load_store_same [simp]: "load32 (store32 m a w) a = w"
proof (rule bit_word_eqI)
  fix n assume "n < LENGTH(32)"
  then have "n < 8 \<or> (8 \<le> n \<and> n < 16) \<or> (16 \<le> n \<and> n < 24) \<or> (24 \<le> n \<and> n < 32)" by auto
  then show "bit (load32 (store32 m a w) a) n = bit w n"
    by (elim disjE) (auto simp: load32_def store32_def bit_or_iff bit_push_bit_iff bit_ucast_iff bit_drop_bit_eq)
qed

lemma store32_other: "\<not> x - a < 4 \<Longrightarrow> store32 m a w x = m x"
  by (auto simp: store32_def)

lemma store32_same_twice [simp]: "store32 (store32 m a v) a w = store32 m a w"
  by (rule ext) (auto simp: store32_def)

text \<open>Two words that do not overlap.\<close>

definition apart4 :: "u32 \<Rightarrow> u32 \<Rightarrow> bool" where
  "apart4 a b \<longleftrightarrow> \<not> b - a < 4 \<and> \<not> a - b < 4"

lemma apart4_shift: "apart4 a b \<Longrightarrow> k < 4 \<Longrightarrow> \<not> b + k - a < 4"
  unfolding apart4_def by uint_arith

lemma load_store_other: "apart4 a b \<Longrightarrow> load32 (store32 m a w) b = load32 m b"
  using apart4_shift [of a b 1] apart4_shift [of a b 2] apart4_shift [of a b 3]
  by (simp add: load32_def store32_other apart4_def)

subsection \<open>Instructions\<close>

text \<open>How a RISC-V core reads the immediate of \<open>lui\<close>, of a load or \<open>addi\<close>, and of a store.\<close>

definition lui_imm :: "u32 \<Rightarrow> u32" where
  "lui_imm w = w AND 0xFFFFF000"

definition i_imm :: "u32 \<Rightarrow> u32" where
  "i_imm w = signed_take_bit 11 (drop_bit 20 w)"

definition s_imm :: "u32 \<Rightarrow> u32" where
  "s_imm w = signed_take_bit 11 (push_bit 5 (drop_bit 25 w) OR (drop_bit 7 w AND 0x1F))"

lemma and_hi20: "(w :: u32) AND 0xFFFFF000 = w - take_bit 12 w"
proof -
  have "(0xFFFFF000 :: u32) = NOT (mask 12)" by (simp add: mask_eq_exp_minus_1)
  then have "w AND 0xFFFFF000 = w AND NOT (mask 12)" by (simp only:)
  also have "\<dots> = w - take_bit 12 w"
    by (subst disjunctive_diff) (auto simp: bit_simps intro!: bit_word_eqI)
  finally show ?thesis .
qed

lemma round_hi20: "take_bit 12 (addr + 0x800) = signed_take_bit 11 (addr :: u32) + 0x800"
proof (transfer, simp add: signed_take_bit_eq_take_bit_shift take_bit_eq_mod)
  fix a :: int
  have "(a mod 4294967296) mod 4096 = a mod 4096" by (rule mod_mod_cancel) simp
  then show "(a + 2048) mod 4096 = (a mod 4294967296 + 2048) mod 4096" by (metis mod_add_left_eq)
qed

lemma imm_masks: "(0xFFFFF000 :: u32) = NOT (mask 12)" "(0xFFF :: u32) = mask 12" "(0x000FFFFF :: u32) = mask 20"
  "(0x7F :: u32) = mask 7" "(0x1F :: u32) = mask 5" "(0x01FFF07F :: u32) = (mask 25 AND NOT (mask 12)) OR mask 7"
  by (simp_all add: mask_eq_exp_minus_1)

lemma lui_imm_patch: "lui_imm (((x AND 0xFFFFF000) OR (w AND 0xFFF))) = x AND 0xFFFFF000"
  unfolding lui_imm_def imm_masks by (rule bit_word_eqI) (auto simp: bit_simps)

lemma i_imm_patch: "i_imm (push_bit 20 (addr AND 0xFFF) OR (w AND 0x000FFFFF)) = signed_take_bit 11 addr"
  unfolding i_imm_def imm_masks by (rule bit_word_eqI) (auto simp: bit_simps min_def)

lemma s_imm_patch: "s_imm (push_bit 25 (drop_bit 5 addr AND 0x7F) OR (w AND 0x01FFF07F) OR push_bit 7 (addr AND 0x1F)) = signed_take_bit 11 addr"
  unfolding s_imm_def imm_masks by (rule bit_word_eqI) (auto simp: bit_simps min_def)

text \<open>The bits of an instruction that are not its immediate.\<close>

definition keep_mask :: "u32 \<Rightarrow> u32" where
  "keep_mask kind =
     (if kind = AG_AXE_I_HI20 then 0xFFF
      else if kind = AG_AXE_I_LO12_I then 0x000FFFFF
      else if kind = AG_AXE_I_LO12_S then 0x01FFF07F else 0xFFFFFFFF)"

lemmas ireloc_kinds = AG_AXE_I_HI20_def AG_AXE_I_LO12_I_def AG_AXE_I_LO12_S_def

lemma ireloc_word_keeps: "ireloc_word kind addr w = Some w' \<Longrightarrow> w' AND keep_mask kind = w AND keep_mask kind"
  unfolding ireloc_word_def keep_mask_def imm_masks
  by (auto simp: ireloc_kinds bit_simps intro!: bit_word_eqI split: if_splits)

lemma ireloc_word_depends:
  "w AND keep_mask kind = v AND keep_mask kind \<Longrightarrow> ireloc_word kind addr w = ireloc_word kind addr v"
  by (auto simp: ireloc_word_def keep_mask_def)

lemma ireloc_word_idem: "ireloc_word kind addr w = Some w' \<Longrightarrow> ireloc_word kind addr w' = Some w'"
  using ireloc_word_keeps [of kind addr w w'] ireloc_word_depends [of w' kind w addr] by simp

lemma ireloc_patch_idem: "ireloc_patch (ireloc_patch m at kind addr) at kind addr = ireloc_patch m at kind addr"
  by (auto simp: ireloc_patch_def ireloc_word_idem split: option.splits)

lemma ireloc_patch_other: "\<not> x - at < 4 \<Longrightarrow> ireloc_patch m at kind addr x = m x"
  by (simp add: ireloc_patch_def store32_other split: option.splits)

subsection \<open>Parts\<close>

definition part_span :: "ag_axe_part \<Rightarrow> nat set" where
  "part_span p = {unat (p_base p)..<unat (p_base p) + unat (p_size p)}"

definition part_ok :: "ag_axe_part \<Rightarrow> u32 \<Rightarrow> bool" where
  "part_ok p file_bytes \<longleftrightarrow> p_file_size p \<le> p_size p \<and> unat (p_base p) + unat (p_size p) < 2 ^ 32 \<and>
     p_base p AND 3 = 0 \<and> p_size p AND 3 = 0 \<and> unat (p_offset p) + unat (p_file_size p) \<le> unat file_bytes"

lemma sum64: "unat ((ucast (a :: u32) :: u64) + ucast (b :: u32)) = unat a + unat b"
proof -
  have "unat a < 2 ^ 32" "unat b < 2 ^ 32" by (rule unat_u32_less)+
  then show ?thesis by (simp add: unat_word_ariths)
qed

lemma sum64_le: "(ucast (a :: u32) :: u64) + ucast (b :: u32) \<le> ucast c \<Longrightarrow> unat a + unat b \<le> unat (c :: u32)"
  using sum64 [of a b] by (simp add: not_less word_le_nat_alt)

lemma sum64_mult_le:
  assumes "\<not> ucast c < (ucast (a :: u32) :: u64) + ucast (b :: u32) * k" and "unat k \<le> 8"
  shows "unat a + unat b * unat k \<le> unat (c :: u32)"
proof -
  have "unat a < 2 ^ 32" "unat b < 2 ^ 32" by (rule unat_u32_less)+
  moreover from this(2) assms(2) have "unat b * unat k \<le> 2 ^ 32 * 8" by (intro mult_mono) auto
  ultimately have "unat ((ucast a :: u64) + ucast b * k) = unat a + unat b * unat k"
    by (simp add: unat_word_ariths)
  with assms(1) show ?thesis by (simp add: not_less word_le_nat_alt)
qed

lemma check_part_ok:
  assumes "check_part p file_bytes = Inr ()" and "p_size p \<noteq> 0"
  shows "part_ok p file_bytes"
proof -
  have "\<not> 0xFFFFFFFF - p_size p < p_base p" using assms by (simp add: check_part_def)
  then have "unat (p_base p) + unat (p_size p) < 2 ^ 32"
    using word_le_nat_alt [of "p_base p" "0xFFFFFFFF - p_size p"] unat_u32_less [of "p_size p"]
    by (simp add: not_less unat_sub_if_size word_size split: if_splits)
  then show ?thesis using assms by (auto simp: check_part_def part_ok_def not_less dest: sum64_le)
qed

lemma end_no_wrap: "part_ok p file_bytes \<Longrightarrow> unat (p_base p + p_size p) = unat (p_base p) + unat (p_size p)"
  by (simp add: part_ok_def unat_add_no_wrap)

lemma spans_disjoint:
  assumes "part_ok p n" and "part_ok q n"
    and "\<not> (p_base p < p_base q + p_size q \<and> p_base q < p_base p + p_size p)"
  shows "part_span p \<inter> part_span q = {}"
proof -
  have "unat (p_base q) + unat (p_size q) \<le> unat (p_base p) \<or> unat (p_base p) + unat (p_size p) \<le> unat (p_base q)"
    using assms(3) by (auto simp: word_less_nat_alt end_no_wrap [OF assms(1)] end_no_wrap [OF assms(2)])
  then show ?thesis by (auto simp: part_span_def)
qed

lemma part_covers_exact:
  assumes "unat (p_base p) + unat (p_size p) < 2 ^ 32" and "0 < bytes"
  shows "part_covers p addr bytes \<longleftrightarrow>
    unat (p_base p) \<le> unat addr \<and> unat addr + unat bytes \<le> unat (p_base p) + unat (p_size p)"
proof (cases "p_size p < bytes")
  case True
  then show ?thesis by (simp add: part_covers_def word_less_nat_alt)
next
  case False
  have b: "0 < unat bytes" using assms(2) by (simp add: word_less_nat_alt)
  show ?thesis
  proof (cases "p_base p \<le> addr")
    case True
    then show ?thesis using False unat_sub_no_wrap [OF True] unat_sub_no_wrap [of bytes "p_size p"]
      by (auto simp: part_covers_def not_less word_le_nat_alt word_less_nat_alt)
  next
    case below: False
    have "unat (addr - p_base p) = 2 ^ 32 - (unat (p_base p) - unat addr)"
      using below by (simp add: unat_sub_if_size word_size word_le_nat_alt)
    with False below assms b unat_u32_less [of "p_base p"] unat_sub_no_wrap [of bytes "p_size p"] show ?thesis
      by (auto simp: part_covers_def not_less word_le_nat_alt)
  qed
qed

text \<open>What an accepted header is.\<close>

definition header_ok :: "ag_axe_header \<Rightarrow> u32 \<Rightarrow> bool" where
  "header_ok h file_bytes \<longleftrightarrow>
     p_size (hd_code h) \<noteq> 0 \<and> p_file_size (hd_code h) = p_size (hd_code h) \<and> part_ok (hd_code h) file_bytes \<and>
     (p_size (hd_data h) \<noteq> 0 \<longrightarrow> part_ok (hd_data h) file_bytes) \<and>
     (p_size (hd_data h) = 0 \<longrightarrow> p_file_size (hd_data h) = 0) \<and>
     (ag_axe_is_split h \<longrightarrow> part_ok (hd_cold h) file_bytes) \<and>
     part_span (hd_code h) \<inter> part_span (hd_data h) = {} \<and>
     (ag_axe_is_split h \<longrightarrow> part_span (hd_cold h) \<inter> (part_span (hd_code h) \<union> part_span (hd_data h)) = {})"

lemma part_span_empty [simp]: "p_size p = 0 \<Longrightarrow> part_span p = {}"
  by (simp add: part_span_def)

lemma validate_header_ok:
  assumes "ag_axe_validate tgt (Some h) file_bytes arch maj mnr = Inr ()"
  shows "header_ok h file_bytes"
proof -
  let ?c = "hd_code h" and ?d = "hd_data h" and ?k = "hd_cold h"
  have code: "p_size ?c \<noteq> 0" "p_file_size ?c = p_size ?c" "check_part ?c file_bytes = Inr ()"
    and data: "check_part ?d file_bytes = Inr ()"
    and split: "validate_split h file_bytes = Inr ()" and lay: "validate_layout h = Inr ()"
    using assms by (auto simp: ag_axe_validate_def validate_kind_def)
  note c = check_part_ok [OF code(3,1)]
  have d: "part_ok ?d file_bytes" if "p_size ?d \<noteq> 0" using check_part_ok [OF data that] .
  have d0: "p_file_size ?d = 0" if "p_size ?d = 0"
    using data that by (simp add: check_part_def split: if_splits)
  have k: "part_ok ?k file_bytes" if "ag_axe_is_split h"
    using split that by (intro check_part_ok) (auto simp: validate_split_def ag_axe_is_split_def split: if_splits)
  have cd: "part_span ?c \<inter> part_span ?d = {}"
  proof (cases "p_size ?d = 0")
    case False
    then show ?thesis using lay by (intro spans_disjoint [OF c d]) (auto simp: validate_layout_def Let_def word_neq_0_conv)
  qed simp
  have kc: "part_span ?k \<inter> part_span ?c = {}" if "ag_axe_is_split h"
    using split that code(1)
    by (intro spans_disjoint [OF k c]) (auto simp: validate_split_def Let_def word_neq_0_conv)
  have kd: "part_span ?k \<inter> part_span ?d = {}" if "ag_axe_is_split h"
  proof (cases "p_size ?d = 0")
    case False
    then show ?thesis using split that
      by (intro spans_disjoint [OF k d]) (auto simp: validate_split_def Let_def word_neq_0_conv)
  qed simp
  from code c d d0 k cd kc kd show ?thesis by (auto simp: header_ok_def)
qed

lemma validate_tables_ok:
  assumes "ag_axe_validate tgt (Some h) file_bytes arch maj mnr = Inr ()"
  shows "unat (hd_reloc_offset h) + unat (hd_reloc_count h) * 4 \<le> unat file_bytes"
    and "unat (ag_axe_ireloc_offset h) + unat (ag_axe_ireloc_count h) * 8 \<le> unat file_bytes"
    and "unat (ag_axe_creloc_offset h) + unat (ag_axe_creloc_count h) * 8 \<le> unat file_bytes"
  using assms sum64_mult_le [of file_bytes _ _ 4] sum64_mult_le [of file_bytes _ _ 8]
  by (auto simp: ag_axe_validate_def validate_tables_def)

lemma part_ok_covers:
  assumes "part_ok p file_bytes" and "0 < bytes"
  shows "part_covers p addr bytes \<longleftrightarrow> {unat addr..<unat addr + unat bytes} \<subseteq> part_span p"
proof -
  have b: "0 < unat bytes" using assms(2) by (simp add: word_less_nat_alt)
  have "unat (p_base p) + unat (p_size p) < 2 ^ 32" using assms(1) by (simp add: part_ok_def)
  from part_covers_exact [OF this assms(2)] b show ?thesis by (auto simp: part_span_def ivl_subset)
qed

lemma part_covers_empty [simp]: "p_size p = 0 \<Longrightarrow> 0 < bytes \<Longrightarrow> \<not> part_covers p addr bytes"
  by (simp add: part_covers_def)

lemma validate_addresses_ok:
  assumes "ag_axe_validate tgt (Some h) file_bytes arch maj mnr = Inr ()"
  shows "unat (hd_entry h) \<in> part_span (hd_code h) \<or> (ag_axe_is_split h \<and> unat (hd_entry h) \<in> part_span (hd_cold h))"
    and "\<exists>p \<in> {hd_code h, hd_data h} \<union> (if ag_axe_is_split h then {hd_cold h} else {}).
           {unat (hd_api_slot h)..<unat (hd_api_slot h) + 4} \<subseteq> part_span p"
proof -
  from validate_header_ok [OF assms] have ok: "part_ok (hd_code h) file_bytes"
    "p_size (hd_data h) \<noteq> 0 \<Longrightarrow> part_ok (hd_data h) file_bytes"
    "ag_axe_is_split h \<Longrightarrow> part_ok (hd_cold h) file_bytes" by (auto simp: header_ok_def)
  have va: "validate_addresses h = Inr ()" using assms by (simp add: ag_axe_validate_def)
  then show "unat (hd_entry h) \<in> part_span (hd_code h) \<or> (ag_axe_is_split h \<and> unat (hd_entry h) \<in> part_span (hd_cold h))"
    using part_ok_covers [OF ok(1), of 1] part_ok_covers [OF ok(3), of 1]
    by (auto simp: validate_addresses_def)
  have "p_size (hd_data h) \<noteq> 0" if "part_covers (hd_data h) (hd_api_slot h) 4" using that by auto
  with va show "\<exists>p \<in> {hd_code h, hd_data h} \<union> (if ag_axe_is_split h then {hd_cold h} else {}).
           {unat (hd_api_slot h)..<unat (hd_api_slot h) + 4} \<subseteq> part_span p"
    using part_ok_covers [OF ok(1), of 4] part_ok_covers [OF ok(2), of 4] part_ok_covers [OF ok(3), of 4]
    by (fastforce simp: validate_addresses_def)
qed

subsection \<open>What relocation writes\<close>

text \<open>The bytes of a part placed at an address, and the three parts of an image.\<close>

definition win :: "ptr \<Rightarrow> u32 \<Rightarrow> u32 set" where
  "win b n = {x. x - b < n}"

definition placed :: "ag_axe_header \<Rightarrow> ag_axe_place \<Rightarrow> u32 set" where
  "placed h pl = win (code_write pl) (p_size (hd_code h)) \<union> win (pl_data pl) (p_size (hd_data h)) \<union>
     (if ag_axe_is_split h then win (cold_write pl) (p_size (hd_cold h)) else {})"

definition same_outside :: "u32 set \<Rightarrow> memory \<Rightarrow> memory \<Rightarrow> bool" where
  "same_outside S m m' \<longleftrightarrow> (\<forall>x. x \<notin> S \<longrightarrow> m' x = m x)"

lemma same_outside_refl [simp]: "same_outside S m m"
  by (simp add: same_outside_def)

lemma same_outside_trans: "same_outside S a b \<Longrightarrow> same_outside S b c \<Longrightarrow> same_outside S a c"
  by (simp add: same_outside_def)

lemma win_word:
  assumes "\<not> n < 4" and "\<not> at > n - 4" and "x - (b + at) < 4"
  shows "x \<in> win b n"
proof -
  have eq: "x - b = (x - (b + at)) + at" by simp
  have "y + at < n" if "y < 4" "4 \<le> n" "at \<le> n - 4" for y :: u32
    using that by uint_arith
  from this [OF assms(3)] assms(1,2) show ?thesis unfolding win_def mem_Collect_eq eq by (simp only: not_less)
qed

lemma win_mono: "n \<le> n' \<Longrightarrow> win b n \<subseteq> win b n'"
  by (auto simp: win_def)

lemma store_in_win:
  "\<not> n < 4 \<Longrightarrow> \<not> at > n - 4 \<Longrightarrow> win b n \<subseteq> S \<Longrightarrow> same_outside S m (store32 m (b + at) w)"
  using win_word [of n at _ b] store32_other [of _ "b + at" m w] by (fastforce simp: same_outside_def)

lemma patch_in_win:
  "\<not> n < 4 \<Longrightarrow> \<not> at > n - 4 \<Longrightarrow> win b n \<subseteq> S \<Longrightarrow> same_outside S m (ireloc_patch m (b + at) kind addr)"
  by (auto simp: ireloc_patch_def store_in_win split: option.splits)

lemma apply_table_outside:
  "(\<And>e m. e \<in> set es \<Longrightarrow> same_outside S m (snd (f e m))) \<Longrightarrow> same_outside S m (snd (apply_table f es m))"
proof (induction es arbitrary: m)
  case (Cons e es)
  obtain r m' where f: "f e m = (r, m')" by (cases "f e m")
  have "same_outside S m m'" using Cons.prems [of e m] f by simp
  moreover have "same_outside S m' (snd (apply_table f es m'))" by (rule Cons.IH) (simp add: Cons.prems)
  ultimately show ?case using f by (auto split: sum.splits intro: same_outside_trans)
qed simp

lemma apply_checks_ctx: "apply_checks h pl rs n is k cs j = Inr x \<Longrightarrow> x = ctx_of h pl"
  by (simp add: apply_checks_def)

lemma header_ok_sizes:
  assumes "header_ok h file_bytes"
  shows "p_file_size (hd_code h) \<le> p_size (hd_code h)" and "p_file_size (hd_data h) \<le> p_size (hd_data h)"
    and "ag_axe_is_split h \<Longrightarrow> p_file_size (hd_cold h) \<le> p_size (hd_cold h)"
  using assms by (auto simp: header_ok_def part_ok_def)

lemma placed_parts:
  assumes "header_ok h file_bytes"
  shows "win (code_write pl) (p_file_size (hd_code h)) \<subseteq> placed h pl"
    and "win (pl_data pl) (p_file_size (hd_data h)) \<subseteq> placed h pl"
    and "ag_axe_is_split h \<Longrightarrow> win (cold_write pl) (p_file_size (hd_cold h)) \<subseteq> placed h pl"
  using header_ok_sizes [OF assms] win_mono unfolding placed_def by fastforce+

lemma apply_reloc_outside:
  assumes "header_ok h file_bytes"
  shows "same_outside (placed h pl) m (snd (apply_reloc h (ctx_of h pl) e m))"
  using placed_parts(1,2) [OF assms, of pl]
  by (auto simp: apply_reloc_def Let_def ctx_of_def intro!: store_in_win)

lemma apply_ireloc_outside:
  assumes "header_ok h file_bytes"
  shows "same_outside (placed h pl) m (snd (apply_ireloc h (ctx_of h pl) e m))"
  using placed_parts(1) [OF assms, of pl]
  by (auto simp: apply_ireloc_def ag_axe_ireloc_apply_def Let_def ctx_of_def intro!: patch_in_win)

lemma view_of_window:
  assumes "header_ok h file_bytes"
    and "view_of part h (code_write pl) cf (if p_size (hd_data h) > 0 then pl_data pl else NULL)
       (if ag_axe_is_split h then cold_write pl else NULL) kf = Some v"
  shows "win (v_write v) (v_stored v) \<subseteq> placed h pl"
  using assms(2) placed_parts [OF assms(1), of pl] by (auto simp: view_of_def split: if_splits)

lemma apply_creloc_outside:
  assumes "header_ok h file_bytes"
  shows "same_outside (placed h pl) m (snd (apply_creloc h (ctx_of h pl) e m))"
proof -
  let ?x = "ctx_of h pl"
  let ?view = "\<lambda>w. view_of (AG_AXE_C_PART w) h (x_code_write ?x) (x_code_final ?x) (x_data ?x) (x_cold_write ?x) (x_cold_final ?x)"
  show ?thesis
  proof (cases "?view (c_site e)")
    case None
    then show ?thesis by (simp add: apply_creloc_def Let_def)
  next
    case (Some v)
    have "win (v_write v) (v_stored v) \<subseteq> placed h pl"
      by (rule view_of_window [OF assms]) (use Some in \<open>simp add: ctx_of_def\<close>)
    then show ?thesis using Some store_in_win [of "v_stored v" "AG_AXE_C_OFFSET (c_site e)" "v_write v" "placed h pl" m]
      by (simp add: apply_creloc_def Let_def split: option.splits)
  qed
qed

lemma zero_bss_outside:
  assumes "header_ok h file_bytes"
  shows "same_outside (placed h pl) m (zero_bss h (ctx_of h pl) m)"
proof -
  have "x - b < n" if "x - (b + f) < n - f" "f < n" for x b f n :: u32
  proof -
    have eq: "x - b = (x - (b + f)) + f" by simp
    have "y + f < n" if "y < n - f" "f < n" for y :: u32 using that by uint_arith
    from this [OF that] show ?thesis unfolding eq .
  qed
  then have "win (pl_data pl + p_file_size (hd_data h)) (p_size (hd_data h) - p_file_size (hd_data h)) \<subseteq> placed h pl"
    if "p_file_size (hd_data h) < p_size (hd_data h)" using that unfolding placed_def win_def by blast
  moreover have "same_outside S m (memset0 m b n)" if "win b n \<subseteq> S" for S b n
    using that by (auto simp: same_outside_def memset0_def win_def)
  moreover have "x_data (ctx_of h pl) \<noteq> NULL \<Longrightarrow> x_data (ctx_of h pl) = pl_data pl" by (simp add: ctx_of_def split: if_splits)
  ultimately show ?thesis unfolding zero_bss_def by auto
qed

lemma apply_split_outside:
  assumes "header_ok h file_bytes"
  shows "same_outside (placed h pl) m (snd (ag_axe_apply_split (Some h) (Some pl) rs n is k cs j m))"
proof (cases "apply_checks h pl rs n is k cs j")
  case (Inl e)
  then show ?thesis by (simp add: ag_axe_apply_split_def)
next
  case (Inr x)
  note x = apply_checks_ctx [OF Inr]
  obtain r1 m1 where t1: "apply_table (apply_reloc h x) (table_of rs n) (zero_bss h x m) = (r1, m1)" by fastforce
  obtain r2 m2 where t2: "apply_table (apply_ireloc h x) (table_of is k) m1 = (r2, m2)" by fastforce
  obtain r3 m3 where t3: "apply_table (apply_creloc h x) (table_of cs j) m2 = (r3, m3)" by fastforce
  have s1: "same_outside (placed h pl) m m1"
    using apply_table_outside [of "table_of rs n" "placed h pl" "apply_reloc h x" "zero_bss h x m"]
      apply_reloc_outside [OF assms, of pl] zero_bss_outside [OF assms, of pl m] t1
    unfolding x by (auto intro: same_outside_trans)
  have s2: "same_outside (placed h pl) m m2"
    using apply_table_outside [of "table_of is k" "placed h pl" "apply_ireloc h x" m1]
      apply_ireloc_outside [OF assms, of pl] t2 s1 unfolding x by (auto intro: same_outside_trans)
  have s3: "same_outside (placed h pl) m m3"
    using apply_table_outside [of "table_of cs j" "placed h pl" "apply_creloc h x" m2]
      apply_creloc_outside [OF assms, of pl] t3 s2 unfolding x by (auto intro: same_outside_trans)
  show ?thesis using s1 s2 s3
    by (auto simp: ag_axe_apply_split_def Inr t1 t2 t3 Let_def split: sum.splits)
qed

subsection \<open>What relocation makes of the listed words\<close>

definition reloc_site :: "axe_ctx \<Rightarrow> u32 \<Rightarrow> ptr" where
  "reloc_site x e = (if e AND AG_AXE_R_IN_DATA \<noteq> 0 then x_data x else x_code_write x) + AG_AXE_R_OFFSET e"

definition reloc_bias :: "ag_axe_header \<Rightarrow> axe_ctx \<Rightarrow> u32 \<Rightarrow> u32" where
  "reloc_bias h x e = (if e AND AG_AXE_R_TO_DATA \<noteq> 0 then x_data x - p_base (hd_data h)
                       else x_code_final x - p_base (hd_code h))"

lemma load32_cong: "(\<And>k. k < 4 \<Longrightarrow> m (a + k) = m' (a + k)) \<Longrightarrow> load32 m a = load32 m' a"
proof -
  assume eq: "\<And>k. k < 4 \<Longrightarrow> m (a + k) = m' (a + k)"
  from eq [of 0] eq [of 1] eq [of 2] eq [of 3] show ?thesis by (simp add: load32_def)
qed

lemma apply_reloc_store:
  assumes "apply_reloc h x e m = (Inr u, m')"
  shows "m' = store32 m (reloc_site x e) (load32 m (reloc_site x e) + reloc_bias h x e)"
    and "e AND AG_AXE_R_TO_DATA \<noteq> 0 \<Longrightarrow> x_data x \<noteq> NULL"
  using assms by (auto simp: apply_reloc_def Let_def reloc_site_def reloc_bias_def split: if_splits)

lemma apply_relocs_words:
  "apply_table (apply_reloc h x) es m = (Inr u, m') \<Longrightarrow> sorted_wrt apart4 (map (reloc_site x) es) \<Longrightarrow>
   (\<forall>e \<in> set es. load32 m' (reloc_site x e) = load32 m (reloc_site x e) + reloc_bias h x e) \<and>
   (\<forall>y. (\<forall>e \<in> set es. \<not> y - reloc_site x e < 4) \<longrightarrow> m' y = m y)"
proof (induction es arbitrary: m)
  case (Cons e es)
  let ?a = "reloc_site x e"
  from Cons.prems(1) obtain u1 m1 where f: "apply_reloc h x e m = (Inr u1, m1)"
    and rest: "apply_table (apply_reloc h x) es m1 = (Inr u, m')"
    by (auto split: prod.splits sum.splits)
  note m1 = apply_reloc_store(1) [OF f]
  have apart: "apart4 ?a (reloc_site x e')" if "e' \<in> set es" for e' using Cons.prems(2) that by simp
  from Cons.IH [OF rest] Cons.prems(2) have
    IH1: "\<And>e'. e' \<in> set es \<Longrightarrow> load32 m' (reloc_site x e') = load32 m1 (reloc_site x e') + reloc_bias h x e'"
    and IH2: "\<And>y. (\<forall>e' \<in> set es. \<not> y - reloc_site x e' < 4) \<Longrightarrow> m' y = m1 y" by auto
  have sym: "apart4 (reloc_site x e') ?a" if "e' \<in> set es" for e' using apart [OF that] by (auto simp: apart4_def)
  have "load32 m' ?a = load32 m1 ?a"
    by (rule load32_cong, rule IH2) (use apart4_shift [OF sym] in auto)
  then have "load32 m' ?a = load32 m ?a + reloc_bias h x e" unfolding m1 by simp
  moreover have "load32 m1 (reloc_site x e') = load32 m (reloc_site x e')" if "e' \<in> set es" for e'
    unfolding m1 by (rule load_store_other [OF apart [OF that]])
  moreover have "m1 y = m y" if "\<not> y - ?a < 4" for y unfolding m1 by (rule store32_other [OF that])
  ultimately show ?case using IH1 IH2 by simp
qed simp

lemma apply_split_success:
  assumes "ag_axe_apply_split (Some h) (Some pl) rs n is k cs j m = (Inr b, m')"
  obtains m1 m2 where "apply_checks h pl rs n is k cs j = Inr (ctx_of h pl)"
    and "apply_table (apply_reloc h (ctx_of h pl)) (table_of rs n) (zero_bss h (ctx_of h pl) m) = (Inr (), m1)"
    and "apply_table (apply_ireloc h (ctx_of h pl)) (table_of is k) m1 = (Inr (), m2)"
    and "apply_table (apply_creloc h (ctx_of h pl)) (table_of cs j) m2 = (Inr (), m')"
    and "b_entry b = ag_axe_resolve h pl (hd_entry h)" and "b_entry b \<noteq> NULL"
    and "b_api_slot b = api_slot_of h pl (ctx_of h pl)" and "b_api_slot b \<noteq> NULL"
proof (cases "apply_checks h pl rs n is k cs j")
  case (Inl e)
  with assms show ?thesis by (simp add: ag_axe_apply_split_def)
next
  case (Inr x)
  let ?x = "ctx_of h pl"
  have x: "x = ?x" by (rule apply_checks_ctx [OF Inr])
  obtain r1 m1 where t1: "apply_table (apply_reloc h ?x) (table_of rs n) (zero_bss h ?x m) = (r1, m1)" by fastforce
  obtain r2 m2 where t2: "apply_table (apply_ireloc h ?x) (table_of is k) m1 = (r2, m2)" by fastforce
  obtain r3 m3 where t3: "apply_table (apply_creloc h ?x) (table_of cs j) m2 = (r3, m3)" by fastforce
  note run = assms [unfolded ag_axe_apply_split_def, simplified, unfolded Inr x, simplified, unfolded t1, simplified]
  obtain u1 where u1: "r1 = Inr u1" using run by (cases r1) simp_all
  note run2 = run [unfolded u1, simplified, unfolded t2, simplified]
  obtain u2 where u2: "r2 = Inr u2" using run2 by (cases r2) simp_all
  note run3 = run2 [unfolded u2, simplified, unfolded t3, simplified]
  obtain u3 where u3: "r3 = Inr u3" using run3 by (cases r3) simp_all
  note run4 = run3 [unfolded u3, simplified, unfolded Let_def]
  from run4 show ?thesis
    using that [of m1 m2] Inr x t1 t2 t3 u1 u2 u3 by (auto split: if_splits)
qed

lemma apply_words_only:
  assumes "ag_axe_apply (Some h) (Some pl) (Some rs) n None k m = (Inr b, m')" and "length rs = unat n"
  shows "apply_table (apply_reloc h (ctx_of h pl)) rs (zero_bss h (ctx_of h pl) m) = (Inr (), m')"
    and "pl_code pl \<noteq> NULL"
proof -
  have "\<not> ag_axe_is_split h" using assms(1) by (auto simp: ag_axe_apply_def split: if_splits)
  then have app: "ag_axe_apply_split (Some h) (Some pl) (Some rs) n None k None 0 m = (Inr b, m')"
    using assms(1) by (simp add: ag_axe_apply_def)
  have tab: "table_of (Some rs) n = rs" "\<And>k'. table_of None k' = []" using assms(2) by (simp_all add: table_of_def)
  from apply_split_success [OF app] obtain m1 m2 where
    chk: "apply_checks h pl (Some rs) n None k None 0 = Inr (ctx_of h pl)"
    and t: "apply_table (apply_reloc h (ctx_of h pl)) (table_of (Some rs) n) (zero_bss h (ctx_of h pl) m) = (Inr (), m1)"
      "apply_table (apply_ireloc h (ctx_of h pl)) (table_of None k) m1 = (Inr (), m2)"
      "apply_table (apply_creloc h (ctx_of h pl)) (table_of None 0) m2 = (Inr (), m')" .
  from t show "apply_table (apply_reloc h (ctx_of h pl)) rs (zero_bss h (ctx_of h pl) m) = (Inr (), m')"
    unfolding tab by simp
  from chk show "pl_code pl \<noteq> NULL" by (simp add: apply_checks_def)
qed

lemma resolve_by_part:
  assumes "header_ok h file_bytes" and "pl_code pl \<noteq> NULL"
  shows "part_covers (hd_code h) a 1 \<Longrightarrow> ag_axe_resolve h pl a = pl_code pl + (a - p_base (hd_code h))"
    and "part_covers (hd_data h) a 1 \<Longrightarrow> pl_data pl \<noteq> NULL \<Longrightarrow>
           ag_axe_resolve h pl a = pl_data pl + (a - p_base (hd_data h))"
    and "part_covers (hd_cold h) a 1 \<Longrightarrow> ag_axe_is_split h \<Longrightarrow> pl_cold pl \<noteq> NULL \<Longrightarrow>
           ag_axe_resolve h pl a = pl_cold pl + (a - p_base (hd_cold h))"
proof -
  have sub: "unat a \<in> part_span p" if "part_ok p file_bytes" "part_covers p a 1" for p
    using part_ok_covers [OF that(1), of 1 a] that(2) by auto
  have d: "part_covers (hd_data h) a 1 \<Longrightarrow> p_size (hd_data h) \<noteq> 0" by auto
  show "part_covers (hd_code h) a 1 \<Longrightarrow> ag_axe_resolve h pl a = pl_code pl + (a - p_base (hd_code h))"
    using assms(2) by (simp add: ag_axe_resolve_def)
  show "part_covers (hd_data h) a 1 \<Longrightarrow> pl_data pl \<noteq> NULL \<Longrightarrow>
           ag_axe_resolve h pl a = pl_data pl + (a - p_base (hd_data h))"
    using assms(1) sub d by (auto simp: ag_axe_resolve_def header_ok_def)
  show "part_covers (hd_cold h) a 1 \<Longrightarrow> ag_axe_is_split h \<Longrightarrow> pl_cold pl \<noteq> NULL \<Longrightarrow>
           ag_axe_resolve h pl a = pl_cold pl + (a - p_base (hd_cold h))"
    using assms(1) sub d by (auto simp: ag_axe_resolve_def header_ok_def)
qed

lemma covers_first: "part_covers p a 4 \<Longrightarrow> part_covers p a 1"
proof -
  have "d \<le> n - 4 \<Longrightarrow> \<not> n < 4 \<Longrightarrow> d \<le> n - 1 \<and> \<not> n < 1" for d n :: u32 by uint_arith
  then show "part_covers p a 4 \<Longrightarrow> ?thesis" by (auto simp: part_covers_def split: if_splits)
qed

text \<open>The syscall pointer of an accepted image lies in one of its placed parts.\<close>

lemma api_slot_placed:
  assumes ok: "header_ok h file_bytes" and va: "validate_addresses h = Inr ()" and code: "pl_code pl \<noteq> NULL"
    and data: "p_size (hd_data h) > 0 \<Longrightarrow> pl_data pl \<noteq> NULL"
    and cold: "ag_axe_is_split h \<Longrightarrow> pl_cold pl \<noteq> NULL"
  shows "x - api_slot_of h pl (ctx_of h pl) < 4 \<Longrightarrow> x \<in> placed h pl"
proof -
  assume near: "x - api_slot_of h pl (ctx_of h pl) < 4"
  let ?s = "hd_api_slot h"
  have inw: "x \<in> win b (p_size p)" if "part_covers p ?s 4" "api_slot_of h pl (ctx_of h pl) = b + (?s - p_base p)" for p b
    using that near by (intro win_word [of "p_size p" "?s - p_base p"]) (auto simp: part_covers_def split: if_splits)
  have cw: "ag_axe_is_split h \<Longrightarrow> cold_write pl \<noteq> NULL" using cold by (simp add: cold_write_def)
  consider (code) "part_covers (hd_code h) ?s 4"
    | (cold) "\<not> part_covers (hd_code h) ?s 4" "ag_axe_is_split h" "part_covers (hd_cold h) ?s 4"
    | (data) "\<not> part_covers (hd_code h) ?s 4" "part_covers (hd_data h) ?s 4"
        "\<not> (ag_axe_is_split h \<and> part_covers (hd_cold h) ?s 4)"
    using va by (auto simp: validate_addresses_def)
  then show "x \<in> placed h pl"
  proof cases
    case code
    then show ?thesis using inw [of "hd_code h" "code_write pl"] by (simp add: api_slot_of_def ctx_of_def placed_def)
  next
    case cold
    then show ?thesis using inw [of "hd_cold h" "cold_write pl"] cw by (simp add: api_slot_of_def ctx_of_def placed_def)
  next
    case data
    have "p_size (hd_data h) > 0" using data(2) by (cases "p_size (hd_data h) = 0") (auto simp: word_neq_0_conv)
    with assms(4) have "pl_data pl \<noteq> NULL" by simp
    from resolve_by_part(2) [OF ok code covers_first [OF data(2)] this] data
    have "api_slot_of h pl (ctx_of h pl) = pl_data pl + (?s - p_base (hd_data h))"
      by (auto simp: api_slot_of_def ctx_of_def)
    from inw [OF data(2) this] show ?thesis by (simp add: placed_def)
  qed
qed

section \<open>Properties\<close>

text \<open>
  C5. An accepted image is sound. When \<open>ag_axe_validate\<close> says yes, read in plain arithmetic without
  wrap-around: the parts do not overlap, each present part is word-aligned, does not run off the
  address space and has its stored bytes inside the file, the three relocation tables are inside the
  file, execution starts inside code (or the cold code of a split image), and the four bytes of the
  syscall pointer lie inside one of the parts.
\<close>

theorem axe_validate_sound:
  assumes "ag_axe_validate tgt (Some h) file_bytes arch maj mnr = Inr ()"
  shows "header_ok h file_bytes \<and>
    unat (hd_reloc_offset h) + unat (hd_reloc_count h) * 4 \<le> unat file_bytes \<and>
    unat (ag_axe_ireloc_offset h) + unat (ag_axe_ireloc_count h) * 8 \<le> unat file_bytes \<and>
    unat (ag_axe_creloc_offset h) + unat (ag_axe_creloc_count h) * 8 \<le> unat file_bytes \<and>
    (unat (hd_entry h) \<in> part_span (hd_code h) \<or> (ag_axe_is_split h \<and> unat (hd_entry h) \<in> part_span (hd_cold h))) \<and>
    (\<exists>p \<in> {hd_code h, hd_data h} \<union> (if ag_axe_is_split h then {hd_cold h} else {}).
       {unat (hd_api_slot h)..<unat (hd_api_slot h) + 4} \<subseteq> part_span p)"
  by (intro conjI validate_header_ok [OF assms] validate_tables_ok [OF assms] validate_addresses_ok [OF assms])

definition demo_header :: ag_axe_header where
  "demo_header = \<lparr>hd_magic = ''AXE1'', hd_abi_major = 0, hd_abi_minor = 70, hd_arch = 1, hd_header_size = 216,
     hd_flags = 0,
     hd_code = \<lparr>p_base = 65536, p_size = 16, p_file_size = 16, p_offset = 216\<rparr>,
     hd_data = \<lparr>p_base = 131072, p_size = 16, p_file_size = 8, p_offset = 232\<rparr>,
     hd_entry = 65536, hd_api_slot = 131080, hd_reloc_offset = 240, hd_reloc_count = 1,
     hd_stack_size = 0, hd_heap_size = 0, hd_name = replicate 32 CHR 0x00, hd_version = replicate 16 CHR 0x00,
     hd_author = replicate 32 CHR 0x00, hd_reserved = replicate 6 0, hd_ireloc_offset = 0, hd_ireloc_count = 0,
     hd_icon_offset = 0, hd_icon_size = 0, hd_cold = \<lparr>p_base = 0, p_size = 0, p_file_size = 0, p_offset = 0\<rparr>,
     hd_creloc_offset = 0, hd_creloc_count = 0\<rparr>"

lemma demo_header_valid: "ag_axe_validate Build_xtensa (Some demo_header) 244 AG_ARCH_XTENSA 0 72 = Inr ()"
  by code_simp

theorem axe_validate_sound_witness: "header_ok demo_header 244 \<and> unat (hd_entry demo_header) \<in> part_span (hd_code demo_header)"
  using axe_validate_sound [OF demo_header_valid] by (simp add: demo_header_def ag_axe_is_split_def)

text \<open>
  C6. Relocating an accepted image stays inside it. Whatever the tables of the file say and however
  the call ends, \<open>ag_axe_apply_split\<close> changes no byte outside the three places the loader gave the
  parts, and storing the syscall pointer afterwards changes none either.
\<close>

theorem axe_apply_stays_inside:
  assumes "ag_axe_validate tgt (Some h) file_bytes arch maj mnr = Inr ()"
    and "ag_axe_apply_split (Some h) (Some pl) rs n is k cs j m = (r, m')" and "x \<notin> placed h pl"
  shows "m' x = m x \<and> (case r of Inl _ \<Rightarrow> True | Inr b \<Rightarrow> ag_axe_bind_api (Some b) api m' x = m x)"
proof -
  note ok = validate_header_ok [OF assms(1)]
  have out: "m' x = m x"
    using apply_split_outside [OF ok, of pl m rs n "is" k cs j] assms(2,3) by (simp add: same_outside_def)
  have "ag_axe_bind_api (Some b) api m' x = m x" if "r = Inr b" for b
  proof -
    from apply_split_success [OF assms(2) [unfolded that]] obtain m1 where
      chk: "apply_checks h pl rs n is k cs j = Inr (ctx_of h pl)"
      and slot: "b_api_slot b = api_slot_of h pl (ctx_of h pl)" .
    have "\<not> x - b_api_slot b < 4"
      using api_slot_placed [OF ok, of pl x] chk assms(1,3)
      unfolding slot by (auto simp: apply_checks_def ag_axe_validate_def)
    then show ?thesis using out by (simp add: ag_axe_bind_api_def store32_other)
  qed
  with out show ?thesis by (cases r) simp_all
qed

definition demo_place :: ag_axe_place where
  "demo_place = \<lparr>pl_code = 4096, pl_code_capacity = 16, pl_data = 8192, pl_data_capacity = 16,
     pl_code_writable = 0, pl_cold = 0, pl_cold_capacity = 0, pl_cold_writable = 0\<rparr>"

theorem axe_apply_stays_inside_witness:
  "snd (ag_axe_apply_split (Some demo_header) (Some demo_place) (Some [6]) 1 None 0 None 0 (\<lambda>_. 9)) 4112 = 9"
proof -
  have "4112 \<notin> placed demo_header demo_place"
    by (simp add: placed_def win_def demo_header_def demo_place_def code_write_def ag_axe_is_split_def CRELOC_COUNT_END_def)
  from axe_apply_stays_inside [OF demo_header_valid prod.collapse [symmetric] this] show ?thesis by simp
qed

text \<open>
  C17. Word relocation is right. For an accepted image whose relocations are words (every Xtensa image),
  placed anywhere, a successful \<open>ag_axe_apply\<close> with entries for distinct words adds to each listed
  word the displacement of the part it points into: a word that held the linked address of a byte now
  holds the address where that byte really is. Every byte that is in no listed word is as the file and
  the cleared bss left it.
\<close>

theorem axe_apply_relocates:
  assumes "ag_axe_validate tgt (Some h) file_bytes arch maj mnr = Inr ()"
    and "ag_axe_apply (Some h) (Some pl) (Some rs) n None k m = (Inr b, m')" and "length rs = unat n"
    and "x = ctx_of h pl" and "m0 = zero_bss h x m" and "sorted_wrt apart4 (map (reloc_site x) rs)"
  shows "list_all (\<lambda>e. load32 m' (reloc_site x e) = load32 m0 (reloc_site x e) + reloc_bias h x e \<and>
      (part_covers (if e AND AG_AXE_R_TO_DATA \<noteq> 0 then hd_data h else hd_code h) (load32 m0 (reloc_site x e)) 1 \<longrightarrow>
       load32 m' (reloc_site x e) = ag_axe_resolve h pl (load32 m0 (reloc_site x e)))) rs \<and>
    (\<forall>y. (\<forall>e \<in> set rs. \<not> y - reloc_site x e < 4) \<longrightarrow> m' y = m0 y)"
proof -
  note ok = validate_header_ok [OF assms(1)]
  note run = apply_words_only(1) [OF assms(2,3), folded assms(4), folded assms(5)]
  note code = apply_words_only(2) [OF assms(2,3)]
  note words = apply_relocs_words [OF run assms(6)]
  have dataok: "x_data x = pl_data pl \<and> pl_data pl \<noteq> NULL" if "part_covers (hd_data h) a 1" "x_data x \<noteq> NULL" for a
    using that by (auto simp: assms(4) ctx_of_def split: if_splits)
  have todata: "x_data x \<noteq> NULL" if e: "e \<in> set rs" "e AND AG_AXE_R_TO_DATA \<noteq> 0" for e
    using run e
  proof (induction rs arbitrary: m0)
    case (Cons a as)
    then obtain u m1 where f: "apply_reloc h x a m0 = (Inr u, m1)" "apply_table (apply_reloc h x) as m1 = (Inr (), m')"
      by (auto split: prod.splits sum.splits)
    show ?case using Cons.IH [OF f(2)] Cons.prems(2,3) apply_reloc_store(2) [OF f(1)] by auto
  qed simp
  have "load32 m' (reloc_site x e) = ag_axe_resolve h pl (load32 m0 (reloc_site x e))"
    if e: "e \<in> set rs"
      and cov: "part_covers (if e AND AG_AXE_R_TO_DATA \<noteq> 0 then hd_data h else hd_code h) (load32 m0 (reloc_site x e)) 1" for e
  proof (cases "e AND AG_AXE_R_TO_DATA \<noteq> 0")
    case True
    with todata [OF e] dataok cov have d: "x_data x = pl_data pl" "pl_data pl \<noteq> NULL" by auto
    from True cov resolve_by_part(2) [OF ok code _ d(2)] words e d(1) show ?thesis
      by (simp add: reloc_bias_def)
  next
    case False
    with cov resolve_by_part(1) [OF ok code] words e show ?thesis
      by (simp add: reloc_bias_def assms(4) ctx_of_def)
  qed
  with words show ?thesis by (simp add: list_all_iff)
qed

lemma demo_apply_ok:
  "\<exists>b m'. ag_axe_apply (Some demo_header) (Some demo_place) (Some [6]) 1 None 0 (\<lambda>_. 0) = (Inr b, m')"
  by (simp add: ag_axe_apply_def ag_axe_apply_split_def demo_header_def demo_place_def apply_checks_def guard_def
      ag_axe_is_split_def CRELOC_COUNT_END_def table_of_def apply_reloc_def Let_def ctx_of_def AG_AXE_R_OFFSET_def
      AG_AXE_R_IN_DATA_def AG_AXE_R_TO_DATA_def code_write_def ag_axe_ireloc_count_def ag_axe_creloc_count_def
      ag_axe_resolve_def part_covers_def api_slot_of_def)

theorem axe_apply_relocates_witness:
  "\<exists>b m'. ag_axe_apply (Some demo_header) (Some demo_place) (Some [6]) 1 None 0 (\<lambda>_. 0) = (Inr b, m') \<and>
     load32 m' (reloc_site (ctx_of demo_header demo_place) 6) =
       load32 (zero_bss demo_header (ctx_of demo_header demo_place) (\<lambda>_. 0)) (reloc_site (ctx_of demo_header demo_place) 6) +
       reloc_bias demo_header (ctx_of demo_header demo_place) 6"
proof -
  obtain b m' where r: "ag_axe_apply (Some demo_header) (Some demo_place) (Some [6]) 1 None 0 (\<lambda>_. 0) = (Inr b, m')"
    using demo_apply_ok by blast
  from axe_apply_relocates [OF demo_header_valid r _ refl refl] r show ?thesis by auto
qed

text \<open>
  An address split over two RISC-V instructions comes together again. After the pair is patched with
  the same target address, what the core computes from \<open>lui\<close> and the signed twelve bits of the load,
  \<open>addi\<close> or store that follows is that address, for every address; the opcode and register fields of
  the three are untouched.
\<close>

theorem axe_hi_lo_pair:
  assumes "ireloc_word AG_AXE_I_HI20 addr w1 = Some hi" and "ireloc_word AG_AXE_I_LO12_I addr w2 = Some lo"
    and "ireloc_word AG_AXE_I_LO12_S addr w3 = Some st"
  shows "lui_imm hi + i_imm lo = addr \<and> lui_imm hi + s_imm st = addr \<and>
    hi AND 0xFFF = w1 AND 0xFFF \<and> lo AND 0x000FFFFF = w2 AND 0x000FFFFF \<and> st AND 0x01FFF07F = w3 AND 0x01FFF07F"
proof -
  have eqs: "hi = ((addr + 0x800) AND 0xFFFFF000) OR (w1 AND 0xFFF)"
    "lo = push_bit 20 (addr AND 0xFFF) OR (w2 AND 0x000FFFFF)"
    "st = push_bit 25 (drop_bit 5 addr AND 0x7F) OR (w3 AND 0x01FFF07F) OR push_bit 7 (addr AND 0x1F)"
    using assms by (simp_all add: ireloc_word_def ireloc_kinds)
  have "(addr + 0x800 AND 0xFFFFF000) + signed_take_bit 11 addr = addr"
    unfolding and_hi20 round_hi20 by simp
  moreover have "hi AND 0xFFF = w1 AND 0xFFF" "lo AND 0x000FFFFF = w2 AND 0x000FFFFF" "st AND 0x01FFF07F = w3 AND 0x01FFF07F"
    using ireloc_word_keeps [OF assms(1)] ireloc_word_keeps [OF assms(2)] ireloc_word_keeps [OF assms(3)]
    by (simp_all add: keep_mask_def ireloc_kinds)
  ultimately show ?thesis
    using lui_imm_patch [of "addr + 0x800" w1] i_imm_patch [of addr w2] s_imm_patch [of addr w3] unfolding eqs by metis
qed

theorem axe_hi_lo_pair_witness:
  "\<exists>hi lo st. ireloc_word AG_AXE_I_HI20 4095 55 = Some hi \<and> ireloc_word AG_AXE_I_LO12_I 4095 19 = Some lo \<and>
     ireloc_word AG_AXE_I_LO12_S 4095 35 = Some st \<and> lui_imm hi + i_imm lo = 4095 \<and> lui_imm hi + s_imm st = 4095"
proof -
  obtain hi lo st where "ireloc_word AG_AXE_I_HI20 4095 55 = Some hi" "ireloc_word AG_AXE_I_LO12_I 4095 19 = Some lo"
    "ireloc_word AG_AXE_I_LO12_S 4095 35 = Some st" by (simp add: ireloc_word_def ireloc_kinds)
  with axe_hi_lo_pair [OF this] show ?thesis by blast
qed

text \<open>
  Applying an instruction relocation or a split relocation twice is applying it once, for every
  entry, window and memory: the loader may patch an instruction again when it meets it in another page.
\<close>

theorem axe_reloc_idempotent:
  "ag_axe_ireloc_apply h cb stored ca da off e (snd (ag_axe_ireloc_apply h cb stored ca da off e m)) =
     ag_axe_ireloc_apply h cb stored ca da off e m \<and>
   apply_creloc h x c (snd (apply_creloc h x c m)) = apply_creloc h x c m"
  by (auto simp: ag_axe_ireloc_apply_def Let_def ireloc_patch_idem apply_creloc_def split: option.splits)

text \<open>
  A successfully placed image starts where its entry point went: the binding's entry is the placed
  address of the linked entry point (in code, or in the cold code of a split image), and after
  \<open>ag_axe_bind_api\<close> the word at the binding's slot is the address of the syscall table.
\<close>

theorem axe_binding_entry_and_slot:
  assumes "ag_axe_validate tgt (Some h) file_bytes arch maj mnr = Inr ()"
    and "ag_axe_apply_split (Some h) (Some pl) rs n is k cs j m = (Inr b, m')"
  shows "b_entry b = (if part_covers (hd_code h) (hd_entry h) 1 then pl_code pl + (hd_entry h - p_base (hd_code h))
                      else pl_cold pl + (hd_entry h - p_base (hd_cold h))) \<and>
    load32 (ag_axe_bind_api (Some b) api m') (b_api_slot b) = api"
proof -
  note ok = validate_header_ok [OF assms(1)]
  from apply_split_success [OF assms(2)] obtain m1 where
    chk: "apply_checks h pl rs n is k cs j = Inr (ctx_of h pl)"
    and e: "b_entry b = ag_axe_resolve h pl (hd_entry h)" and slot: "b_api_slot b \<noteq> NULL" .
  have code: "pl_code pl \<noteq> NULL" and cold: "ag_axe_is_split h \<Longrightarrow> pl_cold pl \<noteq> NULL"
    using chk by (auto simp: apply_checks_def)
  have "part_covers (hd_code h) (hd_entry h) 1 \<or> (ag_axe_is_split h \<and> part_covers (hd_cold h) (hd_entry h) 1)"
    using assms(1) by (auto simp: ag_axe_validate_def validate_addresses_def)
  with resolve_by_part(1,3) [OF ok code, of "hd_entry h"] cold e slot show ?thesis
    by (auto simp: ag_axe_bind_api_def)
qed

theorem axe_binding_entry_and_slot_witness:
  "\<exists>b m'. ag_axe_apply_split (Some demo_header) (Some demo_place) (Some [6]) 1 None 0 None 0 (\<lambda>_. 0) = (Inr b, m') \<and>
     b_entry b = 4096 \<and> load32 (ag_axe_bind_api (Some b) 77 m') (b_api_slot b) = 77"
proof -
  obtain b m' where r: "ag_axe_apply_split (Some demo_header) (Some demo_place) (Some [6]) 1 None 0 None 0 (\<lambda>_. 0) = (Inr b, m')"
    using demo_apply_ok by (auto simp: ag_axe_apply_def ag_axe_is_split_def demo_header_def CRELOC_COUNT_END_def)
  from axe_binding_entry_and_slot [OF demo_header_valid r, of 77] r show ?thesis
    by (auto simp: part_covers_def demo_header_def demo_place_def)
qed

text \<open>
  An instruction relocation of a kind the loader does not know is not refused: the entry is accepted
  and nothing is patched, for every image and memory. (The comment at the default case says that
  validation refused such an entry; neither \<open>ag_axe_validate\<close> nor \<open>ag_axe_ireloc_apply\<close> looks at the kind.)
\<close>

theorem axe_unknown_kind_ignored:
  assumes "4 \<le> stored" and "AG_AXE_I_OFFSET (i_site e) \<le> stored - 4"
    and "i_target e \<le> p_size (hd_code h) + AG_AXE_I_REACH" and "i_target e \<le> p_size (hd_data h) + AG_AXE_I_REACH"
    and "AG_AXE_I_KIND (i_site e) \<notin> {AG_AXE_I_HI20, AG_AXE_I_LO12_I, AG_AXE_I_LO12_S}"
  shows "ag_axe_ireloc_apply h cb stored ca da off e m = (True, m)"
  using assms by (auto simp: ag_axe_ireloc_apply_def Let_def ireloc_patch_def ireloc_word_def not_less)

theorem axe_unknown_kind_ignored_witness:
  "ag_axe_ireloc_apply demo_header 4096 16 4096 8192 0 \<lparr>i_site = 2147483652, i_target = 0\<rparr> (\<lambda>_. 7) = (True, \<lambda>_. 7)"
  by (rule axe_unknown_kind_ignored)
    (simp_all add: AG_AXE_I_OFFSET_def AG_AXE_I_KIND_def AG_AXE_I_REACH_def ireloc_kinds demo_header_def)

text \<open>
  Two flags share a bit: an image that only asks for its code to be placed in PSRAM
  (\<open>AG_AXE_WANT_PSRAM\<close>) is refused as needing a float unit by every RISC-V kernel built without one.
\<close>

theorem axe_want_psram_refused:
  assumes "hd_flags h AND AG_AXE_WANT_PSRAM \<noteq> 0"
  shows "ag_axe_validate (Build_riscv False) (Some h) file_bytes arch maj mnr \<noteq> Inr ()"
  using assms
  by (auto simp: ag_axe_validate_def validate_kind_def ag_axe_native_fpu_def AG_AXE_WANT_PSRAM_def AG_AXE_NEEDS_FPU_def)

theorem axe_want_psram_refused_witness:
  "ag_axe_validate (Build_riscv False) (Some (demo_header\<lparr>hd_flags := 512, hd_arch := 2\<rparr>)) 244 AG_ARCH_RISCV32 0 72 \<noteq> Inr ()"
  by (rule axe_want_psram_refused) (simp add: AG_AXE_WANT_PSRAM_def)

end
