(* ===== verification/XipLoad.thy ===== *)
theory XipLoad
  imports AxeLoad
begin

text \<open>
  \<open>xip_load_chunked\<close> of \<open>loader/loader.c\<close>: relocating an image into flash one page at a time, with a
  single page of RAM. The page lengths, the relocation of one page and the loop over the pages are
  modelled; what they call outside the loader (the heap, the file and the flash slot) is the record
  \<open>xip_env\<close>. The properties are about the windows: they tile the code part, a word never falls between
  two of them, and two ways in which a relocation can be lost or go outside the page.
\<close>

definition AG_XIP_CHUNK :: u32 where "AG_XIP_CHUNK = 4096"

text \<open>
  What the loop calls: the relocation tables as allocated and read (an error of either), the page
  buffer (\<open>NULL\<close> when there is no memory), reading the file into memory, programming the flash, and
  the address of the syscall table.
\<close>

record 'f xip_env =
  env_rel :: "u32 list ag_err"
  env_irel :: "ag_axe_ireloc list ag_err"
  env_buf :: ptr
  env_read :: "u32 \<Rightarrow> ptr \<Rightarrow> u32 \<Rightarrow> memory \<Rightarrow> unit ag_err \<times> memory"
  env_program :: "u32 \<Rightarrow> u32 \<Rightarrow> memory \<Rightarrow> 'f \<Rightarrow> unit ag_err \<times> 'f"
  env_api :: u32

section \<open>One page\<close>

definition xip_page_len :: "u32 \<Rightarrow> ag_axe_ireloc list \<Rightarrow> u32 \<Rightarrow> u32" where
  "xip_page_len code_size irel off =
     (let n = (if code_size - off > AG_XIP_CHUNK then AG_XIP_CHUNK else code_size - off)
      in if n = AG_XIP_CHUNK \<and> list_ex (\<lambda>e. AG_AXE_I_OFFSET (i_site e) = off + n - 2) irel then n - 4 else n)"

definition xip_word :: "ptr \<Rightarrow> u32 \<Rightarrow> u32 \<Rightarrow> u32 \<Rightarrow> u32 \<Rightarrow> u32 \<Rightarrow> memory \<Rightarrow> memory" where
  "xip_word buf off n code_bias data_bias entry m =
     (if entry AND AG_AXE_R_IN_DATA \<noteq> 0 then m
      else let at = AG_AXE_R_OFFSET entry
           in if at < off \<or> at + 4 > off + n then m
              else store32 m (buf + (at - off))
                     (load32 m (buf + (at - off)) + (if entry AND AG_AXE_R_TO_DATA \<noteq> 0 then data_bias else code_bias)))"

fun xip_instrs ::
  "ag_axe_header \<Rightarrow> ptr \<Rightarrow> u32 \<Rightarrow> u32 \<Rightarrow> u32 \<Rightarrow> u32 \<Rightarrow> ag_axe_ireloc list \<Rightarrow> memory \<Rightarrow> unit ag_err \<times> memory" where
  "xip_instrs h buf off n code_addr data_addr [] m = (Inr (), m)"
| "xip_instrs h buf off n code_addr data_addr (e # es) m =
     (let at = AG_AXE_I_OFFSET (i_site e)
      in if at < off \<or> at + 4 > off + n then xip_instrs h buf off n code_addr data_addr es m
         else case ag_axe_ireloc_apply h buf (p_file_size (hd_code h)) code_addr data_addr off e m of
                (False, m') \<Rightarrow> (Inl AG_EFORMAT, m')
              | (True, m') \<Rightarrow> xip_instrs h buf off n code_addr data_addr es m')"

definition api_in_code :: "ag_axe_header \<Rightarrow> bool" where
  "api_in_code h \<longleftrightarrow> hd_api_slot h \<ge> p_base (hd_code h) \<and>
     hd_api_slot h + 4 \<le> p_base (hd_code h) + p_size (hd_code h)"

definition xip_page ::
  "'f xip_env \<Rightarrow> ag_axe_header \<Rightarrow> u32 \<Rightarrow> u32 \<Rightarrow> u32 list \<Rightarrow> ag_axe_ireloc list \<Rightarrow> u32 \<Rightarrow> u32 \<Rightarrow> memory \<times> 'f \<Rightarrow>
   unit ag_err \<times> memory \<times> 'f" where
  "xip_page env h code_addr data_addr rel irel off n s =
     (let (m, fl) = s;
          buf = env_buf env;
          code = hd_code h;
          code_bias = code_addr - p_base code;
          data_bias = (if data_addr \<noteq> NULL then data_addr - p_base (hd_data h) else 0);
          fn = (if off < p_file_size code then (if p_file_size code - off > n then n else p_file_size code - off) else 0)
      in case (if off < p_file_size code then env_read env (p_offset code + off) buf fn m else (Inr (), m)) of
           (Inl e, m1) \<Rightarrow> (Inl e, m1, fl)
         | (Inr _, m1) \<Rightarrow>
             (let m2 = (if fn < n then memset0 m1 (buf + fn) (n - fn) else m1);
                  m3 = (if api_in_code h \<and> hd_api_slot h \<ge> p_base code + off \<and>
                           hd_api_slot h + 4 \<le> p_base code + off + n
                        then store32 m2 (buf + (hd_api_slot h - p_base code - off)) (env_api env) else m2);
                  m4 = foldl (\<lambda>m e. xip_word buf off n code_bias data_bias e m) m3 rel;
                  m5 = snd (xip_instrs h buf off n code_addr data_addr irel m4)
              in case env_program env off n m5 fl of (r, fl') \<Rightarrow> (r, m5, fl')))"

section \<open>The loop\<close>

lemma page_len_bounds:
  fixes d :: u32
  assumes "0 < d" and "n = (if d > 4096 then 4096 else d)"
  shows "0 < n \<and> n \<le> d \<and> n \<le> 4096 \<and> (n = 4096 \<longrightarrow> 0 < n - 4 \<and> n - 4 \<le> d)"
  using assms by (cases "d > 4096") (auto simp: word_less_nat_alt word_le_nat_alt)

lemma xip_page_len_pos:
  assumes "off < code_size"
  shows "0 < xip_page_len code_size irel off \<and> xip_page_len code_size irel off \<le> code_size - off \<and>
    xip_page_len code_size irel off \<le> 4096"
proof -
  have d: "0 < code_size - off" using assms unat_sub_no_wrap [of off code_size] by (simp add: word_less_nat_alt word_le_nat_alt)
  from page_len_bounds [OF d refl] show ?thesis
    unfolding xip_page_len_def Let_def AG_XIP_CHUNK_def by (auto simp: word_le_nat_alt split: if_splits)
qed

lemma xip_progress:
  assumes "off < code_size" and "n = xip_page_len code_size irel off"
  shows "off < off + n \<and> off + n \<le> code_size \<and> unat (off + n) = unat off + unat n"
proof -
  have "0 < n" "n \<le> code_size - off" using xip_page_len_pos [OF assms(1), of irel] assms(2) by simp_all
  then have "0 < unat n" "unat n \<le> unat code_size - unat off"
    using assms(1) unat_sub_no_wrap [of off code_size] by (auto simp: word_le_nat_alt word_less_nat_alt)
  moreover have "unat (off + n) = unat off + unat n"
    using calculation assms(1) unat_u32_less [of code_size]
    by (intro unat_add_no_wrap) (simp add: word_less_nat_alt)
  ultimately show ?thesis using assms(1) by (simp add: word_less_nat_alt word_le_nat_alt)
qed

lemma xip_measure:
  "off < code_size \<Longrightarrow> unat code_size - unat (off + xip_page_len code_size irel off) < unat code_size - unat off"
  using xip_progress [of off code_size "xip_page_len code_size irel off" irel]
  by (auto simp: word_less_nat_alt word_le_nat_alt)

function xip_loop ::
  "'f xip_env \<Rightarrow> ag_axe_header \<Rightarrow> u32 \<Rightarrow> u32 \<Rightarrow> u32 list \<Rightarrow> ag_axe_ireloc list \<Rightarrow> u32 \<Rightarrow> memory \<times> 'f \<Rightarrow>
   unit ag_err \<times> memory \<times> 'f" where
  "xip_loop env h code_addr data_addr rel irel off s =
     (if off < p_size (hd_code h) then
        let n = xip_page_len (p_size (hd_code h)) irel off
        in case xip_page env h code_addr data_addr rel irel off n s of
             (Inl e, s') \<Rightarrow> (Inl e, s')
           | (Inr _, s') \<Rightarrow> xip_loop env h code_addr data_addr rel irel (off + n) s'
      else (Inr (), s))"
  by auto
termination
  by (relation "measure (\<lambda>(_, h, _, _, _, _, off, _). unat (p_size (hd_code h)) - unat off)")
    (auto simp: xip_measure)

declare xip_loop.simps [simp del]

text \<open>The words of the data part, relocated in place once the code is in flash.\<close>

definition xip_data_word :: "ag_axe_header \<Rightarrow> u32 \<Rightarrow> u32 \<Rightarrow> u32 \<Rightarrow> memory \<Rightarrow> memory" where
  "xip_data_word h code_addr data_addr entry m =
     (if entry AND AG_AXE_R_IN_DATA = 0 then m
      else let at = AG_AXE_R_OFFSET entry
           in if at + 4 > p_size (hd_data h) then m
              else store32 m (data_addr + at)
                     (load32 m (data_addr + at) +
                      (if entry AND AG_AXE_R_TO_DATA \<noteq> 0 then data_addr - p_base (hd_data h)
                       else code_addr - p_base (hd_code h))))"

definition xip_load_chunked ::
  "'f xip_env \<Rightarrow> ag_axe_header \<Rightarrow> ag_axe_place \<Rightarrow> memory \<times> 'f \<Rightarrow> ptr ag_err \<times> memory \<times> 'f" where
  "xip_load_chunked env h place s =
     (let code_addr = pl_code place;
          data_addr = pl_data place;
          data = hd_data h
      in case (if hd_reloc_count h > 0 then env_rel env else Inr []) of
           Inl e \<Rightarrow> (Inl e, s)
         | Inr rel \<Rightarrow>
             (case (if ag_axe_ireloc_count h > 0 then env_irel env else Inr []) of
                Inl e \<Rightarrow> (Inl e, s)
              | Inr irel \<Rightarrow>
                  if env_buf env = NULL then (Inl AG_ENOMEM, s)
                  else (case (if data_addr \<noteq> NULL \<and> p_file_size data > 0
                              then env_read env (p_offset data) data_addr (p_file_size data) (fst s)
                              else (Inr (), fst s)) of
                          (Inl e, m) \<Rightarrow> (Inl e, m, snd s)
                        | (Inr _, m) \<Rightarrow>
                            (let m1 = (if data_addr \<noteq> NULL \<and> p_size data > p_file_size data
                                       then memset0 m (data_addr + p_file_size data) (p_size data - p_file_size data)
                                       else m)
                             in case xip_loop env h code_addr data_addr rel irel 0 (m1, snd s) of
                                  (Inl e, s') \<Rightarrow> (Inl e, s')
                                | (Inr _, m2, fl) \<Rightarrow>
                                    (let m3 = (if data_addr \<noteq> NULL
                                               then foldl (\<lambda>m e. xip_data_word h code_addr data_addr e m) m2 rel else m2);
                                         m4 = (if data_addr \<noteq> NULL \<and> \<not> api_in_code h \<and> hd_api_slot h \<ge> p_base data \<and>
                                                  hd_api_slot h + 4 \<le> p_base data + p_size data
                                               then store32 m3 (data_addr + (hd_api_slot h - p_base data)) (env_api env)
                                               else m3)
                                     in (Inr (code_addr + (hd_entry h - p_base (hd_code h))), m4, fl))))))"

section \<open>The windows\<close>

function xip_pages :: "u32 \<Rightarrow> ag_axe_ireloc list \<Rightarrow> u32 \<Rightarrow> (u32 \<times> u32) list" where
  "xip_pages code_size irel off =
     (if off < code_size then (off, xip_page_len code_size irel off) #
        xip_pages code_size irel (off + xip_page_len code_size irel off) else [])"
  by auto
termination
  by (relation "measure (\<lambda>(c, _, off). unat c - unat off)") (auto simp: xip_measure)

declare xip_pages.simps [simp del]

text \<open>A four-byte site is inside a window when the loop's own test does not skip it.\<close>

definition inside_page :: "u32 \<Rightarrow> u32 \<times> u32 \<Rightarrow> bool" where
  "inside_page at w \<longleftrightarrow> \<not> (at < fst w \<or> at + 4 > fst w + snd w)"

section \<open>Lemmas\<close>

lemma xip_page_len_cases:
  assumes "off < code_size" and "n = xip_page_len code_size irel off"
  shows "off + n = code_size \<or> (n = 4096 \<and> \<not> list_ex (\<lambda>e. AG_AXE_I_OFFSET (i_site e) = off + 4094) irel) \<or>
    (n = 4092 \<and> list_ex (\<lambda>e. AG_AXE_I_OFFSET (i_site e) = off + 4094) irel)"
proof (cases "code_size - off > AG_XIP_CHUNK \<or> code_size - off = AG_XIP_CHUNK")
  case True
  then have "xip_page_len code_size irel off =
      (if list_ex (\<lambda>e. AG_AXE_I_OFFSET (i_site e) = off + 4096 - 2) irel then 4092 else 4096)"
  proof -
    have n: "(if code_size - off > AG_XIP_CHUNK then AG_XIP_CHUNK else code_size - off) = 4096"
      using True by (auto simp: AG_XIP_CHUNK_def)
    show ?thesis unfolding xip_page_len_def n Let_def by (simp add: AG_XIP_CHUNK_def)
  qed
  moreover have "off + 4096 - 2 = off + (4094 :: u32)" by simp
  ultimately show ?thesis using assms(2) by auto
next
  case False
  then show ?thesis using assms by (auto simp: xip_page_len_def Let_def)
qed

text \<open>The window that holds a byte, from an aligned start.\<close>

lemma xip_pages_hold:
  "unat off mod 4 = 0 \<Longrightarrow> unat code_size mod 4 = 0 \<Longrightarrow> off \<le> at \<Longrightarrow> at < code_size \<Longrightarrow>
   \<exists>o1 n. (o1, n) \<in> set (xip_pages code_size irel off) \<and> unat o1 mod 4 = 0 \<and> o1 < code_size \<and>
     n = xip_page_len code_size irel o1 \<and> o1 \<le> at \<and> at < o1 + n"
proof (induction code_size irel off rule: xip_pages.induct)
  case (1 code_size irel off)
  let ?n = "xip_page_len code_size irel off"
  have lt: "off < code_size" using 1(4,5) by simp
  note prog = xip_progress [OF lt refl, of irel]
  have "unat (off + ?n) mod 4 = 0" if "off + ?n < code_size"
    using xip_page_len_cases [OF lt refl, of irel] that prog 1(2) by (auto simp: mod_add_eq)
  moreover have "unat (off + ?n) mod 4 = 0" if "off + ?n = code_size" using that 1(3) by simp
  ultimately have al: "unat (off + ?n) mod 4 = 0" using prog by (metis order_le_less)
  show ?case
  proof (cases "at < off + ?n")
    case True
    then show ?thesis using lt 1(2,4) by (subst xip_pages.simps) auto
  next
    case False
    with 1(1) [OF lt al 1(3)] 1(5) show ?thesis by (subst xip_pages.simps) (auto simp: not_less lt)
  qed
qed

lemma xip_pages_above: "(o1, n) \<in> set (xip_pages code_size irel off) \<Longrightarrow> off \<le> o1 \<and> o1 < code_size \<and> n = xip_page_len code_size irel o1"
proof (induction code_size irel off rule: xip_pages.induct)
  case (1 code_size irel off)
  then show ?case using xip_progress [of off code_size _ irel]
    by (subst (asm) (2) xip_pages.simps) (force split: if_splits)
qed

text \<open>Windows do not overlap, so a site is inside at most one.\<close>

lemma xip_pages_unique:
  assumes "w \<in> set (xip_pages code_size irel off)" and "w' \<in> set (xip_pages code_size irel off)"
    and "fst w \<le> at" and "at < fst w + snd w" and "fst w' \<le> at" and "at < fst w' + snd w'"
  shows "w = w'"
  using assms(1,2)
proof (induction code_size irel off rule: xip_pages.induct)
  case (1 code_size irel off)
  let ?n = "xip_page_len code_size irel off"
  have lt: "off < code_size" using 1(2) by (subst (asm) xip_pages.simps) (auto split: if_splits)
  have later: "off + ?n \<le> fst v" if "v \<in> set (xip_pages code_size irel (off + ?n))" for v
    using xip_pages_above [of "fst v" "snd v"] that by auto
  have "v = (off, ?n) \<or> v \<in> set (xip_pages code_size irel (off + ?n))" if "v \<in> set (xip_pages code_size irel off)" for v
    using that lt by (subst (asm) xip_pages.simps) auto
  then consider "w = (off, ?n)" "w' = (off, ?n)"
    | "w \<in> set (xip_pages code_size irel (off + ?n))" "w' \<in> set (xip_pages code_size irel (off + ?n))"
    | "w = (off, ?n)" "off + ?n \<le> fst w'" | "w' = (off, ?n)" "off + ?n \<le> fst w"
    using 1(2,3) later by blast
  then show ?case
  proof cases
    case 2
    then show ?thesis by (rule 1(1) [OF lt])
  next
    case 3
    with assms(4,5) show ?thesis by simp
  next
    case 4
    with assms(3,6) show ?thesis by simp
  qed simp
qed

lemma inside_page_nat:
  assumes "unat at + 4 < 2 ^ 32" and "(o1, n) \<in> set (xip_pages code_size irel off)"
  shows "inside_page at (o1, n) \<longleftrightarrow> unat o1 \<le> unat at \<and> unat at + 4 \<le> unat o1 + unat n"
proof -
  from xip_pages_above [OF assms(2)] have "unat (o1 + n) = unat o1 + unat n"
    using xip_progress [of o1 code_size n irel] by simp
  moreover have "unat (at + 4) = unat at + 4" using assms(1) unat_add_no_wrap [of at 4] by simp
  ultimately show ?thesis by (auto simp: inside_page_def not_less word_le_nat_alt word_less_nat_alt)
qed

lemma mod4_gap:
  fixes a e :: nat
  assumes "e mod 4 = 0" and "a < e" and "e < a + 4" and "a mod 4 = 0 \<or> a mod 2 = 0"
  shows "e = a + 2"
  using assms by presburger

section \<open>Properties\<close>

text \<open>
  No relocation falls between two pages, but for one case. In an image whose code size is a multiple
  of four, every site of four bytes inside the code part that is word-aligned, or that is listed as an
  instruction on an even offset with no listed instruction right after it, is inside exactly one of the
  windows the loop goes through, so it is relocated exactly once.
\<close>

theorem xip_site_in_one_page:
  assumes "unat code_size mod 4 = 0" and "unat at + 4 \<le> unat code_size"
    and "unat at mod 4 = 0 \<or>
      (unat at mod 2 = 0 \<and> list_ex (\<lambda>e. AG_AXE_I_OFFSET (i_site e) = at) irel \<and>
       \<not> list_ex (\<lambda>e. AG_AXE_I_OFFSET (i_site e) = at + 4) irel)"
  shows "\<exists>!w. w \<in> set (xip_pages code_size irel 0) \<and> inside_page at w"
proof -
  have at: "at < code_size" "unat at + 4 < 2 ^ 32"
    using assms(2) unat_u32_less [of code_size] by (auto simp: word_less_nat_alt)
  obtain o1 n where w: "(o1, n) \<in> set (xip_pages code_size irel 0)" and o1: "unat o1 mod 4 = 0" "o1 < code_size"
    "n = xip_page_len code_size irel o1" "o1 \<le> at" "at < o1 + n"
    using xip_pages_hold [of 0 code_size at irel] assms(1) at(1) by auto
  note prog = xip_progress [OF o1(2,3)]
  note in_nat = inside_page_nat [OF at(2)]
  have "inside_page at (o1, n)"
  proof (rule ccontr)
    assume "\<not> inside_page at (o1, n)"
    then have gap: "unat o1 + unat n < unat at + 4" "unat at < unat o1 + unat n"
      using in_nat [OF w] o1(4,5) prog by (auto simp: word_le_nat_alt word_less_nat_alt)
    have notlast: "o1 + n \<noteq> code_size" using gap(1) prog assms(2) by auto
    then have n: "n = 4096 \<or> n = 4092" using xip_page_len_cases [OF o1(2,3)] by auto
    then have "(unat o1 + unat n) mod 4 = 0" using o1(1) by (auto simp: mod_add_eq)
    then have edge: "unat o1 + unat n = unat at + 2" using mod4_gap [OF _ gap(2,1)] assms(3) by auto
    then have "unat at mod 4 \<noteq> 0" using \<open>(unat o1 + unat n) mod 4 = 0\<close> by presburger
    with assms(3) have listed: "list_ex (\<lambda>e. AG_AXE_I_OFFSET (i_site e) = at) irel"
      "\<not> list_ex (\<lambda>e. AG_AXE_I_OFFSET (i_site e) = at + 4) irel" by auto
    have eq: "o1 + n = at + 2" using edge prog at(2) unat_add_no_wrap [of at 2] by (simp add: word_unat_eq_iff)
    from n show False
    proof
      assume "n = 4096"
      then have "o1 + 4094 = at" using eq by (simp add: eq_diff_eq [symmetric])
      with listed(1) xip_page_len_cases [OF o1(2,3)] \<open>n = 4096\<close> notlast show False by auto
    next
      assume "n = 4092"
      then have "o1 + 4094 = at + 4" using eq by (simp add: eq_diff_eq [symmetric])
      with listed(2) xip_page_len_cases [OF o1(2,3)] \<open>n = 4092\<close> notlast show False by auto
    qed
  qed
  moreover have "v = (o1, n)" if v: "v \<in> set (xip_pages code_size irel 0)" "inside_page at v" for v
  proof (rule xip_pages_unique [OF v(1) w])
    obtain a b where ab: "v = (a, b)" by (cases v)
    have "unat a \<le> unat at \<and> unat at + 4 \<le> unat a + unat b" using in_nat v ab by blast
    moreover have "unat (a + b) = unat a + unat b"
      using xip_pages_above [of a b] xip_progress [of a code_size b irel] v ab by auto
    ultimately show "fst v \<le> at" "at < fst v + snd v" by (simp_all add: ab word_le_nat_alt word_less_nat_alt)
  qed (use o1 in simp_all)
  ultimately show ?thesis using w by blast
qed

theorem xip_site_in_one_page_witness:
  "\<exists>!w. w \<in> set (xip_pages 8192 [\<lparr>i_site = 4094, i_target = 0\<rparr>] 0) \<and> inside_page 4094 w"
  by (rule xip_site_in_one_page) (simp_all add: AG_AXE_I_OFFSET_def)

text \<open>
  C21. The case that is lost. Take any image and any page that the loop would program in full, had an instruction that is listed not begun two
  bytes before its end, so that the page stops four bytes short. An instruction that begins four bytes in front of that one, as the \<open>lui\<close> in front of an
  \<open>addi\<close> does, is cut in half by that: whichever of the windows the loop is at, the instruction is skipped, and it is programmed unrelocated.
\<close>

theorem xip_adjacent_pair_lost:
  assumes page: "(o1, n1) \<in> set (xip_pages code_size irel 0)" and full: "4096 \<le> code_size - o1"
    and second: "e2 \<in> set irel" "AG_AXE_I_OFFSET (i_site e2) = o1 + 4094" and first: "AG_AXE_I_OFFSET (i_site e1) = o1 + 4090"
    and any_page: "(off, n) \<in> set (xip_pages code_size irel 0)"
  shows "xip_instrs h buf off n code_addr data_addr (e1 # es) m = xip_instrs h buf off n code_addr data_addr es m"
proof -
  have lt: "o1 < code_size" and n1: "n1 = xip_page_len code_size irel o1" using xip_pages_above [OF page] by auto
  have room: "unat o1 + 4096 \<le> unat code_size"
    using full lt unat_sub_no_wrap [of o1 code_size] by (simp add: word_le_nat_alt word_less_nat_alt)
  then have far: "unat o1 + 4096 < 2 ^ 32" using unat_u32_less [of code_size] by simp
  have cut: "(if code_size - o1 > AG_XIP_CHUNK then AG_XIP_CHUNK else code_size - o1) = 4096"
    using full by (auto simp: AG_XIP_CHUNK_def)
  have edge: "o1 + 4096 - 2 = o1 + (4094 :: u32)" by simp
  have "list_ex (\<lambda>e. AG_AXE_I_OFFSET (i_site e) = o1 + 4096 - 2) irel"
    unfolding edge list_ex_iff using second by blast
  then have n1': "n1 = 4092" unfolding n1 xip_page_len_def cut Let_def by (simp add: AG_XIP_CHUNK_def)
  let ?at = "o1 + 4090"
  have at: "unat ?at = unat o1 + 4090" "unat ?at + 4 < 2 ^ 32" using far by (simp_all add: unat_add_no_wrap)
  note in_nat = inside_page_nat [OF at(2)]
  have "\<not> inside_page ?at (off, n)"
  proof
    assume i: "inside_page ?at (off, n)"
    then have b: "unat off \<le> unat ?at" "unat ?at + 4 \<le> unat off + unat n" using in_nat [OF any_page] by auto
    have u: "unat (off + n) = unat off + unat n" using xip_pages_above [OF any_page] xip_progress [of off code_size n irel] by auto
    have "(off, n) = (o1, n1)"
      by (rule xip_pages_unique [OF any_page page, of ?at])
        (use b u at n1' far in \<open>simp_all add: word_le_nat_alt word_less_nat_alt unat_add_no_wrap\<close>)
    then show False using b n1' at(1) by simp
  qed
  then show ?thesis using first by (simp add: inside_page_def Let_def)
qed

theorem xip_adjacent_pair_lost_witness:
  "let e1 = \<lparr>i_site = AG_AXE_I_HI20 OR 4090, i_target = 0\<rparr>; e2 = \<lparr>i_site = AG_AXE_I_LO12_I OR 4094, i_target = 0\<rparr>
   in xip_pages 8192 [e1, e2] 0 = [(0, 4092), (4092, 4096), (8188, 4)] \<and>
      (\<forall>h buf ca da m. xip_instrs h buf 0 4092 ca da [e1] m = (Inr (), m) \<and> xip_instrs h buf 4092 4096 ca da [e1] m = (Inr (), m))"
proof -
  let ?e1 = "\<lparr>i_site = AG_AXE_I_HI20 OR 4090, i_target = 0\<rparr>" and ?e2 = "\<lparr>i_site = AG_AXE_I_LO12_I OR 4094, i_target = 0\<rparr>"
  have off: "AG_AXE_I_OFFSET (AG_AXE_I_HI20 OR 4090) = 4090" "AG_AXE_I_OFFSET (AG_AXE_I_LO12_I OR 4094) = 4094"
    by (simp_all add: AG_AXE_I_OFFSET_def ireloc_kinds)
  have p: "xip_pages 8192 [?e1, ?e2] 0 = [(0, 4092), (4092, 4096), (8188, 4)]"
    by (simp add: xip_pages.simps xip_page_len_def Let_def AG_XIP_CHUNK_def off)
  have "xip_instrs h buf o1 n ca da [?e1] m = xip_instrs h buf o1 n ca da [] m" if "(o1, n) \<in> {(0, 4092), (4092, 4096)}" for h buf o1 n ca da m
    by (rule xip_adjacent_pair_lost [of 0 4092 8192 "[?e1, ?e2]" ?e2]) (use that in \<open>auto simp: p off\<close>)
  then have "xip_instrs h buf 0 4092 ca da [?e1] m = (Inr (), m) \<and> xip_instrs h buf 4092 4096 ca da [?e1] m = (Inr (), m)" for h buf ca da m
    by (metis insertCI xip_instrs.simps(1))
  then show ?thesis unfolding Let_def using p by blast
qed

text \<open>
  A relocation entry near the top of the address range is not skipped: with the offset
  \<open>0xFFFFFFFC\<close> the loop's test \<open>at + 4u > off + n\<close> wraps to zero, and the word that is modified lies four
  bytes in front of the page buffer, for every page buffer and every length of the first page. (The
  word loop of \<open>ag_axe_apply_split\<close> subtracts instead and refuses the same entry.)
\<close>

theorem xip_entry_wraps_outside:
  "xip_word buf 0 n code_bias data_bias 0xFFFFFFFC m = store32 m (buf - 4) (load32 m (buf - 4) + code_bias) \<and>
   apply_reloc h x 0xFFFFFFFC m = (Inl AG_EFORMAT, m)"
proof -
  have e: "(0xFFFFFFFC :: u32) = - 4" "AG_AXE_R_OFFSET 0xFFFFFFFC = - 4" by (simp_all add: AG_AXE_R_OFFSET_def)
  have "xip_word buf 0 n code_bias data_bias 0xFFFFFFFC m = store32 m (buf - 4) (load32 m (buf - 4) + code_bias)"
    unfolding xip_word_def e(2) by (simp add: AG_AXE_R_IN_DATA_def AG_AXE_R_TO_DATA_def)
  moreover have "s < 4 \<or> s - 4 < - 4" for s :: u32
    using unat_u32_less [of s] unat_sub_no_wrap [of 4 s]
    by (cases "4 \<le> s") (auto simp: e(1) [symmetric] word_less_nat_alt word_le_nat_alt not_le)
  then have "apply_reloc h x 0xFFFFFFFC m = (Inl AG_EFORMAT, m)"
    unfolding apply_reloc_def e(2) by (simp add: Let_def AG_AXE_R_IN_DATA_def AG_AXE_R_TO_DATA_def)
  ultimately show ?thesis ..
qed

end
