(* ===== verification/Journal.thy ===== *)
theory Journal
  imports Prelude
begin

text \<open>
  \<open>core/journal.c\<close>: the log as a ring of bytes. The storage is the caller's array, a list of \<open>size\<close>
  characters; \<open>head\<close> and the cursor positions are indexes into it and never leave \<open>0..<size\<close>, so they
  are natural numbers, while the three counters are 32-bit words and wrap. The specification is the
  text written so far with its escape sequences stripped: the ring holds its last \<open>size\<close> characters, and
  the iterator reads back exactly its whole lines.
\<close>

section \<open>The ring\<close>

definition AG_JOURNAL_LINE_MAX :: nat where "AG_JOURNAL_LINE_MAX = 200"

datatype esc_state = ESC_GROUND | ESC_SEEN | ESC_CSI

record ag_journal =
  j_buf :: "char list"
  j_size :: nat
  j_head :: nat
  j_wrapped :: bool
  j_lines_written :: u32
  j_lines_dropped :: u32
  j_bytes_written :: u32
  j_esc :: esc_state

record ag_journal_iter =
  it_pos :: nat
  it_left :: nat

definition ag_journal_init :: "ag_journal option \<Rightarrow> char list option \<Rightarrow> nat \<Rightarrow> unit ag_err \<times> ag_journal option" where
  "ag_journal_init j storage n =
     (case (j, storage) of
        (Some _, Some st) \<Rightarrow>
          if n < AG_JOURNAL_LINE_MAX then (Inl AG_EINVAL, j)
          else (Inr (), Some \<lparr>j_buf = st, j_size = n, j_head = 0, j_wrapped = False, j_lines_written = 0,
                              j_lines_dropped = 0, j_bytes_written = 0, j_esc = ESC_GROUND\<rparr>)
      | _ \<Rightarrow> (Inl AG_EINVAL, j))"

definition ag_journal_clear :: "ag_journal \<Rightarrow> ag_journal" where
  "ag_journal_clear j =
     j\<lparr>j_head := 0, j_wrapped := False, j_lines_written := 0, j_lines_dropped := 0, j_bytes_written := 0,
       j_esc := ESC_GROUND\<rparr>"

definition put_byte :: "ag_journal \<Rightarrow> char \<Rightarrow> ag_journal" where
  "put_byte j c =
     (let dropped = (if j_wrapped j \<and> j_buf j ! j_head j = CHR 0x0A then j_lines_dropped j + 1 else j_lines_dropped j);
          full = (j_head j + 1 = j_size j)
      in j\<lparr>j_lines_dropped := dropped,
           j_buf := (j_buf j)[j_head j := c],
           j_head := (if full then 0 else j_head j + 1),
           j_wrapped := (if full then True else j_wrapped j),
           j_bytes_written := j_bytes_written j + 1,
           j_lines_written := (if c = CHR 0x0A then j_lines_written j + 1 else j_lines_written j)\<rparr>)"

definition write_byte :: "ag_journal \<Rightarrow> char \<Rightarrow> ag_journal" where
  "write_byte j c =
     (case j_esc j of
        ESC_SEEN \<Rightarrow> j\<lparr>j_esc := (if c = CHR ''['' then ESC_CSI else ESC_GROUND)\<rparr>
      | ESC_CSI \<Rightarrow> if char_in CHR 0x40 CHR 0x7E c then j\<lparr>j_esc := ESC_GROUND\<rparr> else j
      | ESC_GROUND \<Rightarrow>
          if c = CHR 0x1B then j\<lparr>j_esc := ESC_SEEN\<rparr>
          else if c = CHR 0x0D then j
          else if (of_char c :: nat) < 32 \<and> c \<noteq> CHR 0x0A \<and> c \<noteq> CHR 0x09 then j
          else put_byte j c)"

definition ag_journal_write :: "ag_journal \<Rightarrow> string \<Rightarrow> ag_journal" where
  "ag_journal_write j text = foldl write_byte j text"

definition ag_journal_puts :: "ag_journal \<Rightarrow> string option \<Rightarrow> ag_journal" where
  "ag_journal_puts j text = (case text of None \<Rightarrow> j | Some t \<Rightarrow> ag_journal_write j t)"

section \<open>Reading\<close>

definition next_pos :: "ag_journal \<Rightarrow> nat \<Rightarrow> nat" where
  "next_pos j pos = (if pos + 1 = j_size j then 0 else pos + 1)"

text \<open>The loop that skips the partial line at the old end.\<close>

fun skip_line :: "ag_journal \<Rightarrow> nat \<Rightarrow> nat \<Rightarrow> nat \<times> nat" where
  "skip_line j pos 0 = (pos, 0)"
| "skip_line j pos (Suc left) =
     (if j_buf j ! pos = CHR 0x0A then (next_pos j pos, left) else skip_line j (next_pos j pos) left)"

definition ag_journal_begin :: "ag_journal \<Rightarrow> ag_journal_iter" where
  "ag_journal_begin j =
     (if \<not> j_wrapped j then \<lparr>it_pos = 0, it_left = j_head j\<rparr>
      else case skip_line j (j_head j) (j_size j) of (pos, left) \<Rightarrow> \<lparr>it_pos = pos, it_left = left\<rparr>)"

text \<open>The loop that copies one line, with what was written to \<open>out\<close> so far.\<close>

fun copy_line :: "ag_journal \<Rightarrow> nat \<Rightarrow> nat \<Rightarrow> nat \<Rightarrow> string \<Rightarrow> (nat \<times> nat) \<times> string" where
  "copy_line j outlen pos 0 out = ((pos, 0), out)"
| "copy_line j outlen pos (Suc left) out =
     (let c = j_buf j ! pos
      in if c = CHR 0x0A then ((next_pos j pos, left), out)
         else copy_line j outlen (next_pos j pos) left (if length out + 1 < outlen then out @ [c] else out))"

definition ag_journal_next :: "ag_journal \<Rightarrow> ag_journal_iter \<Rightarrow> nat \<Rightarrow> (string option) \<times> ag_journal_iter" where
  "ag_journal_next j it outlen =
     (if outlen = 0 then (None, it)
      else if it_left it = 0 then (None, it)
      else case copy_line j outlen (it_pos it) (it_left it) [] of
             ((pos, left), out) \<Rightarrow> (Some out, \<lparr>it_pos = pos, it_left = left\<rparr>))"

lemma copy_line_le: "copy_line j n pos left out = ((p, l), o') \<Longrightarrow> l \<le> left"
  by (induction left arbitrary: pos out) (auto simp: Let_def le_Suc_eq split: if_splits)

lemma copy_line_left: "copy_line j n pos left out = ((p, l), o') \<Longrightarrow> 0 < left \<Longrightarrow> l < left"
  by (cases left) (auto simp: Let_def less_Suc_eq_le dest: copy_line_le split: if_splits)

text \<open>All the lines from a cursor on, as a reader that loops on \<open>ag_journal_next\<close> sees them.\<close>

function read_lines :: "ag_journal \<Rightarrow> nat \<Rightarrow> ag_journal_iter \<Rightarrow> string list" where
  "read_lines j outlen it =
     (case ag_journal_next j it outlen of (None, _) \<Rightarrow> [] | (Some l, it') \<Rightarrow> l # read_lines j outlen it')"
  by auto
termination
  by (relation "measure (\<lambda>(_, _, it). it_left it)")
    (auto simp: ag_journal_next_def dest: copy_line_left split: if_splits prod.splits)

declare read_lines.simps [simp del]

definition ag_journal_count :: "ag_journal \<Rightarrow> u32" where
  "ag_journal_count j = word_of_nat (length (read_lines j AG_JOURNAL_LINE_MAX (ag_journal_begin j)))"

definition ag_journal_lost :: "ag_journal \<Rightarrow> u32" where
  "ag_journal_lost j =
     (let held = ag_journal_count j in if j_lines_written j > held then j_lines_written j - held else 0)"

section \<open>Specification\<close>

text \<open>The text with its escape sequences, carriage returns and control characters stripped.\<close>

fun strip :: "esc_state \<Rightarrow> string \<Rightarrow> string" where
  "strip e [] = []"
| "strip ESC_SEEN (c # s) = strip (if c = CHR ''['' then ESC_CSI else ESC_GROUND) s"
| "strip ESC_CSI (c # s) = strip (if char_in CHR 0x40 CHR 0x7E c then ESC_GROUND else ESC_CSI) s"
| "strip ESC_GROUND (c # s) =
     (if c = CHR 0x1B then strip ESC_SEEN s
      else if c = CHR 0x0D \<or> ((of_char c :: nat) < 32 \<and> c \<noteq> CHR 0x0A \<and> c \<noteq> CHR 0x09) then strip ESC_GROUND s
      else c # strip ESC_GROUND s)"

definition last_n :: "nat \<Rightarrow> 'a list \<Rightarrow> 'a list" where
  "last_n n xs = drop (length xs - n) xs"

definition is_text :: "char \<Rightarrow> bool" where
  "is_text c \<longleftrightarrow> c \<noteq> CHR 0x0A"

lemma after_line_shorter: "s \<noteq> [] \<Longrightarrow> length (tl (dropWhile is_text s)) < length s"
  using length_dropWhile_le [of is_text s] by (cases s) (auto simp: less_Suc_eq_le)

text \<open>The lines of a text; a last line without its newline is one, if it is not empty.\<close>

function text_lines :: "string \<Rightarrow> string list" where
  "text_lines s = (if s = [] then [] else takeWhile is_text s # text_lines (tl (dropWhile is_text s)))"
  by auto
termination
  by (relation "measure length") (auto dest: after_line_shorter)

declare text_lines.simps [simp del]

lemma text_lines_Nil [simp]: "text_lines [] = []"
  by (subst text_lines.simps) simp

definition ring_text :: "ag_journal \<Rightarrow> string" where
  "ring_text j = (if j_wrapped j then drop (j_head j) (j_buf j) @ take (j_head j) (j_buf j)
                  else take (j_head j) (j_buf j))"

definition j_inv :: "ag_journal \<Rightarrow> bool" where
  "j_inv j \<longleftrightarrow> length (j_buf j) = j_size j \<and> j_head j < j_size j"

text \<open>The part of a stripped text that can be read back from a ring of \<open>n\<close> bytes.\<close>

definition readable :: "nat \<Rightarrow> string \<Rightarrow> string" where
  "readable n t = (if length t < n then t else tl (dropWhile is_text (last_n n t)))"

section \<open>Lemmas\<close>

subsection \<open>Writing\<close>

lemma put_byte_simps [simp]:
  "j_size (put_byte j c) = j_size j" "j_esc (put_byte j c) = j_esc j"
  "length (j_buf (put_byte j c)) = length (j_buf j)"
  by (simp_all add: put_byte_def Let_def)

lemma put_byte_inv: "j_inv j \<Longrightarrow> j_inv (put_byte j c)"
  by (auto simp: j_inv_def put_byte_def Let_def)

lemma esc_only [simp]: "j_inv (j\<lparr>j_esc := e\<rparr>) = j_inv j" "ring_text (j\<lparr>j_esc := e\<rparr>) = ring_text j"
  by (simp_all add: j_inv_def ring_text_def)

lemma length_ring_text: "j_inv j \<Longrightarrow> length (ring_text j) = (if j_wrapped j then j_size j else j_head j)"
  by (simp add: j_inv_def ring_text_def)

lemma last_n_short: "length xs \<le> n \<Longrightarrow> last_n n xs = xs"
  by (simp add: last_n_def)

lemma last_n_append_last: "last_n n (last_n n xs @ ys) = last_n n (xs @ ys)"
proof (cases "n \<le> length xs")
  case True
  then show ?thesis by (simp add: last_n_def add.commute)
next
  case False
  then show ?thesis by (simp add: last_n_short)
qed

lemma put_byte_ring:
  assumes "j_inv j"
  shows "ring_text (put_byte j c) = last_n (j_size j) (ring_text j @ [c])"
proof -
  let ?h = "j_head j" and ?b = "j_buf j"
  have h: "?h < length ?b" "length ?b = j_size j" using assms by (simp_all add: j_inv_def)
  have take: "take (Suc ?h) (?b[?h := c]) = take ?h ?b @ [c]" using h(1) by (simp add: take_Suc_conv_app_nth)
  have drop: "drop (Suc ?h) (?b[?h := c]) = drop (Suc ?h) ?b" by simp
  have dropS: "drop ?h ?b = ?b ! ?h # drop (Suc ?h) ?b" using h(1) by (rule Cons_nth_drop_Suc [symmetric])
  show ?thesis
  proof (cases "Suc ?h = j_size j")
    case True
    then have "?b[?h := c] = take ?h ?b @ [c]" using take h by simp
    moreover have "drop (Suc ?h) ?b = []" using True h by simp
    ultimately show ?thesis using True h dropS
      by (simp add: ring_text_def put_byte_def Let_def last_n_def)
  next
    case False
    then show ?thesis using h take drop dropS
      by (simp add: ring_text_def put_byte_def Let_def last_n_def)
  qed
qed

lemma put_byte_wrapped:
  assumes "j_inv j"
  shows "j_wrapped (put_byte j c) \<longleftrightarrow> length (ring_text j @ [c]) \<ge> j_size j"
  using assms length_ring_text [OF assms] by (auto simp: put_byte_def Let_def j_inv_def)

text \<open>Writing a text: the ring holds the end of everything, the counter counts its newlines.\<close>

lemma write_ring:
  assumes "j_inv j" and "j_wrapped j \<longleftrightarrow> length t \<ge> j_size j" and "ring_text j = last_n (j_size j) t"
    and "j' = ag_journal_write j bs"
  shows "j_inv j' \<and> j_size j' = j_size j \<and>
    (j_wrapped j' \<longleftrightarrow> length (t @ strip (j_esc j) bs) \<ge> j_size j) \<and>
    ring_text j' = last_n (j_size j) (t @ strip (j_esc j) bs) \<and>
    j_lines_written j' = j_lines_written j + word_of_nat (count_list (strip (j_esc j) bs) CHR 0x0A)"
  using assms unfolding ag_journal_write_def
proof (induction bs arbitrary: j t)
  case (Cons c bs)
  let ?put = "j_esc j = ESC_GROUND \<and> c \<noteq> CHR 0x1B \<and> c \<noteq> CHR 0x0D \<and>
     \<not> ((of_char c :: nat) < 32 \<and> c \<noteq> CHR 0x0A \<and> c \<noteq> CHR 0x09)"
  show ?case
  proof (cases ?put)
    case True
    then have w: "write_byte j c = put_byte j c" by (auto simp: write_byte_def)
    have st: "strip (j_esc j) (c # bs) = c # strip ESC_GROUND bs" using True by auto
    have ring: "ring_text (put_byte j c) = last_n (j_size j) (t @ [c])"
      using put_byte_ring [OF Cons.prems(1)] Cons.prems(3) by (simp add: last_n_append_last)
    have "length (ring_text j) \<ge> j_size j - 1 \<longleftrightarrow> length t \<ge> j_size j - 1"
      using Cons.prems(3) by (auto simp: last_n_def)
    then have wrap: "j_wrapped (put_byte j c) \<longleftrightarrow> length (t @ [c]) \<ge> j_size j"
      using put_byte_wrapped [OF Cons.prems(1), of c] by auto
    have lw: "j_lines_written (put_byte j c) = j_lines_written j + word_of_nat (count_list [c] CHR 0x0A)"
      by (simp add: put_byte_def Let_def)
    from Cons.IH [of "put_byte j c" "t @ [c]"] put_byte_inv [OF Cons.prems(1), of c] wrap ring Cons.prems(4) w True lw
    show ?thesis unfolding st by (simp add: algebra_simps)
  next
    case False
    define e where "e = (case j_esc j of ESC_SEEN \<Rightarrow> (if c = CHR ''['' then ESC_CSI else ESC_GROUND)
       | ESC_CSI \<Rightarrow> (if char_in CHR 0x40 CHR 0x7E c then ESC_GROUND else ESC_CSI)
       | ESC_GROUND \<Rightarrow> (if c = CHR 0x1B then ESC_SEEN else ESC_GROUND))"
    have w: "write_byte j c = j\<lparr>j_esc := e\<rparr>"
      using False by (cases "j_esc j"; cases j) (auto simp: write_byte_def e_def)
    have st: "strip (j_esc j) (c # bs) = strip e bs"
      using False by (cases "j_esc j") (auto simp: e_def)
    from Cons.IH [of "j\<lparr>j_esc := e\<rparr>" t] Cons.prems w show ?thesis unfolding st by simp
  qed
qed simp

subsection \<open>Reading\<close>

text \<open>The bytes a reader gets from a position on.\<close>

fun ring_read :: "ag_journal \<Rightarrow> nat \<Rightarrow> nat \<Rightarrow> string" where
  "ring_read j pos 0 = []"
| "ring_read j pos (Suc n) = j_buf j ! pos # ring_read j (next_pos j pos) n"

lemma length_ring_read [simp]: "length (ring_read j pos n) = n"
  by (induction n arbitrary: pos) simp_all

lemma ring_read_straight:
  "length (j_buf j) = j_size j \<Longrightarrow> pos + n < j_size j \<Longrightarrow> ring_read j pos n = take n (drop pos (j_buf j))"
proof (induction n arbitrary: pos)
  case (Suc n)
  have "drop pos (j_buf j) = j_buf j ! pos # drop (Suc pos) (j_buf j)"
    using Suc.prems by (intro Cons_nth_drop_Suc [symmetric]) simp
  with Suc show ?case by (simp add: next_pos_def)
qed simp

lemma ring_read_round:
  "length (j_buf j) = j_size j \<Longrightarrow> pos < j_size j \<Longrightarrow> k < j_size j \<Longrightarrow>
   ring_read j pos (j_size j - pos + k) = drop pos (j_buf j) @ take k (j_buf j)"
proof (induction "j_size j - pos" arbitrary: pos)
  case (Suc d)
  have dr: "drop pos (j_buf j) = j_buf j ! pos # drop (Suc pos) (j_buf j)"
    using Suc.prems by (intro Cons_nth_drop_Suc [symmetric]) simp
  have n: "j_size j - pos + k = Suc (j_size j - Suc pos + k)" using Suc.prems by simp
  show ?case
  proof (cases "Suc pos = j_size j")
    case True
    then show ?thesis using Suc.prems dr ring_read_straight [of j 0 k] by (simp add: n next_pos_def)
  next
    case False
    then show ?thesis using Suc dr by (simp add: n next_pos_def)
  qed
qed simp

lemma copy_line_read:
  "copy_line j n pos left out = ((p, l), o') \<Longrightarrow>
   (let s = ring_read j pos left in
    o' = out @ take (n - 1 - length out) (takeWhile is_text s) \<and> ring_read j p l = tl (dropWhile is_text s))"
proof (induction left arbitrary: pos out)
  case (Suc left)
  show ?case
  proof (cases "j_buf j ! pos = CHR 0x0A")
    case True
    then show ?thesis using Suc.prems by (auto simp: Let_def is_text_def)
  next
    case False
    let ?out = "if length out + 1 < n then out @ [j_buf j ! pos] else out"
    have "copy_line j n (next_pos j pos) left ?out = ((p, l), o')" using Suc.prems False by (simp add: Let_def)
    note IH = Suc.IH [OF this]
    show ?thesis
    proof (cases "length out + 1 < n")
      case True
      then obtain m where "n - 1 - length out = Suc m" "n - 1 - Suc (length out) = m"
        by (auto simp: less_iff_Suc_add)
      with IH False True show ?thesis by (simp add: Let_def is_text_def)
    next
      case short: False
      then have "n - 1 - length out = 0" by simp
      with IH False short show ?thesis by (simp add: Let_def is_text_def)
    qed
  qed
qed simp

lemma read_lines_text: "read_lines j (Suc k) it = map (take k) (text_lines (ring_read j (it_pos it) (it_left it)))"
proof (induction "it_left it" arbitrary: it rule: less_induct)
  case less
  let ?s = "ring_read j (it_pos it) (it_left it)"
  show ?case
  proof (cases "it_left it = 0")
    case True
    then show ?thesis by (simp add: read_lines.simps ag_journal_next_def text_lines.simps)
  next
    case False
    obtain p l o' where c: "copy_line j (Suc k) (it_pos it) (it_left it) [] = ((p, l), o')"
      by (cases "copy_line j (Suc k) (it_pos it) (it_left it) []") auto
    have s: "?s \<noteq> []" using False by (metis length_ring_read list.size(3))
    from copy_line_read [OF c] have o: "o' = take k (takeWhile is_text ?s)" "ring_read j p l = tl (dropWhile is_text ?s)"
      by (simp_all add: Let_def)
    have "l < it_left it" using copy_line_left [OF c] False by simp
    with less [of "\<lparr>it_pos = p, it_left = l\<rparr>"] o
    have rest: "read_lines j (Suc k) \<lparr>it_pos = p, it_left = l\<rparr> = map (take k) (text_lines (tl (dropWhile is_text ?s)))"
      by simp
    show ?thesis using False c o(1) rest s
      by (subst read_lines.simps, subst text_lines.simps) (simp add: ag_journal_next_def)
  qed
qed

lemma skip_line_read:
  "skip_line j pos left = (p, l) \<Longrightarrow> ring_read j p l = tl (dropWhile is_text (ring_read j pos left))"
  by (induction left arbitrary: pos) (auto simp: is_text_def split: if_splits)

lemma begin_read:
  assumes "j_inv j"
  shows "ring_read j (it_pos (ag_journal_begin j)) (it_left (ag_journal_begin j)) =
    (if j_wrapped j then tl (dropWhile is_text (ring_text j)) else ring_text j)"
proof (cases "j_wrapped j")
  case True
  obtain p l where sk: "skip_line j (j_head j) (j_size j) = (p, l)" by fastforce
  have "ring_read j (j_head j) (j_size j) = ring_text j"
    using ring_read_round [of j "j_head j" "j_head j"] assms True by (simp add: j_inv_def ring_text_def)
  with skip_line_read [OF sk] True sk show ?thesis by (simp add: ag_journal_begin_def)
next
  case False
  then show ?thesis using ring_read_straight [of j 0 "j_head j"] assms
    by (simp add: ag_journal_begin_def ring_text_def j_inv_def)
qed

subsection \<open>Counting lines\<close>

lemma text_lines_count:
  "length (text_lines s) = count_list s CHR 0x0A + (if s \<noteq> [] \<and> last s \<noteq> CHR 0x0A then 1 else 0)"
proof (induction s rule: text_lines.induct)
  case (1 s)
  show ?case
  proof (cases "s = []")
    case False
    let ?a = "takeWhile is_text s" and ?b = "dropWhile is_text s"
    have no: "count_list ?a CHR 0x0A = 0"
      by (auto simp: count_list_0_iff is_text_def dest: set_takeWhileD)
    have len: "length (text_lines s) = Suc (length (text_lines (tl ?b)))" using False by (subst text_lines.simps) simp
    show ?thesis
    proof (cases ?b)
      case Nil
      then have "?a = s" by (metis append_Nil2 takeWhile_dropWhile_id)
      with no have "count_list s CHR 0x0A = 0" by simp
      moreover from this False have "last s \<noteq> CHR 0x0A" by (metis count_list_0_iff last_in_set)
      moreover have "text_lines (tl ?b) = []" by (simp only: Nil list.sel text_lines_Nil)
      ultimately show ?thesis using len False by simp
    next
      case (Cons x ys)
      then have x: "x = CHR 0x0A" using hd_dropWhile [of is_text s] by (auto simp: is_text_def)
      have s: "s = ?a @ x # ys" using Cons by (metis takeWhile_dropWhile_id)
      then have "count_list s CHR 0x0A = Suc (count_list ys CHR 0x0A)"
        using no x by (metis add_0 count_list.simps(2) count_list_append add.commute plus_1_eq_Suc)
      moreover have "last s = (if ys = [] then CHR 0x0A else last ys)" using s x by (metis last.simps last_append list.distinct(1))
      ultimately show ?thesis using 1 [OF False] len Cons False by simp
    qed
  qed (simp add: text_lines.simps)
qed

subsection \<open>From a fresh journal\<close>

lemma writes_concat: "foldl ag_journal_write j ws = ag_journal_write j (concat ws)"
  by (induction ws arbitrary: j) (simp_all add: ag_journal_write_def)

lemma fresh_journal:
  assumes "ag_journal_init (Some j0) (Some st) n = (Inr (), Some j)" and "length st = n"
    and "j' = foldl ag_journal_write j ws" and "t = strip ESC_GROUND (concat ws)"
  shows "j_inv j'" and "j_size j' = n" and "200 \<le> n" and "j_wrapped j' \<longleftrightarrow> length t \<ge> n" and "ring_text j' = last_n n t"
    and "j_lines_written j' = word_of_nat (count_list t CHR 0x0A)"
proof -
  have j: "j = \<lparr>j_buf = st, j_size = n, j_head = 0, j_wrapped = False, j_lines_written = 0,
     j_lines_dropped = 0, j_bytes_written = 0, j_esc = ESC_GROUND\<rparr>" and n: "200 \<le> n"
    using assms(1) by (auto simp: ag_journal_init_def AG_JOURNAL_LINE_MAX_def split: if_splits)
  have "j_inv j" "j_wrapped j \<longleftrightarrow> length [] \<ge> j_size j" "ring_text j = last_n (j_size j) []"
    using n assms(2) by (auto simp: j j_inv_def ring_text_def last_n_def)
  from write_ring [OF this assms(3) [unfolded writes_concat]] n
  show "j_inv j'" "j_size j' = n" "200 \<le> n" "j_wrapped j' \<longleftrightarrow> length t \<ge> n" "ring_text j' = last_n n t"
    "j_lines_written j' = word_of_nat (count_list t CHR 0x0A)"
    by (simp_all add: j assms(4))
qed

lemma fresh_readable:
  assumes "ag_journal_init (Some j0) (Some st) n = (Inr (), Some j)" and "length st = n"
    and "j' = foldl ag_journal_write j ws" and "t = strip ESC_GROUND (concat ws)"
  shows "ring_read j' (it_pos (ag_journal_begin j')) (it_left (ag_journal_begin j')) = readable n t"
  using begin_read [OF fresh_journal(1) [OF assms]] fresh_journal(4,5) [OF assms]
  by (auto simp: readable_def last_n_short)

lemma count_readable_le: "count_list (readable n t) x \<le> count_list t x"
proof -
  have tl: "count_list (tl s) x \<le> count_list s x" for s by (cases s) simp_all
  have dr: "count_list (drop k s) x \<le> count_list s x" for k s
    using count_list_append [of "take k s" "drop k s" x] by simp
  have "count_list (dropWhile is_text s) x \<le> count_list s x" for s by (simp add: dropWhile_eq_drop dr)
  then have "count_list (tl (dropWhile is_text (last_n n t))) x \<le> count_list t x"
    unfolding last_n_def using tl dr order_trans by meson
  then show ?thesis by (simp add: readable_def)
qed

section \<open>Properties\<close>

text \<open>
  C8. Reading the journal gives back its lines. From a fresh journal on storage of \<open>n\<close> bytes, after any
  writes, cut anywhere, a reader that loops on \<open>ag_journal_next\<close> with a buffer of \<open>k + 1\<close> bytes gets
  exactly the lines of the stripped text, each cut to \<open>k\<close> characters: all of them while the text is
  shorter than the ring, and from the first line boundary in its last \<open>n\<close> characters once it is not.
\<close>

theorem journal_reads_back:
  assumes "ag_journal_init (Some j0) (Some st) n = (Inr (), Some j)" and "length st = n"
    and "j' = foldl ag_journal_write j ws" and "t = strip ESC_GROUND (concat ws)"
  shows "ring_text j' = last_n n t \<and>
    read_lines j' (Suc k) (ag_journal_begin j') = map (take k) (text_lines (readable n t))"
  using fresh_journal(5) [OF assms] fresh_readable [OF assms] by (simp add: read_lines_text)

theorem journal_reads_back_witness:
  "\<exists>j. ag_journal_init (Some undefined) (Some (replicate 200 CHR 0x00)) 200 = (Inr (), Some j) \<and>
     read_lines (foldl ag_journal_write j [''ab'', ''c'' @ [CHR 0x0A] @ ''d'']) 8
       (ag_journal_begin (foldl ag_journal_write j [''ab'', ''c'' @ [CHR 0x0A] @ ''d''])) = [''abc'', ''d'']"
proof -
  obtain j where j: "ag_journal_init (Some undefined) (Some (replicate 200 CHR 0x00)) 200 = (Inr (), Some j)"
    by (simp add: ag_journal_init_def AG_JOURNAL_LINE_MAX_def)
  have "map (take 7) (text_lines (readable 200 (strip ESC_GROUND (concat [''ab'', ''c'' @ [CHR 0x0A] @ ''d''])))) = [''abc'', ''d'']"
    by (simp add: readable_def text_lines.simps is_text_def)
  with journal_reads_back [OF j _ refl refl, of "[''ab'', ''c'' @ [CHR 0x0A] @ ''d'']" 7] j show ?thesis
    by (auto simp: numeral_eq_Suc)
qed

text \<open>
  What \<open>ag_journal_lost\<close> counts. After fewer than \<open>2 ^ 32\<close> newlines it is the number of finished
  lines that can no longer be read, less one when the last line read is still being written: that
  line is counted among those held although its newline is not among those written.
\<close>

theorem journal_lost_value:
  assumes "ag_journal_init (Some j0) (Some st) n = (Inr (), Some j)" and "length st = n"
    and "j' = foldl ag_journal_write j ws" and "t = strip ESC_GROUND (concat ws)"
    and "count_list t CHR 0x0A < 2 ^ 32 - 1"
  shows "unat (ag_journal_lost j') =
    count_list t CHR 0x0A - count_list (readable n t) CHR 0x0A -
      (if readable n t \<noteq> [] \<and> last (readable n t) \<noteq> CHR 0x0A then 1 else 0)"
proof -
  let ?r = "readable n t"
  have le: "count_list ?r CHR 0x0A \<le> count_list t CHR 0x0A" by (rule count_readable_le)
  have "ag_journal_count j' = word_of_nat (length (text_lines ?r))"
    using fresh_readable [OF assms(1-4)] read_lines_text [of j' 199] by (simp add: ag_journal_count_def AG_JOURNAL_LINE_MAX_def)
  moreover have "length (text_lines ?r) \<le> count_list t CHR 0x0A + 1" using text_lines_count [of ?r] le by simp
  ultimately have c: "unat (ag_journal_count j') = length (text_lines ?r)" using assms(5) by (simp add: unat_of_nat)
  have w: "unat (j_lines_written j') = count_list t CHR 0x0A"
    using fresh_journal(6) [OF assms(1-4)] assms(5) by (simp add: unat_of_nat)
  have "unat (ag_journal_lost j') = unat (j_lines_written j') - unat (ag_journal_count j')"
    by (auto simp: ag_journal_lost_def Let_def word_less_nat_alt unat_sub_no_wrap word_le_nat_alt)
  with c w text_lines_count [of ?r] show ?thesis by simp
qed

theorem journal_lost_value_witness:
  "\<exists>j. ag_journal_init (Some undefined) (Some (replicate 200 CHR 0x00)) 200 = (Inr (), Some j) \<and>
     unat (ag_journal_lost (foldl ag_journal_write j [''x'' @ [CHR 0x0A], ''y''])) = 0"
proof -
  obtain j where j: "ag_journal_init (Some undefined) (Some (replicate 200 CHR 0x00)) 200 = (Inr (), Some j)"
    by (simp add: ag_journal_init_def AG_JOURNAL_LINE_MAX_def)
  have "unat (ag_journal_lost (foldl ag_journal_write j [''x'' @ [CHR 0x0A], ''y''])) = 0"
    by (subst journal_lost_value [OF j _ refl refl]) (simp_all add: readable_def)
  with j show ?thesis by blast
qed

end
