(* ===== verification/RdCodec.thy ===== *)
theory RdCodec
  imports Prelude
begin

text \<open>
  \<open>net/rdcodec.c\<close>: how a stretch of pixels is packed for a neighbour's screen. Three packings: sixteen-bit
  pixels, indices into a palette, and indices with copies of what went before. The first two are one
  algorithm at two widths and are one loop here, given how a value is put into bytes and how many bytes
  that is; the C has the loop twice.

  An output buffer is the list of the bytes written so far, so \<open>at\<close> is its length. Counts are natural
  numbers: buffers are well below \<open>2 ^ 30\<close> bytes and pixels (a rectangle has at most \<open>RDC_Z_WIN\<close> of
  them), so none of the sums of the code can wrap.
\<close>

section \<open>Definitions\<close>

definition RDC_LIT_MAX :: nat where "RDC_LIT_MAX = 128"
definition RDC_RUN_MIN :: nat where "RDC_RUN_MIN = 3"
definition RDC_RUN_MAX :: nat where "RDC_RUN_MAX = 130"
definition RDC_Z_RUN_MAX :: nat where "RDC_Z_RUN_MAX = 66"
definition RDC_Z_COPY_MAX :: nat where "RDC_Z_COPY_MAX = 66"
definition RDC_Z_DEPTH :: nat where "RDC_Z_DEPTH = 2"
definition RDC_Z_WIN :: nat where "RDC_Z_WIN = 4096"
definition RDC_Z_HASH :: nat where "RDC_Z_HASH = 1024"

definition RDC_PACK_MAX :: "nat \<Rightarrow> nat" where "RDC_PACK_MAX n = 2 * n + (n + 127) div 128"
definition RDC_PACK8_MAX :: "nat \<Rightarrow> nat" where "RDC_PACK8_MAX n = n + (n + 127) div 128"

definition put_px :: "u16 \<Rightarrow> u8 list" where
  "put_px v = [ucast v, ucast (drop_bit 8 v)]"

definition get_px :: "u8 list \<Rightarrow> u16" where
  "get_px p = ucast (p ! 0) OR push_bit 8 (ucast (p ! 1))"

definition put_ix :: "u8 \<Rightarrow> u8 list" where
  "put_ix v = [v]"

definition get_ix :: "(u8 \<Rightarrow> u16) \<Rightarrow> u8 list \<Rightarrow> u16" where
  "get_ix pal p = pal (p ! 0)"

subsection \<open>Runs and literals\<close>

function run_at :: "'v list \<Rightarrow> nat \<Rightarrow> nat \<Rightarrow> nat \<Rightarrow> nat \<Rightarrow> nat" where
  "run_at px i n lim run =
     (if i + run < n \<and> run < lim \<and> px ! (i + run) = px ! i then run_at px i n lim (Suc run) else run)"
  by auto
termination
  by (relation "measure (\<lambda>(_, _, _, lim, run). lim - run)") auto

declare run_at.simps [simp del]

function lits_at :: "'v list \<Rightarrow> nat \<Rightarrow> nat \<Rightarrow> nat \<Rightarrow> nat" where
  "lits_at px i n lit =
     (if i + lit < n \<and> lit < RDC_LIT_MAX \<and>
         \<not> (i + lit + 2 < n \<and> px ! (i + lit) = px ! (i + lit + 1) \<and> px ! (i + lit) = px ! (i + lit + 2))
      then lits_at px i n (Suc lit) else lit)"
  by auto
termination
  by (relation "measure (\<lambda>(_, _, _, lit). RDC_LIT_MAX - lit)") auto

declare lits_at.simps [simp del]

lemma run_at_step:
  "run_at px i n lim run =
     (if i + run < n \<and> run < lim \<and> px ! (i + run) = px ! i then run_at px i n lim (run + 1) else run)"
  by (subst run_at.simps) simp

lemma run_at_ge: "run \<le> run_at px i n lim run"
proof (induction px i n lim run rule: run_at.induct)
  case (1 px i n lim run)
  then show ?case by (subst run_at.simps) (auto dest: Suc_leD)
qed

lemma run_at_le: "i + run \<le> n \<Longrightarrow> run \<le> lim \<Longrightarrow> i + run_at px i n lim run \<le> n \<and> run_at px i n lim run \<le> lim"
proof (induction px i n lim run rule: run_at.induct)
  case (1 px i n lim run)
  then show ?case by (subst (1 2) run_at.simps) auto
qed

lemma run_at_same: "run \<le> k \<Longrightarrow> k < run_at px i n lim run \<Longrightarrow> px ! (i + k) = px ! i"
proof (induction px i n lim run rule: run_at.induct)
  case (1 px i n lim run)
  show ?case
  proof (cases "i + run < n \<and> run < lim \<and> px ! (i + run) = px ! i")
    case True
    then have "run_at px i n lim run = run_at px i n lim (Suc run)" by (subst run_at.simps) simp
    then show ?thesis using 1(1) [OF True] 1(2,3) True by (cases "k = run") auto
  next
    case False
    then have "run_at px i n lim run = run" by (subst run_at.simps) auto
    then show ?thesis using 1(2,3) by simp
  qed
qed

lemma run_at_three:
  assumes "i + 2 < n" and "px ! i = px ! (i + 1)" and "px ! i = px ! (i + 2)" and "3 \<le> lim"
  shows "3 \<le> run_at px i n lim 1"
proof -
  have "run_at px i n lim 1 = run_at px i n lim 2" using assms run_at_step [of px i n lim 1] by (simp add: numeral_2_eq_2)
  moreover have "run_at px i n lim 2 = run_at px i n lim 3" using assms run_at_step [of px i n lim 2] by simp
  ultimately show ?thesis using run_at_ge [of 3 px i n lim] by simp
qed

lemma lits_at_ge: "lit \<le> lits_at px i n lit"
proof (induction px i n lit rule: lits_at.induct)
  case (1 px i n lit)
  show ?case
  proof (subst lits_at.simps, split if_split, intro conjI impI)
    assume "i + lit < n \<and> lit < RDC_LIT_MAX \<and>
      \<not> (i + lit + 2 < n \<and> px ! (i + lit) = px ! (i + lit + 1) \<and> px ! (i + lit) = px ! (i + lit + 2))"
    then show "lit \<le> lits_at px i n (Suc lit)" using 1 by (auto dest: Suc_leD)
  qed simp
qed

lemma lits_at_le: "i + lit \<le> n \<Longrightarrow> lit \<le> RDC_LIT_MAX \<Longrightarrow> i + lits_at px i n lit \<le> n \<and> lits_at px i n lit \<le> RDC_LIT_MAX"
proof (induction px i n lit rule: lits_at.induct)
  case (1 px i n lit)
  show ?case by (subst (1 2) lits_at.simps) (use 1 in auto)
qed

text \<open>Where the literals end: at the end, at the most a group holds, or before a run of three.\<close>

lemma lits_at_stop:
  "lit \<le> RDC_LIT_MAX \<Longrightarrow> i + lit \<le> n \<Longrightarrow>
   (let m = lits_at px i n lit in
    i + m = n \<or> m = RDC_LIT_MAX \<or>
    (i + m + 2 < n \<and> px ! (i + m) = px ! (i + m + 1) \<and> px ! (i + m) = px ! (i + m + 2)))"
proof (induction px i n lit rule: lits_at.induct)
  case (1 px i n lit)
  show ?case
  proof (cases "i + lit < n \<and> lit < RDC_LIT_MAX \<and>
         \<not> (i + lit + 2 < n \<and> px ! (i + lit) = px ! (i + lit + 1) \<and> px ! (i + lit) = px ! (i + lit + 2))")
    case True
    have eq: "lits_at px i n lit = lits_at px i n (Suc lit)" using True by (subst lits_at.simps) simp
    show ?thesis unfolding eq by (rule 1(1) [OF True]) (use True in auto)
  next
    case False
    then have "lits_at px i n lit = lit" by (subst lits_at.simps) auto
    then show ?thesis unfolding Let_def using False 1(2,3) by auto
  qed
qed

lemma lits_at_pos:
  assumes "i < n" and "run_at px i n RDC_RUN_MAX 1 < RDC_RUN_MIN"
  shows "0 < lits_at px i n 0"
proof -
  have "\<not> (i + 2 < n \<and> px ! i = px ! (i + 1) \<and> px ! i = px ! (i + 2))"
    using assms(2) run_at_three [of i n px RDC_RUN_MAX] by (auto simp: RDC_RUN_MAX_def RDC_RUN_MIN_def)
  then have "lits_at px i n 0 = lits_at px i n 1"
    using assms(1) by (subst lits_at.simps) (simp add: RDC_LIT_MAX_def)
  then show ?thesis using lits_at_ge [of 1 px i n] by simp
qed

lemma lits_at_less:
  "i < n \<Longrightarrow> \<not> RDC_RUN_MIN \<le> run_at px i n RDC_RUN_MAX 1 \<Longrightarrow> n - (i + lits_at px i n 0) < n - i"
  using lits_at_pos [of i n px] by simp

subsection \<open>Packing and unpacking\<close>

text \<open>
  The loop of \<open>pack\<close> (\<open>w = 2\<close>) and of \<open>rdc_pack8_some\<close> (\<open>w = 1\<close>): the bytes written and how many of
  the pixels they are.
\<close>

function pack_loop :: "('v \<Rightarrow> u8 list) \<Rightarrow> nat \<Rightarrow> 'v list \<Rightarrow> nat \<Rightarrow> nat \<Rightarrow> u8 list \<Rightarrow> u8 list \<times> nat" where
  "pack_loop put w px cap i out =
     (if \<not> i < length px then (out, i)
      else
        let run = run_at px i (length px) RDC_RUN_MAX 1 in
        if RDC_RUN_MIN \<le> run then
          if length out + 1 + w > cap then (out, i)
          else pack_loop put w px cap (i + run) (out @ word_of_nat (run + 125) # put (px ! i))
        else
          let lit = lits_at px i (length px) 0 in
          if length out + 1 + w * lit > cap then
            let lit2 = (if length out + 1 + w \<le> cap then (cap - length out - 1) div w else 0) in
            if lit2 = 0 then (out, i)
            else pack_loop put w px cap (i + lit2) (out @ word_of_nat (lit2 - 1) # concat (map put (take lit2 (drop i px))))
          else pack_loop put w px cap (i + lit) (out @ word_of_nat (lit - 1) # concat (map put (take lit (drop i px)))))"
  by pat_completeness auto
termination
  by (relation "measure (\<lambda>(_, _, px, _, i, _). length px - i)") (use lits_at_less in \<open>auto simp: RDC_RUN_MIN_def\<close>)

declare pack_loop.simps [simp del]

definition pack :: "u16 list \<Rightarrow> nat \<Rightarrow> u8 list \<times> nat" where
  "pack px cap = pack_loop put_px 2 px cap 0 []"

text \<open>The value returned and what the buffer then holds.\<close>

definition rdc_pack :: "u16 list \<Rightarrow> nat \<Rightarrow> nat \<times> u8 list" where
  "rdc_pack px cap = (let (out, taken) = pack px cap in (if taken = length px then length out else 0, out))"

definition rdc_pack_some :: "u16 list \<Rightarrow> nat \<Rightarrow> u8 list \<times> nat" where
  "rdc_pack_some px cap = pack px cap"

definition rdc_pack8_some :: "u8 list \<Rightarrow> nat \<Rightarrow> u8 list \<times> nat" where
  "rdc_pack8_some ix cap = pack_loop put_ix 1 ix cap 0 []"

text \<open>
  The loop of \<open>rdc_unpack\<close> and \<open>rdc_unpack8\<close>: the bytes read, 0 for an error, and the pixels written.
\<close>

function unpack_loop :: "(u8 list \<Rightarrow> 'p) \<Rightarrow> nat \<Rightarrow> u8 list \<Rightarrow> nat \<Rightarrow> nat \<Rightarrow> 'p list \<Rightarrow> nat \<times> 'p list" where
  "unpack_loop get w inp n at px =
     (if \<not> length px < n then (at, px)
      else if at \<ge> length inp then (0, px)
      else
        let c = unat (inp ! at) in
        if c < 128 then
          let lit = c + 1 in
          if length px + lit > n \<or> at + 1 + w * lit > length inp then (0, px)
          else unpack_loop get w inp n (at + 1 + w * lit)
                 (px @ map (\<lambda>k. get (take w (drop (at + 1 + w * k) inp))) [0..<lit])
        else
          let run = c - 125 in
          if length px + run > n \<or> at + 1 + w > length inp then (0, px)
          else unpack_loop get w inp n (at + 1 + w) (px @ replicate run (get (take w (drop (at + 1) inp)))))"
  by pat_completeness auto
termination
  by (relation "measure (\<lambda>(_, _, _, n, _, px). n - length px)") auto

declare unpack_loop.simps [simp del]

definition rdc_unpack :: "u8 list \<Rightarrow> nat \<Rightarrow> nat \<times> u16 list" where
  "rdc_unpack inp n = unpack_loop get_px 2 inp n 0 []"

definition rdc_unpack8 :: "u8 list \<Rightarrow> (u8 \<Rightarrow> u16) \<Rightarrow> nat \<Rightarrow> nat \<times> u16 list" where
  "rdc_unpack8 inp pal n = unpack_loop (get_ix pal) 1 inp n 0 []"

subsection \<open>Copies\<close>

record rdc_zstate =
  z_head :: "nat list"
  z_prev :: "nat list"
  z_known :: nat

definition rdc_z_reset :: "rdc_zstate \<Rightarrow> rdc_zstate" where
  "rdc_z_reset z = z\<lparr>z_head := replicate RDC_Z_HASH 0, z_known := 0\<rparr>"

definition z_hash :: "u8 list \<Rightarrow> nat \<Rightarrow> nat" where
  "z_hash ix p = unat ((push_bit 6 (ucast (ix ! p)) XOR push_bit 3 (ucast (ix ! (p + 1))) XOR ucast (ix ! (p + 2)) :: u32) AND 1023)"

function z_insert :: "rdc_zstate \<Rightarrow> u8 list \<Rightarrow> nat \<Rightarrow> nat \<Rightarrow> rdc_zstate" where
  "z_insert z ix lim fin =
     (if z_known z < lim \<and> z_known z + 2 < fin \<and> z_known z < RDC_Z_WIN then
        let h = z_hash ix (z_known z) in
        z_insert (z\<lparr>z_prev := (z_prev z)[z_known z := z_head z ! h],
                    z_head := (z_head z)[h := (z_known z + 1) mod 65536],
                    z_known := z_known z + 1\<rparr>) ix lim fin
      else z)"
  by auto
termination
  by (relation "measure (\<lambda>(z, _, lim, _). lim - z_known z)") auto

declare z_insert.simps [simp del]

text \<open>The literals from \<open>start\<close> on: what was written, and how many.\<close>

function z_lits :: "u8 list \<Rightarrow> nat \<Rightarrow> nat \<Rightarrow> nat \<Rightarrow> u8 list \<Rightarrow> nat \<Rightarrow> u8 list \<times> nat" where
  "z_lits ix start lit cap out k0 =
     (if k0 < lit \<and> length out + 2 \<le> cap then
        let k1 = (if lit - k0 > RDC_LIT_MAX then RDC_LIT_MAX else lit - k0);
            k = (if length out + 1 + k1 > cap then cap - length out - 1 else k1)
        in z_lits ix start lit cap (out @ word_of_nat (k - 1) # take k (drop (start + k0) ix)) (k0 + k)
      else (out, k0))"
  by auto
termination
  by (relation "measure (\<lambda>(_, _, lit, _, _, k0). lit - k0)") (auto simp: RDC_LIT_MAX_def)

declare z_lits.simps [simp del]

function match_at :: "u8 list \<Rightarrow> nat \<Rightarrow> nat \<Rightarrow> nat \<Rightarrow> nat \<Rightarrow> nat" where
  "match_at ix q i fin len =
     (if i + len < fin \<and> len < RDC_Z_COPY_MAX \<and> ix ! (q + len) = ix ! (i + len) then match_at ix q i fin (Suc len) else len)"
  by auto
termination
  by (relation "measure (\<lambda>(_, _, _, _, len). RDC_Z_COPY_MAX - len)") auto

declare match_at.simps [simp del]

text \<open>The candidates for a copy: the best length and how far back it is.\<close>

fun cands :: "nat list \<Rightarrow> u8 list \<Rightarrow> nat \<Rightarrow> nat \<Rightarrow> nat \<Rightarrow> nat \<Rightarrow> nat \<Rightarrow> nat \<Rightarrow> nat \<times> nat" where
  "cands prev ix i fin 0 cand best off = (best, off)"
| "cands prev ix i fin (Suc d) cand best off =
     (if cand = 0 then (best, off)
      else
        let q = cand - 1 in
        if q \<ge> i \<or> i - q \<ge> RDC_Z_WIN then (best, off)
        else
          let len = match_at ix q i fin 0 in
          if len > best then cands prev ix i fin d (prev ! q) len (i - q)
          else cands prev ix i fin d (prev ! q) best off)"

text \<open>What stands at \<open>i\<close>: the token's bytes and the pixels it is, none for a literal.\<close>

definition z_token :: "rdc_zstate \<Rightarrow> u8 list \<Rightarrow> nat \<Rightarrow> nat \<Rightarrow> rdc_zstate \<times> (u8 list \<times> nat) option" where
  "z_token z ix fin i =
     (let run = run_at ix i fin RDC_Z_RUN_MAX 1;
          z1 = (if i + 3 < fin then z_insert z ix i fin else z);
          (best, off) = (if i + 3 < fin then cands (z_prev z1) ix i fin RDC_Z_DEPTH (z_head z1 ! z_hash ix i) 0 0 else (0, 0))
      in (z1,
          if best \<ge> 4 \<and> best > run then
            Some ([0xC0 OR word_of_nat (best - 3), word_of_nat off, word_of_nat (off div 256)], best)
          else if run \<ge> 3 then Some ([0x80 OR word_of_nat (run - 3), ix ! i], run)
          else None))"

text \<open>A token's pixels are at least three, so the loop moves on.\<close>

lemma z_token_step: "z_token z ix fin i = (z1, Some (tok, step)) \<Longrightarrow> 3 \<le> step"
  by (auto simp: z_token_def Let_def split: if_splits prod.splits)

function pack8z_loop :: "rdc_zstate \<Rightarrow> u8 list \<Rightarrow> nat \<Rightarrow> nat \<Rightarrow> nat \<Rightarrow> nat \<Rightarrow> u8 list \<Rightarrow> rdc_zstate \<times> u8 list \<times> nat" where
  "pack8z_loop z ix fin cap i lit_at out =
     (if i < fin then
        (case z_token z ix fin i of
           (z1, None) \<Rightarrow> pack8z_loop z1 ix fin cap (i + 1) lit_at out
         | (z1, Some (tok, step)) \<Rightarrow>
             (case z_lits ix lit_at (i - lit_at) cap out 0 of
                (out1, put) \<Rightarrow>
                  if put < i - lit_at \<or> length out1 + length tok > cap then (z1, out1, lit_at + put)
                  else pack8z_loop z1 ix fin cap (i + step) (i + step) (out1 @ tok)))
      else (case z_lits ix lit_at (i - lit_at) cap out 0 of (out1, put) \<Rightarrow> (z, out1, lit_at + put)))"
  by pat_completeness auto
termination
  by (relation "measure (\<lambda>(_, _, fin, _, i, _, _). fin - i)") (auto dest!: sym [of _ "z_token _ _ _ _"] z_token_step)

declare pack8z_loop.simps [simp del]

definition rdc_pack8z_some :: "rdc_zstate \<Rightarrow> u8 list \<Rightarrow> nat \<Rightarrow> nat \<Rightarrow> nat \<Rightarrow> rdc_zstate \<times> u8 list \<times> nat" where
  "rdc_pack8z_some z ix start n cap =
     (case pack8z_loop (z_insert z ix start (start + n)) ix (start + n) cap start start [] of
        (z1, out, lit_at) \<Rightarrow> (z1, out, lit_at - start))"

text \<open>A copy, pixel after pixel, so that it may run into what it writes.\<close>

fun copy_back :: "nat \<Rightarrow> nat \<Rightarrow> 'p list \<Rightarrow> 'p list" where
  "copy_back off 0 px = px"
| "copy_back off (Suc k) px = copy_back off k (px @ [px ! (length px - off)])"

lemma length_copy_back [simp]: "length (copy_back off k px) = length px + k"
  by (induction off k px rule: copy_back.induct) simp_all

function unpack8z_loop :: "(u8 \<Rightarrow> 'p) \<Rightarrow> u8 list \<Rightarrow> nat \<Rightarrow> nat \<Rightarrow> 'p list \<Rightarrow> nat \<times> 'p list" where
  "unpack8z_loop pal inp n at px =
     (if \<not> length px < n then (at, px)
      else if at \<ge> length inp then (0, px)
      else
        let c = unat (inp ! at) in
        if c < 0x80 then
          let lit = c + 1 in
          if length px + lit > n \<or> at + 1 + lit > length inp then (0, px)
          else unpack8z_loop pal inp n (at + 1 + lit) (px @ map pal (take lit (drop (at + 1) inp)))
        else if c < 0xC0 then
          let run = c mod 64 + 3 in
          if length px + run > n \<or> at + 2 > length inp then (0, px)
          else unpack8z_loop pal inp n (at + 2) (px @ replicate run (pal (inp ! (at + 1))))
        else
          let cnt = c mod 64 + 3 in
          if length px + cnt > n \<or> at + 3 > length inp then (0, px)
          else
            let off = unat (inp ! (at + 1)) + unat (inp ! (at + 2)) * 256 in
            if off = 0 \<or> off > length px then (0, px)
            else unpack8z_loop pal inp n (at + 3) (copy_back off cnt px))"
  by pat_completeness auto
termination
  by (relation "measure (\<lambda>(_, _, n, _, px). n - length px)") auto

declare unpack8z_loop.simps [simp del]

definition rdc_unpack8z :: "u8 list \<Rightarrow> (u8 \<Rightarrow> u16) \<Rightarrow> nat \<Rightarrow> nat \<times> u16 list" where
  "rdc_unpack8z inp pal n = unpack8z_loop pal inp n 0 []"

section \<open>The format\<close>

text \<open>The bytes that stand for some values: groups of up to 128 literals and runs of 3 to 130.\<close>

inductive coded :: "('v \<Rightarrow> u8 list) \<Rightarrow> u8 list \<Rightarrow> 'v list \<Rightarrow> bool" for put where
  coded_end: "coded put [] []"
| coded_lits: "coded put bs vs \<Longrightarrow> ls \<noteq> [] \<Longrightarrow> length ls \<le> 128 \<Longrightarrow>
    coded put (word_of_nat (length ls - 1) # concat (map put ls) @ bs) (ls @ vs)"
| coded_run: "coded put bs vs \<Longrightarrow> 3 \<le> k \<Longrightarrow> k \<le> 130 \<Longrightarrow>
    coded put (word_of_nat (k + 125) # put v @ bs) (replicate k v @ vs)"

lemma run_replicate:
  assumes "i < length px" and "r = run_at px i (length px) lim 1" and "1 \<le> lim"
  shows "take r (drop i px) = replicate r (px ! i)" and "1 \<le> r" and "r \<le> lim" and "i + r \<le> length px"
proof -
  show r: "1 \<le> r" "r \<le> lim" "i + r \<le> length px"
    using assms run_at_ge [of 1 px i "length px" lim] run_at_le [of i 1 "length px" lim px] by simp_all
  show "take r (drop i px) = replicate r (px ! i)"
  proof (rule nth_equalityI)
    fix k assume "k < length (take r (drop i px))"
    then have "k < r" by simp
    moreover have "px ! (i + k) = px ! i" if "k < r" using that assms(2) by (cases "k = 0") (auto intro: run_at_same [of 1])
    ultimately show "take r (drop i px) ! k = replicate r (px ! i) ! k" using r(3) by simp
  qed (use r(3) in simp)
qed

lemma take_drop_add: "take (a + b) (drop i px) = take a (drop i px) @ take b (drop (i + a) px)"
  by (simp add: take_add add.commute)

text \<open>What the packer writes is the format, within the room it has.\<close>

definition packs :: "('v \<Rightarrow> u8 list) \<Rightarrow> 'v list \<Rightarrow> nat \<Rightarrow> nat \<Rightarrow> u8 list \<Rightarrow> u8 list \<times> nat \<Rightarrow> bool" where
  "packs put px cap i out r \<longleftrightarrow> (\<exists>bs j. r = (out @ bs, j) \<and> i \<le> j \<and> j \<le> length px \<and> length (out @ bs) \<le> cap \<and>
     coded put bs (take (j - i) (drop i px)))"

lemma packs_stop: "i \<le> length px \<Longrightarrow> length out \<le> cap \<Longrightarrow> packs put px cap i out (out, i)"
  by (simp add: packs_def coded_end)

lemma packs_add:
  assumes "packs put px cap (i + m) (out @ tok) r"
    and "\<And>bs vs. coded put bs vs \<Longrightarrow> coded put (tok @ bs) (take m (drop i px) @ vs)"
  shows "packs put px cap i out r"
proof -
  from assms(1) obtain bs j where b: "r = (out @ tok @ bs, j)" "i + m \<le> j" "j \<le> length px" "length (out @ tok @ bs) \<le> cap"
    "coded put bs (take (j - (i + m)) (drop (i + m) px))"
    by (auto simp: packs_def)
  have "take (j - i) (drop i px) = take m (drop i px) @ take (j - (i + m)) (drop (i + m) px)"
    using b(2) take_drop_add [of m "j - (i + m)" i px] by simp
  then have "coded put (tok @ bs) (take (j - i) (drop i px))" using assms(2) [OF b(5)] by simp
  then show ?thesis using b unfolding packs_def by (intro exI [of _ "tok @ bs"] exI [of _ j]) simp
qed

lemma packs_lits:
  assumes "packs put px cap (i + m) (out @ word_of_nat (m - 1) # concat (map put (take m (drop i px)))) r"
    and "0 < m" and "m \<le> 128" and "i + m \<le> length px"
  shows "packs put px cap i out r"
  using assms(1)
proof (rule packs_add)
  fix bs vs assume "coded put bs vs"
  then show "coded put ((word_of_nat (m - 1) # concat (map put (take m (drop i px)))) @ bs) (take m (drop i px) @ vs)"
    using coded_lits [of put bs vs "take m (drop i px)"] assms(2-4) by simp
qed

lemma packs_run:
  assumes "packs put px cap (i + r) (out @ word_of_nat (r + 125) # put (px ! i)) res"
    and "i < length px" and r: "r = run_at px i (length px) RDC_RUN_MAX 1" and "RDC_RUN_MIN \<le> r"
  shows "packs put px cap i out res"
  using assms(1)
proof (rule packs_add)
  note rr = run_replicate [OF assms(2) r]
  fix bs vs assume "coded put bs vs"
  then show "coded put ((word_of_nat (r + 125) # put (px ! i)) @ bs) (take r (drop i px) @ vs)"
    using coded_run [of put bs vs r "px ! i"] rr assms(4) by (simp add: RDC_RUN_MAX_def RDC_RUN_MIN_def)
qed

lemma length_put_all: "(\<And>v. length (put v) = w) \<Longrightarrow> length (concat (map put ls)) = w * length ls"
  by (induction ls) simp_all

lemma pack_loop_format:
  assumes w: "\<And>v. length (put v) = w" and "0 < w"
  shows "i \<le> length px \<Longrightarrow> length out \<le> cap \<Longrightarrow> packs put px cap i out (pack_loop put w px cap i out)"
proof (induction "length px - i" arbitrary: i out rule: less_induct)
  case less
  define run where "run = run_at px i (length px) RDC_RUN_MAX 1"
  define lit where "lit = lits_at px i (length px) 0"
  define lit2 where "lit2 = (if length out + 1 + w \<le> cap then (cap - length out - 1) div w else 0)"
  note eq = pack_loop.simps [of put w px cap i out, folded run_def lit_def lit2_def, unfolded Let_def, folded run_def lit_def lit2_def]
  show ?case
  proof (cases "i < length px")
    case False
    then show ?thesis using eq packs_stop [OF less.prems] by simp
  next
    case i: True
    note rr = run_replicate [OF i run_def]
    have lits: "packs put px cap i out (pack_loop put w px cap (i + m) (out @ word_of_nat (m - 1) # concat (map put (take m (drop i px)))))"
      if m: "0 < m" "m \<le> lit" "length out + 1 + w * m \<le> cap" for m
    proof -
      have l: "i + m \<le> length px" "m \<le> 128"
        using m(2) i lits_at_le [of i 0 "length px" px] unfolding lit_def by (auto simp: RDC_LIT_MAX_def)
      show ?thesis
        by (rule packs_lits [OF less.hyps]) (use i m l in \<open>simp_all add: length_put_all [OF w]\<close>)
    qed
    show ?thesis
    proof (cases "RDC_RUN_MIN \<le> run")
      case True
      show ?thesis
      proof (cases "length out + 1 + w > cap")
        case False
        have "packs put px cap i out (pack_loop put w px cap (i + run) (out @ word_of_nat (run + 125) # put (px ! i)))"
          by (rule packs_run [OF less.hyps i run_def True]) (use i True rr False in \<open>simp_all add: w RDC_RUN_MIN_def RDC_RUN_MAX_def\<close>)
        then show ?thesis using eq i True False by simp
      qed (use eq i True packs_stop [OF less.prems] in simp)
    next
      case False
      then have pos: "0 < lit" using lits_at_pos [OF i, of px] by (simp add: run_def lit_def not_le)
      have "lit2 \<le> lit \<and> length out + 1 + w * lit2 \<le> cap" if "length out + 1 + w * lit > cap" "0 < lit2"
      proof -
        have l: "length out + 1 + w \<le> cap" "lit2 = (cap - length out - 1) div w" using that(2) by (auto simp: lit2_def split: if_splits)
        have "w * lit2 \<le> cap - length out - 1" unfolding l(2) by (rule times_div_less_eq_dividend)
        moreover have "w * lit2 < w * lit" using calculation l(1) that(1) by linarith
        ultimately show ?thesis using l(1) by auto
      qed
      then show ?thesis using eq i False pos lits [of lit] lits [of lit2] packs_stop [OF less.prems] by auto
    qed
  qed
qed

section \<open>A code for pixels\<close>

text \<open>What unpacking relies on: a value is put into \<open>w\<close> bytes, and reading them looks the value up.\<close>

locale pixel_code =
  fixes put :: "'v \<Rightarrow> u8 list" and get :: "u8 list \<Rightarrow> 'p" and w :: nat and look :: "'v \<Rightarrow> 'p"
  assumes width: "length (put v) = w" and width_pos: "0 < w" and get_put: "get (put v) = look v"
begin

lemma put_nth: "k < length ls \<Longrightarrow> take w (drop (w * k) (concat (map put ls) @ bs)) = put (ls ! k)"
proof (induction ls arbitrary: k)
  case (Cons a ls)
  then show ?case by (cases k) (simp_all add: width)
qed simp

lemma lits_read:
  assumes "drop at inp = b # concat (map put ls) @ rest"
  shows "map (\<lambda>k. get (take w (drop (at + 1 + w * k) inp))) [0..<length ls] = map look ls"
proof (rule nth_equalityI)
  fix k assume "k < length (map (\<lambda>k. get (take w (drop (at + 1 + w * k) inp))) [0..<length ls])"
  then have k: "k < length ls" by simp
  have "drop (at + 1 + w * k) inp = drop (w * k) (drop 1 (drop at inp))" by (simp add: add.commute)
  then have "take w (drop (at + 1 + w * k) inp) = put (ls ! k)" using put_nth [OF k] unfolding assms by simp
  then show "map (\<lambda>k. get (take w (drop (at + 1 + w * k) inp))) [0..<length ls] ! k = map look ls ! k"
    using k by (simp add: get_put)
qed simp

lemma unpack_coded:
  "coded put bs vs \<Longrightarrow> drop at inp = bs @ rest \<Longrightarrow> length px + length vs \<le> n \<Longrightarrow>
   unpack_loop get w inp n at px = unpack_loop get w inp n (at + length bs) (px @ map look vs)"
proof (induction arbitrary: at px rule: coded.induct)
  case (coded_lits bs vs ls)
  have c: "unat (word_of_nat (length ls - 1) :: u8) = length ls - 1"
    using coded_lits.hyps(3) by (intro unat_of_nat_u8) simp
  have d: "drop at inp = word_of_nat (length ls - 1) # concat (map put ls) @ bs @ rest" using coded_lits.prems(1) by simp
  have nth: "inp ! at = word_of_nat (length ls - 1)" "at < length inp"
    using d by (metis nth_via_drop, metis drop_all list.distinct(1) not_le)
  have len: "length inp - at = 1 + w * length ls + length (bs @ rest)"
    using arg_cong [OF d, of length] by (simp add: length_put_all [OF width])
  have ne: "0 < length ls" using coded_lits.hyps(2) by simp
  have step: "unpack_loop get w inp n at px = unpack_loop get w inp n (at + 1 + w * length ls) (px @ map look ls)"
  proof -
    have g: "length px < n" "\<not> n < length px + length ls" "\<not> length inp < at + 1 + w * length ls" "length ls - 1 < 128"
      using ne len coded_lits.prems(2) [unfolded length_append] coded_lits.hyps(3) nth(2) by linarith+
    have one: "length ls - 1 + 1 = length ls" using ne by simp
    show ?thesis by (subst unpack_loop.simps) (simp only: Let_def nth(1) c one g lits_read [OF d] nth(2) [unfolded not_le [symmetric]] not_not if_False if_True simp_thms)
  qed
  have "drop (at + 1 + w * length ls) inp = drop (w * length ls) (drop 1 (drop at inp))" by (simp add: add.commute)
  then have d': "drop (at + 1 + w * length ls) inp = bs @ rest" unfolding d by (simp add: length_put_all [OF width])
  show ?case unfolding step
    using coded_lits.IH [OF d', of "px @ map look ls"] coded_lits.prems(2) by (simp add: length_put_all [OF width] add.assoc)
next
  case (coded_run bs vs k v)
  define b :: u8 where "b = word_of_nat (k + 125)"
  have c: "unat b = k + 125" unfolding b_def using coded_run.hyps(2,3) by (intro unat_of_nat_u8) simp
  have d: "drop at inp = b # put v @ bs @ rest" using coded_run.prems(1) unfolding b_def by simp
  have nth: "inp ! at = b" "at < length inp"
    using d by (metis nth_via_drop, metis drop_all list.distinct(1) not_le)
  have d1: "drop (at + 1) inp = put v @ bs @ rest" using arg_cong [OF d, of "drop 1"] by simp
  have "length inp - at = 1 + w + length (bs @ rest)"
    using arg_cong [OF d, of length] by (simp add: width)
  then have len: "at + 1 + w \<le> length inp" using nth(2) by linarith
  have g: "get (take w (drop (at + 1) inp)) = look v" unfolding d1 by (simp add: width get_put)
  have step: "unpack_loop get w inp n at px = unpack_loop get w inp n (at + 1 + w) (px @ replicate k (look v))"
    using nth c len coded_run.prems(2) coded_run.hyps(2,3) g by (subst unpack_loop.simps) (simp add: Let_def)
  have d': "drop (at + 1 + w) inp = bs @ rest" using arg_cong [OF d1, of "drop w"] by (simp add: width add.commute)
  show ?case unfolding step
    using coded_run.IH [OF d', of "px @ replicate k (look v)"] coded_run.prems(2) by (simp add: width add.assoc map_replicate)
qed simp

lemma pack_unpack:
  assumes "pack_loop put w px cap 0 [] = (out, taken)"
  shows "taken \<le> length px" and "length out \<le> cap"
    and "unpack_loop get w (out @ rest) taken 0 [] = (length out, map look (take taken px))"
proof -
  from pack_loop_format [of put w 0 px "[]" cap, OF width width_pos] assms have
    f: "taken \<le> length px" "length out \<le> cap" "coded put out (take taken px)" by (auto simp: packs_def)
  then show "taken \<le> length px" "length out \<le> cap" by simp_all
  have "unpack_loop get w (out @ rest) taken 0 [] = unpack_loop get w (out @ rest) taken (length out) (map look (take taken px))"
    using unpack_coded [OF f(3), of 0 "out @ rest" rest "[]" taken] f(1) by simp
  also have "\<dots> = (length out, map look (take taken px))" using f(1) by (subst unpack_loop.simps) simp
  finally show "unpack_loop get w (out @ rest) taken 0 [] = (length out, map look (take taken px))" .
qed

end


interpretation px16: pixel_code put_px get_px 2 "\<lambda>v. v"
proof
  fix v :: u16
  show "length (put_px v) = 2" by (simp add: put_px_def)
  show "(0 :: nat) < 2" by simp
  show "get_px (put_px v) = v"
    by (rule bit_word_eqI) (auto simp: get_px_def put_px_def bit_simps not_le)
qed

interpretation px8: pixel_code put_ix "get_ix pal" 1 pal for pal
  by unfold_locales (simp_all add: put_ix_def get_ix_def)

section \<open>Room\<close>

text \<open>
  What is left to write never outgrows the room left, when there was room for the worst case: a group of
  literals that is not full is followed by a run, and a run saves what the group's control byte cost.
\<close>

lemma pack_loop_fits:
  assumes w: "\<And>v. length (put v) = w" and wp: "0 < w"
  shows "i \<le> length px \<Longrightarrow>
    length out + w * (length px - i) + (length px - i + 127) div 128 \<le>
      cap + (if RDC_RUN_MIN \<le> run_at px i (length px) RDC_RUN_MAX 1 then 1 else 0) \<Longrightarrow>
    snd (pack_loop put w px cap i out) = length px"
proof (induction "length px - i" arbitrary: i out rule: less_induct)
  case less
  define n where "n = length px"
  define run where "run = run_at px i n RDC_RUN_MAX 1"
  define lit where "lit = lits_at px i n 0"
  note eq = pack_loop.simps [of put w px cap i out, unfolded Let_def, folded n_def, folded run_def lit_def]
  show ?case
  proof (cases "i < n")
    case False
    then show ?thesis using eq less.prems(1) by (simp add: n_def)
  next
    case i: True
    show ?thesis
    proof (cases "RDC_RUN_MIN \<le> run")
      case True
      note rr = run_replicate(2-4) [OF i [unfolded n_def] run_def [unfolded n_def]]
      have r3: "3 \<le> run" "i + run \<le> n" using True rr by (simp_all add: RDC_RUN_MIN_def RDC_RUN_MAX_def n_def)
      have split: "w * (n - i) = w * run + w * (n - (i + run))" using r3(2) by (simp add: add_mult_distrib2 [symmetric])
      have w3: "w * run \<ge> 3 * w" using r3(1) by simp
      have dv: "(n - (i + run) + 127) div 128 \<le> (n - i + 127) div 128" by (intro div_le_mono) simp
      have bound: "length out + w * (n - i) + (n - i + 127) div 128 \<le> cap + 1"
        using less.prems(2) True by (simp add: n_def run_def)
      have room: "\<not> length out + 1 + w > cap"
      proof -
        have "1 \<le> (n - i + 127) div 128" using i by (simp add: Suc_le_eq div_greater_zero_iff)
        then show ?thesis using bound split w3 wp by linarith
      qed
      have "snd (pack_loop put w px cap (i + run) (out @ word_of_nat (run + 125) # put (px ! i))) = length px"
      proof (rule less.hyps)
        show "length px - (i + run) < length px - i" "i + run \<le> length px" using r3 i by (simp_all add: n_def)
        have "length out + 1 + w + w * (n - (i + run)) + (n - (i + run) + 127) div 128 \<le> cap"
          using bound split w3 wp dv by linarith
        then show "length (out @ word_of_nat (run + 125) # put (px ! i)) + w * (length px - (i + run)) +
            (length px - (i + run) + 127) div 128
          \<le> cap + (if RDC_RUN_MIN \<le> run_at px (i + run) (length px) RDC_RUN_MAX 1 then 1 else 0)"
          by (simp add: w n_def)
      qed
      then show ?thesis using eq i True room by (simp add: n_def)
    next
      case False
      have bound: "length out + w * (n - i) + (n - i + 127) div 128 \<le> cap"
        using less.prems(2) False by (simp add: n_def run_def)
      have pos: "0 < lit" using lits_at_pos [OF i, of px] False by (simp add: run_def lit_def not_le)
      have l: "i + lit \<le> n" "lit \<le> 128" using lits_at_le [of i 0 n px] i unfolding lit_def by (simp_all add: RDC_LIT_MAX_def)
      have split: "w * (n - i) = w * lit + w * (n - (i + lit))" using l(1) by (simp add: add_mult_distrib2 [symmetric])
      have one: "1 \<le> (n - i + 127) div 128" using i by (simp add: Suc_le_eq div_greater_zero_iff)
      have room: "\<not> length out + 1 + w * lit > cap" using bound split one by linarith
      have "1 + (n - (i + lit) + 127) div 128 \<le> (n - i + 127) div 128 + (if RDC_RUN_MIN \<le> run_at px (i + lit) n RDC_RUN_MAX 1 then 1 else 0)"
      proof -
        consider "i + lit = n" | "lit = 128" | "i + lit + 2 < n" "px ! (i + lit) = px ! (i + lit + 1)" "px ! (i + lit) = px ! (i + lit + 2)"
          using lits_at_stop [of 0 i n px] i unfolding lit_def Let_def by (auto simp: RDC_LIT_MAX_def)
        then show ?thesis
        proof cases
          case 1
          then show ?thesis using one by simp
        next
          case 2
          then have "n - i = (n - (i + lit)) + 128" using l(1) by simp
          then have "n - i + 127 = (n - (i + lit) + 127) + 128" by simp
          then show ?thesis by (simp add: div_add_self2)
        next
          case 3
          have "RDC_RUN_MIN \<le> run_at px (i + lit) n RDC_RUN_MAX 1"
            unfolding RDC_RUN_MIN_def by (rule run_at_three) (use 3 in \<open>simp_all add: RDC_RUN_MAX_def\<close>)
          moreover have "(n - (i + lit) + 127) div 128 \<le> (n - i + 127) div 128" by (intro div_le_mono) simp
          ultimately show ?thesis by simp
        qed
      qed
      then have next_bound: "length out + 1 + w * lit + w * (n - (i + lit)) + (n - (i + lit) + 127) div 128
          \<le> cap + (if RDC_RUN_MIN \<le> run_at px (i + lit) n RDC_RUN_MAX 1 then 1 else 0)"
        using bound split by linarith
      have "snd (pack_loop put w px cap (i + lit) (out @ word_of_nat (lit - 1) # concat (map put (take lit (drop i px))))) = length px"
      proof (rule less.hyps)
        show "length px - (i + lit) < length px - i" "i + lit \<le> length px" using pos l i by (simp_all add: n_def)
        show "length (out @ word_of_nat (lit - 1) # concat (map put (take lit (drop i px)))) + w * (length px - (i + lit)) +
            (length px - (i + lit) + 127) div 128
          \<le> cap + (if RDC_RUN_MIN \<le> run_at px (i + lit) (length px) RDC_RUN_MAX 1 then 1 else 0)"
          using next_bound l(1) by (simp add: length_put_all [OF w] n_def)
      qed
      then show ?thesis using eq i False room by (simp add: n_def)
    qed
  qed
qed

section \<open>The format with copies\<close>

text \<open>What some bytes stand for after the history \<open>h\<close>.\<close>

inductive codedz :: "u8 list \<Rightarrow> u8 list \<Rightarrow> u8 list \<Rightarrow> bool" where
  z_end: "codedz h [] []"
| z_lit: "codedz (h @ ls) bs vs \<Longrightarrow> ls \<noteq> [] \<Longrightarrow> length ls \<le> 128 \<Longrightarrow>
    codedz h ((word_of_nat (length ls - 1) # ls) @ bs) (ls @ vs)"
| z_run: "codedz (h @ replicate k v) bs vs \<Longrightarrow> 3 \<le> k \<Longrightarrow> k \<le> 66 \<Longrightarrow>
    codedz h ([0x80 OR word_of_nat (k - 3), v] @ bs) (replicate k v @ vs)"
| z_copy: "codedz (copy_back off k h) bs vs \<Longrightarrow> 3 \<le> k \<Longrightarrow> k \<le> 66 \<Longrightarrow> 0 < off \<Longrightarrow> off \<le> length h \<Longrightarrow> off < 65536 \<Longrightarrow>
    codedz h ([0xC0 OR word_of_nat (k - 3), word_of_nat off, word_of_nat (off div 256)] @ bs)
      (drop (length h) (copy_back off k h) @ vs)"

lemma copy_back_Suc: "copy_back off (Suc k) px = copy_back off k px @ [copy_back off k px ! (length px + k - off)]"
  by (induction off k px rule: copy_back.induct) simp_all

lemma copy_back_prefix: "copy_back off k px = px @ drop (length px) (copy_back off k px)"
proof (induction k)
  case (Suc k)
  have "take (length px) (copy_back off k px) = px" by (subst Suc) simp
  then have "take (length px) (copy_back off (Suc k) px) = px" unfolding copy_back_Suc by simp
  then show ?case by (metis append_take_drop_id)
qed simp

lemma copy_back_map: "0 < off \<Longrightarrow> off \<le> length px \<Longrightarrow> copy_back off k (map f px) = map f (copy_back off k px)"
  by (induction off k px rule: copy_back.induct) simp_all

lemma codedz_append: "codedz h bs vs \<Longrightarrow> codedz (h @ vs) bs' vs' \<Longrightarrow> codedz h (bs @ bs') (vs @ vs')"
proof (induction rule: codedz.induct)
  case (z_copy off k h bs vs)
  have "codedz (copy_back off k h) (bs @ bs') (vs @ vs')"
    using z_copy copy_back_prefix [of off k h] by (metis append_assoc)
  then show ?case using codedz.z_copy [OF _ z_copy.hyps(2-6)] by fastforce
next
  case (z_lit h ls bs vs)
  then have "codedz (h @ ls) (bs @ bs') (vs @ vs')" by simp
  from codedz.z_lit [OF this z_lit.hyps(2,3)] show ?case by (simp only: append_assoc)
next
  case (z_run h k v bs vs)
  then have "codedz (h @ replicate k v) (bs @ bs') (vs @ vs')" by simp
  from codedz.z_run [OF this z_run.hyps(2,3)] show ?case by (simp only: append_assoc)
qed simp

lemma control_bytes:
  "m < 64 \<Longrightarrow> unat (0x80 OR word_of_nat m :: u8) = 128 + m" "m < 64 \<Longrightarrow> unat (0xC0 OR word_of_nat m :: u8) = 192 + m"
proof -
  have "\<forall>m \<in> set [0..<64]. unat (0x80 OR word_of_nat m :: u8) = 128 + m \<and> unat (0xC0 OR word_of_nat m :: u8) = 192 + m"
    by code_simp
  then show "m < 64 \<Longrightarrow> unat (0x80 OR word_of_nat m :: u8) = 128 + m" "m < 64 \<Longrightarrow> unat (0xC0 OR word_of_nat m :: u8) = 192 + m"
    by simp_all
qed


lemma control_mod: "m < 64 \<Longrightarrow> (128 + m) mod 64 = m" "m < 64 \<Longrightarrow> (192 + m) mod 64 = (m :: nat)"
  using mod_mult_self1 [of m 2 64] mod_mult_self1 [of m 3 64] by (simp_all add: add.commute)

text \<open>Unpacking undoes the format.\<close>

lemma drop_head:
  assumes "drop at inp = b # r"
  shows "inp ! at = b" and "at < length inp" and "drop (at + 1) inp = r" and "length inp = at + 1 + length r"
proof -
  show "inp ! at = b" using assms by (rule nth_via_drop)
  show at: "at < length inp" using assms by (metis drop_all list.distinct(1) not_le)
  show "drop (at + 1) inp = r" using arg_cong [OF assms, of "drop 1"] by simp
  show "length inp = at + 1 + length r" using arg_cong [OF assms, of length] at by simp
qed

lemma unpackz_lits:
  assumes d: "drop at inp = word_of_nat (length ls - 1) # ls @ r" and "ls \<noteq> []" and l: "length ls \<le> 128" and n: "length px + length ls \<le> n"
  shows "unpack8z_loop pal inp n at px = unpack8z_loop pal inp n (at + 1 + length ls) (px @ map pal ls)"
proof -
  have pos: "0 < length ls" using assms(2) by simp
  note h = drop_head [OF d]
  have c: "unat (inp ! at) = length ls - 1" unfolding h(1) using l by (intro unat_of_nat_u8) simp
  have one: "length ls - 1 + 1 = length ls" using pos by simp
  have g: "length px < n" "\<not> n < length px + length ls" "\<not> length inp < at + 1 + length ls" "length ls - 1 < 128"
    using pos n l h(4) [unfolded length_append] by linarith+
  have t: "take (length ls) (drop (at + 1) inp) = ls" unfolding h(3) by simp
  show ?thesis
    by (subst unpack8z_loop.simps)
      (simp only: Let_def c one g t h(2) [unfolded not_le [symmetric]] not_not if_False if_True simp_thms)
qed

lemma unpackz_run:
  assumes d: "drop at inp = (0x80 OR word_of_nat (k - 3)) # v # r" and k: "3 \<le> k" "k \<le> 66" and n: "length px + k \<le> n"
  shows "unpack8z_loop pal inp n at px = unpack8z_loop pal inp n (at + 2) (px @ replicate k (pal v))"
proof -
  note h = drop_head [OF d] and h1 = drop_head [OF drop_head(3) [OF d]]
  have c: "unat (inp ! at) = 128 + (k - 3)" unfolding h(1) using k by (intro control_bytes) simp
  have m: "(128 + (k - 3)) mod 64 + 3 = k" using k control_mod [of "k - 3"] by simp
  have g: "length px < n" "\<not> n < length px + k" "\<not> length inp < at + 2" "\<not> 128 + (k - 3) < 0x80" "128 + (k - 3) < 0xC0"
    using n k h(4) by simp_all
  show ?thesis
    by (subst unpack8z_loop.simps)
      (simp only: Let_def c m g h1(1) h(2) [unfolded not_le [symmetric]] not_not if_False if_True simp_thms)
qed

lemma unpackz_copy:
  assumes d: "drop at inp = (0xC0 OR word_of_nat (k - 3)) # word_of_nat off # word_of_nat (off div 256) # r"
    and k: "3 \<le> k" "k \<le> 66" and n: "length px + k \<le> n" and off: "0 < off" "off \<le> length px" "off < 65536"
  shows "unpack8z_loop pal inp n at px = unpack8z_loop pal inp n (at + 3) (copy_back off k px)"
proof -
  note h = drop_head [OF d] and h1 = drop_head [OF drop_head(3) [OF d]]
  note h2 = drop_head [OF h1(3)]
  have c: "unat (inp ! at) = 192 + (k - 3)" unfolding h(1) using k by (intro control_bytes) simp
  have m: "(192 + (k - 3)) mod 64 + 3 = k" using k control_mod [of "k - 3"] by simp
  have "unat (inp ! (at + 1)) = off mod 256" unfolding h1(1) by (simp add: unsigned_of_nat take_bit_eq_mod)
  moreover have "unat (inp ! (at + 2)) = off div 256"
    using h2(1) off(3) by (simp add: unat_of_nat_u8 less_mult_imp_div_less)
  ultimately have o: "unat (inp ! (at + 1)) + unat (inp ! (at + 2)) * 256 = off" by simp
  have g: "length px < n" "\<not> n < length px + k" "\<not> length inp < at + 3" "\<not> 192 + (k - 3) < 0x80" "\<not> 192 + (k - 3) < 0xC0"
    "(off = 0) = False" "\<not> length px < off"
    using n k h(4) off by simp_all
  show ?thesis
    by (subst unpack8z_loop.simps)
      (simp only: Let_def c m g o h(2) [unfolded not_le [symmetric]] not_not if_False if_True simp_thms)
qed

lemma unpack_codedz:
  "codedz h bs vs \<Longrightarrow> drop at inp = bs @ rest \<Longrightarrow> length h + length vs \<le> n \<Longrightarrow>
   unpack8z_loop pal inp n at (map pal h) = unpack8z_loop pal inp n (at + length bs) (map pal (h @ vs))"
proof (induction arbitrary: at rule: codedz.induct)
  case (z_lit h ls bs vs)
  have d: "drop at inp = word_of_nat (length ls - 1) # ls @ bs @ rest" using z_lit.prems(1) by simp
  have "drop (at + 1 + length ls) inp = bs @ rest" using arg_cong [OF d, of "drop (1 + length ls)"] by (simp add: add.commute)
  from z_lit.IH [OF this] unpackz_lits [OF d z_lit.hyps(2,3), of "map pal h" n pal] z_lit.prems(2)
  show ?case by (simp add: add.assoc)
next
  case (z_run h k v bs vs)
  have d: "drop at inp = (0x80 OR word_of_nat (k - 3)) # v # bs @ rest" using z_run.prems(1) by simp
  have "drop (at + 2) inp = bs @ rest" using arg_cong [OF d, of "drop 2"] by (simp add: add.commute)
  from z_run.IH [OF this] unpackz_run [OF d z_run.hyps(2,3), of "map pal h" n pal] z_run.prems(2)
  show ?case by (simp add: add.assoc map_replicate)
next
  case (z_copy off k h bs vs)
  have d: "drop at inp = (0xC0 OR word_of_nat (k - 3)) # word_of_nat off # word_of_nat (off div 256) # bs @ rest"
    using z_copy.prems(1) by simp
  have d': "drop (at + 3) inp = bs @ rest" using arg_cong [OF d, of "drop 3"] by (simp add: add.commute)
  have p: "h @ drop (length h) (copy_back off k h) = copy_back off k h" using copy_back_prefix [of off k h] by simp
  have "unpack8z_loop pal inp n at (map pal h) = unpack8z_loop pal inp n (at + 3) (copy_back off k (map pal h))"
    by (rule unpackz_copy [OF d z_copy.hyps(2,3)]) (use z_copy in auto)
  also have "\<dots> = unpack8z_loop pal inp n (at + 3) (map pal (copy_back off k h))" by (simp only: copy_back_map [OF z_copy.hyps(4,5)])
  also have "\<dots> = unpack8z_loop pal inp n (at + 3 + length bs) (map pal (copy_back off k h @ vs))"
    by (rule z_copy.IH [OF d']) (use z_copy.prems(2) in simp)
  finally show ?case using p by (simp add: append_assoc [symmetric] numeral_3_eq_3 del: append_assoc)
qed simp


text \<open>What the packer writes is the format, whatever its hash holds.\<close>

definition packsz :: "u8 list \<Rightarrow> nat \<Rightarrow> nat \<Rightarrow> nat \<Rightarrow> u8 list \<Rightarrow> u8 list \<times> nat \<Rightarrow> bool" where
  "packsz ix fin cap i out r \<longleftrightarrow> (\<exists>bs j. r = (out @ bs, j) \<and> i \<le> j \<and> j \<le> fin \<and> length (out @ bs) \<le> cap \<and>
     codedz (take i ix) bs (take (j - i) (drop i ix)))"

lemma packsz_stop: "i \<le> fin \<Longrightarrow> length out \<le> cap \<Longrightarrow> packsz ix fin cap i out (out, i)"
  by (simp add: packsz_def z_end)

lemma packsz_trans:
  assumes "packsz ix fin cap i out (out1, j)" and "packsz ix fin cap j out1 r"
  shows "packsz ix fin cap i out r"
proof -
  from assms(1) obtain bs where b: "out1 = out @ bs" "i \<le> j" "codedz (take i ix) bs (take (j - i) (drop i ix))"
    by (auto simp: packsz_def)
  from assms(2) obtain cs k where c: "r = (out1 @ cs, k)" "j \<le> k" "k \<le> fin" "length (out1 @ cs) \<le> cap"
    "codedz (take j ix) cs (take (k - j) (drop j ix))"
    by (auto simp: packsz_def)
  have t: "take i ix @ take (j - i) (drop i ix) = take j ix" using b(2) take_add [of i "j - i" ix] by simp
  have "take (k - i) (drop i ix) = take (j - i) (drop i ix) @ take (k - j) (drop j ix)"
    using b(2) c(2) take_drop_add [of "j - i" "k - j" i ix] by simp
  then have "codedz (take i ix) (bs @ cs) (take (k - i) (drop i ix))"
    using codedz_append [OF b(3), of cs "take (k - j) (drop j ix)"] c(5) t by simp
  then show ?thesis using b c unfolding packsz_def by (intro exI [of _ "bs @ cs"] exI [of _ k]) simp
qed

lemma z_lits_format:
  "start + lit \<le> length ix \<Longrightarrow> start + lit \<le> fin \<Longrightarrow> k0 \<le> lit \<Longrightarrow> length out \<le> cap \<Longrightarrow>
   packsz ix fin cap (start + k0) out (apsnd ((+) start) (z_lits ix start lit cap out k0)) \<and>
   k0 \<le> snd (z_lits ix start lit cap out k0) \<and> snd (z_lits ix start lit cap out k0) \<le> lit \<and>
   (k0 < lit \<and> length out + 2 \<le> cap \<longrightarrow> k0 < snd (z_lits ix start lit cap out k0))"
proof (induction ix start lit cap out k0 rule: z_lits.induct)
  case (1 ix start lit cap out k0)
  show ?case
  proof (cases "k0 < lit \<and> length out + 2 \<le> cap")
    case False
    then have "z_lits ix start lit cap out k0 = (out, k0)" by (subst z_lits.simps) (simp only: if_False)
    then show ?thesis using False 1(3-5) packsz_stop [of "start + k0" fin out cap ix] by simp
  next
    case True
    define k1 where "k1 = (if lit - k0 > RDC_LIT_MAX then RDC_LIT_MAX else lit - k0)"
    define k where "k = (if length out + 1 + k1 > cap then cap - length out - 1 else k1)"
    let ?g = "take k (drop (start + k0) ix)"
    let ?tok = "word_of_nat (k - 1) # ?g"
    have eq: "z_lits ix start lit cap out k0 = z_lits ix start lit cap (out @ ?tok) (k0 + k)"
      using True by (subst z_lits.simps) (simp add: Let_def k_def k1_def)
    have k: "0 < k" "k \<le> 128" "k0 + k \<le> lit" "length out + 1 + k \<le> cap"
      using True by (auto simp: k_def k1_def RDC_LIT_MAX_def split: if_splits)
    have g: "length ?g = k" "?g \<noteq> []" using k 1(2) by auto
    have IH: "packsz ix fin cap (start + (k0 + k)) (out @ ?tok) (apsnd ((+) start) (z_lits ix start lit cap (out @ ?tok) (k0 + k))) \<and>
        k0 + k \<le> snd (z_lits ix start lit cap (out @ ?tok) (k0 + k)) \<and> snd (z_lits ix start lit cap (out @ ?tok) (k0 + k)) \<le> lit"
      using 1(1) [OF True k1_def k_def] 1(2,3) k g by simp
    have "codedz (take (start + k0) ix) (?tok @ []) (?g @ [])"
      using z_lit [OF z_end g(2)] g(1) k(2) by simp
    then have "packsz ix fin cap (start + k0) out (out @ ?tok, start + (k0 + k))"
      using k g 1(3) by (auto simp: packsz_def add.assoc)
    from packsz_trans [OF this] IH show ?thesis unfolding eq using k(1) by auto
  qed
qed

lemma match_at_ge: "len \<le> match_at ix q i fin len"
proof (induction ix q i fin len rule: match_at.induct)
  case (1 ix q i fin len)
  then show ?case by (subst match_at.simps) (auto dest: Suc_leD)
qed

lemma match_at_le: "i + len \<le> fin \<Longrightarrow> len \<le> RDC_Z_COPY_MAX \<Longrightarrow> i + match_at ix q i fin len \<le> fin \<and> match_at ix q i fin len \<le> RDC_Z_COPY_MAX"
proof (induction ix q i fin len rule: match_at.induct)
  case (1 ix q i fin len)
  then show ?case by (subst (1 2) match_at.simps) auto
qed

lemma match_at_same: "len \<le> k \<Longrightarrow> k < match_at ix q i fin len \<Longrightarrow> ix ! (q + k) = ix ! (i + k)"
proof (induction ix q i fin len rule: match_at.induct)
  case (1 ix q i fin len)
  show ?case
  proof (cases "i + len < fin \<and> len < RDC_Z_COPY_MAX \<and> ix ! (q + len) = ix ! (i + len)")
    case True
    then have "match_at ix q i fin len = match_at ix q i fin (Suc len)" by (subst match_at.simps) simp
    then show ?thesis using 1(1) [OF True] 1(2,3) True by (cases "k = len") auto
  next
    case False
    then have "match_at ix q i fin len = len" by (subst match_at.simps) auto
    then show ?thesis using 1(2,3) by simp
  qed
qed

text \<open>A candidate is a copy that can be made.\<close>

lemma cands_match:
  "cands prev ix i fin d cand best off = (b, o') \<Longrightarrow>
   (b = best \<and> o' = off) \<or> (\<exists>q < i. i - q < RDC_Z_WIN \<and> b = match_at ix q i fin 0 \<and> o' = i - q)"
proof (induction prev ix i fin d cand best off rule: cands.induct)
  case (2 prev ix i fin d cand best off)
  show ?case
  proof (cases cand)
    case (Suc c)
    show ?thesis
    proof (cases "c \<ge> i \<or> i - c \<ge> RDC_Z_WIN")
      case True
      then show ?thesis using 2(3) Suc by auto
    next
      case False
      then have q: "\<not> i \<le> c" "\<not> RDC_Z_WIN \<le> i - c" by simp_all
      have h: "cand \<noteq> 0" "c = cand - 1" using Suc by simp_all
      show ?thesis
      proof (cases "match_at ix c i fin 0 > best")
        case True
        then have "cands prev ix i fin d (prev ! c) (match_at ix c i fin 0) (i - c) = (b, o')"
          using 2(3) q Suc by simp
        from 2(1) [OF h False refl True this] q show ?thesis by (metis not_le)
      next
        case nb: False
        then have "cands prev ix i fin d (prev ! c) best off = (b, o')" using 2(3) q Suc by simp
        from 2(2) [OF h False refl nb this] show ?thesis .
      qed
    qed
  qed (use 2(3) in simp)
qed simp

lemma copy_back_match:
  assumes "q < i" and "i \<le> length ix" and "k \<le> match_at ix q i fin 0" and "fin \<le> length ix"
  shows "i + k \<le> fin \<or> k = 0 \<Longrightarrow> copy_back (i - q) k (take i ix) = take (i + k) ix"
  using assms(3)
proof (induction k)
  case (Suc k)
  then have le: "i + Suc k \<le> length ix" using assms(4) by simp
  have IH: "copy_back (i - q) k (take i ix) = take (i + k) ix" using Suc by simp
  have "ix ! (q + k) = ix ! (i + k)" using match_at_same [of 0 k ix q i fin] Suc.prems by simp
  moreover have "length (take i ix) + k - (i - q) = q + k" using assms(1,2) by simp
  ultimately show ?case unfolding copy_back_Suc IH using le assms(1) by (simp add: take_Suc_conv_app_nth add.commute [of k q])
qed simp


lemma z_token_format:
  assumes t: "z_token z ix fin i = (z1, Some (tok, step))" and i: "i < fin" "fin \<le> length ix"
  shows "i + step \<le> fin" and "length tok \<le> 3" and "codedz (take i ix) tok (take step (drop i ix))"
proof -
  define run where "run = run_at ix i fin RDC_Z_RUN_MAX 1"
  have run: "1 \<le> run" "run \<le> 66" "i + run \<le> fin"
    using run_at_ge [of 1 ix i fin RDC_Z_RUN_MAX] run_at_le [of i 1 fin RDC_Z_RUN_MAX ix] i by (simp_all add: run_def RDC_Z_RUN_MAX_def)
  obtain best off where bo: "(if i + 3 < fin then cands (z_prev z1) ix i fin RDC_Z_DEPTH (z_head z1 ! z_hash ix i) 0 0 else (0, 0)) = (best, off)"
    by (metis surj_pair)
  have z1: "z1 = (if i + 3 < fin then z_insert z ix i fin else z)" using arg_cong [OF t, of fst] by (simp add: z_token_def Let_def case_prod_unfold)
  have tk: "(if best \<ge> 4 \<and> best > run then Some ([0xC0 OR word_of_nat (best - 3), word_of_nat off, word_of_nat (off div 256)], best)
      else if run \<ge> 3 then Some ([0x80 OR word_of_nat (run - 3), ix ! i], run) else None) = Some (tok, step)"
    using t unfolding z_token_def Let_def z1 [symmetric] run_def [symmetric] bo prod.case by simp
  have "i + step \<le> fin \<and> length tok \<le> 3 \<and> codedz (take i ix) tok (take step (drop i ix))"
  proof (cases "best \<ge> 4 \<and> best > run")
    case True
    then have ts: "tok = [0xC0 OR word_of_nat (best - 3), word_of_nat off, word_of_nat (off div 256)]" "step = best" using tk by auto
    from bo True have "cands (z_prev z1) ix i fin RDC_Z_DEPTH (z_head z1 ! z_hash ix i) 0 0 = (best, off)" by (simp split: if_splits)
    from cands_match [OF this] True obtain q where q: "q < i" "i - q < 4096" "best = match_at ix q i fin 0" "off = i - q"
      by (auto simp: RDC_Z_WIN_def)
    have b: "i + best \<le> fin" "best \<le> 66" using match_at_le [of i 0 fin ix q] i q(3) by (simp_all add: RDC_Z_COPY_MAX_def)
    have c: "copy_back off best (take i ix) = take (i + best) ix"
      unfolding q(4) by (rule copy_back_match [of q i ix best fin]) (use q b i in auto)
    have "drop (length (take i ix)) (copy_back off best (take i ix)) = take best (drop i ix)"
      unfolding c using i by (simp add: drop_take min_absorb2)
    moreover have "codedz (take i ix) (tok @ []) (drop (length (take i ix)) (copy_back off best (take i ix)) @ [])"
      unfolding ts(1) by (rule z_copy [OF z_end]) (use True b q i in auto)
    ultimately show ?thesis using b(1) ts by simp
  next
    case False
    then have ts: "tok = [0x80 OR word_of_nat (run - 3), ix ! i]" "step = run" "3 \<le> run" using tk by (auto split: if_splits)
    have "take run (drop i ix) = replicate run (ix ! i)"
    proof (rule nth_equalityI)
      fix k assume "k < length (take run (drop i ix))"
      then have "k < run" by simp
      moreover have "ix ! (i + k) = ix ! i" if "k < run" using that unfolding run_def by (cases "k = 0") (auto intro: run_at_same [of 1])
      ultimately show "take run (drop i ix) ! k = replicate run (ix ! i) ! k" using run(3) i(2) by simp
    qed (use run(3) i(2) in simp)
    moreover have "codedz (take i ix) (tok @ []) (replicate run (ix ! i) @ [])"
      unfolding ts(1) by (rule z_run [OF z_end]) (use run ts(3) in auto)
    ultimately show ?thesis using run(3) ts by simp
  qed
  then show "i + step \<le> fin" "length tok \<le> 3" "codedz (take i ix) tok (take step (drop i ix))" by simp_all
qed

lemma pack8z_loop_format:
  assumes fin: "fin \<le> length ix"
  shows "lit_at \<le> i \<Longrightarrow> i \<le> fin \<Longrightarrow> length out \<le> cap \<Longrightarrow> packsz ix fin cap lit_at out (snd (pack8z_loop z ix fin cap i lit_at out))"
    and "lit_at \<le> i \<Longrightarrow> i \<le> fin \<Longrightarrow> length out + 3 \<le> cap \<Longrightarrow> lit_at < fin \<Longrightarrow> lit_at < snd (snd (pack8z_loop z ix fin cap i lit_at out))"
proof -
  have both: "lit_at \<le> i \<Longrightarrow> i \<le> fin \<Longrightarrow> length out \<le> cap \<Longrightarrow> packsz ix fin cap lit_at out (snd (pack8z_loop z ix fin cap i lit_at out)) \<and>
    (length out + 3 \<le> cap \<longrightarrow> lit_at < fin \<longrightarrow> lit_at < snd (snd (pack8z_loop z ix fin cap i lit_at out)))"
  proof (induction "fin - i" arbitrary: z i lit_at out rule: less_induct)
    case less
    obtain out1 put where l: "z_lits ix lit_at (i - lit_at) cap out 0 = (out1, put)" by fastforce
    have lits: "packsz ix fin cap lit_at out (out1, lit_at + put)" "put \<le> i - lit_at"
      "lit_at < i \<Longrightarrow> length out + 2 \<le> cap \<Longrightarrow> 0 < put"
      using z_lits_format [of lit_at "i - lit_at" ix fin 0 out cap] l less.prems fin by (auto simp: apsnd_def)
    then have len1: "length out1 \<le> cap" by (auto simp: packsz_def)
    show ?case
    proof (cases "i < fin")
      case False
      then show ?thesis using l lits less.prems by (subst (1 2) pack8z_loop.simps) auto
    next
      case i: True
      obtain z1 t where t: "z_token z ix fin i = (z1, t)" by fastforce
      show ?thesis
      proof (cases t)
        case None
        then have eq: "pack8z_loop z ix fin cap i lit_at out = pack8z_loop z1 ix fin cap (i + 1) lit_at out"
          using i t by (subst pack8z_loop.simps) simp
        show ?thesis unfolding eq by (rule less.hyps) (use i less.prems in auto)
      next
        case (Some ts)
        obtain tok step where ts: "ts = (tok, step)" by fastforce
        note tf = z_token_format [OF t [unfolded Some ts] i fin] and ge = z_token_step [OF t [unfolded Some ts]]
        show ?thesis
        proof (cases "put < i - lit_at \<or> length out1 + length tok > cap")
          case True
          then have eq: "pack8z_loop z ix fin cap i lit_at out = (z1, out1, lit_at + put)"
            using i t Some ts l by (subst pack8z_loop.simps) auto
          have "0 < put" if "length out + 3 \<le> cap"
          proof (cases "lit_at < i")
            case False
            then have z: "z_lits ix lit_at (i - lit_at) cap out 0 = (out, 0)" by (subst z_lits.simps) simp
            then show ?thesis using True l that tf(2) False by auto
          qed (use lits(3) that in simp)
          then show ?thesis unfolding eq using lits by auto
        next
          case False
          then have eq: "pack8z_loop z ix fin cap i lit_at out = pack8z_loop z1 ix fin cap (i + step) (i + step) (out1 @ tok)"
            using i t Some ts l by (subst pack8z_loop.simps) auto
          have all: "lit_at + put = i" using False lits(2) less.prems(1) by simp
          have "packsz ix fin cap i out1 (out1 @ tok, i + step)" using tf False by (auto simp: packsz_def)
          then have p: "packsz ix fin cap lit_at out (out1 @ tok, i + step)" using packsz_trans lits(1) all by metis
          have IH: "packsz ix fin cap (i + step) (out1 @ tok) (snd (pack8z_loop z1 ix fin cap (i + step) (i + step) (out1 @ tok)))"
            using less.hyps [of "i + step" "i + step" "out1 @ tok" z1] tf(1) ge False i by simp
          then have "i + step \<le> snd (snd (pack8z_loop z1 ix fin cap (i + step) (i + step) (out1 @ tok)))" by (auto simp: packsz_def)
          then show ?thesis unfolding eq using packsz_trans [OF p IH] ge less.prems(1) by auto
        qed
      qed
    qed
  qed
  show "lit_at \<le> i \<Longrightarrow> i \<le> fin \<Longrightarrow> length out \<le> cap \<Longrightarrow> packsz ix fin cap lit_at out (snd (pack8z_loop z ix fin cap i lit_at out))"
    and "lit_at \<le> i \<Longrightarrow> i \<le> fin \<Longrightarrow> length out + 3 \<le> cap \<Longrightarrow> lit_at < fin \<Longrightarrow> lit_at < snd (snd (pack8z_loop z ix fin cap i lit_at out))"
    using both by simp_all
qed


section \<open>Rectangles sent in pieces\<close>

text \<open>
  A rectangle goes out as one call of \<open>rdc_pack8z_some\<close> after another, each from where the last one
  stopped, for at most so many pixels into so much room; the bytes follow each other on the wire.
\<close>

fun send_pieces :: "rdc_zstate \<Rightarrow> u8 list \<Rightarrow> nat \<Rightarrow> (nat \<times> nat) list \<Rightarrow> u8 list \<times> nat" where
  "send_pieces z ix start [] = ([], start)"
| "send_pieces z ix start ((n, cap) # ps) =
     (case rdc_pack8z_some z ix start (min n (length ix - start)) cap of
        (z1, out, taken) \<Rightarrow> (case send_pieces z1 ix (start + taken) ps of (rest, fin) \<Rightarrow> (out @ rest, fin)))"

lemma pack8z_piece:
  assumes "rdc_pack8z_some z ix start n cap = (z1, out, taken)" and "start + n \<le> length ix"
  shows "codedz (take start ix) out (take taken (drop start ix))" and "taken \<le> n" and "length out \<le> cap"
    and "3 \<le> cap \<Longrightarrow> 0 < n \<Longrightarrow> 0 < taken"
proof -
  let ?z = "z_insert z ix start (start + n)"
  obtain j where l: "pack8z_loop ?z ix (start + n) cap start start [] = (z1, out, j)" "taken = j - start"
    using assms(1) by (auto simp: rdc_pack8z_some_def split: prod.splits)
  note f = pack8z_loop_format [OF assms(2), of start start "[]" cap ?z]
  from f(1) l(1) have p: "packsz ix (start + n) cap start [] (out, j)" by simp
  then show "codedz (take start ix) out (take taken (drop start ix))" "taken \<le> n" "length out \<le> cap"
    using l(2) by (auto simp: packsz_def)
  show "3 \<le> cap \<Longrightarrow> 0 < n \<Longrightarrow> 0 < taken" using f(2) l by simp
qed

lemma send_pieces_coded:
  "send_pieces z ix start ps = (bytes, fin) \<Longrightarrow> start \<le> length ix \<Longrightarrow>
   start \<le> fin \<and> fin \<le> length ix \<and> codedz (take start ix) bytes (take (fin - start) (drop start ix))"
proof (induction z ix start ps arbitrary: bytes rule: send_pieces.induct)
  case (1 z ix start)
  then show ?case by (simp add: z_end)
next
  case (2 z ix start n cap ps)
  obtain z1 out taken where c: "rdc_pack8z_some z ix start (min n (length ix - start)) cap = (z1, out, taken)"
    by (metis prod_cases3)
  obtain rest where r: "send_pieces z1 ix (start + taken) ps = (rest, fin)" "bytes = out @ rest"
    using 2(2) c by (auto split: prod.splits)
  have "start + min n (length ix - start) \<le> length ix" using 2(3) by simp
  note p = pack8z_piece [OF c this]
  have le: "start + taken \<le> length ix" using p(2) 2(3) by linarith
  have IH: "start + taken \<le> fin" "fin \<le> length ix"
      "codedz (take (start + taken) ix) rest (take (fin - (start + taken)) (drop (start + taken) ix))"
    using 2(1) [OF c [symmetric] refl r(1) le] by auto
  have t: "take start ix @ take taken (drop start ix) = take (start + taken) ix" by (rule take_add [symmetric])
  have "take (fin - start) (drop start ix) = take taken (drop start ix) @ take (fin - (start + taken)) (drop (start + taken) ix)"
    using IH(1) take_drop_add [of taken "fin - (start + taken)" start ix] by simp
  then show ?case using codedz_append [OF p(1)] IH t r(2) 2(3) by simp
qed

section \<open>Properties\<close>

text \<open>
  Packing and unpacking are inverse, for sixteen-bit pixels and for indices: whatever the room, what
  is packed is a whole number of the first pixels, in no more bytes than there is room for, and
  unpacking them, with any bytes behind, reads exactly those bytes and gives exactly those pixels.
\<close>

theorem rdc_pack_roundtrip:
  "(case rdc_pack_some px cap of (out, taken) \<Rightarrow>
      taken \<le> length px \<and> length out \<le> cap \<and> rdc_unpack (out @ rest) taken = (length out, take taken px)) \<and>
   (case rdc_pack8_some ix cap of (out, taken) \<Rightarrow>
      taken \<le> length ix \<and> length out \<le> cap \<and> rdc_unpack8 (out @ rest) pal taken = (length out, map pal (take taken ix)))"
proof -
  obtain out taken where p: "pack_loop put_px 2 px cap 0 [] = (out, taken)" by fastforce
  obtain out8 taken8 where p8: "pack_loop put_ix 1 ix cap 0 [] = (out8, taken8)" by fastforce
  show ?thesis
    using px16.pack_unpack [OF p] px8.pack_unpack [OF p8]
    by (simp add: rdc_pack_some_def pack_def rdc_unpack_def rdc_pack8_some_def rdc_unpack8_def p p8 [simplified])
qed

text \<open>
  \<open>RDC_PACK_MAX\<close> and \<open>RDC_PACK8_MAX\<close> are enough: given that much room, packing takes every pixel, and
  \<open>rdc_pack\<close> returns the number of bytes it wrote.
\<close>

theorem rdc_pack_max_suffices:
  "(RDC_PACK_MAX (length px) \<le> cap \<longrightarrow>
      snd (rdc_pack_some px cap) = length px \<and> fst (rdc_pack px cap) = length (snd (rdc_pack px cap))) \<and>
   (RDC_PACK8_MAX (length ix) \<le> cap \<longrightarrow> snd (rdc_pack8_some ix cap) = length ix)"
  using pack_loop_fits [of put_px 2 0 px "[]" cap] pack_loop_fits [of put_ix 1 0 ix "[]" cap]
  by (auto simp: RDC_PACK_MAX_def RDC_PACK8_MAX_def rdc_pack_some_def rdc_pack_def pack_def rdc_pack8_some_def put_px_def put_ix_def
      split: prod.split)

theorem rdc_pack_max_suffices_witness: "snd (rdc_pack_some [7, 7, 9] 7) = 3"
  using rdc_pack_max_suffices [of "[7, 7, 9]" 7 "[]"] by (simp add: RDC_PACK_MAX_def)

text \<open>
  C9. A rectangle packed with copies in any number of pieces, from any state of the hash, is unpacked whole:
  the bytes of the pieces one after another, with any bytes behind, unpack to the pixels that were taken,
  each looked up in the palette.
\<close>

theorem rdc_8z_roundtrip:
  "send_pieces z ix 0 ps = (bytes, n) \<Longrightarrow> rdc_unpack8z (bytes @ rest) pal n = (length bytes, map pal (take n ix))"
proof -
  assume s: "send_pieces z ix 0 ps = (bytes, n)"
  have c: "n \<le> length ix" "codedz [] bytes (take n ix)" using send_pieces_coded [OF s] by auto
  have "unpack8z_loop pal (bytes @ rest) n 0 (map pal []) = unpack8z_loop pal (bytes @ rest) n (0 + length bytes) (map pal ([] @ take n ix))"
    by (rule unpack_codedz [OF c(2)]) (use c(1) in auto)
  moreover have "unpack8z_loop pal (bytes @ rest) n (length bytes) (map pal (take n ix)) = (length bytes, map pal (take n ix))"
    using c(1) by (subst unpack8z_loop.simps) simp
  ultimately show ?thesis by (simp add: rdc_unpack8z_def)
qed

text \<open>A hash that is full, and holds nothing of the rectangle.\<close>

definition demo_z :: rdc_zstate where
  "demo_z = \<lparr>z_head = replicate RDC_Z_HASH 0, z_prev = replicate RDC_Z_WIN 0, z_known = RDC_Z_WIN\<rparr>"

theorem rdc_8z_roundtrip_witness:
  "rdc_unpack8z (fst (send_pieces demo_z [5, 5, 5, 1, 2] 0 [(4, 10), (9, 10)])) ucast 5 = (6, [5, 5, 5, 1, 2])"
proof -
  have s: "send_pieces demo_z [5, 5, 5, 1, 2] 0 [(4, 10), (9, 10)] = ([0x80, 5, 0, 1, 0, 2], 5)" by code_simp
  show ?thesis using rdc_8z_roundtrip [OF s, of "[]" ucast] s by simp
qed

text \<open>
  C25. Every piece makes progress: with room for three bytes and a pixel to send, a call of
  \<open>rdc_pack8z_some\<close> takes at least one pixel, whatever the hash holds, so sending a rectangle ends.
\<close>

theorem rdc_8z_progress:
  assumes "start + n \<le> length ix" and "0 < n" and "3 \<le> cap"
  shows "case rdc_pack8z_some z ix start n cap of (_, out, taken) \<Rightarrow> 0 < taken \<and> taken \<le> n \<and> length out \<le> cap"
  using pack8z_piece [OF _ assms(1)] assms(2,3) by (auto split: prod.split)

theorem rdc_8z_progress_witness:
  "case rdc_pack8z_some demo_z [1, 2, 3] 1 2 3 of (_, out, taken) \<Rightarrow> 0 < taken \<and> taken \<le> 2 \<and> length out \<le> 3"
  by (rule rdc_8z_progress) simp_all

end
