(* ===== verification/Cluframe.thy ===== *)
theory Cluframe
  imports Prelude
begin

text \<open>
  \<open>net/cluframe.c\<close>: cutting a message between cluster threads into frames, and putting it together again
  while several senders interleave. A frame is a list of bytes; thread numbers (\<open>int32_t\<close>) are only stored and
  compared, so their bits as \<open>u32\<close> do. The allocator and its context are parameters, as they are fields
  in the code: \<open>alloc_fn\<close> returns a buffer (its bytes, which are not initialised) or \<open>NULL\<close>, \<open>free_fn\<close> is
  told of the buffers that are abandoned.
\<close>

section \<open>Frames\<close>

definition AG_CLUF_HDR :: nat where "AG_CLUF_HDR = 16"
definition AG_CLUF_SLOTS :: nat where "AG_CLUF_SLOTS = 4"
definition AG_CLU_MSG_MAX :: u32 where "AG_CLU_MSG_MAX = 4096"
definition AG_CLUF_DATA :: u8 where "AG_CLUF_DATA = 3"
definition AG_CLUF_F_FIRST :: u8 where "AG_CLUF_F_FIRST = 1"
definition AG_CLUF_F_LAST :: u8 where "AG_CLUF_F_LAST = 2"

record ag_cluf_hdr =
  h_op :: u8
  h_flags :: u8
  h_len :: u16
  h_a :: u32
  h_b :: u32
  h_c :: u32

definition put_u16 :: "u16 \<Rightarrow> u8 list" where
  "put_u16 v = [ucast (v AND 0xff), ucast (drop_bit 8 v AND 0xff)]"

definition put_u32 :: "u32 \<Rightarrow> u8 list" where
  "put_u32 v = [ucast (v AND 0xff), ucast (drop_bit 8 v AND 0xff), ucast (drop_bit 16 v AND 0xff), ucast (drop_bit 24 v AND 0xff)]"

definition get_u16 :: "u8 list \<Rightarrow> u16" where
  "get_u16 p = ucast (p ! 0) OR push_bit 8 (ucast (p ! 1))"

definition get_u32 :: "u8 list \<Rightarrow> u32" where
  "get_u32 p = ucast (p ! 0) OR push_bit 8 (ucast (p ! 1)) OR push_bit 16 (ucast (p ! 2)) OR push_bit 24 (ucast (p ! 3))"

text \<open>The bytes written; the rest of the buffer, and the payload's place when there is none, stay as they were.\<close>

definition ag_cluf_put :: "u8 list option \<Rightarrow> ag_cluf_hdr option \<Rightarrow> u8 list option \<Rightarrow> nat \<times> u8 list option" where
  "ag_cluf_put buf h payload =
     (case (buf, h) of
        (Some b, Some f) \<Rightarrow>
          let head = [h_op f, h_flags f] @ put_u16 (h_len f) @ put_u32 (h_a f) @ put_u32 (h_b f) @ put_u32 (h_c f);
              n = unat (h_len f)
          in (AG_CLUF_HDR + n,
              Some (case payload of
                      Some p \<Rightarrow> head @ take n p @ drop (AG_CLUF_HDR + n) b
                    | None \<Rightarrow> head @ drop AG_CLUF_HDR b))
      | _ \<Rightarrow> (0, buf))"

text \<open>The header, and where the payload starts.\<close>

definition ag_cluf_get :: "u8 list option \<Rightarrow> u16 \<Rightarrow> (ag_cluf_hdr \<times> u8 list) option" where
  "ag_cluf_get buf n =
     (case buf of None \<Rightarrow> None
      | Some b \<Rightarrow>
          if unat n < AG_CLUF_HDR then None
          else
            let h = \<lparr>h_op = b ! 0, h_flags = b ! 1, h_len = get_u16 (drop 2 b), h_a = get_u32 (drop 4 b),
                     h_b = get_u32 (drop 8 b), h_c = get_u32 (drop 12 b)\<rparr>
            in if unat (h_len h) + AG_CLUF_HDR > unat n then None else Some (h, drop AG_CLUF_HDR b))"

section \<open>Reassembly\<close>

record ag_cluf_slot =
  s_used :: bool
  s_from :: u32
  s_to :: u32
  s_total :: u32
  s_got :: u32
  s_buf :: "u8 list option"

record 'c ag_cluf_rx =
  r_slot :: "ag_cluf_slot list"
  r_ctx :: 'c
  r_dropped :: u32

type_synonym 'c alloc_fn = "(u32 \<Rightarrow> 'c \<Rightarrow> u8 list option \<times> 'c) option"
type_synonym 'c free_fn = "(u8 list \<Rightarrow> 'c \<Rightarrow> 'c) option"

definition empty_slot :: ag_cluf_slot where
  "empty_slot = \<lparr>s_used = False, s_from = 0, s_to = 0, s_total = 0, s_got = 0, s_buf = None\<rparr>"

definition count_drop :: "'c ag_cluf_rx \<Rightarrow> 'c ag_cluf_rx" where
  "count_drop rx = rx\<lparr>r_dropped := r_dropped rx + 1\<rparr>"

definition set_slot :: "'c ag_cluf_rx \<Rightarrow> nat \<Rightarrow> ag_cluf_slot \<Rightarrow> 'c ag_cluf_rx" where
  "set_slot rx i s = rx\<lparr>r_slot := (r_slot rx)[i := s]\<rparr>"

definition slot_drop :: "'c free_fn \<Rightarrow> 'c ag_cluf_rx \<Rightarrow> nat \<Rightarrow> 'c ag_cluf_rx" where
  "slot_drop free_fn rx i =
     (let rx1 = (case (s_buf (r_slot rx ! i), free_fn) of
                   (Some b, Some f) \<Rightarrow> rx\<lparr>r_ctx := f b (r_ctx rx)\<rparr>
                 | _ \<Rightarrow> rx)
      in set_slot rx1 i empty_slot)"

definition slot_find :: "'c ag_cluf_rx \<Rightarrow> u32 \<Rightarrow> u32 \<Rightarrow> nat option" where
  "slot_find rx from_tid to_tid =
     find (\<lambda>i. s_used (r_slot rx ! i) \<and> s_from (r_slot rx ! i) = from_tid \<and> s_to (r_slot rx ! i) = to_tid) [0..<AG_CLUF_SLOTS]"

definition ag_cluf_rx_reset :: "'c free_fn \<Rightarrow> 'c ag_cluf_rx option \<Rightarrow> 'c ag_cluf_rx option" where
  "ag_cluf_rx_reset free_fn rx = map_option (\<lambda>r. foldl (slot_drop free_fn) r [0..<AG_CLUF_SLOTS]) rx"

text \<open>A first fragment: a slot for it, with a buffer for the whole message.\<close>

definition rx_first :: "'c alloc_fn \<Rightarrow> 'c free_fn \<Rightarrow> 'c ag_cluf_rx \<Rightarrow> ag_cluf_hdr \<Rightarrow> nat option \<Rightarrow> nat ag_err \<times> 'c ag_cluf_rx" where
  "rx_first alloc_fn free_fn rx h s =
     (let rx1 = (case s of Some i \<Rightarrow> count_drop (slot_drop free_fn rx i) | None \<Rightarrow> rx);
          s1 = (case s of Some i \<Rightarrow> Some i | None \<Rightarrow> find (\<lambda>i. \<not> s_used (r_slot rx1 ! i)) [0..<AG_CLUF_SLOTS])
      in case s1 of
           None \<Rightarrow> (Inl AG_EBUSY, count_drop rx1)
         | Some i \<Rightarrow>
             if h_c h = 0 \<or> h_c h > AG_CLU_MSG_MAX then (Inl AG_ERANGE, count_drop rx1)
             else case (case alloc_fn of None \<Rightarrow> (None, r_ctx rx1) | Some f \<Rightarrow> f (h_c h) (r_ctx rx1)) of
                    (None, c) \<Rightarrow> (Inl AG_ENOMEM, count_drop (set_slot (rx1\<lparr>r_ctx := c\<rparr>) i empty_slot))
                  | (Some b, c) \<Rightarrow>
                      (Inr i, set_slot (rx1\<lparr>r_ctx := c\<rparr>) i
                         \<lparr>s_used = True, s_from = h_a h, s_to = h_b h, s_total = h_c h, s_got = 0, s_buf = Some b\<rparr>))"

text \<open>The bytes of a fragment into the slot's buffer.\<close>

definition store :: "ag_cluf_slot \<Rightarrow> u8 list option \<Rightarrow> nat \<Rightarrow> u8 list option" where
  "store s payload n =
     (case (s_buf s, payload) of
        (Some b, Some p) \<Rightarrow> Some (take (unat (s_got s)) b @ take n p @ drop (unat (s_got s) + n) b)
      | _ \<Rightarrow> s_buf s)"

text \<open>
  The result 0 is \<open>Inr None\<close>, 1 is \<open>Inr (Some m)\<close> with the message handed over: its buffer, its length,
  whom it is from and to.
\<close>

type_synonym message = "u8 list \<times> u32 \<times> u32 \<times> u32"

definition rx_more :: "'c free_fn \<Rightarrow> 'c ag_cluf_rx \<Rightarrow> ag_cluf_hdr \<Rightarrow> u8 list option \<Rightarrow> nat \<Rightarrow> message option ag_err \<times> 'c ag_cluf_rx" where
  "rx_more free_fn rx h payload i =
     (let s = r_slot rx ! i in
      if s_got s + ucast (h_len h) > s_total s then (Inl AG_ERANGE, count_drop (slot_drop free_fn rx i))
      else
        let s1 = s\<lparr>s_buf := store s payload (unat (h_len h)), s_got := s_got s + ucast (h_len h)\<rparr>;
            rx1 = set_slot rx i s1
        in if h_flags h AND AG_CLUF_F_LAST = 0 then (Inr None, rx1)
           else if s_got s1 \<noteq> s_total s1 then (Inl AG_EIO, count_drop (slot_drop free_fn rx1 i))
           else (Inr (Some (the (s_buf s1), s_total s1, s_from s1, s_to s1)), set_slot rx1 i empty_slot))"

definition rx_data :: "'c alloc_fn \<Rightarrow> 'c free_fn \<Rightarrow> 'c ag_cluf_rx \<Rightarrow> ag_cluf_hdr \<Rightarrow> u8 list option \<Rightarrow> message option ag_err \<times> 'c ag_cluf_rx" where
  "rx_data alloc_fn free_fn rx h payload =
     (if h_op h \<noteq> AG_CLUF_DATA then (Inl AG_EINVAL, rx)
      else if h_flags h AND AG_CLUF_F_FIRST \<noteq> 0 then
        (case rx_first alloc_fn free_fn rx h (slot_find rx (h_a h) (h_b h)) of
           (Inl e, rx1) \<Rightarrow> (Inl e, rx1)
         | (Inr i, rx1) \<Rightarrow> rx_more free_fn rx1 h payload i)
      else
        (case slot_find rx (h_a h) (h_b h) of
           None \<Rightarrow> (Inl AG_ENOENT, count_drop rx)
         | Some i \<Rightarrow> rx_more free_fn rx h payload i))"

definition ag_cluf_rx_data ::
  "'c alloc_fn \<Rightarrow> 'c free_fn \<Rightarrow> 'c ag_cluf_rx option \<Rightarrow> ag_cluf_hdr option \<Rightarrow> u8 list option \<Rightarrow> message option ag_err \<times> 'c ag_cluf_rx option" where
  "ag_cluf_rx_data alloc_fn free_fn rx h payload =
     (case (rx, h) of
        (Some r, Some f) \<Rightarrow> (case rx_data alloc_fn free_fn r f payload of (res, r1) \<Rightarrow> (res, Some r1))
      | _ \<Rightarrow> (Inl AG_EINVAL, rx))"

section \<open>Conversations\<close>

text \<open>What a slot holds for its conversation: the length announced and the bytes so far.\<close>

definition slot_key :: "ag_cluf_slot \<Rightarrow> u32 \<times> u32" where
  "slot_key s = (s_from s, s_to s)"

definition slot_view :: "ag_cluf_slot \<Rightarrow> nat \<times> u8 list" where
  "slot_view s = (unat (s_total s), take (unat (s_got s)) (the (s_buf s)))"

definition conv :: "'c ag_cluf_rx \<Rightarrow> u32 \<times> u32 \<Rightarrow> (nat \<times> u8 list) option" where
  "conv rx k = map_option (\<lambda>i. slot_view (r_slot rx ! i)) (slot_find rx (fst k) (snd k))"

definition slot_ok :: "ag_cluf_slot \<Rightarrow> bool" where
  "slot_ok s \<longleftrightarrow> (if s_used s then (\<exists>b. s_buf s = Some b \<and> length b = unat (s_total s)) \<and> s_got s \<le> s_total s \<and> s_total s \<le> AG_CLU_MSG_MAX
     else s = empty_slot)"

definition rx_inv :: "'c ag_cluf_rx \<Rightarrow> bool" where
  "rx_inv rx \<longleftrightarrow> length (r_slot rx) = AG_CLUF_SLOTS \<and> (\<forall>i < AG_CLUF_SLOTS. slot_ok (r_slot rx ! i)) \<and>
     (\<forall>i < AG_CLUF_SLOTS. \<forall>j < AG_CLUF_SLOTS. s_used (r_slot rx ! i) \<and> s_used (r_slot rx ! j) \<and>
        slot_key (r_slot rx ! i) = slot_key (r_slot rx ! j) \<longrightarrow> i = j)"

lemma slot_simps [simp]:
  "r_slot (count_drop rx) = r_slot rx" "r_ctx (count_drop rx) = r_ctx rx" "r_slot (set_slot rx i s) = (r_slot rx)[i := s]"
  "r_ctx (set_slot rx i s) = r_ctx rx" "r_slot (slot_drop f rx i) = (r_slot rx)[i := empty_slot]" "\<not> s_used empty_slot" "slot_ok empty_slot"
  by (simp_all add: count_drop_def set_slot_def slot_drop_def Let_def empty_slot_def slot_ok_def split: option.split)

lemma slot_find_SomeD:
  "slot_find rx a b = Some i \<Longrightarrow> i < AG_CLUF_SLOTS \<and> s_used (r_slot rx ! i) \<and> slot_key (r_slot rx ! i) = (a, b)"
  by (auto simp: slot_find_def slot_key_def find_Some_iff)

lemma slot_find_NoneD: "slot_find rx a b = None \<Longrightarrow> i < AG_CLUF_SLOTS \<Longrightarrow> s_used (r_slot rx ! i) \<Longrightarrow> slot_key (r_slot rx ! i) \<noteq> (a, b)"
  by (auto simp: slot_find_def slot_key_def find_None_iff)

lemma slot_find_at:
  assumes "rx_inv rx" and "i < AG_CLUF_SLOTS" and "s_used (r_slot rx ! i)" and "slot_key (r_slot rx ! i) = (a, b)"
  shows "slot_find rx a b = Some i"
proof (cases "slot_find rx a b")
  case None
  then show ?thesis using slot_find_NoneD assms(2-4) by metis
next
  case (Some j)
  from slot_find_SomeD [OF this] assms have "j = i" unfolding rx_inv_def by metis
  with Some show ?thesis by simp
qed

lemma conv_at: "rx_inv rx \<Longrightarrow> i < AG_CLUF_SLOTS \<Longrightarrow> s_used (r_slot rx ! i) \<Longrightarrow> conv rx (slot_key (r_slot rx ! i)) = Some (slot_view (r_slot rx ! i))"
  using slot_find_at [of rx i] by (simp add: conv_def slot_key_def)

lemma conv_none: "(\<And>i. i < AG_CLUF_SLOTS \<Longrightarrow> s_used (r_slot rx ! i) \<Longrightarrow> slot_key (r_slot rx ! i) \<noteq> k) \<Longrightarrow> conv rx k = None"
  using slot_find_SomeD [of rx "fst k" "snd k"] by (cases "slot_find rx (fst k) (snd k)") (auto simp: conv_def)

lemma conv_same_slots: "r_slot rx = r_slot rx' \<Longrightarrow> conv rx k = conv rx' k"
  by (simp add: conv_def slot_find_def)

lemma rx_inv_same_slots: "r_slot rx = r_slot rx' \<Longrightarrow> rx_inv rx = rx_inv rx'"
  by (simp add: rx_inv_def)

lemma rx_inv_set_slot:
  assumes inv: "rx_inv rx" and i: "i < AG_CLUF_SLOTS" and "slot_ok s"
    and "\<And>j. s_used s \<Longrightarrow> j < AG_CLUF_SLOTS \<Longrightarrow> j \<noteq> i \<Longrightarrow> s_used (r_slot rx ! j) \<Longrightarrow> slot_key (r_slot rx ! j) \<noteq> slot_key s"
  shows "rx_inv (set_slot rx i s)"
proof -
  have len: "length (r_slot rx) = AG_CLUF_SLOTS" using inv by (simp add: rx_inv_def)
  show ?thesis unfolding rx_inv_def
  proof (intro conjI allI impI)
    fix j assume "j < AG_CLUF_SLOTS"
    then show "slot_ok (r_slot (set_slot rx i s) ! j)"
      using inv assms(3) len by (cases "j = i") (auto simp: rx_inv_def)
  next
    fix j k assume j: "j < AG_CLUF_SLOTS" and k: "k < AG_CLUF_SLOTS"
      and u: "s_used (r_slot (set_slot rx i s) ! j) \<and> s_used (r_slot (set_slot rx i s) ! k) \<and>
        slot_key (r_slot (set_slot rx i s) ! j) = slot_key (r_slot (set_slot rx i s) ! k)"
    show "j = k"
    proof (cases "j = i \<or> k = i")
      case True
      then show ?thesis using u assms(4) j k len by (metis nth_list_update_eq nth_list_update_neq slot_simps(3))
    next
      case False
      then show ?thesis using u inv j k by (simp add: rx_inv_def)
    qed
  qed (use len in simp)
qed

lemma conv_set_slot:
  assumes inv: "rx_inv rx" and inv': "rx_inv (set_slot rx i s)" and i: "i < AG_CLUF_SLOTS"
  shows "conv (set_slot rx i s) k =
    (if s_used s \<and> slot_key s = k then Some (slot_view s)
     else if s_used (r_slot rx ! i) \<and> slot_key (r_slot rx ! i) = k then None else conv rx k)"
proof -
  have len: "length (r_slot rx) = AG_CLUF_SLOTS" using inv by (simp add: rx_inv_def)
  have at: "r_slot (set_slot rx i s) ! j = (if j = i then s else r_slot rx ! j)" for j using len i by simp
  consider (new) "s_used s \<and> slot_key s = k"
    | (old) j where "\<not> (s_used s \<and> slot_key s = k)" "j < AG_CLUF_SLOTS" "j \<noteq> i" "s_used (r_slot rx ! j)" "slot_key (r_slot rx ! j) = k"
    | (none) "\<not> (s_used s \<and> slot_key s = k)" "\<forall>j < AG_CLUF_SLOTS. j \<noteq> i \<longrightarrow> s_used (r_slot rx ! j) \<longrightarrow> slot_key (r_slot rx ! j) \<noteq> k"
    by blast
  then show ?thesis
  proof cases
    case new
    then show ?thesis using conv_at [OF inv' i] at [of i] by simp
  next
    case old
    have "conv (set_slot rx i s) k = Some (slot_view (r_slot rx ! j))" using conv_at [OF inv' old(2)] at [of j] old by simp
    moreover have "conv rx k = Some (slot_view (r_slot rx ! j))" using conv_at [OF inv old(2)] old by simp
    moreover have "\<not> (s_used (r_slot rx ! i) \<and> slot_key (r_slot rx ! i) = k)" using inv old i unfolding rx_inv_def by metis
    ultimately show ?thesis using old(1) by auto
  next
    case none
    have "conv (set_slot rx i s) k = None" by (rule conv_none) (use none at in \<open>auto split: if_splits\<close>)
    moreover have "conv rx k = None" if "\<not> (s_used (r_slot rx ! i) \<and> slot_key (r_slot rx ! i) = k)"
      by (rule conv_none) (use none that in metis)
    ultimately show ?thesis using none(1) by auto
  qed
qed

lemma slot_drop_set: "r_slot (slot_drop f rx i) = r_slot (set_slot rx i empty_slot)"
  by simp

lemma drop_inv:
  assumes "rx_inv rx" and "i < AG_CLUF_SLOTS"
  shows "rx_inv (slot_drop f rx i)" and "s_used (r_slot rx ! i) \<Longrightarrow> k \<noteq> slot_key (r_slot rx ! i) \<Longrightarrow> conv (slot_drop f rx i) k = conv rx k"
    and "s_used (r_slot rx ! i) \<Longrightarrow> conv (slot_drop f rx i) (slot_key (r_slot rx ! i)) = None"
proof -
  have e: "rx_inv (set_slot rx i empty_slot)" using assms by (rule rx_inv_set_slot) simp_all
  then show "rx_inv (slot_drop f rx i)" using rx_inv_same_slots [OF slot_drop_set] by blast
  have c: "conv (slot_drop f rx i) k = conv (set_slot rx i empty_slot) k" for k by (rule conv_same_slots [OF slot_drop_set])
  show "s_used (r_slot rx ! i) \<Longrightarrow> k \<noteq> slot_key (r_slot rx ! i) \<Longrightarrow> conv (slot_drop f rx i) k = conv rx k"
    and "s_used (r_slot rx ! i) \<Longrightarrow> conv (slot_drop f rx i) (slot_key (r_slot rx ! i)) = None"
    unfolding c conv_set_slot [OF assms(1) e assms(2)] by simp_all
qed

subsection \<open>One frame\<close>

text \<open>Adding to a slot touches its own conversation only; what it does to that one.\<close>

lemma rx_more_step:
  assumes inv: "rx_inv rx" and i: "i < AG_CLUF_SLOTS" and u: "s_used (r_slot rx ! i)" and k: "slot_key (r_slot rx ! i) = (h_a h, h_b h)"
    and pl: "\<And>p. payload = Some p \<Longrightarrow> length p = unat (h_len h)"
    and r: "rx_more free_fn rx h payload i = (res, rx')"
  shows "rx_inv rx'" and "k' \<noteq> (h_a h, h_b h) \<Longrightarrow> conv rx' k' = conv rx k'"
    and "conv rx (h_a h, h_b h) = Some (n, g) \<Longrightarrow> payload = Some p \<Longrightarrow> length g + length p \<le> n \<Longrightarrow> h_flags h AND AG_CLUF_F_LAST = 0 \<Longrightarrow>
      res = Inr None \<and> conv rx' (h_a h, h_b h) = Some (n, g @ p)"
    and "conv rx (h_a h, h_b h) = Some (n, g) \<Longrightarrow> payload = Some p \<Longrightarrow> length g + length p = n \<Longrightarrow> h_flags h AND AG_CLUF_F_LAST \<noteq> 0 \<Longrightarrow>
      res = Inr (Some (g @ p, word_of_nat n, h_a h, h_b h)) \<and> conv rx' (h_a h, h_b h) = None"
proof -
  define s where "s = r_slot rx ! i"
  define s1 where "s1 = s\<lparr>s_buf := store s payload (unat (h_len h)), s_got := s_got s + ucast (h_len h)\<rparr>"
  have ok: "slot_ok s" using inv i by (simp add: rx_inv_def s_def)
  then obtain b where b: "s_buf s = Some b" "length b = unat (s_total s)" and le: "s_got s \<le> s_total s" "s_total s \<le> AG_CLU_MSG_MAX"
    using u by (auto simp: slot_ok_def s_def)
  have len: "unat (h_len h) < 65536" using unsigned_less [of "h_len h", where ?'a = nat] by simp
  have uc: "unat (ucast (h_len h) :: u32) = unat (h_len h)" using len by (simp add: unsigned_ucast_eq take_bit_nat_eq_self)
  have tot: "unat (s_total s) \<le> 4096" using le(2) by (simp add: word_le_nat_alt AG_CLU_MSG_MAX_def)
  have sum: "unat (s_got s + ucast (h_len h)) = unat (s_got s) + unat (h_len h)"
    using le(1) tot len uc by (subst unat_add_no_wrap) (simp_all add: word_le_nat_alt)
  have view: "conv rx (h_a h, h_b h) = Some (slot_view s)" using conv_at [OF inv i u] k by (simp add: s_def)
  note eq = rx_more_def [of free_fn rx h payload i, unfolded Let_def, folded s_def, folded s1_def]
  show "rx_inv rx'" "k' \<noteq> (h_a h, h_b h) \<Longrightarrow> conv rx' k' = conv rx k'"
    "conv rx (h_a h, h_b h) = Some (n, g) \<Longrightarrow> payload = Some p \<Longrightarrow> length g + length p \<le> n \<Longrightarrow> h_flags h AND AG_CLUF_F_LAST = 0 \<Longrightarrow>
      res = Inr None \<and> conv rx' (h_a h, h_b h) = Some (n, g @ p)"
    "conv rx (h_a h, h_b h) = Some (n, g) \<Longrightarrow> payload = Some p \<Longrightarrow> length g + length p = n \<Longrightarrow> h_flags h AND AG_CLUF_F_LAST \<noteq> 0 \<Longrightarrow>
      res = Inr (Some (g @ p, word_of_nat n, h_a h, h_b h)) \<and> conv rx' (h_a h, h_b h) = None"
  proof -
    have big: "rx_inv rx' \<and> (k' \<noteq> (h_a h, h_b h) \<longrightarrow> conv rx' k' = conv rx k') \<and> \<not> unat (s_got s) + unat (h_len h) \<le> unat (s_total s)"
      if "s_got s + ucast (h_len h) > s_total s" for k'
    proof -
      have "rx' = count_drop (slot_drop free_fn rx i)" using r that by (simp add: eq)
      then have sl: "r_slot rx' = r_slot (slot_drop free_fn rx i)" by simp
      show ?thesis
        using drop_inv(1,2) [OF inv i] u k rx_inv_same_slots [OF sl] conv_same_slots [OF sl] that sum
        by (simp add: word_less_nat_alt)
    qed
    have small: "rx_inv rx' \<and> (k' \<noteq> (h_a h, h_b h) \<longrightarrow> conv rx' k' = conv rx k') \<and>
        (if h_flags h AND AG_CLUF_F_LAST = 0 then res = Inr None \<and> conv rx' (h_a h, h_b h) = Some (slot_view s1)
         else unat (s_got s) + unat (h_len h) = unat (s_total s) \<longrightarrow>
           res = Inr (Some (the (s_buf s1), s_total s, h_a h, h_b h)) \<and> conv rx' (h_a h, h_b h) = None)"
      if ns: "\<not> s_got s + ucast (h_len h) > s_total s" for k'
    proof -
      have st: "\<exists>b'. store s payload (unat (h_len h)) = Some b' \<and> length b' = unat (s_total s)"
        using b ns sum pl by (cases payload) (auto simp: store_def word_less_nat_alt)
      then have ok1: "slot_ok s1" using le ns sum u by (auto simp: slot_ok_def s1_def s_def [symmetric] word_less_nat_alt word_le_nat_alt)
      have key1: "slot_key s1 = (h_a h, h_b h)" "s_used s1" using k u by (simp_all add: slot_key_def s1_def s_def)
      have inv1: "rx_inv (set_slot rx i s1)"
      proof (rule rx_inv_set_slot [OF inv i ok1])
        fix j assume "j < AG_CLUF_SLOTS" "j \<noteq> i" "s_used (r_slot rx ! j)"
        then show "slot_key (r_slot rx ! j) \<noteq> slot_key s1" using inv i u k key1 unfolding rx_inv_def by metis
      qed
      note conv1 = conv_set_slot [OF inv inv1 i]
      have sl1: "r_slot (set_slot rx i s1) ! i = s1" using inv i by (simp add: rx_inv_def)
      show ?thesis
      proof (cases "h_flags h AND AG_CLUF_F_LAST = 0")
        case True
        then have "rx' = set_slot rx i s1" "res = Inr None" using r ns by (simp_all add: eq)
        then show ?thesis using inv1 conv1 key1 True k by auto
      next
        case False
        show ?thesis
        proof (cases "s_got s1 \<noteq> s_total s1")
          case True
          then have "rx' = count_drop (slot_drop free_fn (set_slot rx i s1) i)" using r ns False by (simp add: eq)
          then have sl: "r_slot rx' = r_slot (slot_drop free_fn (set_slot rx i s1) i)" by simp
          have d: "rx_inv (slot_drop free_fn (set_slot rx i s1) i)"
            "k' \<noteq> (h_a h, h_b h) \<Longrightarrow> conv (slot_drop free_fn (set_slot rx i s1) i) k' = conv (set_slot rx i s1) k'"
            using drop_inv(1,2) [OF inv1 i] sl1 key1 by simp_all
          have ng: "unat (s_got s) + unat (h_len h) \<noteq> unat (s_total s)"
            using True sum by (auto simp: s1_def word_unat_eq_iff)
          show ?thesis
            using d rx_inv_same_slots [OF sl] conv_same_slots [OF sl] conv1 key1 k False ng by auto
        next
          case all: False
          then have e: "rx' = set_slot (set_slot rx i s1) i empty_slot" "res = Inr (Some (the (s_buf s1), s_total s1, s_from s1, s_to s1))"
            using r ns False by (simp_all add: eq)
          have inv2: "rx_inv rx'" unfolding e by (rule rx_inv_set_slot [OF inv1 i]) simp_all
          show ?thesis
            using inv2 e conv_set_slot [OF inv1 inv2 [unfolded e(1)] i] sl1 key1 conv1 k False
            by (auto simp: s1_def slot_key_def s_def)
        qed
      qed
    qed
    show "rx_inv rx'" "k' \<noteq> (h_a h, h_b h) \<Longrightarrow> conv rx' k' = conv rx k'"
      using big [of k'] small [of k'] by auto
    assume c: "conv rx (h_a h, h_b h) = Some (n, g)" and p: "payload = Some p"
    have ng: "n = unat (s_total s)" "g = take (unat (s_got s)) b" using c view b by (simp_all add: slot_view_def)
    have lg: "length g = unat (s_got s)" using ng b le by (simp add: word_le_nat_alt)
    have lp: "length p = unat (h_len h)" by (rule pl [OF p])
    have st: "store s payload (unat (h_len h)) = Some (g @ p @ drop (unat (s_got s) + unat (h_len h)) b)"
      using b p lp ng by (simp add: store_def)
    have v1: "slot_view s1 = (n, g @ p)" using st sum lg lp ng by (simp add: slot_view_def s1_def)
    show "length g + length p \<le> n \<Longrightarrow> h_flags h AND AG_CLUF_F_LAST = 0 \<Longrightarrow> res = Inr None \<and> conv rx' (h_a h, h_b h) = Some (n, g @ p)"
      using big small lg lp ng v1 by auto
    assume full: "length g + length p = n"
    then have "drop (unat (s_got s) + unat (h_len h)) b = []" using lg lp ng b by simp
    then have "the (s_buf s1) = g @ p" using st by (simp add: s1_def)
    then show "h_flags h AND AG_CLUF_F_LAST \<noteq> 0 \<Longrightarrow> res = Inr (Some (g @ p, word_of_nat n, h_a h, h_b h)) \<and> conv rx' (h_a h, h_b h) = None"
      using big small full lg lp ng by auto
  qed
qed

text \<open>What the code relies on of the allocator: a buffer has the size asked for.\<close>

definition alloc_ok :: "'c alloc_fn \<Rightarrow> bool" where
  "alloc_ok a \<longleftrightarrow> (\<forall>f n c b c'. a = Some f \<and> f n c = (Some b, c') \<longrightarrow> length b = unat n)"

lemma rx_first_step:
  assumes inv: "rx_inv rx" and al: "alloc_ok alloc_fn" and r: "rx_first alloc_fn free_fn rx h (slot_find rx (h_a h) (h_b h)) = (res, rx')"
  shows "rx_inv rx'" and "k' \<noteq> (h_a h, h_b h) \<Longrightarrow> conv rx' k' = conv rx k'"
    and "res = Inr i \<Longrightarrow> i < AG_CLUF_SLOTS \<and> s_used (r_slot rx' ! i) \<and> slot_key (r_slot rx' ! i) = (h_a h, h_b h) \<and>
      conv rx' (h_a h, h_b h) = Some (unat (h_c h), [])"
proof -
  define s where "s = slot_find rx (h_a h) (h_b h)"
  define rx1 where "rx1 = (case s of Some i \<Rightarrow> count_drop (slot_drop free_fn rx i) | None \<Rightarrow> rx)"
  define s1 where "s1 = (case s of Some i \<Rightarrow> Some i | None \<Rightarrow> find (\<lambda>i. \<not> s_used (r_slot rx1 ! i)) [0..<AG_CLUF_SLOTS])"
  have one: "rx_inv rx1 \<and> (\<forall>k. k \<noteq> (h_a h, h_b h) \<longrightarrow> conv rx1 k = conv rx k) \<and> slot_find rx1 (h_a h) (h_b h) = None"
  proof (cases s)
    case None
    then show ?thesis using inv by (simp add: rx1_def s_def)
  next
    case (Some i)
    from slot_find_SomeD [OF Some [unfolded s_def]] have i: "i < AG_CLUF_SLOTS" "s_used (r_slot rx ! i)" "slot_key (r_slot rx ! i) = (h_a h, h_b h)"
      by simp_all
    have sl: "r_slot rx1 = r_slot (slot_drop free_fn rx i)" using Some by (simp add: rx1_def)
    have "conv rx1 (h_a h, h_b h) = None" unfolding conv_same_slots [OF sl] using drop_inv(3) [OF inv i(1,2)] i(3) by simp
    then have "slot_find rx1 (h_a h) (h_b h) = None" by (simp add: conv_def)
    then show ?thesis using drop_inv(1,2) [OF inv i(1)] i rx_inv_same_slots [OF sl] conv_same_slots [OF sl] by simp
  qed
  have ck: "k \<noteq> (h_a h, h_b h) \<Longrightarrow> conv rx1 k = conv rx k" for k using one by blast
  have free: "i < AG_CLUF_SLOTS \<and> \<not> s_used (r_slot rx1 ! i)" if "s1 = Some i" for i
  proof (cases s)
    case None
    then show ?thesis using that by (auto simp: s1_def find_Some_iff)
  next
    case (Some j)
    then have j: "j = i" "j < AG_CLUF_SLOTS" using that slot_find_SomeD [OF Some [unfolded s_def]] by (simp_all add: s1_def)
    have "length (r_slot rx) = AG_CLUF_SLOTS" using inv by (simp add: rx_inv_def)
    then show ?thesis using Some j by (simp add: rx1_def)
  qed
  note eq = rx_first_def [of alloc_fn free_fn rx h s, unfolded Let_def, folded rx1_def, folded s1_def]
  have all: "rx_inv rx' \<and> (k' \<noteq> (h_a h, h_b h) \<longrightarrow> conv rx' k' = conv rx k') \<and>
     (res = Inr i \<longrightarrow> i < AG_CLUF_SLOTS \<and> s_used (r_slot rx' ! i) \<and> slot_key (r_slot rx' ! i) = (h_a h, h_b h) \<and>
      conv rx' (h_a h, h_b h) = Some (unat (h_c h), []))" for k' i
  proof (cases "s1 = None \<or> h_c h = 0 \<or> h_c h > AG_CLU_MSG_MAX")
    case True
    then have e: "rx' = count_drop rx1" "\<And>i. res \<noteq> Inr i" using r unfolding s_def [symmetric] eq by (auto split: option.splits if_splits)
    then have sl: "r_slot rx' = r_slot rx1" by simp
    show ?thesis using one ck [of k'] rx_inv_same_slots [OF sl] conv_same_slots [OF sl] e(2) by simp
  next
    case False
    then obtain m where m: "s1 = Some m" by auto
    obtain ob c where oc: "(case alloc_fn of None \<Rightarrow> (None, r_ctx rx1) | Some f \<Rightarrow> f (h_c h) (r_ctx rx1)) = (ob, c)" by fastforce
    note f = free [OF m]
    show ?thesis
    proof (cases ob)
      case None
      have e: "rx' = count_drop (set_slot (rx1\<lparr>r_ctx := c\<rparr>) m empty_slot)" "\<And>i. res \<noteq> Inr i"
        using r False m oc None unfolding s_def [symmetric] eq by auto
      have "r_slot rx1 ! m = empty_slot" using f one unfolding rx_inv_def slot_ok_def by metis
      then have "(r_slot rx1)[m := empty_slot] = r_slot rx1" by (metis list_update_id)
      then have sl: "r_slot rx' = r_slot rx1" using e by simp
      show ?thesis using one ck [of k'] rx_inv_same_slots [OF sl] conv_same_slots [OF sl] e(2) by simp
    next
      case (Some b)
      let ?s = "\<lparr>s_used = True, s_from = h_a h, s_to = h_b h, s_total = h_c h, s_got = 0, s_buf = Some b\<rparr>"
      have e: "rx' = set_slot (rx1\<lparr>r_ctx := c\<rparr>) m ?s" "res = Inr m"
        using r False m oc Some unfolding s_def [symmetric] eq by auto
      have sl: "r_slot rx' = r_slot (set_slot rx1 m ?s)" using e by simp
      have len: "length (r_slot rx1) = AG_CLUF_SLOTS" using one by (simp add: rx_inv_def)
      have "length b = unat (h_c h)" using al oc Some by (auto simp: alloc_ok_def split: option.splits)
      then have ok: "slot_ok ?s" using False by (simp add: slot_ok_def not_less)
      have inv2: "rx_inv (set_slot rx1 m ?s)"
      proof (rule rx_inv_set_slot [OF _ _ ok])
        fix j assume "j < AG_CLUF_SLOTS" "s_used (r_slot rx1 ! j)"
        then show "slot_key (r_slot rx1 ! j) \<noteq> slot_key ?s" using slot_find_NoneD one by (auto simp: slot_key_def)
      qed (use one f in auto)
      note cv = conv_set_slot [OF _ inv2, of k'] conv_set_slot [OF _ inv2, of "(h_a h, h_b h)"]
      show ?thesis
        using one ck [of k'] inv2 f rx_inv_same_slots [OF sl] conv_same_slots [OF sl] cv e len
        by (auto simp: slot_key_def slot_view_def)
    qed
  qed
  then show "rx_inv rx'" "k' \<noteq> (h_a h, h_b h) \<Longrightarrow> conv rx' k' = conv rx k'"
    "res = Inr i \<Longrightarrow> i < AG_CLUF_SLOTS \<and> s_used (r_slot rx' ! i) \<and> slot_key (r_slot rx' ! i) = (h_a h, h_b h) \<and>
      conv rx' (h_a h, h_b h) = Some (unat (h_c h), [])"
    by blast+
qed


definition is_first :: "ag_cluf_hdr \<Rightarrow> bool" where
  "is_first h \<longleftrightarrow> h_flags h AND AG_CLUF_F_FIRST \<noteq> 0"

definition is_last :: "ag_cluf_hdr \<Rightarrow> bool" where
  "is_last h \<longleftrightarrow> h_flags h AND AG_CLUF_F_LAST \<noteq> 0"

lemma rx_data_inv:
  assumes inv: "rx_inv rx" and al: "alloc_ok a" and p: "length p = unat (h_len h)" and r: "rx_data a f rx h (Some p) = (res, rx')"
  shows "rx_inv rx'" and "h_op h \<noteq> AG_CLUF_DATA \<or> k \<noteq> (h_a h, h_b h) \<Longrightarrow> conv rx' k = conv rx k"
proof -
  have "rx_inv rx' \<and> (h_op h \<noteq> AG_CLUF_DATA \<or> k \<noteq> (h_a h, h_b h) \<longrightarrow> conv rx' k = conv rx k)"
  proof (cases "h_op h \<noteq> AG_CLUF_DATA")
    case True
    then show ?thesis using r inv by (simp add: rx_data_def)
  next
    case data: False
    show ?thesis
    proof (cases "h_flags h AND AG_CLUF_F_FIRST \<noteq> 0")
      case True
      obtain r1 rx1 where f: "rx_first a f rx h (slot_find rx (h_a h) (h_b h)) = (r1, rx1)" by fastforce
      note fs = rx_first_step [OF inv al f]
      show ?thesis
      proof (cases r1)
        case (Inl e)
        then have "rx' = rx1" using r data True f by (simp add: rx_data_def)
        then show ?thesis using fs(1,2) data by simp
      next
        case (Inr i)
        then have m: "rx_more f rx1 h (Some p) i = (res, rx')" using r data True f by (simp add: rx_data_def)
        note i = fs(3) [OF Inr]
        from rx_more_step(1,2) [OF fs(1) _ _ _ _ m] i p fs(2) data show ?thesis by simp
      qed
    next
      case False
      show ?thesis
      proof (cases "slot_find rx (h_a h) (h_b h)")
        case None
        then have "r_slot rx' = r_slot rx" using r data False by (auto simp: rx_data_def)
        then show ?thesis using inv rx_inv_same_slots conv_same_slots by metis
      next
        case (Some i)
        then have m: "rx_more f rx h (Some p) i = (res, rx')" using r data False by (simp add: rx_data_def)
        from rx_more_step(1,2) [OF inv _ _ _ _ m] slot_find_SomeD [OF Some] p data show ?thesis by simp
      qed
    qed
  qed
  then show "rx_inv rx'" and "h_op h \<noteq> AG_CLUF_DATA \<or> k \<noteq> (h_a h, h_b h) \<Longrightarrow> conv rx' k = conv rx k" by blast+
qed

lemma rx_data_own:
  assumes inv: "rx_inv rx" and p: "length p = unat (h_len h)" and "h_op h = AG_CLUF_DATA" and "\<not> is_first h"
    and c: "conv rx (h_a h, h_b h) = Some (n, g)" and r: "rx_data a f rx h (Some p) = (res, rx')"
  shows "length g + length p \<le> n \<Longrightarrow> \<not> is_last h \<Longrightarrow> res = Inr None \<and> conv rx' (h_a h, h_b h) = Some (n, g @ p)"
    and "length g + length p = n \<Longrightarrow> is_last h \<Longrightarrow> res = Inr (Some (g @ p, word_of_nat n, h_a h, h_b h))"
proof -
  obtain i where i: "slot_find rx (h_a h) (h_b h) = Some i" using c by (auto simp: conv_def)
  have m: "rx_more f rx h (Some p) i = (res, rx')" using r assms(3,4) i by (simp add: rx_data_def is_first_def)
  note st = rx_more_step(3,4) [OF inv _ _ _ _ m c refl] and fi = slot_find_SomeD [OF i]
  show "length g + length p \<le> n \<Longrightarrow> \<not> is_last h \<Longrightarrow> res = Inr None \<and> conv rx' (h_a h, h_b h) = Some (n, g @ p)"
    and "length g + length p = n \<Longrightarrow> is_last h \<Longrightarrow> res = Inr (Some (g @ p, word_of_nat n, h_a h, h_b h))"
    using st fi p by (simp_all add: is_last_def)
qed

lemma rx_data_first:
  assumes inv: "rx_inv rx" and al: "alloc_ok a" and p: "length p = unat (h_len h)" and "h_op h = AG_CLUF_DATA" and "is_first h"
    and "\<not> is_last h" and r: "rx_data a f rx h (Some p) = (Inr res, rx')" and "length p \<le> unat (h_c h)"
  shows "conv rx' (h_a h, h_b h) = Some (unat (h_c h), p)"
proof -
  obtain r1 rx1 where f: "rx_first a f rx h (slot_find rx (h_a h) (h_b h)) = (r1, rx1)" by fastforce
  note fs = rx_first_step [OF inv al f]
  obtain i where i: "r1 = Inr i" using r assms(4,5) f by (cases r1) (auto simp: rx_data_def is_first_def)
  then have m: "rx_more f rx1 h (Some p) i = (Inr res, rx')" using r assms(4,5) f by (simp add: rx_data_def is_first_def)
  have "conv rx1 (h_a h, h_b h) = Some (unat (h_c h), [])" using fs(3) [OF i] by simp
  from rx_more_step(3) [OF fs(1) _ _ _ _ m this refl] fs(3) [OF i] p assms(6,8) show ?thesis by (simp add: is_last_def)
qed

subsection \<open>Many frames\<close>

type_synonym frame = "ag_cluf_hdr \<times> u8 list"

fun rx_run :: "'c alloc_fn \<Rightarrow> 'c free_fn \<Rightarrow> 'c ag_cluf_rx \<Rightarrow> frame list \<Rightarrow> message option ag_err list \<times> 'c ag_cluf_rx" where
  "rx_run a f rx [] = ([], rx)"
| "rx_run a f rx ((h, p) # fs) =
     (case rx_data a f rx h (Some p) of (res, rx1) \<Rightarrow> (case rx_run a f rx1 fs of (rs, rx2) \<Rightarrow> (res # rs, rx2)))"

definition rx_init :: "'c \<Rightarrow> 'c ag_cluf_rx" where
  "rx_init c = \<lparr>r_slot = replicate AG_CLUF_SLOTS empty_slot, r_ctx = c, r_dropped = 0\<rparr>"

text \<open>A frame as it comes out of \<open>ag_cluf_get\<close>: its payload is as long as its header says.\<close>

definition framed :: "frame \<Rightarrow> bool" where
  "framed fr \<longleftrightarrow> length (snd fr) = unat (h_len (fst fr))"

definition own :: "u32 \<times> u32 \<Rightarrow> frame \<Rightarrow> bool" where
  "own k fr \<longleftrightarrow> h_op (fst fr) = AG_CLUF_DATA \<and> (h_a (fst fr), h_b (fst fr)) = k"

lemma rx_init_inv: "rx_inv (rx_init c)"
  by (simp add: rx_inv_def rx_init_def)

lemma rx_run_inv: "rx_run a f rx fs = (rs, rx') \<Longrightarrow> rx_inv rx \<Longrightarrow> alloc_ok a \<Longrightarrow> \<forall>fr \<in> set fs. framed fr \<Longrightarrow> rx_inv rx'"
proof (induction a f rx fs arbitrary: rs rule: rx_run.induct)
  case (2 a f rx h p fs)
  then show ?case using rx_data_inv(1) [of rx a p h f] by (auto simp: framed_def split: prod.splits)
qed simp

lemma rx_run_own:
  "rx_run a f rx fs = (rs, rx') \<Longrightarrow> rx_inv rx \<Longrightarrow> alloc_ok a \<Longrightarrow> \<forall>fr \<in> set fs. framed fr \<Longrightarrow>
   \<forall>fr \<in> set fs. own k fr \<longrightarrow> \<not> is_first (fst fr) \<and> \<not> is_last (fst fr) \<Longrightarrow> conv rx k = Some (n, g) \<Longrightarrow>
   length g + length (concat (map snd (filter (own k) fs))) \<le> n \<Longrightarrow>
   conv rx' k = Some (n, g @ concat (map snd (filter (own k) fs)))"
proof (induction a f rx fs arbitrary: rs g rule: rx_run.induct)
  case (2 a f rx h p fs)
  obtain res rx1 where s: "rx_data a f rx h (Some p) = (res, rx1)" by fastforce
  obtain rs1 where t: "rx_run a f rx1 fs = (rs1, rx')" using 2(2) s by (auto split: prod.splits)
  have p: "length p = unat (h_len h)" using 2(5) by (simp add: framed_def)
  have inv1: "rx_inv rx1" by (rule rx_data_inv(1) [OF 2(3,4) p s])
  note IH = 2(1) [OF s [symmetric] t inv1 2(4)]
  show ?case
  proof (cases "own k (h, p)")
    case True
    then have o: "h_op h = AG_CLUF_DATA" "k = (h_a h, h_b h)" by (auto simp: own_def)
    have nf: "\<not> is_first h" "\<not> is_last h" using 2(6) True by auto
    have "conv rx1 k = Some (n, g @ p)"
      using rx_data_own(1) [OF 2(3) p o(1) nf(1) _ s] 2(7,8) o(2) nf(2) True by simp
    from IH [OF _ _ this] 2(5,6,8) True show ?thesis by simp
  next
    case False
    then have "conv rx1 k = Some (n, g)" using rx_data_inv(2) [OF 2(3,4) p s, of k] 2(7) by (auto simp: own_def)
    from IH [OF _ _ this] 2(5,6,8) False show ?thesis by simp
  qed
qed simp

subsection \<open>Buffers\<close>

definition held :: "'c ag_cluf_rx \<Rightarrow> int" where
  "held rx = int (length (filter s_used (r_slot rx)))"

text \<open>The buffers handed over by the results of some frames.\<close>

fun delivered :: "message option ag_err list \<Rightarrow> int" where
  "delivered [] = 0"
| "delivered (Inr (Some m) # rs) = 1 + delivered rs"
| "delivered (Inr None # rs) = delivered rs"
| "delivered (Inl e # rs) = delivered rs"

text \<open>How many buffers are live, as the allocator's context counts them.\<close>

definition counts :: "'c alloc_fn \<Rightarrow> 'c free_fn \<Rightarrow> ('c \<Rightarrow> int) \<Rightarrow> bool" where
  "counts a f live \<longleftrightarrow>
     (\<forall>g n c b c'. a = Some g \<and> g n c = (b, c') \<longrightarrow> live c' = live c + (if b = None then 0 else 1)) \<and>
     (\<exists>g. f = Some g \<and> (\<forall>b c. live (g b c) = live c - 1))"

lemma filter_update: "i < length xs \<Longrightarrow>
  int (length (filter P (xs[i := s]))) = int (length (filter P xs)) + (if P s then 1 else 0) - (if P (xs ! i) then 1 else 0)"
proof (induction xs arbitrary: i)
  case (Cons x xs)
  show ?case
  proof (cases i)
    case (Suc j)
    then show ?thesis using Cons.IH [of j] Cons.prems by auto
  qed auto
qed simp

lemma held_set_slot: "i < length (r_slot rx) \<Longrightarrow>
  held (set_slot rx i s) = held rx + (if s_used s then 1 else 0) - (if s_used (r_slot rx ! i) then 1 else 0)"
  by (simp add: held_def filter_update)

lemma held_count_drop [simp]: "held (count_drop rx) = held rx"
  by (simp add: held_def)

text \<open>The balance: live buffers that no slot holds.\<close>

definition balance :: "('c \<Rightarrow> int) \<Rightarrow> 'c ag_cluf_rx \<Rightarrow> int" where
  "balance live rx = live (r_ctx rx) - held rx"

lemma balance_drop:
  assumes "counts a f live" and "rx_inv rx" and "i < AG_CLUF_SLOTS"
  shows "balance live (slot_drop f rx i) = balance live rx"
proof -
  have ok: "slot_ok (r_slot rx ! i)" and len: "i < length (r_slot rx)" using assms(2,3) by (simp_all add: rx_inv_def)
  obtain g where g: "f = Some g" "\<And>b c. live (g b c) = live c - 1" using assms(1) by (auto simp: counts_def)
  have h: "held (slot_drop f rx i) = held rx - (if s_used (r_slot rx ! i) then 1 else 0)"
    using filter_update [OF len, of s_used empty_slot] by (simp add: held_def)
  show ?thesis
  proof (cases "s_used (r_slot rx ! i)")
    case True
    then obtain b where "s_buf (r_slot rx ! i) = Some b" using ok by (auto simp: slot_ok_def)
    then have "r_ctx (slot_drop f rx i) = g b (r_ctx rx)" by (simp add: slot_drop_def g(1) set_slot_def)
    then show ?thesis using g(2) h True by (simp add: balance_def)
  next
    case False
    then have "s_buf (r_slot rx ! i) = None" using ok by (simp add: slot_ok_def empty_slot_def)
    then have "r_ctx (slot_drop f rx i) = r_ctx rx" by (simp add: slot_drop_def)
    then show ?thesis using h False by (simp add: balance_def)
  qed
qed

lemma balance_same [simp]: "balance live (count_drop rx) = balance live rx"
  by (simp add: balance_def held_def)

lemma balance_more:
  assumes c: "counts a f live" and inv: "rx_inv rx" and i: "i < AG_CLUF_SLOTS" and u: "s_used (r_slot rx ! i)"
    and k: "slot_key (r_slot rx ! i) = (h_a h, h_b h)" and p: "length p = unat (h_len h)"
    and r: "rx_more f rx h (Some p) i = (res, rx')"
  shows "balance live rx' = balance live rx + delivered [res]"
proof -
  define s where "s = r_slot rx ! i"
  define s1 where "s1 = s\<lparr>s_buf := store s (Some p) (unat (h_len h)), s_got := s_got s + ucast (h_len h)\<rparr>"
  note eq = rx_more_def [of f rx h "Some p" i, unfolded Let_def, folded s_def, folded s1_def]
  have len: "length (r_slot rx) = AG_CLUF_SLOTS" using inv by (simp add: rx_inv_def)
  have u1: "s_used s1" using u by (simp add: s1_def s_def)
  have b1: "balance live (set_slot rx i s1) = balance live rx" using i u u1 len held_set_slot [of i rx s1] by (simp add: balance_def)
  show ?thesis
  proof (cases "s_got s + ucast (h_len h) > s_total s")
    case True
    then have "rx' = count_drop (slot_drop f rx i)" "res = Inl AG_ERANGE" using r by (simp_all add: eq)
    then show ?thesis using balance_drop [OF c inv i] by simp
  next
    case ns: False
    show ?thesis
    proof (cases "h_flags h AND AG_CLUF_F_LAST = 0")
      case True
      then have "rx' = set_slot rx i s1" "res = Inr None" using r ns by (simp_all add: eq)
      then show ?thesis using b1 by simp
    next
      case False
      show ?thesis
      proof (cases "s_got s1 \<noteq> s_total s1")
        case True
        have e: "rx' = count_drop (slot_drop f (set_slot rx i s1) i)" "res = Inl AG_EIO" using r ns False True by (simp_all add: eq)
        have "rx_more f rx (h\<lparr>h_flags := 0\<rparr>) (Some p) i = (Inr None, set_slot rx i s1)"
          using ns by (simp add: rx_more_def Let_def s1_def s_def)
        from rx_more_step(1) [OF inv i u _ _ this] k p have "rx_inv (set_slot rx i s1)" by simp
        then show ?thesis using balance_drop [OF c _ i] b1 e by simp
      next
        case all: False
        then have e: "rx' = set_slot (set_slot rx i s1) i empty_slot" "res = Inr (Some (the (s_buf s1), s_total s1, s_from s1, s_to s1))"
          using r ns False by (simp_all add: eq)
        then show ?thesis
          using b1 len i u1 held_set_slot [of i "set_slot rx i s1" empty_slot] by (simp add: balance_def)
      qed
    qed
  qed
qed

lemma balance_first:
  assumes c: "counts a f live" and inv: "rx_inv rx" and r: "rx_first a f rx h (slot_find rx (h_a h) (h_b h)) = (res, rx')"
  shows "balance live rx' = balance live rx"
proof -
  define s where "s = slot_find rx (h_a h) (h_b h)"
  define rx1 where "rx1 = (case s of Some i \<Rightarrow> count_drop (slot_drop f rx i) | None \<Rightarrow> rx)"
  define s1 where "s1 = (case s of Some i \<Rightarrow> Some i | None \<Rightarrow> find (\<lambda>i. \<not> s_used (r_slot rx1 ! i)) [0..<AG_CLUF_SLOTS])"
  note eq = rx_first_def [of a f rx h s, unfolded Let_def, folded rx1_def, folded s1_def]
  have len: "length (r_slot rx) = AG_CLUF_SLOTS" using inv by (simp add: rx_inv_def)
  have b1: "balance live rx1 = balance live rx" "length (r_slot rx1) = AG_CLUF_SLOTS"
  proof -
    have "balance live (slot_drop f rx i) = balance live rx" if "s = Some i" for i
      using balance_drop [OF c inv] slot_find_SomeD that unfolding s_def by blast
    then show "balance live rx1 = balance live rx" "length (r_slot rx1) = AG_CLUF_SLOTS"
      using len by (auto simp: rx1_def split: option.split)
  qed
  have fr: "m < AG_CLUF_SLOTS \<and> \<not> s_used (r_slot rx1 ! m)" if m: "s1 = Some m" for m
  proof (cases s)
    case None
    then show ?thesis using m by (auto simp: s1_def find_Some_iff)
  next
    case (Some j)
    then show ?thesis using m slot_find_SomeD [OF Some [unfolded s_def]] len by (auto simp: s1_def rx1_def)
  qed
  show ?thesis
  proof (cases "s1 = None \<or> h_c h = 0 \<or> h_c h > AG_CLU_MSG_MAX")
    case True
    then have "rx' = count_drop rx1" using r unfolding s_def [symmetric] eq by (auto split: option.splits if_splits)
    then show ?thesis using b1 by simp
  next
    case False
    then obtain m where m: "s1 = Some m" by auto
    obtain ob c' where oc: "(case a of None \<Rightarrow> (None, r_ctx rx1) | Some g \<Rightarrow> g (h_c h) (r_ctx rx1)) = (ob, c')" by fastforce
    have live: "live c' = live (r_ctx rx1) + (if ob = None then 0 else 1)"
      using c oc by (auto simp: counts_def split: option.splits)
    have held: "held (set_slot (rx1\<lparr>r_ctx := c'\<rparr>) m t) = held rx1 + (if s_used t then 1 else 0)" for t
      using held_set_slot [of m "rx1\<lparr>r_ctx := c'\<rparr>" t] fr [OF m] b1(2) by (simp add: held_def)
    show ?thesis
    proof (cases ob)
      case None
      have "rx' = count_drop (set_slot (rx1\<lparr>r_ctx := c'\<rparr>) m empty_slot)"
        using r False m oc None unfolding s_def [symmetric] eq by auto
      then show ?thesis using live None held [of empty_slot] b1(1) by (simp add: balance_def)
    next
      case (Some b)
      let ?t = "\<lparr>s_used = True, s_from = h_a h, s_to = h_b h, s_total = h_c h, s_got = 0, s_buf = Some b\<rparr>"
      have "rx' = set_slot (rx1\<lparr>r_ctx := c'\<rparr>) m ?t"
        using r False m oc Some unfolding s_def [symmetric] eq by auto
      then show ?thesis using live Some held [of ?t] b1(1) by (simp add: balance_def)
    qed
  qed
qed

lemma balance_data:
  assumes c: "counts a f live" and al: "alloc_ok a" and inv: "rx_inv rx" and p: "length p = unat (h_len h)"
    and r: "rx_data a f rx h (Some p) = (res, rx')"
  shows "balance live rx' = balance live rx + delivered [res]"
proof (cases "h_op h \<noteq> AG_CLUF_DATA")
  case True
  then show ?thesis using r by (auto simp: rx_data_def)
next
  case data: False
  show ?thesis
  proof (cases "h_flags h AND AG_CLUF_F_FIRST \<noteq> 0")
    case True
    obtain r1 rx1 where f: "rx_first a f rx h (slot_find rx (h_a h) (h_b h)) = (r1, rx1)" by fastforce
    note fs = rx_first_step [OF inv al f] and bf = balance_first [OF c inv f]
    show ?thesis
    proof (cases r1)
      case (Inl e)
      then show ?thesis using r data True f bf by (auto simp: rx_data_def)
    next
      case (Inr i)
      then have m: "rx_more f rx1 h (Some p) i = (res, rx')" using r data True f by (simp add: rx_data_def)
      from balance_more [OF c fs(1) _ _ _ p m] fs(3) [OF Inr] bf show ?thesis by simp
    qed
  next
    case False
    show ?thesis
    proof (cases "slot_find rx (h_a h) (h_b h)")
      case None
      then show ?thesis using r data False by (auto simp: rx_data_def)
    next
      case (Some i)
      then have m: "rx_more f rx h (Some p) i = (res, rx')" using r data False by (simp add: rx_data_def)
      from balance_more [OF c inv _ _ _ p m] slot_find_SomeD [OF Some] show ?thesis by simp
    qed
  qed
qed

lemma delivered_Cons: "delivered (r # rs) = delivered [r] + delivered rs"
  by (cases r; simp) (rename_tac m, case_tac m; simp)

lemma balance_run:
  "rx_run a f rx fs = (rs, rx') \<Longrightarrow> rx_inv rx \<Longrightarrow> counts a f live \<Longrightarrow> alloc_ok a \<Longrightarrow> \<forall>fr \<in> set fs. framed fr \<Longrightarrow>
   balance live rx' = balance live rx + delivered rs"
proof (induction a f rx fs arbitrary: rs rule: rx_run.induct)
  case (2 a f rx h p fs)
  obtain res rx1 where s: "rx_data a f rx h (Some p) = (res, rx1)" by fastforce
  obtain rs1 where t: "rx_run a f rx1 fs = (rs1, rx')" "rs = res # rs1" using 2(2) s by (auto split: prod.splits)
  have p: "length p = unat (h_len h)" using 2(6) by (simp add: framed_def)
  have "balance live rx1 = balance live rx + delivered [res]" by (rule balance_data [OF 2(4,5,3) p s])
  moreover have "balance live rx' = balance live rx1 + delivered rs1"
    using 2(1) [OF s [symmetric] t(1) rx_data_inv(1) [OF 2(3,5) p s] 2(4,5)] 2(6) by simp
  ultimately show ?case using delivered_Cons [of res rs1] t(2) by simp
qed simp

section \<open>Properties\<close>

text \<open>
  C11. A message comes out as it went in, however its fragments are interleaved with others'. After any
  frames, a first fragment is accepted; then any other frames come, of any other conversation and any kind, and
  among them the next fragments of this one; when the last fragment comes and the fragments make up the length that
  was announced, exactly the message is handed over, under the numbers of its sender and receiver.
\<close>

theorem cluf_reassembly:
  assumes al: "alloc_ok a" and fr: "\<forall>fr \<in> set (before @ (h1, p1) # between @ [(hn, pn)]). framed fr"
    and "rx_run a f (rx_init c) before = (rsb, rx0)" and s1: "rx_data a f rx0 h1 (Some p1) = (Inr None, rx1)"
    and s2: "rx_run a f rx1 between = (rs, rx2)"
    and o1: "own k (h1, p1)" "is_first h1" "\<not> is_last h1" and on: "own k (hn, pn)" "\<not> is_first hn" "is_last hn"
    and mid: "\<forall>fr \<in> set between. own k fr \<longrightarrow> \<not> is_first (fst fr) \<and> \<not> is_last (fst fr)"
    and m: "p1 @ concat (map snd (filter (own k) between)) @ pn = m" and "unat (h_c h1) = length m"
  shows "fst (rx_data a f rx2 hn (Some pn)) = Inr (Some (m, h_c h1, fst k, snd k))"
proof -
  have inv0: "rx_inv rx0" using rx_run_inv [OF assms(3) rx_init_inv al] fr by simp
  have p1: "length p1 = unat (h_len h1)" and pn: "length pn = unat (h_len hn)" using fr by (simp_all add: framed_def)
  have k: "k = (h_a h1, h_b h1)" "k = (h_a hn, h_b hn)" "h_op h1 = AG_CLUF_DATA" "h_op hn = AG_CLUF_DATA" using o1 on by (auto simp: own_def)
  have inv1: "rx_inv rx1" by (rule rx_data_inv(1) [OF inv0 al p1 s1])
  have len: "length m = length p1 + (length (concat (map snd (filter (own k) between))) + length pn)"
    unfolding m [symmetric] by simp
  have c1: "conv rx1 k = Some (length m, p1)"
    using rx_data_first [OF inv0 al p1 k(3) o1(2,3) s1] assms(14) k(1) len by simp
  have c2: "conv rx2 k = Some (length m, p1 @ concat (map snd (filter (own k) between)))"
    by (rule rx_run_own [OF s2 inv1 al _ mid c1]) (use fr len in auto)
  have inv2: "rx_inv rx2" using rx_run_inv [OF s2 inv1 al] fr by simp
  obtain res rx3 where s3: "rx_data a f rx2 hn (Some pn) = (res, rx3)" by fastforce
  have "h_c h1 = word_of_nat (length m)" by (simp flip: assms(14))
  then show ?thesis
    using rx_data_own(2) [OF inv2 pn k(4) on(2) _ s3] c2 k(2) len on(3) s3 m by simp
qed


definition plain_alloc :: "int alloc_fn" where
  "plain_alloc = Some (\<lambda>n c. (Some (replicate (unat n) 0), c + 1))"

definition plain_free :: "int free_fn" where
  "plain_free = Some (\<lambda>b c. c - 1)"

definition demo_hdr :: "u8 \<Rightarrow> nat \<Rightarrow> u32 \<Rightarrow> ag_cluf_hdr" where
  "demo_hdr fl n a = \<lparr>h_op = 3, h_flags = fl, h_len = word_of_nat n, h_a = a, h_b = 9, h_c = 3\<rparr>"

lemmas cluf_simps = plain_alloc_def plain_free_def demo_hdr_def alloc_ok_def counts_def framed_def own_def is_first_def is_last_def
  AG_CLUF_DATA_def AG_CLUF_F_FIRST_def AG_CLUF_F_LAST_def AG_CLUF_SLOTS_def AG_CLU_MSG_MAX_def

text \<open>Two senders, one fragment of each before the first message ends.\<close>

theorem cluf_reassembly_witness:
  "fst (rx_data plain_alloc plain_free
     (snd (rx_run plain_alloc plain_free (snd (rx_data plain_alloc plain_free (rx_init 0) (demo_hdr 1 1 7) (Some [1]))) [(demo_hdr 1 1 8, [5])]))
     (demo_hdr 2 2 7) (Some [2, 3])) = Inr (Some ([1, 2, 3], 3, 7, 9))"
proof -
  have s1: "rx_data plain_alloc plain_free (rx_init 0) (demo_hdr 1 1 7) (Some [1]) =
      (Inr None, snd (rx_data plain_alloc plain_free (rx_init 0) (demo_hdr 1 1 7) (Some [1])))" by code_simp
  obtain rs rx2 where s2: "rx_run plain_alloc plain_free (snd (rx_data plain_alloc plain_free (rx_init 0) (demo_hdr 1 1 7) (Some [1]))) [(demo_hdr 1 1 8, [5])] = (rs, rx2)"
    by fastforce
  have "fst (rx_data plain_alloc plain_free rx2 (demo_hdr 2 2 7) (Some [2, 3])) = Inr (Some ([1, 2, 3], h_c (demo_hdr 1 1 7), fst (7 :: u32, 9 :: u32), snd (7 :: u32, 9 :: u32)))"
    by (rule cluf_reassembly [OF _ _ _ s1 s2, where before = "[]" and c = 0 and rsb = "[]"]) (auto simp: cluf_simps)
  then show ?thesis unfolding s2 by (simp add: demo_hdr_def)
qed

text \<open>
  C26. No buffer is lost and none is freed twice. After any frames, the live buffers are those held by the
  slots and those that were handed over, and no others: every abandoned message was freed once.
\<close>

theorem cluf_no_leak:
  assumes "alloc_ok a" and "counts a f live" and "\<forall>fr \<in> set fs. framed fr" and "rx_run a f (rx_init c) fs = (rs, rx)"
  shows "live (r_ctx rx) = live c + held rx + delivered rs"
  using balance_run [OF assms(4) rx_init_inv assms(2,1,3)] by (simp add: balance_def held_def rx_init_def)

theorem cluf_no_leak_witness:
  "case rx_run plain_alloc plain_free (rx_init 0) [(demo_hdr 1 1 7, [1]), (demo_hdr 1 1 7, [1])] of (rs, rx) \<Rightarrow>
     r_ctx rx = held rx + delivered rs"
  using cluf_no_leak [of plain_alloc plain_free "\<lambda>c. c" "[(demo_hdr 1 1 7, [1]), (demo_hdr 1 1 7, [1])]" 0]
  by (auto simp: cluf_simps split: prod.split)

lemma low_byte: "(ucast (v AND 0xff) :: u8) = ucast (v :: u16)" "(ucast (w AND 0xff) :: u8) = ucast (w :: u32)"
proof -
  have m: "(0xff :: u16) = mask 8" "(0xff :: u32) = mask 8" by (simp_all add: mask_eq_exp_minus_1)
  show "(ucast (v AND 0xff) :: u8) = ucast v" unfolding m by (rule bit_word_eqI) (simp add: bit_simps)
  show "(ucast (w AND 0xff) :: u8) = ucast w" unfolding m by (rule bit_word_eqI) (simp add: bit_simps)
qed

lemma get_put_u16: "get_u16 (put_u16 v @ r) = v"
  unfolding get_u16_def put_u16_def low_byte by (rule bit_word_eqI) (auto simp: bit_simps not_le)

lemma get_put_u32: "get_u32 (put_u32 v @ r) = v"
  unfolding get_u32_def put_u32_def low_byte
proof (rule bit_word_eqI)
  fix n assume "n < LENGTH(32)"
  then consider "n < 8" | "8 \<le> n" "n < 16" | "16 \<le> n" "n < 24" | "24 \<le> n" "n < 32" by fastforce
  then show "bit (ucast (([ucast v, ucast (drop_bit 8 v), ucast (drop_bit 16 v), ucast (drop_bit 24 v)] @ r) ! 0) OR
      push_bit 8 (ucast (([ucast v, ucast (drop_bit 8 v), ucast (drop_bit 16 v), ucast (drop_bit 24 v)] @ r) ! 1)) OR
      push_bit 16 (ucast (([ucast v, ucast (drop_bit 8 v), ucast (drop_bit 16 v), ucast (drop_bit 24 v)] @ r) ! 2)) OR
      push_bit 24 (ucast (([ucast v, ucast (drop_bit 8 v), ucast (drop_bit 16 v), ucast (drop_bit 24 v)] @ r) ! 3)) :: u32) n = bit v n"
    by cases (auto simp: bit_simps)
qed

text \<open>
  A frame is read as it was written: for every header and a payload as long as the header says,
  \<open>ag_cluf_get\<close> on what \<open>ag_cluf_put\<close> put at the front of a buffer gives the header back and the payload first.
\<close>

theorem cluf_frame_roundtrip:
  assumes "length p = unat (h_len h)" and "AG_CLUF_HDR + unat (h_len h) \<le> unat n"
  shows "ag_cluf_get (snd (ag_cluf_put (Some b) (Some h) (Some p))) n = Some (h, p @ drop (AG_CLUF_HDR + unat (h_len h)) b)"
proof -
  have l: "length (put_u16 x) = 2" "length (put_u32 y) = 4" for x y by (simp_all add: put_u16_def put_u32_def)
  show ?thesis
    using assms by (simp add: ag_cluf_put_def ag_cluf_get_def Let_def AG_CLUF_HDR_def l get_put_u16 get_put_u32)
qed

theorem cluf_frame_roundtrip_witness:
  "ag_cluf_get (snd (ag_cluf_put (Some (replicate 20 0)) (Some (demo_hdr 3 2 7)) (Some [4, 5]))) 18 = Some (demo_hdr 3 2 7, [4, 5] @ replicate 2 0)"
  using cluf_frame_roundtrip [of "[4, 5]" "demo_hdr 3 2 7" 18 "replicate 20 0"] by (simp add: demo_hdr_def AG_CLUF_HDR_def)

end
