(* ===== verification/Codepage.thy ===== *)
theory Codepage
  imports Prelude
begin

text \<open>
  \<open>console/codepage.c\<close>: the three code pages and the conversions at the edges, with their tables as the
  source has them (its \<open>k_high\<close>, from 0x80 on; a zero is a byte the page leaves undefined). A page number
  outside the enumeration is \<open>None\<close>. The active page is a static variable of the file and an argument here.
\<close>

section \<open>Tables\<close>

datatype ag_cp = AG_CP_437 | AG_CP_866 | AG_CP_1251

definition k_high_437 :: "int list" where
  "k_high_437 =
     [0xc7, 0xfc, 0xe9, 0xe2, 0xe4, 0xe0, 0xe5, 0xe7, 0xea, 0xeb, 0xe8, 0xef, 0xee, 0xec, 0xc4, 0xc5,
      0xc9, 0xe6, 0xc6, 0xf4, 0xf6, 0xf2, 0xfb, 0xf9, 0xff, 0xd6, 0xdc, 0xa2, 0xa3, 0xa5, 0x20a7, 0x192,
      0xe1, 0xed, 0xf3, 0xfa, 0xf1, 0xd1, 0xaa, 0xba, 0xbf, 0x2310, 0xac, 0xbd, 0xbc, 0xa1, 0xab, 0xbb,
      0x2591, 0x2592, 0x2593, 0x2502, 0x2524, 0x2561, 0x2562, 0x2556, 0x2555, 0x2563, 0x2551, 0x2557, 0x255d, 0x255c, 0x255b, 0x2510,
      0x2514, 0x2534, 0x252c, 0x251c, 0x2500, 0x253c, 0x255e, 0x255f, 0x255a, 0x2554, 0x2569, 0x2566, 0x2560, 0x2550, 0x256c, 0x2567,
      0x2568, 0x2564, 0x2565, 0x2559, 0x2558, 0x2552, 0x2553, 0x256b, 0x256a, 0x2518, 0x250c, 0x2588, 0x2584, 0x258c, 0x2590, 0x2580,
      0x3b1, 0xdf, 0x393, 0x3c0, 0x3a3, 0x3c3, 0xb5, 0x3c4, 0x3a6, 0x398, 0x3a9, 0x3b4, 0x221e, 0x3c6, 0x3b5, 0x2229,
      0x2261, 0xb1, 0x2265, 0x2264, 0x2320, 0x2321, 0xf7, 0x2248, 0xb0, 0x2219, 0xb7, 0x221a, 0x207f, 0xb2, 0x25a0, 0xa0]"

definition k_high_866 :: "int list" where
  "k_high_866 =
     [0x410, 0x411, 0x412, 0x413, 0x414, 0x415, 0x416, 0x417, 0x418, 0x419, 0x41a, 0x41b, 0x41c, 0x41d, 0x41e, 0x41f,
      0x420, 0x421, 0x422, 0x423, 0x424, 0x425, 0x426, 0x427, 0x428, 0x429, 0x42a, 0x42b, 0x42c, 0x42d, 0x42e, 0x42f,
      0x430, 0x431, 0x432, 0x433, 0x434, 0x435, 0x436, 0x437, 0x438, 0x439, 0x43a, 0x43b, 0x43c, 0x43d, 0x43e, 0x43f,
      0x2591, 0x2592, 0x2593, 0x2502, 0x2524, 0x2561, 0x2562, 0x2556, 0x2555, 0x2563, 0x2551, 0x2557, 0x255d, 0x255c, 0x255b, 0x2510,
      0x2514, 0x2534, 0x252c, 0x251c, 0x2500, 0x253c, 0x255e, 0x255f, 0x255a, 0x2554, 0x2569, 0x2566, 0x2560, 0x2550, 0x256c, 0x2567,
      0x2568, 0x2564, 0x2565, 0x2559, 0x2558, 0x2552, 0x2553, 0x256b, 0x256a, 0x2518, 0x250c, 0x2588, 0x2584, 0x258c, 0x2590, 0x2580,
      0x440, 0x441, 0x442, 0x443, 0x444, 0x445, 0x446, 0x447, 0x448, 0x449, 0x44a, 0x44b, 0x44c, 0x44d, 0x44e, 0x44f,
      0x401, 0x451, 0x404, 0x454, 0x407, 0x457, 0x40e, 0x45e, 0xb0, 0x2219, 0xb7, 0x221a, 0x2116, 0xa4, 0x25a0, 0xa0]"

definition k_high_1251 :: "int list" where
  "k_high_1251 =
     [0x402, 0x403, 0x201a, 0x453, 0x201e, 0x2026, 0x2020, 0x2021, 0x20ac, 0x2030, 0x409, 0x2039, 0x40a, 0x40c, 0x40b, 0x40f,
      0x452, 0x2018, 0x2019, 0x201c, 0x201d, 0x2022, 0x2013, 0x2014, 0, 0x2122, 0x459, 0x203a, 0x45a, 0x45c, 0x45b, 0x45f,
      0xa0, 0x40e, 0x45e, 0x408, 0xa4, 0x490, 0xa6, 0xa7, 0x401, 0xa9, 0x404, 0xab, 0xac, 0xad, 0xae, 0x407,
      0xb0, 0xb1, 0x406, 0x456, 0x491, 0xb5, 0xb6, 0xb7, 0x451, 0x2116, 0x454, 0xbb, 0x458, 0x405, 0x455, 0x457,
      0x410, 0x411, 0x412, 0x413, 0x414, 0x415, 0x416, 0x417, 0x418, 0x419, 0x41a, 0x41b, 0x41c, 0x41d, 0x41e, 0x41f,
      0x420, 0x421, 0x422, 0x423, 0x424, 0x425, 0x426, 0x427, 0x428, 0x429, 0x42a, 0x42b, 0x42c, 0x42d, 0x42e, 0x42f,
      0x430, 0x431, 0x432, 0x433, 0x434, 0x435, 0x436, 0x437, 0x438, 0x439, 0x43a, 0x43b, 0x43c, 0x43d, 0x43e, 0x43f,
      0x440, 0x441, 0x442, 0x443, 0x444, 0x445, 0x446, 0x447, 0x448, 0x449, 0x44a, 0x44b, 0x44c, 0x44d, 0x44e, 0x44f]"

definition k_high :: "ag_cp \<Rightarrow> u16 list" where
  "k_high cp = map word_of_int (case cp of AG_CP_437 \<Rightarrow> k_high_437 | AG_CP_866 \<Rightarrow> k_high_866 | AG_CP_1251 \<Rightarrow> k_high_1251)"

definition k_pages :: "(ag_cp \<times> u16 \<times> string) list" where
  "k_pages =
     [(AG_CP_437, 437, ''CP437 - PC, box drawing, no Cyrillic''),
      (AG_CP_866, 866, ''CP866 - MS-DOS Cyrillic''),
      (AG_CP_1251, 1251, ''CP1251 - Windows Cyrillic, no box drawing'')]"

section \<open>Conversions\<close>

definition ag_cp_to_unicode :: "ag_cp option \<Rightarrow> u8 \<Rightarrow> u32" where
  "ag_cp_to_unicode cp byte =
     (if byte < 0x80 then ucast byte
      else case cp of None \<Rightarrow> 0 | Some p \<Rightarrow> ucast (k_high p ! unat (byte - 0x80)))"

fun table_index :: "u16 list \<Rightarrow> u16 \<Rightarrow> nat \<Rightarrow> nat option" where
  "table_index [] v i = None"
| "table_index (x # xs) v i = (if x = v then Some i else table_index xs v (Suc i))"

text \<open>A byte, or \<open>None\<close> for the result -1.\<close>

definition ag_cp_from_unicode :: "ag_cp option \<Rightarrow> u32 \<Rightarrow> u8 option" where
  "ag_cp_from_unicode cp codepoint =
     (if codepoint < 0x80 then Some (ucast codepoint)
      else case cp of
             None \<Rightarrow> None
           | Some p \<Rightarrow>
               if codepoint > 0xffff then None
               else map_option (\<lambda>i. 0x80 + word_of_nat i) (table_index (k_high p) (ucast codepoint) 0))"

definition ag_utf8_encode :: "u32 \<Rightarrow> u8 list" where
  "ag_utf8_encode codepoint =
     (if codepoint > 0x10ffff then []
      else if codepoint < 0x80 then [ucast codepoint]
      else if codepoint < 0x800 then [ucast (0xc0 OR drop_bit 6 codepoint), ucast (0x80 OR (codepoint AND 0x3f))]
      else if codepoint < 0x10000 then
        [ucast (0xe0 OR drop_bit 12 codepoint), ucast (0x80 OR (drop_bit 6 codepoint AND 0x3f)), ucast (0x80 OR (codepoint AND 0x3f))]
      else
        [ucast (0xf0 OR drop_bit 18 codepoint), ucast (0x80 OR (drop_bit 12 codepoint AND 0x3f)),
         ucast (0x80 OR (drop_bit 6 codepoint AND 0x3f)), ucast (0x80 OR (codepoint AND 0x3f))])"

definition ag_cp_number :: "ag_cp option \<Rightarrow> u16" where
  "ag_cp_number cp = (case cp of None \<Rightarrow> 0 | Some p \<Rightarrow> fst (the (map_of k_pages p)))"

definition ag_cp_from_number :: "u16 \<Rightarrow> ag_cp option" where
  "ag_cp_from_number number = map_option fst (find (\<lambda>(p, n, t). n = number) k_pages)"

definition ag_cp_title :: "ag_cp option \<Rightarrow> string" where
  "ag_cp_title cp = (case cp of None \<Rightarrow> ''unknown'' | Some p \<Rightarrow> snd (the (map_of k_pages p)))"

definition ag_cp_set_active :: "ag_cp \<Rightarrow> ag_cp option \<Rightarrow> ag_cp" where
  "ag_cp_set_active active cp = (case cp of None \<Rightarrow> active | Some p \<Rightarrow> p)"

section \<open>Lemmas\<close>

lemma table_index_Some: "table_index xs v i = Some j \<Longrightarrow> i \<le> j \<and> j < i + length xs \<and> xs ! (j - i) = v"
proof (induction xs v i rule: table_index.induct)
  case (2 x xs v i)
  show ?case
  proof (cases "x = v")
    case False
    then have "Suc i \<le> j" "j < Suc i + length xs" "xs ! (j - Suc i) = v" using 2 by auto
    then show ?thesis by (simp add: nth_Cons' Suc_diff_le)
  qed (use 2(2) in auto)
qed simp

lemma table_index_nth: "distinct xs \<Longrightarrow> j < length xs \<Longrightarrow> table_index xs (xs ! j) i = Some (i + j)"
proof (induction xs arbitrary: i j)
  case (Cons x xs)
  then show ?case by (cases j) auto
qed simp

definition table_ok :: "int list \<Rightarrow> bool" where
  "table_ok t \<longleftrightarrow> length t = 128 \<and> distinct t \<and> (\<forall>x \<in> set t. (x = 0 \<or> 128 \<le> x) \<and> x < 65536)"

lemma tables_ok: "table_ok k_high_437" "table_ok k_high_866" "table_ok k_high_1251"
  by code_simp+

lemma tables_zero: "0 \<notin> set k_high_437" "0 \<notin> set k_high_866" "k_high_1251 ! 24 = 0"
  by code_simp+

definition ints :: "ag_cp \<Rightarrow> int list" where
  "ints p = (case p of AG_CP_437 \<Rightarrow> k_high_437 | AG_CP_866 \<Rightarrow> k_high_866 | AG_CP_1251 \<Rightarrow> k_high_1251)"

lemma ints_ok: "table_ok (ints p)"
  using tables_ok by (simp add: ints_def split: ag_cp.split)

lemma k_high_ints: "k_high p = map word_of_int (ints p)"
  by (simp add: k_high_def ints_def)

lemma ints_range: "x \<in> set (ints p) \<Longrightarrow> uint (word_of_int x :: u16) = x"
proof -
  assume "x \<in> set (ints p)"
  then have "0 \<le> x" "x < 65536" using ints_ok [of p] by (auto simp: table_ok_def)
  then show ?thesis by (simp add: uint_word_of_int)
qed

lemma k_high_facts: "length (k_high p) = 128" "distinct (k_high p)"
proof -
  show "length (k_high p) = 128" using ints_ok [of p] by (simp add: k_high_ints table_ok_def)
  have "inj_on (word_of_int :: int \<Rightarrow> u16) (set (ints p))" by (rule inj_onI) (metis ints_range)
  then show "distinct (k_high p)" using ints_ok [of p] by (simp add: k_high_ints table_ok_def distinct_map)
qed

lemma k_high_entry:
  assumes "j < 128"
  shows "k_high p ! j = 0 \<and> p = AG_CP_1251 \<and> j = 24 \<or> 0x80 \<le> k_high p ! j"
proof -
  have len: "length (ints p) = 128" and d: "distinct (ints p)" using ints_ok [of p] by (auto simp: table_ok_def)
  let ?x = "ints p ! j"
  have mem: "?x \<in> set (ints p)" using assms len by simp
  have k: "k_high p ! j = word_of_int ?x" using assms len by (simp add: k_high_ints)
  show ?thesis
  proof (cases "?x = 0")
    case True
    then have p: "p = AG_CP_1251" using mem tables_zero by (cases p) (auto simp: ints_def)
    have "ints p ! 24 = 0" using tables_zero(3) by (simp add: p ints_def)
    then have "j = 24" using True d assms len by (simp add: nth_eq_iff_index_eq [symmetric])
    then show ?thesis using p True k by simp
  next
    case False
    then have "128 \<le> ?x" using mem ints_ok [of p] by (auto simp: table_ok_def)
    then show ?thesis using ints_range [OF mem] by (simp add: k word_le_def)
  qed
qed

lemma cp_there_and_back:
  "if p = AG_CP_1251 \<and> b = 0x98 then ag_cp_to_unicode (Some p) b = 0
    else ag_cp_from_unicode (Some p) (ag_cp_to_unicode (Some p) b) = Some b"
proof (cases "b < 0x80")
  case True
  have "(ucast b :: u32) < 0x80" using True by (simp add: word_less_nat_alt unsigned_ucast_eq take_bit_nat_eq_self)
  moreover have "(ucast (ucast b :: u32) :: u8) = b" by (rule bit_word_eqI) (simp add: bit_simps)
  moreover have "b \<noteq> 0x98" using True by auto
  ultimately show ?thesis using True by (simp add: ag_cp_to_unicode_def ag_cp_from_unicode_def)
next
  case False
  let ?j = "unat (b - 0x80)"
  have "unat b < 256" using unsigned_less [of b, where ?'a = nat] by simp
  moreover have "?j = unat b - 128" using False by (simp add: unat_sub_no_wrap not_less)
  ultimately have j: "?j < 128" using False by simp
  have bj: "0x80 + word_of_nat ?j = b" by simp
  have to: "ag_cp_to_unicode (Some p) b = ucast (k_high p ! ?j)" using False by (simp add: ag_cp_to_unicode_def)
  have ix: "table_index (k_high p) (k_high p ! ?j) 0 = Some ?j" using table_index_nth [OF k_high_facts(2)] j k_high_facts(1) by simp
  have u: "unat (ucast (k_high p ! ?j) :: u32) = unat (k_high p ! ?j)" "unat (k_high p ! ?j) < 65536"
    using unsigned_less [of "k_high p ! ?j", where ?'a = nat] by (simp_all add: unsigned_ucast_eq take_bit_nat_eq_self)
  from k_high_entry [OF j, of p] show ?thesis
  proof
    assume z: "k_high p ! ?j = 0 \<and> p = AG_CP_1251 \<and> ?j = 24"
    have "b = 0x80 + word_of_nat 24" using bj z by (simp only:)
    then have "b = 0x98" by simp
    then show ?thesis using z to by auto
  next
    assume ge: "0x80 \<le> k_high p ! ?j"
    have "\<not> (p = AG_CP_1251 \<and> b = 0x98)"
    proof
      assume "p = AG_CP_1251 \<and> b = 0x98"
      then have "k_high p ! ?j = word_of_int (k_high_1251 ! 24)" using ints_ok [of p] by (simp add: k_high_ints ints_def table_ok_def)
      then show False using ge tables_zero(3) by simp
    qed
    moreover have "ag_cp_from_unicode (Some p) (ucast (k_high p ! ?j)) = Some b"
    proof -
      have "(ucast (ucast (k_high p ! ?j) :: u32) :: u16) = k_high p ! ?j" by (rule bit_word_eqI) (simp add: bit_simps)
      then show ?thesis using ge u ix bj by (simp add: ag_cp_from_unicode_def word_less_nat_alt word_le_nat_alt)
    qed
    ultimately show ?thesis using to by auto
  qed
qed

lemma cp_back_and_there:
  "case ag_cp_from_unicode (Some p) u of None \<Rightarrow> True | Some c \<Rightarrow> ag_cp_to_unicode (Some p) c = u"
proof (cases "u < 0x80")
  case True
  have s: "unat (ucast u :: u8) = unat u" using True by (simp add: word_less_nat_alt unsigned_ucast_eq take_bit_nat_eq_self)
  then have "(ucast u :: u8) < 0x80" using True by (simp add: word_less_nat_alt)
  moreover have "(ucast (ucast u :: u8) :: u32) = u"
    using s unat_ucast_8_32 [of "ucast u"] by (simp only: word_unat_eq_iff)
  ultimately show ?thesis using True by (simp add: ag_cp_to_unicode_def ag_cp_from_unicode_def)
next
  case False
  show ?thesis
  proof (cases "ag_cp_from_unicode (Some p) u")
    case (Some c)
    then obtain j where j: "table_index (k_high p) (ucast u) 0 = Some j" "c = 0x80 + word_of_nat j" "unat u < 65536"
      using False by (auto simp: ag_cp_from_unicode_def word_less_nat_alt split: if_splits)
    from table_index_Some [OF j(1)] have e: "j < 128" "k_high p ! j = ucast u" using k_high_facts(1) by auto
    have cj: "unat c = 128 + j" unfolding j(2) using e(1) by (subst unat_add_no_wrap) (simp_all add: unat_of_nat_u8)
    then have "unat (c - 0x80) = j" "\<not> c < 0x80" by (simp_all add: unat_sub_no_wrap word_le_nat_alt word_less_nat_alt)
    moreover have "unat (ucast u :: u16) = unat u" using j(3) by (simp add: unsigned_ucast_eq take_bit_nat_eq_self)
    then have "(ucast (ucast u :: u16) :: u32) = u" using unat_ucast_16_32 [of "ucast u"] by (simp only: word_unat_eq_iff)
    ultimately show ?thesis using Some e(2) by (simp add: ag_cp_to_unicode_def)
  qed simp
qed

section \<open>Properties\<close>

text \<open>
  C27. The tables do not disagree with themselves: on every page, every byte comes back from the character it
  stands for, except 0x98 of CP1251, which stands for none; and every character that the page has a byte for
  comes back from that byte.
\<close>

theorem cp_roundtrip:
  "(if p = AG_CP_1251 \<and> b = 0x98 then ag_cp_to_unicode (Some p) b = 0
    else ag_cp_from_unicode (Some p) (ag_cp_to_unicode (Some p) b) = Some b) \<and>
   (case ag_cp_from_unicode (Some p) u of None \<Rightarrow> True | Some c \<Rightarrow> ag_cp_to_unicode (Some p) c = u)"
  using cp_there_and_back cp_back_and_there by blast

end
