(* ===== verification/LineEdit.thy ===== *)
theory LineEdit
  imports Codepage
begin

text \<open>
  \<open>shell/lineedit.c\<close>: the command line that is being typed. The buffers are arrays of \<open>AG_LINE_MAX\<close> bytes,
  moved about as \<open>memmove\<close> does; lengths and positions stay below 256, so the code's \<open>uint16_t\<close> are natural
  numbers here, and \<open>history_pos\<close>, -1 while a fresh line is edited, is an integer. The key codes the editor
  tells apart are a datatype, every other one is \<open>AG_KEY_OTHER\<close>.
\<close>

section \<open>The editor\<close>

definition AG_LINE_MAX :: nat where "AG_LINE_MAX = 256"
definition AG_HISTORY_DEPTH :: nat where "AG_HISTORY_DEPTH = 8"

datatype ag_line_result = AG_LINE_IDLE | AG_LINE_CHANGED | AG_LINE_DONE | AG_LINE_CANCEL | AG_LINE_EOF | AG_LINE_COMPLETE

datatype ag_keycode =
    AG_KEY_A | AG_KEY_C | AG_KEY_D | AG_KEY_E | AG_KEY_K | AG_KEY_U | AG_KEY_W | AG_KEY_LEFT | AG_KEY_RIGHT | AG_KEY_UP
  | AG_KEY_DOWN | AG_KEY_ENTER | AG_KEY_TAB | AG_KEY_BACKSPACE | AG_KEY_DELETE | AG_KEY_HOME | AG_KEY_END | AG_KEY_OTHER

record ag_event =
  ev_key_down :: bool
  ev_keycode :: ag_keycode
  ev_ctrl :: bool
  ev_alt :: bool
  ev_unicode :: u32

record ag_lineedit =
  le_buf :: "u8 list"
  le_len :: nat
  le_cursor :: nat
  le_history :: "u8 list list"
  le_history_count :: nat
  le_history_pos :: int
  le_parked :: "u8 list"

definition is_word_char :: "u8 \<Rightarrow> bool" where
  "is_word_char c \<longleftrightarrow> c \<noteq> 0x20 \<and> c \<noteq> 0x09"

definition step_left :: "ag_lineedit \<Rightarrow> nat \<Rightarrow> nat" where
  "step_left le pos = (if pos = 0 then 0 else pos - 1)"

definition step_right :: "ag_lineedit \<Rightarrow> nat \<Rightarrow> nat" where
  "step_right le pos = (if pos \<ge> le_len le then le_len le else pos + 1)"

text \<open>The two loops of \<open>word_left\<close> and of \<open>word_right\<close>, over the characters that \<open>p\<close> holds of.\<close>

function skip_left :: "(u8 \<Rightarrow> bool) \<Rightarrow> ag_lineedit \<Rightarrow> nat \<Rightarrow> nat" where
  "skip_left p le pos = (if pos > 0 \<and> p (le_buf le ! (pos - 1)) then skip_left p le (step_left le pos) else pos)"
  by auto
termination
  by (relation "measure (\<lambda>(_, _, pos). pos)") (auto simp: step_left_def)

function skip_right :: "(u8 \<Rightarrow> bool) \<Rightarrow> ag_lineedit \<Rightarrow> nat \<Rightarrow> nat" where
  "skip_right p le pos = (if pos < le_len le \<and> p (le_buf le ! pos) then skip_right p le (step_right le pos) else pos)"
  by auto
termination
  by (relation "measure (\<lambda>(_, le, pos). le_len le - pos)") (auto simp: step_right_def)

declare skip_left.simps [simp del] skip_right.simps [simp del]

definition word_left :: "ag_lineedit \<Rightarrow> nat \<Rightarrow> nat" where
  "word_left le pos = skip_left is_word_char le (skip_left (\<lambda>c. \<not> is_word_char c) le pos)"

definition word_right :: "ag_lineedit \<Rightarrow> nat \<Rightarrow> nat" where
  "word_right le pos = skip_right (\<lambda>c. \<not> is_word_char c) le (skip_right is_word_char le pos)"

text \<open>\<open>memmove(buf + dst, buf + src, n)\<close>.\<close>

definition memmove :: "u8 list \<Rightarrow> nat \<Rightarrow> nat \<Rightarrow> nat \<Rightarrow> u8 list" where
  "memmove b dst src n = take dst b @ take n (drop src b) @ drop (dst + n) b"

text \<open>\<open>memcpy(buf, text, n)\<close>.\<close>

definition memcpy :: "u8 list \<Rightarrow> u8 list \<Rightarrow> nat \<Rightarrow> u8 list" where
  "memcpy b t n = take n t @ drop n b"

definition erase_range :: "ag_lineedit \<Rightarrow> nat \<Rightarrow> nat \<Rightarrow> ag_lineedit" where
  "erase_range le start fin =
     (if fin \<le> start then le
      else
        let buf = memmove (le_buf le) start fin (le_len le - fin);
            len = le_len le - (fin - start)
        in le\<lparr>le_buf := buf[len := 0], le_len := len, le_cursor := start\<rparr>)"

definition insert_char :: "ag_cp option \<Rightarrow> ag_lineedit \<Rightarrow> u32 \<Rightarrow> bool \<times> ag_lineedit" where
  "insert_char active le codepoint =
     (case ag_cp_from_unicode active codepoint of
        None \<Rightarrow> (False, le)
      | Some byte \<Rightarrow>
          if le_len le + 2 > AG_LINE_MAX then (False, le)
          else
            let buf = memmove (le_buf le) (le_cursor le + 1) (le_cursor le) (le_len le - le_cursor le)
            in (True, le\<lparr>le_buf := (buf[le_cursor le := byte])[le_len le + 1 := 0], le_len := le_len le + 1,
                        le_cursor := le_cursor le + 1\<rparr>))"

definition ag_lineedit_init :: ag_lineedit where
  "ag_lineedit_init = \<lparr>le_buf = replicate AG_LINE_MAX 0, le_len = 0, le_cursor = 0,
     le_history = replicate AG_HISTORY_DEPTH (replicate AG_LINE_MAX 0), le_history_count = 0, le_history_pos = -1,
     le_parked = replicate AG_LINE_MAX 0\<rparr>"

definition ag_lineedit_reset :: "ag_lineedit \<Rightarrow> ag_lineedit" where
  "ag_lineedit_reset le = le\<lparr>le_buf := (le_buf le)[0 := 0], le_len := 0, le_cursor := 0, le_history_pos := -1,
     le_parked := (le_parked le)[0 := 0]\<rparr>"

text \<open>The text of a buffer: \<open>strlen\<close> and the bytes before the terminator.\<close>

definition c_text :: "u8 list \<Rightarrow> u8 list" where
  "c_text b = takeWhile (\<lambda>c. c \<noteq> 0) b"

definition ag_lineedit_set :: "ag_lineedit \<Rightarrow> u8 list option \<Rightarrow> ag_lineedit" where
  "ag_lineedit_set le t =
     (let s = (case t of None \<Rightarrow> [] | Some b \<Rightarrow> c_text b);
          n = (if length s \<ge> AG_LINE_MAX then AG_LINE_MAX - 1 else length s)
      in le\<lparr>le_buf := (memcpy (le_buf le) s n)[n := 0], le_len := n, le_cursor := n\<rparr>)"

text \<open>The rows of the history move down one place, from the last to the first.\<close>

fun shift_rows :: "u8 list list \<Rightarrow> nat \<Rightarrow> u8 list list" where
  "shift_rows h 0 = h"
| "shift_rows h (Suc i) = shift_rows (h[Suc i := h ! i]) i"

definition ag_lineedit_remember :: "ag_lineedit \<Rightarrow> u8 list option \<Rightarrow> ag_lineedit" where
  "ag_lineedit_remember le line =
     (case line of
        None \<Rightarrow> le
      | Some b \<Rightarrow>
          let s = c_text b in
          if s = [] then le
          else if le_history_count le > 0 \<and> c_text (le_history le ! 0) = s then le
          else
            let keep = (if le_history_count le < AG_HISTORY_DEPTH then le_history_count le else AG_HISTORY_DEPTH - 1);
                h = shift_rows (le_history le) keep;
                n = (if length s \<ge> AG_LINE_MAX then AG_LINE_MAX - 1 else length s)
            in le\<lparr>le_history := h[0 := (memcpy (h ! 0) s n)[n := 0]],
                 le_history_count := (if le_history_count le < AG_HISTORY_DEPTH then le_history_count le + 1 else le_history_count le)\<rparr>)"

definition browse_history :: "ag_lineedit \<Rightarrow> int \<Rightarrow> ag_line_result \<times> ag_lineedit" where
  "browse_history le direction =
     (if le_history_count le = 0 then (AG_LINE_IDLE, le)
      else
        let pos = max (-1) (le_history_pos le + direction) in
        if pos \<ge> int (le_history_count le) then (AG_LINE_IDLE, le)
        else if pos = le_history_pos le then (AG_LINE_IDLE, le)
        else
          let le1 = (if le_history_pos le = -1 then le\<lparr>le_parked := memcpy (le_parked le) (le_buf le) (le_len le + 1)\<rparr> else le);
              le2 = le1\<lparr>le_history_pos := pos\<rparr>
          in (AG_LINE_CHANGED, ag_lineedit_set le2 (Some (if pos = -1 then le_parked le2 else le_history le2 ! nat pos))))"

text \<open>Moving the cursor, when that is a move.\<close>

definition move_to :: "ag_lineedit \<Rightarrow> nat \<Rightarrow> ag_line_result \<times> ag_lineedit" where
  "move_to le pos = (if pos = le_cursor le then (AG_LINE_IDLE, le) else (AG_LINE_CHANGED, le\<lparr>le_cursor := pos\<rparr>))"

definition ctrl_key :: "ag_lineedit \<Rightarrow> ag_keycode \<Rightarrow> ag_line_result \<times> ag_lineedit" where
  "ctrl_key le k =
     (case k of
        AG_KEY_C \<Rightarrow> (AG_LINE_CANCEL, le)
      | AG_KEY_D \<Rightarrow>
          if le_len le = 0 then (AG_LINE_EOF, le)
          else if le_cursor le < le_len le then (AG_LINE_CHANGED, erase_range le (le_cursor le) (step_right le (le_cursor le)))
          else (AG_LINE_IDLE, le)
      | AG_KEY_U \<Rightarrow>
          if le_len le = 0 then (AG_LINE_IDLE, le)
          else (AG_LINE_CHANGED, le\<lparr>le_len := 0, le_cursor := 0, le_buf := (le_buf le)[0 := 0]\<rparr>)
      | AG_KEY_K \<Rightarrow>
          if le_cursor le \<ge> le_len le then (AG_LINE_IDLE, le)
          else (AG_LINE_CHANGED, erase_range le (le_cursor le) (le_len le))
      | AG_KEY_W \<Rightarrow>
          let start = word_left le (le_cursor le) in
          if start = le_cursor le then (AG_LINE_IDLE, le) else (AG_LINE_CHANGED, erase_range le start (le_cursor le))
      | AG_KEY_A \<Rightarrow> move_to le 0
      | AG_KEY_E \<Rightarrow> move_to le (le_len le)
      | AG_KEY_LEFT \<Rightarrow> move_to le (word_left le (le_cursor le))
      | AG_KEY_RIGHT \<Rightarrow> move_to le (word_right le (le_cursor le))
      | _ \<Rightarrow> (AG_LINE_IDLE, le))"

definition ag_lineedit_key :: "ag_cp option \<Rightarrow> ag_lineedit \<Rightarrow> ag_event \<Rightarrow> ag_line_result \<times> ag_lineedit" where
  "ag_lineedit_key active le ev =
     (if \<not> ev_key_down ev then (AG_LINE_IDLE, le)
      else if ev_ctrl ev then ctrl_key le (ev_keycode ev)
      else
        (case ev_keycode ev of
           AG_KEY_ENTER \<Rightarrow> (AG_LINE_DONE, le)
         | AG_KEY_TAB \<Rightarrow> (AG_LINE_COMPLETE, le)
         | AG_KEY_BACKSPACE \<Rightarrow>
             if le_cursor le = 0 then (AG_LINE_IDLE, le)
             else (AG_LINE_CHANGED, erase_range le (step_left le (le_cursor le)) (le_cursor le))
         | AG_KEY_DELETE \<Rightarrow>
             if le_cursor le \<ge> le_len le then (AG_LINE_IDLE, le)
             else (AG_LINE_CHANGED, erase_range le (le_cursor le) (step_right le (le_cursor le)))
         | AG_KEY_LEFT \<Rightarrow>
             if le_cursor le = 0 then (AG_LINE_IDLE, le)
             else (AG_LINE_CHANGED, le\<lparr>le_cursor := step_left le (le_cursor le)\<rparr>)
         | AG_KEY_RIGHT \<Rightarrow>
             if le_cursor le \<ge> le_len le then (AG_LINE_IDLE, le)
             else (AG_LINE_CHANGED, le\<lparr>le_cursor := step_right le (le_cursor le)\<rparr>)
         | AG_KEY_HOME \<Rightarrow> move_to le 0
         | AG_KEY_END \<Rightarrow> move_to le (le_len le)
         | AG_KEY_UP \<Rightarrow> browse_history le 1
         | AG_KEY_DOWN \<Rightarrow> browse_history le (-1)
         | _ \<Rightarrow>
             if ev_alt ev then (AG_LINE_IDLE, le)
             else if ev_unicode ev \<ge> 0x20 \<and> ev_unicode ev \<noteq> 0x7f then
               (case insert_char active le (ev_unicode ev) of (ok, le1) \<Rightarrow> (if ok then AG_LINE_CHANGED else AG_LINE_IDLE, le1))
             else (AG_LINE_IDLE, le)))"

section \<open>What it promises\<close>

text \<open>A line of text with a cursor in it, the lines remembered, and the line set aside while they are browsed.\<close>

record editor =
  ed_line :: "u8 list"
  ed_cur :: nat
  ed_hist :: "u8 list list"
  ed_pos :: int
  ed_parked :: "u8 list"

definition ed_erase :: "editor \<Rightarrow> nat \<Rightarrow> nat \<Rightarrow> editor" where
  "ed_erase ed start fin = ed\<lparr>ed_line := take start (ed_line ed) @ drop fin (ed_line ed), ed_cur := start\<rparr>"

definition ed_put :: "editor \<Rightarrow> u8 \<Rightarrow> editor" where
  "ed_put ed b = ed\<lparr>ed_line := take (ed_cur ed) (ed_line ed) @ b # drop (ed_cur ed) (ed_line ed), ed_cur := ed_cur ed + 1\<rparr>"

definition ed_set :: "editor \<Rightarrow> u8 list \<Rightarrow> editor" where
  "ed_set ed t = ed\<lparr>ed_line := take (AG_LINE_MAX - 1) t, ed_cur := min (AG_LINE_MAX - 1) (length t)\<rparr>"

text \<open>The start of the word before a place, and of the word after it.\<close>

definition ed_word_left :: "editor \<Rightarrow> nat" where
  "ed_word_left ed = length (dropWhile is_word_char (dropWhile (\<lambda>c. \<not> is_word_char c) (rev (take (ed_cur ed) (ed_line ed)))))"

definition ed_word_right :: "editor \<Rightarrow> nat" where
  "ed_word_right ed = length (ed_line ed) -
     length (dropWhile (\<lambda>c. \<not> is_word_char c) (dropWhile is_word_char (drop (ed_cur ed) (ed_line ed))))"

definition ed_move :: "editor \<Rightarrow> nat \<Rightarrow> ag_line_result \<times> editor" where
  "ed_move ed p = (if p = ed_cur ed then (AG_LINE_IDLE, ed) else (AG_LINE_CHANGED, ed\<lparr>ed_cur := p\<rparr>))"

definition ed_cut :: "editor \<Rightarrow> nat \<Rightarrow> nat \<Rightarrow> ag_line_result \<times> editor" where
  "ed_cut ed start fin = (if fin \<le> start then (AG_LINE_IDLE, ed) else (AG_LINE_CHANGED, ed_erase ed start fin))"

text \<open>To the entry \<open>p\<close> of the history, -1 being the line set aside.\<close>

definition ed_browse :: "editor \<Rightarrow> int \<Rightarrow> ag_line_result \<times> editor" where
  "ed_browse ed p =
     (if ed_hist ed = [] \<or> p < -1 \<or> int (length (ed_hist ed)) \<le> p then (AG_LINE_IDLE, ed)
      else
        let parked = (if ed_pos ed = -1 then ed_line ed else ed_parked ed)
        in (AG_LINE_CHANGED,
            ed_set (ed\<lparr>ed_pos := p, ed_parked := (if p = -1 then [] else parked)\<rparr>) (if p = -1 then parked else ed_hist ed ! nat p)))"

definition ed_remember :: "editor \<Rightarrow> u8 list \<Rightarrow> editor" where
  "ed_remember ed t =
     (if t = [] \<or> (ed_hist ed \<noteq> [] \<and> hd (ed_hist ed) = t) then ed
      else ed\<lparr>ed_hist := take AG_HISTORY_DEPTH (take (AG_LINE_MAX - 1) t # ed_hist ed)\<rparr>)"

definition ed_ctrl :: "editor \<Rightarrow> ag_keycode \<Rightarrow> ag_line_result \<times> editor" where
  "ed_ctrl ed k =
     (let len = length (ed_line ed); cur = ed_cur ed in
      case k of
        AG_KEY_C \<Rightarrow> (AG_LINE_CANCEL, ed)
      | AG_KEY_D \<Rightarrow> if ed_line ed = [] then (AG_LINE_EOF, ed) else ed_cut ed cur (min len (cur + 1))
      | AG_KEY_U \<Rightarrow> ed_cut ed 0 len
      | AG_KEY_K \<Rightarrow> ed_cut ed cur len
      | AG_KEY_W \<Rightarrow> ed_cut ed (ed_word_left ed) cur
      | AG_KEY_A \<Rightarrow> ed_move ed 0
      | AG_KEY_E \<Rightarrow> ed_move ed len
      | AG_KEY_LEFT \<Rightarrow> ed_move ed (ed_word_left ed)
      | AG_KEY_RIGHT \<Rightarrow> ed_move ed (ed_word_right ed)
      | _ \<Rightarrow> (AG_LINE_IDLE, ed))"

definition ed_key :: "ag_cp option \<Rightarrow> editor \<Rightarrow> ag_event \<Rightarrow> ag_line_result \<times> editor" where
  "ed_key active ed ev =
     (let len = length (ed_line ed); cur = ed_cur ed in
      if \<not> ev_key_down ev then (AG_LINE_IDLE, ed)
      else if ev_ctrl ev then ed_ctrl ed (ev_keycode ev)
      else
        (case ev_keycode ev of
           AG_KEY_ENTER \<Rightarrow> (AG_LINE_DONE, ed)
         | AG_KEY_TAB \<Rightarrow> (AG_LINE_COMPLETE, ed)
         | AG_KEY_BACKSPACE \<Rightarrow> ed_cut ed (cur - 1) cur
         | AG_KEY_DELETE \<Rightarrow> ed_cut ed cur (min len (cur + 1))
         | AG_KEY_LEFT \<Rightarrow> ed_move ed (cur - 1)
         | AG_KEY_RIGHT \<Rightarrow> ed_move ed (min len (cur + 1))
         | AG_KEY_HOME \<Rightarrow> ed_move ed 0
         | AG_KEY_END \<Rightarrow> ed_move ed len
         | AG_KEY_UP \<Rightarrow> ed_browse ed (ed_pos ed + 1)
         | AG_KEY_DOWN \<Rightarrow> ed_browse ed (ed_pos ed - 1)
         | _ \<Rightarrow>
             if ev_alt ev \<or> ev_unicode ev < 0x20 \<or> ev_unicode ev = 0x7f then (AG_LINE_IDLE, ed)
             else case ag_cp_from_unicode active (ev_unicode ev) of
                    None \<Rightarrow> (AG_LINE_IDLE, ed)
                  | Some b \<Rightarrow> if len + 1 < AG_LINE_MAX then (AG_LINE_CHANGED, ed_put ed b) else (AG_LINE_IDLE, ed)))"

section \<open>A session\<close>

text \<open>What the shell does with an editor: keys, a line put in place, a line remembered, a fresh line.\<close>

datatype le_op = LeKey "ag_cp option" ag_event | LeSet "u8 list option" | LeRemember "u8 list option" | LeReset

fun le_step :: "ag_lineedit \<Rightarrow> le_op \<Rightarrow> ag_line_result \<times> ag_lineedit" where
  "le_step le (LeKey active ev) = ag_lineedit_key active le ev"
| "le_step le (LeSet t) = (AG_LINE_IDLE, ag_lineedit_set le t)"
| "le_step le (LeRemember t) = (AG_LINE_IDLE, ag_lineedit_remember le t)"
| "le_step le LeReset = (AG_LINE_IDLE, ag_lineedit_reset le)"

fun le_run :: "ag_lineedit \<Rightarrow> le_op list \<Rightarrow> ag_line_result list \<times> ag_lineedit" where
  "le_run le [] = ([], le)"
| "le_run le (p # ops) = (case le_step le p of (r, le1) \<Rightarrow> case le_run le1 ops of (rs, le2) \<Rightarrow> (r # rs, le2))"

definition ed_init :: editor where
  "ed_init = \<lparr>ed_line = [], ed_cur = 0, ed_hist = [], ed_pos = -1, ed_parked = []\<rparr>"

definition opt_text :: "u8 list option \<Rightarrow> u8 list" where
  "opt_text t = (case t of None \<Rightarrow> [] | Some b \<Rightarrow> c_text b)"

fun ed_step :: "editor \<Rightarrow> le_op \<Rightarrow> ag_line_result \<times> editor" where
  "ed_step ed (LeKey active ev) = ed_key active ed ev"
| "ed_step ed (LeSet t) = (AG_LINE_IDLE, ed_set ed (opt_text t))"
| "ed_step ed (LeRemember t) = (AG_LINE_IDLE, ed_remember ed (opt_text t))"
| "ed_step ed LeReset = (AG_LINE_IDLE, ed\<lparr>ed_line := [], ed_cur := 0, ed_pos := -1, ed_parked := []\<rparr>)"

fun ed_run :: "editor \<Rightarrow> le_op list \<Rightarrow> ag_line_result list \<times> editor" where
  "ed_run ed [] = ([], ed)"
| "ed_run ed (p # ops) = (case ed_step ed p of (r, ed1) \<Rightarrow> case ed_run ed1 ops of (rs, ed2) \<Rightarrow> (r # rs, ed2))"

section \<open>Refinement\<close>

definition buf_ok :: "u8 list \<Rightarrow> bool" where
  "buf_ok b \<longleftrightarrow> length b = AG_LINE_MAX \<and> 0 \<in> set b"

definition le_inv :: "ag_lineedit \<Rightarrow> bool" where
  "le_inv le \<longleftrightarrow> length (le_buf le) = AG_LINE_MAX \<and> le_len le < AG_LINE_MAX \<and> le_cursor le \<le> le_len le \<and>
     le_buf le ! le_len le = 0 \<and> 0 \<notin> set (take (le_len le) (le_buf le)) \<and>
     length (le_history le) = AG_HISTORY_DEPTH \<and> (\<forall>r \<in> set (le_history le). buf_ok r) \<and>
     le_history_count le \<le> AG_HISTORY_DEPTH \<and> -1 \<le> le_history_pos le \<and>
     (le_history_pos le = -1 \<or> le_history_pos le < int (le_history_count le)) \<and> buf_ok (le_parked le)"

definition abs_le :: "ag_lineedit \<Rightarrow> editor" where
  "abs_le le = \<lparr>ed_line = take (le_len le) (le_buf le), ed_cur = le_cursor le,
     ed_hist = map c_text (take (le_history_count le) (le_history le)), ed_pos = le_history_pos le,
     ed_parked = (if le_history_pos le = -1 then [] else c_text (le_parked le))\<rparr>"

subsection \<open>Buffers\<close>

lemma c_text_no_zero: "0 \<notin> set (c_text b)"
  by (auto simp: c_text_def dest: set_takeWhileD)

lemma c_text_append: "0 \<notin> set xs \<Longrightarrow> c_text (xs @ 0 # ys) = xs"
  unfolding c_text_def by (subst takeWhile_append2) auto

lemma c_text_filled:
  assumes "0 \<notin> set s" and "n \<le> length s" and "n < length b"
  shows "c_text ((memcpy b s n)[n := 0]) = take n s" and "length ((memcpy b s n)[n := 0]) = length b"
    and "take n ((memcpy b s n)[n := 0]) = take n s" and "((memcpy b s n)[n := 0]) ! n = 0"
proof -
  have f: "(memcpy b s n)[n := 0] = take n s @ 0 # drop (Suc n) b"
    using assms(2,3) by (simp add: memcpy_def list_update_append min_absorb2 upd_conv_take_nth_drop)
  have "0 \<notin> set (take n s)" using assms(1) in_set_takeD by fast
  then show "c_text ((memcpy b s n)[n := 0]) = take n s" unfolding f by (rule c_text_append)
  show "length ((memcpy b s n)[n := 0]) = length b" using assms(2,3) by (simp add: memcpy_def)
  show "take n ((memcpy b s n)[n := 0]) = take n s" unfolding f using assms(2) by simp
  show "((memcpy b s n)[n := 0]) ! n = 0" unfolding f using assms(2) by (simp add: nth_append)
qed

lemma buf_ok_filled: "0 \<notin> set s \<Longrightarrow> n \<le> length s \<Longrightarrow> n < AG_LINE_MAX \<Longrightarrow> length b = AG_LINE_MAX \<Longrightarrow> buf_ok ((memcpy b s n)[n := 0])"
  using c_text_filled(2,4) [of s n b] unfolding buf_ok_def by (metis nth_mem)

lemma c_text_len: "buf_ok b \<Longrightarrow> length (c_text b) < AG_LINE_MAX"
proof -
  assume "buf_ok b"
  then have l: "length b = AG_LINE_MAX" and z: "0 \<in> set b" by (simp_all add: buf_ok_def)
  have "takeWhile (\<lambda>c. c \<noteq> 0) b \<noteq> b" using z by (auto simp: takeWhile_eq_all_conv)
  then have "length (takeWhile (\<lambda>c. c \<noteq> 0) b) < length b"
    by (metis le_neq_implies_less length_takeWhile_le order_refl take_all takeWhile_eq_take)
  then show ?thesis using l by (simp add: c_text_def)
qed

subsection \<open>Each part of the editor\<close>

lemma set_refines:
  assumes "le_inv le" and t: "t = Some b"
  shows "le_inv (ag_lineedit_set le t)" and "abs_le (ag_lineedit_set le t) = ed_set (abs_le le) (c_text b)"
proof -
  define n where "n = (if length (c_text b) \<ge> AG_LINE_MAX then AG_LINE_MAX - 1 else length (c_text b))"
  have n: "n \<le> length (c_text b)" "n < AG_LINE_MAX" "n = min (AG_LINE_MAX - 1) (length (c_text b))"
    by (auto simp: n_def AG_LINE_MAX_def)
  have e: "ag_lineedit_set le t = le\<lparr>le_buf := (memcpy (le_buf le) (c_text b) n)[n := 0], le_len := n, le_cursor := n\<rparr>"
    by (simp add: ag_lineedit_set_def t n_def Let_def)
  have len: "n < length (le_buf le)" using assms(1) n(2) by (simp add: le_inv_def)
  note f = c_text_filled [OF c_text_no_zero n(1) len]
  have "0 \<notin> set (take n (c_text b))" using c_text_no_zero in_set_takeD by fast
  then show "le_inv (ag_lineedit_set le t)" using assms(1) f n(2) unfolding e le_inv_def by simp
  have "take n (c_text b) = take (AG_LINE_MAX - 1) (c_text b)" unfolding n(3) by (simp add: min_def)
  then show "abs_le (ag_lineedit_set le t) = ed_set (abs_le le) (c_text b)"
    using f(3) n(3) unfolding e by (simp add: abs_le_def ed_set_def)
qed

lemma erase_refines:
  assumes inv: "le_inv le" and r: "start < fin" "fin \<le> le_len le"
  shows "le_inv (erase_range le start fin)" and "abs_le (erase_range le start fin) = ed_erase (abs_le le) start fin"
proof -
  let ?b = "le_buf le" and ?n = "le_len le"
  define len where "len = ?n - (fin - start)"
  define buf where "buf = memmove ?b start fin (?n - fin)"
  have e: "erase_range le start fin = le\<lparr>le_buf := buf[len := 0], le_len := len, le_cursor := start\<rparr>"
    using r(1) by (simp add: erase_range_def buf_def len_def Let_def)
  have bl: "length ?b = AG_LINE_MAX" "?n < AG_LINE_MAX" using inv by (simp_all add: le_inv_def)
  have lb: "length buf = AG_LINE_MAX" using bl r by (simp add: buf_def memmove_def)
  have ll: "len = start + (?n - fin)" "len < AG_LINE_MAX" "start \<le> len" using r bl by (simp_all add: len_def)
  have "take len buf = take start ?b @ take (?n - fin) (drop fin ?b)" using bl r ll by (simp add: buf_def memmove_def)
  also have "\<dots> = take start (take ?n ?b) @ drop fin (take ?n ?b)" using r by (simp add: drop_take min_absorb2)
  finally have line: "take len (buf[len := 0]) = take start (take ?n ?b) @ drop fin (take ?n ?b)" by simp
  have "0 \<notin> set (take ?n ?b)" using inv by (simp add: le_inv_def)
  then have nz: "0 \<notin> set (take len (buf[len := 0]))" unfolding line by (auto simp del: take_take dest: in_set_takeD in_set_dropD)
  show "le_inv (erase_range le start fin)" unfolding e le_inv_def
    using inv nz lb ll by (simp add: le_inv_def)
  show "abs_le (erase_range le start fin) = ed_erase (abs_le le) start fin" unfolding e
    using line by (simp add: abs_le_def ed_erase_def)
qed

lemma from_unicode_nonzero: "ag_cp_from_unicode cp u = Some b \<Longrightarrow> 0x20 \<le> u \<Longrightarrow> b \<noteq> 0"
proof (cases "u < 0x80")
  case True
  assume b: "ag_cp_from_unicode cp u = Some b" and u: "0x20 \<le> u"
  have "unat b = unat u" using b True by (auto simp: ag_cp_from_unicode_def word_less_nat_alt unsigned_ucast_eq take_bit_nat_eq_self)
  then show ?thesis using u by (auto simp: word_le_nat_alt)
next
  case False
  assume b: "ag_cp_from_unicode cp u = Some b"
  then obtain p j where "table_index (k_high p) (ucast u) 0 = Some j" "b = 0x80 + word_of_nat j"
    using False by (auto simp: ag_cp_from_unicode_def split: option.splits if_splits)
  then have "unat b = 128 + j" using table_index_Some [of "k_high p" "ucast u" 0 j] k_high_facts(1) [of p]
    by (auto simp: unat_of_nat_u8 intro!: unat_add_no_wrap [THEN trans])
  then show ?thesis by auto
qed

lemma insert_refines:
  assumes inv: "le_inv le" and b: "ag_cp_from_unicode cp u = Some byte" and u: "0x20 \<le> u" and room: "le_len le + 1 < AG_LINE_MAX"
  obtains le' where "insert_char cp le u = (True, le')" and "le_inv le'" and "abs_le le' = ed_put (abs_le le) byte"
proof -
  let ?b = "le_buf le" and ?n = "le_len le" and ?c = "le_cursor le"
  define buf where "buf = ((memmove ?b (?c + 1) ?c (?n - ?c))[?c := byte])[?n + 1 := 0]"
  let ?le = "le\<lparr>le_buf := buf, le_len := ?n + 1, le_cursor := ?c + 1\<rparr>"
  have e: "insert_char cp le u = (True, ?le)" using b room by (simp add: insert_char_def buf_def Let_def)
  have bl: "length ?b = AG_LINE_MAX" "?n < AG_LINE_MAX" "?c \<le> ?n" and nz: "0 \<notin> set (take ?n ?b)" using inv by (simp_all add: le_inv_def)
  have lm: "length (memmove ?b (?c + 1) ?c (?n - ?c)) = AG_LINE_MAX" using bl room by (simp add: memmove_def)
  have "take (?n + 1) buf = take (?n + 1) ((memmove ?b (?c + 1) ?c (?n - ?c))[?c := byte])" by (simp add: buf_def)
  also have "\<dots> = (take (?n + 1) (memmove ?b (?c + 1) ?c (?n - ?c)))[?c := byte]" by (simp add: take_update_swap)
  also have "take (?n + 1) (memmove ?b (?c + 1) ?c (?n - ?c)) = take (?c + 1) ?b @ take (?n - ?c) (drop ?c ?b)"
    using bl room by (simp add: memmove_def)
  also have "(take (?c + 1) ?b @ take (?n - ?c) (drop ?c ?b))[?c := byte] = take ?c ?b @ byte # take (?n - ?c) (drop ?c ?b)"
    using bl room by (simp add: list_update_append take_Suc_conv_app_nth min_absorb2)
  finally have line: "take (?n + 1) buf = take ?c (take ?n ?b) @ byte # drop ?c (take ?n ?b)"
    using bl by (simp add: drop_take min_absorb1)
  have nb: "byte \<noteq> 0" by (rule from_unicode_nonzero [OF b u])
  have "0 \<notin> set (take (?n + 1) buf)" unfolding line using nz nb by (auto simp del: take_take dest: in_set_takeD in_set_dropD)
  moreover have "buf ! (?n + 1) = 0" "length buf = AG_LINE_MAX" using room lm by (simp_all add: buf_def)
  ultimately have "le_inv ?le" unfolding le_inv_def using inv room by (simp add: le_inv_def)
  moreover have "abs_le ?le = ed_put (abs_le le) byte" using line by (simp add: abs_le_def ed_put_def)
  ultimately show thesis using that e by blast
qed


lemma skip_left_eq:
  assumes "length (le_buf le) = AG_LINE_MAX" and "pos \<le> AG_LINE_MAX"
  shows "skip_left p le pos = length (dropWhile p (rev (take pos (le_buf le)))) \<and> skip_left p le pos \<le> pos"
  using assms(2)
proof (induction pos)
  case 0
  then show ?case by (simp add: skip_left.simps)
next
  case (Suc pos)
  have "take (Suc pos) (le_buf le) = take pos (le_buf le) @ [le_buf le ! pos]" using Suc.prems assms(1) by (simp add: take_Suc_conv_app_nth)
  then show ?case using Suc by (subst (1 2) skip_left.simps) (simp add: step_left_def assms(1))
qed

lemma skip_right_eq:
  assumes "le_len le \<le> length (le_buf le)"
  shows "pos \<le> le_len le \<Longrightarrow> skip_right p le pos + length (dropWhile p (drop pos (take (le_len le) (le_buf le)))) = le_len le \<and>
    pos \<le> skip_right p le pos \<and> dropWhile p (drop pos (take (le_len le) (le_buf le))) = drop (skip_right p le pos) (take (le_len le) (le_buf le))"
proof (induction "le_len le - pos" arbitrary: pos)
  case 0
  then have "pos = le_len le" by simp
  then show ?case using assms by (subst (1 2 3) skip_right.simps) simp
next
  case (Suc d)
  let ?l = "take (le_len le) (le_buf le)"
  have lt: "pos < le_len le" using Suc.hyps(2) by simp
  have dr: "drop pos ?l = le_buf le ! pos # drop (Suc pos) ?l" using lt assms by (simp add: Cons_nth_drop_Suc [symmetric])
  show ?case
  proof (cases "p (le_buf le ! pos)")
    case True
    then have eq: "skip_right p le pos = skip_right p le (Suc pos)" using lt by (subst skip_right.simps) (simp add: step_right_def)
    have "d = le_len le - Suc pos" "Suc pos \<le> le_len le" using Suc.hyps(2) lt by simp_all
    note IH = Suc.hyps(1) [OF this]
    have dw: "dropWhile p (drop pos ?l) = dropWhile p (drop (Suc pos) ?l)" using dr True by simp
    show ?thesis unfolding eq dw using IH Suc_leD by blast
  next
    case False
    then have eq: "skip_right p le pos = pos" by (subst skip_right.simps) simp
    show ?thesis unfolding eq using False lt dr assms by simp
  qed
qed

lemma dropWhile_suffix: "dropWhile p xs = drop (length xs - length (dropWhile p xs)) xs"
proof -
  have "length xs = length (takeWhile p xs) + length (dropWhile p xs)" by (metis length_append takeWhile_dropWhile_id)
  then show ?thesis by (metis add_diff_cancel_right' dropWhile_eq_drop)
qed

lemma word_left_refines:
  assumes "le_inv le"
  shows "word_left le (le_cursor le) = ed_word_left (abs_le le)" and "word_left le (le_cursor le) \<le> le_cursor le"
proof -
  have l: "length (le_buf le) = AG_LINE_MAX" "le_cursor le \<le> le_len le" "le_len le \<le> AG_LINE_MAX" using assms by (simp_all add: le_inv_def)
  let ?r = "rev (take (le_cursor le) (le_buf le))"
  let ?m = "skip_left (\<lambda>c. \<not> is_word_char c) le (le_cursor le)"
  have m: "?m = length (dropWhile (\<lambda>c. \<not> is_word_char c) ?r)" "?m \<le> le_cursor le"
    using skip_left_eq [OF l(1) le_trans [OF l(2,3)], of "\<lambda>c. \<not> is_word_char c"] by blast+
  have "dropWhile (\<lambda>c. \<not> is_word_char c) ?r = drop (length ?r - ?m) ?r" unfolding m(1) by (rule dropWhile_suffix)
  then have "dropWhile (\<lambda>c. \<not> is_word_char c) ?r = rev (take ?m (take (le_cursor le) (le_buf le)))"
    using m(2) l by (simp add: rev_take)
  then have d: "dropWhile (\<lambda>c. \<not> is_word_char c) ?r = rev (take ?m (le_buf le))" using m(2) by (simp add: min_absorb1)
  have "word_left le (le_cursor le) = length (dropWhile is_word_char (rev (take ?m (le_buf le)))) \<and> word_left le (le_cursor le) \<le> ?m"
    unfolding word_left_def using skip_left_eq [OF l(1), of ?m is_word_char] m(2) l by simp
  then show "word_left le (le_cursor le) = ed_word_left (abs_le le)" "word_left le (le_cursor le) \<le> le_cursor le"
    using m(2) l d by (simp_all add: ed_word_left_def abs_le_def min_absorb1)
qed

lemma word_right_refines:
  assumes "le_inv le"
  shows "word_right le (le_cursor le) = ed_word_right (abs_le le)" and "word_right le (le_cursor le) \<le> le_len le"
proof -
  have l: "le_len le \<le> length (le_buf le)" "le_cursor le \<le> le_len le" using assms by (simp_all add: le_inv_def)
  define m where "m = skip_right is_word_char le (le_cursor le)"
  let ?l = "take (le_len le) (le_buf le)"
  have m: "m \<le> le_len le" "dropWhile is_word_char (drop (le_cursor le) ?l) = drop m ?l"
    using skip_right_eq [OF l(1) l(2), of is_word_char] unfolding m_def by (linarith, blast)
  have "word_right le (le_cursor le) + length (dropWhile (\<lambda>c. \<not> is_word_char c) (drop m ?l)) = le_len le"
    using skip_right_eq [OF l(1) m(1), of "\<lambda>c. \<not> is_word_char c"] unfolding word_right_def m_def by blast
  then show "word_right le (le_cursor le) = ed_word_right (abs_le le)" "word_right le (le_cursor le) \<le> le_len le"
    using m(2) l(1) by (simp_all add: ed_word_right_def abs_le_def min_absorb2)
qed

lemma shift_rows_eq: "k < length h \<Longrightarrow> shift_rows h k = h ! 0 # take k h @ drop (Suc k) h"
proof (induction h k rule: shift_rows.induct)
  case (1 h)
  then show ?case by (cases h) simp_all
next
  case (2 h i)
  have "drop (Suc i) (h[Suc i := h ! i]) = h ! i # drop (Suc (Suc i)) h" using 2(2) by (simp add: drop_update_swap Cons_nth_drop_Suc [symmetric])
  then show ?case using 2 by (simp add: take_Suc_conv_app_nth)
qed

lemma remember_refines:
  assumes inv: "le_inv le"
  shows "le_inv (ag_lineedit_remember le (Some b))" and "abs_le (ag_lineedit_remember le (Some b)) = ed_remember (abs_le le) (c_text b)"
proof -
  let ?s = "c_text b"
  have hl: "length (le_history le) = AG_HISTORY_DEPTH" "\<forall>r \<in> set (le_history le). buf_ok r" "le_history_count le \<le> AG_HISTORY_DEPTH"
    using inv by (simp_all add: le_inv_def)
  have hd: "ed_hist (abs_le le) = map c_text (take (le_history_count le) (le_history le))" by (simp add: abs_le_def)
  have h0: "hd (ed_hist (abs_le le)) = c_text (le_history le ! 0)" if "0 < le_history_count le"
    using that hl unfolding hd by (cases "le_history le") (auto simp: take_Cons' AG_HISTORY_DEPTH_def)
  have he: "(ed_hist (abs_le le) = []) = (le_history_count le = 0)" using hl unfolding hd by (auto simp: AG_HISTORY_DEPTH_def)
  show "le_inv (ag_lineedit_remember le (Some b))" "abs_le (ag_lineedit_remember le (Some b)) = ed_remember (abs_le le) (c_text b)"
  proof -
    have "le_inv (ag_lineedit_remember le (Some b)) \<and> abs_le (ag_lineedit_remember le (Some b)) = ed_remember (abs_le le) (c_text b)"
    proof (cases "?s = [] \<or> (le_history_count le > 0 \<and> c_text (le_history le ! 0) = ?s)")
      case True
      then have "ag_lineedit_remember le (Some b) = le" by (auto simp: ag_lineedit_remember_def Let_def)
      moreover have "ed_remember (abs_le le) ?s = abs_le le" using True h0 he by (auto simp: ed_remember_def)
      ultimately show ?thesis using inv by simp
    next
      case False
      define keep where "keep = (if le_history_count le < AG_HISTORY_DEPTH then le_history_count le else AG_HISTORY_DEPTH - 1)"
      define n where "n = (if length ?s \<ge> AG_LINE_MAX then AG_LINE_MAX - 1 else length ?s)"
      define row where "row = (memcpy (le_history le ! 0) ?s n)[n := 0]"
      define cnt where "cnt = (if le_history_count le < AG_HISTORY_DEPTH then le_history_count le + 1 else le_history_count le)"
      have k: "keep < AG_HISTORY_DEPTH" "cnt = Suc keep" "keep = min (AG_HISTORY_DEPTH - 1) (le_history_count le)"
        using hl(3) by (auto simp: keep_def cnt_def AG_HISTORY_DEPTH_def)
      have sh: "shift_rows (le_history le) keep = le_history le ! 0 # take keep (le_history le) @ drop (Suc keep) (le_history le)"
        using shift_rows_eq k(1) hl(1) by simp
      have e: "ag_lineedit_remember le (Some b) = le\<lparr>le_history := row # take keep (le_history le) @ drop (Suc keep) (le_history le), le_history_count := cnt\<rparr>"
      proof -
        have c: "(?s = []) = False" "(le_history_count le > 0 \<and> c_text (le_history le ! 0) = ?s) = False" using False by auto
        show ?thesis
          unfolding ag_lineedit_remember_def option.case Let_def keep_def [symmetric] n_def [symmetric] cnt_def [symmetric] c if_False sh row_def
          by simp
      qed
      have n: "n \<le> length ?s" "n < AG_LINE_MAX" "take n ?s = take (AG_LINE_MAX - 1) ?s" by (auto simp: n_def AG_LINE_MAX_def)
      have l0: "length (le_history le ! 0) = AG_LINE_MAX" using hl by (simp add: buf_ok_def AG_HISTORY_DEPTH_def)
      have row: "buf_ok row" "c_text row = take (AG_LINE_MAX - 1) ?s"
        using buf_ok_filled [OF c_text_no_zero n(1,2) l0] c_text_filled(1) [OF c_text_no_zero n(1), of "le_history le ! 0"] n l0
        by (simp_all add: row_def)
      have "le_inv (ag_lineedit_remember le (Some b))"
        using inv row(1) k hl unfolding e le_inv_def by (auto dest: in_set_takeD in_set_dropD)
      moreover have "map c_text (take cnt (row # take keep (le_history le) @ drop (Suc keep) (le_history le))) =
          take AG_HISTORY_DEPTH (take (AG_LINE_MAX - 1) ?s # map c_text (take (le_history_count le) (le_history le)))"
      proof -
        have "take cnt (row # take keep (le_history le) @ drop (Suc keep) (le_history le)) = row # take keep (le_history le)"
          using k hl(1) by simp
        moreover have "take AG_HISTORY_DEPTH (x # map c_text (take (le_history_count le) (le_history le))) = x # map c_text (take keep (le_history le))" for x
          unfolding k(3) by (simp add: AG_HISTORY_DEPTH_def take_map take_Cons')
        ultimately show ?thesis using row(2) by simp
      qed
      then have "abs_le (ag_lineedit_remember le (Some b)) = ed_remember (abs_le le) ?s"
        using False h0 he unfolding e by (auto simp: abs_le_def ed_remember_def)
      ultimately show ?thesis by simp
    qed
    then show "le_inv (ag_lineedit_remember le (Some b))" "abs_le (ag_lineedit_remember le (Some b)) = ed_remember (abs_le le) (c_text b)" by simp_all
  qed
qed

lemma reset_refines:
  assumes "le_inv le"
  shows "le_inv (ag_lineedit_reset le)"
    and "abs_le (ag_lineedit_reset le) = (abs_le le)\<lparr>ed_line := [], ed_cur := 0, ed_pos := -1, ed_parked := []\<rparr>"
proof -
  have l: "length (le_buf le) = AG_LINE_MAX" "buf_ok (le_parked le)" using assms by (simp_all add: le_inv_def)
  have "0 < AG_LINE_MAX" by (simp add: AG_LINE_MAX_def)
  moreover from this have "buf_ok ((le_parked le)[0 := 0])" using l(2) unfolding buf_ok_def by (metis length_list_update set_update_memI)
  ultimately show "le_inv (ag_lineedit_reset le)" using assms by (simp add: le_inv_def ag_lineedit_reset_def)
  show "abs_le (ag_lineedit_reset le) = (abs_le le)\<lparr>ed_line := [], ed_cur := 0, ed_pos := -1, ed_parked := []\<rparr>"
    by (simp add: abs_le_def ag_lineedit_reset_def)
qed

lemma init_inv: "le_inv ag_lineedit_init"
  by (auto simp: le_inv_def ag_lineedit_init_def buf_ok_def AG_LINE_MAX_def AG_HISTORY_DEPTH_def)

text \<open>The copy that sets the line aside carries its terminator.\<close>

lemma parked_copy:
  assumes inv: "le_inv le"
  shows "buf_ok (memcpy (le_parked le) (le_buf le) (le_len le + 1))"
    and "c_text (memcpy (le_parked le) (le_buf le) (le_len le + 1)) = take (le_len le) (le_buf le)"
proof -
  let ?b = "le_buf le" and ?n = "le_len le" and ?p = "le_parked le"
  have l: "length ?b = AG_LINE_MAX" "?n < AG_LINE_MAX" "?b ! ?n = 0" "0 \<notin> set (take ?n ?b)" "length ?p = AG_LINE_MAX"
    using inv by (simp_all add: le_inv_def buf_ok_def)
  have e: "memcpy ?p ?b (?n + 1) = take ?n ?b @ 0 # drop (?n + 1) ?p" using l by (simp add: memcpy_def take_Suc_conv_app_nth)
  show "buf_ok (memcpy ?p ?b (?n + 1))" unfolding e buf_ok_def using l by simp
  show "c_text (memcpy ?p ?b (?n + 1)) = take ?n ?b" unfolding e by (rule c_text_append [OF l(4)])
qed

lemma browse_refines:
  assumes inv: "le_inv le" and d: "d = 1 \<or> d = -1"
  shows "le_inv (snd (browse_history le d)) \<and> fst (browse_history le d) = fst (ed_browse (abs_le le) (le_history_pos le + d)) \<and>
    abs_le (snd (browse_history le d)) = snd (ed_browse (abs_le le) (le_history_pos le + d))"
proof -
  let ?p = "le_history_pos le + d" and ?n = "le_history_count le"
  have hl: "length (le_history le) = AG_HISTORY_DEPTH" "?n \<le> AG_HISTORY_DEPTH" "-1 \<le> le_history_pos le" "\<forall>r \<in> set (le_history le). buf_ok r"
    using inv by (simp_all add: le_inv_def)
  have hist: "length (ed_hist (abs_le le)) = ?n" using hl by (simp add: abs_le_def)
  show ?thesis
  proof (cases "?n = 0 \<or> ?p < -1 \<or> int ?n \<le> ?p")
    case True
    then have "browse_history le d = (AG_LINE_IDLE, le)" using hl(3) d by (auto simp: browse_history_def Let_def max_def)
    moreover have "ed_browse (abs_le le) ?p = (AG_LINE_IDLE, abs_le le)"
      using True hist by (auto simp: ed_browse_def)
    ultimately show ?thesis using inv by simp
  next
    case False
    define pk where "pk = (if le_history_pos le = -1 then memcpy (le_parked le) (le_buf le) (le_len le + 1) else le_parked le)"
    define t where "t = (if ?p = -1 then pk else le_history le ! nat ?p)"
    define le2 where "le2 = le\<lparr>le_parked := pk, le_history_pos := ?p\<rparr>"
    have mx: "max (-1) ?p = ?p" "?p \<noteq> le_history_pos le" using False d by auto
    have nE: "?n \<noteq> 0" "\<not> int ?n \<le> ?p" using False by auto
    have e: "browse_history le d = (AG_LINE_CHANGED, ag_lineedit_set le2 (Some t))"
      unfolding browse_history_def Let_def mx(1) using nE mx(2) by (simp add: le2_def t_def pk_def)
    have pk: "buf_ok pk" "c_text pk = (if le_history_pos le = -1 then take (le_len le) (le_buf le) else c_text (le_parked le))"
      using parked_copy [OF inv] inv by (auto simp: pk_def le_inv_def)
    have inv2: "le_inv le2" using inv pk(1) False by (auto simp: le_inv_def le2_def)
    have lt: "c_text t = (if ?p = -1 then c_text pk else ed_hist (abs_le le) ! nat ?p)"
      using False hl(1,2) by (auto simp: t_def abs_le_def)
    have a2: "abs_le le2 = (abs_le le)\<lparr>ed_pos := ?p, ed_parked := (if ?p = -1 then [] else c_text pk)\<rparr>"
      by (simp add: abs_le_def le2_def)
    have pe: "c_text pk = (if ed_pos (abs_le le) = -1 then ed_line (abs_le le) else ed_parked (abs_le le))"
      using pk(2) by (simp add: abs_le_def)
    have cond: "(ed_hist (abs_le le) = [] \<or> ?p < -1 \<or> int (length (ed_hist (abs_le le))) \<le> ?p) = False" using hist False by auto
    have "ed_browse (abs_le le) ?p = (AG_LINE_CHANGED, ed_set (abs_le le2) (c_text t))"
      unfolding ed_browse_def cond if_False Let_def a2 lt pe ..
    then show ?thesis using set_refines [OF inv2 refl] unfolding e by simp
  qed
qed

subsection \<open>The keys\<close>

text \<open>A step of the code beside a step of the specification: the same result, and states that correspond.\<close>

definition le_sim :: "ag_line_result \<times> ag_lineedit \<Rightarrow> ag_line_result \<times> editor \<Rightarrow> bool" where
  "le_sim x y \<longleftrightarrow> fst x = fst y \<and> le_inv (snd x) \<and> abs_le (snd x) = snd y"

named_theorems le_sims

lemma sim_idle [le_sims]: "le_inv le \<Longrightarrow> le_sim (r, le) (r, abs_le le)"
  by (simp add: le_sim_def)

lemma sim_cut [le_sims]:
  "le_inv le \<Longrightarrow> start < fin \<Longrightarrow> fin \<le> le_len le \<Longrightarrow> le_sim (AG_LINE_CHANGED, erase_range le start fin) (ed_cut (abs_le le) start fin)"
  by (simp add: le_sim_def ed_cut_def erase_refines)

lemma sim_no_cut [le_sims]: "le_inv le \<Longrightarrow> fin \<le> start \<Longrightarrow> le_sim (AG_LINE_IDLE, le) (ed_cut (abs_le le) start fin)"
  by (simp add: le_sim_def ed_cut_def)

lemma sim_move [le_sims]: "le_inv le \<Longrightarrow> p \<le> le_len le \<Longrightarrow> le_sim (move_to le p) (ed_move (abs_le le) p)"
  by (simp add: le_sim_def move_to_def ed_move_def le_inv_def abs_le_def)

lemma sim_browse [le_sims]: "le_inv le \<Longrightarrow> d = 1 \<or> d = -1 \<Longrightarrow> le_sim (browse_history le d) (ed_browse (abs_le le) (le_history_pos le + d))"
  using browse_refines unfolding le_sim_def by blast

lemma sim_wipe [le_sims]:
  assumes "le_inv le" and "le_len le \<noteq> 0"
  shows "le_sim (AG_LINE_CHANGED, le\<lparr>le_len := 0, le_cursor := 0, le_buf := (le_buf le)[0 := 0]\<rparr>) (ed_cut (abs_le le) 0 (le_len le))"
proof -
  have "length (le_buf le) = AG_LINE_MAX" "0 < AG_LINE_MAX" using assms by (simp_all add: le_inv_def AG_LINE_MAX_def)
  then show ?thesis using assms by (simp add: le_sim_def ed_cut_def ed_erase_def le_inv_def abs_le_def)
qed

lemma sim_insert [le_sims]:
  assumes inv: "le_inv le" and u: "0x20 \<le> u"
  shows "le_sim (case insert_char cp le u of (ok, le1) \<Rightarrow> (if ok then AG_LINE_CHANGED else AG_LINE_IDLE, le1))
    (case ag_cp_from_unicode cp u of
       None \<Rightarrow> (AG_LINE_IDLE, abs_le le)
     | Some b \<Rightarrow> if le_len le + 1 < AG_LINE_MAX then (AG_LINE_CHANGED, ed_put (abs_le le) b) else (AG_LINE_IDLE, abs_le le))"
proof (cases "ag_cp_from_unicode cp u")
  case None
  then show ?thesis using inv by (simp add: insert_char_def le_sim_def)
next
  case (Some b)
  show ?thesis
  proof (cases "le_len le + 1 < AG_LINE_MAX")
    case True
    then obtain le' where "insert_char cp le u = (True, le')" "le_inv le'" "abs_le le' = ed_put (abs_le le) b"
      using insert_refines [OF inv Some u] by blast
    then show ?thesis using Some True by (simp add: le_sim_def)
  next
    case False
    then have "insert_char cp le u = (False, le)" using Some by (simp add: insert_char_def)
    then show ?thesis using Some False inv by (simp add: le_sim_def)
  qed
qed

lemma abs_le_sel [simp]:
  "le_inv le \<Longrightarrow> length (ed_line (abs_le le)) = le_len le" "ed_cur (abs_le le) = le_cursor le" "ed_pos (abs_le le) = le_history_pos le"
  "le_inv le \<Longrightarrow> (ed_line (abs_le le) = []) = (le_len le = 0)"
  by (auto simp: abs_le_def le_inv_def)

lemma step_bounds: "le_inv le \<Longrightarrow> step_right le (le_cursor le) = min (le_len le) (le_cursor le + 1)" "step_left le pos = pos - 1"
  by (auto simp: step_right_def step_left_def le_inv_def)

lemma move_if: "(if c = le_cursor le then (AG_LINE_IDLE, le) else (AG_LINE_CHANGED, le\<lparr>le_cursor := c\<rparr>)) = move_to le c"
  by (simp add: move_to_def)

lemma ctrl_refines:
  assumes inv: "le_inv le"
  shows "le_sim (ctrl_key le k) (ed_ctrl (abs_le le) k)"
proof -
  note b = word_left_refines [OF inv] word_right_refines [OF inv] step_bounds [of le]
  have c: "le_cursor le \<le> le_len le" using inv by (simp add: le_inv_def)
  show ?thesis
    by (cases k) (use inv b c in \<open>auto simp: ctrl_key_def ed_ctrl_def Let_def intro!: le_sims\<close>)
qed

text \<open>The keys that erase one character or step over it.\<close>

lemma sim_back:
  "le_inv le \<Longrightarrow> le_sim (if le_cursor le = 0 then (AG_LINE_IDLE, le)
      else (AG_LINE_CHANGED, erase_range le (step_left le (le_cursor le)) (le_cursor le)))
    (ed_cut (abs_le le) (le_cursor le - 1) (le_cursor le))"
  unfolding step_bounds by (auto intro!: sim_cut sim_no_cut simp: le_inv_def)

lemma sim_delete:
  "le_inv le \<Longrightarrow> le_sim (if le_cursor le \<ge> le_len le then (AG_LINE_IDLE, le)
      else (AG_LINE_CHANGED, erase_range le (le_cursor le) (step_right le (le_cursor le))))
    (ed_cut (abs_le le) (le_cursor le) (min (le_len le) (le_cursor le + 1)))"
  by (auto intro!: sim_cut sim_no_cut simp: step_bounds)

lemma sim_left:
  assumes "le_inv le"
  shows "le_sim (if le_cursor le = 0 then (AG_LINE_IDLE, le) else (AG_LINE_CHANGED, le\<lparr>le_cursor := step_left le (le_cursor le)\<rparr>))
    (ed_move (abs_le le) (le_cursor le - 1))"
proof -
  have "le_cursor le - 1 \<le> le_len le" using assms by (auto simp: le_inv_def)
  then show ?thesis using sim_move [OF assms, of "le_cursor le - 1"] by (auto simp: move_to_def step_bounds split: if_splits)
qed

lemma sim_right:
  assumes "le_inv le"
  shows "le_sim (if le_cursor le \<ge> le_len le then (AG_LINE_IDLE, le) else (AG_LINE_CHANGED, le\<lparr>le_cursor := step_right le (le_cursor le)\<rparr>))
    (ed_move (abs_le le) (min (le_len le) (le_cursor le + 1)))"
proof -
  have "le_cursor le \<le> le_len le" using assms by (auto simp: le_inv_def)
  then show ?thesis using sim_move [OF assms, of "min (le_len le) (le_cursor le + 1)"]
    by (cases "le_cursor le = le_len le") (auto simp: move_to_def step_bounds assms min_def)
qed

text \<open>The keys that are text.\<close>

lemma text_key_refines:
  assumes inv: "le_inv le"
  shows "le_sim
    (if alt then (AG_LINE_IDLE, le)
     else if 0x20 \<le> u \<and> u \<noteq> 0x7f then
       (case insert_char active le u of (ok, le1) \<Rightarrow> (if ok then AG_LINE_CHANGED else AG_LINE_IDLE, le1))
     else (AG_LINE_IDLE, le))
    (if alt \<or> u < 0x20 \<or> u = 0x7f then (AG_LINE_IDLE, abs_le le)
     else case ag_cp_from_unicode active u of
            None \<Rightarrow> (AG_LINE_IDLE, abs_le le)
          | Some b \<Rightarrow> if length (ed_line (abs_le le)) + 1 < AG_LINE_MAX then (AG_LINE_CHANGED, ed_put (abs_le le) b) else (AG_LINE_IDLE, abs_le le))"
proof (cases "alt \<or> u < 0x20 \<or> u = 0x7f")
  case True
  then show ?thesis using sim_idle [OF inv] by (auto simp: not_le)
next
  case False
  then have "\<not> alt" "0x20 \<le> u" "u \<noteq> 0x7f" by auto
  then show ?thesis unfolding abs_le_sel(1) [OF inv] using sim_insert [OF inv, of u active] False by simp
qed

lemma key_refines:
  assumes inv: "le_inv le"
  shows "le_sim (ag_lineedit_key active le ev) (ed_key active (abs_le le) ev)"
proof -
  have br: "le_sim (browse_history le 1) (ed_browse (abs_le le) (le_history_pos le + 1))"
    "le_sim (browse_history le (-1)) (ed_browse (abs_le le) (le_history_pos le - 1))"
    using sim_browse [OF inv, of 1] sim_browse [OF inv, of "-1"] by simp_all
  note f = text_key_refines [OF inv, of "ev_alt ev" "ev_unicode ev" active, unfolded abs_le_sel(1) [OF inv]]
  have hm: "le_sim (move_to le 0) (ed_move (abs_le le) 0)" "le_sim (move_to le (le_len le)) (ed_move (abs_le le) (le_len le))"
    using sim_move [OF inv] by simp_all
  note k = sim_idle [OF inv] sim_back [OF inv] sim_delete [OF inv] sim_left [OF inv] sim_right [OF inv] hm br f
  consider "\<not> ev_key_down ev" | "ev_key_down ev" "ev_ctrl ev" | "ev_key_down ev" "\<not> ev_ctrl ev" by blast
  then show ?thesis
  proof cases
    case 1
    then show ?thesis using sim_idle [OF inv] by (simp add: ag_lineedit_key_def ed_key_def)
  next
    case 2
    then show ?thesis using ctrl_refines [OF inv] by (simp add: ag_lineedit_key_def ed_key_def)
  next
    case 3
    have gd: "(\<not> ev_key_down ev) = False" "ev_ctrl ev = False" using 3 by simp_all
    show ?thesis
      unfolding ag_lineedit_key_def ed_key_def Let_def gd if_False abs_le_sel(1) [OF inv] abs_le_sel(2,3)
      by (cases "ev_keycode ev") (simp_all only: ag_keycode.case k)
  qed
qed

subsection \<open>Sessions\<close>

lemma step_refines:
  assumes inv: "le_inv le"
  shows "le_sim (le_step le p) (ed_step (abs_le le) p)"
proof (cases p)
  case (LeKey active ev)
  then show ?thesis using key_refines [OF inv] by simp
next
  case (LeSet t)
  have "ag_lineedit_set le t = ag_lineedit_set le (Some (opt_text t))"
    by (cases t) (simp_all add: ag_lineedit_set_def opt_text_def c_text_def)
  moreover have "c_text (opt_text t) = opt_text t" by (cases t) (simp_all add: opt_text_def c_text_def)
  ultimately show ?thesis using LeSet set_refines [OF inv refl, of "opt_text t"] by (simp add: le_sim_def)
next
  case (LeRemember t)
  show ?thesis
  proof (cases t)
    case None
    then show ?thesis using LeRemember inv by (simp add: le_sim_def ag_lineedit_remember_def opt_text_def ed_remember_def)
  next
    case (Some b)
    then show ?thesis using LeRemember remember_refines [OF inv, of b] by (simp add: le_sim_def opt_text_def)
  qed
next
  case LeReset
  then show ?thesis using reset_refines [OF inv] by (simp add: le_sim_def)
qed

lemma run_refines_from:
  "le_inv le \<Longrightarrow> fst (le_run le ops) = fst (ed_run (abs_le le) ops) \<and> le_inv (snd (le_run le ops)) \<and>
    abs_le (snd (le_run le ops)) = snd (ed_run (abs_le le) ops)"
proof (induction ops arbitrary: le)
  case Nil
  then show ?case by simp
next
  case (Cons p ops)
  have s: "le_sim (le_step le p) (ed_step (abs_le le) p)" by (rule step_refines [OF Cons.prems])
  then have "le_inv (snd (le_step le p))" by (simp add: le_sim_def)
  note IH = Cons.IH [OF this]
  show ?case using s IH by (simp add: le_sim_def split_beta)
qed

lemma abs_init: "abs_le ag_lineedit_init = ed_init"
  by (simp add: abs_le_def ag_lineedit_init_def ed_init_def)

lemma inv_text: "le_inv le \<Longrightarrow> c_text (le_buf le) = take (le_len le) (le_buf le)"
proof -
  assume "le_inv le"
  then have i: "length (le_buf le) = AG_LINE_MAX" "le_len le < AG_LINE_MAX" "le_buf le ! le_len le = 0" "0 \<notin> set (take (le_len le) (le_buf le))"
    by (simp_all add: le_inv_def)
  have "le_buf le = take (le_len le) (le_buf le) @ 0 # drop (Suc (le_len le)) (le_buf le)" using i(1-3) id_take_nth_drop by metis
  from arg_cong [OF this, of c_text] show ?thesis using c_text_append [OF i(4)] by simp
qed

lemmas run_refines = run_refines_from [OF init_inv, unfolded abs_init]

text \<open>
  C10. Whatever is typed, set, remembered or discarded, from a fresh editor on, under whichever code page is active
  at each key, the editor answers every key as the specification does and its buffers hold the line, the cursor, the
  eight lines of history and the line set aside that the specification has: the moves of \<open>memmove\<close> on arrays with a
  terminator are the edits of a list of characters.
\<close>

theorem lineedit_refines:
  "fst (le_run ag_lineedit_init ops) = fst (ed_run ed_init ops) \<and> abs_le (snd (le_run ag_lineedit_init ops)) = snd (ed_run ed_init ops)"
  using run_refines by blast

text \<open>
  The editor's fields are well formed at every moment: the buffer is \<open>AG_LINE_MAX\<close> bytes with its terminator in it,
  \<open>len\<close> is the length of the string it holds, the cursor stands in the line, the history has at most
  \<open>AG_HISTORY_DEPTH\<close> rows, each a terminated string, and \<open>history_pos\<close> is -1 or names a row in use.
\<close>

theorem lineedit_well_formed:
  "let le = snd (le_run ag_lineedit_init ops) in
     length (le_buf le) = AG_LINE_MAX \<and> le_len le = length (c_text (le_buf le)) \<and> le_len le < AG_LINE_MAX \<and>
     le_cursor le \<le> le_len le \<and> length (le_history le) = AG_HISTORY_DEPTH \<and> le_history_count le \<le> AG_HISTORY_DEPTH \<and>
     list_all (\<lambda>r. length r = AG_LINE_MAX \<and> length (c_text r) < AG_LINE_MAX) (le_parked le # le_history le) \<and>
     -1 \<le> le_history_pos le \<and> le_history_pos le < max 1 (int (le_history_count le))"
proof -
  define le where "le = snd (le_run ag_lineedit_init ops)"
  have inv: "le_inv le" unfolding le_def using run_refines by blast
  then have i: "length (le_buf le) = AG_LINE_MAX" "le_len le < AG_LINE_MAX"
    "\<forall>r \<in> set (le_history le). buf_ok r" "buf_ok (le_parked le)" by (simp_all add: le_inv_def)
  have "c_text (le_buf le) = take (le_len le) (le_buf le)" by (rule inv_text [OF inv])
  then have "length (c_text (le_buf le)) = le_len le" using i(1,2) by simp
  moreover have "list_all (\<lambda>r. length r = AG_LINE_MAX \<and> length (c_text r) < AG_LINE_MAX) (le_parked le # le_history le)"
    using i(3,4) c_text_len by (auto simp: list_all_iff buf_ok_def)
  ultimately show ?thesis unfolding le_def [symmetric] Let_def using inv by (auto simp: le_inv_def)
qed

text \<open>
  Looking back and returning loses nothing: when a line is being typed and something is remembered, Up and then Down
  give back the very line that was being typed, with the cursor at its end, and the history is as it was.
\<close>

theorem lineedit_up_down:
  assumes "le = snd (le_run ag_lineedit_init ops)" and "le_history_pos le = -1" and "0 < le_history_count le"
    and "up = \<lparr>ev_key_down = True, ev_keycode = AG_KEY_UP, ev_ctrl = False, ev_alt = alt, ev_unicode = u\<rparr>"
    and "down = \<lparr>ev_key_down = True, ev_keycode = AG_KEY_DOWN, ev_ctrl = False, ev_alt = alt', ev_unicode = u'\<rparr>"
    and "le2 = snd (ag_lineedit_key cp' (snd (ag_lineedit_key cp le up)) down)"
  shows "abs_le le2 = (abs_le le)\<lparr>ed_cur := le_len le\<rparr>"
proof -
  have inv: "le_inv le" unfolding assms(1) using run_refines by blast
  have s: "le_sim (ag_lineedit_key cp le up) (ed_key cp (abs_le le) up)" by (rule key_refines [OF inv])
  then have inv1: "le_inv (snd (ag_lineedit_key cp le up))" by (simp add: le_sim_def)
  have a2: "abs_le le2 = snd (ed_key cp' (snd (ed_key cp (abs_le le) up)) down)"
    using key_refines [OF inv1, of cp' down] s by (simp add: le_sim_def assms(6))
  have h: "ed_hist (abs_le le) \<noteq> []" and p: "ed_pos (abs_le le) = -1" "ed_parked (abs_le le) = []"
    using inv assms(2,3) by (auto simp: abs_le_def le_inv_def AG_HISTORY_DEPTH_def)
  have len: "length (ed_line (abs_le le)) = le_len le" "le_len le < AG_LINE_MAX" using inv by (simp_all add: le_inv_def abs_le_def)
  show ?thesis unfolding a2 using h p len
    by (simp add: assms(4,5) ed_key_def ed_browse_def ed_set_def Let_def)
qed

theorem lineedit_up_down_witness:
  "let key = (\<lambda>k u. \<lparr>ev_key_down = True, ev_keycode = k, ev_ctrl = False, ev_alt = False, ev_unicode = u\<rparr>);
       le = snd (le_run ag_lineedit_init [LeRemember (Some [0x6c, 0x73, 0]), LeKey (Some AG_CP_866) (key AG_KEY_OTHER 0x63)]) in
   ed_line (abs_le (snd (ag_lineedit_key None (snd (ag_lineedit_key None le (key AG_KEY_UP 0))) (key AG_KEY_DOWN 0)))) = [0x63]"
proof -
  define key where "key = (\<lambda>k u. \<lparr>ev_key_down = True, ev_keycode = k, ev_ctrl = False, ev_alt = False, ev_unicode = u\<rparr>)"
  define ops where "ops = [LeRemember (Some [0x6c, 0x73, 0]), LeKey (Some AG_CP_866) (key AG_KEY_OTHER 0x63)]"
  define le where "le = snd (le_run ag_lineedit_init ops)"
  have r: "abs_le le = snd (ed_run ed_init ops)" unfolding le_def using run_refines by blast
  have e: "snd (ed_run ed_init ops) = \<lparr>ed_line = [0x63], ed_cur = 1, ed_hist = [[0x6c, 0x73]], ed_pos = -1, ed_parked = []\<rparr>"
    unfolding ops_def key_def by code_simp
  have "le_history_pos le = -1" "0 < le_history_count le" using r unfolding e
    by (simp add: abs_le_def, cases "le_history_count le", auto simp: abs_le_def)
  from lineedit_up_down [OF le_def this key_def [THEN fun_cong, THEN fun_cong] key_def [THEN fun_cong, THEN fun_cong] refl]
  have "abs_le (snd (ag_lineedit_key None (snd (ag_lineedit_key None le (key AG_KEY_UP 0))) (key AG_KEY_DOWN 0))) = (abs_le le)\<lparr>ed_cur := le_len le\<rparr>" .
  then show ?thesis unfolding Let_def using r e by (simp add: le_def ops_def key_def)
qed

end
