(* ===== verification/Vtin.thy ===== *)
theory Vtin
  imports LineEdit
begin

text \<open>
  \<open>console/vtin.c\<close>: what a terminal sends, turned into key and pointer events, one byte at a time. Key codes are the numbers of
  \<open>keys.h\<close>, bytes their codes; a parameter of a sequence stays below ten million, so \<open>int32_t\<close> is \<open>int\<close>. An event is a record of all
  the fields of the union; those of the other kind are zero, as \<open>memset\<close> leaves them.
\<close>

section \<open>Events\<close>

datatype ag_event_type =
    AG_EV_NONE | AG_EV_KEY_DOWN | AG_EV_KEY_UP | AG_EV_CHAR | AG_EV_POINTER_DOWN | AG_EV_POINTER_UP | AG_EV_POINTER_MOVE | AG_EV_WHEEL
  | AG_EV_DEVICE_ADDED | AG_EV_DEVICE_REMOVED | AG_EV_MEDIA_INSERTED | AG_EV_MEDIA_REMOVED | AG_EV_FOCUS_GAINED | AG_EV_FOCUS_LOST | AG_EV_QUIT

record vt_event =
  e_type :: ag_event_type
  e_keycode :: u16
  e_unicode :: u32
  e_mods :: u16
  e_repeat :: bool
  e_x :: u16
  e_y :: u16
  e_dy :: int
  e_buttons :: u8

text \<open>The codes of \<open>keys.h\<close> that the decoder names, and the modifiers.\<close>

abbreviation KEY_NONE :: u16 where "KEY_NONE \<equiv> 0x00"
abbreviation KEY_A :: u16 where "KEY_A \<equiv> 0x04"
abbreviation KEY_1 :: u16 where "KEY_1 \<equiv> 0x1e"
abbreviation KEY_6 :: u16 where "KEY_6 \<equiv> 0x23"
abbreviation KEY_0 :: u16 where "KEY_0 \<equiv> 0x27"
abbreviation KEY_ENTER :: u16 where "KEY_ENTER \<equiv> 0x28"
abbreviation KEY_ESC :: u16 where "KEY_ESC \<equiv> 0x29"
abbreviation KEY_BACKSPACE :: u16 where "KEY_BACKSPACE \<equiv> 0x2a"
abbreviation KEY_TAB :: u16 where "KEY_TAB \<equiv> 0x2b"
abbreviation KEY_SPACE :: u16 where "KEY_SPACE \<equiv> 0x2c"
abbreviation KEY_MINUS :: u16 where "KEY_MINUS \<equiv> 0x2d"
abbreviation KEY_RBRACKET :: u16 where "KEY_RBRACKET \<equiv> 0x30"
abbreviation KEY_BACKSLASH :: u16 where "KEY_BACKSLASH \<equiv> 0x31"
abbreviation KEY_F1 :: u16 where "KEY_F1 \<equiv> 0x3a"
abbreviation KEY_F2 :: u16 where "KEY_F2 \<equiv> 0x3b"
abbreviation KEY_F3 :: u16 where "KEY_F3 \<equiv> 0x3c"
abbreviation KEY_F4 :: u16 where "KEY_F4 \<equiv> 0x3d"
abbreviation KEY_INSERT :: u16 where "KEY_INSERT \<equiv> 0x49"
abbreviation KEY_HOME :: u16 where "KEY_HOME \<equiv> 0x4a"
abbreviation KEY_PAGEUP :: u16 where "KEY_PAGEUP \<equiv> 0x4b"
abbreviation KEY_DELETE :: u16 where "KEY_DELETE \<equiv> 0x4c"
abbreviation KEY_END :: u16 where "KEY_END \<equiv> 0x4d"
abbreviation KEY_PAGEDOWN :: u16 where "KEY_PAGEDOWN \<equiv> 0x4e"
abbreviation KEY_RIGHT :: u16 where "KEY_RIGHT \<equiv> 0x4f"
abbreviation KEY_LEFT :: u16 where "KEY_LEFT \<equiv> 0x50"
abbreviation KEY_DOWN :: u16 where "KEY_DOWN \<equiv> 0x51"
abbreviation KEY_UP :: u16 where "KEY_UP \<equiv> 0x52"
abbreviation KEY_KP_ENTER :: u16 where "KEY_KP_ENTER \<equiv> 0x58"
abbreviation MOD_SHIFT :: u16 where "MOD_SHIFT \<equiv> 1"
abbreviation MOD_CTRL :: u16 where "MOD_CTRL \<equiv> 2"
abbreviation MOD_ALT :: u16 where "MOD_ALT \<equiv> 4"
abbreviation MOD_GUI :: u16 where "MOD_GUI \<equiv> 8"

definition ev_none :: vt_event where
  "ev_none = \<lparr>e_type = AG_EV_NONE, e_keycode = 0, e_unicode = 0, e_mods = 0, e_repeat = False, e_x = 0, e_y = 0, e_dy = 0, e_buttons = 0\<rparr>"

definition ev_key :: "u16 \<Rightarrow> u32 \<Rightarrow> u16 \<Rightarrow> vt_event" where
  "ev_key keycode unicode mods = ev_none\<lparr>e_type := AG_EV_KEY_DOWN, e_keycode := keycode, e_unicode := unicode, e_mods := mods\<rparr>"

definition ev_key_typed :: "ag_event_type \<Rightarrow> u16 \<Rightarrow> u32 \<Rightarrow> u16 \<Rightarrow> vt_event" where
  "ev_key_typed type keycode unicode mods =
     ev_none\<lparr>e_type := type, e_keycode := keycode, e_unicode := (if type = AG_EV_KEY_UP then 0 else unicode), e_mods := mods\<rparr>"

text \<open>The punctuation of a US keyboard: the character, its key, and whether it is shifted.\<close>

definition k_punct :: "(u8 \<times> u16 \<times> u16) list" where
  "k_punct =
     [(0x30, KEY_0, 0), (0x20, KEY_SPACE, 0), (0x21, 0x1e, MOD_SHIFT), (0x40, 0x1f, MOD_SHIFT), (0x23, 0x20, MOD_SHIFT), (0x24, 0x21, MOD_SHIFT),
      (0x25, 0x22, MOD_SHIFT), (0x5E, 0x23, MOD_SHIFT), (0x26, 0x24, MOD_SHIFT), (0x2A, 0x25, MOD_SHIFT), (0x28, 0x26, MOD_SHIFT),
      (0x29, KEY_0, MOD_SHIFT), (0x2D, KEY_MINUS, 0), (0x5F, KEY_MINUS, MOD_SHIFT), (0x3D, 0x2e, 0), (0x2B, 0x2e, MOD_SHIFT),
      (0x5B, 0x2f, 0), (0x7B, 0x2f, MOD_SHIFT), (0x5D, KEY_RBRACKET, 0), (0x7D, KEY_RBRACKET, MOD_SHIFT), (0x5C, KEY_BACKSLASH, 0),
      (0x7C, KEY_BACKSLASH, MOD_SHIFT), (0x3B, 0x33, 0), (0x3A, 0x33, MOD_SHIFT), (0x27, 0x34, 0), (0x22, 0x34, MOD_SHIFT),
      (0x60, 0x35, 0), (0x7E, 0x35, MOD_SHIFT), (0x2C, 0x36, 0), (0x3C, 0x36, MOD_SHIFT), (0x2E, 0x37, 0), (0x3E, 0x37, MOD_SHIFT),
      (0x2F, 0x38, 0), (0x3F, 0x38, MOD_SHIFT)]"

definition ag_key_from_ascii :: "u8 \<Rightarrow> u16 \<times> u16" where
  "ag_key_from_ascii c =
     (if c \<ge> 0x61 \<and> c \<le> 0x7A then (KEY_A + ucast (c - 0x61), 0)
      else if c \<ge> 0x41 \<and> c \<le> 0x5A then (KEY_A + ucast (c - 0x41), MOD_SHIFT)
      else if c \<ge> 0x31 \<and> c \<le> 0x39 then (KEY_1 + ucast (c - 0x31), 0)
      else case map_of k_punct c of Some km \<Rightarrow> km | None \<Rightarrow> (KEY_NONE, 0))"

section \<open>The decoder\<close>

datatype ag_vtin_state = AG_VTIN_GROUND | AG_VTIN_ESC | AG_VTIN_CSI | AG_VTIN_SS3 | AG_VTIN_UTF8

definition AG_VTIN_SEQ_MAX :: nat where "AG_VTIN_SEQ_MAX = 24"
definition AG_VTIN_MAX_PARAMS :: nat where "AG_VTIN_MAX_PARAMS = 6"

record ag_vtin =
  vi_state :: ag_vtin_state
  vi_seq :: "u8 list"
  vi_seqlen :: nat
  vi_cp :: u32
  vi_remaining :: u8
  vi_buttons :: u8

definition ag_vtin_init :: ag_vtin where
  "ag_vtin_init = \<lparr>vi_state = AG_VTIN_GROUND, vi_seq = replicate AG_VTIN_SEQ_MAX 0, vi_seqlen = 0, vi_cp = 0, vi_remaining = 0, vi_buttons = 0\<rparr>"

definition ag_vtin_busy :: "ag_vtin \<Rightarrow> bool" where
  "ag_vtin_busy vt \<longleftrightarrow> vi_state vt \<noteq> AG_VTIN_GROUND"

record csi_params =
  cp_value :: "int list"
  cp_event :: int
  cp_count :: nat
  cp_prefix :: u8

definition more_digit :: "int \<Rightarrow> u8 \<Rightarrow> int" where
  "more_digit v c = (let base = (if v < 0 then 0 else v) in if base < 1000000 then base * 10 + (uint c - 0x30) else v)"

definition param_char :: "csi_params \<times> bool \<Rightarrow> u8 \<Rightarrow> csi_params \<times> bool" where
  "param_char = (\<lambda>(p, in_event) c.
     if c \<ge> 0x30 \<and> c \<le> 0x39 then
       if in_event then (p\<lparr>cp_event := more_digit (cp_event p) c\<rparr>, in_event)
       else
         let n = (if cp_count p = 0 then 1 else cp_count p)
         in (p\<lparr>cp_count := n, cp_value := (cp_value p)[n - 1 := more_digit (cp_value p ! (n - 1)) c]\<rparr>, in_event)
     else if c = 0x3A then (p\<lparr>cp_event := 0\<rparr>, True)
     else if c = 0x3B then
       let n = (if cp_count p = 0 then 1 else cp_count p)
       in (p\<lparr>cp_count := (if n < AG_VTIN_MAX_PARAMS then n + 1 else n)\<rparr>, False)
     else (p, in_event))"

definition parse_params :: "u8 list \<Rightarrow> nat \<Rightarrow> csi_params" where
  "parse_params seq len =
     (let p = \<lparr>cp_value = replicate AG_VTIN_MAX_PARAMS (-1), cp_event = -1, cp_count = 0, cp_prefix = 0\<rparr>;
          pre = (len > 0 \<and> (seq ! 0 = 0x3F \<or> seq ! 0 = 0x3C \<or> seq ! 0 = 0x3E))
      in fst (foldl param_char (if pre then p\<lparr>cp_prefix := seq ! 0\<rparr> else p, False) (drop (if pre then 1 else 0) (take len seq))))"

definition param :: "csi_params \<Rightarrow> nat \<Rightarrow> int \<Rightarrow> int" where
  "param p index fallback = (if index \<ge> cp_count p \<or> cp_value p ! index < 0 then fallback else cp_value p ! index)"

definition decode_mods :: "int \<Rightarrow> u16" where
  "decode_mods encoded =
     (if encoded \<le> 1 then 0
      else
        let bits = encoded - 1
        in (if bits AND 1 \<noteq> 0 then MOD_SHIFT else 0) OR (if bits AND 2 \<noteq> 0 then MOD_ALT else 0) OR
           (if bits AND 4 \<noteq> 0 then MOD_CTRL else 0) OR (if bits AND 8 \<noteq> 0 then MOD_GUI else 0))"

definition k_tilde :: "(int \<times> u16) list" where
  "k_tilde = [(1, KEY_HOME), (2, KEY_INSERT), (3, KEY_DELETE), (4, KEY_END), (5, KEY_PAGEUP), (6, KEY_PAGEDOWN), (7, KEY_HOME), (8, KEY_END),
     (11, 0x3a), (12, 0x3b), (13, 0x3c), (14, 0x3d), (15, 0x3e), (17, 0x3f), (18, 0x40), (19, 0x41), (20, 0x42), (21, 0x43), (23, 0x44), (24, 0x45)]"

definition tilde_key :: "int \<Rightarrow> u16" where
  "tilde_key n = (case map_of k_tilde n of Some k \<Rightarrow> k | None \<Rightarrow> KEY_NONE)"

definition handle_mouse :: "ag_vtin \<Rightarrow> csi_params \<Rightarrow> u8 \<Rightarrow> ag_vtin \<times> vt_event option" where
  "handle_mouse vt p final =
     (let b = param p 0 0;
          ev = ev_none\<lparr>e_x := word_of_int (param p 1 1 - 1), e_y := word_of_int (param p 2 1 - 1)\<rparr>;
          held = push_bit (nat (b AND 3)) 1;
          (vt1, ev1) =
            (if b AND 64 \<noteq> 0 then (vt, ev\<lparr>e_type := AG_EV_WHEEL, e_dy := (if b AND 1 \<noteq> 0 then 1 else -1)\<rparr>)
             else if b AND 32 \<noteq> 0 then (vt, ev\<lparr>e_type := AG_EV_POINTER_MOVE\<rparr>)
             else if final = 0x4D then (vt\<lparr>vi_buttons := vi_buttons vt OR held\<rparr>, ev\<lparr>e_type := AG_EV_POINTER_DOWN\<rparr>)
             else (vt\<lparr>vi_buttons := vi_buttons vt AND NOT held\<rparr>, ev\<lparr>e_type := AG_EV_POINTER_UP\<rparr>))
      in (vt1, Some (ev1\<lparr>e_buttons := vi_buttons vt1\<rparr>)))"

text \<open>The keys that a letter ends a sequence for.\<close>

definition k_letters :: "(u8 \<times> u16) list" where
  "k_letters = [(0x41, KEY_UP), (0x42, KEY_DOWN), (0x43, KEY_RIGHT), (0x44, KEY_LEFT), (0x48, KEY_HOME), (0x46, KEY_END), (0x50, KEY_F1),
     (0x51, KEY_F2), (0x53, KEY_F4)]"

text \<open>The sequences of the kitty protocol and of the Windows Terminal.\<close>

definition csi_u :: "csi_params \<Rightarrow> vt_event option" where
  "csi_u p =
     (let cp = param p 0 (-1) in
      if cp < 0 then None
      else
        let (k, base_mods) =
              (if cp = 8 \<or> cp = 127 then (KEY_BACKSPACE, 0) else if cp = 9 then (KEY_TAB, 0) else if cp = 13 then (KEY_ENTER, 0)
               else if cp = 27 then (KEY_ESC, 0) else if cp \<ge> 0x20 \<and> cp < 0x7f then ag_key_from_ascii (word_of_int cp) else (KEY_NONE, 0));
            m = decode_mods (param p 1 1);
            unicode = (if m AND (MOD_CTRL OR MOD_ALT) \<noteq> 0 then 0 else word_of_int cp);
            mods = m OR (base_mods AND MOD_SHIFT)
        in Some (if cp_event p = 3 then ev_key_typed AG_EV_KEY_UP k 0 mods
                 else (ev_key_typed AG_EV_KEY_DOWN k unicode mods)\<lparr>e_repeat := (cp_event p = 2)\<rparr>))"

definition k_virtual :: "(int \<times> u16) list" where
  "k_virtual = [(0x08, KEY_BACKSPACE), (0x09, KEY_TAB), (0x0D, KEY_ENTER), (0x1B, KEY_ESC), (0x20, KEY_SPACE), (0x25, KEY_LEFT), (0x26, KEY_UP),
     (0x27, KEY_RIGHT), (0x28, KEY_DOWN), (0x2D, KEY_INSERT), (0x2E, KEY_DELETE), (0x24, KEY_HOME), (0x23, KEY_END), (0x21, KEY_PAGEUP),
     (0x22, KEY_PAGEDOWN)]"

definition csi_win32 :: "csi_params \<Rightarrow> vt_event option" where
  "csi_win32 p =
     (let vk = param p 0 (-1); uc = param p 2 0; kd = param p 3 1 in
      if vk < 0 then None
      else
        let (k, base_mods) =
              (if vk \<ge> 0x41 \<and> vk \<le> 0x5A then (KEY_A + word_of_int (vk - 0x41), 0)
               else if vk \<ge> 0x30 \<and> vk \<le> 0x39 then (if vk = 0x30 then KEY_0 else KEY_1 + word_of_int (vk - 0x31), 0)
               else case map_of k_virtual vk of
                      Some k \<Rightarrow> (k, 0)
                    | None \<Rightarrow> if uc \<ge> 0x20 \<and> uc < 0x7f then ag_key_from_ascii (word_of_int uc) else (KEY_NONE, 0))
        in if k = KEY_NONE then None
           else Some (ev_key_typed (if kd \<noteq> 0 then AG_EV_KEY_DOWN else AG_EV_KEY_UP) k
                        (if kd \<noteq> 0 \<and> uc \<ge> 0x20 \<and> uc < 0x7f then word_of_int uc else 0) base_mods))"

definition handle_csi :: "ag_vtin \<Rightarrow> u8 \<Rightarrow> ag_vtin \<times> vt_event option" where
  "handle_csi vt final =
     (let p = parse_params (vi_seq vt) (vi_seqlen vt) in
      if cp_prefix p = 0x3C then handle_mouse vt p final
      else
        (vt, case map_of k_letters final of
               Some k \<Rightarrow> Some (ev_key k 0 (decode_mods (param p 1 1)))
             | None \<Rightarrow>
                 if final = 0x5A then Some (ev_key KEY_TAB 0x09 MOD_SHIFT)
                 else if final = 0x7E then
                   (let k = tilde_key (param p 0 0) in if k = KEY_NONE then None else Some (ev_key k 0 (decode_mods (param p 1 1))))
                 else if final = 0x75 then csi_u p
                 else if final = 0x5F then csi_win32 p
                 else None))"

definition k_ss3 :: "(u8 \<times> u16) list" where
  "k_ss3 = [(0x41, KEY_UP), (0x42, KEY_DOWN), (0x43, KEY_RIGHT), (0x44, KEY_LEFT), (0x48, KEY_HOME), (0x46, KEY_END), (0x50, KEY_F1),
     (0x51, KEY_F2), (0x52, KEY_F3), (0x53, KEY_F4)]"

definition handle_ss3 :: "u8 \<Rightarrow> vt_event option" where
  "handle_ss3 final =
     (case map_of k_ss3 final of
        Some k \<Rightarrow> Some (ev_key k 0 0)
      | None \<Rightarrow> if final = 0x4D then Some (ev_key KEY_KP_ENTER 0x0D 0) else None)"

text \<open>A byte outside every sequence: the keys that have a control code of their own, then control and a letter, control and punctuation, text.\<close>

definition utf8_lead :: "ag_vtin \<Rightarrow> u32 \<Rightarrow> u8 \<Rightarrow> ag_vtin" where
  "utf8_lead vt cp n = vt\<lparr>vi_cp := cp, vi_remaining := n, vi_state := AG_VTIN_UTF8\<rparr>"

definition ground_byte :: "ag_vtin \<Rightarrow> u8 \<Rightarrow> ag_vtin \<times> vt_event option" where
  "ground_byte vt b =
     (if b = 0x00 then (vt, Some (ev_key KEY_SPACE 0 MOD_CTRL))
      else if b = 0x09 then (vt, Some (ev_key KEY_TAB 0x09 0))
      else if b = 0x0A \<or> b = 0x0D then (vt, Some (ev_key KEY_ENTER 0x0D 0))
      else if b = 0x08 \<or> b = 0x7f then (vt, Some (ev_key KEY_BACKSPACE 0x08 0))
      else if b = 0x1b then (vt\<lparr>vi_state := AG_VTIN_ESC, vi_seqlen := 0\<rparr>, None)
      else if b \<ge> 0x01 \<and> b \<le> 0x1a then (vt, Some (ev_key (KEY_A + ucast (b - 1)) 0 MOD_CTRL))
      else if b = 0x1c then (vt, Some (ev_key KEY_BACKSLASH 0 MOD_CTRL))
      else if b = 0x1d then (vt, Some (ev_key KEY_RBRACKET 0 MOD_CTRL))
      else if b = 0x1e then (vt, Some (ev_key KEY_6 0 (MOD_CTRL OR MOD_SHIFT)))
      else if b = 0x1f then (vt, Some (ev_key KEY_MINUS 0 (MOD_CTRL OR MOD_SHIFT)))
      else if b < 0x7f then (case ag_key_from_ascii b of (k, mods) \<Rightarrow> (vt, Some (ev_key k (ucast b) mods)))
      else if b AND 0xe0 = 0xc0 then (utf8_lead vt (ucast (b AND 0x1f)) 1, None)
      else if b AND 0xf0 = 0xe0 then (utf8_lead vt (ucast (b AND 0x0f)) 2, None)
      else if b AND 0xf8 = 0xf0 then (utf8_lead vt (ucast (b AND 0x07)) 3, None)
      else (vt, None))"

definition esc_byte :: "ag_vtin \<Rightarrow> u8 \<Rightarrow> ag_vtin \<times> vt_event option" where
  "esc_byte vt b =
     (if b = 0x5B then (vt\<lparr>vi_state := AG_VTIN_CSI, vi_seqlen := 0\<rparr>, None)
      else if b = 0x4F then (vt\<lparr>vi_state := AG_VTIN_SS3\<rparr>, None)
      else if b = 0x1b then (vt\<lparr>vi_state := AG_VTIN_ESC\<rparr>, Some (ev_key KEY_ESC 0x1b 0))
      else
        let vt1 = vt\<lparr>vi_state := AG_VTIN_GROUND\<rparr>
        in if b \<ge> 0x20 \<and> b < 0x7f then (case ag_key_from_ascii b of (k, mods) \<Rightarrow> (vt1, Some (ev_key k (ucast b) (mods OR MOD_ALT))))
           else if b = 0x08 \<or> b = 0x7f then (vt1, Some (ev_key KEY_BACKSPACE 0 MOD_ALT))
           else if b = 0x0D \<or> b = 0x0A then (vt1, Some (ev_key KEY_ENTER 0 MOD_ALT))
           else (vt1, None))"

definition utf8_byte :: "ag_vtin \<Rightarrow> u8 \<Rightarrow> ag_vtin \<times> vt_event option" where
  "utf8_byte vt b =
     (if b AND 0xc0 \<noteq> 0x80 then ground_byte (vt\<lparr>vi_state := AG_VTIN_GROUND, vi_remaining := 0\<rparr>) b
      else
        let vt1 = vt\<lparr>vi_cp := push_bit 6 (vi_cp vt) OR ucast (b AND 0x3f), vi_remaining := vi_remaining vt - 1\<rparr>
        in if vi_remaining vt1 = 0 then (vt1\<lparr>vi_state := AG_VTIN_GROUND\<rparr>, Some (ev_key KEY_NONE (vi_cp vt1) 0)) else (vt1, None))"

definition ag_vtin_feed :: "ag_vtin \<Rightarrow> u8 \<Rightarrow> ag_vtin \<times> vt_event option" where
  "ag_vtin_feed vt b =
     (case vi_state vt of
        AG_VTIN_GROUND \<Rightarrow> ground_byte vt b
      | AG_VTIN_ESC \<Rightarrow> esc_byte vt b
      | AG_VTIN_CSI \<Rightarrow>
          if b \<ge> 0x40 \<and> b \<le> 0x7e then handle_csi (vt\<lparr>vi_state := AG_VTIN_GROUND\<rparr>) b
          else if vi_seqlen vt < AG_VTIN_SEQ_MAX then (vt\<lparr>vi_seq := (vi_seq vt)[vi_seqlen vt := b], vi_seqlen := vi_seqlen vt + 1\<rparr>, None)
          else (vt\<lparr>vi_state := AG_VTIN_GROUND\<rparr>, None)
      | AG_VTIN_SS3 \<Rightarrow> (vt\<lparr>vi_state := AG_VTIN_GROUND\<rparr>, handle_ss3 b)
      | AG_VTIN_UTF8 \<Rightarrow> utf8_byte vt b)"

definition ag_vtin_idle :: "ag_vtin \<Rightarrow> ag_vtin \<times> vt_event option" where
  "ag_vtin_idle vt =
     (vt\<lparr>vi_state := AG_VTIN_GROUND, vi_seqlen := 0, vi_remaining := 0\<rparr>,
      if vi_state vt = AG_VTIN_ESC then Some (ev_key KEY_ESC 0x1b 0) else None)"

section \<open>A stream of bytes\<close>

text \<open>What the console does with the decoder: bytes as they come, and a pause when none do.\<close>

datatype vtin_op = VtByte u8 | VtPause

fun vtin_step :: "ag_vtin \<Rightarrow> vtin_op \<Rightarrow> ag_vtin \<times> vt_event option" where
  "vtin_step vt (VtByte b) = ag_vtin_feed vt b"
| "vtin_step vt VtPause = ag_vtin_idle vt"

fun vtin_run :: "ag_vtin \<Rightarrow> vtin_op list \<Rightarrow> ag_vtin \<times> vt_event list" where
  "vtin_run vt [] = (vt, [])"
| "vtin_run vt (x # xs) =
     (case vtin_step vt x of (vt1, e) \<Rightarrow> case vtin_run vt1 xs of (vt2, es) \<Rightarrow> (vt2, (case e of None \<Rightarrow> es | Some ev \<Rightarrow> ev # es)))"

abbreviation feeds :: "ag_vtin \<Rightarrow> u8 list \<Rightarrow> ag_vtin \<times> vt_event list" where
  "feeds vt bs \<equiv> vtin_run vt (map VtByte bs)"

lemma vtin_run_append:
  "vtin_run vt (xs @ ys) = (case vtin_run vt xs of (vt1, es) \<Rightarrow> case vtin_run vt1 ys of (vt2, fs) \<Rightarrow> (vt2, es @ fs))"
  by (induction xs arbitrary: vt) (simp_all add: case_prod_beta split: option.split)

subsection \<open>Its fields\<close>

definition vtin_ok :: "ag_vtin \<Rightarrow> bool" where
  "vtin_ok vt \<longleftrightarrow> length (vi_seq vt) = AG_VTIN_SEQ_MAX \<and> vi_seqlen vt \<le> AG_VTIN_SEQ_MAX \<and>
     (if vi_state vt = AG_VTIN_UTF8 then 1 \<le> vi_remaining vt \<and> vi_remaining vt \<le> 3 else vi_remaining vt = 0)"

lemma vtin_ok_init: "vtin_ok ag_vtin_init"
  by (simp add: vtin_ok_def ag_vtin_init_def)

lemma ground_ok: "vtin_ok vt \<Longrightarrow> vi_state vt \<noteq> AG_VTIN_UTF8 \<Longrightarrow> vtin_ok (fst (ground_byte vt b))"
  by (simp add: vtin_ok_def ground_byte_def utf8_lead_def case_prod_beta)

lemma esc_ok: "vtin_ok vt \<Longrightarrow> vi_state vt \<noteq> AG_VTIN_UTF8 \<Longrightarrow> vtin_ok (fst (esc_byte vt b))"
  by (simp add: vtin_ok_def esc_byte_def case_prod_beta Let_def)

lemma dec_small: "1 \<le> (r :: u8) \<Longrightarrow> r \<le> 3 \<Longrightarrow> r - 1 \<noteq> 0 \<Longrightarrow> 1 \<le> r - 1 \<and> r - 1 \<le> 3"
  by uint_arith

lemma utf8_ok: "vtin_ok vt \<Longrightarrow> vi_state vt = AG_VTIN_UTF8 \<Longrightarrow> vtin_ok (fst (utf8_byte vt b))"
  using ground_ok [of "vt\<lparr>vi_state := AG_VTIN_GROUND, vi_remaining := 0\<rparr>" b] dec_small [of "vi_remaining vt"]
  by (auto simp: vtin_ok_def utf8_byte_def Let_def)

lemma handle_csi_keeps:
  "vi_state (fst (handle_csi vt c)) = vi_state vt" "vi_seq (fst (handle_csi vt c)) = vi_seq vt"
  "vi_seqlen (fst (handle_csi vt c)) = vi_seqlen vt" "vi_remaining (fst (handle_csi vt c)) = vi_remaining vt"
  by (simp_all add: handle_csi_def handle_mouse_def Let_def case_prod_beta)

lemma feed_ok: "vtin_ok vt \<Longrightarrow> vtin_ok (fst (ag_vtin_feed vt b))"
  using ground_ok [of vt b] esc_ok [of vt b] utf8_ok [of vt b]
  by (cases "vi_state vt") (auto simp: ag_vtin_feed_def vtin_ok_def handle_csi_keeps AG_VTIN_SEQ_MAX_def)

lemma idle_ok: "vtin_ok vt \<Longrightarrow> vtin_ok (fst (ag_vtin_idle vt))"
  by (simp add: ag_vtin_idle_def vtin_ok_def)

lemma vtin_run_ok: "vtin_ok vt \<Longrightarrow> vtin_ok (fst (vtin_run vt xs))"
proof (induction xs arbitrary: vt)
  case (Cons x xs)
  have "vtin_ok (fst (vtin_step vt x))" using Cons.prems by (cases x) (simp_all add: feed_ok idle_ok)
  then show ?case using Cons.IH by (simp add: case_prod_beta)
qed simp

subsection \<open>The parameters of a sequence\<close>

definition param_ok :: "int \<Rightarrow> bool" where
  "param_ok v \<longleftrightarrow> -1 \<le> v \<and> v < 10000000"

definition params_ok :: "csi_params \<Rightarrow> bool" where
  "params_ok p \<longleftrightarrow> length (cp_value p) = AG_VTIN_MAX_PARAMS \<and> cp_count p \<le> AG_VTIN_MAX_PARAMS \<and> list_all param_ok (cp_event p # cp_value p)"

lemma more_digit_ok: "param_ok v \<Longrightarrow> 0x30 \<le> c \<Longrightarrow> c \<le> 0x39 \<Longrightarrow> param_ok (more_digit v c)"
  by (auto simp: param_ok_def more_digit_def Let_def word_le_def)

lemma list_all_update: "list_all P xs \<Longrightarrow> P v \<Longrightarrow> list_all P (xs[i := v])"
  by (auto simp: list_all_iff dest: set_update_subset_insert [THEN subsetD])

lemma param_char_ok:
  assumes "params_ok (fst s)"
  shows "params_ok (fst (param_char s c))"
proof -
  obtain p e where s: "s = (p, e)" by (cases s)
  have p: "length (cp_value p) = 6" "cp_count p \<le> 6" "param_ok (cp_event p)" "list_all param_ok (cp_value p)"
    using assms by (simp_all add: s params_ok_def AG_VTIN_MAX_PARAMS_def)
  have z: "param_ok 0" by (simp add: param_ok_def)
  define n where "n = (if cp_count p = 0 then 1 else cp_count p)"
  have n: "1 \<le> n" "n \<le> 6" using p by (auto simp: n_def)
  have v: "param_ok (cp_value p ! (n - 1))" using p n by (auto simp: list_all_length)
  show ?thesis
  proof (cases "0x30 \<le> c \<and> c \<le> 0x39")
    case True
    then show ?thesis using p n more_digit_ok [OF v] more_digit_ok [OF p(3)]
      by (simp add: s param_char_def params_ok_def AG_VTIN_MAX_PARAMS_def n_def [symmetric] Let_def list_all_update)
  next
    case False
    then show ?thesis using p z n by (auto simp: s param_char_def params_ok_def AG_VTIN_MAX_PARAMS_def n_def [symmetric] Let_def)
  qed
qed

lemma params_foldl_ok: "params_ok (fst s) \<Longrightarrow> params_ok (fst (foldl param_char s bs))"
  by (induction bs arbitrary: s) (simp_all add: param_char_ok)

lemma parse_params_ok: "params_ok (parse_params seq len)"
  unfolding parse_params_def Let_def by (rule params_foldl_ok) (simp add: params_ok_def param_ok_def AG_VTIN_MAX_PARAMS_def list_all_iff)

subsection \<open>Sequences as terminals write them\<close>

fun decimal :: "nat \<Rightarrow> u8 list" where
  "decimal v = (if v < 10 then [of_nat (0x30 + v)] else decimal (v div 10) @ [of_nat (0x30 + v mod 10)])"

declare decimal.simps [simp del]

fun params_text :: "nat list \<Rightarrow> u8 list" where
  "params_text [] = []"
| "params_text [v] = decimal v"
| "params_text (v # w # vs) = decimal v @ 0x3B # params_text (w # vs)"

text \<open>The state of the parser with some parameters read, at the start of the next one.\<close>

definition reading :: "u8 \<Rightarrow> nat list \<Rightarrow> csi_params" where
  "reading pre vs = \<lparr>cp_value = map int vs @ replicate (6 - length vs) (-1), cp_event = -1,
     cp_count = (if vs = [] then 0 else length vs + 1), cp_prefix = pre\<rparr>"

definition was_read :: "u8 \<Rightarrow> nat list \<Rightarrow> csi_params" where
  "was_read pre vs = \<lparr>cp_value = map int vs @ replicate (6 - length vs) (-1), cp_event = -1, cp_count = length vs, cp_prefix = pre\<rparr>"

lemma slot_update: "length vs < 6 \<Longrightarrow>
    (map int vs @ replicate (6 - length vs) (-1))[length vs := int v] = map int (vs @ [v]) @ replicate (6 - length (vs @ [v])) (-1)"
proof -
  assume "length vs < 6"
  then have "6 - length vs = Suc (6 - length (vs @ [v]))" by simp
  then show ?thesis by (simp add: list_update_append)
qed

lemma slot_filled: "(map int (vs @ [v]) @ rest) ! length vs = int v"
  by (simp add: nth_append)

lemma param_digit:
  assumes "m < 10"
  shows "param_char (p, False) (of_nat (0x30 + m)) =
    (let n = (if cp_count p = 0 then 1 else cp_count p) in
     (p\<lparr>cp_count := n, cp_value := (cp_value p)[n - 1 := more_digit (cp_value p ! (n - 1)) (of_nat (0x30 + m))]\<rparr>, False))"
  unfolding param_char_def by (simp only: digit_char [OF assms] case_prod_conv simp_thms if_True if_False)

lemma read_decimal:
  assumes "length vs < 6" and "v < 10000000"
  shows "foldl param_char (reading pre vs, False) (decimal v) = (was_read pre (vs @ [v]), False)"
  using assms(2)
proof (induction v rule: decimal.induct)
  case (1 v)
  have n: "(if cp_count (reading pre vs) = 0 then 1 else cp_count (reading pre vs)) = length vs + 1" by (simp add: reading_def)
  show ?case
  proof (cases "v < 10")
    case True
    have "(map int vs @ replicate (6 - length vs) (-1)) ! length vs = -1" using assms(1) by (simp add: nth_append)
    moreover have "more_digit (-1) (of_nat (0x30 + v)) = int v" using digit_char [OF True] by (simp add: more_digit_def)
    ultimately have "param_char (reading pre vs, False) (of_nat (0x30 + v)) = (was_read pre (vs @ [v]), False)"
      unfolding param_digit [OF True] n Let_def using slot_update [OF assms(1), of v] by (simp add: reading_def was_read_def)
    then show ?thesis using decimal.simps [of v] True by simp
  next
    case False
    let ?q = "v div 10" and ?m = "v mod 10"
    have m: "?m < 10" by simp
    have q: "int ?q < 1000000" using 1(2) by simp
    have IH: "foldl param_char (reading pre vs, False) (decimal ?q) = (was_read pre (vs @ [?q]), False)" using 1 False by simp
    have c: "(if cp_count (was_read pre (vs @ [?q])) = 0 then 1 else cp_count (was_read pre (vs @ [?q]))) = length vs + 1"
      by (simp add: was_read_def)
    have "more_digit (int ?q) (of_nat (0x30 + ?m)) = int v" using digit_char [OF m] q by (simp add: more_digit_def Let_def) presburger
    moreover have "(map int (vs @ [?q]) @ replicate (6 - length (vs @ [?q])) (-1))[length vs := int v] =
        map int (vs @ [v]) @ replicate (6 - length (vs @ [v])) (-1)" by (simp add: list_update_append)
    ultimately have "param_char (was_read pre (vs @ [?q]), False) (of_nat (0x30 + ?m)) = (was_read pre (vs @ [v]), False)"
      unfolding param_digit [OF m] c Let_def by (simp add: was_read_def nth_append)
    then show ?thesis using IH decimal.simps [of v] False by simp
  qed
qed

lemma read_separator: "length vs < 5 \<Longrightarrow> param_char (was_read pre (vs @ [v]), False) 0x3B = (reading pre (vs @ [v]), False)"
  by (simp add: param_char_def was_read_def reading_def AG_VTIN_MAX_PARAMS_def Let_def)

lemma read_params:
  "length (vs @ ws) \<le> 6 \<Longrightarrow> ws \<noteq> [] \<Longrightarrow> list_all (\<lambda>v. v < 10000000) ws \<Longrightarrow>
    foldl param_char (reading pre vs, False) (params_text ws) = (was_read pre (vs @ ws), False)"
proof (induction ws arbitrary: vs rule: params_text.induct)
  case (2 v)
  then show ?case using read_decimal [of vs v pre] by simp
next
  case (3 v w ws)
  then have "foldl param_char (reading pre vs, False) (decimal v) = (was_read pre (vs @ [v]), False)" using read_decimal [of vs v pre] by simp
  moreover have "param_char (was_read pre (vs @ [v]), False) 0x3B = (reading pre (vs @ [v]), False)" using 3(2) by (simp add: read_separator)
  ultimately show ?case using 3(1) [of "vs @ [v]"] 3(2-) by simp
qed simp

lemma decimal_bytes: "c \<in> set (decimal v) \<Longrightarrow> 0x30 \<le> c \<and> c \<le> 0x39"
proof (induction v rule: decimal.induct)
  case (1 v)
  show ?case
  proof (cases "v < 10")
    case True
    then have "c = of_nat (0x30 + v)" using 1(2) decimal.simps [of v] by simp
    then show ?thesis using digit_char [OF True] by simp
  next
    case False
    have m: "v mod 10 < 10" by simp
    have "c \<in> set (decimal (v div 10)) \<or> c = of_nat (0x30 + v mod 10)" using 1(2) decimal.simps [of v] False by auto
    then show ?thesis using 1(1) [OF False] digit_char [OF m] by auto
  qed
qed

lemma params_text_bytes: "c \<in> set (params_text vs) \<Longrightarrow> 0x30 \<le> c \<and> c < 0x40"
  by (induction vs rule: params_text.induct) (auto dest!: decimal_bytes intro: order_le_less_trans)

lemma decimal_nonempty: "decimal v \<noteq> []"
  by (subst decimal.simps) simp

lemma params_text_nonempty: "vs \<noteq> [] \<Longrightarrow> params_text vs \<noteq> []"
  by (induction vs rule: params_text.induct) (simp_all add: decimal_nonempty)

lemma decimal_low: "list_all (\<lambda>c. c \<le> 0x3B) (decimal v)"
  unfolding list_all_iff by (auto dest!: decimal_bytes intro: order_trans)

lemma params_text_low: "list_all (\<lambda>c. c \<le> 0x3B) (params_text vs)"
  by (induction vs rule: params_text.induct) (simp_all add: decimal_low)

lemma parse_plain:
  assumes "take len seq = params_text vs" and "vs \<noteq> []" and "length vs \<le> 6" and "list_all (\<lambda>v. v < 10000000) vs"
  shows "parse_params seq len = was_read 0 vs"
proof -
  have b: "list_all (\<lambda>c. c \<le> 0x3B) (params_text vs)" by (rule params_text_low)
  obtain c cs where c: "params_text vs = c # cs" using params_text_nonempty [OF assms(2)] by (cases "params_text vs") auto
  have "seq ! 0 = c" using assms(1) c by (cases seq; cases len) auto
  then have "seq ! 0 \<le> 0x3B" using b c by simp
  then have pre: "(len > 0 \<and> (seq ! 0 = 0x3F \<or> seq ! 0 = 0x3C \<or> seq ! 0 = 0x3E)) = False" by auto
  show ?thesis unfolding parse_params_def Let_def pre if_False drop_0 assms(1)
    using read_params [of "[]" vs 0] assms(2-) by (simp add: reading_def AG_VTIN_MAX_PARAMS_def)
qed

lemma parse_prefixed:
  assumes "take len seq = 0x3C # params_text vs" and "vs \<noteq> []" and "length vs \<le> 6" and "list_all (\<lambda>v. v < 10000000) vs"
  shows "parse_params seq len = was_read 0x3C vs"
proof -
  have l: "0 < len" "seq \<noteq> []" using assms(1) by (cases len; cases seq; simp)+
  have s0: "seq ! 0 = 0x3C" using assms(1) l by (cases seq) (auto simp: take_Cons split: nat.splits)
  have pre: "(0 < len \<and> (0x3C = (0x3F :: u8) \<or> 0x3C = (0x3C :: u8) \<or> 0x3C = (0x3E :: u8))) = True" using l by simp
  show ?thesis unfolding parse_params_def Let_def s0 pre if_True assms(1)
    using read_params [of "[]" vs "0x3C"] assms(2-) by (simp add: reading_def AG_VTIN_MAX_PARAMS_def)
qed

lemma feed_collect:
  "vi_state vt = AG_VTIN_CSI \<Longrightarrow> list_all (\<lambda>c. c < 0x40) bs \<Longrightarrow> vi_seqlen vt + length bs \<le> AG_VTIN_SEQ_MAX \<Longrightarrow>
    length (vi_seq vt) = AG_VTIN_SEQ_MAX \<Longrightarrow>
    feeds vt bs = (vt\<lparr>vi_seq := take (vi_seqlen vt) (vi_seq vt) @ bs @ drop (vi_seqlen vt + length bs) (vi_seq vt),
      vi_seqlen := vi_seqlen vt + length bs\<rparr>, [])"
proof (induction bs arbitrary: vt)
  case (Cons b bs)
  let ?v = "vt\<lparr>vi_seq := (vi_seq vt)[vi_seqlen vt := b], vi_seqlen := vi_seqlen vt + 1\<rparr>"
  have "ag_vtin_feed vt b = (?v, None)" using Cons.prems by (auto simp: ag_vtin_feed_def)
  then have "feeds vt (b # bs) = feeds ?v bs" by (simp add: case_prod_beta)
  also have "\<dots> = (?v\<lparr>vi_seq := take (vi_seqlen ?v) (vi_seq ?v) @ bs @ drop (vi_seqlen ?v + length bs) (vi_seq ?v),
      vi_seqlen := vi_seqlen ?v + length bs\<rparr>, [])" using Cons.prems by (intro Cons.IH) auto
  also have "take (vi_seqlen ?v) (vi_seq ?v) = take (vi_seqlen vt) (vi_seq vt) @ [b]"
    using Cons.prems by (simp add: take_Suc_conv_app_nth)
  finally show ?case using Cons.prems by simp
qed simp

lemma feed_csi:
  assumes "vi_state vt = AG_VTIN_GROUND" and "length (vi_seq vt) = AG_VTIN_SEQ_MAX"
    and "list_all (\<lambda>c. c < 0x40) bs" and "length bs \<le> AG_VTIN_SEQ_MAX" and "0x40 \<le> c" and "c \<le> 0x7e"
  shows "feeds vt ([0x1B, 0x5B] @ bs @ [c]) =
    (case handle_csi (vt\<lparr>vi_seq := bs @ drop (length bs) (vi_seq vt), vi_seqlen := length bs\<rparr>) c of
       (vt1, e) \<Rightarrow> (vt1, case e of None \<Rightarrow> [] | Some ev \<Rightarrow> [ev]))"
proof -
  let ?e = "vt\<lparr>vi_state := AG_VTIN_ESC, vi_seqlen := 0\<rparr>"
  let ?o = "vt\<lparr>vi_state := AG_VTIN_CSI, vi_seqlen := 0\<rparr>"
  let ?r = "vt\<lparr>vi_seq := bs @ drop (length bs) (vi_seq vt), vi_seqlen := length bs\<rparr>"
  have 1: "ag_vtin_feed vt 0x1B = (?e, None)" using assms(1) by (simp add: ag_vtin_feed_def ground_byte_def)
  have 2: "ag_vtin_feed ?e 0x5B = (?o, None)" by (simp add: ag_vtin_feed_def esc_byte_def)
  have 3: "feeds ?o bs = (?r\<lparr>vi_state := AG_VTIN_CSI\<rparr>, [])" using feed_collect [of ?o bs] assms(2-4) by simp
  have "(?r\<lparr>vi_state := AG_VTIN_CSI\<rparr>)\<lparr>vi_state := AG_VTIN_GROUND\<rparr> = ?r" using assms(1) by simp
  then have 4: "ag_vtin_feed (?r\<lparr>vi_state := AG_VTIN_CSI\<rparr>) c = handle_csi ?r c" using assms(5,6) by (simp add: ag_vtin_feed_def)
  have "feeds vt ([0x1B, 0x5B] @ bs @ [c]) = vtin_run ?o (map VtByte bs @ [VtByte c])" using 1 2 by (simp add: case_prod_beta)
  also have "\<dots> = (case handle_csi ?r c of (vt1, e) \<Rightarrow> (vt1, case e of None \<Rightarrow> [] | Some ev \<Rightarrow> [ev]))"
    unfolding vtin_run_append 3 using 4 by (simp add: case_prod_beta)
  finally show ?thesis .
qed

lemma decimal_length: "v < 10 ^ Suc k \<Longrightarrow> length (decimal v) \<le> Suc k"
proof (induction k arbitrary: v)
  case 0
  then show ?case by (subst decimal.simps) simp
next
  case (Suc k)
  then have "length (decimal (v div 10)) \<le> Suc k" by simp
  then show ?case by (subst decimal.simps) simp
qed

lemma feed_params:
  assumes "vi_state vt = AG_VTIN_GROUND" and "length (vi_seq vt) = AG_VTIN_SEQ_MAX" and "length (params_text vs) \<le> AG_VTIN_SEQ_MAX"
    and "vs \<noteq> []" and "length vs \<le> 6" and "list_all (\<lambda>v. v < 10000000) vs" and "0x40 \<le> c" and "c \<le> 0x7e"
  obtains vt1 where "feeds vt ([0x1B, 0x5B] @ params_text vs @ [c]) =
      (case handle_csi vt1 c of (vt2, e) \<Rightarrow> (vt2, case e of None \<Rightarrow> [] | Some ev \<Rightarrow> [ev]))"
    and "vi_state vt1 = AG_VTIN_GROUND" and "parse_params (vi_seq vt1) (vi_seqlen vt1) = was_read 0 vs"
proof -
  let ?v = "vt\<lparr>vi_seq := params_text vs @ drop (length (params_text vs)) (vi_seq vt), vi_seqlen := length (params_text vs)\<rparr>"
  have b: "list_all (\<lambda>c. c < 0x40) (params_text vs)" using params_text_bytes by (auto simp: list_all_iff)
  have "parse_params (vi_seq ?v) (vi_seqlen ?v) = was_read 0 vs" by (rule parse_plain [OF _ assms(4-6)]) simp
  then show thesis using that [OF feed_csi [OF assms(1,2) b assms(3,7,8)]] assms(1) by simp
qed

lemma feed_prefixed:
  assumes "vi_state vt = AG_VTIN_GROUND" and "length (vi_seq vt) = AG_VTIN_SEQ_MAX" and "length (params_text vs) < AG_VTIN_SEQ_MAX"
    and "vs \<noteq> []" and "length vs \<le> 6" and "list_all (\<lambda>v. v < 10000000) vs" and "0x40 \<le> c" and "c \<le> 0x7e"
  obtains vt1 where "feeds vt ([0x1B, 0x5B, 0x3C] @ params_text vs @ [c]) =
      (case handle_csi vt1 c of (vt2, e) \<Rightarrow> (vt2, case e of None \<Rightarrow> [] | Some ev \<Rightarrow> [ev]))"
    and "vi_state vt1 = AG_VTIN_GROUND" and "parse_params (vi_seq vt1) (vi_seqlen vt1) = was_read 0x3C vs"
    and "vi_buttons vt1 = vi_buttons vt" and "length (vi_seq vt1) = AG_VTIN_SEQ_MAX"
proof -
  let ?b = "0x3C # params_text vs"
  let ?v = "vt\<lparr>vi_seq := ?b @ drop (length ?b) (vi_seq vt), vi_seqlen := length ?b\<rparr>"
  have b: "list_all (\<lambda>c. c < 0x40) ?b" using params_text_bytes by (auto simp: list_all_iff)
  have l: "length ?b \<le> AG_VTIN_SEQ_MAX" using assms(3) by simp
  have "parse_params (vi_seq ?v) (vi_seqlen ?v) = was_read 0x3C vs" by (rule parse_prefixed [OF _ assms(4-6)]) simp
  then show thesis using that [of ?v] feed_csi [OF assms(1,2) b l assms(7,8)] assms(1,2) l by simp
qed

lemma param_read: "i < length vs \<Longrightarrow> param (was_read pre vs) i d = int (vs ! i)"
  by (simp add: param_def was_read_def nth_append)

lemma prefix_read [simp]: "cp_prefix (was_read pre vs) = pre"
  by (simp add: was_read_def)

text \<open>The number that stands for the modifiers in a sequence, and the modifiers.\<close>

definition mods_number :: "bool \<Rightarrow> bool \<Rightarrow> bool \<Rightarrow> bool \<Rightarrow> nat" where
  "mods_number shift alt ctrl gui = 1 + of_bool shift + 2 * of_bool alt + 4 * of_bool ctrl + 8 * of_bool gui"

definition mods_of :: "bool \<Rightarrow> bool \<Rightarrow> bool \<Rightarrow> bool \<Rightarrow> u16" where
  "mods_of shift alt ctrl gui = of_bool shift * MOD_SHIFT + of_bool alt * MOD_ALT + of_bool ctrl * MOD_CTRL + of_bool gui * MOD_GUI"

lemma decode_mods_number: "decode_mods (int (mods_number s a c g)) = mods_of s a c g"
  by (cases s; cases a; cases c; cases g) (simp_all add: mods_number_def mods_of_def decode_mods_def Let_def)

lemma mods_number_small: "mods_number s a c g < 10 ^ Suc 1" "mods_number s a c g < 10000000"
  by (simp_all add: mods_number_def of_bool_def)

lemma letters_range: "(c, k) \<in> set k_letters \<Longrightarrow> map_of k_letters c = Some k \<and> 0x40 \<le> c \<and> c \<le> 0x7e"
  unfolding k_letters_def by auto

lemma tilde_range: "(n, k) \<in> set k_tilde \<Longrightarrow> tilde_key n = k \<and> k \<noteq> KEY_NONE \<and> 1 \<le> n \<and> n < 100"
  unfolding k_tilde_def tilde_key_def by auto

lemma letter_length: "length (params_text [1, mods_number s a c g]) \<le> AG_VTIN_SEQ_MAX"
  using decimal_length [of 1 0] decimal_length [OF mods_number_small(1), of s a c g] by (simp add: AG_VTIN_SEQ_MAX_def)

lemma tilde_length: "n < 100 \<Longrightarrow> length (params_text [n, mods_number s a c g]) \<le> AG_VTIN_SEQ_MAX"
  using decimal_length [of n 1] decimal_length [OF mods_number_small(1), of s a c g] by (simp add: AG_VTIN_SEQ_MAX_def)

lemma feed_letter:
  assumes "vi_state vt = AG_VTIN_GROUND" and "length (vi_seq vt) = AG_VTIN_SEQ_MAX" and "(c, k) \<in> set k_letters"
  shows "snd (feeds vt ([0x1B, 0x5B] @ params_text [1, mods_number s a ct g] @ [c])) = [ev_key k 0 (mods_of s a ct g)]"
    and "vi_state (fst (feeds vt ([0x1B, 0x5B] @ params_text [1, mods_number s a ct g] @ [c]))) = AG_VTIN_GROUND"
proof -
  from letters_range [OF assms(3)] have c: "map_of k_letters c = Some k" "0x40 \<le> c" "c \<le> 0x7e" by simp_all
  have l: "list_all (\<lambda>v. v < 10000000) [1, mods_number s a ct g]" using mods_number_small(2) by simp
  obtain vt1 where vt1: "feeds vt ([0x1B, 0x5B] @ params_text [1, mods_number s a ct g] @ [c]) =
      (case handle_csi vt1 c of (vt2, e) \<Rightarrow> (vt2, case e of None \<Rightarrow> [] | Some ev \<Rightarrow> [ev]))"
    and g: "vi_state vt1 = AG_VTIN_GROUND" and p: "parse_params (vi_seq vt1) (vi_seqlen vt1) = was_read 0 [1, mods_number s a ct g]"
    by (rule feed_params [OF assms(1,2) letter_length _ _ l c(2,3)]) simp_all
  have "handle_csi vt1 c = (vt1, Some (ev_key k 0 (mods_of s a ct g)))"
    unfolding handle_csi_def p Let_def using c(1) by (simp add: param_read decode_mods_number)
  then show "snd (feeds vt ([0x1B, 0x5B] @ params_text [1, mods_number s a ct g] @ [c])) = [ev_key k 0 (mods_of s a ct g)]"
    "vi_state (fst (feeds vt ([0x1B, 0x5B] @ params_text [1, mods_number s a ct g] @ [c]))) = AG_VTIN_GROUND"
    unfolding vt1 using g by simp_all
qed

lemma feed_tilde:
  assumes "vi_state vt = AG_VTIN_GROUND" and "length (vi_seq vt) = AG_VTIN_SEQ_MAX" and "(int n, k) \<in> set k_tilde"
  shows "snd (feeds vt ([0x1B, 0x5B] @ params_text [n, mods_number s a ct g] @ [0x7E])) = [ev_key k 0 (mods_of s a ct g)]"
    and "vi_state (fst (feeds vt ([0x1B, 0x5B] @ params_text [n, mods_number s a ct g] @ [0x7E]))) = AG_VTIN_GROUND"
proof -
  from tilde_range [OF assms(3)] have c: "tilde_key (int n) = k" "k \<noteq> KEY_NONE" "n < 100" by simp_all
  have l: "list_all (\<lambda>v. v < 10000000) [n, mods_number s a ct g]" using mods_number_small(2) c(3) by simp
  obtain vt1 where vt1: "feeds vt ([0x1B, 0x5B] @ params_text [n, mods_number s a ct g] @ [0x7E]) =
      (case handle_csi vt1 0x7E of (vt2, e) \<Rightarrow> (vt2, case e of None \<Rightarrow> [] | Some ev \<Rightarrow> [ev]))"
    and g: "vi_state vt1 = AG_VTIN_GROUND" and p: "parse_params (vi_seq vt1) (vi_seqlen vt1) = was_read 0 [n, mods_number s a ct g]"
    by (rule feed_params [OF assms(1,2) tilde_length [OF c(3)] _ _ l, of "0x7E"]) simp_all
  have "map_of k_letters 0x7E = None" by (simp add: k_letters_def)
  then have "handle_csi vt1 0x7E = (vt1, Some (ev_key k 0 (mods_of s a ct g)))"
    unfolding handle_csi_def p Let_def using c(1,2) by (simp add: param_read decode_mods_number)
  then show "snd (feeds vt ([0x1B, 0x5B] @ params_text [n, mods_number s a ct g] @ [0x7E])) = [ev_key k 0 (mods_of s a ct g)]"
    "vi_state (fst (feeds vt ([0x1B, 0x5B] @ params_text [n, mods_number s a ct g] @ [0x7E]))) = AG_VTIN_GROUND"
    unfolding vt1 using g by simp_all
qed

text \<open>A report of the mouse, as a terminal in its SGR mode writes it.\<close>

definition mouse_text :: "nat \<Rightarrow> nat \<Rightarrow> nat \<Rightarrow> u8 \<Rightarrow> u8 list" where
  "mouse_text b x y c = [0x1B, 0x5B, 0x3C] @ params_text [b, x + 1, y + 1] @ [c]"

definition pointer :: "ag_event_type \<Rightarrow> nat \<Rightarrow> nat \<Rightarrow> u8 \<Rightarrow> vt_event" where
  "pointer t x y held = ev_none\<lparr>e_type := t, e_x := of_nat x, e_y := of_nat y, e_buttons := held\<rparr>"

lemma feed_mouse:
  assumes "vi_state vt = AG_VTIN_GROUND" and "length (vi_seq vt) = AG_VTIN_SEQ_MAX" and "x < 65535" and "y < 65535" and "b < 3"
    and "c = 0x4D \<or> c = 0x6D"
  obtains vt1 where "feeds vt (mouse_text b x y c) =
      (vt1, [pointer (if c = 0x4D then AG_EV_POINTER_DOWN else AG_EV_POINTER_UP) x y (vi_buttons vt1)])"
    and "vi_state vt1 = AG_VTIN_GROUND" and "length (vi_seq vt1) = AG_VTIN_SEQ_MAX"
    and "vi_buttons vt1 = (if c = 0x4D then vi_buttons vt OR push_bit b 1 else vi_buttons vt AND NOT (push_bit b 1))"
proof -
  have c: "0x40 \<le> c" "c \<le> 0x7e" using assms(6) by auto
  have len: "length (params_text [b, x + 1, y + 1]) < AG_VTIN_SEQ_MAX"
    using decimal_length [of b 0] decimal_length [of "x + 1" 4] decimal_length [of "y + 1" 4] assms(3-5) by (simp add: AG_VTIN_SEQ_MAX_def)
  have l: "list_all (\<lambda>v. v < 10000000) [b, x + 1, y + 1]" using assms(3-5) by simp
  obtain vt1 where vt1: "feeds vt ([0x1B, 0x5B, 0x3C] @ params_text [b, x + 1, y + 1] @ [c]) =
      (case handle_csi vt1 c of (vt2, e) \<Rightarrow> (vt2, case e of None \<Rightarrow> [] | Some ev \<Rightarrow> [ev]))"
    and g: "vi_state vt1 = AG_VTIN_GROUND" and p: "parse_params (vi_seq vt1) (vi_seqlen vt1) = was_read 0x3C [b, x + 1, y + 1]"
    and bt: "vi_buttons vt1 = vi_buttons vt" and q: "length (vi_seq vt1) = AG_VTIN_SEQ_MAX"
    by (rule feed_prefixed [OF assms(1,2) len _ _ l c]) simp_all
  have n: "int b AND 64 = 0" "int b AND 32 = 0" "nat (int b AND 3) = b" using assms(5) by (cases b; cases "b - 1"; cases "b - 2"; simp)+
  define h where "h = (if c = 0x4D then vi_buttons vt OR push_bit b 1 else vi_buttons vt AND NOT (push_bit b 1))"
  have "handle_csi vt1 c = (vt1\<lparr>vi_buttons := h\<rparr>, Some (pointer (if c = 0x4D then AG_EV_POINTER_DOWN else AG_EV_POINTER_UP) x y h))"
    unfolding handle_csi_def p Let_def handle_mouse_def by (simp add: param_read n bt h_def pointer_def)
  then show thesis using that [of "vt1\<lparr>vi_buttons := h\<rparr>"] vt1 g q unfolding mouse_text_def h_def by simp
qed

subsection \<open>Characters as terminals write them\<close>

lemma word_between: "list_all P [m..n] \<Longrightarrow> m \<le> uint (w :: u32) \<Longrightarrow> uint w \<le> n \<Longrightarrow> P (uint w)"
  by (simp add: list_all_iff)

lemma word_below: "list_all P [0..n] \<Longrightarrow> uint (w :: u32) \<le> n \<Longrightarrow> P (uint w)"
  by (simp add: list_all_iff)

lemma cont_table: "list_all (\<lambda>n. (ucast (0x80 OR word_of_int n :: u32) :: u8) AND 0xc0 = 0x80 \<and>
    ucast ((ucast (0x80 OR word_of_int n :: u32) :: u8) AND 0x3f) = (word_of_int n :: u32)) [0..63]"
  by code_simp

lemma lead2_table: "list_all (\<lambda>n. let b = (ucast (0xc0 OR word_of_int n :: u32) :: u8) in
    0x80 \<le> b \<and> b AND 0xe0 = 0xc0 \<and> ucast (b AND 0x1f) = (word_of_int n :: u32)) [0..31]"
  by code_simp

lemma lead3_table: "list_all (\<lambda>n. let b = (ucast (0xe0 OR word_of_int n :: u32) :: u8) in
    0x80 \<le> b \<and> b AND 0xe0 \<noteq> 0xc0 \<and> b AND 0xf0 = 0xe0 \<and> ucast (b AND 0x0f) = (word_of_int n :: u32)) [0..15]"
  by code_simp

lemma lead4_table: "list_all (\<lambda>n. let b = (ucast (0xf0 OR word_of_int n :: u32) :: u8) in
    0x80 \<le> b \<and> b AND 0xe0 \<noteq> 0xc0 \<and> b AND 0xf0 \<noteq> 0xe0 \<and> b AND 0xf8 = 0xf0 \<and> ucast (b AND 0x07) = (word_of_int n :: u32)) [0..7]"
  by code_simp

lemma ground_high: "0x80 \<le> b \<Longrightarrow> ground_byte vt b =
    (if b AND 0xe0 = 0xc0 then (utf8_lead vt (ucast (b AND 0x1f)) 1, None)
     else if b AND 0xf0 = 0xe0 then (utf8_lead vt (ucast (b AND 0x0f)) 2, None)
     else if b AND 0xf8 = 0xf0 then (utf8_lead vt (ucast (b AND 0x07)) 3, None)
     else (vt, None))"
proof -
  assume h: "0x80 \<le> b"
  have "b \<noteq> 0x00" "b \<noteq> 0x09" "b \<noteq> 0x0A" "b \<noteq> 0x0D" "b \<noteq> 0x08" "b \<noteq> 0x7f" "b \<noteq> 0x1b" "\<not> b \<le> 0x1a" "b \<noteq> 0x1c" "b \<noteq> 0x1d" "b \<noteq> 0x1e"
    "b \<noteq> 0x1f" "\<not> b < 0x7f" using h by (auto simp: word_le_nat_alt word_less_nat_alt)
  then show ?thesis unfolding ground_byte_def by (simp only: if_False simp_thms)
qed

lemma feed_lead2: "uint w \<le> 31 \<Longrightarrow> vi_state vt = AG_VTIN_GROUND \<Longrightarrow> ag_vtin_feed vt (ucast (0xc0 OR w)) = (utf8_lead vt w 1, None)"
  using word_below [OF lead2_table, of w] by (simp add: Let_def ag_vtin_feed_def ground_high)

lemma feed_lead3: "uint w \<le> 15 \<Longrightarrow> vi_state vt = AG_VTIN_GROUND \<Longrightarrow> ag_vtin_feed vt (ucast (0xe0 OR w)) = (utf8_lead vt w 2, None)"
  using word_below [OF lead3_table, of w] by (simp add: Let_def ag_vtin_feed_def ground_high)

lemma feed_lead4: "uint w \<le> 7 \<Longrightarrow> vi_state vt = AG_VTIN_GROUND \<Longrightarrow> ag_vtin_feed vt (ucast (0xf0 OR w)) = (utf8_lead vt w 3, None)"
  using word_below [OF lead4_table, of w] by (simp add: Let_def ag_vtin_feed_def ground_high)

lemma feed_cont:
  assumes "vi_state vt = AG_VTIN_UTF8"
  shows "ag_vtin_feed vt (ucast (0x80 OR (w AND 0x3f))) =
    (let cp = push_bit 6 (vi_cp vt) OR take_bit 6 w in
     if vi_remaining vt = 1 then (vt\<lparr>vi_cp := cp, vi_remaining := 0, vi_state := AG_VTIN_GROUND\<rparr>, Some (ev_key KEY_NONE cp 0))
     else (vt\<lparr>vi_cp := cp, vi_remaining := vi_remaining vt - 1\<rparr>, None))"
proof -
  have m: "w AND 0x3f = take_bit 6 w" by (simp add: take_bit_eq_mask mask_eq_exp_minus_1)
  have "uint (take_bit 6 w) \<le> 63"
  proof -
    have "uint (take_bit 6 w) = take_bit 6 (uint w)" by (simp add: unsigned_take_bit_eq)
    then show ?thesis using take_bit_int_less_exp [of 6 "uint w"] by simp
  qed
  note c = word_below [OF cont_table this]
  have z: "(vi_remaining vt - 1 = 0) = (vi_remaining vt = 1)" by simp
  show ?thesis unfolding m using c assms z by (simp add: ag_vtin_feed_def utf8_byte_def Let_def)
qed

lemma join_bits: "push_bit 6 (drop_bit 6 w) OR take_bit 6 w = (w :: u32)"
  by (rule bit_word_eqI) (auto simp: bit_simps)

lemma drop_bit_uint: "uint (drop_bit n (w :: u32)) = uint w div 2 ^ n"
proof -
  have "take_bit 32 (uint w) = uint w" using unsigned_less [of w, where ?'a = int] by (intro take_bit_int_eq_self) simp_all
  then show ?thesis unfolding unsigned_drop_bit_eq by (simp add: drop_bit_eq_div)
qed

text \<open>The event of a character: the key that types it, where it is one of a US keyboard.\<close>

definition typed :: "u32 \<Rightarrow> vt_event" where
  "typed u = (if u < 0x80 then (case ag_key_from_ascii (ucast u) of (k, m) \<Rightarrow> ev_key k u m) else ev_key KEY_NONE u 0)"

definition typeable :: "u32 \<Rightarrow> bool" where
  "typeable u \<longleftrightarrow> 0x20 \<le> u \<and> u \<le> 0x10ffff \<and> u \<noteq> 0x7f"

lemma feed_utf8:
  assumes g: "vi_state vt = AG_VTIN_GROUND" and u: "0x80 \<le> u" "u \<le> 0x10ffff"
  shows "feeds vt (ag_utf8_encode u) = (vt\<lparr>vi_cp := u, vi_remaining := 0\<rparr>, [ev_key KEY_NONE u 0])"
proof -
  have b: "128 \<le> uint u" "uint u \<le> 1114111" using u by (simp_all add: word_le_def)
  have n: "\<not> u > 0x10ffff" "\<not> u < 0x80" using u by simp_all
  have j: "push_bit 6 (drop_bit 12 u) OR take_bit 6 (drop_bit 6 u) = drop_bit 6 u"
    "push_bit 6 (drop_bit 18 u) OR take_bit 6 (drop_bit 12 u) = drop_bit 12 u"
    using join_bits [of "drop_bit 6 u"] join_bits [of "drop_bit 12 u"] by simp_all
  note f = utf8_lead_def feed_cont case_prod_beta Let_def g j join_bits
  consider "u < 0x800" | "\<not> u < 0x800" "u < 0x10000" | "\<not> u < 0x800" "\<not> u < 0x10000" by blast
  then show ?thesis
  proof cases
    case 1
    then have "uint (drop_bit 6 u) \<le> 31" by (simp add: drop_bit_uint word_less_def)
    from feed_lead2 [OF this g] show ?thesis unfolding ag_utf8_encode_def using n 1 g by (simp add: f)
  next
    case 2
    then have "uint (drop_bit 12 u) \<le> 15" by (simp add: drop_bit_uint word_less_def)
    from feed_lead3 [OF this g] show ?thesis unfolding ag_utf8_encode_def using n 2 g by (simp add: f)
  next
    case 3
    have "uint (drop_bit 18 u) \<le> 7" using b by (simp add: drop_bit_uint)
    from feed_lead4 [OF this g] show ?thesis unfolding ag_utf8_encode_def using n 3 g by (simp add: f)
  qed
qed

lemma ascii_table: "list_all (\<lambda>n. (let b = (ucast (word_of_int n :: u32) :: u8) in 0x20 \<le> b \<and> b < 0x7f \<and> ucast b = (word_of_int n :: u32))) [32..126]"
  by code_simp

lemma ground_ascii: "0x20 \<le> b \<Longrightarrow> b < 0x7f \<Longrightarrow> ground_byte vt b = (case ag_key_from_ascii b of (k, mods) \<Rightarrow> (vt, Some (ev_key k (ucast b) mods)))"
proof -
  assume b: "0x20 \<le> b" "b < 0x7f"
  have "b \<noteq> 0x00" "b \<noteq> 0x09" "b \<noteq> 0x0A" "b \<noteq> 0x0D" "b \<noteq> 0x08" "b \<noteq> 0x7f" "b \<noteq> 0x1b" "\<not> b \<le> 0x1a" "b \<noteq> 0x1c" "b \<noteq> 0x1d" "b \<noteq> 0x1e"
    "b \<noteq> 0x1f" using b by (auto simp: word_le_nat_alt word_less_nat_alt)
  then show ?thesis unfolding ground_byte_def using b(2) by (simp only: if_False if_True simp_thms)
qed

lemma feed_ascii:
  assumes g: "vi_state vt = AG_VTIN_GROUND" and u: "0x20 \<le> u" "u < 0x7f"
  shows "feeds vt (ag_utf8_encode u) = (vt, [typed u])"
proof -
  have "32 \<le> uint u" "uint u \<le> 126" using u by (simp_all add: word_le_def word_less_def)
  from word_between [OF ascii_table this] have t: "0x20 \<le> (ucast u :: u8)" "(ucast u :: u8) < 0x7f" "ucast (ucast u :: u8) = u"
    by (simp_all add: Let_def)
  have l: "u < 0x80" "\<not> u > 0x10ffff" using u by (simp_all add: word_less_def)
  have e: "ag_utf8_encode u = [ucast u]" unfolding ag_utf8_encode_def using l by simp
  have "ground_byte vt (ucast u) = (vt, Some (typed u))" unfolding ground_ascii [OF t(1,2)] typed_def using t(3) l by (simp add: case_prod_beta)
  then show ?thesis unfolding e using g by (simp add: ag_vtin_feed_def)
qed

lemma feed_text:
  "vi_state vt = AG_VTIN_GROUND \<Longrightarrow> list_all typeable us \<Longrightarrow>
    snd (feeds vt (concat (map ag_utf8_encode us))) = map typed us \<and>
    (\<exists>cp. fst (feeds vt (concat (map ag_utf8_encode us))) \<in> {vt, vt\<lparr>vi_cp := cp, vi_remaining := 0\<rparr>})"
proof (induction us arbitrary: vt)
  case (Cons u us)
  let ?v = "fst (feeds vt (ag_utf8_encode u))"
  have t: "typeable u" and ts: "list_all typeable us" using Cons.prems(2) by simp_all
  have s: "snd (feeds vt (ag_utf8_encode u)) = [typed u] \<and> (?v = vt \<or> ?v = vt\<lparr>vi_cp := u, vi_remaining := 0\<rparr>)"
  proof (cases "u < 0x7f")
    case True
    then show ?thesis using feed_ascii [OF Cons.prems(1)] t by (simp add: typeable_def)
  next
    case False
    then have h: "0x80 \<le> u" using t by (auto simp: typeable_def word_le_def word_less_def word_uint_eq_iff)
    then have "typed u = ev_key KEY_NONE u 0" by (simp add: typed_def)
    then show ?thesis using feed_utf8 [OF Cons.prems(1) h] t by (simp add: typeable_def)
  qed
  then have g: "vi_state ?v = AG_VTIN_GROUND" using Cons.prems(1) by auto
  show ?case using s Cons.IH [OF g ts] by (auto simp: vtin_run_append case_prod_beta)
qed auto

section \<open>Properties\<close>

text \<open>
  C32. Whatever a terminal sends, in whatever pieces and pauses, the decoder stays in its bounds: the bytes of a sequence are counted
  within the 24 that \<open>seq\<close> has room for, a character in progress has between one and three bytes to come, and none is
  awaited outside one, the parameters read from the sequence fill at most six slots with numbers of seven digits, and a pause always ends
  in the ground state.
\<close>

theorem vtin_safe:
  "let vt = fst (vtin_run ag_vtin_init ops); p = parse_params (vi_seq vt) (vi_seqlen vt) in
   length (vi_seq vt) = AG_VTIN_SEQ_MAX \<and> vi_seqlen vt \<le> AG_VTIN_SEQ_MAX \<and>
   (if vi_state vt = AG_VTIN_UTF8 then 1 \<le> vi_remaining vt \<and> vi_remaining vt \<le> 3 else vi_remaining vt = 0) \<and>
   length (cp_value p) = AG_VTIN_MAX_PARAMS \<and> cp_count p \<le> AG_VTIN_MAX_PARAMS \<and>
   list_all (\<lambda>v. -1 \<le> v \<and> v < 10000000) (cp_event p # cp_value p) \<and> \<not> ag_vtin_busy (fst (ag_vtin_idle vt))"
proof -
  define vt where "vt = fst (vtin_run ag_vtin_init ops)"
  have "vtin_ok vt" unfolding vt_def by (rule vtin_run_ok [OF vtin_ok_init])
  moreover have "params_ok (parse_params (vi_seq vt) (vi_seqlen vt))" by (rule parse_params_ok)
  moreover have "param_ok = (\<lambda>v. -1 \<le> v \<and> v < 10000000)" by (simp add: param_ok_def fun_eq_iff)
  moreover have "\<not> ag_vtin_busy (fst (ag_vtin_idle vt))" by (simp add: ag_vtin_busy_def ag_vtin_idle_def)
  ultimately show ?thesis unfolding vt_def [symmetric] Let_def vtin_ok_def params_ok_def by metis
qed

lemma idle_ground:
  assumes "vt = fst (vtin_run ag_vtin_init ops)" and "\<not> ag_vtin_busy vt"
  shows "vi_state vt = AG_VTIN_GROUND" "length (vi_seq vt) = AG_VTIN_SEQ_MAX" "vi_remaining vt = 0"
  using vtin_run_ok [OF vtin_ok_init, of ops] assms by (auto simp: vtin_ok_def ag_vtin_busy_def)

text \<open>
  C33. Text comes through as it was written: when no sequence is in progress, the UTF-8 of any characters from the space on gives one key
  press for each of them, in their order and with that code point, ASCII ones with the key and the shift of a US keyboard, and
  leaves the decoder at rest with the same mouse buttons held.
\<close>

theorem vtin_text:
  assumes "vt = fst (vtin_run ag_vtin_init ops)" and "\<not> ag_vtin_busy vt" and "list_all typeable us"
  shows "case feeds vt (concat (map ag_utf8_encode us)) of (vt2, es) \<Rightarrow>
    es = map typed us \<and> map e_unicode es = us \<and> list_all (\<lambda>e. e_type e = AG_EV_KEY_DOWN) es \<and>
    \<not> ag_vtin_busy vt2 \<and> vi_buttons vt2 = vi_buttons vt"
proof -
  note g = idle_ground [OF assms(1,2)]
  have "e_unicode (typed u) = u \<and> e_type (typed u) = AG_EV_KEY_DOWN" for u by (simp add: typed_def ev_key_def ev_none_def case_prod_beta)
  then have "map e_unicode (map typed us) = us \<and> list_all (\<lambda>e. e_type e = AG_EV_KEY_DOWN) (map typed us)"
    by (simp add: list_all_iff map_idI)
  then show ?thesis using feed_text [OF g(1) assms(3)] g(1) unfolding case_prod_beta by (auto simp: ag_vtin_busy_def)
qed

theorem vtin_text_witness:
  "snd (feeds (fst (vtin_run ag_vtin_init [VtByte 0x1B, VtPause])) (concat (map ag_utf8_encode [0x41, 0x416, 0x20AC, 0x1F600]))) =
   map typed [0x41, 0x416, 0x20AC, 0x1F600]"
proof -
  have "\<not> ag_vtin_busy (fst (vtin_run ag_vtin_init [VtByte 0x1B, VtPause]))" by code_simp
  moreover have "list_all typeable [0x41, 0x416, 0x20AC, 0x1F600]" by code_simp
  ultimately show ?thesis using vtin_text [OF refl] unfolding case_prod_beta by blast
qed

text \<open>
  The keys that are no text: with any of the sixteen combinations of modifiers, the sequence a terminal writes for an
  arrow, Home, End or a function key gives one press of that key with those modifiers, and so does each of the numbered keys.
\<close>

theorem vtin_keys:
  assumes "vt = fst (vtin_run ag_vtin_init ops)" and "\<not> ag_vtin_busy vt" and "(c, k) \<in> set k_letters" and "(int n, j) \<in> set k_tilde"
  shows "(case feeds vt ([0x1B, 0x5B] @ params_text [1, mods_number s a ct g] @ [c]) of (vt2, es) \<Rightarrow>
      es = [ev_key k 0 (mods_of s a ct g)] \<and> \<not> ag_vtin_busy vt2) \<and>
    (case feeds vt ([0x1B, 0x5B] @ params_text [n, mods_number s a ct g] @ [0x7E]) of (vt2, es) \<Rightarrow>
      es = [ev_key j 0 (mods_of s a ct g)] \<and> \<not> ag_vtin_busy vt2)"
  unfolding case_prod_beta ag_vtin_busy_def
  using feed_letter [OF idle_ground(1,2) [OF assms(1,2)] assms(3)] feed_tilde [OF idle_ground(1,2) [OF assms(1,2)] assms(4)] by blast

theorem vtin_keys_witness:
  "snd (feeds ag_vtin_init ([0x1B, 0x5B] @ params_text [1, mods_number True False True False] @ [0x41])) =
     [ev_key KEY_UP 0 (MOD_SHIFT OR MOD_CTRL)] \<and>
   snd (feeds ag_vtin_init ([0x1B, 0x5B] @ params_text [3, mods_number True False True False] @ [0x7E])) =
     [ev_key KEY_DELETE 0 (MOD_SHIFT OR MOD_CTRL)]"
proof -
  have "ag_vtin_init = fst (vtin_run ag_vtin_init [])" "\<not> ag_vtin_busy ag_vtin_init" by (simp_all add: ag_vtin_busy_def ag_vtin_init_def)
  moreover have "(0x41, KEY_UP) \<in> set k_letters" by (simp add: k_letters_def)
  moreover have "(int 3, KEY_DELETE) \<in> set k_tilde" by (simp add: k_tilde_def)
  moreover have "mods_of True False True False = MOD_SHIFT OR MOD_CTRL" by (simp add: mods_of_def)
  ultimately show ?thesis using vtin_keys [of ag_vtin_init "[]" "0x41" KEY_UP 3 KEY_DELETE True False True False]
    unfolding case_prod_beta by metis
qed

text \<open>
  A click comes through: a press of a mouse button at one place and its release at another, as a terminal in SGR mode reports them, give
  exactly the two pointer events at those places, the first with the button among those held and the second without it, the
  others as they were; and the decoder is left at rest without that button.
\<close>

theorem vtin_pointer:
  assumes "vt = fst (vtin_run ag_vtin_init ops)" and "\<not> ag_vtin_busy vt" and "b < 3" and "x < 65535" and "y < 65535" and "x2 < 65535" and "y2 < 65535"
  shows "case feeds vt (mouse_text b x y 0x4D @ mouse_text b x2 y2 0x6D) of (vt2, es) \<Rightarrow>
    es = [pointer AG_EV_POINTER_DOWN x y (vi_buttons vt OR push_bit b 1), pointer AG_EV_POINTER_UP x2 y2 (vi_buttons vt AND NOT (push_bit b 1))] \<and>
    vi_buttons vt2 = vi_buttons vt AND NOT (push_bit b 1) \<and> \<not> ag_vtin_busy vt2"
proof -
  note g = idle_ground [OF assms(1,2)]
  obtain v1 where v1: "feeds vt (mouse_text b x y 0x4D) = (v1, [pointer AG_EV_POINTER_DOWN x y (vi_buttons v1)])"
    "vi_state v1 = AG_VTIN_GROUND" "length (vi_seq v1) = AG_VTIN_SEQ_MAX" "vi_buttons v1 = vi_buttons vt OR push_bit b 1"
    using feed_mouse [OF g(1,2) assms(4,5,3), of "0x4D"] by auto
  obtain v2 where v2: "feeds v1 (mouse_text b x2 y2 0x6D) = (v2, [pointer AG_EV_POINTER_UP x2 y2 (vi_buttons v2)])"
    "vi_state v2 = AG_VTIN_GROUND" "vi_buttons v2 = vi_buttons v1 AND NOT (push_bit b 1)"
    using feed_mouse [OF v1(2,3) assms(6,7,3), of "0x6D"] by auto
  have "(vi_buttons vt OR push_bit b 1) AND NOT (push_bit b 1) = vi_buttons vt AND NOT (push_bit b 1)"
    by (rule bit_word_eqI) (auto simp: bit_simps)
  then show ?thesis using v1 v2 by (simp add: vtin_run_append ag_vtin_busy_def)
qed

theorem vtin_pointer_witness:
  "snd (feeds ag_vtin_init (mouse_text 2 10 4 0x4D @ mouse_text 2 11 4 0x6D)) = [pointer AG_EV_POINTER_DOWN 10 4 4, pointer AG_EV_POINTER_UP 11 4 0]"
  using vtin_pointer [of ag_vtin_init "[]" 2 10 4 11 4] by (simp add: ag_vtin_busy_def ag_vtin_init_def case_prod_beta)

end
