(* ===== verification/Typing.thy ===== *)
theory Typing
  imports Vtin
begin

text \<open>
  A line typed at a terminal: the bytes go through the decoder of \<open>console/vtin.c\<close>, its events to the editor of
  \<open>shell/lineedit.c\<close>, which keeps the characters as bytes of the active code page.
\<close>

section \<open>From the decoder to the editor\<close>

text \<open>The event as the editor reads it: the keys it tells apart, and the two modifiers it asks for.\<close>

definition line_keys :: "(u16 \<times> ag_keycode) list" where
  "line_keys =
     [(KEY_A, AG_KEY_A), (0x06, AG_KEY_C), (0x07, AG_KEY_D), (0x08, AG_KEY_E), (0x0e, AG_KEY_K), (0x18, AG_KEY_U), (0x1a, AG_KEY_W),
      (KEY_LEFT, AG_KEY_LEFT), (KEY_RIGHT, AG_KEY_RIGHT), (KEY_UP, AG_KEY_UP), (KEY_DOWN, AG_KEY_DOWN), (KEY_ENTER, AG_KEY_ENTER),
      (KEY_TAB, AG_KEY_TAB), (KEY_BACKSPACE, AG_KEY_BACKSPACE), (KEY_DELETE, AG_KEY_DELETE), (KEY_HOME, AG_KEY_HOME), (KEY_END, AG_KEY_END)]"

definition line_event :: "vt_event \<Rightarrow> ag_event" where
  "line_event e = \<lparr>ev_key_down = (e_type e = AG_EV_KEY_DOWN),
     ev_keycode = (case map_of line_keys (e_keycode e) of Some k \<Rightarrow> k | None \<Rightarrow> AG_KEY_OTHER),
     ev_ctrl = (e_mods e AND MOD_CTRL \<noteq> 0), ev_alt = (e_mods e AND MOD_ALT \<noteq> 0), ev_unicode = e_unicode e\<rparr>"

text \<open>The bytes of a terminal, through the decoder and into the editor.\<close>

definition type_bytes :: "ag_cp option \<Rightarrow> ag_vtin \<Rightarrow> ag_lineedit \<Rightarrow> u8 list \<Rightarrow> ag_line_result list \<times> ag_vtin \<times> ag_lineedit" where
  "type_bytes active vt le bs =
     (case feeds vt bs of (vt1, es) \<Rightarrow> case le_run le (map (\<lambda>e. LeKey active (line_event e)) es) of (rs, le1) \<Rightarrow> (rs, vt1, le1))"

definition text_code :: "u16 \<Rightarrow> bool" where
  "text_code k \<longleftrightarrow> k < KEY_ENTER \<or> (KEY_TAB < k \<and> k < KEY_INSERT)"

lemma text_code_key:
  assumes "text_code k"
  shows "map_of line_keys k \<in> {None, Some AG_KEY_A, Some AG_KEY_C, Some AG_KEY_D, Some AG_KEY_E, Some AG_KEY_K, Some AG_KEY_U, Some AG_KEY_W}"
  using assms unfolding text_code_def line_keys_def by (auto simp: word_less_nat_alt)

lemma ascii_keys: "list_all (\<lambda>n. case ag_key_from_ascii (word_of_int n) of (k, m) \<Rightarrow> text_code k \<and> m AND MOD_CTRL = 0 \<and> m AND MOD_ALT = 0) [32..126]"
  by code_simp

lemma typed_event:
  assumes "typeable u"
  obtains k where "line_event (typed u) = \<lparr>ev_key_down = True, ev_keycode = k, ev_ctrl = False, ev_alt = False, ev_unicode = u\<rparr>"
    and "k \<in> {AG_KEY_A, AG_KEY_C, AG_KEY_D, AG_KEY_E, AG_KEY_K, AG_KEY_U, AG_KEY_W, AG_KEY_OTHER}"
proof -
  obtain c m where t: "typed u = ev_key c u m" and c: "text_code c" and m: "m AND MOD_CTRL = 0" "m AND MOD_ALT = 0"
  proof (cases "u < 0x7f")
    case True
    then have r: "32 \<le> uint u" "uint u \<le> 126" using assms by (simp_all add: typeable_def word_le_def word_less_def)
    have "(ucast u :: u8) = word_of_int (uint u)" by simp
    then show thesis using that word_between [OF ascii_keys r] True by (auto simp: typed_def case_prod_beta word_less_def)
  next
    case False
    then have "\<not> u < 0x80" using assms by (auto simp: typeable_def word_less_def word_uint_eq_iff)
    then show thesis using that [of KEY_NONE 0] by (simp add: typed_def text_code_def)
  qed
  let ?k = "case map_of line_keys c of Some k \<Rightarrow> k | None \<Rightarrow> AG_KEY_OTHER"
  have "line_event (typed u) = \<lparr>ev_key_down = True, ev_keycode = ?k, ev_ctrl = False, ev_alt = False, ev_unicode = u\<rparr>"
    using m by (simp add: t line_event_def ev_key_def ev_none_def)
  moreover have "?k \<in> {AG_KEY_A, AG_KEY_C, AG_KEY_D, AG_KEY_E, AG_KEY_K, AG_KEY_U, AG_KEY_W, AG_KEY_OTHER}"
    using text_code_key [OF c] by auto
  ultimately show thesis by (rule that)
qed

lemma ed_key_typed:
  assumes "typeable u" and "ag_cp_from_unicode active u = Some b" and "length (ed_line ed) + 1 < AG_LINE_MAX"
  shows "ed_key active ed (line_event (typed u)) = (AG_LINE_CHANGED, ed_put ed b)"
proof -
  have u: "\<not> u < 0x20" "u \<noteq> 0x7f" using assms(1) by (auto simp: typeable_def)
  obtain k where "line_event (typed u) = \<lparr>ev_key_down = True, ev_keycode = k, ev_ctrl = False, ev_alt = False, ev_unicode = u\<rparr>"
    and "k \<in> {AG_KEY_A, AG_KEY_C, AG_KEY_D, AG_KEY_E, AG_KEY_K, AG_KEY_U, AG_KEY_W, AG_KEY_OTHER}" by (rule typed_event [OF assms(1)])
  then show ?thesis unfolding ed_key_def using assms(2,3) u by (auto simp: Let_def)
qed

lemma ed_put_all:
  "list_all (\<lambda>(u, b). typeable u \<and> ag_cp_from_unicode active u = Some b) ubs \<Longrightarrow> length (ed_line ed) + length ubs < AG_LINE_MAX \<Longrightarrow>
    ed_cur ed \<le> length (ed_line ed) \<Longrightarrow>
    ed_run ed (map (\<lambda>u. LeKey active (line_event (typed u))) (map fst ubs)) = (replicate (length ubs) AG_LINE_CHANGED,
      ed\<lparr>ed_line := take (ed_cur ed) (ed_line ed) @ map snd ubs @ drop (ed_cur ed) (ed_line ed), ed_cur := ed_cur ed + length ubs\<rparr>)"
proof (induction ubs arbitrary: ed)
  case (Cons ub ubs)
  obtain u b where ub: "ub = (u, b)" by (cases ub)
  let ?e = "ed_put ed b"
  have k: "ed_key active ed (line_event (typed u)) = (AG_LINE_CHANGED, ?e)" using Cons.prems by (intro ed_key_typed) (simp_all add: ub)
  have c: "ed_cur ?e = ed_cur ed + 1" "length (ed_line ?e) = length (ed_line ed) + 1" "ed_cur ?e \<le> length (ed_line ?e)"
    "take (ed_cur ?e) (ed_line ?e) = take (ed_cur ed) (ed_line ed) @ [b]" "drop (ed_cur ?e) (ed_line ?e) = drop (ed_cur ed) (ed_line ed)"
    using Cons.prems(3) by (simp_all add: ed_put_def)
  have "list_all (\<lambda>(u, b). typeable u \<and> ag_cp_from_unicode active u = Some b) ubs" "length (ed_line ?e) + length ubs < AG_LINE_MAX"
    using Cons.prems c(2) by simp_all
  note IH = Cons.IH [OF this c(3)]
  have "ed_run ed (map (\<lambda>u. LeKey active (line_event (typed u))) (map fst (ub # ubs))) =
      (case ed_run ?e (map (\<lambda>u. LeKey active (line_event (typed u))) (map fst ubs)) of (rs, ed2) \<Rightarrow> (AG_LINE_CHANGED # rs, ed2))"
    using k by (simp add: ub)
  then show ?case unfolding IH c(4,5) by (simp add: ub ed_put_def)
qed simp

section \<open>Bytes of the page\<close>

text \<open>A byte of the page that is a character and no control.\<close>

definition printable :: "ag_cp \<Rightarrow> u8 \<Rightarrow> bool" where
  "printable p b \<longleftrightarrow> 0x20 \<le> b \<and> b \<noteq> 0x7f \<and> \<not> (p = AG_CP_1251 \<and> b = 0x98)"

lemma printable_char:
  assumes "printable p b"
  shows "typeable (ag_cp_to_unicode (Some p) b) \<and> ag_cp_from_unicode (Some p) (ag_cp_to_unicode (Some p) b) = Some b"
proof
  show rt: "ag_cp_from_unicode (Some p) (ag_cp_to_unicode (Some p) b) = Some b"
    using cp_there_and_back [of p b] assms by (auto simp: printable_def split: if_splits)
  let ?u = "ag_cp_to_unicode (Some p) b"
  show "typeable ?u"
  proof (cases "b < 0x80")
    case True
    then have "?u = ucast b" by (simp add: ag_cp_to_unicode_def)
    moreover have "unat (ucast b :: u32) = unat b" by (rule unat_ucast_8_32)
    ultimately have n: "unat ?u = unat b" by simp
    have "unat b < 256" "32 \<le> unat b" "unat b \<noteq> 127" using assms unsigned_less [of b, where ?'a = nat]
      by (auto simp: printable_def word_le_nat_alt word_unat_eq_iff)
    then show ?thesis using n by (auto simp: typeable_def word_le_nat_alt word_unat_eq_iff)
  next
    case False
    have "\<not> ?u < 0x80"
    proof
      assume l: "?u < 0x80"
      then have "b = ucast ?u" using rt by (simp add: ag_cp_from_unicode_def)
      moreover have "unat (ucast ?u :: u8) = unat ?u" using l by (simp add: word_less_nat_alt unsigned_ucast_eq take_bit_nat_eq_self)
      ultimately show False using l False by (simp add: word_less_nat_alt)
    qed
    moreover have "?u \<le> 0xffff" using rt calculation by (auto simp: ag_cp_from_unicode_def split: if_splits)
    ultimately show ?thesis by (auto simp: typeable_def word_le_nat_alt word_less_nat_alt word_unat_eq_iff)
  qed
qed

lemma feed_enter: "vi_state vt = AG_VTIN_GROUND \<Longrightarrow> feeds vt [0x0D] = (vt, [ev_key KEY_ENTER 0x0D 0])"
  by (simp add: ag_vtin_feed_def ground_byte_def)

lemma ed_enter: "ed_key active ed (line_event (ev_key KEY_ENTER 0x0D 0)) = (AG_LINE_DONE, ed)"
  by (simp add: ed_key_def line_event_def ev_key_def ev_none_def line_keys_def)

lemma ed_run_append: "ed_run ed (xs @ ys) = (case ed_run ed xs of (rs, ed1) \<Rightarrow> case ed_run ed1 ys of (qs, ed2) \<Rightarrow> (rs @ qs, ed2))"
  by (induction xs arbitrary: ed) (simp_all add: case_prod_beta)

text \<open>The line as the specification has it, in the fields of the code.\<close>

lemma abs_text: "le_inv le \<Longrightarrow> ed_line (abs_le le) = c_text (le_buf le)"
  by (simp add: abs_le_def inv_text)

lemma line_typed:
  assumes "vt = fst (vtin_run ag_vtin_init ops)" and "\<not> ag_vtin_busy vt" and "le = snd (le_run ag_lineedit_init lops)"
    and "list_all (printable p) bs" and "le_len le + length bs < AG_LINE_MAX"
    and "input = concat (map (\<lambda>b. ag_utf8_encode (ag_cp_to_unicode (Some p) b)) bs) @ [0x0D]"
  shows "case type_bytes (Some p) vt le input of (rs, vt2, le2) \<Rightarrow>
    rs = replicate (length bs) AG_LINE_CHANGED @ [AG_LINE_DONE] \<and> \<not> ag_vtin_busy vt2 \<and>
    c_text (le_buf le2) = take (le_cursor le) (c_text (le_buf le)) @ bs @ drop (le_cursor le) (c_text (le_buf le)) \<and>
    le_cursor le2 = le_cursor le + length bs \<and> ed_hist (abs_le le2) = ed_hist (abs_le le)"
proof -
  define us where "us = map (ag_cp_to_unicode (Some p)) bs"
  define keys where "keys = map (\<lambda>u. LeKey (Some p) (line_event (typed u))) us @ [LeKey (Some p) (line_event (ev_key KEY_ENTER 0x0D 0))]"
  let ?ubs = "zip us bs" and ?ed = "abs_le le"
  have ub: "map fst ?ubs = us" "map snd ?ubs = bs" "length ?ubs = length bs" by (simp_all add: us_def)
  have pr: "list_all (\<lambda>(u, b). typeable u \<and> ag_cp_from_unicode (Some p) u = Some b) ?ubs"
    using assms(4) by (simp add: us_def list_all_length printable_char)
  have tu: "list_all typeable us" using assms(4) printable_char by (auto simp: us_def list_all_iff)
  have inv: "le_inv le" unfolding assms(3) using run_refines by blast
  have inp: "input = concat (map ag_utf8_encode us) @ [0x0D]" by (simp add: assms(6) us_def comp_def)
  note g = idle_ground [OF assms(1,2)]
  define vt1 where "vt1 = fst (feeds vt (concat (map ag_utf8_encode us)))"
  have f: "feeds vt (concat (map ag_utf8_encode us)) = (vt1, map typed us)" and g1: "vi_state vt1 = AG_VTIN_GROUND"
    using feed_text [OF g(1) tu] g(1) by (auto simp: vt1_def prod_eq_iff)
  have fi: "feeds vt input = (vt1, map typed us @ [ev_key KEY_ENTER 0x0D 0])"
    using f feed_enter [OF g1] by (simp add: inp vtin_run_append)
  have cur: "ed_cur ?ed \<le> length (ed_line ?ed)" "length (ed_line ?ed) + length ?ubs < AG_LINE_MAX"
    using inv assms(5) ub(3) by (simp_all add: le_inv_def abs_le_def)
  let ?ed2 = "?ed\<lparr>ed_line := take (ed_cur ?ed) (ed_line ?ed) @ bs @ drop (ed_cur ?ed) (ed_line ?ed), ed_cur := ed_cur ?ed + length bs\<rparr>"
  have "ed_run ?ed (map (\<lambda>u. LeKey (Some p) (line_event (typed u))) us) = (replicate (length bs) AG_LINE_CHANGED, ?ed2)"
    using ed_put_all [OF pr cur(2,1)] unfolding ub .
  then have er: "ed_run ?ed keys = (replicate (length bs) AG_LINE_CHANGED @ [AG_LINE_DONE], ?ed2)"
    unfolding keys_def ed_run_append by (simp add: ed_enter)
  obtain rs le2 where r: "le_run le keys = (rs, le2)" by (cases "le_run le keys")
  from run_refines_from [OF inv, of keys] have s: "rs = replicate (length bs) AG_LINE_CHANGED @ [AG_LINE_DONE]" "le_inv le2" "abs_le le2 = ?ed2"
    by (simp_all add: r er)
  have "type_bytes (Some p) vt le input = (rs, vt1, le2)"
    using r by (simp add: type_bytes_def fi keys_def comp_def)
  moreover have "le_cursor le2 = le_cursor le + length bs" using abs_le_sel(2) [of le2] unfolding s(3) by simp
  ultimately show ?thesis using s g1 abs_text [OF s(2)] abs_text [OF inv] by (simp add: ag_vtin_busy_def)
qed

section \<open>Properties\<close>

text \<open>
  What is typed is what the shell gets. Take any decoder at rest and any editor in the middle of a line, under any of the
  three code pages, and characters of that page that the line has room for, up to the 255 it holds: when they arrive as the UTF-8 that
  a terminal sends, and then Enter, the editor reports a change for each and then the finished line, and the string in its buffer is
  the old one with exactly the page's bytes for these characters put in at the cursor; the cursor stands behind them, the history is
  untouched and the decoder is at rest again.
\<close>

theorem typed_line:
  assumes "vt = fst (vtin_run ag_vtin_init ops)" and "\<not> ag_vtin_busy vt" and "le = snd (le_run ag_lineedit_init lops)"
    and "list_all (printable p) bs" and "le_len le + length bs < AG_LINE_MAX"
    and "input = concat (map (\<lambda>b. ag_utf8_encode (ag_cp_to_unicode (Some p) b)) bs) @ [0x0D]"
  shows "case type_bytes (Some p) vt le input of (rs, vt2, le2) \<Rightarrow>
    rs = replicate (length bs) AG_LINE_CHANGED @ [AG_LINE_DONE] \<and> \<not> ag_vtin_busy vt2 \<and>
    c_text (le_buf le2) = take (le_cursor le) (c_text (le_buf le)) @ bs @ drop (le_cursor le) (c_text (le_buf le)) \<and>
    le_cursor le2 = le_cursor le + length bs \<and> ed_hist (abs_le le2) = ed_hist (abs_le le)"
  by (rule line_typed [OF assms])

theorem typed_line_witness:
  "c_text (le_buf (snd (snd (type_bytes (Some AG_CP_866) ag_vtin_init ag_lineedit_init
     (concat (map (\<lambda>b. ag_utf8_encode (ag_cp_to_unicode (Some AG_CP_866) b)) [0x6C, 0x73, 0x20, 0x80, 0xE1]) @ [0x0D]))))) = [0x6C, 0x73, 0x20, 0x80, 0xE1]"
proof -
  have "ag_vtin_init = fst (vtin_run ag_vtin_init [])" "\<not> ag_vtin_busy ag_vtin_init" by (simp_all add: ag_vtin_busy_def ag_vtin_init_def)
  moreover have "ag_lineedit_init = snd (le_run ag_lineedit_init [])" by simp
  moreover have "list_all (printable AG_CP_866) [0x6C, 0x73, 0x20, 0x80, 0xE1]" by (simp add: printable_def)
  moreover have "le_len ag_lineedit_init + length [0x6C, 0x73, 0x20, 0x80, 0xE1 :: u8] < AG_LINE_MAX" by (simp add: ag_lineedit_init_def AG_LINE_MAX_def)
  moreover have "c_text (le_buf ag_lineedit_init) = []" by (simp add: c_text_def ag_lineedit_init_def AG_LINE_MAX_def)
  ultimately show ?thesis using typed_line [of ag_vtin_init "[]" ag_lineedit_init "[]" AG_CP_866 "[0x6C, 0x73, 0x20, 0x80, 0xE1]", OF _ _ _ _ _ refl]
    unfolding case_prod_beta by simp
qed

end
