(* ===== verification/Cmdline.thy ===== *)
theory Cmdline
  imports Typing
begin

text \<open>
  \<open>core/cmdline.c\<close>: a line cut into arguments inside its own buffer. The quotes are taken out by writing the characters back over the
  line while it is read, so the arguments, the separators and the text still to be read share one array; a place in it is an index,
  and what \<open>argv\<close> receives are the indices where the arguments start.
\<close>

section \<open>The code\<close>

definition AG_ARGV_MAX :: nat where "AG_ARGV_MAX = 48"

definition is_blank :: "u8 \<Rightarrow> bool" where
  "is_blank c \<longleftrightarrow> c = 0x20 \<or> c = 0x09 \<or> c = 0x0D \<or> c = 0x0A"

function skip_blanks :: "u8 list \<Rightarrow> nat \<Rightarrow> nat" where
  "skip_blanks b r = (if r < length b \<and> is_blank (b ! r) then skip_blanks b (r + 1) else r)"
  by auto
termination
  by (relation "measure (\<lambda>(b, r). length b - r)") auto

text \<open>The inner loop: \<open>r\<close> and \<open>w\<close> are the pointers \<open>read\<close> and \<open>write\<close>.\<close>

function copy_word :: "u8 list \<Rightarrow> nat \<Rightarrow> nat \<Rightarrow> bool \<Rightarrow> u8 list \<times> nat \<times> nat" where
  "copy_word b r w quoted =
     (if r < length b \<and> b ! r \<noteq> 0 \<and> (quoted \<or> \<not> is_blank (b ! r)) then
        if b ! r = 0x22 then copy_word b (r + 1) w (\<not> quoted) else copy_word (b[w := b ! r]) (r + 1) (w + 1) quoted
      else (b, r, w))"
  by auto
termination
  by (relation "measure (\<lambda>(b, r, w, q). length b - r)") auto

declare skip_blanks.simps [simp del] copy_word.simps [simp del]

lemma copy_word_bounds: "case copy_word b r w q of (b1, r1, w1) \<Rightarrow> r \<le> r1 \<and> length b1 = length b \<and> (r \<le> length b \<longrightarrow> r1 \<le> length b)"
proof (induction b r w q rule: copy_word.induct)
  case (1 b r w q)
  show ?case
    by (subst copy_word.simps) (use 1 in \<open>auto simp: case_prod_beta\<close>)
qed

lemma skip_blanks_bounds: "r \<le> skip_blanks b r" "r \<le> length b \<Longrightarrow> skip_blanks b r \<le> length b"
proof (induction b r rule: skip_blanks.induct)
  case (1 b r)
  { case 1 then show ?case by (subst skip_blanks.simps) (use "1.IH" in auto) }
  { case 2 then show ?case by (subst skip_blanks.simps) (use "1.IH" in auto) }
qed

lemma copy_word_moves:
  assumes "r < length b" and "b ! r \<noteq> 0" and "\<not> is_blank (b ! r)"
  shows "r < fst (snd (copy_word b r w False))"
proof (cases "b ! r = 0x22")
  case True
  then have "copy_word b r w False = copy_word b (r + 1) w True" using assms by (subst copy_word.simps) simp
  then show ?thesis using copy_word_bounds [where b = b and r = "r + 1" and w = w and q = True] by (simp add: case_prod_beta)
next
  case False
  then have "copy_word b r w False = copy_word (b[w := b ! r]) (r + 1) (w + 1) False" using assms by (subst copy_word.simps) simp
  then show ?thesis using copy_word_bounds [where b = "b[w := b ! r]" and r = "r + 1" and w = "w + 1" and q = False] by (simp add: case_prod_beta)
qed

lemma skip_blanks_stops: "skip_blanks b r < length b \<Longrightarrow> \<not> is_blank (b ! skip_blanks b r)"
proof (induction b r rule: skip_blanks.induct)
  case (1 b r)
  then show ?case using skip_blanks.simps [of b r] by (cases "r < length b \<and> is_blank (b ! r)") auto
qed

text \<open>The outer loop, from \<open>read = r\<close> and with the arguments found so far.\<close>

function split_from :: "u8 list \<Rightarrow> nat \<Rightarrow> nat list \<Rightarrow> nat \<Rightarrow> nat list \<times> u8 list" where
  "split_from b r argv max_argv =
     (if r < length b \<and> b ! r \<noteq> 0 then
        let start = skip_blanks b r in
        if \<not> (start < length b \<and> b ! start \<noteq> 0) then (argv, b)
        else
          case copy_word b start start False of (b1, r1, w1) \<Rightarrow>
            let at_end = \<not> (r1 < length b1 \<and> b1 ! r1 \<noteq> 0);
                b2 = b1[w1 := 0];
                r2 = (if at_end then r1 else r1 + 1)
            in if length argv < max_argv then split_from b2 r2 (argv @ [start]) max_argv else (argv, b2)
      else (argv, b))"
  by auto
termination
proof (relation "measure (\<lambda>(b, r, argv, m). length b - r)", goal_cases)
  case (2 b r argv m start b1 y r1 w1 at_end b2 r2)
  have "start < length b" "b ! start \<noteq> 0" "\<not> is_blank (b ! start)" "r \<le> start"
    using 2 skip_blanks_stops [of b r] skip_blanks_bounds(1) [of r b] by auto
  moreover have "copy_word b start start False = (b1, r1, w1)" using 2(4,5) by simp
  ultimately have "start < r1" "length b1 = length b"
    using copy_word_moves [of start b start] copy_word_bounds [where b = b and r = start and w = start and q = False] by simp_all
  then show ?case using 2(1,7,8) \<open>r \<le> start\<close> by auto
qed simp

declare split_from.simps [simp del]

definition ag_cmdline_split :: "u8 list \<Rightarrow> nat \<Rightarrow> nat list \<times> u8 list" where
  "ag_cmdline_split line max_argv = (if max_argv = 0 then ([], line) else split_from line 0 [] max_argv)"

section \<open>What it promises\<close>

text \<open>A word, quotes taken out, and what is left behind the blank that ends it; the words of a text.\<close>

fun take_word :: "bool \<Rightarrow> u8 list \<Rightarrow> u8 list \<times> u8 list" where
  "take_word q [] = ([], [])"
| "take_word q (c # cs) =
     (if \<not> q \<and> is_blank c then ([], cs)
      else if c = 0x22 then take_word (\<not> q) cs
      else case take_word q cs of (w, rest) \<Rightarrow> (c # w, rest))"

lemma take_word_shorter: "length (snd (take_word q cs)) \<le> length cs"
  by (induction q cs rule: take_word.induct) (auto simp: case_prod_beta)

function cmd_words :: "u8 list \<Rightarrow> u8 list list" where
  "cmd_words t = (case dropWhile is_blank t of [] \<Rightarrow> [] | c # cs \<Rightarrow> (case take_word False (c # cs) of (w, rest) \<Rightarrow> w # cmd_words rest))"
  by auto
termination
proof (relation "measure length", goal_cases)
  case (2 t c cs w rest)
  have "length (c # cs) \<le> length t" using length_dropWhile_le [of is_blank t] by (simp only: 2(1))
  moreover have "\<not> is_blank c" using hd_dropWhile [of is_blank t] 2(1) by simp
  then have "length rest \<le> length cs"
    using arg_cong [OF 2(2), of snd] take_word_shorter [of True cs] take_word_shorter [of False cs] by (simp add: case_prod_beta split: if_splits)
  ultimately show ?case by simp
qed simp

declare cmd_words.simps [simp del]

section \<open>The buffer and the text in it\<close>

lemma c_text_step: "r < length b \<Longrightarrow> b ! r \<noteq> 0 \<Longrightarrow> c_text (drop r b) = b ! r # c_text (drop (Suc r) b)"
  unfolding c_text_def by (simp add: Cons_nth_drop_Suc [symmetric])

lemma c_text_end: "r < length b \<Longrightarrow> b ! r = 0 \<Longrightarrow> c_text (drop r b) = []"
  unfolding c_text_def by (simp add: Cons_nth_drop_Suc [symmetric])

lemma ahead_step: "0 \<in> set (drop r b) \<Longrightarrow> b ! r \<noteq> 0 \<Longrightarrow> 0 \<in> set (drop (Suc r) b)"
  by (cases "r < length b") (auto simp: Cons_nth_drop_Suc [symmetric])

lemma ahead_in: "0 \<in> set (drop r b) \<Longrightarrow> r < length b"
  by (cases "r < length b") auto

lemma take_drop_write: "w < length b \<Longrightarrow> take (Suc n) (drop w (b[w := c])) = c # take n (drop (Suc w) b)"
  by (simp add: drop_update_swap Cons_nth_drop_Suc [symmetric])

lemma skip_blanks_text:
  "0 \<in> set (drop r b) \<Longrightarrow> c_text (drop (skip_blanks b r) b) = dropWhile is_blank (c_text (drop r b)) \<and> 0 \<in> set (drop (skip_blanks b r) b)"
proof (induction b r rule: skip_blanks.induct)
  case (1 b r)
  have r: "r < length b" using 1(2) by (rule ahead_in)
  show ?case
  proof (cases "is_blank (b ! r)")
    case True
    then have z: "b ! r \<noteq> 0" by (auto simp: is_blank_def)
    then show ?thesis using 1 True r ahead_step [OF 1(2) z] c_text_step [OF r z] skip_blanks.simps [of b r] by simp
  next
    case False
    then have "dropWhile is_blank (c_text (drop r b)) = c_text (drop r b)"
      using c_text_step [OF r] c_text_end [OF r] by (cases "b ! r = 0") simp_all
    then show ?thesis using False 1(2) skip_blanks.simps [of b r] by simp
  qed
qed

lemma copy_word_text:
  assumes "w \<le> r" and "0 \<in> set (drop r b)"
  shows "case copy_word b r w q of (b1, r1, w1) \<Rightarrow>
    case take_word q (c_text (drop r b)) of (word, rest) \<Rightarrow>
      w1 = w + length word \<and> w1 \<le> r1 \<and> r1 < length b \<and> length b1 = length b \<and> take w b1 = take w b \<and>
      take (length word) (drop w b1) = word \<and> drop r1 b1 = drop r1 b \<and> 0 \<in> set (drop r1 b) \<and>
      rest = (if b ! r1 = 0 then [] else c_text (drop (Suc r1) b))"
  using assms
proof (induction b r w q rule: copy_word.induct)
  case (1 b r w q)
  have r: "r < length b" using 1(4) by (rule ahead_in)
  consider (stop) "b ! r = 0 \<or> (\<not> q \<and> is_blank (b ! r))" | (quote) "b ! r = 0x22" "b ! r \<noteq> 0" "q \<or> \<not> is_blank (b ! r)"
    | (char) "b ! r \<noteq> 0x22" "b ! r \<noteq> 0" "q \<or> \<not> is_blank (b ! r)" by blast
  then show ?case
  proof cases
    case stop
    then have "copy_word b r w q = (b, r, w)" by (subst copy_word.simps) auto
    moreover have "take_word q (c_text (drop r b)) = ([], if b ! r = 0 then [] else c_text (drop (Suc r) b))"
      using stop c_text_step [OF r] c_text_end [OF r] by (cases "b ! r = 0") simp_all
    ultimately show ?thesis using 1(3,4) r by simp
  next
    case quote
    then have e: "copy_word b r w q = copy_word b (Suc r) w (\<not> q)" using r by (subst copy_word.simps) simp
    have t: "take_word q (c_text (drop r b)) = take_word (\<not> q) (c_text (drop (Suc r) b))"
      using quote c_text_step [OF r quote(2)] by (simp add: is_blank_def)
    show ?thesis unfolding e t using 1(1) quote r 1(3) ahead_step [OF 1(4) quote(2)] by simp
  next
    case char
    let ?b = "b[w := b ! r]"
    have e: "copy_word b r w q = copy_word ?b (Suc r) (Suc w) q" using r char by (subst copy_word.simps) simp
    have d: "drop (Suc r) ?b = drop (Suc r) b" using 1(3) by simp
    obtain word rest where t: "take_word q (c_text (drop (Suc r) b)) = (word, rest)" by (cases "take_word q (c_text (drop (Suc r) b))")
    have t0: "take_word q (c_text (drop r b)) = (b ! r # word, rest)"
      using char c_text_step [OF r char(2)] t by auto
    obtain b1 r1 w1 where c: "copy_word ?b (Suc r) (Suc w) q = (b1, r1, w1)" by (cases "copy_word ?b (Suc r) (Suc w) q")
    have "0 \<in> set (drop (Suc r) ?b)" unfolding d by (rule ahead_step [OF 1(4) char(2)])
    then have IH: "w1 = Suc w + length word" "w1 \<le> r1" "r1 < length b" "length b1 = length b" "take (Suc w) b1 = take (Suc w) ?b"
      "take (length word) (drop (Suc w) b1) = word" "drop r1 b1 = drop r1 ?b" "0 \<in> set (drop r1 ?b)"
      "rest = (if ?b ! r1 = 0 then [] else c_text (drop (Suc r1) ?b))"
      using 1(2) char r 1(3) c t by (simp_all add: d del: drop_update_cancel)
    have wl: "w < length b" "w < r1" using 1(3) r IH(1,2) by simp_all
    have "take w b1 = take w b" using arg_cong [OF IH(5), of "take w"] by (simp add: min_def)
    moreover have "b1 ! w = b ! r" using arg_cong [OF IH(5), of "\<lambda>x. x ! w"] wl IH(4) by simp
    then have "take (length (b ! r # word)) (drop w b1) = b ! r # word"
      using IH(6) wl IH(4) by (simp add: Cons_nth_drop_Suc [symmetric])
    ultimately show ?thesis unfolding e c t0 using IH wl by simp
  qed
qed

lemma take_word_subset: "set (fst (take_word q t)) \<subseteq> set t"
  by (induction q t rule: take_word.induct) (auto simp: case_prod_beta)

text \<open>The string of an argument: its characters and the terminator lie below a place up to which nothing changes any more.\<close>

lemma argument_text:
  assumes "take k b' = take k (b1[s + length word := 0])" and "s + length word < k" and "k \<le> length b1" and "length b' = length b1"
    and "take (length word) (drop s b1) = word" and "0 \<notin> set word"
  shows "c_text (drop s b') = word"
proof -
  let ?n = "length word"
  have "take (Suc ?n) (drop s b') = take (Suc ?n) (drop s (take k b'))" using assms(2) by (simp add: drop_take min_def)
  also have "\<dots> = take (Suc ?n) (drop s (b1[s + ?n := 0]))" unfolding assms(1) using assms(2) by (simp add: drop_take min_def)
  also have "\<dots> = take (Suc ?n) ((drop s b1)[?n := 0])" by (simp add: drop_update_swap)
  also have "\<dots> = word @ [0]" using assms(2,3,5) by (simp add: take_Suc_conv_app_nth)
  finally have "drop s b' = word @ 0 # drop (Suc ?n) (drop s b')" by (metis append.assoc append_Cons append_Nil append_take_drop_id)
  then show ?thesis using c_text_append [OF assms(6), of "drop (Suc ?n) (drop s b')"] by simp
qed

lemma words_step: "dropWhile is_blank t \<noteq> [] \<Longrightarrow>
    cmd_words t = fst (take_word False (dropWhile is_blank t)) # cmd_words (snd (take_word False (dropWhile is_blank t)))"
  by (subst cmd_words.simps) (auto simp: case_prod_beta split: list.split)

lemma words_none: "dropWhile is_blank t = [] \<Longrightarrow> cmd_words t = []"
  by (subst cmd_words.simps) (simp only: list.case)

lemma split_from_end: "r < length b \<Longrightarrow> b ! r = 0 \<Longrightarrow> split_from b r argv m = (argv, b)"
  by (subst split_from.simps) simp

text \<open>One round of the outer loop: the word that was copied, and where it leaves off.\<close>

lemma split_round:
  assumes "0 \<in> set (drop r b)" and "start = skip_blanks b r" and "b ! start \<noteq> 0"
  obtains b1 r1 word rest where "copy_word b start start False = (b1, r1, start + length word)"
    and "cmd_words (c_text (drop r b)) = word # cmd_words rest" and "0 \<notin> set word" and "start + length word \<le> r1" and "r1 < length b"
    and "length b1 = length b" and "take start b1 = take start b" and "take (length word) (drop start b1) = word" and "drop r1 b1 = drop r1 b"
    and "0 \<in> set (drop r1 b)" and "rest = (if b ! r1 = 0 then [] else c_text (drop (Suc r1) b))" and "b1 ! r1 = b ! r1"
proof -
  have sk: "c_text (drop start b) = dropWhile is_blank (c_text (drop r b))" "0 \<in> set (drop start b)"
    using skip_blanks_text [OF assms(1)] by (simp_all add: assms(2))
  have sl: "start < length b" using sk(2) by (rule ahead_in)
  obtain b1 r1 w1 where c: "copy_word b start start False = (b1, r1, w1)" by (cases "copy_word b start start False")
  obtain word rest where t: "take_word False (c_text (drop start b)) = (word, rest)" by (cases "take_word False (c_text (drop start b))")
  from copy_word_text [OF order_refl sk(2), of False] have w: "w1 = start + length word" "w1 \<le> r1" "r1 < length b" "length b1 = length b"
    "take start b1 = take start b" "take (length word) (drop start b1) = word" "drop r1 b1 = drop r1 b" "0 \<in> set (drop r1 b)"
    "rest = (if b ! r1 = 0 then [] else c_text (drop (Suc r1) b))" unfolding c t by simp_all
  have ws: "cmd_words (c_text (drop r b)) = word # cmd_words rest"
    using words_step [of "c_text (drop r b)"] c_text_step [OF sl assms(3)] t unfolding sk(1) [symmetric] by simp
  have nz: "0 \<notin> set word" using take_word_subset [of False "c_text (drop start b)"] c_text_no_zero t by (metis fst_conv subsetD)
  have "b1 ! r1 = b ! r1" using arg_cong [OF w(7), of hd] w(3,4) by (simp add: hd_drop_conv_nth)
  then show thesis using that [of b1 r1 word rest] c w ws nz by simp
qed

lemma split_from_text:
  assumes "0 \<in> set (drop r b)"
  shows "\<exists>starts b'. split_from b r argv m = (argv @ starts, b') \<and> length b' = length b \<and> take r b' = take r b \<and>
    list_all (\<lambda>s. s < length b) starts \<and>
    map (\<lambda>s. c_text (drop s b')) starts = take (m - length argv) (cmd_words (c_text (drop r b)))"
  using assms
proof (induction b r argv m rule: split_from.induct)
  case (1 b r argv m)
  have r: "r < length b" using 1(2) by (rule ahead_in)
  define start where "start = skip_blanks b r"
  have sk: "c_text (drop start b) = dropWhile is_blank (c_text (drop r b))" "0 \<in> set (drop start b)" and rs: "r \<le> start"
    using skip_blanks_text [OF 1(2)] skip_blanks_bounds(1) [of r b] by (simp_all add: start_def)
  have sl: "start < length b" using sk(2) by (rule ahead_in)
  show ?case
  proof (cases "b ! start = 0")
    case True
    then have "cmd_words (c_text (drop r b)) = []" by (intro words_none) (simp only: sk(1) [symmetric] c_text_end [OF sl True])
    moreover have "split_from b r argv m = (argv, b)" by (subst split_from.simps) (simp add: Let_def start_def [symmetric] True)
    ultimately show ?thesis by simp
  next
    case False
    have z: "b ! r \<noteq> 0" using False skip_blanks.simps [of b r] by (auto simp: start_def is_blank_def split: if_splits)
    obtain b1 r1 word rest where c: "copy_word b start start False = (b1, r1, start + length word)"
      and ws: "cmd_words (c_text (drop r b)) = word # cmd_words rest" and w: "0 \<notin> set word" "start + length word \<le> r1" "r1 < length b"
      "length b1 = length b" "take start b1 = take start b" "take (length word) (drop start b1) = word" "drop r1 b1 = drop r1 b"
      "0 \<in> set (drop r1 b)" "rest = (if b ! r1 = 0 then [] else c_text (drop (Suc r1) b))" "b1 ! r1 = b ! r1"
      by (rule split_round [OF 1(2) start_def False])
    let ?b2 = "b1[start + length word := 0]"
    define r2 where "r2 = (if b ! r1 = 0 then r1 else r1 + 1)"
    have e: "split_from b r argv m = (if length argv < m then split_from ?b2 r2 (argv @ [start]) m else (argv, ?b2))"
      by (subst split_from.simps) (use r z sl False c w(3,4,10) in \<open>simp add: Let_def start_def [symmetric] r2_def\<close>)
    have "take r (take start ?b2) = take r (take start b)" using w(5) by simp
    then have tk: "take r ?b2 = take r b" using rs by (simp only: take_take min_absorb1)
    show ?thesis
    proof (cases "length argv < m")
      case False
      then show ?thesis using e w(4) tk by simp
    next
      case True
      have d: "drop (Suc r1) ?b2 = drop (Suc r1) b" using w(2) arg_cong [OF w(7), of "drop 1"] by simp
      have IH: "\<exists>starts b'. split_from ?b2 r2 (argv @ [start]) m = ((argv @ [start]) @ starts, b') \<and> length b' = length ?b2 \<and>
          take r2 b' = take r2 ?b2 \<and> list_all (\<lambda>s. s < length ?b2) starts \<and>
          map (\<lambda>s. c_text (drop s b')) starts = take (m - length (argv @ [start])) (cmd_words (c_text (drop r2 ?b2)))"
      proof -
        have "0 \<in> set (drop r2 ?b2)"
        proof (cases "b ! r1 = 0")
          case True
          then have "?b2 ! r1 = 0" "r1 < length ?b2" using w(2-4,10) by (cases "start + length word = r1", simp_all)
          then show ?thesis using True by (simp add: Cons_nth_drop_Suc [symmetric] r2_def)
        next
          case False
          then show ?thesis using ahead_step [OF w(8) False] d by (simp add: r2_def)
        qed
        then show ?thesis
          using 1(1) [of start b1 "(r1, start + length word)" r1 "start + length word" "\<not> (r1 < length b1 \<and> b1 ! r1 \<noteq> 0)" ?b2 r2]
            r z sl False c w(3,4,10) True r2_def by (simp add: start_def)
      qed
      then obtain starts b' where f: "split_from ?b2 r2 (argv @ [start]) m = (argv @ start # starts, b')" "length b' = length ?b2"
        "take r2 b' = take r2 ?b2" "list_all (\<lambda>s. s < length ?b2) starts"
        "map (\<lambda>s. c_text (drop s b')) starts = take (m - length (argv @ [start])) (cmd_words (c_text (drop r2 ?b2)))" by auto
      have end': "b' = ?b2" if "b ! r1 = 0"
        using that f(1) split_from_end [of r1 ?b2 "argv @ [start]" m] w(2-4,10) by (cases "start + length word = r1") (simp_all add: r2_def)
      have a: "c_text (drop start b') = word"
        using argument_text [of "if b ! r1 = 0 then length b else Suc r1" b' b1 start word] f(2,3) end' w by (auto simp: r2_def split: if_splits)
      have rest: "c_text (drop r2 ?b2) = rest"
        using w(2-4,9,10) d c_text_end [of r1 ?b2] by (cases "start + length word = r1") (auto simp: r2_def)
      have "r \<le> r2" using rs w(2) by (simp add: r2_def)
      then have "take r b' = take r b" using arg_cong [OF f(3), of "take r"] tk by (simp only: take_take min_absorb1)
      moreover have "take (m - length argv) (cmd_words (c_text (drop r b))) = word # take (m - length (argv @ [start])) (cmd_words rest)"
        unfolding ws using True by (simp add: take_Cons')
      ultimately show ?thesis using e True f a sl w(4) unfolding rest by (intro exI [of _ "start # starts"] exI [of _ b']) simp
    qed
  qed
qed

section \<open>A command\<close>

text \<open>The line as the shell takes it (\<open>ag_shell_execute\<close>): copied into a buffer of its own and cut there.\<close>

definition shell_argv :: "u8 list \<Rightarrow> nat list \<times> u8 list" where
  "shell_argv line =
     (let t = take (AG_LINE_MAX - 1) (c_text line)
      in ag_cmdline_split (t @ replicate (AG_LINE_MAX - length t) 0) AG_ARGV_MAX)"

text \<open>Arguments put between quotes, which no argument may hold itself.\<close>

definition quote_args :: "u8 list list \<Rightarrow> u8 list" where
  "quote_args args = concat (map (\<lambda>a. 0x22 # a @ [0x22, 0x20]) args)"

lemma take_word_quoted: "0x22 \<notin> set a \<Longrightarrow> take_word True (a @ 0x22 # t) = (a @ fst (take_word False t), snd (take_word False t))"
  by (induction a) simp_all

lemma words_quoted: "list_all (\<lambda>a. 0x22 \<notin> set a) args \<Longrightarrow> cmd_words (quote_args args) = args"
proof (induction args)
  case Nil
  then show ?case by (simp add: quote_args_def words_none)
next
  case (Cons a args)
  let ?t = "quote_args (a # args)"
  have e: "?t = 0x22 # a @ 0x22 # 0x20 # quote_args args" by (simp add: quote_args_def)
  have d: "dropWhile is_blank ?t = ?t" by (simp add: e is_blank_def)
  have "take_word False ?t = take_word True (a @ 0x22 # 0x20 # quote_args args)" by (simp add: e is_blank_def)
  then have "take_word False ?t = (a, quote_args args)" using Cons.prems by (simp add: take_word_quoted is_blank_def)
  moreover have "dropWhile is_blank ?t \<noteq> []" unfolding d by (simp add: e)
  ultimately show ?case using words_step [of ?t] Cons by (simp add: d)
qed

lemma split_text:
  assumes "0 \<in> set line" and "0 < m"
  shows "case ag_cmdline_split line m of (argv, b') \<Rightarrow>
    length b' = length line \<and> list_all (\<lambda>s. s < length line) argv \<and> map (\<lambda>s. c_text (drop s b')) argv = take m (cmd_words (c_text line))"
  using split_from_text [of 0 line "[]" m] assms by (auto simp: ag_cmdline_split_def)

section \<open>Properties\<close>

text \<open>
  C34. Cutting a line in place loses nothing and mixes nothing up: for every buffer that holds a terminated string, the strings that the
  entries of \<open>argv\<close> point to, read when all is done, are exactly the words of the line, in order and without their quotes, up to as many as were asked
  for; every entry points into the buffer, and no byte outside it is written. This although the words are written over the text that is
  still being read.
\<close>

theorem cmdline_split_words:
  assumes "0 \<in> set line" and "0 < max_argv"
  shows "case ag_cmdline_split line max_argv of (argv, b') \<Rightarrow>
    length b' = length line \<and> list_all (\<lambda>s. s < length line) argv \<and> length argv = min max_argv (length (cmd_words (c_text line))) \<and>
    map (\<lambda>s. c_text (drop s b')) argv = take max_argv (cmd_words (c_text line))"
proof -
  obtain argv b' where e: "ag_cmdline_split line max_argv = (argv, b')" by (cases "ag_cmdline_split line max_argv")
  with split_text [OF assms] have s: "length b' = length line" "list_all (\<lambda>s. s < length line) argv"
    "map (\<lambda>s. c_text (drop s b')) argv = take max_argv (cmd_words (c_text line))" by simp_all
  from arg_cong [OF s(3), of length] have "length argv = min max_argv (length (cmd_words (c_text line)))" by simp
  then show ?thesis using e s by simp
qed

theorem cmdline_split_words_witness:
  "case ag_cmdline_split [0x61, 0x22, 0x20, 0x62, 0x22, 0x63, 0x20, 0x20, 0x64, 0] 4 of (argv, b') \<Rightarrow>
     map (\<lambda>s. c_text (drop s b')) argv = [[0x61, 0x20, 0x62, 0x63], [0x64]]"
proof -
  have w: "cmd_words (c_text [0x61, 0x22, 0x20, 0x62, 0x22, 0x63, 0x20, 0x20, 0x64, 0]) = [[0x61, 0x20, 0x62, 0x63], [0x64]]" by code_simp
  show ?thesis using cmdline_split_words [of "[0x61, 0x22, 0x20, 0x62, 0x22, 0x63, 0x20, 0x20, 0x64, 0]" 4] unfolding w by (simp add: case_prod_beta)
qed

text \<open>
  C14. From the keyboard to the program: up to 48 arguments of characters of the code page, without quotes in them, written between quotes and
  typed as UTF-8 on an empty line that has room for them, arrive as exactly these arguments, empty ones and those with blanks in them included.
\<close>

theorem typed_command:
  assumes "vt = fst (vtin_run ag_vtin_init ops)" and "\<not> ag_vtin_busy vt" and "le = snd (le_run ag_lineedit_init lops)" and "le_len le = 0"
    and "list_all (\<lambda>a. 0x22 \<notin> set a \<and> list_all (printable p) a) args" and "length args \<le> AG_ARGV_MAX" and "length (quote_args args) < AG_LINE_MAX"
    and "input = concat (map (\<lambda>b. ag_utf8_encode (ag_cp_to_unicode (Some p) b)) (quote_args args)) @ [0x0D]"
  shows "case type_bytes (Some p) vt le input of (rs, vt2, le2) \<Rightarrow>
    last rs = AG_LINE_DONE \<and> (case shell_argv (le_buf le2) of (argv, b') \<Rightarrow> map (\<lambda>s. c_text (drop s b')) argv = args)"
proof -
  obtain rs vt2 le2 where e: "type_bytes (Some p) vt le input = (rs, vt2, le2)" by (cases "type_bytes (Some p) vt le input")
  have "list_all (printable p) (quote_args args)"
    using assms(5) by (induction args) (auto simp: quote_args_def printable_def)
  then have t: "rs = replicate (length (quote_args args)) AG_LINE_CHANGED @ [AG_LINE_DONE]"
    "c_text (le_buf le2) = take (le_cursor le) (c_text (le_buf le)) @ quote_args args @ drop (le_cursor le) (c_text (le_buf le))"
    using line_typed [OF assms(1-3) _ _ assms(8)] assms(4,7) e by auto
  have inv: "le_inv le" unfolding assms(3) using run_refines by blast
  then have "c_text (le_buf le) = []" by (simp add: inv_text assms(4))
  then have c: "c_text (le_buf le2) = quote_args args" using t(2) by simp
  let ?q = "quote_args args"
  let ?w = "?q @ replicate (AG_LINE_MAX - length ?q) 0"
  have nz: "0 \<notin> set ?q" using c_text_no_zero [of "le_buf le2"] by (simp add: c)
  obtain k where "AG_LINE_MAX - length ?q = Suc k" using assms(7) by (cases "AG_LINE_MAX - length ?q") auto
  then have z: "0 \<in> set ?w" "c_text ?w = ?q" using c_text_append [OF nz] by simp_all
  have q: "cmd_words ?q = args" using assms(5) by (intro words_quoted) (auto simp: list_all_iff)
  have "shell_argv (le_buf le2) = ag_cmdline_split ?w AG_ARGV_MAX" using assms(7) by (simp add: shell_argv_def c Let_def)
  moreover obtain argv b' where sp: "ag_cmdline_split ?w AG_ARGV_MAX = (argv, b')" by (cases "ag_cmdline_split ?w AG_ARGV_MAX")
  moreover have "0 < AG_ARGV_MAX" by (simp add: AG_ARGV_MAX_def)
  from split_text [OF z(1) this] have "map (\<lambda>s. c_text (drop s b')) argv = args" unfolding sp z(2) q using assms(6) by simp
  ultimately show ?thesis unfolding e by (simp add: t(1))
qed

theorem typed_command_witness:
  "case type_bytes (Some AG_CP_437) ag_vtin_init ag_lineedit_init
      (concat (map (\<lambda>b. ag_utf8_encode (ag_cp_to_unicode (Some AG_CP_437) b)) (quote_args [[0x72, 0x75, 0x6E], [], [0x61, 0x20, 0x81]])) @ [0x0D]) of
    (rs, vt2, le2) \<Rightarrow>
      last rs = AG_LINE_DONE \<and>
      (case shell_argv (le_buf le2) of (argv, b') \<Rightarrow> map (\<lambda>s. c_text (drop s b')) argv = [[0x72, 0x75, 0x6E], [], [0x61, 0x20, 0x81]])"
proof (rule typed_command [OF _ _ _ _ _ _ _ refl])
  show "ag_vtin_init = fst (vtin_run ag_vtin_init [])" "\<not> ag_vtin_busy ag_vtin_init" by (simp_all add: ag_vtin_busy_def ag_vtin_init_def)
  show "ag_lineedit_init = snd (le_run ag_lineedit_init [])" "le_len ag_lineedit_init = 0" by (simp_all add: ag_lineedit_init_def)
  show "list_all (\<lambda>a. 0x22 \<notin> set a \<and> list_all (printable AG_CP_437) a) [[0x72, 0x75, 0x6E], [], [0x61, 0x20, 0x81]]" by (simp add: printable_def)
  show "length [[0x72, 0x75, 0x6E], [], [0x61, 0x20, 0x81 :: u8]] \<le> AG_ARGV_MAX" by (simp add: AG_ARGV_MAX_def)
  show "length (quote_args [[0x72, 0x75, 0x6E], [], [0x61, 0x20, 0x81]]) < AG_LINE_MAX" by (simp add: quote_args_def AG_LINE_MAX_def)
qed

end
