(* ===== verification/Path.thy ===== *)
theory Path
  imports Prelude
begin

text \<open>
  \<open>core/path.c\<close>: every path the kernel sees goes through \<open>ag_path_resolve\<close>. An output buffer is
  its contents before the terminator (\<open>None\<close> for a null pointer) with its size \<open>outlen\<close>; a routine
  that fails leaves what it had written so far, as the code does. The specification is the list of
  components a path denotes, with \<open>.\<close> and \<open>..\<close> folded; the routines are shown to compute it.
\<close>

section \<open>The routines\<close>

definition is_sep :: "char \<Rightarrow> bool" where
  "is_sep c \<longleftrightarrow> c = CHR ''/'' \<or> c = CHR 0x5C"

definition lower :: "char \<Rightarrow> char" where
  "lower c = (if char_in CHR ''A'' CHR ''Z'' c
              then char_of ((of_char c :: nat) - of_char CHR ''A'' + of_char CHR ''a'') else c)"

definition is_alpha :: "char \<Rightarrow> bool" where
  "is_alpha c \<longleftrightarrow> char_in CHR ''a'' CHR ''z'' c \<or> char_in CHR ''A'' CHR ''Z'' c"

definition ag_path_drive :: "char \<Rightarrow> string option" where
  "ag_path_drive letter =
     (let c = lower letter in
      if c = CHR ''a'' then Some ''/sd''
      else if c = CHR ''c'' then Some ''/sys''
      else if c = CHR ''t'' then Some ''/tmp''
      else if c = CHR ''d'' then Some ''/dev''
      else if c = CHR ''h'' then Some ''/host''
      else if c = CHR ''n'' then Some ''/node''
      else None)"

text \<open>The inner loop of \<open>..\<close>: back to just after the last separator among the first \<open>len\<close> characters.\<close>

fun unwind :: "string \<Rightarrow> nat \<Rightarrow> nat" where
  "unwind out 0 = 0"
| "unwind out (Suc n) = (if out ! n \<noteq> CHR ''/'' then unwind out n else Suc n)"

definition push_comp :: "nat \<Rightarrow> string \<Rightarrow> string \<Rightarrow> unit ag_err \<times> string" where
  "push_comp outlen out cm =
     (let clen = length cm in
      if clen = 0 then (Inr (), out)
      else if clen = 1 \<and> cm ! 0 = CHR ''.'' then (Inr (), out)
      else if clen = 2 \<and> cm ! 0 = CHR ''.'' \<and> cm ! 1 = CHR ''.'' then
        (let len = unwind out (length out) in (Inr (), take (if len > 0 then len - 1 else len) out))
      else if clen > AG_NAME_MAX then (Inl AG_ERANGE, out)
      else if length out + 1 + clen + 1 > outlen then (Inl AG_ERANGE, out)
      else (Inr (), out @ [CHR ''/''] @ cm))"

lemma skip_comp_shorter:
  "p \<noteq> [] \<Longrightarrow> length (dropWhile (\<lambda>c. \<not> is_sep c) (dropWhile is_sep p)) < length p"
proof (cases p)
  case (Cons c s)
  have "length (dropWhile (\<lambda>c. \<not> is_sep c) q) \<le> length q" for q by (rule length_dropWhile_le)
  moreover have "length (dropWhile is_sep s) \<le> length s" by (rule length_dropWhile_le)
  ultimately show ?thesis using Cons by (auto simp: less_Suc_eq_le intro: order_trans)
qed simp

function push_path :: "nat \<Rightarrow> string \<Rightarrow> string \<Rightarrow> unit ag_err \<times> string" where
  "push_path outlen out p =
     (if p = [] then (Inr (), out)
      else let start = dropWhile is_sep p;
               cm = takeWhile (\<lambda>c. \<not> is_sep c) start;
               rest = dropWhile (\<lambda>c. \<not> is_sep c) start
           in case push_comp outlen out cm of
                (Inl e, out') \<Rightarrow> (Inl e, out')
              | (Inr _, out') \<Rightarrow> push_path outlen out' rest)"
  by auto

termination
  by (relation "measure (\<lambda>(_, _, p). length p)") (auto dest: skip_comp_shorter)

declare push_path.simps [simp del]

definition drive_prefix :: "string \<Rightarrow> bool" where
  "drive_prefix p \<longleftrightarrow> is_alpha (cstr_at p 0) \<and> cstr_at p 1 = CHR '':''"

definition finish_root :: "string \<Rightarrow> string" where
  "finish_root out = (if length out = 0 then ''/'' else out)"

definition ag_path_resolve ::
  "string option \<Rightarrow> string option \<Rightarrow> string option \<Rightarrow> nat \<Rightarrow> unit ag_err \<times> string option" where
  "ag_path_resolve inp cwd out outlen =
     (if out = None \<or> outlen < 2 then (Inl AG_EINVAL, out)
      else
        let p = (case inp of None \<Rightarrow> [] | Some s \<Rightarrow> s) in
        let (r, buf, rest) =
          (if drive_prefix p then
             (case ag_path_drive (cstr_at p 0) of
                None \<Rightarrow> (Inl AG_EINVAL, [], p)
              | Some drive \<Rightarrow> (case push_path outlen [] drive of (r, buf) \<Rightarrow> (r, buf, drop 2 p)))
           else if is_sep (cstr_at p 0) then (Inr (), [], p)
           else (case cwd of
                   None \<Rightarrow> (Inr (), [], p)
                 | Some d \<Rightarrow> if cstr_at d 0 \<noteq> CHR 0x00
                             then (case push_path outlen [] d of (r, buf) \<Rightarrow> (r, buf, p))
                             else (Inr (), [], p)))
        in case r of
             Inl e \<Rightarrow> (Inl e, Some buf)
           | Inr _ \<Rightarrow> (case push_path outlen buf rest of
                 (Inl e, buf') \<Rightarrow> (Inl e, Some buf')
               | (Inr _, buf') \<Rightarrow> (Inr (), Some (finish_root buf'))))"

definition ag_path_join ::
  "string option \<Rightarrow> string option \<Rightarrow> string option \<Rightarrow> nat \<Rightarrow> unit ag_err \<times> string option" where
  "ag_path_join base child out outlen =
     (if out = None \<or> outlen < 2 then (Inl AG_EINVAL, out)
      else
        case child of
          Some c \<Rightarrow>
            if is_sep (cstr_at c 0) \<or> drive_prefix c then ag_path_resolve child None out outlen
            else (case (case base of None \<Rightarrow> (Inr (), []) | Some b \<Rightarrow> push_path outlen [] b) of
                    (Inl e, buf) \<Rightarrow> (Inl e, Some buf)
                  | (Inr _, buf) \<Rightarrow>
                      (case push_path outlen buf c of
                         (Inl e, buf') \<Rightarrow> (Inl e, Some buf')
                       | (Inr _, buf') \<Rightarrow> (Inr (), Some (finish_root buf'))))
        | None \<Rightarrow>
            (case (case base of None \<Rightarrow> (Inr (), []) | Some b \<Rightarrow> push_path outlen [] b) of
               (Inl e, buf) \<Rightarrow> (Inl e, Some buf)
             | (Inr _, buf) \<Rightarrow> (Inr (), Some (finish_root buf))))"

text \<open>\<open>ag_path_basename\<close> returns a pointer into the path: the text from there on.\<close>

definition ag_path_basename :: "string option \<Rightarrow> string" where
  "ag_path_basename path =
     (case path of None \<Rightarrow> []
      | Some p \<Rightarrow> drop (foldl (\<lambda>last i. if is_sep (p ! i) then i + 1 else last) 0 [0..<length p]) p)"

definition ag_path_dirname :: "string option \<Rightarrow> string option \<Rightarrow> nat \<Rightarrow> unit ag_err \<times> string option" where
  "ag_path_dirname path out outlen =
     (case path of None \<Rightarrow> (Inl AG_EINVAL, out)
      | Some p \<Rightarrow>
          if out = None \<or> outlen < 2 then (Inl AG_EINVAL, out)
          else case foldl (\<lambda>cut i. if is_sep (p ! i) then Some i else cut) None [0..<length p] of
                 None \<Rightarrow> (Inr (), Some ''.'')
               | Some c \<Rightarrow>
                   let cut = (if c = 0 then 1 else c) in
                   if cut + 1 > outlen then (Inl AG_ERANGE, out) else (Inr (), Some (take cut p)))"

definition ag_path_ext :: "string option \<Rightarrow> string option" where
  "ag_path_ext path =
     (let base = ag_path_basename path in
      case foldl (\<lambda>dot i. if base ! i = CHR ''.'' then Some i else dot) None [0..<length base] of
        None \<Rightarrow> None
      | Some d \<Rightarrow> if d = 0 then None else Some (drop d base))"

fun icmp_loop :: "string \<Rightarrow> string \<Rightarrow> int" where
  "icmp_loop (a # as) (b # bs) =
     (if lower a \<noteq> lower b then of_char (lower a) - of_char (lower b) else icmp_loop as bs)"
| "icmp_loop [] bs = of_char (lower CHR 0x00) - of_char (lower (cstr_at bs 0))"
| "icmp_loop (a # as) [] = of_char (lower a) - of_char (lower CHR 0x00)"

definition ag_path_icmp :: "string option \<Rightarrow> string option \<Rightarrow> int" where
  "ag_path_icmp a b =
     (case (a, b) of
        (Some s, Some t) \<Rightarrow> icmp_loop s t
      | (None, None) \<Rightarrow> 0
      | (None, Some _) \<Rightarrow> -1
      | (Some _, None) \<Rightarrow> 1)"

text \<open>
  The loop of \<open>ag_path_match\<close>. The third argument is the last star seen: the pattern after it and
  the place in the name to retry from, which is at or before \<open>name\<close> and so not at the end of the
  string when the code steps it (the guard there is never taken; see \<open>match_loop_glob\<close>).
\<close>

function match_loop :: "string \<Rightarrow> string \<Rightarrow> (string \<times> string) option \<Rightarrow> bool" where
  "match_loop pat name star =
     (if name = [] then dropWhile (\<lambda>c. c = CHR ''*'') pat = []
      else if pat \<noteq> [] \<and> (hd pat = CHR ''?'' \<or> lower (hd pat) = lower (hd name))
           then match_loop (tl pat) (tl name) star
      else if pat \<noteq> [] \<and> hd pat = CHR ''*'' then match_loop (tl pat) name (Some (tl pat, name))
      else case star of
             None \<Rightarrow> False
           | Some (sp, retry) \<Rightarrow> if retry = [] then False else match_loop sp (tl retry) (Some (sp, tl retry)))"
  by auto

termination
  by (relation "measures [\<lambda>(p, n, s). case s of None \<Rightarrow> length n + 1 | Some (_, r) \<Rightarrow> max (length r) (length n),
                         \<lambda>(p, n, s). length p]")
    (auto simp: neq_Nil_conv max_def split: option.splits if_splits)

declare match_loop.simps [simp del]

definition ag_path_match :: "string option \<Rightarrow> string option \<Rightarrow> bool" where
  "ag_path_match pattern name =
     (case (pattern, name) of (Some p, Some n) \<Rightarrow> match_loop p n None | _ \<Rightarrow> False)"

fun abs_scan :: "string \<Rightarrow> bool" where
  "abs_scan [] = True"
| "abs_scan (c # s) =
     (if c = CHR 0x5C then False
      else if c = CHR ''/'' \<and> cstr_at s 0 = CHR ''/'' then False
      else if c = CHR ''/'' \<and> cstr_at s 0 = CHR ''.'' \<and>
              (cstr_at s 1 = CHR 0x00 \<or> cstr_at s 1 = CHR ''/'') then False
      else if c = CHR ''/'' \<and> cstr_at s 0 = CHR ''.'' \<and> cstr_at s 1 = CHR ''.'' \<and>
              (cstr_at s 2 = CHR 0x00 \<or> cstr_at s 2 = CHR ''/'') then False
      else abs_scan s)"

definition ag_path_is_absolute :: "string option \<Rightarrow> bool" where
  "ag_path_is_absolute path =
     (case path of None \<Rightarrow> False
      | Some p \<Rightarrow>
          if cstr_at p 0 \<noteq> CHR ''/'' then False
          else if cstr_at p 1 = CHR 0x00 then True
          else abs_scan p \<and> cstr_at p (length p - 1) \<noteq> CHR ''/'')"

section \<open>Specification\<close>

text \<open>The fields of a path between separators, and the components: the fields that are not empty.\<close>

fun fields :: "string \<Rightarrow> string list" where
  "fields [] = [[]]"
| "fields (c # s) = (if is_sep c then [] # fields s else (c # hd (fields s)) # tl (fields s))"

definition path_comps :: "string \<Rightarrow> string list" where
  "path_comps p = filter (\<lambda>f. f \<noteq> []) (fields p)"

definition render :: "string list \<Rightarrow> string" where
  "render cs = concat (map (\<lambda>c. CHR ''/'' # c) cs)"

text \<open>Following one component from a directory given by its components, in a buffer of \<open>outlen\<close> bytes.\<close>

definition follow :: "nat \<Rightarrow> string list \<Rightarrow> string \<Rightarrow> unit ag_err \<times> string list" where
  "follow outlen dir c =
     (if c = ''.'' then (Inr (), dir)
      else if c = ''..'' then (Inr (), butlast dir)
      else if length c > AG_NAME_MAX \<or> length (render (dir @ [c])) \<ge> outlen then (Inl AG_ERANGE, dir)
      else (Inr (), dir @ [c]))"

fun follow_all :: "nat \<Rightarrow> string list \<Rightarrow> string list \<Rightarrow> unit ag_err \<times> string list" where
  "follow_all outlen dir [] = (Inr (), dir)"
| "follow_all outlen dir (c # cs) =
     (case follow outlen dir c of
        (Inl e, d) \<Rightarrow> (Inl e, d)
      | (Inr _, d) \<Rightarrow> follow_all outlen d cs)"

text \<open>Where a path starts from and what it follows: a drive's mount point, the root, or \<open>cwd\<close>.\<close>

definition start_comps :: "string \<Rightarrow> string option \<Rightarrow> (string list \<times> string list) option" where
  "start_comps p cwd =
     (if drive_prefix p then
        (case ag_path_drive (hd p) of
           None \<Rightarrow> None
         | Some d \<Rightarrow> Some (path_comps d, path_comps (drop 2 p)))
      else if p \<noteq> [] \<and> is_sep (hd p) then Some ([], path_comps p)
      else Some (path_comps (case cwd of None \<Rightarrow> [] | Some d \<Rightarrow> d), path_comps p))"

definition good_comp :: "string \<Rightarrow> bool" where
  "good_comp c \<longleftrightarrow> c \<noteq> [] \<and> c \<noteq> ''.'' \<and> c \<noteq> ''..'' \<and> length c \<le> AG_NAME_MAX \<and> (\<forall>x \<in> set c. \<not> is_sep x)"

text \<open>The DOS wildcards, declaratively: a star is any run of characters, a question mark any one.\<close>

fun glob :: "string \<Rightarrow> string \<Rightarrow> bool" where
  "glob [] n = (n = [])"
| "glob (c # p) [] = (c = CHR ''*'' \<and> glob p [])"
| "glob (c # p) (d # n) =
     (if c = CHR ''*'' then glob p (d # n) \<or> glob (c # p) n
      else (c = CHR ''?'' \<or> lower c = lower d) \<and> glob p n)"

section \<open>Lemmas\<close>

subsection \<open>Components\<close>

lemma fields_ne [simp]: "fields s \<noteq> []"
  by (cases s) simp_all

lemma fields_no_sep: "(\<forall>x \<in> set c. \<not> is_sep x) \<Longrightarrow> fields (c @ s) = (c @ hd (fields s)) # tl (fields s)"
  by (induction c) simp_all

lemma path_comps_sep [simp]: "is_sep c \<Longrightarrow> path_comps (c # s) = path_comps s"
  by (simp add: path_comps_def)

lemma path_comps_Nil [simp]: "path_comps [] = []"
  by (simp add: path_comps_def)

lemma path_comps_drop_seps: "path_comps (dropWhile is_sep p) = path_comps p"
  by (induction p) simp_all

lemma path_comps_comp:
  assumes "\<forall>x \<in> set c. \<not> is_sep x" and "s = [] \<or> is_sep (hd s)"
  shows "path_comps (c @ s) = (if c = [] then path_comps s else c # path_comps s)"
proof -
  have "fields s = [] # tl (fields s)" using assms(2) by (cases s) auto
  then obtain fs where "fields s = [] # fs" ..
  then show ?thesis unfolding path_comps_def fields_no_sep [OF assms(1)] by simp
qed

lemma path_comps_unfold:
  "path_comps p =
     (let start = dropWhile is_sep p; c = takeWhile (\<lambda>x. \<not> is_sep x) start
      in if c = [] then [] else c # path_comps (dropWhile (\<lambda>x. \<not> is_sep x) start))"
proof -
  let ?s = "dropWhile is_sep p"
  let ?c = "takeWhile (\<lambda>x. \<not> is_sep x) ?s" and ?r = "dropWhile (\<lambda>x. \<not> is_sep x) ?s"
  have "?r = [] \<or> is_sep (hd ?r)" by (metis hd_dropWhile)
  moreover have "\<forall>x \<in> set ?c. \<not> is_sep x" by (auto dest: set_takeWhileD)
  ultimately have "path_comps (?c @ ?r) = (if ?c = [] then path_comps ?r else ?c # path_comps ?r)"
    by (intro path_comps_comp)
  moreover have "?r = []" if "?c = []"
  proof -
    have "?s = []"
    proof (rule ccontr)
      assume "?s \<noteq> []"
      moreover from this have "\<not> is_sep (hd ?s)" by (rule hd_dropWhile)
      ultimately show False using that by (cases ?s) auto
    qed
    then show ?thesis by (simp only: dropWhile.simps)
  qed
  moreover have "path_comps (?c @ ?r) = path_comps p"
    by (simp only: takeWhile_dropWhile_id path_comps_drop_seps)
  moreover obtain c r where "c = ?c" "r = ?r" by simp
  ultimately show ?thesis unfolding Let_def by (metis path_comps_Nil)
qed

lemma fields_mem: "f \<in> set (fields p) \<Longrightarrow> set f \<subseteq> set p \<and> (\<forall>x \<in> set f. \<not> is_sep x)"
proof (induction p arbitrary: f)
  case (Cons a p)
  have hd: "hd (fields p) \<in> set (fields p)" by simp
  have tl: "f \<in> set (tl (fields p)) \<Longrightarrow> f \<in> set (fields p)" by (simp add: list.set_sel(2))
  consider "is_sep a" "f = []" | "\<not> is_sep a" "f = a # hd (fields p)" | "f \<in> set (fields p)"
    using Cons.prems tl by (auto split: if_splits)
  then show ?case
  proof cases
    case 2
    with Cons.IH [OF hd] show ?thesis by auto
  next
    case 3
    with Cons.IH [OF 3] show ?thesis by auto
  qed simp
qed simp

lemma path_comps_mem: "c \<in> set (path_comps p) \<Longrightarrow> c \<noteq> [] \<and> set c \<subseteq> set p \<and> (\<forall>x \<in> set c. \<not> is_sep x)"
  using fields_mem by (auto simp: path_comps_def)

lemma render_simps [simp]: "render [] = []" "render (c # cs) = CHR ''/'' # c @ render cs"
  "render (cs @ ds) = render cs @ render ds"
  by (simp_all add: render_def)

lemma path_comps_render: "\<forall>c \<in> set cs. c \<noteq> [] \<and> (\<forall>x \<in> set c. \<not> is_sep x) \<Longrightarrow> path_comps (render cs) = cs"
proof (induction cs)
  case (Cons c cs)
  have "render cs = [] \<or> is_sep (hd (render cs))" by (cases cs) (simp_all add: is_sep_def)
  with Cons show ?case by (simp add: path_comps_comp is_sep_def)
qed simp

subsection \<open>Pushing components\<close>

lemma unwind_append: "CHR ''/'' \<notin> set c \<Longrightarrow> unwind (out @ c) (length out + length c) = unwind out (length out)"
proof (induction c rule: rev_induct)
  case Nil
  then show ?case by simp
next
  case (snoc x xs)
  have cut: "unwind (s @ t) n = unwind s n" if "n \<le> length s" for s t n
    using that by (induction n) (simp_all add: nth_append)
  have "unwind (out @ xs @ [x]) (length out + length xs) = unwind (out @ xs) (length out + length xs)"
    using cut [of _ "out @ xs" "[x]"] by simp
  with snoc show ?case by (auto simp: nth_append)
qed

lemma sep_slash: "\<forall>x \<in> set c. \<not> is_sep x \<Longrightarrow> CHR ''/'' \<notin> set c"
  by (auto simp: is_sep_def)

lemma unwind_render:
  assumes "\<forall>c \<in> set cs. good_comp c"
  shows "take (unwind (render cs) (length (render cs)) - 1) (render cs) = render (butlast cs)"
proof (cases cs rule: rev_cases)
  case (snoc ds c)
  then have "CHR ''/'' \<notin> set c" using assms by (intro sep_slash) (simp add: good_comp_def)
  from unwind_append [OF this, of "render ds @ ''/''"] show ?thesis by (simp add: snoc nth_append)
qed simp

lemma length2_conv: "length c = 2 \<and> c ! 0 = a \<and> c ! 1 = b \<longleftrightarrow> c = [a, b]"
  by (auto simp: numeral_2_eq_2 length_Suc_conv)

lemma length1_conv: "length c = 1 \<and> c ! 0 = a \<longleftrightarrow> c = [a]"
  by (auto simp: length_Suc_conv)

lemma push_comp_render:
  assumes "\<forall>c \<in> set dir. good_comp c" and "c \<noteq> []"
  shows "push_comp outlen (render dir) c = map_prod id render (follow outlen dir c)"
proof -
  have "\<not> length c = 0" using assms(2) by simp
  then show ?thesis
    using unwind_render [OF assms(1)]
    unfolding push_comp_def Let_def follow_def length1_conv length2_conv by auto
qed

lemma follow_good:
  assumes "\<forall>c \<in> set dir. good_comp c" and "c \<noteq> []" and "\<forall>x \<in> set c. \<not> is_sep x"
  shows "\<forall>d \<in> set (snd (follow outlen dir c)). good_comp d"
  using assms by (auto simp: follow_def good_comp_def dest: in_set_butlastD)

lemma follow_all_good:
  "\<forall>c \<in> set dir. good_comp c \<Longrightarrow> \<forall>c \<in> set cs. c \<noteq> [] \<and> (\<forall>x \<in> set c. \<not> is_sep x) \<Longrightarrow>
   \<forall>d \<in> set (snd (follow_all outlen dir cs)). good_comp d"
proof (induction cs arbitrary: dir)
  case (Cons c cs)
  have "\<forall>d \<in> set (snd (follow outlen dir c)). good_comp d"
    by (rule follow_good) (use Cons.prems in auto)
  with Cons show ?case by (auto split: prod.splits sum.splits)
qed simp

lemma push_path_render:
  "\<forall>c \<in> set dir. good_comp c \<Longrightarrow>
   push_path outlen (render dir) p = map_prod id render (follow_all outlen dir (path_comps p))"
proof (induction "length p" arbitrary: p dir rule: less_induct)
  case less
  show ?case
  proof (cases "p = []")
    case True
    then show ?thesis by (simp add: push_path.simps)
  next
    case False
    let ?s = "dropWhile is_sep p"
    let ?c = "takeWhile (\<lambda>x. \<not> is_sep x) ?s" and ?r = "dropWhile (\<lambda>x. \<not> is_sep x) ?s"
    have sep: "\<forall>x \<in> set ?c. \<not> is_sep x" by (auto dest: set_takeWhileD)
    note IH = less.hyps [OF skip_comp_shorter [OF False]]
    show ?thesis
    proof (cases "?c = []")
      case True
      then have "path_comps p = []" by (subst path_comps_unfold) (simp add: Let_def)
      moreover have "path_comps ?r = []"
        using True calculation path_comps_drop_seps [of p] by (metis append_Nil takeWhile_dropWhile_id)
      ultimately show ?thesis using False True IH [OF less.prems]
        by (subst push_path.simps) (simp add: Let_def push_comp_def)
    next
      case c: False
      have "path_comps p = ?c # path_comps ?r" using c by (subst path_comps_unfold) (simp add: Let_def)
      moreover have "\<forall>d \<in> set (snd (follow outlen dir ?c)). good_comp d"
        by (rule follow_good [OF less.prems c sep])
      ultimately show ?thesis using False IH
        by (subst push_path.simps)
          (auto simp: Let_def push_comp_render [OF less.prems c] split: prod.splits sum.splits)
    qed
  qed
qed

lemma path_comps_good_prefix: "ag_path_drive l = Some d \<Longrightarrow> d \<noteq> []"
  by (auto simp: ag_path_drive_def Let_def split: if_splits)

lemma push_path_root: "push_path outlen [] p = map_prod id render (follow_all outlen [] (path_comps p))"
  using push_path_render [of "[]" outlen p] by simp

lemma push_path_twice:
  assumes "follow_all outlen [] (path_comps p) = (Inr u, dir)"
  shows "push_path outlen (render dir) q = map_prod id render (follow_all outlen dir (path_comps q))"
proof (rule push_path_render)
  show "\<forall>c \<in> set dir. good_comp c"
    using follow_all_good [of "[]" "path_comps p" outlen] assms path_comps_mem [of _ p] by auto
qed

lemma follow_all_append:
  "follow_all n d (cs @ ds) =
     (case follow_all n d cs of (Inl e, d') \<Rightarrow> (Inl e, d') | (Inr _, d') \<Rightarrow> follow_all n d' ds)"
  by (induction cs arbitrary: d) (auto split: prod.splits sum.splits)

lemma follow_all_len:
  "follow_all n d cs = (r, d') \<Longrightarrow> length (render d) < n \<Longrightarrow> length (render d') < n"
proof (induction cs arbitrary: d)
  case (Cons c cs)
  have "length (render (butlast d)) \<le> length (render d)" by (cases d rule: rev_cases) simp_all
  with Cons show ?case by (auto simp: follow_def split: if_splits)
qed simp

lemma follow_all_fixed:
  "\<forall>c \<in> set (d @ cs). good_comp c \<Longrightarrow> length (render (d @ cs)) < n \<Longrightarrow> follow_all n d cs = (Inr (), d @ cs)"
proof (induction cs arbitrary: d)
  case (Cons c cs)
  have "follow n d c = (Inr (), d @ [c])" using Cons.prems by (auto simp: follow_def good_comp_def)
  with Cons.IH [of "d @ [c]"] Cons.prems show ?case by simp
qed simp

lemma finish_root_render: "finish_root (render cs) = (if cs = [] then ''/'' else render cs)"
  by (cases cs) (simp_all add: finish_root_def)

lemma cstr_at_0: "cstr_at p 0 = (if p = [] then CHR 0x00 else hd p)"
  by (cases p) simp_all

lemma not_sep_nul [simp]: "\<not> is_sep CHR 0x00" "is_sep CHR ''/''" "is_sep CHR 0x5C"
  by (simp_all add: is_sep_def)

lemma not_alpha_nul [simp]: "\<not> is_alpha CHR 0x00"
  by (simp add: is_alpha_def char_in_def)

lemma drive_prefix_ne: "drive_prefix p \<Longrightarrow> p \<noteq> []"
  by (auto simp: drive_prefix_def)

lemma drive_comps:
  assumes "ag_path_drive l = Some d" and "outlen \<ge> 8"
  shows "follow_all outlen [] (path_comps d) = (Inr (), path_comps d)"
  using assms
  by (auto simp: ag_path_drive_def Let_def path_comps_def is_sep_def follow_def AG_NAME_MAX_def split: if_splits)

text \<open>What \<open>ag_path_resolve\<close> computes, in terms of components.\<close>

lemma resolve_tail:
  assumes "follow_all outlen [] d = (r, dir)" and "\<forall>c \<in> set d. c \<noteq> [] \<and> (\<forall>x \<in> set c. \<not> is_sep x)"
  shows "(case r of Inl e \<Rightarrow> (Inl e, Some (render dir))
     | Inr _ \<Rightarrow> (case push_path outlen (render dir) p of
           (Inl e, buf) \<Rightarrow> (Inl e, Some buf) | (Inr _, buf) \<Rightarrow> (Inr (), Some (finish_root buf)))) =
    (case follow_all outlen [] (d @ path_comps p) of
       (Inl e, dir) \<Rightarrow> (Inl e, Some (render dir))
     | (Inr _, dir) \<Rightarrow> (Inr (), Some (if dir = [] then ''/'' else render dir)))"
proof -
  have "\<forall>c \<in> set dir. good_comp c" using follow_all_good [of "[]" d outlen] assms by simp
  from push_path_render [OF this, of outlen p] show ?thesis
    by (cases "follow_all outlen dir (path_comps p)"; cases "fst (follow_all outlen dir (path_comps p))")
      (auto simp: follow_all_append assms(1) finish_root_render split: sum.splits)
qed

lemma resolve_drive:
  assumes "outlen \<ge> 2" and "drive_prefix p" and "ag_path_drive (hd p) = Some d"
  shows "ag_path_resolve (Some p) cwd (Some b) outlen =
    (case follow_all outlen [] (path_comps d @ path_comps (drop 2 p)) of
       (Inl e, dir) \<Rightarrow> (Inl e, Some (render dir))
     | (Inr _, dir) \<Rightarrow> (Inr (), Some (if dir = [] then ''/'' else render dir)))"
proof -
  obtain r dir where f: "follow_all outlen [] (path_comps d) = (r, dir)" by fastforce
  show ?thesis
    using assms drive_prefix_ne [OF assms(2)] resolve_tail [OF f, of "drop 2 p"] path_comps_mem [of _ d]
    by (simp add: ag_path_resolve_def cstr_at_0 push_path_root f)
qed

lemma resolve_from:
  assumes "outlen \<ge> 2" and "\<not> drive_prefix p" and "start = (if p \<noteq> [] \<and> is_sep (hd p) then [] else case cwd of None \<Rightarrow> [] | Some d \<Rightarrow> d)"
    and "cstr start"
  shows "ag_path_resolve (Some p) cwd (Some b) outlen =
    (case follow_all outlen [] (path_comps start @ path_comps p) of
       (Inl e, dir) \<Rightarrow> (Inl e, Some (render dir))
     | (Inr _, dir) \<Rightarrow> (Inr (), Some (if dir = [] then ''/'' else render dir)))"
proof -
  obtain r dir where f: "follow_all outlen [] (path_comps start) = (r, dir)" by fastforce
  have "cstr_at start 0 \<noteq> CHR 0x00 \<longleftrightarrow> start \<noteq> []" using assms(4) by (cases start) (auto simp: cstr_def)
  with f assms(3) have seed: "(if is_sep (cstr_at p 0) then (Inr (), [], p)
      else (case cwd of None \<Rightarrow> (Inr (), [], p)
            | Some d \<Rightarrow> if cstr_at d 0 \<noteq> CHR 0x00 then (case push_path outlen [] d of (r, buf) \<Rightarrow> (r, buf, p))
                        else (Inr (), [], p))) = (r, render dir, p)"
    by (auto simp: cstr_at_0 push_path_root split: option.splits if_splits)
  show ?thesis
    using assms(1,2) resolve_tail [OF f, of p] path_comps_mem [of _ start]
    by (simp add: ag_path_resolve_def seed)
qed

lemma resolve_follow:
  assumes "outlen \<ge> 2" and "case cwd of None \<Rightarrow> True | Some d \<Rightarrow> cstr d"
  shows "ag_path_resolve (Some p) cwd (Some b) outlen =
    (case start_comps p cwd of
       None \<Rightarrow> (Inl AG_EINVAL, Some [])
     | Some (d, cs) \<Rightarrow>
         (case follow_all outlen [] (d @ cs) of
            (Inl e, dir) \<Rightarrow> (Inl e, Some (render dir))
          | (Inr _, dir) \<Rightarrow> (Inr (), Some (if dir = [] then ''/'' else render dir))))"
proof (cases "drive_prefix p")
  case True
  show ?thesis
  proof (cases "ag_path_drive (hd p)")
    case None
    then show ?thesis using True assms(1) drive_prefix_ne [OF True]
      by (simp add: ag_path_resolve_def start_comps_def cstr_at_0)
  next
    case (Some d)
    then show ?thesis using True resolve_drive [OF assms(1) True Some] by (simp add: start_comps_def)
  qed
next
  case False
  let ?start = "if p \<noteq> [] \<and> is_sep (hd p) then [] else case cwd of None \<Rightarrow> [] | Some d \<Rightarrow> d"
  have "cstr ?start" using assms(2) by (auto simp: cstr_def split: option.splits)
  from resolve_from [OF assms(1) False refl this, of b] False show ?thesis
    by (auto simp: start_comps_def)
qed

subsection \<open>Canonical form\<close>

lemma abs_scan_comp: "\<forall>x \<in> set c. \<not> is_sep x \<Longrightarrow> abs_scan (c @ s) = abs_scan s"
  by (induction c) (auto simp: is_sep_def)

lemma cstr_at_append: "cstr_at (s @ t) i = (if i < length s then s ! i else cstr_at t (i - length s))"
  by (auto simp: cstr_at_def nth_append)

lemma good_comp_head:
  assumes "good_comp c" and "cstr c" and "cstr_at s 0 = CHR 0x00 \<or> cstr_at s 0 = CHR ''/''"
  shows "abs_scan (CHR ''/'' # c @ s) = abs_scan s"
proof -
  have c: "c \<noteq> []" "c \<noteq> ''.''" "c \<noteq> ''..''" "\<forall>x \<in> set c. \<not> is_sep x" "\<forall>x \<in> set c. x \<noteq> CHR 0x00"
    using assms(1,2) by (auto simp: good_comp_def cstr_def)
  note sl = sep_slash [OF c(4)]
  have "cstr_at (c @ s) 0 \<noteq> CHR ''/''" using c(1) sl by (cases c) auto
  moreover have "cstr_at (c @ s) 1 \<noteq> CHR 0x00 \<and> cstr_at (c @ s) 1 \<noteq> CHR ''/''" if "cstr_at (c @ s) 0 = CHR ''.''"
    using that c(1,2,5) sl by (cases c; cases "tl c") auto
  moreover have "cstr_at (c @ s) 2 \<noteq> CHR 0x00 \<and> cstr_at (c @ s) 2 \<noteq> CHR ''/''"
    if dots: "cstr_at (c @ s) 0 = CHR ''.''" "cstr_at (c @ s) 1 = CHR ''.''"
  proof -
    obtain x xs where x: "c = x # xs" using c(1) by (cases c) auto
    obtain y ys where y: "xs = y # ys" using dots c(2) assms(3) x by (cases xs) auto
    then obtain z zs where "ys = z # zs" using dots c(3) x by (cases ys) auto
    with x y c(5) sl show ?thesis by (auto simp: numeral_2_eq_2)
  qed
  ultimately have "abs_scan (CHR ''/'' # c @ s) = abs_scan (c @ s)" by (subst abs_scan.simps) auto
  then show ?thesis by (simp only: abs_scan_comp [OF c(4)])
qed

lemma abs_scan_render: "\<forall>c \<in> set cs. good_comp c \<and> cstr c \<Longrightarrow> abs_scan (render cs)"
proof (induction cs)
  case (Cons c cs)
  have "cstr_at (render cs) 0 = CHR 0x00 \<or> cstr_at (render cs) 0 = CHR ''/''" by (cases cs) simp_all
  with Cons good_comp_head [of c "render cs"] show ?case by simp
qed simp

lemma render_last: "cs \<noteq> [] \<Longrightarrow> \<forall>c \<in> set cs. good_comp c \<Longrightarrow> last (render cs) \<noteq> CHR ''/''"
proof (cases cs rule: rev_cases)
  case (snoc ds c)
  assume "\<forall>c \<in> set cs. good_comp c"
  then have "c \<noteq> []" "\<not> is_sep (last c)" using snoc by (auto simp: good_comp_def)
  then show ?thesis using snoc by (auto simp: is_sep_def)
qed simp

lemma render_absolute:
  assumes "\<forall>c \<in> set cs. good_comp c \<and> cstr c"
  shows "ag_path_is_absolute (Some (if cs = [] then ''/'' else render cs))"
proof (cases "cs = []")
  case True
  then show ?thesis by (simp add: ag_path_is_absolute_def)
next
  case False
  have "cstr_at (render cs) (length (render cs) - 1) \<noteq> CHR ''/''"
    using render_last [OF False] assms False
    by (cases "render cs = []") (auto simp: cstr_at_def last_conv_nth)
  then show ?thesis using False abs_scan_render [OF assms]
    by (cases cs) (auto simp: ag_path_is_absolute_def)
qed

lemma follow_all_set: "follow_all n d cs = (r, d') \<Longrightarrow> set d' \<subseteq> set d \<union> set cs"
proof (induction cs arbitrary: d)
  case (Cons c cs)
  show ?case
  proof (cases "follow n d c")
    case (Pair a b)
    have "set b \<subseteq> insert c (set d)"
      using Pair by (auto simp: follow_def dest: in_set_butlastD split: if_splits)
    with Cons Pair show ?thesis by (cases a) (auto dest!: Cons.IH)
  qed
qed simp

lemma resolve_success:
  assumes "ag_path_resolve (Some p) cwd (Some b) outlen = (Inr (), Some out)"
    and "cstr p" and "case cwd of None \<Rightarrow> True | Some d \<Rightarrow> cstr d"
  obtains cs where "\<forall>c \<in> set cs. good_comp c \<and> cstr c" and "length (render cs) < outlen"
    and "out = (if cs = [] then ''/'' else render cs)" and "outlen \<ge> 2"
proof -
  have n: "outlen \<ge> 2" using assms(1) by (auto simp: ag_path_resolve_def split: if_splits)
  from assms(1) [unfolded resolve_follow [OF n assms(3)]] obtain d cs dir where
    st: "start_comps p cwd = Some (d, cs)" and f: "follow_all outlen [] (d @ cs) = (Inr (), dir)"
    and out: "out = (if dir = [] then ''/'' else render dir)"
    by (fastforce split: option.splits prod.splits sum.splits)
  have drv: "ag_path_drive l = Some m \<Longrightarrow> cstr m" for l m
    by (auto simp: ag_path_drive_def Let_def cstr_def split: if_splits)
  have ok: "c \<noteq> [] \<and> (\<forall>x \<in> set c. \<not> is_sep x) \<and> cstr c" if "c \<in> set (path_comps q)" "cstr q" for c q
    using path_comps_mem [OF that(1)] that(2) by (auto simp: cstr_def)
  have "cstr (drop 2 p)" using assms(2) by (auto simp: cstr_def dest: in_set_dropD)
  with st drv assms(2,3) have "\<forall>c \<in> set (d @ cs). c \<noteq> [] \<and> (\<forall>x \<in> set c. \<not> is_sep x) \<and> cstr c"
    by (auto simp: start_comps_def dest: ok split: option.splits if_splits)
  then have "\<forall>c \<in> set dir. good_comp c \<and> cstr c"
    using follow_all_good [of "[]" "d @ cs" outlen] follow_all_set [OF f] f by auto
  with out n follow_all_len [OF f] show ?thesis by (intro that) auto
qed

lemma render_start: "cs \<noteq> [] \<Longrightarrow> start_comps (render cs) cwd = Some ([], path_comps (render cs))"
  by (cases cs) (auto simp: start_comps_def drive_prefix_def is_alpha_def char_in_def)

lemma resolve_render:
  assumes "\<forall>c \<in> set cs. good_comp c" and "length (render cs) < outlen" and "outlen \<ge> 2"
    and "out = (if cs = [] then ''/'' else render cs)" and "case cwd of None \<Rightarrow> True | Some d \<Rightarrow> cstr d"
  shows "ag_path_resolve (Some out) cwd (Some b) outlen = (Inr (), Some out)"
proof (cases "cs = []")
  case True
  then show ?thesis
    using assms by (simp add: resolve_follow start_comps_def drive_prefix_def is_alpha_def char_in_def)
next
  case False
  have "path_comps (render cs) = cs" by (rule path_comps_render) (use assms(1) in \<open>auto simp: good_comp_def\<close>)
  then show ?thesis
    using False assms follow_all_fixed [of "[]" cs outlen] by (simp add: resolve_follow render_start)
qed

subsection \<open>Last component\<close>

lemma foldl_upt_sep:
  assumes "\<forall>x \<in> set c. \<not> P x"
  shows "foldl (\<lambda>a i. if P ((s @ c) ! i) then f i else a) z [0..<length (s @ c)] =
         foldl (\<lambda>a i. if P (s ! i) then f i else a) z [0..<length s]"
proof -
  let ?g = "\<lambda>a i. if P ((s @ c) ! i) then f i else a"
  have keep: "foldl ?g a [length s..<length s + n] = a" if "n \<le> length c" for a n
    using that by (induction n) (use assms in \<open>auto simp: nth_append\<close>)
  have "foldl ?g z [0..<length s + length c] = foldl ?g (foldl ?g z [0..<length s]) [length s..<length s + length c]"
    by (simp add: upt_add_eq_append [of 0 "length s"])
  also have "\<dots> = foldl ?g z [0..<length s]" by (rule keep) simp
  also have "\<dots> = foldl (\<lambda>a i. if P (s ! i) then f i else a) z [0..<length s]"
    by (intro foldl_cong) (auto simp: nth_append)
  finally show ?thesis by simp
qed

lemma basename_snoc:
  "\<forall>x \<in> set c. \<not> is_sep x \<Longrightarrow> ag_path_basename (Some (s @ CHR ''/'' # c)) = c"
proof -
  assume c: "\<forall>x \<in> set c. \<not> is_sep x"
  have "foldl (\<lambda>last i. if is_sep ((s @ ''/'') ! i) then i + 1 else last) 0 [0..<length (s @ ''/'')] = length s + 1"
    by (simp add: nth_append)
  with foldl_upt_sep [OF c, of "s @ ''/''" "\<lambda>i. i + 1" 0] show ?thesis
    unfolding ag_path_basename_def by simp
qed

lemma dirname_snoc:
  assumes "\<forall>x \<in> set c. \<not> is_sep x" and "length s < outlen" and "outlen \<ge> 2"
  shows "ag_path_dirname (Some (s @ CHR ''/'' # c)) (Some b) outlen = (Inr (), Some (if s = [] then ''/'' else s))"
  using foldl_upt_sep [OF assms(1), of "s @ ''/''" Some None] assms(2,3)
  by (simp add: ag_path_dirname_def nth_append)

lemma join_render:
  assumes "\<forall>c \<in> set (cs @ [c]). good_comp c" and "length (render (cs @ [c])) < outlen" and "outlen \<ge> 2"
    and "\<not> drive_prefix c"
  shows "ag_path_join (Some (if cs = [] then ''/'' else render cs)) (Some c) (Some b) outlen =
         (Inr (), Some (render (cs @ [c])))"
proof -
  have sep: "\<forall>d \<in> set cs. d \<noteq> [] \<and> (\<forall>x \<in> set d. \<not> is_sep x)" "c \<noteq> []" "\<forall>x \<in> set c. \<not> is_sep x"
    using assms(1) by (auto simp: good_comp_def)
  then have comps: "path_comps (if cs = [] then ''/'' else render cs) = cs" "path_comps c = [c]"
    using path_comps_comp [of c "[]"] by (auto simp: path_comps_render)
  have base: "push_path outlen [] (if cs = [] then ''/'' else render cs) = (Inr (), render cs)"
    using follow_all_fixed [of "[]" cs outlen] assms(1,2) by (simp add: push_path_root comps)
  have "push_path outlen (render cs) c = (Inr (), render (cs @ [c]))"
    using push_path_render [of cs outlen c] follow_all_fixed [of cs "[c]" outlen] assms(1,2) by (simp add: comps)
  moreover have "\<not> is_sep (cstr_at c 0)" using sep(2,3) by (cases c) auto
  ultimately show ?thesis using assms(3,4) base by (simp add: ag_path_join_def finish_root_def)
qed

subsection \<open>Wildcards\<close>

lemma glob_star: "glob (CHR ''*'' # p) n \<longleftrightarrow> (\<exists>k \<le> length n. glob p (drop k n))"
proof (induction n)
  case (Cons d n)
  have "(\<exists>k \<le> length (d # n). glob p (drop k (d # n))) \<longleftrightarrow> glob p (d # n) \<or> (\<exists>k \<le> length n. glob p (drop k n))"
    by (auto simp: Ex_less_Suc2 less_Suc_eq_le [symmetric] simp del: less_Suc_eq_le)
  with Cons show ?case by simp
qed simp

lemma glob_lit:
  "CHR ''*'' \<notin> set u \<Longrightarrow> glob (u @ p) n \<Longrightarrow> length u \<le> length n \<and> glob p (drop (length u) n)"
proof (induction u arbitrary: n)
  case (Cons c u)
  then show ?case by (cases n) auto
qed simp

lemma glob_Nil: "glob p [] \<longleftrightarrow> dropWhile (\<lambda>c. c = CHR ''*'') p = []"
  by (induction p) auto

text \<open>A star seen, its pattern, and where it is to be retried: the pattern since then is literal.\<close>

definition star_ok :: "string \<Rightarrow> string \<Rightarrow> (string \<times> string) option \<Rightarrow> bool" where
  "star_ok pat name star =
     (case star of None \<Rightarrow> True
      | Some (sp, retry) \<Rightarrow> (\<exists>u. sp = u @ pat \<and> CHR ''*'' \<notin> set u \<and> length u \<le> length retry \<and>
                                   name = drop (length u) retry))"

definition star_rest :: "(string \<times> string) option \<Rightarrow> bool" where
  "star_rest star =
     (case star of None \<Rightarrow> False
      | Some (sp, retry) \<Rightarrow> retry \<noteq> [] \<and> glob (CHR ''*'' # sp) (tl retry))"

text \<open>A later star makes an earlier one unnecessary: what the earlier could still match, the later can.\<close>

lemma star_forget:
  assumes "star_ok (CHR ''*'' # p) name star" and "star_rest star"
  shows "glob (CHR ''*'' # p) name"
proof -
  from assms obtain u retry k where u: "CHR ''*'' \<notin> set u" "length u \<le> length retry" "name = drop (length u) retry"
    and k: "k \<le> length (tl retry)" "glob (u @ CHR ''*'' # p) (drop k (tl retry))" "retry \<noteq> []"
    by (auto simp: star_ok_def star_rest_def glob_star split: option.splits)
  from glob_lit [OF u(1) k(2)] obtain j where "j \<le> length (drop (length u) (drop k (tl retry)))"
      "glob p (drop j (drop (length u) (drop k (tl retry))))" and len: "length u \<le> length (drop k (tl retry))"
    by (auto simp: glob_star)
  moreover have "drop j (drop (length u) (drop k (tl retry))) = drop (j + k + 1) name"
    using u(3) by (simp add: drop_Suc [symmetric] ac_simps)
  ultimately have "glob p (drop (j + k + 1) name)" by simp
  moreover have "j + k + 1 \<le> length name" using u(2,3) k(1,3) len \<open>j \<le> _\<close> by (cases retry) simp_all
  ultimately show ?thesis unfolding glob_star by blast
qed

lemma star_spent:
  assumes "star_ok pat [] star"
  shows "\<not> star_rest star"
proof
  assume "star_rest star"
  with assms obtain u retry k where u: "CHR ''*'' \<notin> set u" "length u = length retry"
    and k: "glob (u @ pat) (drop k (tl retry))" "retry \<noteq> []"
    by (auto simp: star_ok_def star_rest_def glob_star split: option.splits)
  from glob_lit [OF u(1) k(1)] have "length u \<le> length retry - 1 - k" by simp
  with u(2) k(2) show False by (cases retry) auto
qed

lemma lower_upper: "char_in CHR ''A'' CHR ''Z'' c \<Longrightarrow> (of_char (lower c) :: nat) = of_char c + 32"
  by (simp add: lower_def char_in_def take_bit_eq_mod)

lemma lower_other: "\<not> char_in CHR ''A'' CHR ''Z'' c \<Longrightarrow> lower c = c"
  by (simp add: lower_def)

lemma lower_star: "lower c = CHR ''*'' \<longleftrightarrow> c = CHR ''*''"
proof (cases "char_in CHR ''A'' CHR ''Z'' c")
  case True
  have "lower c \<noteq> CHR ''*''" using lower_upper [OF True] True by (auto simp: char_in_def)
  then show ?thesis using True by (auto simp: char_in_def)
qed (simp add: lower_other)

lemma star_ok_lit: "star_ok (c # p) (d # n) star \<Longrightarrow> c \<noteq> CHR ''*'' \<Longrightarrow> star_ok p n star"
proof (cases star)
  case (Some x)
  assume ok: "star_ok (c # p) (d # n) star" and c: "c \<noteq> CHR ''*''"
  obtain sp r where x: "x = (sp, r)" by (cases x)
  with Some ok obtain u where u: "sp = u @ c # p" "CHR ''*'' \<notin> set u" "length u \<le> length r" "d # n = drop (length u) r"
    by (auto simp: star_ok_def)
  have "length (d # n) = length r - length u" using u(4) by (metis length_drop)
  then have "Suc (length u) \<le> length r" by simp
  moreover have "n = drop (Suc (length u)) r" using u(4) by (metis drop_Suc list.sel(3) tl_drop)
  ultimately show ?thesis using u c Some x by (auto simp: star_ok_def intro!: exI [of _ "u @ [c]"])
qed (simp add: star_ok_def)

lemma glob_step: "r \<noteq> [] \<Longrightarrow> glob (CHR ''*'' # p) r \<longleftrightarrow> glob p r \<or> glob (CHR ''*'' # p) (tl r)"
  by (cases r) simp_all

lemma star_rest_step:
  "star_rest (Some (sp, retry)) \<longleftrightarrow> retry \<noteq> [] \<and> (glob sp (tl retry) \<or> star_rest (Some (sp, tl retry)))"
proof (cases "tl retry = []")
  case True
  then show ?thesis by (simp add: star_rest_def)
next
  case False
  with glob_step [OF False, of sp] show ?thesis by (auto simp: star_rest_def)
qed

lemma match_loop_glob:
  "CHR ''*'' \<notin> set name \<Longrightarrow> CHR ''*'' \<notin> (case star of None \<Rightarrow> {} | Some (_, r) \<Rightarrow> set r) \<Longrightarrow> star_ok pat name star \<Longrightarrow>
   match_loop pat name star \<longleftrightarrow> glob pat name \<or> star_rest star"
proof (induction pat name star rule: match_loop.induct)
  case (1 pat name star)
  show ?case
  proof (cases name)
    case Nil
    then show ?thesis using 1(6) star_spent [of pat star] by (simp add: match_loop.simps glob_Nil)
  next
    case (Cons d n)
    consider (lit) c p where "pat = c # p" "c = CHR ''?'' \<or> lower c = lower d"
      | (star) p where "pat = CHR ''*'' # p" "lower d \<noteq> CHR ''*''"
      | (miss) "pat = [] \<or> (hd pat \<noteq> CHR ''?'' \<and> lower (hd pat) \<noteq> lower d \<and> hd pat \<noteq> CHR ''*'')"
      using 1(4) Cons lower_star [of d] by (cases pat) auto
    then show ?thesis
    proof cases
      case lit
      have c: "c \<noteq> CHR ''*''" using lit(2) 1(4) Cons lower_star [of d] lower_star [of c] by auto
      have "star_ok p n star" using 1(6) star_ok_lit [of c p d n star] lit(1) Cons c by simp
      with 1(1) 1(4-5) Cons lit c show ?thesis by (subst match_loop.simps) auto
    next
      case star
      have "lower CHR ''*'' \<noteq> lower d" using star(2) lower_star [of "CHR ''*''"] by auto
      moreover have "star_ok p name (Some (p, name))" by (simp add: star_ok_def)
      ultimately have
        "match_loop pat name star \<longleftrightarrow> glob p name \<or> star_rest (Some (p, name))"
        using 1(2) 1(4-5) Cons star(1) by (subst match_loop.simps) auto
      also have "\<dots> \<longleftrightarrow> glob pat name" using Cons star(1) by (auto simp: star_rest_def)
      also have "\<dots> \<longleftrightarrow> glob pat name \<or> star_rest star"
        using star_forget [of p name star] 1(6) star(1) by auto
      finally show ?thesis .
    next
      case miss
      then have no: "\<not> glob pat name" using Cons by (cases pat) auto
      show ?thesis
      proof (cases star)
        case None
        then show ?thesis using miss no Cons by (subst match_loop.simps) (auto simp: star_rest_def)
      next
        case (Some x)
        obtain sp retry where x: "x = (sp, retry)" by (cases x)
        have "retry \<noteq> []" using 1(6) Some x Cons by (auto simp: star_ok_def)
        moreover have "CHR ''*'' \<notin> set (tl retry)"
          using 1(5) Some x by (cases retry) auto
        moreover have "star_ok sp (tl retry) (Some (sp, tl retry))" by (simp add: star_ok_def)
        ultimately have "match_loop sp (tl retry) (Some (sp, tl retry)) \<longleftrightarrow>
            glob sp (tl retry) \<or> star_rest (Some (sp, tl retry))"
          using miss Cons Some x by (intro 1(3) [of x sp retry]) auto
        also have "\<dots> \<longleftrightarrow> star_rest star"
          using star_rest_step [of sp retry] Some x \<open>retry \<noteq> []\<close> by simp
        finally have "match_loop sp (tl retry) (Some (sp, tl retry)) \<longleftrightarrow> star_rest star" .
        with no miss Cons Some x \<open>retry \<noteq> []\<close> show ?thesis by (subst match_loop.simps) auto
      qed
    qed
  qed
qed

subsection \<open>Comparing names\<close>

lemma lower_nul [simp]: "lower CHR 0x00 = CHR 0x00"
  by (simp add: lower_def char_in_def)

lemma lower_ne_nul: "c \<noteq> CHR 0x00 \<Longrightarrow> (of_char (lower c) :: int) \<noteq> 0"
proof -
  assume c: "c \<noteq> CHR 0x00"
  have "lower c \<noteq> CHR 0x00"
  proof (cases "char_in CHR ''A'' CHR ''Z'' c")
    case True
    then show ?thesis using lower_upper [OF True] by auto
  qed (simp add: lower_other c)
  moreover have "(of_char d :: int) = of_char CHR 0x00 \<longleftrightarrow> d = CHR 0x00" for d by (simp only: of_char_eq_iff)
  ultimately show ?thesis by simp
qed

lemma icmp_loop_zero: "cstr a \<Longrightarrow> cstr b \<Longrightarrow> icmp_loop a b = 0 \<longleftrightarrow> map lower a = map lower b"
proof (induction a b rule: icmp_loop.induct)
  case (1 a as b bs)
  then show ?case by (auto simp: cstr_def)
next
  case (2 bs)
  then show ?case using lower_ne_nul [of "hd bs"] by (cases bs) (auto simp: cstr_def)
next
  case (3 a as)
  then show ?case using lower_ne_nul [of a] by (auto simp: cstr_def)
qed

lemma icmp_loop_Nil: "icmp_loop as [] = of_char (lower (cstr_at as 0))"
  by (cases as) simp_all

lemma icmp_loop_anti: "icmp_loop a b = - icmp_loop b a"
  by (induction a b rule: icmp_loop.induct) (simp_all add: icmp_loop_Nil)

section \<open>Properties\<close>

text \<open>
  C7. What \<open>ag_path_resolve\<close> computes. For every input, current directory and buffer size of at
  least two it gives the path of the components reached from the start (the drive's mount point,
  the root, or the current directory) by following the input's components one at a time: \<open>.\<close> stays,
  \<open>..\<close> goes to the parent and stays at the root, any other name descends, and the first name that
  is too long or does not fit in the buffer ends it with \<open>AG_ERANGE\<close> and the path so far. An unknown
  drive letter is \<open>AG_EINVAL\<close>.
\<close>

theorem path_resolve_refines:
  assumes "outlen \<ge> 2" and "case cwd of None \<Rightarrow> True | Some d \<Rightarrow> cstr d"
  shows "ag_path_resolve (Some p) cwd (Some b) outlen =
    (case start_comps p cwd of
       None \<Rightarrow> (Inl AG_EINVAL, Some [])
     | Some (d, cs) \<Rightarrow>
         (case follow_all outlen [] (d @ cs) of
            (Inl e, dir) \<Rightarrow> (Inl e, Some (render dir))
          | (Inr _, dir) \<Rightarrow> (Inr (), Some (if dir = [] then ''/'' else render dir))))"
  by (rule resolve_follow [OF assms])

theorem path_resolve_refines_witness:
  "ag_path_resolve (Some ''..//b/.'') (Some ''/sd/a'') (Some []) 64 = (Inr (), Some ''/sd/b'')"
  by (subst path_resolve_refines)
    (simp_all add: cstr_def start_comps_def drive_prefix_def is_alpha_def char_in_def path_comps_def is_sep_def
      follow_def AG_NAME_MAX_def)

text \<open>
  Every path that comes out of \<open>ag_path_resolve\<close> is canonical: \<open>ag_path_is_absolute\<close> accepts it,
  it fits in the buffer with its terminator, every component is at most \<open>AG_NAME_MAX\<close> long, and
  resolving it again, from any current directory, gives it back unchanged.
\<close>

theorem path_resolve_canonical:
  assumes "ag_path_resolve (Some p) cwd (Some b) outlen = (Inr (), Some out)"
    and "cstr p" and "case cwd of None \<Rightarrow> True | Some d \<Rightarrow> cstr d"
    and "case cwd' of None \<Rightarrow> True | Some d \<Rightarrow> cstr d"
  shows "ag_path_is_absolute (Some out) \<and> length out < outlen \<and>
    list_all (\<lambda>c. length c \<le> AG_NAME_MAX) (path_comps out) \<and>
    ag_path_resolve (Some out) cwd' (Some b') outlen = (Inr (), Some out)"
proof -
  from resolve_success [OF assms(1-3)] obtain cs where cs: "\<forall>c \<in> set cs. good_comp c \<and> cstr c"
    "length (render cs) < outlen" "out = (if cs = [] then ''/'' else render cs)" "outlen \<ge> 2" .
  have "path_comps out = cs"
    using cs(1) path_comps_render [of cs] by (auto simp: cs(3) good_comp_def)
  moreover have "length out < outlen" using cs(2-4) by simp
  ultimately show ?thesis
    using cs render_absolute [OF cs(1)] resolve_render [OF _ cs(2) cs(4) cs(3) assms(4)]
    by (simp add: list_all_iff good_comp_def)
qed

theorem path_resolve_canonical_witness: "ag_path_is_absolute (Some ''/sys/etc'')"
proof -
  have "ag_path_resolve (Some ''C:etc/x/..'') None (Some []) 32 = (Inr (), Some ''/sys/etc'')"
    by (simp add: resolve_follow start_comps_def drive_prefix_def is_alpha_def char_in_def path_comps_def is_sep_def
      follow_def AG_NAME_MAX_def ag_path_drive_def lower_def Let_def char_of_def bit_0)
  from path_resolve_canonical [OF this, of None] show ?thesis by (simp add: cstr_def)
qed

text \<open>
  A canonical path other than the root is the join of its directory and its last component: the
  three routines agree on where the last component starts.
\<close>

theorem path_dirname_basename_join:
  assumes "ag_path_resolve (Some p) cwd (Some b) outlen = (Inr (), Some out)" and "out \<noteq> ''/''"
    and "cstr p" and "case cwd of None \<Rightarrow> True | Some d \<Rightarrow> cstr d" and "\<not> drive_prefix (ag_path_basename (Some out))"
  shows "\<exists>dir. ag_path_dirname (Some out) (Some b') outlen = (Inr (), Some dir) \<and> ag_path_is_absolute (Some dir) \<and>
     ag_path_join (Some dir) (Some (ag_path_basename (Some out))) (Some b'') outlen = (Inr (), Some out)"
proof -
  from resolve_success [OF assms(1,3,4)] obtain cs where cs: "\<forall>c \<in> set cs. good_comp c \<and> cstr c"
    "length (render cs) < outlen" "out = (if cs = [] then ''/'' else render cs)" "outlen \<ge> 2" .
  with assms(2) obtain ds c where ds: "cs = ds @ [c]" by (cases cs rule: rev_cases) auto
  then have out: "out = render ds @ CHR ''/'' # c" and c: "\<forall>x \<in> set c. \<not> is_sep x"
    using cs(1,3) by (auto simp: good_comp_def)
  let ?dir = "if ds = [] then ''/'' else render ds"
  have "ag_path_basename (Some out) = c" unfolding out by (rule basename_snoc [OF c])
  moreover have "ag_path_dirname (Some out) (Some b') outlen = (Inr (), Some ?dir)"
    using dirname_snoc [OF c, of "render ds" outlen b'] cs(2,4) ds by (cases ds) (auto simp: out)
  moreover have "ag_path_is_absolute (Some ?dir)" by (rule render_absolute) (use cs(1) ds in auto)
  moreover have "ag_path_join (Some ?dir) (Some c) (Some b'') outlen = (Inr (), Some (render (ds @ [c])))"
    using cs(1,2,4) ds assms(5) calculation(1) by (intro join_render) auto
  ultimately show ?thesis unfolding out by auto
qed

theorem path_dirname_basename_join_witness:
  "\<exists>dir. ag_path_dirname (Some ''/sd/a'') (Some []) 16 = (Inr (), Some dir) \<and> ag_path_is_absolute (Some dir)"
proof -
  have r: "ag_path_resolve (Some ''/sd/a'') None (Some []) 16 = (Inr (), Some ''/sd/a'')"
    by (simp add: resolve_follow start_comps_def drive_prefix_def is_alpha_def char_in_def path_comps_def is_sep_def
      follow_def AG_NAME_MAX_def)
  have "\<not> drive_prefix (ag_path_basename (Some ''/sd/a''))"
    by (simp add: ag_path_basename_def upt_rec is_sep_def drive_prefix_def)
  from path_dirname_basename_join [OF r _ _ _ this] show ?thesis by (auto simp: cstr_def)
qed

text \<open>
  C20. On a name without a star, the backtracking loop of \<open>ag_path_match\<close>, which remembers only the
  last star, decides exactly the declarative meaning of the DOS wildcards, without regard to case.
\<close>

theorem path_match_glob:
  assumes "CHR ''*'' \<notin> set name"
  shows "ag_path_match (Some pattern) (Some name) = glob pattern name"
  using match_loop_glob [of name None pattern] assms
  by (simp add: ag_path_match_def star_ok_def star_rest_def)

theorem path_match_glob_witness: "ag_path_match (Some ''*.Ax?'') (Some ''a.x.axe'')"
  by (subst path_match_glob) (simp_all add: lower_def char_in_def char_of_def bit_0)

text \<open>
  \<open>ag_path_match\<close> tests for a literal match before it tests for a star, so a star in the name
  consumes a star of the pattern: \<open>*\<close>, which should match everything, rejects \<open>*a\<close>.
\<close>

theorem path_match_star_in_name:
  "\<not> ag_path_match (Some ''*'') (Some ''*a'') \<and> glob ''*'' ''*a''"
  by (simp add: ag_path_match_def match_loop.simps)

text \<open>
  \<open>ag_path_icmp\<close> is a case-insensitive comparison: it is zero exactly on strings that agree in
  lower case, and exchanging its arguments changes the sign.
\<close>

theorem path_icmp_spec:
  assumes "cstr a" and "cstr b"
  shows "(ag_path_icmp (Some a) (Some b) = 0 \<longleftrightarrow> map lower a = map lower b) \<and>
    ag_path_icmp (Some b) (Some a) = - ag_path_icmp (Some a) (Some b)"
  using icmp_loop_zero [OF assms] icmp_loop_anti [of b a] by (simp add: ag_path_icmp_def)

theorem path_icmp_spec_witness: "ag_path_icmp (Some ''Boot.CFG'') (Some ''boot.cfg'') = 0"
  using path_icmp_spec [of "''Boot.CFG''" "''boot.cfg''"] by (simp add: cstr_def lower_def char_in_def char_of_def bit_0)

end
