(* ===== verification/AppCfg.thy ===== *)
theory AppCfg
  imports Path
begin

text \<open>
  \<open>core/appcfg_text.c\<close>: the settings of an application as the text of a file, \<open>key = value\<close> lines. A text and the half-open ranges in it are
  strings without terminator; the buffer that is written is the string it ends up holding, and its size an argument. A null pointer is
  \<open>None\<close>. Sizes are those of small buffers, natural numbers; the arithmetic of \<open>get_int\<close> is on 32-bit words.
\<close>

section \<open>The code\<close>

definition AG_APPCFG_KEY_MAX :: nat where "AG_APPCFG_KEY_MAX = 48"
definition AG_APPCFG_VALUE_MAX :: nat where "AG_APPCFG_VALUE_MAX = 128"

definition cfg_space :: "char \<Rightarrow> bool" where
  "cfg_space c \<longleftrightarrow> c = CHR '' '' \<or> c = CHR 0x09 \<or> c = CHR 0x0D"

text \<open>The two loops that trim a range.\<close>

definition trim_left :: "string \<Rightarrow> string" where
  "trim_left s = dropWhile cfg_space s"

definition trim_right :: "string \<Rightarrow> string" where
  "trim_right s = rev (dropWhile cfg_space (rev s))"

text \<open>The column of the key, the key and the value.\<close>

definition split_line :: "string \<Rightarrow> (nat \<times> string \<times> string) option" where
  "split_line line =
     (let at = trim_left line in
      if at = [] \<or> hd at = CHR '';'' \<or> hd at = CHR ''#'' \<or> hd at = CHR ''['' then None
      else if CHR ''='' \<notin> set at then None
      else
        let key = trim_right (takeWhile (\<lambda>c. c \<noteq> CHR ''='') at)
        in if key = [] then None
           else Some (length line - length at, key, trim_right (trim_left (tl (dropWhile (\<lambda>c. c \<noteq> CHR ''='') at)))))"

text \<open>The loop over an unquoted value: what is left of it, the room in the buffer, and whether quotes are open.\<close>

fun cut_value :: "string \<Rightarrow> nat \<Rightarrow> bool \<Rightarrow> string" where
  "cut_value [] room q = []"
| "cut_value (c # cs) 0 q = []"
| "cut_value (c # cs) (Suc room) q =
     (if c = CHR 0x22 then cut_value cs (Suc room) (\<not> q)
      else if \<not> q \<and> (c = CHR '';'' \<or> c = CHR ''#'') then []
      else c # cut_value cs room q)"

definition clean_value :: "string \<Rightarrow> nat \<Rightarrow> string" where
  "clean_value val len =
     (if length val \<ge> 2 \<and> hd val = CHR 0x22 \<and> last val = CHR 0x22 then
        (if length val - 2 < len then butlast (tl val) else [])
      else trim_right (cut_value val (len - 1) False))"

text \<open>The lines that the loops over a text go through.\<close>

function cfg_lines :: "string \<Rightarrow> string list" where
  "cfg_lines text =
     (if text = [] then []
      else takeWhile (\<lambda>c. c \<noteq> CHR 0x0A) text # cfg_lines (tl (dropWhile (\<lambda>c. c \<noteq> CHR 0x0A) text)))"
  by auto
termination
proof (relation "measure length", goal_cases)
  case (2 t)
  have "length (dropWhile (\<lambda>c. c \<noteq> CHR 0x0A) t) \<le> length t" by (rule length_dropWhile_le)
  moreover have "0 < length t" using 2 by simp
  ultimately have "length (dropWhile (\<lambda>c. c \<noteq> CHR 0x0A) t) - 1 < length t" by linarith
  then show ?case by (simp only: in_measure length_tl)
qed simp

declare cfg_lines.simps [simp del]

fun find_line :: "string list \<Rightarrow> string \<Rightarrow> string option" where
  "find_line [] key = None"
| "find_line (l # ls) key =
     (case split_line l of
        Some (indent, k, v) \<Rightarrow> if k = key then Some v else find_line ls key
      | None \<Rightarrow> find_line ls key)"

definition ag_appcfg_text_get :: "string option \<Rightarrow> string option \<Rightarrow> nat \<Rightarrow> string option" where
  "ag_appcfg_text_get text key len =
     (case (text, key) of
        (Some t, Some k) \<Rightarrow> if len = 0 then None else map_option (\<lambda>v. clean_value v len) (find_line (cfg_lines t) k)
      | _ \<Rightarrow> None)"

text \<open>The digits of a number and the value they give, modulo \<open>2 ^ 32\<close>.\<close>

definition digit_of :: "bool \<Rightarrow> char \<Rightarrow> u32 option" where
  "digit_of hex c =
     (if char_in CHR ''0'' CHR ''9'' c then Some (of_char c - of_char CHR ''0'')
      else if hex \<and> char_in CHR ''a'' CHR ''f'' c then Some (of_char c - of_char CHR ''a'' + 10)
      else if hex \<and> char_in CHR ''A'' CHR ''F'' c then Some (of_char c - of_char CHR ''A'' + 10)
      else None)"

fun digits_value :: "bool \<Rightarrow> string \<Rightarrow> u32 \<Rightarrow> bool \<Rightarrow> u32 \<times> bool" where
  "digits_value hex [] n any = (n, any)"
| "digits_value hex (c # cs) n any =
     (case digit_of hex c of None \<Rightarrow> (n, any) | Some d \<Rightarrow> digits_value hex cs (n * (if hex then 16 else 10) + d) True)"

definition ag_appcfg_text_get_int :: "string option \<Rightarrow> string option \<Rightarrow> int \<Rightarrow> int" where
  "ag_appcfg_text_get_int text key fallback =
     (case ag_appcfg_text_get text key AG_APPCFG_VALUE_MAX of
        None \<Rightarrow> fallback
      | Some value \<Rightarrow>
          let p = trim_left value;
              sgn_given = (p \<noteq> [] \<and> (hd p = CHR ''-'' \<or> hd p = CHR ''+''));
              neg = (p \<noteq> [] \<and> hd p = CHR ''-'');
              p1 = (if sgn_given then tl p else p);
              hex = (cstr_at p1 0 = CHR ''0'' \<and> (cstr_at p1 1 = CHR ''x'' \<or> cstr_at p1 1 = CHR ''X''));
              (n, digits) = digits_value hex (if hex then drop 2 p1 else p1) 0 False
          in if \<not> digits then fallback else sint (if neg then - n else n))"

definition new_line_text :: "nat \<Rightarrow> string \<Rightarrow> string \<Rightarrow> string" where
  "new_line_text indent key value = replicate indent CHR '' '' @ key @ '' = '' @ value @ [CHR 0x0A]"

text \<open>The loop of \<open>ag_appcfg_text_set\<close>: the lines still to be copied, whether the key was replaced, and the output so far.\<close>

fun set_lines :: "string list \<Rightarrow> string \<Rightarrow> string \<Rightarrow> nat \<Rightarrow> bool \<Rightarrow> string \<Rightarrow> (bool \<times> string) option" where
  "set_lines [] key value outlen replaced out = Some (replaced, out)"
| "set_lines (l # ls) key value outlen replaced out =
     (let hit = (if replaced then None
                 else case split_line l of Some (indent, k, v) \<Rightarrow> if k = key then Some indent else None | None \<Rightarrow> None)
      in case hit of
           Some indent \<Rightarrow>
             if length out + (indent + length key + 3 + length value + 1) \<ge> outlen then None
             else set_lines ls key value outlen True (out @ new_line_text indent key value)
         | None \<Rightarrow>
             if length out + length l + 1 \<ge> outlen then None
             else set_lines ls key value outlen replaced (out @ l @ [CHR 0x0A]))"

definition ag_appcfg_text_set :: "string option \<Rightarrow> string option \<Rightarrow> string option \<Rightarrow> nat \<Rightarrow> string option" where
  "ag_appcfg_text_set text key value outlen =
     (case (key, value) of
        (Some k, Some v) \<Rightarrow>
          if length k \<ge> AG_APPCFG_KEY_MAX \<or> length v \<ge> AG_APPCFG_VALUE_MAX then None
          else (case set_lines (case text of None \<Rightarrow> [] | Some t \<Rightarrow> cfg_lines t) k v outlen False [] of
                  None \<Rightarrow> None
                | Some (True, out) \<Rightarrow> Some out
                | Some (False, out) \<Rightarrow>
                    if length out + (length k + 3 + length v + 1) \<ge> outlen then None else Some (out @ new_line_text 0 k v))
      | _ \<Rightarrow> None)"

definition to_upper :: "char \<Rightarrow> char" where
  "to_upper c = (if char_in CHR ''a'' CHR ''z'' c then char_of ((of_char c :: nat) - of_char CHR ''a'' + of_char CHR ''A'') else c)"

definition name_char :: "char \<Rightarrow> bool" where
  "name_char c \<longleftrightarrow> char_in CHR ''A'' CHR ''Z'' c \<or> char_in CHR ''0'' CHR ''9'' c \<or> c = CHR ''_'' \<or> c = CHR ''-''"

definition ag_appcfg_file_name :: "string option \<Rightarrow> nat \<Rightarrow> string" where
  "ag_appcfg_file_name app len =
     (let n = take (len - 1) (filter name_char (map to_upper (case app of None \<Rightarrow> [] | Some a \<Rightarrow> a)))
      in if n = [] then take (len - 1) ''APP'' else n)"

section \<open>Trimming\<close>

lemma trim_right_idem: "s \<noteq> [] \<Longrightarrow> \<not> cfg_space (last s) \<Longrightarrow> trim_right s = s"
  by (cases s rule: rev_cases) (simp_all add: trim_right_def)

lemma trim_left_idem: "s \<noteq> [] \<Longrightarrow> \<not> cfg_space (hd s) \<Longrightarrow> trim_left s = s"
  by (cases s) (simp_all add: trim_left_def)

lemma trim_right_space: "trim_right (s @ [c]) = (if cfg_space c then trim_right s else s @ [c])"
  by (simp add: trim_right_def)

lemma trim_left_spaces: "trim_left (replicate n CHR '' '' @ s) = trim_left s"
  by (induction n) (simp_all add: trim_left_def cfg_space_def)

text \<open>A key that a line can hold: not empty, no blanks around it, nothing in it that ends it, and no mark of a comment or a section in front.\<close>

definition cfg_key :: "string \<Rightarrow> bool" where
  "cfg_key k \<longleftrightarrow> k \<noteq> [] \<and> \<not> cfg_space (hd k) \<and> \<not> cfg_space (last k) \<and> CHR ''='' \<notin> set k \<and> CHR 0x0A \<notin> set k \<and>
     hd k \<noteq> CHR '';'' \<and> hd k \<noteq> CHR ''#'' \<and> hd k \<noteq> CHR ''[''"

lemma split_new_line:
  assumes "cfg_key k"
  shows "split_line (replicate n CHR '' '' @ k @ '' = '' @ v) = Some (n, k, trim_right (trim_left v))"
proof -
  let ?l = "replicate n CHR '' '' @ k @ '' = '' @ v" and ?at = "k @ '' = '' @ v"
  have k: "k \<noteq> []" "\<not> cfg_space (hd k)" "\<not> cfg_space (last k)" "CHR ''='' \<notin> set k" using assms by (simp_all add: cfg_key_def)
  have a: "trim_left ?l = ?at" unfolding trim_left_spaces using k by (intro trim_left_idem) simp_all
  have eq: "takeWhile (\<lambda>c. c \<noteq> CHR ''='') ?at = k @ '' ''" "dropWhile (\<lambda>c. c \<noteq> CHR ''='') ?at = ''= '' @ v"
    using k(4) by (simp_all add: takeWhile_append dropWhile_append)
  have tr: "trim_right (k @ '' '') = k" using trim_right_space [of k "CHR '' ''"] trim_right_idem [OF k(1,3)] by (simp add: cfg_space_def)
  have tl': "trim_left ('' '' @ v) = trim_left v" by (simp add: trim_left_def cfg_space_def)
  show ?thesis unfolding split_line_def Let_def a eq tr using assms tl' by (simp add: cfg_key_def)
qed

section \<open>Lines\<close>

definition join_lines :: "string list \<Rightarrow> string" where
  "join_lines ls = concat (map (\<lambda>l. l @ [CHR 0x0A]) ls)"

lemma cfg_lines_join: "list_all (\<lambda>l. CHR 0x0A \<notin> set l) ls \<Longrightarrow> cfg_lines (join_lines ls) = ls"
proof (induction ls)
  case Nil
  then show ?case by (simp add: join_lines_def cfg_lines.simps)
next
  case (Cons l ls)
  have t: "takeWhile (\<lambda>c. c \<noteq> CHR 0x0A) (l @ CHR 0x0A # r) = l" "dropWhile (\<lambda>c. c \<noteq> CHR 0x0A) (l @ CHR 0x0A # r) = CHR 0x0A # r" for r
    using Cons.prems by (simp_all add: takeWhile_append dropWhile_append)
  have "join_lines (l # ls) = l @ CHR 0x0A # join_lines ls" by (simp add: join_lines_def)
  then show ?case using Cons t [of "join_lines ls"] cfg_lines.simps [of "join_lines (l # ls)"] by simp
qed

lemma cfg_lines_no_newline: "list_all (\<lambda>l. CHR 0x0A \<notin> set l) (cfg_lines t)"
proof (induction t rule: cfg_lines.induct)
  case (1 t)
  then show ?case using cfg_lines.simps [of t] by (auto dest: set_takeWhileD)
qed

text \<open>The lines of the text with the key set: the first line that has it is replaced, and one is added when none has.\<close>

definition hit_line :: "string \<Rightarrow> string \<Rightarrow> nat option" where
  "hit_line key l = (case split_line l of Some (indent, k, v) \<Rightarrow> if k = key then Some indent else None | None \<Rightarrow> None)"

definition pair_line :: "nat \<Rightarrow> string \<Rightarrow> string \<Rightarrow> string" where
  "pair_line indent key value = replicate indent CHR '' '' @ key @ '' = '' @ value"

fun put_lines :: "string list \<Rightarrow> string \<Rightarrow> string \<Rightarrow> string list" where
  "put_lines [] key value = [pair_line 0 key value]"
| "put_lines (l # ls) key value = (case hit_line key l of Some indent \<Rightarrow> pair_line indent key value # ls | None \<Rightarrow> l # put_lines ls key value)"

lemma set_lines_done:
  "length out < outlen \<Longrightarrow> set_lines ls key value outlen True out =
    (if length (out @ join_lines ls) < outlen then Some (True, out @ join_lines ls) else None)"
  by (induction ls arbitrary: out) (simp_all add: join_lines_def)

lemma new_line_length: "length (new_line_text i key value) = i + length key + 3 + length value + 1"
  by (simp add: new_line_text_def)

lemma set_lines_put:
  "length out < outlen \<Longrightarrow>
    (case set_lines ls key value outlen False out of
       None \<Rightarrow> None
     | Some (True, o1) \<Rightarrow> Some o1
     | Some (False, o1) \<Rightarrow> if length o1 + (length key + 3 + length value + 1) \<ge> outlen then None else Some (o1 @ new_line_text 0 key value)) =
    (if length (out @ join_lines (put_lines ls key value)) < outlen then Some (out @ join_lines (put_lines ls key value)) else None)"
proof (induction ls arbitrary: out)
  case Nil
  then show ?case by (simp add: join_lines_def pair_line_def new_line_text_def)
next
  case (Cons l ls)
  show ?case
  proof (cases "hit_line key l")
    case None
    then show ?thesis using Cons.IH [of "out @ l @ [CHR 0x0A]"] by (simp add: hit_line_def [symmetric] join_lines_def)
  next
    case (Some i)
    have j: "join_lines (put_lines (l # ls) key value) = new_line_text i key value @ join_lines ls"
      by (simp add: Some join_lines_def pair_line_def new_line_text_def)
    show ?thesis unfolding j
      using set_lines_done [of "out @ new_line_text i key value" outlen ls key "value"] new_line_length [of i key "value"]
      by (simp add: hit_line_def [symmetric] Some)
  qed
qed

lemma text_set_eq:
  "ag_appcfg_text_set t (Some k) (Some v) outlen =
     (let out = join_lines (put_lines (cfg_lines (case t of None \<Rightarrow> [] | Some s \<Rightarrow> s)) k v)
      in if length k < AG_APPCFG_KEY_MAX \<and> length v < AG_APPCFG_VALUE_MAX \<and> length out < outlen then Some out else None)"
proof (cases "0 < outlen")
  case True
  have "(case t of None \<Rightarrow> [] | Some s \<Rightarrow> cfg_lines s) = cfg_lines (case t of None \<Rightarrow> [] | Some s \<Rightarrow> s)"
    by (cases t) (simp_all add: cfg_lines.simps)
  then show ?thesis using set_lines_put [of "[]" outlen k v "cfg_lines (case t of None \<Rightarrow> [] | Some s \<Rightarrow> s)"] True
    unfolding ag_appcfg_text_set_def Let_def by simp
next
  case False
  then have "set_lines ls k v outlen False [] = (if ls = [] then Some (False, []) else None)" for ls
    by (cases ls) (simp_all split: option.split)
  then show ?thesis using False unfolding ag_appcfg_text_set_def Let_def by (simp split: option.split)
qed

lemma find_put:
  assumes "cfg_key k"
  shows "find_line (put_lines ls k v) j = (if j = k then Some (trim_right (trim_left v)) else find_line ls j)"
proof -
  have p: "split_line (pair_line i k v) = Some (i, k, trim_right (trim_left v))" for i
    unfolding pair_line_def by (rule split_new_line [OF assms])
  show ?thesis
  proof (induction ls)
    case Nil
    show ?case by (simp add: p)
  next
    case (Cons l ls)
    show ?case
    proof (cases "split_line l")
      case None
      then show ?thesis using Cons by (simp add: hit_line_def)
    next
      case (Some a)
      then show ?thesis using Cons p by (cases a) (auto simp: hit_line_def)
    qed
  qed
qed

lemma put_no_newline:
  assumes "cfg_key k" and "CHR 0x0A \<notin> set v"
  shows "list_all (\<lambda>l. CHR 0x0A \<notin> set l) ls \<Longrightarrow> list_all (\<lambda>l. CHR 0x0A \<notin> set l) (put_lines ls k v)"
  using assms by (induction ls) (auto simp: pair_line_def cfg_key_def split: option.split)

lemma get_after_set:
  assumes "cfg_key k" and "CHR 0x0A \<notin> set v" and "ag_appcfg_text_set t (Some k) (Some v) outlen = Some out" and "0 < len"
  shows "ag_appcfg_text_get (Some out) (Some j) len =
    (if j = k then Some (clean_value (trim_right (trim_left v)) len) else ag_appcfg_text_get (Some (case t of None \<Rightarrow> [] | Some s \<Rightarrow> s)) (Some j) len)"
proof -
  let ?ls = "cfg_lines (case t of None \<Rightarrow> [] | Some s \<Rightarrow> s)"
  have "out = join_lines (put_lines ?ls k v)" using assms(3) unfolding text_set_eq Let_def by (auto split: if_splits)
  then have "cfg_lines out = put_lines ?ls k v" using cfg_lines_join put_no_newline [OF assms(1,2) cfg_lines_no_newline] by simp
  then show ?thesis using assms(4) find_put [OF assms(1)] by (simp add: ag_appcfg_text_get_def)
qed

text \<open>How a value is written so that it is read as it is: plainly, when it has no blanks around it, no quotes and no mark of a comment, or between
  quotes.\<close>

definition plain_value :: "string \<Rightarrow> bool" where
  "plain_value v \<longleftrightarrow> (v = [] \<or> \<not> cfg_space (hd v) \<and> \<not> cfg_space (last v)) \<and> CHR 0x0A \<notin> set v \<and>
     CHR 0x22 \<notin> set v \<and> CHR '';'' \<notin> set v \<and> CHR ''#'' \<notin> set v"

definition written_as :: "string \<Rightarrow> string \<Rightarrow> bool" where
  "written_as v w \<longleftrightarrow> (plain_value v \<and> w = v) \<or> (CHR 0x0A \<notin> set v \<and> w = CHR 0x22 # v @ [CHR 0x22])"

lemma cut_plain: "length v \<le> room \<Longrightarrow> CHR 0x22 \<notin> set v \<Longrightarrow> CHR '';'' \<notin> set v \<Longrightarrow> CHR ''#'' \<notin> set v \<Longrightarrow> cut_value v room False = v"
  by (induction v room False rule: cut_value.induct) auto

lemma trim_both: "v = [] \<or> \<not> cfg_space (hd v) \<and> \<not> cfg_space (last v) \<Longrightarrow> trim_right (trim_left v) = v"
  by (cases "v = []") (simp_all add: trim_left_idem trim_right_idem, simp add: trim_left_def trim_right_def)

lemma clean_written:
  assumes "written_as v w" and "length v < len"
  shows "clean_value (trim_right (trim_left w)) len = v"
proof (cases "plain_value v \<and> w = v")
  case True
  then have t: "trim_right (trim_left w) = v" using trim_both [of v] by (simp add: plain_value_def)
  have "v = [] \<or> hd v \<noteq> CHR 0x22" using True by (cases v) (auto simp: plain_value_def)
  moreover have "cut_value v (len - 1) False = v" using True assms(2) by (intro cut_plain) (auto simp: plain_value_def)
  moreover have "trim_right v = v" using True by (cases "v = []") (simp_all add: plain_value_def trim_right_idem, simp add: trim_right_def)
  ultimately show ?thesis unfolding t clean_value_def by auto
next
  case False
  then have w: "w = CHR 0x22 # v @ [CHR 0x22]" using assms(1) by (auto simp: written_as_def)
  have "trim_right (trim_left w) = w" by (rule trim_both) (simp add: w cfg_space_def)
  then show ?thesis using assms(2) by (simp add: w clean_value_def)
qed

section \<open>Properties\<close>

text \<open>
  C35. A setting that is saved is the setting that is read, and no other setting changes: when \<open>ag_appcfg_text_set\<close> succeeds with a value written
  plainly or between quotes, reading the key from the new text gives the value, reading any other key, be it a key that
  a line can hold or not, gives what the old text gave, and the new text with its terminator fits into the buffer.
\<close>

theorem appcfg_set_get:
  assumes "cfg_key k" and "written_as v w" and "ag_appcfg_text_set t (Some k) (Some w) outlen = Some out" and "length v < len" and "j \<noteq> k"
  shows "ag_appcfg_text_get (Some out) (Some k) len = Some v \<and>
    ag_appcfg_text_get (Some out) (Some j) len = ag_appcfg_text_get (Some (case t of None \<Rightarrow> [] | Some s \<Rightarrow> s)) (Some j) len \<and>
    length out < outlen"
proof -
  have nl: "CHR 0x0A \<notin> set w" using assms(2) by (auto simp: written_as_def plain_value_def)
  have len: "0 < len" using assms(4) by simp
  note g = get_after_set [OF assms(1) nl assms(3) len]
  have "length out < outlen" using assms(3) unfolding text_set_eq Let_def by (auto split: if_splits)
  then show ?thesis using g [of k] g [of j] assms(5) clean_written [OF assms(2,4)] by simp
qed

theorem appcfg_set_get_witness:
  "ag_appcfg_text_get (ag_appcfg_text_set (Some (''a = 1'' @ [CHR 0x0A] @ ''  path = x ; old'')) (Some ''path'') (Some (CHR 0x22 # ''C:;A:'' @ [CHR 0x22])) 64)
     (Some ''path'') 16 = Some ''C:;A:''"
proof -
  let ?t = "Some (''a = 1'' @ [CHR 0x0A] @ ''  path = x ; old'')" and ?w = "CHR 0x22 # ''C:;A:'' @ [CHR 0x22]"
  define out where "out = ''a = 1'' @ [CHR 0x0A] @ ''  path = '' @ [CHR 0x22] @ ''C:;A:'' @ [CHR 0x22, CHR 0x0A]"
  have "ag_appcfg_text_set ?t (Some ''path'') (Some ?w) 64 = Some out" unfolding out_def by code_simp
  moreover have "cfg_key ''path''" "written_as ''C:;A:'' ?w" by (simp_all add: cfg_key_def cfg_space_def written_as_def)
  ultimately show ?thesis using appcfg_set_get [of "''path''" "''C:;A:''" ?w ?t 64 out 16 "''a''"] by simp
qed

text \<open>
  A value is written as it is given. One that holds a semicolon and comes without quotes is cut at it when it is read back.
\<close>

theorem appcfg_semicolon_lost:
  "case ag_appcfg_text_set None (Some ''path'') (Some ''C:;A:'') 64 of
     None \<Rightarrow> False
   | Some out \<Rightarrow> ag_appcfg_text_get (Some out) (Some ''path'') 64 = Some ''C:''"
  by code_simp

text \<open>
  The name of the file of an application: never empty, in its bounds, and of letters, digits, underscores and hyphens only, so that no name of an
  application leads out of the directory.
\<close>

theorem appcfg_name_is_no_path:
  assumes "2 \<le> len"
  shows "ag_appcfg_file_name app len \<noteq> [] \<and> length (ag_appcfg_file_name app len) < len \<and> list_all name_char (ag_appcfg_file_name app len)"
proof -
  have a: "list_all name_char ''APP''" by code_simp
  show ?thesis
    using assms a by (auto simp: ag_appcfg_file_name_def Let_def list_all_iff dest!: in_set_takeD)
qed

theorem appcfg_name_is_no_path_witness: "ag_appcfg_file_name (Some ''../A'') 8 \<noteq> []"
  using appcfg_name_is_no_path [of 8 "Some ''../A''"] by simp

text \<open>
  Two names that differ in case and punctuation only share the file.
\<close>

theorem appcfg_names_shared:
  "ag_appcfg_file_name (Some ''my app.2'') AG_APPCFG_KEY_MAX = ag_appcfg_file_name (Some ''MyApp2'') AG_APPCFG_KEY_MAX"
  by code_simp

end
