(* ===== verification/Cfg.thy ===== *)
theory Cfg
  imports AppCfg
begin

text \<open>
  \<open>core/cfg.c\<close>: the system's configuration. The parser cuts the text up in place and its table points into it; every cut is a terminator written
  over a character that is no part of a section, key or value, so an entry is the three strings, and a text the lines it has. Numbers that the
  code computes in 64 bits and keeps below \<open>2 ^ 35\<close> are integers; line numbers and the two counters wrap at 16 bits.
\<close>

section \<open>The code\<close>

definition AG_CFG_MAX_ENTRIES :: nat where "AG_CFG_MAX_ENTRIES = 128"

record ag_cfg_entry =
  ce_section :: string
  ce_key :: string
  ce_value :: string
  ce_line :: u16

record ag_cfg =
  cf_entries :: "ag_cfg_entry list"
  cf_dropped :: u16
  cf_bad_lines :: u16

definition ini_space :: "char \<Rightarrow> bool" where
  "ini_space c \<longleftrightarrow> c = CHR '' '' \<or> c = CHR 0x09 \<or> c = CHR 0x0D \<or> c = CHR 0x0B \<or> c = CHR 0x0C"

definition skip_space :: "string \<Rightarrow> string" where
  "skip_space p = dropWhile ini_space p"

definition rtrim :: "string \<Rightarrow> string" where
  "rtrim p = rev (dropWhile ini_space (rev p))"

fun cut_comment :: "bool \<Rightarrow> string \<Rightarrow> string" where
  "cut_comment q [] = []"
| "cut_comment q (c # cs) =
     (if c = CHR 0x22 then c # cut_comment (\<not> q) cs
      else if \<not> q \<and> (c = CHR '';'' \<or> c = CHR ''#'') then []
      else c # cut_comment q cs)"

definition ini_value :: "string \<Rightarrow> string" where
  "ini_value v =
     (let t = rtrim (skip_space (cut_comment False v))
      in if length t \<ge> 2 \<and> hd t = CHR 0x22 \<and> last t = CHR 0x22 then butlast (tl t) else t)"

definition ag_cfg_reset :: ag_cfg where
  "ag_cfg_reset = \<lparr>cf_entries = [], cf_dropped = 0, cf_bad_lines = 0\<rparr>"

text \<open>\<open>strchr\<close>: what stands before a character and what behind it.\<close>

definition split_at :: "char \<Rightarrow> string \<Rightarrow> (string \<times> string) option" where
  "split_at c s = (if c \<in> set s then Some (takeWhile (\<lambda>x. x \<noteq> c) s, tl (dropWhile (\<lambda>x. x \<noteq> c) s)) else None)"

text \<open>One round of the loop: a line, the section it stands in, and its number.\<close>

definition ini_line :: "string \<times> ag_cfg \<Rightarrow> u16 \<times> string \<Rightarrow> string \<times> ag_cfg" where
  "ini_line = (\<lambda>(section, cfg) (lineno, raw).
     let line = rtrim (skip_space raw);
         bad = cfg\<lparr>cf_bad_lines := cf_bad_lines cfg + 1\<rparr>
     in if line = [] \<or> hd line = CHR '';'' \<or> hd line = CHR ''#'' then (section, cfg)
        else if hd line = CHR ''['' then
          (case split_at CHR '']'' line of None \<Rightarrow> (section, bad) | Some (a, b) \<Rightarrow> (rtrim (skip_space (tl a)), cfg))
        else
          (case (case split_at CHR ''='' line of None \<Rightarrow> split_at CHR '':'' line | Some ab \<Rightarrow> Some ab) of
             None \<Rightarrow> (section, bad)
           | Some (a, b) \<Rightarrow>
               let key = rtrim (skip_space a); val = ini_value b
               in if key = [] then (section, bad)
                  else if length (cf_entries cfg) \<ge> AG_CFG_MAX_ENTRIES then (section, cfg\<lparr>cf_dropped := cf_dropped cfg + 1\<rparr>)
                  else (section, cfg\<lparr>cf_entries := cf_entries cfg @ [\<lparr>ce_section = section, ce_key = key, ce_value = val, ce_line = lineno\<rparr>]\<rparr>)))"

fun number_lines :: "nat \<Rightarrow> string list \<Rightarrow> (u16 \<times> string) list" where
  "number_lines n [] = []"
| "number_lines n (l # ls) = (of_nat n, l) # number_lines (Suc n) ls"

definition ag_cfg_parse :: "string option \<Rightarrow> ag_cfg \<Rightarrow> ag_cfg ag_err" where
  "ag_cfg_parse text cfg =
     (case text of None \<Rightarrow> Inl AG_EINVAL | Some t \<Rightarrow> Inr (snd (foldl ini_line ([], cfg) (number_lines 1 (cfg_lines t)))))"

definition split_key :: "string \<Rightarrow> string \<times> string" where
  "split_key dotted = (case split_at CHR ''.'' dotted of None \<Rightarrow> ([], dotted) | Some sk \<Rightarrow> sk)"

definition entry_matches :: "ag_cfg_entry \<Rightarrow> string \<Rightarrow> string \<Rightarrow> bool" where
  "entry_matches e section key \<longleftrightarrow>
     length (ce_section e) = length section \<and> list_all2 (\<lambda>a b. lower a = lower b) (ce_section e) section \<and> ag_path_icmp (Some (ce_key e)) (Some key) = 0"

definition ag_cfg_get :: "ag_cfg \<Rightarrow> string option \<Rightarrow> string option \<Rightarrow> string option" where
  "ag_cfg_get cfg dotted fallback =
     (case dotted of
        None \<Rightarrow> fallback
      | Some d \<Rightarrow>
          (case split_key d of (section, key) \<Rightarrow>
             case find (\<lambda>e. entry_matches e section key) (rev (cf_entries cfg)) of None \<Rightarrow> fallback | Some e \<Rightarrow> Some (ce_value e)))"

function ag_cfg_next :: "ag_cfg \<Rightarrow> string \<Rightarrow> nat \<Rightarrow> string option \<times> nat" where
  "ag_cfg_next cfg dotted i =
     (if i < length (cf_entries cfg) then
        if entry_matches (cf_entries cfg ! i) (fst (split_key dotted)) (snd (split_key dotted)) then (Some (ce_value (cf_entries cfg ! i)), i + 1)
        else ag_cfg_next cfg dotted (i + 1)
      else (None, i))"
  by auto
termination
  by (relation "measure (\<lambda>(cfg, d, i). length (cf_entries cfg) - i)") auto

declare ag_cfg_next.simps [simp del]

section \<open>Numbers\<close>

definition int_digit :: "bool \<Rightarrow> char \<Rightarrow> int option" where
  "int_digit hex c =
     (if char_in CHR ''0'' CHR ''9'' c then Some (of_char c - of_char CHR ''0'')
      else if hex \<and> char_in CHR ''a'' CHR ''f'' c then Some (of_char c - of_char CHR ''a'' + 10)
      else if hex \<and> char_in CHR ''A'' CHR ''F'' c then Some (of_char c - of_char CHR ''A'' + 10)
      else None)"

text \<open>The loop over the digits: the number, whether there was one, and what is left; \<open>None\<close> when it grows past \<open>INT32_MAX\<close>.\<close>

fun int_digits :: "bool \<Rightarrow> string \<Rightarrow> int \<Rightarrow> bool \<Rightarrow> (int \<times> bool \<times> string) option" where
  "int_digits hex [] acc any = Some (acc, any, [])"
| "int_digits hex (c # cs) acc any =
     (case int_digit hex c of
        None \<Rightarrow> Some (acc, any, c # cs)
      | Some d \<Rightarrow> let a = acc * (if hex then 16 else 10) + d in if a > 0x7fffffff then None else int_digits hex cs a True)"

definition parse_int :: "string option \<Rightarrow> int option" where
  "parse_int text =
     (case text of
        None \<Rightarrow> None
      | Some t \<Rightarrow>
          let s = skip_space t;
              negative = (cstr_at s 0 = CHR ''-'');
              s1 = (if negative \<or> cstr_at s 0 = CHR ''+'' then tl s else s);
              hex = (cstr_at s1 0 = CHR ''0'' \<and> (cstr_at s1 1 = CHR ''x'' \<or> cstr_at s1 1 = CHR ''X''));
              s2 = (if hex then drop 2 s1 else s1)
          in case int_digits hex s2 0 False of
               None \<Rightarrow> None
             | Some (acc, any, rest) \<Rightarrow> if \<not> any \<or> skip_space rest \<noteq> [] then None else Some (if negative then - acc else acc))"

definition ag_cfg_get_int :: "ag_cfg \<Rightarrow> string option \<Rightarrow> int \<Rightarrow> int" where
  "ag_cfg_get_int cfg dotted fallback =
     (case ag_cfg_get cfg dotted None of None \<Rightarrow> fallback | Some v \<Rightarrow> (case parse_int (Some v) of None \<Rightarrow> fallback | Some n \<Rightarrow> n))"

definition ag_cfg_get_bool :: "ag_cfg \<Rightarrow> string option \<Rightarrow> bool \<Rightarrow> bool" where
  "ag_cfg_get_bool cfg dotted fallback =
     (case ag_cfg_get cfg dotted None of
        None \<Rightarrow> fallback
      | Some v \<Rightarrow>
          if v = [] then fallback
          else if list_ex (\<lambda>y. ag_path_icmp (Some v) (Some y) = 0) [''1'', ''yes'', ''y'', ''true'', ''on'', ''enabled''] then True
          else if list_ex (\<lambda>n. ag_path_icmp (Some v) (Some n) = 0) [''0'', ''no'', ''n'', ''false'', ''off'', ''disabled''] then False
          else fallback)"

text \<open>The digits of a size, at most 23 of them, up to a suffix.\<close>

definition size_suffix :: "char \<Rightarrow> bool" where
  "size_suffix c \<longleftrightarrow> c \<in> set ''kKmMgGbB''"

fun size_number :: "string \<Rightarrow> string \<Rightarrow> string \<times> string" where
  "size_number n [] = (n, [])"
| "size_number n (c # cs) =
     (if ini_space c \<or> \<not> length n + 1 < 24 then (n, c # cs)
      else if size_suffix c \<and> \<not> (length n \<ge> 2 \<and> n ! 0 = CHR ''0'' \<and> (n ! 1 = CHR ''x'' \<or> n ! 1 = CHR ''X'')) then (n, c # cs)
      else size_number (n @ [c]) cs)"

definition size_unit :: "char \<Rightarrow> int option" where
  "size_unit c =
     (if c = CHR ''k'' \<or> c = CHR ''K'' then Some 1024
      else if c = CHR ''m'' \<or> c = CHR ''M'' then Some (1024 * 1024)
      else if c = CHR ''g'' \<or> c = CHR ''G'' then Some (1024 * 1024 * 1024)
      else if c = CHR ''b'' \<or> c = CHR ''B'' \<or> c = CHR 0x00 then Some 1
      else None)"

definition ag_cfg_parse_size :: "string option \<Rightarrow> int \<Rightarrow> int" where
  "ag_cfg_parse_size text fallback =
     (case text of
        None \<Rightarrow> fallback
      | Some t \<Rightarrow>
          (case size_number [] (skip_space t) of (number, s) \<Rightarrow>
             case parse_int (Some number) of
               None \<Rightarrow> fallback
             | Some v \<Rightarrow>
                 (case size_unit (cstr_at s 0) of
                    None \<Rightarrow> fallback
                  | Some u \<Rightarrow> if v * u > 0x7fffffff \<or> v * u < - 0x80000000 then fallback else v * u)))"

definition ag_cfg_bytes :: "ag_cfg \<Rightarrow> string option \<Rightarrow> u32 \<Rightarrow> u32" where
  "ag_cfg_bytes cfg dotted fallback =
     (let n = ag_cfg_parse_size (ag_cfg_get cfg dotted None) (-1)
      in if n < 1024 \<or> n > 65536 then fallback else word_of_int n AND NOT 7)"

section \<open>What is written is what is read\<close>

text \<open>A setting as it stands in a file: under the line of its section, plainly or between quotes.\<close>

definition ini_name :: "string \<Rightarrow> bool" where
  "ini_name k \<longleftrightarrow> k \<noteq> [] \<and> \<not> ini_space (hd k) \<and> \<not> ini_space (last k) \<and> CHR 0x0A \<notin> set k"

definition ini_section :: "string \<Rightarrow> bool" where
  "ini_section s \<longleftrightarrow> (s = [] \<or> ini_name s) \<and> CHR '']'' \<notin> set s"

definition ini_key :: "string \<Rightarrow> bool" where
  "ini_key k \<longleftrightarrow> ini_name k \<and> cstr k \<and> CHR ''='' \<notin> set k \<and> hd k \<noteq> CHR '';'' \<and> hd k \<noteq> CHR ''#'' \<and> hd k \<noteq> CHR ''[''"

definition ini_written :: "string \<Rightarrow> string \<Rightarrow> bool" where
  "ini_written v w \<longleftrightarrow>
     (ini_name v \<and> CHR 0x22 \<notin> set v \<and> CHR '';'' \<notin> set v \<and> CHR ''#'' \<notin> set v \<and> w = v) \<or>
     (CHR 0x0A \<notin> set v \<and> CHR 0x22 \<notin> set v \<and> w = CHR 0x22 # v @ [CHR 0x22])"

lemma skip_idem: "s \<noteq> [] \<Longrightarrow> \<not> ini_space (hd s) \<Longrightarrow> skip_space s = s"
  by (cases s) (simp_all add: skip_space_def)

lemma rtrim_idem: "s \<noteq> [] \<Longrightarrow> \<not> ini_space (last s) \<Longrightarrow> rtrim s = s"
  by (cases s rule: rev_cases) (simp_all add: rtrim_def)

lemma trim_name: "s = [] \<or> ini_name s \<Longrightarrow> rtrim (skip_space s) = s"
  by (auto simp: ini_name_def skip_idem rtrim_idem) (simp add: rtrim_def skip_space_def)

lemma split_at_first: "c \<notin> set a \<Longrightarrow> split_at c (a @ c # b) = Some (a, b)"
  by (simp add: split_at_def takeWhile_append dropWhile_append)

lemma cut_plain_text: "CHR 0x22 \<notin> set v \<Longrightarrow> CHR '';'' \<notin> set v \<Longrightarrow> CHR ''#'' \<notin> set v \<Longrightarrow> cut_comment q v = v"
  by (induction v arbitrary: q) auto

lemma cut_quoted_text: "CHR 0x22 \<notin> set v \<Longrightarrow> cut_comment True (v @ CHR 0x22 # r) = v @ CHR 0x22 # cut_comment False r"
  by (induction v) auto

lemma written_ends: "ini_written v w \<Longrightarrow> w \<noteq> [] \<and> \<not> ini_space (hd w) \<and> \<not> ini_space (last w) \<and> CHR 0x0A \<notin> set w"
  by (auto simp: ini_written_def ini_name_def ini_space_def)

lemma value_written:
  assumes "ini_written v w"
  shows "ini_value (CHR '' '' # w) = v"
proof -
  have "cut_comment False w = w" using assms by (auto simp: ini_written_def cut_plain_text cut_quoted_text)
  then have c: "cut_comment False (CHR '' '' # w) = CHR '' '' # w" by simp
  have "skip_space (CHR '' '' # w) = w" using skip_idem [of w] written_ends [OF assms] by (simp add: skip_space_def ini_space_def)
  then have t: "rtrim (skip_space (CHR '' '' # w)) = w" using rtrim_idem [of w] written_ends [OF assms] by simp
  have "hd v \<noteq> CHR 0x22" if "w = v" using that assms written_ends [OF assms] by (cases v) (auto simp: ini_written_def)
  then show ?thesis unfolding ini_value_def Let_def c t using assms by (auto simp: ini_written_def)
qed

lemma section_line:
  assumes "ini_section s"
  shows "ini_line (sec, cfg) (n, CHR ''['' # s @ [CHR '']'']) = (s, cfg)"
proof -
  let ?l = "CHR ''['' # s @ [CHR '']'']"
  have l: "rtrim (skip_space ?l) = ?l" using skip_idem [of ?l] rtrim_idem [of ?l] by (simp add: ini_space_def)
  have "split_at CHR '']'' ((CHR ''['' # s) @ CHR '']'' # []) = Some (CHR ''['' # s, [])"
    using assms by (intro split_at_first) (auto simp: ini_section_def)
  then have sp: "split_at CHR '']'' ?l = Some (CHR ''['' # s, [])" by simp
  have "rtrim (skip_space s) = s" using assms trim_name by (simp add: ini_section_def)
  then show ?thesis unfolding ini_line_def Let_def prod.case l sp by simp
qed

lemma pair_line_read:
  assumes "ini_key k" and "ini_written v w" and "length (cf_entries cfg) < AG_CFG_MAX_ENTRIES"
  shows "ini_line (sec, cfg) (n, k @ '' = '' @ w) =
    (sec, cfg\<lparr>cf_entries := cf_entries cfg @ [\<lparr>ce_section = sec, ce_key = k, ce_value = v, ce_line = n\<rparr>]\<rparr>)"
proof -
  let ?l = "k @ '' = '' @ w"
  have k: "k \<noteq> []" "\<not> ini_space (hd k)" "\<not> ini_space (last k)" "CHR ''='' \<notin> set k" "ini_name k" using assms(1) by (simp_all add: ini_key_def ini_name_def)
  have w: "w \<noteq> []" "\<not> ini_space (last w)" using written_ends [OF assms(2)] by simp_all
  have l: "rtrim (skip_space ?l) = ?l" using skip_idem [of ?l] rtrim_idem [of ?l] k w by simp
  have "split_at CHR ''='' ((k @ '' '') @ CHR ''='' # (CHR '' '' # w)) = Some (k @ '' '', CHR '' '' # w)" using k(4) by (intro split_at_first) simp
  then have sp: "split_at CHR ''='' ?l = Some (k @ '' '', CHR '' '' # w)" by simp
  have "skip_space (k @ '' '') = k @ '' ''" using k by (intro skip_idem) simp_all
  moreover have "rtrim (k @ '' '') = rtrim k" by (simp add: rtrim_def ini_space_def)
  ultimately have key: "rtrim (skip_space (k @ '' '')) = k" using rtrim_idem [of k] k by simp
  show ?thesis unfolding ini_line_def Let_def prod.case l sp option.case key value_written [OF assms(2)] using assms(1,3) k by (simp add: ini_key_def)
qed

text \<open>Settings, and the lines and the entries they make from line \<open>n\<close> on.\<close>

type_synonym setting = "string \<times> string \<times> string \<times> string"

definition setting_ok :: "setting \<Rightarrow> bool" where
  "setting_ok = (\<lambda>(s, k, v, w). ini_section s \<and> ini_key k \<and> ini_written v w)"

definition setting_lines :: "setting list \<Rightarrow> string list" where
  "setting_lines xs = concat (map (\<lambda>(s, k, v, w). [CHR ''['' # s @ [CHR '']''], k @ '' = '' @ w]) xs)"

fun setting_entries :: "nat \<Rightarrow> setting list \<Rightarrow> ag_cfg_entry list" where
  "setting_entries n [] = []"
| "setting_entries n ((s, k, v, w) # xs) = \<lparr>ce_section = s, ce_key = k, ce_value = v, ce_line = of_nat (n + 1)\<rparr> # setting_entries (n + 2) xs"

lemma settings_read:
  "list_all setting_ok xs \<Longrightarrow> length (cf_entries cfg) + length xs \<le> AG_CFG_MAX_ENTRIES \<Longrightarrow>
    snd (foldl ini_line (sec, cfg) (number_lines n (setting_lines xs))) = cfg\<lparr>cf_entries := cf_entries cfg @ setting_entries n xs\<rparr>"
proof (induction xs arbitrary: sec cfg n)
  case Nil
  then show ?case by (simp add: setting_lines_def)
next
  case (Cons x xs)
  obtain s k v w where x: "x = (s, k, v, w)" by (cases x)
  have ok: "ini_section s" "ini_key k" "ini_written v w" using Cons.prems(1) by (simp_all add: x setting_ok_def)
  let ?cfg = "cfg\<lparr>cf_entries := cf_entries cfg @ [\<lparr>ce_section = s, ce_key = k, ce_value = v, ce_line = of_nat (n + 1)\<rparr>]\<rparr>"
  have "setting_lines (x # xs) = (CHR ''['' # s @ [CHR '']'']) # (k @ '' = '' @ w) # setting_lines xs" by (simp add: x setting_lines_def)
  then have "foldl ini_line (sec, cfg) (number_lines n (setting_lines (x # xs))) = foldl ini_line (s, ?cfg) (number_lines (n + 2) (setting_lines xs))"
    using section_line [OF ok(1), of sec cfg "of_nat n"] pair_line_read [OF ok(2,3), of cfg s "of_nat (Suc n)"] Cons.prems(2)
    by simp
  then show ?case using Cons.IH [of ?cfg s "n + 2"] Cons.prems by (simp add: x)
qed

lemma settings_no_newline: "list_all setting_ok xs \<Longrightarrow> list_all (\<lambda>l. CHR 0x0A \<notin> set l) (setting_lines xs)"
  by (induction xs)
    (auto simp: setting_lines_def setting_ok_def ini_section_def ini_key_def ini_name_def dest!: written_ends)

text \<open>Looking up.\<close>

definition same_name :: "string \<Rightarrow> string \<Rightarrow> bool" where
  "same_name a b \<longleftrightarrow> map lower a = map lower b"

lemma matches_same: "cstr (ce_key e) \<Longrightarrow> cstr key \<Longrightarrow> entry_matches e section key = (same_name (ce_section e) section \<and> same_name (ce_key e) key)"
  unfolding entry_matches_def same_name_def ag_path_icmp_def
  using icmp_loop_zero [of "ce_key e" key] by (auto simp: list_all2_conv_all_nth list_eq_iff_nth_eq)

lemma find_append: "find P (xs @ ys) = (case find P xs of None \<Rightarrow> find P ys | Some y \<Rightarrow> Some y)"
  by (induction xs) simp_all

lemma find_entries:
  "list_all setting_ok xs \<Longrightarrow> cstr key \<Longrightarrow>
    map_option ce_value (find (\<lambda>e. entry_matches e sec key) (rev (setting_entries n xs))) =
    map_option (\<lambda>(s, k, v, w). v) (find (\<lambda>(s, k, v, w). same_name s sec \<and> same_name k key) (rev xs))"
proof (induction xs arbitrary: n)
  case (Cons x xs)
  obtain s k v w where x: "x = (s, k, v, w)" by (cases x)
  let ?e = "\<lparr>ce_section = s, ce_key = k, ce_value = v, ce_line = of_nat (n + 1)\<rparr>"
  have "cstr k" using Cons.prems(1) by (simp add: x setting_ok_def ini_key_def)
  then have m: "entry_matches ?e sec key = (same_name s sec \<and> same_name k key)" using matches_same [of ?e key sec] Cons.prems(2) by simp
  have IH: "map_option ce_value (find (\<lambda>e. entry_matches e sec key) (rev (setting_entries (n + 2) xs))) =
      map_option (\<lambda>(s, k, v, w). v) (find (\<lambda>(s, k, v, w). same_name s sec \<and> same_name k key) (rev xs))"
    using Cons by simp
  have e: "rev (setting_entries n (x # xs)) = rev (setting_entries (n + 2) xs) @ [?e]" "rev (x # xs) = rev xs @ [(s, k, v, w)]" by (simp_all add: x)
  show ?case unfolding e find_append using IH m
    by (cases "find (\<lambda>e. entry_matches e sec key) (rev (setting_entries (n + 2) xs))";
        cases "find (\<lambda>(s, k, v, w). same_name s sec \<and> same_name k key) (rev xs)") simp_all
qed simp

lemma split_dotted: "CHR ''.'' \<notin> set s \<Longrightarrow> split_key (s @ CHR ''.'' # k) = (s, k)"
  by (simp add: split_key_def split_at_first)

section \<open>Properties\<close>

text \<open>
  C36. A configuration that is written is the configuration that is read: the text that puts each setting under the line of its section, its value plainly
  or between quotes, is parsed into exactly those entries, behind the ones already there and with their line numbers, and counts no line as bad
  and none as dropped while the table has room. And a later setting wins: looking up a key, in whatever case, gives the value of the last of these settings
  with that section and key, or, when there is none, what the table gave before.
\<close>

theorem cfg_written_is_read:
  assumes "list_all setting_ok xs" and "length (cf_entries cfg) + length xs \<le> AG_CFG_MAX_ENTRIES" and "CHR ''.'' \<notin> set sec" and "cstr key"
  shows "case ag_cfg_parse (Some (join_lines (setting_lines xs))) cfg of
      Inl e \<Rightarrow> False
    | Inr cfg2 \<Rightarrow>
        cfg2 = cfg\<lparr>cf_entries := cf_entries cfg @ setting_entries 1 xs\<rparr> \<and>
        ag_cfg_get cfg2 (Some (sec @ CHR ''.'' # key)) fallback =
          (case find (\<lambda>(s, k, v, w). same_name s sec \<and> same_name k key) (rev xs) of
             Some (s, k, v, w) \<Rightarrow> Some v
           | None \<Rightarrow> ag_cfg_get cfg (Some (sec @ CHR ''.'' # key)) fallback)"
proof -
  let ?cfg2 = "cfg\<lparr>cf_entries := cf_entries cfg @ setting_entries 1 xs\<rparr>"
  have "ag_cfg_parse (Some (join_lines (setting_lines xs))) cfg = Inr ?cfg2"
    using cfg_lines_join [OF settings_no_newline [OF assms(1)]] settings_read [OF assms(1,2), of "[]" 1] by (simp add: ag_cfg_parse_def)
  moreover have "ag_cfg_get ?cfg2 (Some (sec @ CHR ''.'' # key)) fallback =
      (case find (\<lambda>(s, k, v, w). same_name s sec \<and> same_name k key) (rev xs) of
         Some (s, k, v, w) \<Rightarrow> Some v | None \<Rightarrow> ag_cfg_get cfg (Some (sec @ CHR ''.'' # key)) fallback)"
    using find_entries [OF assms(1,4), of sec 1] find_append [of "\<lambda>e. entry_matches e sec key" "rev (setting_entries 1 xs)" "rev (cf_entries cfg)"]
    by (auto simp: ag_cfg_get_def split_dotted [OF assms(3)] split: option.splits)
  ultimately show ?thesis by simp
qed

theorem cfg_written_is_read_witness:
  "case ag_cfg_parse (Some (join_lines (setting_lines [(''display'', ''width'', ''320'', ''320''), ([], ''path'', ''A:;C:'', CHR 0x22 # ''A:;C:'' @ [CHR 0x22])])))
      ag_cfg_reset of
      Inl e \<Rightarrow> False
    | Inr cfg2 \<Rightarrow> ag_cfg_get cfg2 (Some ([] @ CHR ''.'' # ''PATH'')) None = Some ''A:;C:''"
proof -
  let ?xs = "[(''display'', ''width'', ''320'', ''320''), ([], ''path'', ''A:;C:'', CHR 0x22 # ''A:;C:'' @ [CHR 0x22])]"
  have "list_all setting_ok ?xs"
    by (simp add: setting_ok_def ini_section_def ini_key_def ini_name_def ini_space_def ini_written_def cstr_def)
  moreover have "length (cf_entries ag_cfg_reset) + length ?xs \<le> AG_CFG_MAX_ENTRIES" by (simp add: ag_cfg_reset_def AG_CFG_MAX_ENTRIES_def)
  moreover have "cstr ''PATH''" by (simp add: cstr_def)
  moreover have "find (\<lambda>(s, k, v, w). same_name s [] \<and> same_name k ''PATH'') (rev ?xs) = Some ([], ''path'', ''A:;C:'', CHR 0x22 # ''A:;C:'' @ [CHR 0x22])"
    by code_simp
  ultimately show ?thesis
    using cfg_written_is_read [of ?xs ag_cfg_reset "[]" "''PATH''" None] by (auto split: sum.splits)
qed

text \<open>
  A size may be followed by anything once it has its suffix.
\<close>

theorem cfg_size_garbage: "ag_cfg_parse_size (Some ''16Kxyz'') (-1) = 16384"
  by code_simp

end
