(* ===== verification/HidKbd.thy ===== *)
theory HidKbd
  imports Typing
begin

text \<open>
  \<open>dev/hidkbd.c\<close>: the reports of a keyboard, each the set of keys held, turned into presses and releases. The static variables of the file are
  the record; an event is the one the decoder of a terminal makes, without the time it carries, and a function returns the events that it hands to the
  console.
\<close>

section \<open>The code\<close>

definition KBD_KEYS :: nat where "KBD_KEYS = 6"

abbreviation MOD_CAPS :: u16 where "MOD_CAPS \<equiv> 16"
abbreviation KEY_CAPSLOCK :: u8 where "KEY_CAPSLOCK \<equiv> 0x39"

record hidkbd =
  kb_prev :: "u8 list"
  kb_caps :: u16

definition hidkbd_start :: hidkbd where
  "hidkbd_start = \<lparr>kb_prev = replicate KBD_KEYS 0, kb_caps = 0\<rparr>"

definition k_plain :: "u8 list" where
  "k_plain =
     [0x61, 0x62, 0x63, 0x64, 0x65, 0x66, 0x67, 0x68, 0x69, 0x6A, 0x6B, 0x6C, 0x6D, 0x6E, 0x6F, 0x70, 0x71, 0x72, 0x73, 0x74, 0x75, 0x76, 0x77, 0x78, 0x79, 0x7A,
      0x31, 0x32, 0x33, 0x34, 0x35, 0x36, 0x37, 0x38, 0x39, 0x30,
      0x0A, 0x1B, 0x08, 0x09, 0x20,
      0x2D, 0x3D, 0x5B, 0x5D, 0x5C, 0x23, 0x3B, 0x27, 0x60, 0x2C, 0x2E, 0x2F]"

definition k_shift :: "u8 list" where
  "k_shift =
     [0x41, 0x42, 0x43, 0x44, 0x45, 0x46, 0x47, 0x48, 0x49, 0x4A, 0x4B, 0x4C, 0x4D, 0x4E, 0x4F, 0x50, 0x51, 0x52, 0x53, 0x54, 0x55, 0x56, 0x57, 0x58, 0x59, 0x5A,
      0x21, 0x40, 0x23, 0x24, 0x25, 0x5E, 0x26, 0x2A, 0x28, 0x29,
      0x0A, 0x1B, 0x08, 0x09, 0x20,
      0x5F, 0x2B, 0x7B, 0x7D, 0x7C, 0x7E, 0x3A, 0x22, 0x7E, 0x3C, 0x3E, 0x3F]"

definition character_for :: "u8 \<Rightarrow> u16 \<Rightarrow> u32" where
  "character_for usage mods =
     (if usage < 0x04 \<or> usage > 0x38 then 0
      else
        let i = unat (usage - 0x04);
            shifted = (mods AND MOD_SHIFT \<noteq> 0);
            upper = (if mods AND MOD_CAPS \<noteq> 0 \<and> usage \<le> 0x1d then \<not> shifted else shifted)
        in ucast (if upper then k_shift ! i else k_plain ! i))"

definition mods_from :: "u8 \<Rightarrow> u16 \<Rightarrow> u16" where
  "mods_from hid_mods carried =
     (carried AND MOD_CAPS) OR (if hid_mods AND 0x22 \<noteq> 0 then MOD_SHIFT else 0) OR (if hid_mods AND 0x11 \<noteq> 0 then MOD_CTRL else 0) OR
     (if hid_mods AND 0x44 \<noteq> 0 then MOD_ALT else 0) OR (if hid_mods AND 0x88 \<noteq> 0 then MOD_GUI else 0)"

definition kbd_emit :: "ag_event_type \<Rightarrow> u8 \<Rightarrow> u16 \<Rightarrow> vt_event" where
  "kbd_emit type usage mods = ev_none\<lparr>e_type := type, e_keycode := ucast usage, e_mods := mods,
     e_unicode := (if type = AG_EV_KEY_DOWN then character_for usage mods else 0)\<rparr>"

definition in_report :: "u8 list \<Rightarrow> u8 \<Rightarrow> bool" where
  "in_report keys usage \<longleftrightarrow> usage \<in> set keys"

definition ag_hidkbd_reset :: "hidkbd \<Rightarrow> hidkbd" where
  "ag_hidkbd_reset kb = kb\<lparr>kb_prev := replicate KBD_KEYS 0\<rparr>"

text \<open>The keys that are gone, and the loop over the keys that are there.\<close>

definition released :: "u8 list \<Rightarrow> u8 list \<Rightarrow> u16 \<Rightarrow> vt_event list" where
  "released prev now mods = map (\<lambda>k. kbd_emit AG_EV_KEY_UP k mods) (filter (\<lambda>k. k > 0x03 \<and> \<not> in_report now k) prev)"

fun pressed :: "u8 list \<Rightarrow> u8 list \<Rightarrow> u16 \<Rightarrow> u16 \<Rightarrow> u16 \<times> vt_event list" where
  "pressed prev [] mods caps = (caps, [])"
| "pressed prev (k # ks) mods caps =
     (if k > 0x03 \<and> \<not> in_report prev k then
        let caps1 = (if k = KEY_CAPSLOCK then caps XOR MOD_CAPS else caps)
        in case pressed prev ks mods caps1 of (caps2, es) \<Rightarrow> (caps2, kbd_emit AG_EV_KEY_DOWN k (mods OR caps1) # es)
      else pressed prev ks mods caps)"

definition ag_hidkbd_report :: "hidkbd \<Rightarrow> u8 list option \<Rightarrow> hidkbd \<times> vt_event list" where
  "ag_hidkbd_report kb data =
     (case data of
        None \<Rightarrow> (kb, [])
      | Some d \<Rightarrow>
          if length d < 3 then (kb, [])
          else
            let n = (if length d - 2 > KBD_KEYS then KBD_KEYS else length d - 2);
                now = take n (drop 2 d) @ replicate (KBD_KEYS - n) 0;
                mods = mods_from (d ! 0) (kb_caps kb)
            in case pressed (kb_prev kb) now mods (kb_caps kb) of (caps, es) \<Rightarrow>
                 (\<lparr>kb_prev = now, kb_caps = caps\<rparr>, released (kb_prev kb) now mods @ es))"

fun kbd_run :: "hidkbd \<Rightarrow> u8 list option list \<Rightarrow> hidkbd \<times> vt_event list" where
  "kbd_run kb [] = (kb, [])"
| "kbd_run kb (d # ds) = (case ag_hidkbd_report kb d of (kb1, es) \<Rightarrow> case kbd_run kb1 ds of (kb2, fs) \<Rightarrow> (kb2, es @ fs))"

section \<open>The keys that are down\<close>

text \<open>What somebody who only sees the events believes to be held.\<close>

definition believe :: "u16 set \<Rightarrow> vt_event \<Rightarrow> u16 set" where
  "believe down e = (if e_type e = AG_EV_KEY_DOWN then insert (e_keycode e) down else if e_type e = AG_EV_KEY_UP then down - {e_keycode e} else down)"

definition real_keys :: "u8 list \<Rightarrow> u16 set" where
  "real_keys ks = (\<lambda>k. ucast k) ` {k \<in> set ks. k > 0x03}"

lemma unat_ucast_8_16: "unat (ucast (x :: u8) :: u16) = unat x"
  using unsigned_less [of x, where ?'a = nat] by (simp add: unsigned_ucast_eq take_bit_nat_eq_self)

lemma ucast_8_16 [simp]: "(ucast (x :: u8) :: u16) = ucast y \<longleftrightarrow> x = y"
  by (metis unat_ucast_8_16 word_unat_eq_iff)

lemma emit_sel [simp]: "e_type (kbd_emit t k m) = t" "e_keycode (kbd_emit t k m) = ucast k" "e_mods (kbd_emit t k m) = m"
  by (simp_all add: kbd_emit_def)

lemma believe_released: "foldl believe down (released prev now mods) = down - real_keys (filter (\<lambda>k. k \<notin> set now) prev)"
proof -
  have "foldl believe down (map (\<lambda>k. kbd_emit AG_EV_KEY_UP k mods) ks) = down - (\<lambda>k. ucast k) ` set ks" for ks :: "u8 list"
    by (induction ks arbitrary: down) (auto simp: believe_def)
  then show ?thesis by (auto simp: released_def in_report_def real_keys_def)
qed

lemma believe_pressed: "foldl believe down (snd (pressed prev now mods caps)) = down \<union> real_keys (filter (\<lambda>k. k \<notin> set prev) now)"
  by (induction prev now mods caps arbitrary: down rule: pressed.induct)
    (auto simp: believe_def real_keys_def in_report_def Let_def case_prod_beta)

lemma report_believed:
  assumes "down = real_keys (kb_prev kb)"
  shows "foldl believe down (snd (ag_hidkbd_report kb d)) = real_keys (kb_prev (fst (ag_hidkbd_report kb d)))"
  using assms unfolding ag_hidkbd_report_def
  by (auto simp: Let_def case_prod_beta believe_released believe_pressed split: option.split) (auto simp: real_keys_def)

lemma run_believed:
  "down = real_keys (kb_prev kb) \<Longrightarrow> foldl believe down (snd (kbd_run kb ds)) = real_keys (kb_prev (fst (kbd_run kb ds)))"
proof (induction ds arbitrary: kb down)
  case (Cons d ds)
  then show ?case using report_believed [OF Cons.prems, of d] by (simp add: case_prod_beta)
qed simp

text \<open>The keys of the last report that was one.\<close>

definition report_keys :: "u8 list \<Rightarrow> u8 list option \<Rightarrow> u8 list" where
  "report_keys ks d = (case d of None \<Rightarrow> ks | Some r \<Rightarrow> if length r < 3 then ks else take KBD_KEYS (drop 2 r))"

lemma report_prev: "real_keys (kb_prev kb) = real_keys ks \<Longrightarrow> real_keys (kb_prev (fst (ag_hidkbd_report kb d))) = real_keys (report_keys ks d)"
  unfolding ag_hidkbd_report_def report_keys_def
  by (auto simp: Let_def case_prod_beta real_keys_def split: option.split)

lemma run_prev: "real_keys (kb_prev kb) = real_keys ks \<Longrightarrow> real_keys (kb_prev (fst (kbd_run kb ds))) = real_keys (foldl report_keys ks ds)"
proof (induction ds arbitrary: kb ks)
  case (Cons d ds)
  show ?case using Cons.IH [OF report_prev [OF Cons.prems, of d]] by (simp add: case_prod_beta)
qed simp

section \<open>The keyboard and the terminal\<close>

text \<open>The reports of a key pressed with the shift a character needs, and of no key.\<close>

definition press_report :: "u8 \<Rightarrow> u8 list option" where
  "press_report c = (case ag_key_from_ascii c of (k, m) \<Rightarrow> Some [if m = 0 then 0 else 0x02, 0, ucast k])"

definition type_reports :: "u8 list \<Rightarrow> u8 list option list" where
  "type_reports cs = concat (map (\<lambda>c. [press_report c, Some [0, 0, 0]]) cs)"

lemma layout_table: "list_all (\<lambda>n. case ag_key_from_ascii (word_of_int n) of (k, m) \<Rightarrow>
    0x03 < (ucast k :: u8) \<and> (ucast k :: u8) \<noteq> KEY_CAPSLOCK \<and> ucast (ucast k :: u8) = k \<and> (m = 0 \<or> m = MOD_SHIFT) \<and>
    character_for (ucast k) m = ucast (word_of_int n :: u8)) [32..126]"
  by code_simp

lemma layout:
  assumes "0x20 \<le> c" and "c < 0x7f"
  obtains k m where "ag_key_from_ascii c = (ucast k, m)" and "0x03 < k" and "k \<noteq> KEY_CAPSLOCK" and "m = 0 \<or> m = MOD_SHIFT"
    and "character_for k m = ucast c"
proof -
  have "32 \<le> uint c" "uint c \<le> 126" using assms by (simp_all add: word_le_def word_less_def)
  then have t: "case ag_key_from_ascii (word_of_int (uint c)) of (k, m) \<Rightarrow>
    0x03 < (ucast k :: u8) \<and> (ucast k :: u8) \<noteq> KEY_CAPSLOCK \<and> ucast (ucast k :: u8) = k \<and> (m = 0 \<or> m = MOD_SHIFT) \<and>
    character_for (ucast k) m = ucast (word_of_int (uint c) :: u8)"
    using layout_table by (simp only: list_all_iff set_upto atLeastAtMost_iff)
  obtain a m where a: "ag_key_from_ascii c = (a, m)" by (cases "ag_key_from_ascii c")
  show thesis using that [of "ucast a" m] t a by simp
qed

lemma press_release:
  assumes "0x20 \<le> c" and "c < 0x7f"
  shows "fst (kbd_run hidkbd_start [press_report c, Some [0, 0, 0]]) = hidkbd_start"
    and "filter (\<lambda>e. e_type e = AG_EV_KEY_DOWN) (snd (kbd_run hidkbd_start [press_report c, Some [0, 0, 0]])) = [typed (ucast c)]"
proof -
  obtain k m where l: "ag_key_from_ascii c = (ucast k, m)" "0x03 < k" "k \<noteq> KEY_CAPSLOCK" "m = 0 \<or> m = MOD_SHIFT" "character_for k m = ucast c"
    by (rule layout [OF assms])
  have kz: "k \<noteq> 0" "(ucast (ucast k :: u16) :: u8) = k" using l(2) by auto (rule bit_word_eqI, simp add: bit_simps)
  let ?kb = "\<lparr>kb_prev = [k, 0, 0, 0, 0, 0], kb_caps = 0\<rparr>"
  have six: "replicate 6 (0 :: u8) = [0, 0, 0, 0, 0, 0]" "replicate 5 (0 :: u8) = [0, 0, 0, 0, 0]" by (simp_all add: numeral_eq_Suc)
  have p: "ag_hidkbd_report hidkbd_start (press_report c) = (?kb, [kbd_emit AG_EV_KEY_DOWN k m])"
    using l kz by (auto simp: press_report_def ag_hidkbd_report_def hidkbd_start_def KBD_KEYS_def Let_def mods_from_def released_def in_report_def six)
  have r: "ag_hidkbd_report ?kb (Some [0, 0, 0]) = (hidkbd_start, [kbd_emit AG_EV_KEY_UP k 0])"
    using l(2) kz by (auto simp: ag_hidkbd_report_def hidkbd_start_def KBD_KEYS_def Let_def mods_from_def released_def in_report_def six)
  have "(ucast c :: u32) < 0x80" using assms(2) by (simp add: word_less_nat_alt unat_ucast_8_32)
  moreover have "(ucast (ucast c :: u32) :: u8) = c" by (rule bit_word_eqI) (simp add: bit_simps)
  ultimately have t: "typed (ucast c) = kbd_emit AG_EV_KEY_DOWN k m" using l(1,5) by (simp add: typed_def kbd_emit_def ev_key_def)
  show "fst (kbd_run hidkbd_start [press_report c, Some [0, 0, 0]]) = hidkbd_start" using p r by simp
  show "filter (\<lambda>e. e_type e = AG_EV_KEY_DOWN) (snd (kbd_run hidkbd_start [press_report c, Some [0, 0, 0]])) = [typed (ucast c)]"
    using p r t by simp
qed

lemma kbd_run_append: "kbd_run kb (xs @ ys) = (case kbd_run kb xs of (kb1, es) \<Rightarrow> case kbd_run kb1 ys of (kb2, fs) \<Rightarrow> (kb2, es @ fs))"
  by (induction xs arbitrary: kb) (simp_all add: case_prod_beta)

lemma kbd_text:
  "list_all (\<lambda>c. 0x20 \<le> c \<and> c < 0x7f) cs \<Longrightarrow> fst (kbd_run hidkbd_start (type_reports cs)) = hidkbd_start \<and>
    filter (\<lambda>e. e_type e = AG_EV_KEY_DOWN) (snd (kbd_run hidkbd_start (type_reports cs))) = map (\<lambda>c. typed (ucast c)) cs"
proof (induction cs)
  case (Cons c cs)
  have "type_reports (c # cs) = [press_report c, Some [0, 0, 0]] @ type_reports cs" by (simp add: type_reports_def)
  then show ?case using Cons press_release [of c] kbd_run_append [of hidkbd_start "[press_report c, Some [0, 0, 0]]" "type_reports cs"]
    by (simp add: case_prod_beta del: kbd_run.simps)
qed (simp add: type_reports_def)

lemma ascii_char:
  assumes "0x20 \<le> c" and "c < 0x7f"
  shows "ag_utf8_encode (ucast c) = [c]" "typeable (ucast c)"
proof -
  have "unat c \<noteq> 127" "unat (ucast c :: u32) = unat c" using assms(2) by (auto simp: word_less_nat_alt unat_ucast_8_32)
  then show "typeable (ucast c)" using assms by (auto simp: typeable_def word_le_nat_alt word_less_nat_alt word_unat_eq_iff)
  have "(ucast (ucast c :: u32) :: u8) = c" by (rule bit_word_eqI) (simp add: bit_simps)
  then show "ag_utf8_encode (ucast c) = [c]" using assms(2) unat_ucast_8_32 [of c] by (simp add: ag_utf8_encode_def word_less_nat_alt)
qed

lemma ascii_text: "list_all (\<lambda>c. 0x20 \<le> c \<and> c < 0x7f) cs \<Longrightarrow> concat (map ag_utf8_encode (map ucast cs)) = cs \<and> list_all typeable (map ucast cs)"
  by (induction cs) (simp_all add: ascii_char)

section \<open>Properties\<close>

text \<open>
  C37. The events follow the keys: whatever reports a keyboard sends, too short, too long or the codes that mean too many keys at once among them,
  the keys that have been pressed and not released, as the events say, are exactly the keys of the last report.
\<close>

theorem kbd_held:
  "foldl believe {} (snd (kbd_run hidkbd_start ds)) = real_keys (foldl report_keys [] ds)"
proof -
  have "real_keys (kb_prev hidkbd_start) = {}" by (auto simp: real_keys_def hidkbd_start_def)
  then show ?thesis using run_believed [of "{}" hidkbd_start ds] run_prev [of hidkbd_start "[]" ds] by (simp add: real_keys_def)
qed

text \<open>
  C38. For text, nothing can tell a keyboard on the board from a terminal far away: every printable ASCII text, each character pressed with the
  key and the shift of the layout and released again, gives the presses that the decoder of the terminal gives for the same bytes, key codes, modifiers
  and characters alike, and leaves no key held.
\<close>

theorem kbd_like_terminal:
  assumes "list_all (\<lambda>c. 0x20 \<le> c \<and> c < 0x7f) cs"
  shows "filter (\<lambda>e. e_type e = AG_EV_KEY_DOWN) (snd (kbd_run hidkbd_start (type_reports cs))) = snd (feeds ag_vtin_init cs) \<and>
    fst (kbd_run hidkbd_start (type_reports cs)) = hidkbd_start"
proof -
  note a = ascii_text [OF assms]
  have "snd (feeds ag_vtin_init (concat (map ag_utf8_encode (map ucast cs)))) = map typed (map ucast cs)"
    using feed_text [of ag_vtin_init "map ucast cs"] a by (simp add: ag_vtin_init_def)
  then show ?thesis using kbd_text [OF assms] a by (simp add: comp_def)
qed

theorem kbd_like_terminal_witness:
  "filter (\<lambda>e. e_type e = AG_EV_KEY_DOWN) (snd (kbd_run hidkbd_start (type_reports [0x44, 0x69, 0x72, 0x20, 0x7C]))) =
   snd (feeds ag_vtin_init [0x44, 0x69, 0x72, 0x20, 0x7C])"
  using kbd_like_terminal [of "[0x44, 0x69, 0x72, 0x20, 0x7C]"] by simp

text \<open>
  Beyond text it shows: Enter carries a line feed from the keyboard and a carriage return from the terminal, and with Control held a
  letter carries its character from the keyboard and none from the terminal.
\<close>

theorem kbd_unlike_terminal:
  "map e_unicode (snd (ag_hidkbd_report hidkbd_start (Some [0, 0, 0x28]))) = [0x0A] \<and> map e_unicode (snd (feeds ag_vtin_init [0x0D])) = [0x0D] \<and>
   map e_unicode (snd (ag_hidkbd_report hidkbd_start (Some [0x01, 0, 0x04]))) = [0x61] \<and> map e_unicode (snd (feeds ag_vtin_init [0x01])) = [0]"
  by code_simp

end
