(* ===== verification/ConInput.thy ===== *)
theory ConInput
  imports HidKbd
begin

text \<open>
  The input side of \<open>console/console.c\<close>: what is read from the ports goes through a decoder into one queue of events, which whoever wants a key reads
  from; drivers put their events into the same queue. The static variables are a record, an endpoint another. The queue of the port layer is the list of
  what is in it; sending to a full one fails, receiving from an empty one does. The supervisor's filter is a callback, an argument here, as are the
  clock, what a transport returns when it is read, and the size of the display. The time that is stamped on an event is left out.

  No lock is held here: the console's task visits the ports while drivers and programs inject events and others read. The functions are therefore put
  together from the pieces between which something else can run (\<open>pump_look\<close>, \<open>pump_take\<close>, \<open>pump_byte\<close>, \<open>pump_done\<close>; \<open>inject_room\<close>, \<open>publish\<close>): \<open>pump_endpoint\<close>
  and \<open>ag_console_inject_event\<close> are what they do when nothing comes between, and the steps of several tasks are interleaved
  piece by piece. Of \<open>publish\<close>, the sending is what the others see of the queue; the bitmap of the keys is taken to change at the same moment.
\<close>

section \<open>The code\<close>

definition AG_CON_EVENT_QUEUE :: nat where "AG_CON_EVENT_QUEUE = 64"
definition AG_CON_READ_CHUNK :: nat where "AG_CON_READ_CHUNK = 64"
definition AG_CON_ESC_IDLE_MS :: u32 where "AG_CON_ESC_IDLE_MS = 30"
definition AG_KEY_STICKY_MS :: u32 where "AG_KEY_STICKY_MS = 150"
definition AG_CON_XOFF :: u8 where "AG_CON_XOFF = 0x13"
definition AG_CON_XON :: u8 where "AG_CON_XON = 0x11"

record con_input =
  ci_events :: "vt_event list"
  ci_dropped :: u32
  ci_mods :: u16
  ci_key_down :: "u8 list"
  ci_key_stamp :: "u32 list"
  ci_last_input :: u32

definition con_input_start :: con_input where
  "con_input_start = \<lparr>ci_events = [], ci_dropped = 0, ci_mods = 0, ci_key_down = replicate 32 0, ci_key_stamp = replicate 256 0, ci_last_input = 0\<rparr>"

record con_endpoint =
  ep_in :: ag_vtin
  ep_last_byte :: u32
  ep_paused :: bool
  ep_used :: bool

definition queue_space :: "con_input \<Rightarrow> nat" where
  "queue_space ci = AG_CON_EVENT_QUEUE - length (ci_events ci)"

text \<open>The bitmap of the keys that are down.\<close>

definition key_bit :: "u16 \<Rightarrow> u8" where
  "key_bit k = push_bit (unat (k AND 7)) 1"

definition set_key :: "u8 list \<Rightarrow> u16 \<Rightarrow> u8 list" where
  "set_key m k = m[unat (drop_bit 3 k) := (m ! unat (drop_bit 3 k)) OR key_bit k]"

definition clear_key :: "u8 list \<Rightarrow> u16 \<Rightarrow> u8 list" where
  "clear_key m k = m[unat (drop_bit 3 k) := (m ! unat (drop_bit 3 k)) AND NOT (key_bit k)]"

definition has_key :: "u8 list \<Rightarrow> u16 \<Rightarrow> bool" where
  "has_key m k \<longleftrightarrow> (m ! unat (drop_bit 3 k)) AND key_bit k \<noteq> 0"

definition note_key :: "u32 \<Rightarrow> con_input \<Rightarrow> vt_event \<Rightarrow> con_input" where
  "note_key now ci ev =
     (if e_type ev = AG_EV_KEY_DOWN then
        let ci1 = ci\<lparr>ci_mods := e_mods ev\<rparr>
        in if e_keycode ev < 256
           then ci1\<lparr>ci_key_down := set_key (ci_key_down ci) (e_keycode ev), ci_key_stamp := (ci_key_stamp ci)[unat (e_keycode ev) := now]\<rparr>
           else ci1
      else if e_type ev = AG_EV_KEY_UP \<and> e_keycode ev < 256 then ci\<lparr>ci_key_down := clear_key (ci_key_down ci) (e_keycode ev)\<rparr>
      else ci)"

definition publish :: "(vt_event \<Rightarrow> bool \<times> vt_event) \<Rightarrow> u32 \<Rightarrow> con_input \<Rightarrow> vt_event \<Rightarrow> con_input" where
  "publish hot now ci ev =
     (let ci1 = ci\<lparr>ci_last_input := now\<rparr> in
      case hot ev of (swallowed, ev1) \<Rightarrow>
        if swallowed then ci1
        else
          let ci2 = note_key now ci1 ev1
          in if length (ci_events ci2) < AG_CON_EVENT_QUEUE then ci2\<lparr>ci_events := ci_events ci2 @ [ev1]\<rparr>
             else ci2\<lparr>ci_dropped := ci_dropped ci2 + 1\<rparr>)"

text \<open>The bytes that tell a sender to stop and to go on.\<close>

definition update_flow :: "con_endpoint \<Rightarrow> bool \<Rightarrow> nat \<Rightarrow> con_endpoint \<times> u8 list" where
  "update_flow ep writable space =
     (if \<not> writable then (ep, [])
      else if \<not> ep_paused ep \<and> space \<le> AG_CON_EVENT_QUEUE div 2 then (ep\<lparr>ep_paused := True\<rparr>, [AG_CON_XOFF])
      else if ep_paused ep \<and> space \<ge> (AG_CON_EVENT_QUEUE * 3) div 4 then (ep\<lparr>ep_paused := False\<rparr>, [AG_CON_XON])
      else (ep, []))"

definition detach_endpoint :: "con_endpoint \<Rightarrow> con_endpoint" where
  "detach_endpoint ep = (if \<not> ep_used ep then ep else \<lparr>ep_in = ag_vtin_init, ep_last_byte = 0, ep_paused = False, ep_used = False\<rparr>)"

text \<open>\<open>ag_input_to_pixels\<close> of \<open>dev/input.c\<close>: from cells to pixels, the middle of the cell. The size of the display, when there is one, and of the
  screen in cells.\<close>

definition clamp_to :: "int \<Rightarrow> int \<Rightarrow> int" where
  "clamp_to v bound = (if v < 0 then 0 else if v \<ge> bound then bound - 1 else v)"

definition ag_input_to_pixels :: "(nat \<times> nat) option \<Rightarrow> nat \<times> nat \<Rightarrow> vt_event \<Rightarrow> vt_event" where
  "ag_input_to_pixels display screen ev =
     (if e_type ev \<notin> {AG_EV_POINTER_DOWN, AG_EV_POINTER_UP, AG_EV_POINTER_MOVE, AG_EV_WHEEL} then ev
      else case display of
             None \<Rightarrow> ev
           | Some (sw, sh) \<Rightarrow>
               if sw = 0 \<or> sh = 0 \<or> fst screen = 0 \<or> snd screen = 0 then ev
               else
                 let cw = int (sw div fst screen); ch = int (sh div snd screen)
                 in ev\<lparr>e_x := word_of_int (clamp_to (sint (e_x ev) * cw + cw div 2) (int sw)),
                      e_y := word_of_int (clamp_to (sint (e_y ev) * ch + ch div 2) (int sh))\<rparr>)"

text \<open>The pieces of a visit: the look at the room, with the flow control; the read; a byte; the end.\<close>

definition pump_look :: "bool \<Rightarrow> con_input \<Rightarrow> con_endpoint \<Rightarrow> nat \<times> con_endpoint \<times> u8 list" where
  "pump_look writable ci ep = (let space = queue_space ci in (space, update_flow ep writable space))"

definition pump_take :: "(nat \<Rightarrow> u8 list option) \<Rightarrow> nat \<Rightarrow> u8 list option" where
  "pump_take rd space = rd (min AG_CON_READ_CHUNK space)"

definition pump_byte :: "(vt_event \<Rightarrow> bool \<times> vt_event) \<Rightarrow> (vt_event \<Rightarrow> vt_event) \<Rightarrow> u32 \<Rightarrow> con_input \<Rightarrow> ag_vtin \<Rightarrow> u8 \<Rightarrow> con_input \<times> ag_vtin" where
  "pump_byte hot px now ci vt b =
     (case ag_vtin_feed vt b of
        (vt1, None) \<Rightarrow> (ci, vt1)
      | (vt1, Some ev) \<Rightarrow> (publish hot now ci (px ev), vt1))"

definition pump_done :: "(vt_event \<Rightarrow> bool \<times> vt_event) \<Rightarrow> u32 \<Rightarrow> bool \<Rightarrow> con_input \<Rightarrow> con_endpoint \<Rightarrow> con_input \<times> con_endpoint" where
  "pump_done hot now any ci ep =
     (if any then (ci, ep\<lparr>ep_last_byte := now\<rparr>)
      else if ag_vtin_busy (ep_in ep) \<and> now - ep_last_byte ep \<ge> AG_CON_ESC_IDLE_MS then
        (case ag_vtin_idle (ep_in ep) of
           (vt1, None) \<Rightarrow> (ci, ep\<lparr>ep_in := vt1\<rparr>)
         | (vt1, Some ev) \<Rightarrow> (publish hot now ci ev, ep\<lparr>ep_in := vt1\<rparr>))
      else (ci, ep))"

fun pump_bytes :: "(vt_event \<Rightarrow> bool \<times> vt_event) \<Rightarrow> (vt_event \<Rightarrow> vt_event) \<Rightarrow> u32 \<Rightarrow> con_input \<Rightarrow> ag_vtin \<Rightarrow> u8 list \<Rightarrow> con_input \<times> ag_vtin" where
  "pump_bytes hot px now ci vt [] = (ci, vt)"
| "pump_bytes hot px now ci vt (b # bs) = (case pump_byte hot px now ci vt b of (ci1, vt1) \<Rightarrow> pump_bytes hot px now ci1 vt1 bs)"

definition pump_endpoint ::
  "(vt_event \<Rightarrow> bool \<times> vt_event) \<Rightarrow> (vt_event \<Rightarrow> vt_event) \<Rightarrow> u32 \<Rightarrow> bool \<Rightarrow> (nat \<Rightarrow> u8 list option) option \<Rightarrow>
   con_input \<Rightarrow> con_endpoint \<Rightarrow> con_input \<times> con_endpoint \<times> u8 list \<times> nat" where
  "pump_endpoint hot px now writable reader ci ep =
     (case reader of
        None \<Rightarrow> (ci, ep, [], 0)
      | Some rd \<Rightarrow>
          (case pump_look writable ci ep of (space, ep1, sent) \<Rightarrow>
             if space = 0 then (ci, ep1, sent, 0)
             else
               case pump_take rd space of
                 None \<Rightarrow> (ci, detach_endpoint ep1, sent, 0)
               | Some chunk \<Rightarrow>
                   (case pump_bytes hot px now ci (ep_in ep1) chunk of (ci1, vt1) \<Rightarrow>
                    case pump_done hot now (chunk \<noteq> []) ci1 (ep1\<lparr>ep_in := vt1\<rparr>) of (ci2, ep2) \<Rightarrow>
                      (ci2, ep2, sent, length chunk))))"

text \<open>What a driver's event is asked before it is published.\<close>

definition inject_room :: "con_input \<Rightarrow> vt_event \<Rightarrow> bool" where
  "inject_room ci ev \<longleftrightarrow> e_type ev \<noteq> AG_EV_NONE \<and> \<not> queue_space ci < 2"

definition ag_console_inject_event :: "(vt_event \<Rightarrow> bool \<times> vt_event) \<Rightarrow> u32 \<Rightarrow> con_input \<Rightarrow> vt_event \<Rightarrow> con_input \<times> bool" where
  "ag_console_inject_event hot now ci ev = (if inject_room ci ev then (publish hot now ci ev, True) else (ci, False))"

text \<open>A read that does not wait, by a task without a queue of its own.\<close>

definition ag_console_read_event :: "con_input \<Rightarrow> con_input \<times> vt_event option" where
  "ag_console_read_event ci = (case ci_events ci of [] \<Rightarrow> (ci, None) | ev # es \<Rightarrow> (ci\<lparr>ci_events := es\<rparr>, Some ev))"

definition ag_console_peek_event :: "con_input \<Rightarrow> vt_event option" where
  "ag_console_peek_event ci = (case ci_events ci of [] \<Rightarrow> None | ev # es \<Rightarrow> Some ev)"

definition ag_console_idle_ms :: "u32 \<Rightarrow> con_input \<Rightarrow> u32" where
  "ag_console_idle_ms now ci = now - ci_last_input ci"

text \<open>The loop that empties the queue leaves it empty.\<close>

function drain_events :: "con_input \<Rightarrow> con_input" where
  "drain_events ci = (case ag_console_read_event ci of (ci1, None) \<Rightarrow> ci1 | (ci1, Some ev) \<Rightarrow> drain_events ci1)"
  by auto
termination
  by (relation "measure (\<lambda>ci. length (ci_events ci))") (auto simp: ag_console_read_event_def split: list.splits)

declare drain_events.simps [simp del]

definition ag_console_flush_input :: "con_input \<Rightarrow> con_input" where
  "ag_console_flush_input ci = (drain_events ci)\<lparr>ci_key_down := replicate 32 0\<rparr>"

definition ag_console_key_pressed :: "u32 \<Rightarrow> con_input \<Rightarrow> u16 \<Rightarrow> con_input \<times> bool" where
  "ag_console_key_pressed now ci keycode =
     (if keycode \<ge> 256 then (ci, False)
      else
        let ci1 = drain_events ci in
        if \<not> has_key (ci_key_down ci1) keycode then (ci1, False)
        else if now - ci_key_stamp ci1 ! unat keycode > AG_KEY_STICKY_MS then
          (ci1\<lparr>ci_key_down := clear_key (ci_key_down ci1) keycode\<rparr>, False)
        else (ci1, True))"

section \<open>What comes through\<close>

text \<open>What the filter leaves of an event.\<close>

definition passed :: "(vt_event \<Rightarrow> bool \<times> vt_event) \<Rightarrow> vt_event \<Rightarrow> vt_event list" where
  "passed hot ev = (case hot ev of (swallowed, ev1) \<Rightarrow> if swallowed then [] else [ev1])"

lemma note_key_keeps [simp]: "ci_events (note_key now ci ev) = ci_events ci" "ci_dropped (note_key now ci ev) = ci_dropped ci"
  by (simp_all add: note_key_def Let_def)

lemma publish_room:
  "length (ci_events ci) < AG_CON_EVENT_QUEUE \<Longrightarrow> ci_events (publish hot now ci ev) = ci_events ci @ passed hot ev"
  "length (ci_events ci) < AG_CON_EVENT_QUEUE \<Longrightarrow> ci_dropped (publish hot now ci ev) = ci_dropped ci"
  by (simp_all add: publish_def passed_def Let_def case_prod_beta)

lemma passed_length: "length (passed hot ev) \<le> 1"
  by (simp add: passed_def case_prod_beta)

lemma publish_full:
  "\<not> length (ci_events ci) < AG_CON_EVENT_QUEUE \<Longrightarrow> ci_events (publish hot now ci ev) = ci_events ci"
  by (simp add: publish_def Let_def case_prod_beta)

section \<open>Several tasks\<close>

text \<open>
  One task visits the ports, a piece at a time; between any two pieces drivers ask whether there is room, publish what they were told there is room
  for, and readers read. The history notes each event that is sent, from a port or by a driver, with whether the queue took it, and each that is read. \<open>cw_due\<close> is
  what the bytes taken from the ports decode to, as far as the filter leaves it.
\<close>

datatype con_stage = Looked nat | Reading "u8 list" bool

datatype con_log = LogGot vt_event | LogTyped vt_event bool | LogInjected vt_event bool

record con_world =
  cw_in :: con_input
  cw_ports :: "con_endpoint list"
  cw_visit :: "(nat \<times> con_stage) option"
  cw_offers :: "vt_event list"
  cw_log :: "con_log list"
  cw_due :: "vt_event list"

datatype con_op =
    ConLook nat bool | ConTake "nat \<Rightarrow> u8 list option" | ConByte u32 | ConDone u32
  | ConOffer vt_event | ConPut nat u32 | ConRead

definition con_start :: "con_endpoint list \<Rightarrow> con_world" where
  "con_start ports = \<lparr>cw_in = con_input_start, cw_ports = ports, cw_visit = None, cw_offers = [], cw_log = [], cw_due = []\<rparr>"

definition log_of :: "(vt_event \<Rightarrow> bool \<Rightarrow> con_log) \<Rightarrow> (vt_event \<Rightarrow> bool \<times> vt_event) \<Rightarrow> con_input \<Rightarrow> vt_event \<Rightarrow> con_log list" where
  "log_of f hot ci ev = map (\<lambda>e. f e (length (ci_events ci) < AG_CON_EVENT_QUEUE)) (passed hot ev)"

definition events_due :: "(vt_event \<Rightarrow> bool \<times> vt_event) \<Rightarrow> (vt_event \<Rightarrow> vt_event) \<Rightarrow> ag_vtin \<Rightarrow> u8 list \<Rightarrow> vt_event list" where
  "events_due hot px vt bs = concat (map (\<lambda>e. passed hot (px e)) (snd (feeds vt bs)))"

text \<open>The event that the end of a visit publishes, if any.\<close>

definition idle_event :: "u32 \<Rightarrow> bool \<Rightarrow> con_endpoint \<Rightarrow> vt_event option" where
  "idle_event now any ep =
     (if \<not> any \<and> ag_vtin_busy (ep_in ep) \<and> now - ep_last_byte ep \<ge> AG_CON_ESC_IDLE_MS then snd (ag_vtin_idle (ep_in ep)) else None)"

fun con_step :: "(vt_event \<Rightarrow> bool \<times> vt_event) \<Rightarrow> (vt_event \<Rightarrow> vt_event) \<Rightarrow> con_world \<Rightarrow> con_op \<Rightarrow> con_world" where
  "con_step hot px w (ConLook i writable) =
     (if cw_visit w = None \<and> i < length (cw_ports w) \<and> ep_used (cw_ports w ! i) then
        case pump_look writable (cw_in w) (cw_ports w ! i) of (space, ep, sent) \<Rightarrow>
          w\<lparr>cw_ports := (cw_ports w)[i := ep], cw_visit := (if space = 0 then None else Some (i, Looked space))\<rparr>
      else w)"
| "con_step hot px w (ConTake rd) =
     (case cw_visit w of
        Some (i, Looked space) \<Rightarrow>
          (case pump_take rd space of
             None \<Rightarrow> w\<lparr>cw_ports := (cw_ports w)[i := detach_endpoint (cw_ports w ! i)], cw_visit := None\<rparr>
           | Some chunk \<Rightarrow>
               w\<lparr>cw_visit := Some (i, Reading chunk (chunk \<noteq> [])), cw_due := cw_due w @ events_due hot px (ep_in (cw_ports w ! i)) chunk\<rparr>)
      | _ \<Rightarrow> w)"
| "con_step hot px w (ConByte now) =
     (case cw_visit w of
        Some (i, Reading (b # bs) any) \<Rightarrow>
          let ep = cw_ports w ! i in
          (case pump_byte hot px now (cw_in w) (ep_in ep) b of (ci, vt) \<Rightarrow>
             w\<lparr>cw_in := ci, cw_ports := (cw_ports w)[i := ep\<lparr>ep_in := vt\<rparr>], cw_visit := Some (i, Reading bs any),
               cw_log := cw_log w @ (case snd (ag_vtin_feed (ep_in ep) b) of None \<Rightarrow> [] | Some ev \<Rightarrow> log_of LogTyped hot (cw_in w) (px ev))\<rparr>)
      | _ \<Rightarrow> w)"
| "con_step hot px w (ConDone now) =
     (case cw_visit w of
        Some (i, Reading [] any) \<Rightarrow>
          let ep = cw_ports w ! i in
          (case pump_done hot now any (cw_in w) ep of (ci, ep1) \<Rightarrow>
             case (case idle_event now any ep of None \<Rightarrow> ([], []) | Some ev \<Rightarrow> (passed hot ev, log_of LogTyped hot (cw_in w) ev)) of (evs, l) \<Rightarrow>
               w\<lparr>cw_in := ci, cw_ports := (cw_ports w)[i := ep1], cw_visit := None, cw_log := cw_log w @ l, cw_due := cw_due w @ evs\<rparr>)
      | _ \<Rightarrow> w)"
| "con_step hot px w (ConOffer ev) = (if inject_room (cw_in w) ev then w\<lparr>cw_offers := cw_offers w @ [ev]\<rparr> else w)"
| "con_step hot px w (ConPut k now) =
     (if k < length (cw_offers w) then
        w\<lparr>cw_in := publish hot now (cw_in w) (cw_offers w ! k), cw_offers := take k (cw_offers w) @ drop (Suc k) (cw_offers w),
          cw_log := cw_log w @ log_of LogInjected hot (cw_in w) (cw_offers w ! k)\<rparr>
      else w)"
| "con_step hot px w ConRead =
     (case ag_console_read_event (cw_in w) of
        (ci, None) \<Rightarrow> w\<lparr>cw_in := ci\<rparr>
      | (ci, Some ev) \<Rightarrow> w\<lparr>cw_in := ci, cw_log := cw_log w @ [LogGot ev]\<rparr>)"

text \<open>A transport returns no more bytes than it was asked for.\<close>

fun con_honest :: "con_op \<Rightarrow> bool" where
  "con_honest (ConTake rd) \<longleftrightarrow> (\<forall>n bs. rd n = Some bs \<longrightarrow> length bs \<le> n)"
| "con_honest op \<longleftrightarrow> True"

text \<open>What a history says: what was read; what the queue took, in order; what came from the ports, taken or not; how much of that was lost; and
  how many events of drivers the queue took.\<close>

definition log_got :: "con_log list \<Rightarrow> vt_event list" where
  "log_got l = concat (map (\<lambda>x. case x of LogGot e \<Rightarrow> [e] | _ \<Rightarrow> []) l)"

definition log_sent :: "con_log list \<Rightarrow> vt_event list" where
  "log_sent l = concat (map (\<lambda>x. case x of LogTyped e ok \<Rightarrow> if ok then [e] else [] | LogInjected e ok \<Rightarrow> if ok then [e] else [] | LogGot e \<Rightarrow> []) l)"

definition log_typed :: "con_log list \<Rightarrow> vt_event list" where
  "log_typed l = concat (map (\<lambda>x. case x of LogTyped e ok \<Rightarrow> [e] | _ \<Rightarrow> []) l)"

definition log_lost :: "con_log list \<Rightarrow> nat" where
  "log_lost l = length (filter (\<lambda>x. case x of LogTyped e ok \<Rightarrow> \<not> ok | _ \<Rightarrow> False) l)"

definition log_injected :: "con_log list \<Rightarrow> nat" where
  "log_injected l = length (filter (\<lambda>x. case x of LogInjected e ok \<Rightarrow> ok | _ \<Rightarrow> False) l)"

lemmas log_defs = log_got_def log_sent_def log_typed_def log_lost_def log_injected_def

text \<open>What the bytes still to be gone through decode to, and how many events a visit may still send.\<close>

definition still_due :: "(vt_event \<Rightarrow> bool \<times> vt_event) \<Rightarrow> (vt_event \<Rightarrow> vt_event) \<Rightarrow> con_world \<Rightarrow> vt_event list" where
  "still_due hot px w = (case cw_visit w of Some (i, Reading bs any) \<Rightarrow> events_due hot px (ep_in (cw_ports w ! i)) bs | _ \<Rightarrow> [])"

fun may_send :: "con_stage \<Rightarrow> nat" where
  "may_send (Looked n) = n"
| "may_send (Reading bs any) = (if any then length bs else 1)"

definition con_ok :: "(vt_event \<Rightarrow> bool \<times> vt_event) \<Rightarrow> (vt_event \<Rightarrow> vt_event) \<Rightarrow> con_world \<Rightarrow> bool" where
  "con_ok hot px w \<longleftrightarrow>
     length (ci_events (cw_in w)) \<le> AG_CON_EVENT_QUEUE \<and>
     log_got (cw_log w) @ ci_events (cw_in w) = log_sent (cw_log w) \<and>
     log_typed (cw_log w) @ still_due hot px w = cw_due w \<and>
     log_lost (cw_log w) \<le> log_injected (cw_log w) \<and>
     (case cw_visit w of
        None \<Rightarrow> True
      | Some (i, st) \<Rightarrow>
          i < length (cw_ports w) \<and> (case st of Looked n \<Rightarrow> 0 < n | Reading bs any \<Rightarrow> any \<or> bs = []) \<and>
          length (ci_events (cw_in w)) + may_send st + log_lost (cw_log w) \<le> AG_CON_EVENT_QUEUE + log_injected (cw_log w))"

lemma log_append [simp]:
  "log_got (l @ m) = log_got l @ log_got m" "log_sent (l @ m) = log_sent l @ log_sent m" "log_typed (l @ m) = log_typed l @ log_typed m"
  "log_lost (l @ m) = log_lost l + log_lost m" "log_injected (l @ m) = log_injected l + log_injected m"
  by (simp_all add: log_defs)

lemma log_single [simp]:
  "log_got [] = []" "log_sent [] = []" "log_typed [] = []" "log_lost [] = 0" "log_injected [] = 0"
  "log_got [LogGot e] = [e]" "log_sent [LogGot e] = []" "log_typed [LogGot e] = []" "log_lost [LogGot e] = 0" "log_injected [LogGot e] = 0"
  by (simp_all add: log_defs)

text \<open>What publishing does, as the history notes it.\<close>

lemma passed_cases: "passed hot ev = [] \<or> (\<exists>e. passed hot ev = [e])"
  by (simp add: passed_def case_prod_beta)

lemma publish_logged:
  fixes ci
  defines "ok \<equiv> length (ci_events ci) < AG_CON_EVENT_QUEUE"
  shows "ci_events (publish hot now ci ev) = ci_events ci @ (if ok then passed hot ev else [])"
    "log_sent (log_of LogTyped hot ci ev) = (if ok then passed hot ev else [])" "log_sent (log_of LogInjected hot ci ev) = (if ok then passed hot ev else [])"
    "log_typed (log_of LogTyped hot ci ev) = passed hot ev" "log_typed (log_of LogInjected hot ci ev) = []"
    "log_lost (log_of LogTyped hot ci ev) = (if ok then 0 else length (passed hot ev))" "log_lost (log_of LogInjected hot ci ev) = 0"
    "log_injected (log_of LogTyped hot ci ev) = 0" "log_injected (log_of LogInjected hot ci ev) = (if ok then length (passed hot ev) else 0)"
    "log_got (log_of LogTyped hot ci ev) = []" "log_got (log_of LogInjected hot ci ev) = []"
  using passed_cases [of hot ev] publish_room(1) [of ci hot now ev] publish_full [of ci hot now ev]
  by (auto simp: log_of_def log_defs ok_def)

lemma due_Cons:
  "events_due hot px vt (b # bs) =
     (case snd (ag_vtin_feed vt b) of None \<Rightarrow> [] | Some ev \<Rightarrow> passed hot (px ev)) @ events_due hot px (fst (ag_vtin_feed vt b)) bs"
  by (simp add: events_due_def case_prod_beta split: option.split)

lemma due_Nil [simp]: "events_due hot px vt [] = []"
  by (simp add: events_due_def)

lemma update_flow_keeps [simp]: "ep_in (fst (update_flow ep w n)) = ep_in ep" "ep_last_byte (fst (update_flow ep w n)) = ep_last_byte ep"
  by (simp_all add: update_flow_def)

text \<open>Sending an event of a port: what it costs was set aside when the room was looked at, but for what drivers sent since.\<close>

lemma typed_sent:
  assumes "length (ci_events ci) \<le> AG_CON_EVENT_QUEUE" and "log_got l @ ci_events ci = log_sent l" and "log_lost l \<le> log_injected l"
    and "length (ci_events ci) + Suc k + log_lost l \<le> AG_CON_EVENT_QUEUE + log_injected l"
    and ci1_def: "ci1 = publish hot now ci ev" and l1_def: "l1 = l @ log_of LogTyped hot ci ev"
  shows "length (ci_events ci1) \<le> AG_CON_EVENT_QUEUE" "log_got l1 @ ci_events ci1 = log_sent l1" "log_lost l1 \<le> log_injected l1"
    "length (ci_events ci1) + k + log_lost l1 \<le> AG_CON_EVENT_QUEUE + log_injected l1" "log_typed l1 = log_typed l @ passed hot ev"
proof -
  note p = publish_logged [where hot = hot and ci = ci and ev = ev] and q = passed_length [of hot ev]
  show "length (ci_events ci1) \<le> AG_CON_EVENT_QUEUE" using assms(1) p q by (auto simp: ci1_def)
  show "log_got l1 @ ci_events ci1 = log_sent l1" using assms(2) p by (simp add: ci1_def l1_def append_assoc [symmetric] del: append_assoc)
  show "log_lost l1 \<le> log_injected l1" "length (ci_events ci1) + k + log_lost l1 \<le> AG_CON_EVENT_QUEUE + log_injected l1"
    using assms(1,3,4) p q by (auto simp: ci1_def l1_def)
  show "log_typed l1 = log_typed l @ passed hot ev" using p by (simp add: l1_def)
qed

lemma step_look: "con_ok hot px w \<Longrightarrow> con_ok hot px (con_step hot px w (ConLook i writable))"
  by (auto simp: con_ok_def pump_look_def queue_space_def still_due_def Let_def case_prod_beta)

lemma step_take:
  assumes "con_ok hot px w" and "con_honest (ConTake rd)"
  shows "con_ok hot px (con_step hot px w (ConTake rd))"
proof (cases "cw_visit w")
  case (Some v)
  obtain i st where v: "v = (i, st)" by (cases v)
  show ?thesis
  proof (cases st)
    case (Looked n)
    have b: "length bs \<le> n" "0 < n" if "pump_take rd n = Some bs" for bs
    proof -
      have "length bs \<le> min AG_CON_READ_CHUNK n" using assms(2) that unfolding pump_take_def con_honest.simps by blast
      then show "length bs \<le> n" by simp
      show "0 < n" using assms(1) Some v Looked by (simp add: con_ok_def)
    qed
    show ?thesis
    proof (cases "pump_take rd n")
      case None
      then show ?thesis using assms(1) Some v Looked by (simp add: con_ok_def still_due_def)
    next
      case (Some bs)
      then show ?thesis using assms(1) \<open>cw_visit w = Some v\<close> v Looked b [OF Some] by (auto simp: con_ok_def still_due_def)
    qed
  qed (use assms Some v in simp)
qed (use assms in simp)

lemma step_byte:
  assumes "con_ok hot px w"
  shows "con_ok hot px (con_step hot px w (ConByte now))"
proof (cases "\<exists>i b bs any. cw_visit w = Some (i, Reading (b # bs) any)")
  case True
  then obtain i b bs any where v: "cw_visit w = Some (i, Reading (b # bs) any)" by blast
  let ?ep = "cw_ports w ! i"
  have i: "i < length (cw_ports w)" and any: "any" using assms v by (auto simp: con_ok_def)
  have inv: "length (ci_events (cw_in w)) \<le> AG_CON_EVENT_QUEUE" "log_got (cw_log w) @ ci_events (cw_in w) = log_sent (cw_log w)"
    "log_lost (cw_log w) \<le> log_injected (cw_log w)" "log_typed (cw_log w) @ events_due hot px (ep_in ?ep) (b # bs) = cw_due w"
    "length (ci_events (cw_in w)) + Suc (length bs) + log_lost (cw_log w) \<le> AG_CON_EVENT_QUEUE + log_injected (cw_log w)"
    using assms v any by (simp_all add: con_ok_def still_due_def)
  obtain vt e where f: "ag_vtin_feed (ep_in ?ep) b = (vt, e)" by (cases "ag_vtin_feed (ep_in ?ep) b")
  show ?thesis
  proof (cases e)
    case None
    then show ?thesis using inv i v f any by (simp add: con_ok_def still_due_def pump_byte_def due_Cons)
  next
    case (Some ev)
    note t = typed_sent [where hot = hot and ev = "px ev", OF inv(1-3,5) refl refl]
    show ?thesis using t inv(4) i v f any Some by (simp add: con_ok_def still_due_def pump_byte_def due_Cons del: log_append)
  qed
next
  case False
  then have "con_step hot px w (ConByte now) = w" by (auto split: option.splits con_stage.splits list.splits)
  then show ?thesis using assms by simp
qed

lemma done_publishes:
  "fst (pump_done hot now any ci ep) = (case idle_event now any ep of None \<Rightarrow> ci | Some ev \<Rightarrow> publish hot now ci ev)"
  by (auto simp: pump_done_def idle_event_def case_prod_beta split: option.splits prod.splits)

lemma step_done:
  assumes "con_ok hot px w"
  shows "con_ok hot px (con_step hot px w (ConDone now))"
proof (cases "\<exists>i any. cw_visit w = Some (i, Reading [] any)")
  case True
  then obtain i any where v: "cw_visit w = Some (i, Reading [] any)" by blast
  let ?ep = "cw_ports w ! i"
  have inv: "length (ci_events (cw_in w)) \<le> AG_CON_EVENT_QUEUE" "log_got (cw_log w) @ ci_events (cw_in w) = log_sent (cw_log w)"
    "log_lost (cw_log w) \<le> log_injected (cw_log w)" "log_typed (cw_log w) = cw_due w"
    "\<not> any \<Longrightarrow> length (ci_events (cw_in w)) + Suc 0 + log_lost (cw_log w) \<le> AG_CON_EVENT_QUEUE + log_injected (cw_log w)"
    using assms v by (simp_all add: con_ok_def still_due_def)
  obtain ci ep1 where d: "pump_done hot now any (cw_in w) ?ep = (ci, ep1)" by (cases "pump_done hot now any (cw_in w) ?ep")
  have ci: "ci = (case idle_event now any ?ep of None \<Rightarrow> cw_in w | Some ev \<Rightarrow> publish hot now (cw_in w) ev)"
    using done_publishes [of hot now any "cw_in w" ?ep] d by simp
  show ?thesis
  proof (cases "idle_event now any ?ep")
    case None
    then show ?thesis using inv v d ci by (simp add: con_ok_def still_due_def Let_def)
  next
    case (Some ev)
    then have "\<not> any" by (auto simp: idle_event_def split: if_splits)
    note t = typed_sent [where hot = hot and ev = ev, OF inv(1-3) inv(5) [OF this] refl refl]
    show ?thesis using t inv(4) v d ci Some by (simp add: con_ok_def still_due_def Let_def del: log_append)
  qed
next
  case False
  then have "con_step hot px w (ConDone now) = w" by (auto split: option.splits con_stage.splits list.splits)
  then show ?thesis using assms by simp
qed

lemma step_put:
  assumes "con_ok hot px w"
  shows "con_ok hot px (con_step hot px w (ConPut k now))"
proof (cases "k < length (cw_offers w)")
  case True
  let ?ev = "cw_offers w ! k"
  note p = publish_logged [where hot = hot and ci = "cw_in w" and ev = ?ev] and q = passed_length [of hot ?ev]
  have g: "log_got (cw_log w) @ ci_events (cw_in w) @ x = log_sent (cw_log w) @ x" for x
    using assms by (simp add: con_ok_def append_assoc [symmetric] del: append_assoc)
  show ?thesis using assms True p q g by (auto simp: con_ok_def still_due_def split: option.splits)
qed (use assms in simp)

lemma step_read: "con_ok hot px w \<Longrightarrow> con_ok hot px (con_step hot px w ConRead)"
  by (auto simp: con_ok_def still_due_def ag_console_read_event_def split: list.splits option.splits)

lemma step_ok: "con_ok hot px w \<Longrightarrow> con_honest op \<Longrightarrow> con_ok hot px (con_step hot px w op)"
proof (cases op)
  case (ConOffer ev)
  then show "con_ok hot px w \<Longrightarrow> ?thesis" by (auto simp: con_ok_def still_due_def split: option.splits)
qed (simp_all only: step_look step_take step_byte step_done step_put step_read)

lemma run_ok: "con_ok hot px w \<Longrightarrow> list_all con_honest ops \<Longrightarrow> con_ok hot px (foldl (con_step hot px) w ops)"
  by (induction ops arbitrary: w) (simp_all add: step_ok)

section \<open>The keys that are held\<close>

lemma has_key_bit: "has_key m k = bit (m ! unat (drop_bit 3 k)) (unat (k AND 7))"
  by (simp add: has_key_def key_bit_def bit_iff_and_push_bit_not_eq_0)

lemma low_bits: "unat (k AND 7) < 8" for k :: u16
proof -
  have "k AND 7 = take_bit 3 k" by (simp add: take_bit_eq_mask mask_eq_exp_minus_1)
  then show ?thesis using take_bit_nat_less_exp [of 3 "unat k"] by (simp add: unsigned_take_bit_eq)
qed

lemma key_place: "k < 256 \<Longrightarrow> unat (drop_bit 3 k) < 32" for k :: u16
proof -
  assume "k < 256"
  then have "unat k < 256" by (simp add: word_less_nat_alt)
  moreover have "unat (drop_bit 3 k) = unat k div 8"
    using unsigned_less [of k, where ?'a = nat] unfolding unsigned_drop_bit_eq by (simp add: drop_bit_eq_div take_bit_nat_eq_self)
  ultimately show ?thesis by simp
qed

lemma same_key: "drop_bit 3 k = drop_bit 3 j \<Longrightarrow> k AND 7 = j AND 7 \<Longrightarrow> k = (j :: u16)"
proof -
  assume a: "drop_bit 3 k = drop_bit 3 j" "k AND 7 = j AND 7"
  have "x = push_bit 3 (drop_bit 3 x) OR take_bit 3 x" for x :: u16 by (rule bit_word_eqI) (auto simp: bit_simps)
  moreover have "x AND 7 = take_bit 3 x" for x :: u16 by (simp add: take_bit_eq_mask mask_eq_exp_minus_1)
  ultimately show ?thesis using a by metis
qed

lemma bit_one: "bit (2 ^ n :: u8) i = (i = n \<and> n < 8)"
  by (auto simp: bit_simps)

lemma has_set_key: "length m = 32 \<Longrightarrow> k < 256 \<Longrightarrow> j < 256 \<Longrightarrow> has_key (set_key m k) j = (j = k \<or> has_key m j)"
  using key_place [of k] key_place [of j] low_bits [of k] low_bits [of j] same_key [of j k]
  by (cases "drop_bit 3 j = drop_bit 3 k")
    (auto simp: has_key_bit set_key_def key_bit_def bit_or_iff bit_one word_unat_eq_iff [symmetric] nth_list_update)

lemma has_clear_key: "length m = 32 \<Longrightarrow> k < 256 \<Longrightarrow> j < 256 \<Longrightarrow> has_key (clear_key m k) j = (j \<noteq> k \<and> has_key m j)"
  using key_place [of k] key_place [of j] low_bits [of k] low_bits [of j] same_key [of j k]
  by (cases "drop_bit 3 j = drop_bit 3 k")
    (auto simp: has_key_bit clear_key_def key_bit_def bit_and_iff bit_not_iff bit_one word_unat_eq_iff [symmetric] nth_list_update)

lemma drained: "drain_events ci = ci\<lparr>ci_events := []\<rparr>"
proof (induction "ci_events ci" arbitrary: ci)
  case Nil
  then show ?case using drain_events.simps [of ci] by (simp add: ag_console_read_event_def)
next
  case (Cons e es)
  have "drain_events ci = drain_events (ci\<lparr>ci_events := es\<rparr>)" using drain_events.simps [of ci] Cons(2) [symmetric] by (simp add: ag_console_read_event_def)
  then show ?case using Cons(1) [of "ci\<lparr>ci_events := es\<rparr>"] by simp
qed

section \<open>Properties\<close>

text \<open>
  C39. What is typed reaches a reader, in order, or is lost to a driver's event. However the pieces of the visits to the ports, of the drivers' calls
  and of the reads are interleaved, with transports that return at most what they are asked for and whatever the supervisor's filter takes: the queue stays
  within its 64 places; what was read and what still waits is, in order, what the queue took; what was sent from the ports, with what the bytes
  in hand still decode to, is in order exactly what the bytes taken from the ports decode to, nothing left out and nothing twice; and no more of
  it was refused by the full queue than events of drivers were taken. Where no driver sends, then, nothing that is typed is lost.
\<close>

theorem con_stream:
  assumes "list_all con_honest ops" and "w = foldl (con_step hot (ag_input_to_pixels display screen)) (con_start ports) ops"
  shows "length (ci_events (cw_in w)) \<le> AG_CON_EVENT_QUEUE \<and>
    log_got (cw_log w) @ ci_events (cw_in w) = log_sent (cw_log w) \<and>
    log_typed (cw_log w) @ still_due hot (ag_input_to_pixels display screen) w = cw_due w \<and>
    log_lost (cw_log w) \<le> log_injected (cw_log w)"
proof -
  have "con_ok hot px (con_start ports)" for px by (simp add: con_ok_def con_start_def con_input_start_def still_due_def)
  from run_ok [OF this assms(1)] show ?thesis unfolding assms(2) con_ok_def by blast
qed

theorem con_stream_witness:
  "let w = foldl (con_step (\<lambda>e. (False, e)) (ag_input_to_pixels None (80, 25))) (con_start [\<lparr>ep_in = ag_vtin_init, ep_last_byte = 0, ep_paused = False, ep_used = True\<rparr>])
     [ConLook 0 True, ConOffer (ev_key KEY_UP 0 0), ConTake (\<lambda>n. Some (take n [0x1B, 0x5B, 0x41, 0x78])), ConByte 5, ConPut 0 5, ConByte 5, ConByte 5, ConRead]
   in log_got (cw_log w) @ ci_events (cw_in w) = log_sent (cw_log w) \<and> log_lost (cw_log w) \<le> log_injected (cw_log w)"
  unfolding Let_def by (rule con_stream [THEN conjunct2, THEN conjunct1, THEN conjI, OF _ refl con_stream [THEN conjunct2, THEN conjunct2, THEN conjunct2, OF _ refl]]) simp_all

text \<open>
  The loss does happen: a port is asked for 64 bytes because the queue is empty, a driver's event comes in while they are gone through, and the last of them is
  refused.
\<close>

theorem con_typed_lost:
  "log_lost (cw_log (foldl (con_step (\<lambda>e. (False, e)) id) (con_start [\<lparr>ep_in = ag_vtin_init, ep_last_byte = 0, ep_paused = False, ep_used = True\<rparr>])
     ([ConLook 0 True, ConOffer (ev_key KEY_UP 0 0), ConTake (\<lambda>n. Some (replicate n 0x78)), ConPut 0 5] @ replicate 64 (ConByte 5)))) = 1"
  by code_simp

text \<open>
  C40. A driver's press can be let in without room for its release. With two places left the press is accepted, and the release that follows it is refused,
  although the two places are kept so that this does not happen: the key stays down for everybody, and a driver that does not offer the event again has
  lost it.
\<close>

theorem con_release_refused:
  assumes "queue_space ci = 2" and "length (ci_key_down ci) = 32" and "k < 256" and "\<And>e. hot e = (False, e)"
    and "down = ev_key_typed AG_EV_KEY_DOWN k u m" and "up = ev_key_typed AG_EV_KEY_UP k 0 m"
    and "ci1 = fst (ag_console_inject_event hot now ci down)"
  shows "snd (ag_console_inject_event hot now ci down) \<and> ag_console_inject_event hot later ci1 up = (ci1, False) \<and> has_key (ci_key_down ci1) k"
proof -
  have t: "e_type down = AG_EV_KEY_DOWN" "e_keycode down = k" "e_type up = AG_EV_KEY_UP"
    by (simp_all add: assms(5,6) ev_key_typed_def)
  have r: "length (ci_events ci) < AG_CON_EVENT_QUEUE" "length (ci_events ci) + 2 = AG_CON_EVENT_QUEUE" using assms(1) by (simp_all add: queue_space_def)
  have i: "ag_console_inject_event hot now ci down = (publish hot now ci down, True)" using assms(1) t by (simp add: ag_console_inject_event_def inject_room_def)
  then have c: "ci1 = publish hot now ci down" using assms(7) by simp
  have "queue_space ci1 < 2" using publish_room(1) [OF r(1), of hot now down] r(2) assms(4) by (simp add: c queue_space_def passed_def)
  then have "ag_console_inject_event hot later ci1 up = (ci1, False)" using t by (simp add: ag_console_inject_event_def inject_room_def)
  moreover have "ci_key_down ci1 = set_key (ci_key_down ci) k"
    using assms(3,4) r(1) t by (simp add: c publish_def note_key_def Let_def)
  then have "has_key (ci_key_down ci1) k" using has_set_key [OF assms(2,3,3)] by simp
  ultimately show ?thesis using i by simp
qed

theorem con_release_refused_witness:
  "let hot = (\<lambda>e :: vt_event. (False, e));
       ci = con_input_start\<lparr>ci_events := replicate 62 (ev_key KEY_A 0x61 0)\<rparr>;
       ci1 = fst (ag_console_inject_event hot 0 ci (ev_key_typed AG_EV_KEY_DOWN KEY_UP 0 0))
   in ag_console_inject_event hot 9 ci1 (ev_key_typed AG_EV_KEY_UP KEY_UP 0 0) = (ci1, False)"
  unfolding Let_def
  using con_release_refused [of "con_input_start\<lparr>ci_events := replicate 62 (ev_key KEY_A 0x61 0)\<rparr>" KEY_UP "\<lambda>e. (False, e)", OF _ _ _ _ refl refl refl,
    of 0 0 0 9]
  by (simp add: con_input_start_def queue_space_def AG_CON_EVENT_QUEUE_def)

text \<open>
  What a game sees of the keyboard: after a press the key reads as held until its release is published or 150 milliseconds have gone by without
  another press, and no other key is affected.
\<close>

theorem con_key_held:
  assumes "length (ci_key_down ci) = 32" and "length (ci_key_stamp ci) = 256" and "k < 256" and "j < 256" and "j \<noteq> k" and "hot ev = (False, ev)"
    and "e_keycode ev = k"
  shows "(e_type ev = AG_EV_KEY_DOWN \<longrightarrow> snd (ag_console_key_pressed now (publish hot t ci ev) k) = (now - t \<le> AG_KEY_STICKY_MS)) \<and>
    (e_type ev = AG_EV_KEY_UP \<longrightarrow> \<not> snd (ag_console_key_pressed now (publish hot t ci ev) k)) \<and>
    snd (ag_console_key_pressed now (publish hot t ci ev) j) = snd (ag_console_key_pressed now ci j)"
proof -
  let ?p = "publish hot t ci ev"
  have s: "unat k < 256" "unat j \<noteq> unat k" using assms(3,5) by (auto simp: word_less_nat_alt word_unat_eq_iff)
  have d: "ci_key_down ?p = (if e_type ev = AG_EV_KEY_DOWN then set_key (ci_key_down ci) k else if e_type ev = AG_EV_KEY_UP then clear_key (ci_key_down ci) k
      else ci_key_down ci)"
    "ci_key_stamp ?p = (if e_type ev = AG_EV_KEY_DOWN then (ci_key_stamp ci)[unat k := t] else ci_key_stamp ci)"
    using assms(3,6,7) by (simp_all add: publish_def note_key_def Let_def)
  have kp: "snd (ag_console_key_pressed now c i) = (i < 256 \<and> has_key (ci_key_down c) i \<and> now - ci_key_stamp c ! unat i \<le> AG_KEY_STICKY_MS)" for c i
    by (auto simp: ag_console_key_pressed_def drained Let_def)
  note h = has_set_key [OF assms(1,3)] has_clear_key [OF assms(1,3)]
  show ?thesis using assms(2-5) s h [of k] h [of j] by (simp add: kp d)
qed

end
