(* ===== verification/Ramfs.thy ===== *)
theory Ramfs
  imports Prelude
begin

text \<open>
  \<open>fs/ramfs.c\<close>: the in-memory filesystem behind \<open>/tmp\<close>. A node is reached by its address, so the tree
  is a finite map from addresses to nodes (a fresh number for each allocation; 0 is the root inside
  \<open>struct ag_ramfs\<close>), and the chain of siblings below a directory is the list of their addresses in
  the order of the chain. A file's buffer is a list of \<open>capacity\<close> bytes of which the first \<open>size\<close> are
  its contents; sizes, capacities, positions and the budget are 32-bit words and wrap as the code's
  \<open>size_t\<close> does on the target.

  Whether the heap grants an allocation of some size is the argument \<open>mem\<close>, the clock is \<open>now\<close>. An
  operation's result is an \<open>option\<close> where the code can go wrong beyond an error code: \<open>None\<close> is a call
  that does not return, or that touches memory outside an allocation. (The heap answers the same for the same size throughout an operation.)
\<close>

section \<open>State\<close>

record ram_node =
  n_name :: string
  n_parent :: "nat option"
  n_children :: "nat list"
  n_is_dir :: bool
  n_data :: "u8 list"
  n_size :: u32
  n_capacity :: u32
  n_mtime :: u64

record ag_ramfs =
  rf_nodes :: "nat \<Rightarrow> ram_node option"
  rf_next :: nat
  rf_budget :: u32
  rf_used :: u32

record ram_file =
  f_node :: nat
  f_pos :: u32
  f_writable :: bool
  f_append :: bool

record ag_stat =
  st_size :: u64
  st_mtime :: u64
  st_dir :: bool

definition ROOT :: nat where "ROOT = 0"
definition SIZEOF_NODE :: u32 where "SIZEOF_NODE = 104"
definition SIZEOF_FILE :: u32 where "SIZEOF_FILE = 12"
definition SIZEOF_DIR :: u32 where "SIZEOF_DIR = 4"
definition SIZEOF_RAMFS :: u32 where "SIZEOF_RAMFS = 128"

definition AG_O_WRONLY :: u32 where "AG_O_WRONLY = 1"
definition AG_O_RDWR :: u32 where "AG_O_RDWR = 2"
definition AG_O_CREATE :: u32 where "AG_O_CREATE = 4"
definition AG_O_TRUNC :: u32 where "AG_O_TRUNC = 8"
definition AG_O_APPEND :: u32 where "AG_O_APPEND = 16"
definition AG_O_EXCL :: u32 where "AG_O_EXCL = 32"

type_synonym heap = "u32 \<Rightarrow> bool"

definition node :: "ag_ramfs \<Rightarrow> nat \<Rightarrow> ram_node" where
  "node fs i = the (rf_nodes fs i)"

definition set_node :: "ag_ramfs \<Rightarrow> nat \<Rightarrow> ram_node \<Rightarrow> ag_ramfs" where
  "set_node fs i n = fs\<lparr>rf_nodes := (rf_nodes fs)(i \<mapsto> n)\<rparr>"

definition root_node :: ram_node where
  "root_node = \<lparr>n_name = ''/'', n_parent = None, n_children = [], n_is_dir = True, n_data = [], n_size = 0,
     n_capacity = 0, n_mtime = 0\<rparr>"

definition ag_ramfs_create :: "heap \<Rightarrow> u32 option \<Rightarrow> ag_ramfs option" where
  "ag_ramfs_create mem config =
     (case config of None \<Rightarrow> None
      | Some budget \<Rightarrow>
          if budget = 0 \<or> \<not> mem SIZEOF_RAMFS then None
          else Some \<lparr>rf_nodes = [ROOT \<mapsto> root_node], rf_next = 1, rf_budget = budget, rf_used = 0\<rparr>)"

definition ag_ramfs_used :: "ag_ramfs option \<Rightarrow> u32" where
  "ag_ramfs_used fs = (case fs of None \<Rightarrow> 0 | Some s \<Rightarrow> rf_used s)"

section \<open>Budget\<close>

definition charge :: "ag_ramfs \<Rightarrow> u32 \<Rightarrow> bool \<times> ag_ramfs" where
  "charge fs bytes =
     (if rf_used fs + bytes > rf_budget fs then (False, fs) else (True, fs\<lparr>rf_used := rf_used fs + bytes\<rparr>))"

definition refund :: "ag_ramfs \<Rightarrow> u32 \<Rightarrow> ag_ramfs" where
  "refund fs bytes = fs\<lparr>rf_used := (if rf_used fs > bytes then rf_used fs - bytes else 0)\<rparr>"

section \<open>Tree\<close>

definition fold_case :: "char \<Rightarrow> char" where
  "fold_case c = (if char_in CHR ''A'' CHR ''Z'' c then char_of ((of_char c :: nat) + 32) else c)"

definition find_child :: "ag_ramfs \<Rightarrow> nat \<Rightarrow> string \<Rightarrow> nat option" where
  "find_child fs dir name =
     find (\<lambda>i. length (n_name (node fs i)) = length name \<and>
               list_all2 (\<lambda>a b. fold_case a = fold_case b) (n_name (node fs i)) name)
       (n_children (node fs dir))"

definition is_slash :: "char \<Rightarrow> bool" where
  "is_slash c \<longleftrightarrow> c = CHR ''/''"

lemma skip_component:
  "dropWhile is_slash p \<noteq> [] \<Longrightarrow>
   length (dropWhile (\<lambda>c. \<not> is_slash c) (dropWhile is_slash p)) < length p"
proof -
  assume ne: "dropWhile is_slash p \<noteq> []"
  let ?s = "dropWhile is_slash p"
  have "\<not> is_slash (hd ?s)" using ne by (rule hd_dropWhile)
  then have "length (dropWhile (\<lambda>c. \<not> is_slash c) ?s) < length ?s"
    using ne length_dropWhile_le [of "\<lambda>c. \<not> is_slash c" "tl ?s"] by (cases ?s) (auto simp: less_Suc_eq_le)
  then show ?thesis using length_dropWhile_le [of is_slash p] by simp
qed

text \<open>The node reached and, one component short, the last name.\<close>

function walk :: "ag_ramfs \<Rightarrow> nat \<Rightarrow> string \<Rightarrow> bool \<Rightarrow> nat option \<times> string option" where
  "walk fs i p parent_of =
     (let start = dropWhile is_slash p in
      if start = [] then (if parent_of then (None, None) else (Some i, None))
      else
        let name = takeWhile (\<lambda>c. \<not> is_slash c) start;
            rest = dropWhile (\<lambda>c. \<not> is_slash c) start;
            is_last = (dropWhile is_slash rest = [])
        in if is_last \<and> parent_of then ((if n_is_dir (node fs i) then Some i else None), Some name)
           else if \<not> n_is_dir (node fs i) then (None, None)
           else case find_child fs i name of
                  None \<Rightarrow> (None, None)
                | Some j \<Rightarrow> walk fs j rest parent_of)"
  by auto
termination
  by (relation "measure (\<lambda>(_, _, p, _). length p)") (auto intro: skip_component)

declare walk.simps [simp del]

definition create_node ::
  "heap \<Rightarrow> u64 option \<Rightarrow> ag_ramfs \<Rightarrow> nat \<Rightarrow> string \<Rightarrow> bool \<Rightarrow> nat option \<times> ag_ramfs" where
  "create_node mem now fs parent name is_dir =
     (if length name = 0 \<or> length name \<ge> AG_NAME_MAX then (None, fs)
      else case charge fs SIZEOF_NODE of
             (False, fs1) \<Rightarrow> (None, fs1)
           | (True, fs1) \<Rightarrow>
               if \<not> mem SIZEOF_NODE then (None, refund fs1 SIZEOF_NODE)
               else
                 let i = rf_next fs1;
                     new = \<lparr>n_name = name, n_parent = Some parent, n_children = [], n_is_dir = is_dir, n_data = [],
                            n_size = 0, n_capacity = 0, n_mtime = (case now of None \<Rightarrow> 0 | Some t \<Rightarrow> t)\<rparr>;
                     par = node fs1 parent
                 in (Some i, set_node (set_node fs1 i new) parent (par\<lparr>n_children := i # n_children par\<rparr>)
                       \<lparr>rf_next := Suc i\<rparr>))"

definition detach :: "ag_ramfs \<Rightarrow> nat \<Rightarrow> ag_ramfs" where
  "detach fs i =
     (case n_parent (node fs i) of
        None \<Rightarrow> fs
      | Some p \<Rightarrow> set_node fs p ((node fs p)\<lparr>n_children := remove1 i (n_children (node fs p))\<rparr>))"

definition unlink_node :: "ag_ramfs \<Rightarrow> nat \<Rightarrow> ag_ramfs" where
  "unlink_node fs i =
     (let n = node fs i;
          fs1 = detach fs i;
          fs2 = (if n_data n \<noteq> [] then refund fs1 (n_capacity n) else fs1);
          fs3 = refund fs2 SIZEOF_NODE
      in fs3\<lparr>rf_nodes := (rf_nodes fs3)(i := None)\<rparr>)"

section \<open>Files\<close>

definition has_flag :: "u32 \<Rightarrow> u32 \<Rightarrow> bool" where
  "has_flag flags f \<longleftrightarrow> flags AND f \<noteq> 0"

definition open_file :: "heap \<Rightarrow> u32 \<Rightarrow> ag_ramfs \<Rightarrow> nat \<Rightarrow> ram_file ag_err \<times> ag_ramfs" where
  "open_file mem flags fs i =
     (let fs1 = (if has_flag flags AG_O_TRUNC then set_node fs i ((node fs i)\<lparr>n_size := 0\<rparr>) else fs)
      in if \<not> mem SIZEOF_FILE then (Inl AG_ENOMEM, fs1)
         else (Inr \<lparr>f_node = i,
                    f_pos = (if has_flag flags AG_O_APPEND then n_size (node fs1 i) else 0),
                    f_writable = has_flag flags (AG_O_WRONLY OR AG_O_RDWR OR AG_O_CREATE OR AG_O_TRUNC OR AG_O_APPEND),
                    f_append = has_flag flags AG_O_APPEND\<rparr>, fs1))"

definition ramfs_open :: "heap \<Rightarrow> u64 option \<Rightarrow> ag_ramfs \<Rightarrow> string \<Rightarrow> u32 \<Rightarrow> ram_file ag_err \<times> ag_ramfs" where
  "ramfs_open mem now fs rel flags =
     (case fst (walk fs ROOT rel False) of
        Some i \<Rightarrow>
          if n_is_dir (node fs i) then (Inl AG_EISDIR, fs)
          else if has_flag flags AG_O_CREATE \<and> has_flag flags AG_O_EXCL then (Inl AG_EEXIST, fs)
          else open_file mem flags fs i
      | None \<Rightarrow>
          if \<not> has_flag flags AG_O_CREATE then (Inl AG_ENOENT, fs)
          else case walk fs ROOT rel True of
                 (Some parent, Some leaf) \<Rightarrow>
                   (case create_node mem now fs parent leaf False of
                      (None, fs1) \<Rightarrow> (Inl AG_ENOSPC, fs1)
                    | (Some i, fs1) \<Rightarrow> open_file mem flags fs1 i)
               | _ \<Rightarrow> (Inl AG_ENOENT, fs))"

definition ramfs_read :: "ag_ramfs \<Rightarrow> ram_file \<Rightarrow> u32 \<Rightarrow> (u8 list \<times> ram_file) option" where
  "ramfs_read fs f len =
     (case rf_nodes fs (f_node f) of
        None \<Rightarrow> None
      | Some n \<Rightarrow>
          if f_pos f \<ge> n_size n then Some ([], f)
          else
            let available = n_size n - f_pos f;
                k = (if len > available then available else len)
            in if unat (f_pos f) + unat k > length (n_data n) then None
               else Some (take (unat k) (drop (unat (f_pos f)) (n_data n)), f\<lparr>f_pos := f_pos f + k\<rparr>))"

text \<open>The loop that doubles the capacity. It may not end.\<close>

partial_function (option) double_until :: "u32 \<Rightarrow> u32 \<Rightarrow> u32 option" where
  "double_until capacity needed =
     (if capacity < needed then double_until (capacity * 2) needed else Some capacity)"

definition grow :: "heap \<Rightarrow> ag_ramfs \<Rightarrow> nat \<Rightarrow> u32 \<Rightarrow> (bool \<times> ag_ramfs) option" where
  "grow mem fs i needed =
     (let n = node fs i in
      if needed \<le> n_capacity n then Some (True, fs)
      else case double_until (if n_capacity n = 0 then 64 else n_capacity n) needed of
             None \<Rightarrow> None
           | Some capacity \<Rightarrow>
               (case charge fs (capacity - n_capacity n) of
                  (False, fs1) \<Rightarrow> Some (False, fs1)
                | (True, fs1) \<Rightarrow>
                    if \<not> mem capacity then Some (False, refund fs1 (capacity - n_capacity n))
                    else Some (True, set_node fs1 i
                           (n\<lparr>n_data := take (unat (n_size n)) (n_data n) @
                                replicate (unat capacity - unat (n_size n)) 0,
                              n_capacity := capacity\<rparr>))))"

text \<open>\<open>memset\<close> or \<open>memcpy\<close> into a buffer: outside it, anything may happen.\<close>

definition blit :: "u8 list \<Rightarrow> nat \<Rightarrow> u8 list \<Rightarrow> u8 list option" where
  "blit d off bs = (if off + length bs > length d then None else Some (take off d @ bs @ drop (off + length bs) d))"

definition ramfs_write ::
  "heap \<Rightarrow> u64 option \<Rightarrow> ag_ramfs \<Rightarrow> ram_file \<Rightarrow> u8 list \<Rightarrow> (nat ag_err \<times> ag_ramfs \<times> ram_file) option" where
  "ramfs_write mem now fs f buf =
     (if \<not> f_writable f then Some (Inl AG_EACCES, fs, f)
      else if buf = [] then Some (Inr 0, fs, f)
      else if rf_nodes fs (f_node f) = None then None
      else
        let i = f_node f;
            len = word_of_nat (length buf);
            f1 = (if f_append f then f\<lparr>f_pos := n_size (node fs i)\<rparr> else f);
            pos = f_pos f1;
            fin = pos + len
        in case grow mem fs i fin of
             None \<Rightarrow> None
           | Some (False, fs1) \<Rightarrow> Some (Inl AG_ENOSPC, fs1, f1)
           | Some (True, fs1) \<Rightarrow>
               let n = node fs1 i in
               (case (if pos > n_size n then blit (n_data n) (unat (n_size n)) (replicate (unat (pos - n_size n)) 0)
                      else Some (n_data n)) of
                  None \<Rightarrow> None
                | Some d1 \<Rightarrow>
                    (case blit d1 (unat pos) buf of
                       None \<Rightarrow> None
                     | Some d2 \<Rightarrow>
                         Some (Inr (length buf),
                               set_node fs1 i (n\<lparr>n_data := d2, n_size := (if fin > n_size n then fin else n_size n),
                                                 n_mtime := (case now of None \<Rightarrow> n_mtime n | Some t \<Rightarrow> t)\<rparr>),
                               f1\<lparr>f_pos := fin\<rparr>))))"

datatype whence = AG_SEEK_SET | AG_SEEK_CUR | AG_SEEK_END | Other_whence

definition ramfs_seek :: "ag_ramfs \<Rightarrow> ram_file \<Rightarrow> int \<Rightarrow> whence \<Rightarrow> int ag_err \<times> ram_file" where
  "ramfs_seek fs f off whence =
     (case (case whence of AG_SEEK_SET \<Rightarrow> Some 0 | AG_SEEK_CUR \<Rightarrow> Some (uint (f_pos f))
            | AG_SEEK_END \<Rightarrow> Some (uint (n_size (node fs (f_node f)))) | Other_whence \<Rightarrow> None) of
        None \<Rightarrow> (Inl AG_EINVAL, f)
      | Some base \<Rightarrow>
          if base + off < 0 then (Inl AG_EINVAL, f)
          else (Inr (base + off), f\<lparr>f_pos := word_of_int (base + off)\<rparr>))"

definition ramfs_truncate :: "heap \<Rightarrow> ag_ramfs \<Rightarrow> ram_file \<Rightarrow> u64 \<Rightarrow> (unit ag_err \<times> ag_ramfs) option" where
  "ramfs_truncate mem fs f len =
     (if \<not> f_writable f then Some (Inl AG_EACCES, fs)
      else if rf_nodes fs (f_node f) = None then None
      else
        let i = f_node f in
        if len > ucast (n_size (node fs i)) then
          (case grow mem fs i (ucast len) of
             None \<Rightarrow> None
           | Some (False, fs1) \<Rightarrow> Some (Inl AG_ENOSPC, fs1)
           | Some (True, fs1) \<Rightarrow>
               let n = node fs1 i in
               (case blit (n_data n) (unat (n_size n)) (replicate (unat (ucast len - n_size n :: u32)) 0) of
                  None \<Rightarrow> None
                | Some d \<Rightarrow> Some (Inr (), set_node fs1 i (n\<lparr>n_data := d, n_size := ucast len\<rparr>))))
        else Some (Inr (), set_node fs i ((node fs i)\<lparr>n_size := ucast len\<rparr>)))"

section \<open>Names\<close>

definition fill_stat :: "ram_node \<Rightarrow> ag_stat" where
  "fill_stat n = \<lparr>st_size = (if n_is_dir n then 0 else ucast (n_size n)), st_mtime = n_mtime n, st_dir = n_is_dir n\<rparr>"

definition ramfs_stat :: "ag_ramfs \<Rightarrow> string \<Rightarrow> ag_stat ag_err" where
  "ramfs_stat fs rel = (case fst (walk fs ROOT rel False) of None \<Rightarrow> Inl AG_ENOENT | Some i \<Rightarrow> Inr (fill_stat (node fs i)))"

definition ramfs_unlink :: "ag_ramfs \<Rightarrow> string \<Rightarrow> unit ag_err \<times> ag_ramfs" where
  "ramfs_unlink fs rel =
     (case fst (walk fs ROOT rel False) of
        None \<Rightarrow> (Inl AG_ENOENT, fs)
      | Some i \<Rightarrow> if n_is_dir (node fs i) then (Inl AG_EISDIR, fs) else (Inr (), unlink_node fs i))"

definition ramfs_mkdir :: "heap \<Rightarrow> u64 option \<Rightarrow> ag_ramfs \<Rightarrow> string \<Rightarrow> unit ag_err \<times> ag_ramfs" where
  "ramfs_mkdir mem now fs rel =
     (if fst (walk fs ROOT rel False) \<noteq> None then (Inl AG_EEXIST, fs)
      else case walk fs ROOT rel True of
             (Some parent, Some leaf) \<Rightarrow>
               (case create_node mem now fs parent leaf True of
                  (None, fs1) \<Rightarrow> (Inl AG_ENOSPC, fs1)
                | (Some _, fs1) \<Rightarrow> (Inr (), fs1))
           | _ \<Rightarrow> (Inl AG_ENOENT, fs))"

definition ramfs_rmdir :: "ag_ramfs \<Rightarrow> string \<Rightarrow> unit ag_err \<times> ag_ramfs" where
  "ramfs_rmdir fs rel =
     (case fst (walk fs ROOT rel False) of
        None \<Rightarrow> (Inl AG_ENOENT, fs)
      | Some i \<Rightarrow>
          if \<not> n_is_dir (node fs i) then (Inl AG_ENOTDIR, fs)
          else if i = ROOT then (Inl AG_EBUSY, fs)
          else if n_children (node fs i) \<noteq> [] then (Inl AG_EBUSY, fs)
          else (Inr (), unlink_node fs i))"

text \<open>The walk up the parents, looking for the node that is being moved.\<close>

partial_function (option) below :: "ag_ramfs \<Rightarrow> nat \<Rightarrow> nat option \<Rightarrow> bool option" where
  "below fs i p =
     (case p of None \<Rightarrow> Some False
      | Some q \<Rightarrow> if q = i then Some True else below fs i (n_parent (node fs q)))"

definition reattach :: "ag_ramfs \<Rightarrow> nat \<Rightarrow> nat \<Rightarrow> string \<Rightarrow> ag_ramfs" where
  "reattach fs i parent leaf =
     (let fs1 = detach fs i;
          fs2 = set_node fs1 i ((node fs1 i)\<lparr>n_name := leaf, n_parent := Some parent\<rparr>);
          par = node fs2 parent
      in set_node fs2 parent (par\<lparr>n_children := i # n_children par\<rparr>))"

definition ramfs_rename :: "ag_ramfs \<Rightarrow> string \<Rightarrow> string \<Rightarrow> (unit ag_err \<times> ag_ramfs) option" where
  "ramfs_rename fs from_path to_path =
     (case fst (walk fs ROOT from_path False) of
        None \<Rightarrow> Some (Inl AG_ENOENT, fs)
      | Some i \<Rightarrow>
          if i = ROOT then Some (Inl AG_EBUSY, fs)
          else if fst (walk fs ROOT to_path False) \<noteq> None then Some (Inl AG_EEXIST, fs)
          else case walk fs ROOT to_path True of
                 (Some parent, Some leaf) \<Rightarrow>
                   if length leaf \<ge> AG_NAME_MAX then Some (Inl AG_ENOENT, fs)
                   else (case below fs i (Some parent) of
                           None \<Rightarrow> None
                         | Some True \<Rightarrow> Some (Inl AG_EINVAL, fs)
                         | Some False \<Rightarrow> Some (Inr (), reattach fs i parent leaf))
               | _ \<Rightarrow> Some (Inl AG_ENOENT, fs))"

definition ramfs_opendir :: "heap \<Rightarrow> ag_ramfs \<Rightarrow> string \<Rightarrow> nat option ag_err" where
  "ramfs_opendir mem fs rel =
     (case fst (walk fs ROOT rel False) of
        None \<Rightarrow> Inl AG_ENOENT
      | Some i \<Rightarrow>
          if \<not> n_is_dir (node fs i) then Inl AG_ENOTDIR
          else if \<not> mem SIZEOF_DIR then Inl AG_ENOMEM
          else Inr (case n_children (node fs i) of [] \<Rightarrow> None | c # _ \<Rightarrow> Some c))"

definition sibling :: "ag_ramfs \<Rightarrow> nat \<Rightarrow> nat option" where
  "sibling fs i =
     (case n_parent (node fs i) of None \<Rightarrow> None
      | Some p \<Rightarrow> (case dropWhile (\<lambda>c. c \<noteq> i) (n_children (node fs p)) of (_ # c # _) \<Rightarrow> Some c | _ \<Rightarrow> None))"

text \<open>The directory handle is the next node to report.\<close>

definition ramfs_readdir :: "ag_ramfs \<Rightarrow> nat option \<Rightarrow> ((string \<times> ag_stat) ag_err \<times> nat option) option" where
  "ramfs_readdir fs d =
     (case d of None \<Rightarrow> Some (Inl AG_ENOENT, None)
      | Some i \<Rightarrow>
          (case rf_nodes fs i of None \<Rightarrow> None
           | Some n \<Rightarrow> Some (Inr (n_name n, fill_stat n), sibling fs i)))"

definition ramfs_info :: "ag_ramfs \<Rightarrow> u32 \<times> u32" where
  "ramfs_info fs = (rf_budget fs, if rf_budget fs > rf_used fs then rf_budget fs - rf_used fs else 0)"

function canon_loop :: "ag_ramfs \<Rightarrow> nat \<Rightarrow> string \<Rightarrow> string \<Rightarrow> string ag_err" where
  "canon_loop fs i p out =
     (let start = dropWhile is_slash p in
      if start = [] then Inr out
      else
        let name = takeWhile (\<lambda>c. \<not> is_slash c) start;
            rest = dropWhile (\<lambda>c. \<not> is_slash c) start
        in if \<not> n_is_dir (node fs i) then Inl AG_ENOTDIR
           else case find_child fs i name of
                  None \<Rightarrow> Inl AG_ENOENT
                | Some j \<Rightarrow>
                    if 1 + length (n_name (node fs j)) \<ge> AG_PATH_MAX - length out then Inl AG_ERANGE
                    else canon_loop fs j rest (out @ [CHR ''/''] @ n_name (node fs j)))"
  by auto
termination
  by (relation "measure (\<lambda>(_, _, p, _). length p)") (auto intro: skip_component)

declare canon_loop.simps [simp del]

definition ramfs_canonicalize :: "ag_ramfs \<Rightarrow> string option \<Rightarrow> nat \<Rightarrow> string ag_err" where
  "ramfs_canonicalize fs rel rel_len =
     (case rel of None \<Rightarrow> Inl AG_EINVAL
      | Some p \<Rightarrow>
          if rel_len = 0 then Inl AG_EINVAL
          else case canon_loop fs ROOT p [] of
                 Inl e \<Rightarrow> Inl e
               | Inr out \<Rightarrow>
                   if length out = 0 then (if rel_len < 2 then Inl AG_ERANGE else Inr ''/'')
                   else if length out \<ge> rel_len then Inl AG_ERANGE else Inr out)"

section \<open>Invariant\<close>

text \<open>
  The tree, as the links of its nodes: who is above a node, who is listed below it, which are
  directories, which exist. A node is listed exactly where its parent pointer says, once; parents are
  directories; only the root has none; and a rank grows from parent to child, so no node is above itself.
\<close>

definition tree_links ::
  "(nat \<Rightarrow> nat option) \<Rightarrow> (nat \<Rightarrow> nat list) \<Rightarrow> (nat \<Rightarrow> bool) \<Rightarrow> nat set \<Rightarrow> nat \<Rightarrow> bool" where
  "tree_links par kids isdir D k \<longleftrightarrow>
     (\<forall>i \<in> D. i < k) \<and> ROOT \<in> D \<and> isdir ROOT \<and>
     (\<forall>i p. i \<in> set (kids p) \<longleftrightarrow> par i = Some p) \<and>
     (\<forall>p. distinct (kids p)) \<and>
     (\<forall>i p. par i = Some p \<longrightarrow> i \<in> D \<and> p \<in> D \<and> isdir p) \<and>
     (\<forall>i \<in> D. par i = None \<longleftrightarrow> i = ROOT) \<and>
     (\<exists>rank :: nat \<Rightarrow> nat. \<forall>i p. par i = Some p \<longrightarrow> rank p < rank i)"

definition f_par :: "ag_ramfs \<Rightarrow> nat \<Rightarrow> nat option" where
  "f_par fs i = (case rf_nodes fs i of None \<Rightarrow> None | Some n \<Rightarrow> n_parent n)"

definition f_kids :: "ag_ramfs \<Rightarrow> nat \<Rightarrow> nat list" where
  "f_kids fs i = (case rf_nodes fs i of None \<Rightarrow> [] | Some n \<Rightarrow> n_children n)"

definition f_isdir :: "ag_ramfs \<Rightarrow> nat \<Rightarrow> bool" where
  "f_isdir fs i = (case rf_nodes fs i of None \<Rightarrow> False | Some n \<Rightarrow> n_is_dir n)"

definition tree_ok :: "ag_ramfs \<Rightarrow> bool" where
  "tree_ok fs \<longleftrightarrow> tree_links (f_par fs) (f_kids fs) (f_isdir fs) (dom (rf_nodes fs)) (rf_next fs)"

definition data_ok :: "ag_ramfs \<Rightarrow> bool" where
  "data_ok fs \<longleftrightarrow> (\<forall>i n. rf_nodes fs i = Some n \<longrightarrow>
     length (n_data n) = unat (n_capacity n) \<and> n_size n \<le> n_capacity n \<and> (n_is_dir n \<longrightarrow> n_capacity n = 0) \<and>
     (n_capacity n = 0 \<or> (\<exists>k \<le> 31. n_capacity n = 2 ^ k)))"

definition cost :: "ram_node \<Rightarrow> nat" where
  "cost n = unat SIZEOF_NODE + unat (n_capacity n)"

definition spent :: "ag_ramfs \<Rightarrow> nat" where
  "spent fs = (\<Sum>i \<in> dom (rf_nodes fs) - {ROOT}. cost (node fs i))"

definition budget_ok :: "ag_ramfs \<Rightarrow> bool" where
  "budget_ok fs \<longleftrightarrow> unat (rf_used fs) = spent fs \<and> rf_used fs \<le> rf_budget fs \<and> rf_budget fs < 0x80000000"

definition fs_inv :: "ag_ramfs \<Rightarrow> bool" where
  "fs_inv fs \<longleftrightarrow> tree_ok fs \<and> data_ok fs \<and> budget_ok fs"

section \<open>Lemmas\<close>

subsection \<open>Nodes\<close>

lemma node_simps [simp]:
  "rf_nodes (set_node fs i n) = (rf_nodes fs)(i \<mapsto> n)" "rf_next (set_node fs i n) = rf_next fs"
  "rf_used (set_node fs i n) = rf_used fs" "rf_budget (set_node fs i n) = rf_budget fs"
  "node (set_node fs i n) j = (if j = i then n else node fs j)"
  by (simp_all add: set_node_def node_def)

lemma node_of: "rf_nodes fs i = Some n \<Longrightarrow> node fs i = n"
  by (simp add: node_def)

lemma finite_nodes: "tree_ok fs \<Longrightarrow> finite (dom (rf_nodes fs))"
proof -
  assume "tree_ok fs"
  then have "dom (rf_nodes fs) \<subseteq> {..<rf_next fs}" by (auto simp: tree_ok_def tree_links_def)
  then show ?thesis by (rule finite_subset) simp
qed

lemma spent_update:
  assumes "finite (dom (rf_nodes fs))" and "rf_nodes fs i = Some n" and "i \<noteq> ROOT"
  shows "spent (set_node fs i n') + cost n = spent fs + cost n'"
proof -
  let ?D = "dom (rf_nodes fs) - {ROOT}"
  have i: "i \<in> ?D" using assms by auto
  have f: "finite ?D" using assms(1) by simp
  have "spent fs = cost n + (\<Sum>j \<in> ?D - {i}. cost (node fs j))"
    unfolding spent_def using sum.remove [OF f i, of "\<lambda>j. cost (node fs j)"] assms(2) by (simp add: node_of)
  moreover have "spent (set_node fs i n') = cost n' + (\<Sum>j \<in> ?D - {i}. cost (node fs j))"
    unfolding spent_def using sum.remove [OF f i, of "\<lambda>j. cost (node (set_node fs i n') j)"] assms(2)
    by (simp add: insert_absorb domI [of "rf_nodes fs"])
  ultimately show ?thesis by simp
qed

lemma spent_same:
  assumes "finite (dom (rf_nodes fs))" and "rf_nodes fs i = Some n" and "n_capacity n' = n_capacity n"
  shows "spent (set_node fs i n') = spent fs"
proof -
  have "dom (rf_nodes (set_node fs i n')) = dom (rf_nodes fs)" using assms(2) by auto
  moreover have "cost (node (set_node fs i n') j) = cost (node fs j)" for j
    using assms(2,3) by (simp add: cost_def node_of)
  ultimately show ?thesis unfolding spent_def by simp
qed

lemma spent_new:
  assumes "finite (dom (rf_nodes fs))" and "rf_nodes fs i = None" and "i \<noteq> ROOT"
  shows "spent (set_node fs i n') = spent fs + cost n'"
proof -
  let ?D = "dom (rf_nodes fs) - {ROOT}"
  have "dom (rf_nodes (set_node fs i n')) - {ROOT} = insert i ?D" using assms(3) by auto
  moreover have "i \<notin> ?D" "finite ?D" using assms by auto
  moreover have "(\<Sum>j \<in> ?D. cost (node (set_node fs i n') j)) = (\<Sum>j \<in> ?D. cost (node fs j))"
    using assms(2) by (intro sum.cong) auto
  ultimately show ?thesis unfolding spent_def by simp
qed

lemma spent_delete:
  assumes "finite (dom (rf_nodes fs))" and "rf_nodes fs i = Some n" and "i \<noteq> ROOT"
  shows "spent (fs\<lparr>rf_nodes := (rf_nodes fs)(i := None)\<rparr>) + cost n = spent fs"
proof -
  let ?D = "dom (rf_nodes fs) - {ROOT}"
  have i: "i \<in> ?D" and f: "finite ?D" using assms by auto
  have "dom ((rf_nodes fs)(i := None)) - {ROOT} = ?D - {i}" by auto
  moreover have "(\<Sum>j \<in> ?D - {i}. cost (the (((rf_nodes fs)(i := None)) j))) = (\<Sum>j \<in> ?D - {i}. cost (node fs j))"
    by (intro sum.cong) (auto simp: node_def)
  ultimately show ?thesis
    unfolding spent_def using sum.remove [OF f i, of "\<lambda>j. cost (node fs j)"] assms(2) by (simp add: node_def)
qed

subsection \<open>Links\<close>

lemma link_simps [simp]:
  "f_par (set_node fs i n) = (f_par fs)(i := n_parent n)"
  "f_kids (set_node fs i n) = (f_kids fs)(i := n_children n)"
  "f_isdir (set_node fs i n) = (f_isdir fs)(i := n_is_dir n)"
  "f_par (fs\<lparr>rf_used := u\<rparr>) = f_par fs" "f_kids (fs\<lparr>rf_used := u\<rparr>) = f_kids fs" "f_isdir (fs\<lparr>rf_used := u\<rparr>) = f_isdir fs"
  "f_par (fs\<lparr>rf_next := m\<rparr>) = f_par fs" "f_kids (fs\<lparr>rf_next := m\<rparr>) = f_kids fs" "f_isdir (fs\<lparr>rf_next := m\<rparr>) = f_isdir fs"
  "f_par (fs\<lparr>rf_nodes := (rf_nodes fs)(i := None)\<rparr>) = (f_par fs)(i := None)"
  "f_kids (fs\<lparr>rf_nodes := (rf_nodes fs)(i := None)\<rparr>) = (f_kids fs)(i := [])"
  "f_isdir (fs\<lparr>rf_nodes := (rf_nodes fs)(i := None)\<rparr>) = (f_isdir fs)(i := False)"
  by (rule ext, simp add: f_par_def f_kids_def f_isdir_def)+

lemma link_node:
  "rf_nodes fs i = Some n \<Longrightarrow> f_par fs i = n_parent n \<and> f_kids fs i = n_children n \<and> f_isdir fs i = n_is_dir n"
  by (simp add: f_par_def f_kids_def f_isdir_def)

lemma tree_ok_same_links:
  assumes "tree_ok fs" and "rf_nodes fs i = Some n"
    and "n_parent n' = n_parent n" "n_children n' = n_children n" "n_is_dir n' = n_is_dir n"
  shows "tree_ok (set_node fs i n')"
proof -
  have "(f_par fs)(i := n_parent n') = f_par fs" "(f_kids fs)(i := n_children n') = f_kids fs"
    "(f_isdir fs)(i := n_is_dir n') = f_isdir fs" "insert i (dom (rf_nodes fs)) = dom (rf_nodes fs)"
    using link_node [OF assms(2)] assms(2-5) by (simp_all add: fun_upd_idem_iff insert_absorb domI)
  then show ?thesis using assms(1) by (simp add: tree_ok_def)
qed

lemma tree_add:
  assumes t: "tree_links par kids isdir D k" and p: "p \<in> D" "isdir p"
  shows "tree_links (par(k := Some p)) (kids(k := [], p := k # kids p)) (isdir(k := d)) (insert k D) (Suc k)"
proof -
  have k: "k \<notin> D" "p \<noteq> k" using t p by (auto simp: tree_links_def)
  have link: "i \<in> D" "q \<in> D" if "par i = Some q" for i q using t that unfolding tree_links_def by blast+
  have mem: "i \<in> set (kids q) \<longleftrightarrow> par i = Some q" for i q using t unfolding tree_links_def by blast
  have kk: "par k = None" using link(1) [of k] k(1) by (cases "par k") auto
  have kk1: "par i \<noteq> Some k" for i using link(2) [of i k] k(1) by auto
  have kk2: "kids k = []" "k \<notin> set (kids p)" using mem [of "hd (kids k)" k] kk1 mem [of k p] kk by (cases "kids k", auto)
  obtain rank :: "nat \<Rightarrow> nat" where rank: "\<And>i p. par i = Some p \<Longrightarrow> rank p < rank i"
    using t unfolding tree_links_def by blast
  have "\<exists>rank :: nat \<Rightarrow> nat. \<forall>i q. (par(k := Some p)) i = Some q \<longrightarrow> rank q < rank i"
    using rank kk1 k(2) by (intro exI [of _ "rank(k := Suc (rank p))"]) auto
  moreover have "\<forall>i q. i \<in> set ((kids(k := [], p := k # kids p)) q) \<longleftrightarrow> (par(k := Some p)) i = Some q"
    using mem kk kk1 kk2 k(2) by auto
  moreover have "\<forall>q. distinct ((kids(k := [], p := k # kids p)) q)" using t kk2 unfolding tree_links_def by auto
  moreover have "\<forall>i \<in> insert k D. i < Suc k" using t unfolding tree_links_def by (auto simp: less_Suc_eq)
  moreover have "ROOT \<in> insert k D \<and> (isdir(k := d)) ROOT" using t k unfolding tree_links_def by auto
  moreover have "\<forall>i q. (par(k := Some p)) i = Some q \<longrightarrow> i \<in> insert k D \<and> q \<in> insert k D \<and> (isdir(k := d)) q"
    using t k p kk unfolding tree_links_def by auto
  moreover have "\<forall>i \<in> insert k D. (par(k := Some p)) i = None \<longleftrightarrow> i = ROOT" using t k unfolding tree_links_def by auto
  ultimately show ?thesis unfolding tree_links_def by blast
qed

lemma tree_remove:
  assumes t: "tree_links par kids isdir D k" and i: "par i = Some p" "kids i = []"
  shows "tree_links (par(i := None)) (kids(p := remove1 i (kids p), i := [])) (isdir(i := False)) (D - {i}) k"
proof -
  have "\<forall>j. par j \<noteq> Some i" using t i(2) unfolding tree_links_def by (metis empty_iff list.set(1))
  moreover have "i \<noteq> ROOT" using t i(1) unfolding tree_links_def by auto
  moreover have "p \<noteq> i" using t i(1) unfolding tree_links_def by blast
  moreover obtain rank :: "nat \<Rightarrow> nat" where "\<And>i p. par i = Some p \<Longrightarrow> rank p < rank i"
    using t unfolding tree_links_def by blast
  then have "\<exists>rank :: nat \<Rightarrow> nat. \<forall>j q. (par(i := None)) j = Some q \<longrightarrow> rank q < rank j" by (intro exI [of _ rank]) auto
  ultimately show ?thesis using t i unfolding tree_links_def by auto
qed

text \<open>Above: some number of parents up.\<close>

inductive above :: "(nat \<Rightarrow> nat option) \<Rightarrow> nat \<Rightarrow> nat \<Rightarrow> bool" for par where
  above_self: "above par i i"
| above_up: "par j = Some p \<Longrightarrow> above par i p \<Longrightarrow> above par i j"

lemma tree_move:
  assumes t: "tree_links par kids isdir D k" and i: "par i = Some p" and q: "q \<in> D" "isdir q" and "\<not> above par i q"
  shows "tree_links (par(i := Some q))
    ((kids(p := remove1 i (kids p)))(q := i # (kids(p := remove1 i (kids p))) q)) isdir D k"
proof -
  let ?kids = "(kids(p := remove1 i (kids p)))(q := i # (kids(p := remove1 i (kids p))) q)"
  have iD: "i \<in> D" "i \<noteq> ROOT" using t i unfolding tree_links_def by auto
  obtain rank :: "nat \<Rightarrow> nat" where rank: "\<And>i p. par i = Some p \<Longrightarrow> rank p < rank i"
    using t unfolding tree_links_def by blast
  let ?r = "\<lambda>j. if above par i j then rank j + Suc (rank q) else rank j"
  have "?r b < ?r a" if "(par(i := Some q)) a = Some b" for a b
  proof (cases "a = i")
    case True
    then show ?thesis using that assms(5) above_self [of par i] by auto
  next
    case False
    then have pa: "par a = Some b" using that by simp
    have "above par i a \<longleftrightarrow> above par i b"
      using pa False by (auto elim: above.cases intro: above_up)
    then show ?thesis using rank [OF pa] by auto
  qed
  then have "\<exists>rank :: nat \<Rightarrow> nat. \<forall>a b. (par(i := Some q)) a = Some b \<longrightarrow> rank b < rank a" by (intro exI [of _ ?r]) blast
  moreover have "\<forall>j c. j \<in> set (?kids c) \<longleftrightarrow> (par(i := Some q)) j = Some c"
    using t i unfolding tree_links_def by auto
  moreover have "\<forall>c. distinct (?kids c)" using t i unfolding tree_links_def by (auto simp: distinct_remove1)
  ultimately show ?thesis using t iD q unfolding tree_links_def by auto
qed

subsection \<open>Budget\<close>

lemma charge_ok:
  assumes "rf_used fs \<le> rf_budget fs" and "rf_budget fs < 0x80000000" and "bytes \<le> 0x80000000"
    and "charge fs bytes = (r, fs')"
  shows "if r then unat (rf_used fs') = unat (rf_used fs) + unat bytes \<and> rf_used fs' \<le> rf_budget fs \<and>
      fs' = fs\<lparr>rf_used := rf_used fs + bytes\<rparr> else fs' = fs"
proof -
  have "unat (rf_used fs + bytes) = unat (rf_used fs) + unat bytes"
    using assms(1-3) by (intro unat_add_no_wrap) (simp add: word_le_nat_alt word_less_nat_alt)
  then show ?thesis using assms(4) by (auto simp: charge_def split: if_splits)
qed

lemma refund_exact: "bytes \<le> rf_used fs \<Longrightarrow> refund fs bytes = fs\<lparr>rf_used := rf_used fs - bytes\<rparr>"
  by (auto simp: refund_def)

lemma refund_charge: "charge fs bytes = (True, fs') \<Longrightarrow> unat (rf_used fs) + unat bytes < 2 ^ 32 \<Longrightarrow> refund fs' bytes = fs"
  by (subst refund_exact) (auto simp: charge_def word_le_nat_alt unat_add_no_wrap split: if_splits)

subsection \<open>The doubling loop\<close>

lemma unat_pow2: "k \<le> 31 \<Longrightarrow> unat ((2 :: u32) ^ k) = 2 ^ k"
proof -
  assume "k \<le> 31"
  then have "(2 :: nat) ^ k < 2 ^ 32" by (intro power_strict_increasing) simp_all
  moreover have "(2 :: u32) ^ k = word_of_nat (2 ^ k)" by simp
  ultimately show ?thesis by (simp only: unat_of_nat) simp
qed

lemma double_until_zero: "0 < needed \<Longrightarrow> double_until 0 needed = None"
proof (rule ccontr)
  assume n: "0 < needed" and "double_until 0 needed \<noteq> None"
  then obtain r where r: "double_until 0 needed = Some r" by auto
  have "(0 :: u32) = 0 \<longrightarrow> needed = 0"
    by (rule double_until.raw_induct [of "\<lambda>c n r. c = 0 \<longrightarrow> n = 0", OF _ r]) (auto simp: word_gt_0 split: if_splits)
  with n show False by simp
qed

lemma double_until_pow:
  "k \<le> 31 \<Longrightarrow> (if needed \<le> 0x80000000
     then \<exists>j. k \<le> j \<and> j \<le> 31 \<and> double_until (2 ^ k) needed = Some (2 ^ j) \<and> needed \<le> 2 ^ j
     else double_until (2 ^ k) needed = None)"
proof (induction "31 - k" arbitrary: k)
  case 0
  then have k: "k = 31" by simp
  show ?case
  proof (cases "needed \<le> 0x80000000")
    case True
    then have "double_until 0x80000000 needed = Some (2 ^ 31)"
      by (subst double_until.simps) auto
    then show ?thesis using k True by auto
  next
    case False
    then have "0 < needed" by (auto simp: not_le word_less_nat_alt)
    moreover have "(0x80000000 :: u32) * 2 = 0" by simp
    ultimately have "double_until (0x80000000 * 2) needed = None" using double_until_zero by (simp only:)
    moreover have "0x80000000 < needed" using False by (simp add: not_le)
    ultimately have "double_until 0x80000000 needed = None" by (subst double_until.simps) (simp only: if_True)
    then show ?thesis using k False by simp
  qed
next
  case (Suc d)
  have IH: "if needed \<le> 0x80000000
     then \<exists>j. Suc k \<le> j \<and> j \<le> 31 \<and> double_until (2 ^ Suc k) needed = Some (2 ^ j) \<and> needed \<le> 2 ^ j
     else double_until (2 ^ Suc k) needed = None"
    using Suc.hyps(2) by (intro Suc.hyps(1)) simp_all
  have step: "double_until (2 ^ k) needed = (if 2 ^ k < needed then double_until (2 ^ Suc k) needed else Some (2 ^ k))"
    by (subst double_until.simps) (simp add: mult.commute)
  have le: "needed \<le> 2 ^ k \<Longrightarrow> needed \<le> 0x80000000"
  proof -
    have "(2 :: nat) ^ k \<le> 2 ^ 31" using Suc.prems by (intro power_increasing) simp_all
    then have "(2 :: u32) ^ k \<le> 2 ^ 31" using unat_pow2 [of k] Suc.prems by (simp add: word_le_nat_alt)
    then show "needed \<le> 2 ^ k \<Longrightarrow> ?thesis" by simp
  qed
  show ?case
  proof (cases "2 ^ k < needed")
    case True
    show ?thesis
    proof (cases "needed \<le> 0x80000000")
      case small: True
      then obtain j where "Suc k \<le> j" "j \<le> 31" "double_until (2 ^ Suc k) needed = Some (2 ^ j)" "needed \<le> 2 ^ j"
        using IH by auto
      with True step small show ?thesis by (auto intro!: exI [of _ j] dest: Suc_leD)
    next
      case False
      with True step IH show ?thesis by simp
    qed
  next
    case False
    with le step Suc.prems show ?thesis by (auto simp: not_less)
  qed
qed

subsection \<open>Walking\<close>

lemma find_child_mem: "find_child fs dir name = Some j \<Longrightarrow> j \<in> set (n_children (node fs dir))"
  by (auto simp: find_child_def find_Some_iff)

lemma tree_ok_child:
  assumes "tree_ok fs" and "i \<in> dom (rf_nodes fs)" and "j \<in> set (n_children (node fs i))"
  shows "j \<in> dom (rf_nodes fs)"
proof -
  from assms(2) obtain n where n: "rf_nodes fs i = Some n" by auto
  have "j \<in> set (f_kids fs i)" using assms(3) link_node [OF n] node_of [OF n] by simp
  then show ?thesis using assms(1) unfolding tree_ok_def tree_links_def by blast
qed

lemma walk_dom:
  "tree_ok fs \<Longrightarrow> i \<in> dom (rf_nodes fs) \<Longrightarrow> walk fs i p po = (Some j, l) \<Longrightarrow>
   j \<in> dom (rf_nodes fs) \<and> (po \<longrightarrow> n_is_dir (node fs j) \<and> l \<noteq> None)"
proof (induction fs i p po rule: walk.induct)
  case (1 fs i p po)
  define st where "st = dropWhile is_slash p"
  define nm where "nm = takeWhile (\<lambda>c. \<not> is_slash c) st"
  define rest where "rest = dropWhile (\<lambda>c. \<not> is_slash c) st"
  define fin where "fin \<longleftrightarrow> dropWhile is_slash rest = []"
  have run: "walk fs i p po = (if st = [] then (if po then (None, None) else (Some i, None))
      else if fin \<and> po then ((if n_is_dir (node fs i) then Some i else None), Some nm)
      else if \<not> n_is_dir (node fs i) then (None, None)
      else case find_child fs i nm of None \<Rightarrow> (None, None) | Some j \<Rightarrow> walk fs j rest po)"
    unfolding st_def nm_def rest_def fin_def by (subst walk.simps) (simp only: Let_def)
  show ?case
  proof (cases "st = [] \<or> (fin \<and> po) \<or> \<not> n_is_dir (node fs i)")
    case True
    then show ?thesis using run 1(3,4) by (auto split: if_splits)
  next
    case False
    then obtain c where c: "find_child fs i nm = Some c" "walk fs c rest po = (Some j, l)"
      using run 1(4) by (auto split: option.splits if_splits)
    have "c \<in> dom (rf_nodes fs)" by (rule tree_ok_child [OF 1(2,3) find_child_mem [OF c(1)]])
    with 1(1) [OF st_def _ nm_def rest_def fin_def _ _ c(1) 1(2) _ c(2)] False show ?thesis by simp
  qed
qed

lemma root_dom: "tree_ok fs \<Longrightarrow> ROOT \<in> dom (rf_nodes fs)"
  by (simp add: tree_ok_def tree_links_def)

lemmas walk_root = walk_dom [OF _ root_dom]

subsection \<open>The operations keep the invariant\<close>

lemma used_only:
  "tree_ok (fs\<lparr>rf_used := u\<rparr>) = tree_ok fs" "data_ok (fs\<lparr>rf_used := u\<rparr>) = data_ok fs" "spent (fs\<lparr>rf_used := u\<rparr>) = spent fs"
  by (simp_all add: tree_ok_def data_ok_def spent_def node_def)

lemma cost_le_spent:
  assumes "tree_ok fs" and "rf_nodes fs i = Some n" and "i \<noteq> ROOT"
  shows "cost n \<le> spent fs"
proof -
  have "finite (dom (rf_nodes fs) - {ROOT})" using finite_nodes [OF assms(1)] by simp
  moreover have "i \<in> dom (rf_nodes fs) - {ROOT}" using assms by auto
  ultimately have "cost (node fs i) \<le> spent fs" unfolding spent_def by (intro member_le_sum) simp_all
  then show ?thesis using assms(2) by (simp add: node_of)
qed

lemma fs_inv_attr:
  assumes "fs_inv fs" and "rf_nodes fs i = Some n" and "n_parent n' = n_parent n" "n_children n' = n_children n"
    "n_is_dir n' = n_is_dir n" "n_capacity n' = n_capacity n" and "length (n_data n') = length (n_data n)"
    and "n_size n' \<le> n_capacity n"
  shows "fs_inv (set_node fs i n')"
proof -
  have t: "tree_ok fs" and d: "data_ok fs" and b: "budget_ok fs" using assms(1) by (simp_all add: fs_inv_def)
  have "tree_ok (set_node fs i n')" by (rule tree_ok_same_links [OF t assms(2-5)])
  moreover have "data_ok (set_node fs i n')" using d assms(2,5-8) unfolding data_ok_def by auto
  moreover have "budget_ok (set_node fs i n')"
    using b spent_same [OF finite_nodes [OF t] assms(2,6)] by (simp add: budget_ok_def)
  ultimately show ?thesis by (simp add: fs_inv_def)
qed

lemma create_node_inv:
  assumes "fs_inv fs" and "p \<in> dom (rf_nodes fs)" and "n_is_dir (node fs p)"
    and "create_node mem now fs p name d = (r, fs')"
  shows "fs_inv fs'" and "r = None \<Longrightarrow> fs' = fs"
    and "r = Some i \<Longrightarrow> i = rf_next fs \<and> rf_next fs' = Suc i \<and> i \<noteq> ROOT \<and> rf_nodes fs i = None \<and>
      (\<forall>j. j \<noteq> i \<longrightarrow> map_option n_is_dir (rf_nodes fs' j) = map_option n_is_dir (rf_nodes fs j)) \<and>
      (\<exists>n. rf_nodes fs' i = Some n \<and> n_is_dir n = d \<and> n_size n = 0 \<and> n_name n = name \<and> n_parent n = Some p)"
proof -
  have t: "tree_ok fs" and dt: "data_ok fs" and b: "budget_ok fs" using assms(1) by (simp_all add: fs_inv_def)
  obtain pn where pn: "rf_nodes fs p = Some pn" using assms(2) by auto
  have pd: "n_is_dir pn" using assms(3) pn by (simp add: node_of)
  obtain ok fs1 where ch: "charge fs SIZEOF_NODE = (ok, fs1)" by fastforce
  have small: "rf_used fs \<le> rf_budget fs" "rf_budget fs < 0x80000000" "SIZEOF_NODE \<le> 0x80000000"
    using b by (simp_all add: budget_ok_def SIZEOF_NODE_def)
  note c = charge_ok [OF small ch]
  have undo: "refund fs1 SIZEOF_NODE = fs" if "ok"
    by (rule refund_charge [OF ch [unfolded that [THEN eqTrueI]]])
      (use small in \<open>simp add: word_le_nat_alt word_less_nat_alt SIZEOF_NODE_def\<close>)
  let ?i = "rf_next fs"
  have fresh: "rf_nodes fs ?i = None" "?i \<noteq> ROOT" "p \<noteq> ?i"
    using t pn unfolding tree_ok_def tree_links_def by (auto simp: dom_def)
  let ?new = "\<lparr>n_name = name, n_parent = Some p, n_children = [], n_is_dir = d, n_data = [], n_size = 0,
     n_capacity = 0, n_mtime = (case now of None \<Rightarrow> 0 | Some t \<Rightarrow> t)\<rparr>"
  let ?res = "set_node (set_node fs1 ?i ?new) p (pn\<lparr>n_children := ?i # n_children pn\<rparr>)\<lparr>rf_next := Suc ?i\<rparr>"
  have alt: "r = None \<and> fs' = fs \<or> ok \<and> r = Some ?i \<and> fs' = ?res"
    using assms(4) c ch undo pn by (auto simp: create_node_def Let_def node_def split: if_splits)
  have res: "fs_inv ?res" if "ok"
  proof -
    have fs1: "fs1 = fs\<lparr>rf_used := rf_used fs + SIZEOF_NODE\<rparr>" "unat (rf_used fs1) = unat (rf_used fs) + unat SIZEOF_NODE"
      "rf_used fs1 \<le> rf_budget fs" using c that by auto
    have "tree_links ((f_par fs)(?i := Some p)) ((f_kids fs)(?i := [], p := ?i # f_kids fs p)) ((f_isdir fs)(?i := d))
        (insert ?i (dom (rf_nodes fs))) (Suc ?i)"
      using t assms(2) pd link_node [OF pn] unfolding tree_ok_def by (intro tree_add) auto
    moreover have "(f_par fs)(?i := Some p, p := n_parent pn) = (f_par fs)(?i := Some p)"
      "(f_isdir fs)(?i := d, p := n_is_dir pn) = (f_isdir fs)(?i := d)"
      using link_node [OF pn] fresh(3) by (auto simp: fun_eq_iff)
    moreover have "insert p (insert ?i (dom (rf_nodes fs))) = insert ?i (dom (rf_nodes fs))" using assms(2) by auto
    ultimately have "tree_ok ?res" using link_node [OF pn] by (simp add: tree_ok_def fs1(1))
    moreover have "data_ok ?res" using dt pn unfolding data_ok_def by (auto simp: fs1(1))
    moreover have "spent ?res = spent fs + unat SIZEOF_NODE"
    proof -
      let ?fs2 = "set_node fs ?i ?new"
      have f2: "finite (dom (rf_nodes ?fs2))" using finite_nodes [OF t] by simp
      have "spent (set_node ?fs2 p (pn\<lparr>n_children := ?i # n_children pn\<rparr>)) = spent ?fs2"
        by (rule spent_same [OF f2]) (use pn fresh(3) in auto)
      also have "\<dots> = spent fs + cost ?new" by (rule spent_new [OF finite_nodes [OF t] fresh(1,2)])
      finally show ?thesis by (simp add: spent_def cost_def node_def fs1(1))
    qed
    ultimately show ?thesis using b fs1 by (simp add: fs_inv_def budget_ok_def)
  qed
  from alt res assms(1) show "fs_inv fs'" by auto
  from alt show "r = None \<Longrightarrow> fs' = fs" by auto
  from alt show "r = Some i \<Longrightarrow> i = rf_next fs \<and> rf_next fs' = Suc i \<and> i \<noteq> ROOT \<and> rf_nodes fs i = None \<and>
      (\<forall>j. j \<noteq> i \<longrightarrow> map_option n_is_dir (rf_nodes fs' j) = map_option n_is_dir (rf_nodes fs j)) \<and>
      (\<exists>n. rf_nodes fs' i = Some n \<and> n_is_dir n = d \<and> n_size n = 0 \<and> n_name n = name \<and> n_parent n = Some p)"
    using fresh c pn by auto
qed

lemma unlink_node_inv:
  assumes "fs_inv fs" and n: "rf_nodes fs i = Some n" and "i \<noteq> ROOT" and "n_children n = []"
  shows "fs_inv (unlink_node fs i)" and "rf_nodes (unlink_node fs i) i = None" and "rf_next (unlink_node fs i) = rf_next fs"
    and "j \<noteq> i \<Longrightarrow> map_option n_is_dir (rf_nodes (unlink_node fs i) j) = map_option n_is_dir (rf_nodes fs j)"
proof -
  have t: "tree_ok fs" and dt: "data_ok fs" and b: "budget_ok fs" using assms(1) by (simp_all add: fs_inv_def)
  have "f_par fs i \<noteq> None" using t assms(2,3) unfolding tree_ok_def tree_links_def by (auto simp: dom_def)
  then obtain p where p: "n_parent n = Some p" using link_node [OF n] by auto
  have pi: "f_par fs i = Some p" "f_kids fs i = []" using link_node [OF n] p assms(4) by auto
  then have pD: "p \<in> dom (rf_nodes fs)" "p \<noteq> i" using t unfolding tree_ok_def tree_links_def by blast+
  then obtain pn where pn: "rf_nodes fs p = Some pn" by auto
  let ?pn = "pn\<lparr>n_children := remove1 i (n_children pn)\<rparr>"
  let ?fs1 = "set_node fs p ?pn"
  let ?del = "?fs1\<lparr>rf_nodes := (rf_nodes ?fs1)(i := None)\<rparr>"
  have det: "detach fs i = ?fs1" using p n pn by (simp add: detach_def node_def)
  have cap: "n_data n = [] \<longleftrightarrow> n_capacity n = 0"
  proof -
    have "length (n_data n) = unat (n_capacity n)" using dt n by (auto simp: data_ok_def)
    then show ?thesis by (metis length_0_conv unat_eq_zero)
  qed
  have cle: "cost n \<le> unat (rf_used fs)" using cost_le_spent [OF t n assms(3)] b by (simp add: budget_ok_def)
  then have u1: "n_capacity n \<le> rf_used fs" "unat (rf_used fs - n_capacity n) = unat (rf_used fs) - unat (n_capacity n)"
    by (simp_all add: cost_def word_le_nat_alt unat_sub_no_wrap)
  have ref: "(if n_data n \<noteq> [] then refund ?fs1 (n_capacity n) else ?fs1) = ?fs1\<lparr>rf_used := rf_used fs - n_capacity n\<rparr>"
    using cap u1(1) refund_exact [of "n_capacity n" ?fs1] by (cases "n_data n = []") (simp_all add: set_node_def)
  have u2: "SIZEOF_NODE \<le> rf_used fs - n_capacity n" using cle u1(2) by (simp add: cost_def word_le_nat_alt)
  define u where "u = rf_used fs - n_capacity n - SIZEOF_NODE"
  have uu: "unat u = unat (rf_used fs) - cost n" using u1(2) u2 by (simp add: u_def unat_sub_no_wrap cost_def)
  have eq: "unlink_node fs i = ?del\<lparr>rf_used := u\<rparr>"
    unfolding unlink_node_def Let_def node_of [OF n] det ref using refund_exact [of SIZEOF_NODE] u2 by (simp add: u_def)
  have "tree_links ((f_par fs)(i := None)) ((f_kids fs)(p := remove1 i (f_kids fs p), i := [])) ((f_isdir fs)(i := False))
      (dom (rf_nodes fs) - {i}) (rf_next fs)"
    by (rule tree_remove) (use t pi in \<open>simp_all add: tree_ok_def\<close>)
  moreover have "(f_par fs)(p := n_parent pn, i := None) = (f_par fs)(i := None)"
    "(f_isdir fs)(p := n_is_dir pn, i := False) = (f_isdir fs)(i := False)" "insert p (dom (rf_nodes fs)) - {i} = dom (rf_nodes fs) - {i}"
    using link_node [OF pn] pD by (auto simp: fun_eq_iff)
  moreover have "f_par ?del = (f_par fs)(p := n_parent pn, i := None)"
    "f_kids ?del = (f_kids fs)(p := remove1 i (n_children pn), i := [])" "f_isdir ?del = (f_isdir fs)(p := n_is_dir pn, i := False)"
    by (rule ext, simp add: f_par_def f_kids_def f_isdir_def)+
  ultimately have "tree_ok ?del" using link_node [OF pn] unfolding tree_ok_def by simp
  moreover have "data_ok ?del" using dt pn unfolding data_ok_def by (auto split: if_splits)
  moreover have "spent ?del + cost n = spent fs"
  proof -
    have f1: "finite (dom (rf_nodes ?fs1))" using finite_nodes [OF t] by simp
    have "rf_nodes ?fs1 i = Some n" using n pD(2) by simp
    from spent_delete [OF f1 this assms(3)] spent_same [OF finite_nodes [OF t] pn, of ?pn] show ?thesis by simp
  qed
  ultimately show "fs_inv (unlink_node fs i)"
    using b uu unfolding eq fs_inv_def budget_ok_def used_only by (auto simp: word_le_nat_alt)
  show "rf_nodes (unlink_node fs i) i = None" "rf_next (unlink_node fs i) = rf_next fs" unfolding eq by simp_all
  show "j \<noteq> i \<Longrightarrow> map_option n_is_dir (rf_nodes (unlink_node fs i) j) = map_option n_is_dir (rf_nodes fs j)"
    unfolding eq using pn by simp
qed

lemma file_has_no_children:
  assumes "tree_ok fs" and "rf_nodes fs i = Some n" and "\<not> n_is_dir n"
  shows "n_children n = []"
proof (rule ccontr)
  assume "n_children n \<noteq> []"
  then obtain c where "c \<in> set (f_kids fs i)" using link_node [OF assms(2)] by (cases "n_children n") auto
  then have "f_isdir fs i" using assms(1) unfolding tree_ok_def tree_links_def by blast
  with link_node [OF assms(2)] assms(3) show False by simp
qed

text \<open>\<open>grow\<close> returns when asked for at most 2 GiB, and never returns otherwise.\<close>

definition grown :: "ag_ramfs \<Rightarrow> nat \<Rightarrow> ram_node \<Rightarrow> u32 \<Rightarrow> bool \<Rightarrow> ag_ramfs \<Rightarrow> bool" where
  "grown fs i n needed r fs' \<longleftrightarrow> fs_inv fs' \<and> rf_next fs' = rf_next fs \<and>
     (if r then (\<exists>d c. rf_nodes fs' = (rf_nodes fs)(i \<mapsto> n\<lparr>n_data := d, n_capacity := c\<rparr>) \<and> needed \<le> c \<and>
               take (unat (n_size n)) d = take (unat (n_size n)) (n_data n))
      else fs' = fs)"

lemma grow_cases:
  assumes inv: "fs_inv fs" and n: "rf_nodes fs i = Some n" and "\<not> n_is_dir n"
  shows "if needed \<le> 0x80000000 \<or> needed \<le> n_capacity n
    then \<exists>r fs'. grow mem fs i needed = Some (r, fs') \<and> grown fs i n needed r fs'
    else grow mem fs i needed = None"
proof -
  have t: "tree_ok fs" and dt: "data_ok fs" and b: "budget_ok fs" using inv by (simp_all add: fs_inv_def)
  have nd: "length (n_data n) = unat (n_capacity n)" "n_size n \<le> n_capacity n"
      "n_capacity n = 0 \<or> (\<exists>k \<le> 31. n_capacity n = 2 ^ k)" using dt n unfolding data_ok_def by blast+
  have iR: "i \<noteq> ROOT" using t n assms(3) link_node [OF n] unfolding tree_ok_def tree_links_def by auto
  obtain k where k: "(if n_capacity n = 0 then 64 else n_capacity n) = 2 ^ k" "k \<le> 31"
  proof (cases "n_capacity n = 0")
    case True
    then show ?thesis using that [of 6] by simp
  next
    case False
    then show ?thesis using nd(3) that by auto
  qed
  show ?thesis
  proof (cases "needed \<le> n_capacity n")
    case True
    then have "grow mem fs i needed = Some (True, fs)" by (simp add: grow_def node_of [OF n])
    moreover have "rf_nodes fs = (rf_nodes fs)(i \<mapsto> n\<lparr>n_data := n_data n, n_capacity := n_capacity n\<rparr>)"
      using n by (auto simp: fun_eq_iff)
    then have "grown fs i n needed True fs"
      using True inv unfolding grown_def by (auto intro!: exI [of _ "n_data n"] exI [of _ "n_capacity n"])
    ultimately show ?thesis using True by auto
  next
    case False
    note dp = double_until_pow [OF k(2), of needed]
    show ?thesis
    proof (cases "needed \<le> 0x80000000")
      case small: True
      then obtain j where j: "k \<le> j" "j \<le> 31" "double_until (2 ^ k) needed = Some (2 ^ j)" "needed \<le> 2 ^ j"
        using dp by auto
      let ?c = "2 ^ j :: u32"
      have cap: "n_capacity n < ?c" using False j(4) by simp
      have cle: "?c \<le> 0x80000000"
      proof -
        have "(2 :: nat) ^ j \<le> 2 ^ 31" using j(2) by (intro power_increasing) simp_all
        then show ?thesis using unat_pow2 [OF j(2)] by (simp add: word_le_nat_alt)
      qed
      have diff: "unat (?c - n_capacity n) = unat ?c - unat (n_capacity n)" using cap by (simp add: unat_sub_no_wrap)
      then have dle: "?c - n_capacity n \<le> 0x80000000" using cle by (simp add: word_le_nat_alt)
      obtain ok fs1 where ch: "charge fs (?c - n_capacity n) = (ok, fs1)" by fastforce
      have bud: "rf_used fs \<le> rf_budget fs" "rf_budget fs < 0x80000000" using b by (simp_all add: budget_ok_def)
      note c = charge_ok [OF bud dle ch]
      let ?d = "take (unat (n_size n)) (n_data n) @ replicate (unat ?c - unat (n_size n)) 0"
      let ?n = "n\<lparr>n_data := ?d, n_capacity := ?c\<rparr>"
      have g: "grow mem fs i needed = (if \<not> ok then Some (False, fs1)
          else if \<not> mem ?c then Some (False, refund fs1 (?c - n_capacity n)) else Some (True, set_node fs1 i ?n))"
        using False by (simp add: grow_def node_of [OF n] k(1) j(3) ch Let_def)
      have undo: "refund fs1 (?c - n_capacity n) = fs" if "ok"
        by (rule refund_charge [OF ch [unfolded that [THEN eqTrueI]]])
          (use bud dle in \<open>simp add: word_le_nat_alt word_less_nat_alt\<close>)
      have szle: "unat (n_size n) \<le> unat (n_capacity n)" "unat (n_capacity n) < unat ?c"
        using nd(2) cap by (simp_all add: word_le_nat_alt word_less_nat_alt)
      have ginv: "fs_inv (set_node fs1 i ?n)" if "ok"
      proof -
        have fs1: "fs1 = fs\<lparr>rf_used := rf_used fs + (?c - n_capacity n)\<rparr>"
          "unat (rf_used fs1) = unat (rf_used fs) + unat (?c - n_capacity n)" "rf_used fs1 \<le> rf_budget fs"
          using c that by auto
        have sn: "set_node fs1 i ?n = (set_node fs i ?n)\<lparr>rf_used := rf_used fs1\<rparr>" by (simp add: fs1(1) set_node_def)
        have "tree_ok (set_node fs i ?n)" by (rule tree_ok_same_links [OF t n]) simp_all
        moreover have "data_ok (set_node fs i ?n)"
          using dt szle nd assms(3) j(2) unfolding data_ok_def by (auto simp: word_le_nat_alt)
        moreover have "spent (set_node fs i ?n) + cost n = spent fs + cost ?n"
          by (rule spent_update [OF finite_nodes [OF t] n iR])
        then have "spent (set_node fs i ?n) = spent fs + unat (?c - n_capacity n)"
          using diff szle(2) by (simp add: cost_def)
        ultimately show ?thesis using b fs1 unfolding sn fs_inv_def used_only budget_ok_def by simp
      qed
      have "take (unat (n_size n)) ?d = take (unat (n_size n)) (n_data n)" using szle(1) nd(1) by simp
      then have yes: "grown fs i n needed True (set_node fs1 i ?n)" if "ok"
        using ginv [OF that] c that j(4) unfolding grown_def by (auto intro!: exI [of _ ?d] exI [of _ ?c])
      have no: "grown fs i n needed False fs" using inv by (simp add: grown_def)
      show ?thesis
      proof (cases "ok \<and> mem ?c")
        case True
        with g yes small show ?thesis by auto
      next
        case False
        then have "grow mem fs i needed = Some (False, fs)" using g c undo by (cases ok) auto
        with no small show ?thesis by auto
      qed
    next
      case big: False
      then have "double_until (2 ^ k) needed = None" using dp by simp
      then show ?thesis using False big by (simp add: grow_def node_of [OF n] k(1))
    qed
  qed
qed

lemma double_until_bounds:
  assumes "double_until c needed = Some r"
  shows "needed \<le> r \<and> (r = c \<or> unat r < 2 * unat needed)"
proof (rule double_until.raw_induct [of "\<lambda>c n r. n \<le> r \<and> (r = c \<or> unat r < 2 * unat n)", OF _ assms])
  fix rec c n r
  assume IH: "\<And>c n r. rec c n = Some r \<Longrightarrow> n \<le> r \<and> (r = c \<or> unat r < 2 * unat n)"
    and r: "(if c < n then rec (c * 2) n else Some c) = Some r"
  have "unat (c * 2) \<le> unat c * 2" by (simp add: unat_word_ariths)
  then show "n \<le> r \<and> (r = c \<or> unat r < 2 * unat n)"
    using IH [of "c * 2" n r] r by (auto simp: word_less_nat_alt word_le_nat_alt split: if_splits)
qed

text \<open>With the heap and the budget willing, growing succeeds.\<close>

lemma grow_succeeds:
  assumes inv: "fs_inv fs" and n: "rf_nodes fs i = Some n" and nd: "\<not> n_is_dir n" and mem: "\<And>c. mem c"
    and room: "unat (rf_used fs) + 64 + 2 * unat needed \<le> unat (rf_budget fs)"
  shows "\<exists>fs'. grow mem fs i needed = Some (True, fs')"
proof (cases "needed \<le> n_capacity n")
  case True
  then show ?thesis by (simp add: grow_def node_of [OF n])
next
  case False
  have "unat (rf_budget fs) < 0x80000000" using inv by (simp add: fs_inv_def budget_ok_def word_less_nat_alt)
  then have "needed \<le> 0x80000000" using room by (simp add: word_le_nat_alt)
  then obtain r fs' where g: "grow mem fs i needed = Some (r, fs')" using grow_cases [OF inv n nd, of needed mem] by auto
  let ?c0 = "if n_capacity n = 0 then 64 else n_capacity n"
  obtain c where c: "double_until ?c0 needed = Some c"
    using g False by (cases "double_until ?c0 needed") (auto simp: grow_def node_of [OF n])
  note b = double_until_bounds [OF c]
  then have "unat c \<le> 64 + 2 * unat needed" using False by (auto split: if_splits)
  moreover have "unat (c - n_capacity n) = unat c - unat (n_capacity n)" using b False by (intro unat_sub_no_wrap) (simp add: word_le_nat_alt)
  moreover have "unat (rf_used fs + (c - n_capacity n)) \<le> unat (rf_used fs) + unat (c - n_capacity n)"
    by (simp add: unat_word_ariths)
  ultimately have "\<not> rf_budget fs < rf_used fs + (c - n_capacity n)" using room by (simp add: word_less_nat_alt)
  then show ?thesis using False c mem by (simp add: grow_def node_of [OF n] charge_def Let_def)
qed

subsection \<open>Handles\<close>

definition handle_ok :: "ag_ramfs \<Rightarrow> ram_file \<Rightarrow> bool" where
  "handle_ok fs h \<longleftrightarrow> f_node h < rf_next fs \<and> (\<forall>n. rf_nodes fs (f_node h) = Some n \<longrightarrow> \<not> n_is_dir n)"

text \<open>No node that existed changes its kind.\<close>

definition keeps :: "ag_ramfs \<Rightarrow> ag_ramfs \<Rightarrow> bool" where
  "keeps fs fs' \<longleftrightarrow> rf_next fs \<le> rf_next fs' \<and>
     (\<forall>j < rf_next fs. rf_nodes fs' j = None \<or> map_option n_is_dir (rf_nodes fs' j) = map_option n_is_dir (rf_nodes fs j))"

lemma keeps_refl [simp]: "keeps fs fs"
  by (simp add: keeps_def)

lemma keeps_handle:
  assumes "keeps fs fs'" and "handle_ok fs h"
  shows "handle_ok fs' h"
proof -
  have j: "f_node h < rf_next fs" "\<And>n. rf_nodes fs (f_node h) = Some n \<Longrightarrow> \<not> n_is_dir n"
    using assms(2) by (auto simp: handle_ok_def)
  have "\<not> n_is_dir n'" if n': "rf_nodes fs' (f_node h) = Some n'" for n'
  proof -
    have "Some (n_is_dir n') = map_option n_is_dir (rf_nodes fs (f_node h))"
      using assms(1) j(1) n' unfolding keeps_def by fastforce
    then show ?thesis using j(2) by (auto simp: map_option_case split: option.splits)
  qed
  then show ?thesis using assms(1) j(1) by (auto simp: handle_ok_def keeps_def)
qed

lemma keeps_set_node: "rf_nodes fs i = Some n \<Longrightarrow> n_is_dir n' = n_is_dir n \<Longrightarrow> keeps fs (set_node fs i n')"
  by (simp add: keeps_def)

lemma grown_node:
  assumes "grown fs i n needed True fs1"
  obtains d c where "rf_nodes fs1 i = Some (n\<lparr>n_data := d, n_capacity := c\<rparr>)" and "needed \<le> c" and "length d = unat c"
    and "n_size n \<le> c" and "take (unat (n_size n)) d = take (unat (n_size n)) (n_data n)"
    and "\<And>j. j \<noteq> i \<Longrightarrow> rf_nodes fs1 j = rf_nodes fs j"
proof -
  from assms obtain d c where dc: "rf_nodes fs1 = (rf_nodes fs)(i \<mapsto> n\<lparr>n_data := d, n_capacity := c\<rparr>)" "needed \<le> c"
      "take (unat (n_size n)) d = take (unat (n_size n)) (n_data n)" and inv: "fs_inv fs1"
    by (auto simp: grown_def)
  have "rf_nodes fs1 i = Some (n\<lparr>n_data := d, n_capacity := c\<rparr>)" using dc(1) by simp
  with inv have "length d = unat c" "n_size n \<le> c" unfolding fs_inv_def data_ok_def by fastforce+
  with dc show ?thesis by (intro that [where d = d and c = c]) auto
qed

lemma grown_keeps: "grown fs i n needed r fs1 \<Longrightarrow> rf_nodes fs i = Some n \<Longrightarrow> keeps fs fs1"
  by (auto simp: grown_def keeps_def split: if_splits)

lemma blit_SomeD: "blit d off bs = Some d' \<Longrightarrow> length d' = length d \<and> off + length bs \<le> length d \<and> d' = take off d @ bs @ drop (off + length bs) d"
  by (auto simp: blit_def min_def split: if_splits)

definition write_pos :: "ag_ramfs \<Rightarrow> ram_file \<Rightarrow> u32" where
  "write_pos fs h = (if f_append h then n_size (node fs (f_node h)) else f_pos h)"

text \<open>A write, from the growing on.\<close>

lemma write_unfold:
  assumes "f_writable h" and "buf \<noteq> []" and n: "rf_nodes fs (f_node h) = Some n"
    and pos: "pos = write_pos fs h" and fin: "fin = pos + word_of_nat (length buf)"
  shows "ramfs_write mem now fs h buf =
    (case grow mem fs (f_node h) fin of
       None \<Rightarrow> None
     | Some (False, fs1) \<Rightarrow> Some (Inl AG_ENOSPC, fs1, h\<lparr>f_pos := pos\<rparr>)
     | Some (True, fs1) \<Rightarrow>
         (case (if pos > n_size (node fs1 (f_node h))
                then blit (n_data (node fs1 (f_node h))) (unat (n_size (node fs1 (f_node h))))
                       (replicate (unat (pos - n_size (node fs1 (f_node h)))) 0)
                else Some (n_data (node fs1 (f_node h)))) of
            None \<Rightarrow> None
          | Some d1 \<Rightarrow>
              (case blit d1 (unat pos) buf of
                 None \<Rightarrow> None
               | Some d2 \<Rightarrow>
                   Some (Inr (length buf),
                     set_node fs1 (f_node h) ((node fs1 (f_node h))\<lparr>n_data := d2,
                        n_size := (if fin > n_size (node fs1 (f_node h)) then fin else n_size (node fs1 (f_node h))),
                        n_mtime := (case now of None \<Rightarrow> n_mtime (node fs1 (f_node h)) | Some t \<Rightarrow> t)\<rparr>),
                     h\<lparr>f_pos := fin\<rparr>))))"
proof -
  have h1: "(if f_append h then h\<lparr>f_pos := n_size (node fs (f_node h))\<rparr> else h) = h\<lparr>f_pos := pos\<rparr>"
    by (simp add: pos write_pos_def)
  have p: "f_pos (h\<lparr>f_pos := pos\<rparr>) = pos" "h\<lparr>f_pos := pos\<rparr>\<lparr>f_pos := fin\<rparr> = h\<lparr>f_pos := fin\<rparr>" by simp_all
  have c: "(\<not> f_writable h) = False" "(buf = []) = False" "(rf_nodes fs (f_node h) = None) = False" using assms(1-3) by simp_all
  show ?thesis unfolding ramfs_write_def Let_def h1 p(1) c if_False fin [symmetric] p(2) by (rule refl)
qed

lemma write_inv:
  assumes inv: "fs_inv fs" and h: "handle_ok fs h" and w: "ramfs_write mem now fs h buf = Some (r, fs', h')"
  shows "fs_inv fs' \<and> keeps fs fs' \<and> f_node h' = f_node h"
proof (cases "f_writable h \<and> buf \<noteq> []")
  case False
  then show ?thesis using w inv by (auto simp: ramfs_write_def split: if_splits)
next
  case True
  then obtain n where n: "rf_nodes fs (f_node h) = Some n" using w by (auto simp: ramfs_write_def split: if_splits)
  have nd: "\<not> n_is_dir n" using h n by (simp add: handle_ok_def)
  let ?i = "f_node h"
  define pos where "pos = write_pos fs h"
  define fin where "fin = pos + word_of_nat (length buf)"
  note W = write_unfold [OF True [THEN conjunct1] True [THEN conjunct2] n pos_def fin_def, of mem now]
  obtain ok fs1 where g: "grow mem fs ?i fin = Some (ok, fs1)" using w W by (cases "grow mem fs ?i fin") auto
  then have gr: "grown fs ?i n fin ok fs1" using grow_cases [OF inv n nd, of fin mem] by (auto split: if_splits)
  show ?thesis
  proof (cases ok)
    case False
    then show ?thesis using w W g gr inv by (auto simp: grown_def)
  next
    case ok: True
    from grown_node [OF gr [unfolded ok [THEN eqTrueI]]] obtain d c where
      n1: "rf_nodes fs1 ?i = Some (n\<lparr>n_data := d, n_capacity := c\<rparr>)" and c: "fin \<le> c" "length d = unat c" "n_size n \<le> c"
      by blast
    let ?n1 = "n\<lparr>n_data := d, n_capacity := c\<rparr>"
    have nn: "node fs1 ?i = ?n1" using n1 by (rule node_of)
    from w W g ok nn obtain d1 d2 where d1: "(if pos > n_size n then blit d (unat (n_size n)) (replicate (unat (pos - n_size n)) 0) else Some d) = Some d1"
      and d2: "blit d1 (unat pos) buf = Some d2"
      and res: "fs' = set_node fs1 ?i (?n1\<lparr>n_data := d2, n_size := (if fin > n_size n then fin else n_size n),
          n_mtime := (case now of None \<Rightarrow> n_mtime n | Some t \<Rightarrow> t)\<rparr>)" "h' = h\<lparr>f_pos := fin\<rparr>"
      by (auto split: option.splits if_splits)
    have "length d2 = length d" using d1 blit_SomeD [OF d2] by (auto dest: blit_SomeD split: if_splits)
    then have "fs_inv fs'" unfolding res(1)
      by (intro fs_inv_attr [OF _ n1]) (use gr c in \<open>auto simp: grown_def\<close>)
    moreover have "keeps fs fs'"
      using gr [unfolded ok [THEN eqTrueI]] n unfolding res(1) by (auto simp: grown_def keeps_def)
    ultimately show ?thesis using res(2) by simp
  qed
qed


lemma truncate_inv:
  assumes inv: "fs_inv fs" and h: "handle_ok fs h" and w: "ramfs_truncate mem fs h len = Some (r, fs')"
  shows "fs_inv fs' \<and> keeps fs fs'"
proof (cases "f_writable h")
  case False
  then show ?thesis using w inv by (auto simp: ramfs_truncate_def)
next
  case True
  then obtain n where n: "rf_nodes fs (f_node h) = Some n" using w by (auto simp: ramfs_truncate_def split: if_splits)
  have nd: "\<not> n_is_dir n" using h n by (simp add: handle_ok_def)
  let ?i = "f_node h" and ?l = "ucast len :: u32"
  have sz: "n_size n \<le> n_capacity n" using inv n by (auto simp: fs_inv_def data_ok_def)
  show ?thesis
  proof (cases "len > ucast (n_size n)")
    case False
    then have "?l \<le> n_size n" by (simp add: word_le_nat_alt word_less_nat_alt unat_ucast32)
    then have "fs_inv (set_node fs ?i (n\<lparr>n_size := ?l\<rparr>))" using sz by (intro fs_inv_attr [OF inv n]) auto
    then show ?thesis using w True False n keeps_set_node [OF n, of "n\<lparr>n_size := ?l\<rparr>"]
      by (simp add: ramfs_truncate_def node_of [OF n])
  next
    case big: True
    obtain ok fs1 where g: "grow mem fs ?i ?l = Some (ok, fs1)"
      using w True n big by (cases "grow mem fs ?i ?l") (auto simp: ramfs_truncate_def node_of [OF n])
    then have gr: "grown fs ?i n ?l ok fs1" using grow_cases [OF inv n nd, of ?l mem] by (auto split: if_splits)
    show ?thesis
    proof (cases ok)
      case False
      then show ?thesis using w True n big g gr inv by (auto simp: ramfs_truncate_def node_of [OF n] grown_def)
    next
      case ok: True
      note gt = gr [unfolded ok [THEN eqTrueI]]
      from grown_node [OF gt] obtain d c where
        n1: "rf_nodes fs1 ?i = Some (n\<lparr>n_data := d, n_capacity := c\<rparr>)" and c: "?l \<le> c" by blast
      let ?n1 = "n\<lparr>n_data := d, n_capacity := c\<rparr>"
      from w True n big g ok obtain d2 where d2: "blit d (unat (n_size n)) (replicate (unat (?l - n_size n)) 0) = Some d2"
        and res: "fs' = set_node fs1 ?i (?n1\<lparr>n_data := d2, n_size := ?l\<rparr>)"
        by (auto simp: ramfs_truncate_def node_of [OF n] node_of [OF n1] Let_def split: option.splits)
      have "fs_inv fs'" unfolding res
        by (intro fs_inv_attr [OF _ n1]) (use gt c blit_SomeD [OF d2] in \<open>auto simp: grown_def\<close>)
      moreover have "keeps fs fs'" using gt n unfolding res by (auto simp: grown_def keeps_def)
      ultimately show ?thesis by simp
    qed
  qed
qed

lemma open_file_inv:
  assumes inv: "fs_inv fs" and n: "rf_nodes fs i = Some n" and "\<not> n_is_dir n" and o: "open_file mem flags fs i = (r, fs')"
  shows "fs_inv fs' \<and> keeps fs fs' \<and> (\<forall>h. r = Inr h \<longrightarrow> handle_ok fs' h)"
proof -
  have fs': "fs' = (if has_flag flags AG_O_TRUNC then set_node fs i (n\<lparr>n_size := 0\<rparr>) else fs)"
    using o by (auto simp: open_file_def Let_def node_of [OF n] split: if_splits)
  have i: "i < rf_next fs" using inv n by (auto simp: fs_inv_def tree_ok_def tree_links_def)
  have "fs_inv (set_node fs i (n\<lparr>n_size := 0\<rparr>))" by (intro fs_inv_attr [OF inv n]) auto
  then have "fs_inv fs'" using inv fs' by simp
  moreover have "keeps fs fs'" using fs' n keeps_set_node [OF n, of "n\<lparr>n_size := 0\<rparr>"] by simp
  moreover have "f_node h = i" if "r = Inr h" for h
    using o that by (auto simp: open_file_def Let_def split: if_splits)
  then have "handle_ok fs' h" if "r = Inr h" for h
    using that i n assms(3) by (auto simp: handle_ok_def fs')
  ultimately show ?thesis by simp
qed

lemma create_keeps:
  assumes "fs_inv fs" and "p \<in> dom (rf_nodes fs)" and "n_is_dir (node fs p)" and "create_node mem now fs p name d = (r, fs')"
  shows "keeps fs fs'"
proof (cases r)
  case None
  then show ?thesis using create_node_inv(2) [OF assms] by simp
next
  case (Some i)
  then show ?thesis using create_node_inv(3) [OF assms Some] by (auto simp: keeps_def)
qed

lemma keeps_trans:
  assumes "keeps a b" and "keeps b c" and "\<And>j. rf_nodes b j = None \<Longrightarrow> j < rf_next a \<Longrightarrow> rf_nodes c j = None"
  shows "keeps a c"
  unfolding keeps_def
proof (intro conjI allI impI)
  show "rf_next a \<le> rf_next c" using assms(1,2) unfolding keeps_def by linarith
  fix j assume j: "j < rf_next a"
  then have jb: "j < rf_next b" using assms(1) by (simp add: keeps_def)
  show "rf_nodes c j = None \<or> map_option n_is_dir (rf_nodes c j) = map_option n_is_dir (rf_nodes a j)"
    using assms(1,2) j jb assms(3) [of j] unfolding keeps_def by metis
qed

lemma open_inv:
  assumes inv: "fs_inv fs" and o: "ramfs_open mem now fs rel flags = (r, fs')"
  shows "fs_inv fs' \<and> keeps fs fs' \<and> (\<forall>h. r = Inr h \<longrightarrow> handle_ok fs' h)"
proof -
  have t: "tree_ok fs" using inv by (simp add: fs_inv_def)
  show ?thesis
  proof (cases "walk fs ROOT rel False")
    case (Pair w l)
    show ?thesis
    proof (cases w)
      case (Some i)
      then obtain n where n: "rf_nodes fs i = Some n" using walk_root [OF t t, of rel False i l] Pair by auto
      show ?thesis
        using o Pair Some n inv open_file_inv [OF inv n, of mem flags r fs']
        by (auto simp: ramfs_open_def node_of [OF n] split: if_splits)
    next
      case None
      show ?thesis
      proof (cases "walk fs ROOT rel True")
        case wp: (Pair pr lf)
        show ?thesis
        proof (cases "has_flag flags AG_O_CREATE \<and> pr \<noteq> None \<and> lf \<noteq> None")
          case False
          then show ?thesis using o Pair None wp inv by (cases pr; cases lf) (auto simp: ramfs_open_def split: if_splits)
        next
          case True
          then obtain p leaf where pl: "pr = Some p" "lf = Some leaf" by auto
          have p: "p \<in> dom (rf_nodes fs)" "n_is_dir (node fs p)" using walk_root [OF t t, of rel True p lf] wp pl by auto
          obtain c fs1 where c: "create_node mem now fs p leaf False = (c, fs1)" by (cases "create_node mem now fs p leaf False")
          note ci = create_node_inv [OF inv p c] and ck = create_keeps [OF inv p c]
          show ?thesis
          proof (cases c)
            case None
            then show ?thesis using o Pair \<open>w = None\<close> True wp pl c ci(1) ck by (auto simp: ramfs_open_def)
          next
            case (Some i)
            note cs = ci(3) [OF Some]
            then obtain n where n: "rf_nodes fs1 i = Some n" "\<not> n_is_dir n" by auto
            have of: "open_file mem flags fs1 i = (r, fs')" using o Pair \<open>w = None\<close> True wp pl c Some by (simp add: ramfs_open_def)
            have "rf_nodes fs' j = None" if "rf_nodes fs1 j = None" for j
              using of that n(1) by (auto simp: open_file_def Let_def split: if_splits)
            then show ?thesis using open_file_inv [OF ci(1) n of] keeps_trans [OF ck, of fs'] by blast
          qed
        qed
      qed
    qed
  qed
qed


lemma mkdir_inv:
  assumes inv: "fs_inv fs" and o: "ramfs_mkdir mem now fs rel = (r, fs')"
  shows "fs_inv fs' \<and> keeps fs fs'"
proof (cases "walk fs ROOT rel True")
  case (Pair pr lf)
  have t: "tree_ok fs" using inv by (simp add: fs_inv_def)
  show ?thesis
  proof (cases "fst (walk fs ROOT rel False) = None \<and> pr \<noteq> None \<and> lf \<noteq> None")
    case False
    then show ?thesis using o Pair inv by (cases pr; cases lf) (auto simp: ramfs_mkdir_def split: if_splits)
  next
    case True
    then obtain p leaf where pl: "pr = Some p" "lf = Some leaf" by auto
    have p: "p \<in> dom (rf_nodes fs)" "n_is_dir (node fs p)" using walk_root [OF t t, of rel True p lf] Pair pl by auto
    obtain c fs1 where c: "create_node mem now fs p leaf True = (c, fs1)" by (cases "create_node mem now fs p leaf True")
    have "fs' = fs1" using o Pair True pl c by (cases c) (auto simp: ramfs_mkdir_def)
    then show ?thesis using create_node_inv(1) [OF inv p c] create_keeps [OF inv p c] by simp
  qed
qed

lemma unlink_keeps:
  assumes "fs_inv fs" and "rf_nodes fs i = Some n" and "i \<noteq> ROOT" and "n_children n = []"
  shows "fs_inv (unlink_node fs i) \<and> keeps fs (unlink_node fs i)"
  unfolding keeps_def using unlink_node_inv [OF assms] by (metis order_refl)

lemma unlink_inv:
  assumes inv: "fs_inv fs" and o: "ramfs_unlink fs rel = (r, fs')"
  shows "fs_inv fs' \<and> keeps fs fs'"
proof (cases "walk fs ROOT rel False")
  case (Pair w l)
  have t: "tree_ok fs" using inv by (simp add: fs_inv_def)
  show ?thesis
  proof (cases w)
    case None
    then show ?thesis using o Pair inv by (simp add: ramfs_unlink_def)
  next
    case (Some i)
    then obtain n where n: "rf_nodes fs i = Some n" using walk_root [OF t t, of rel False i l] Pair by auto
    show ?thesis
    proof (cases "n_is_dir n")
      case True
      then show ?thesis using o Pair Some inv by (simp add: ramfs_unlink_def node_of [OF n])
    next
      case False
      then have "i \<noteq> ROOT" using t link_node [OF n] unfolding tree_ok_def tree_links_def by auto
      moreover have "n_children n = []" by (rule file_has_no_children [OF t n False])
      ultimately show ?thesis using o Pair Some False unlink_keeps [OF inv n] by (simp add: ramfs_unlink_def node_of [OF n])
    qed
  qed
qed

lemma rmdir_inv:
  assumes inv: "fs_inv fs" and o: "ramfs_rmdir fs rel = (r, fs')"
  shows "fs_inv fs' \<and> keeps fs fs'"
proof (cases "walk fs ROOT rel False")
  case (Pair w l)
  have t: "tree_ok fs" using inv by (simp add: fs_inv_def)
  show ?thesis
  proof (cases w)
    case None
    then show ?thesis using o Pair inv by (simp add: ramfs_rmdir_def)
  next
    case (Some i)
    then obtain n where n: "rf_nodes fs i = Some n" using walk_root [OF t t, of rel False i l] Pair by auto
    show ?thesis
    proof (cases "n_is_dir n \<and> i \<noteq> ROOT \<and> n_children n = []")
      case False
      then show ?thesis using o Pair Some inv by (auto simp: ramfs_rmdir_def node_of [OF n] split: if_splits)
    next
      case True
      then show ?thesis using o Pair Some True unlink_keeps [OF inv n] by (simp add: ramfs_rmdir_def node_of [OF n])
    qed
  qed
qed

text \<open>The walk up ends, and finds the moved node exactly when it is above.\<close>

lemma below_above:
  assumes t: "tree_ok fs" and q: "q \<in> dom (rf_nodes fs)"
  shows "below fs i (Some q) = Some (above (f_par fs) i q)"
proof -
  obtain rank :: "nat \<Rightarrow> nat" where rank: "\<And>i p. f_par fs i = Some p \<Longrightarrow> rank p < rank i"
    using t unfolding tree_ok_def tree_links_def by blast
  have dom: "p \<in> dom (rf_nodes fs)" if "f_par fs j = Some p" for j p
    using t that unfolding tree_ok_def tree_links_def by metis
  show ?thesis using q
  proof (induction "rank q" arbitrary: q rule: less_induct)
    case less
    then obtain n where n: "rf_nodes fs q = Some n" by auto
    have up: "n_parent (node fs q) = f_par fs q" using link_node [OF n] by (simp add: node_of [OF n])
    show ?case
    proof (cases "q = i")
      case True
      then show ?thesis by (subst below.simps) (simp add: above_self)
    next
      case False
      have ab: "above (f_par fs) i q = (case f_par fs q of None \<Rightarrow> False | Some p \<Rightarrow> above (f_par fs) i p)"
        using False by (auto elim: above.cases intro: above_up split: option.splits)
      show ?thesis
      proof (cases "f_par fs q")
        case None
        then show ?thesis using False ab up by (subst below.simps) (simp add: below.simps [of fs i None])
      next
        case (Some p)
        then show ?thesis using False ab up less.hyps [OF rank [OF Some] dom [OF Some]] by (subst below.simps) simp
      qed
    qed
  qed
qed


text \<open>A change that only moves names and links.\<close>

definition stuff :: "ram_node \<Rightarrow> bool \<times> u8 list \<times> u32 \<times> u32" where
  "stuff n = (n_is_dir n, n_data n, n_size n, n_capacity n)"

definition same_data :: "ag_ramfs \<Rightarrow> ag_ramfs \<Rightarrow> bool" where
  "same_data fs fs' \<longleftrightarrow> rf_next fs' = rf_next fs \<and> rf_used fs' = rf_used fs \<and> rf_budget fs' = rf_budget fs \<and>
     (\<forall>j. map_option stuff (rf_nodes fs' j) = map_option stuff (rf_nodes fs j))"

lemma same_dataE:
  assumes "same_data fs fs'" and "rf_nodes fs' j = Some n'"
  obtains n where "rf_nodes fs j = Some n" "n_is_dir n' = n_is_dir n" "n_data n' = n_data n" "n_size n' = n_size n"
    "n_capacity n' = n_capacity n"
proof -
  have "map_option stuff (rf_nodes fs j) = map_option stuff (rf_nodes fs' j)"
    using assms(1) unfolding same_data_def by simp
  then show ?thesis using assms(2) that by (auto simp: stuff_def)
qed

lemma same_data_dom: "same_data fs fs' \<Longrightarrow> dom (rf_nodes fs') = dom (rf_nodes fs)"
proof -
  assume s: "same_data fs fs'"
  have "(rf_nodes fs' j = None) = (rf_nodes fs j = None)" for j
  proof -
    have "map_option stuff (rf_nodes fs' j) = map_option stuff (rf_nodes fs j)" using s by (simp add: same_data_def)
    then show ?thesis by (cases "rf_nodes fs' j"; cases "rf_nodes fs j") simp_all
  qed
  then show ?thesis unfolding dom_def by simp
qed

lemma same_data_inv:
  assumes inv: "fs_inv fs" and s: "same_data fs fs'" and t: "tree_ok fs'"
  shows "fs_inv fs' \<and> keeps fs fs'"
proof -
  have d: "data_ok fs" using inv by (simp add: fs_inv_def)
  have "data_ok fs'" unfolding data_ok_def
  proof (intro allI impI)
    fix j n' assume "rf_nodes fs' j = Some n'"
    from same_dataE [OF s this] obtain n where n: "rf_nodes fs j = Some n" and
      e: "n_is_dir n' = n_is_dir n" "n_data n' = n_data n" "n_size n' = n_size n" "n_capacity n' = n_capacity n" .
    show "length (n_data n') = unat (n_capacity n') \<and> n_size n' \<le> n_capacity n' \<and> (n_is_dir n' \<longrightarrow> n_capacity n' = 0) \<and>
        (n_capacity n' = 0 \<or> (\<exists>k \<le> 31. n_capacity n' = 2 ^ k))"
      using d n unfolding e data_ok_def by blast
  qed
  moreover have "cost (node fs' j) = cost (node fs j)" if "j \<in> dom (rf_nodes fs)" for j
  proof -
    from that obtain n' where n': "rf_nodes fs' j = Some n'" using same_data_dom [OF s] by blast
    from same_dataE [OF s n'] obtain n where "rf_nodes fs j = Some n" "n_capacity n' = n_capacity n" .
    then show ?thesis by (simp add: n' node_of cost_def)
  qed
  then have "spent fs' = spent fs" unfolding spent_def same_data_dom [OF s] by (intro sum.cong) auto
  then have "budget_ok fs'" using inv s by (simp add: fs_inv_def budget_ok_def same_data_def)
  moreover have "map_option n_is_dir (rf_nodes fs' j) = map_option n_is_dir (rf_nodes fs j)" for j
  proof (cases "rf_nodes fs' j")
    case None
    then have "rf_nodes fs j = None" using same_data_dom [OF s] by (metis domIff)
    then show ?thesis using None by simp
  next
    case (Some n')
    then show ?thesis using same_dataE [OF s Some] by fastforce
  qed
  then have "keeps fs fs'" using s by (simp add: keeps_def same_data_def)
  ultimately show ?thesis using t by (simp add: fs_inv_def)
qed

lemma reattach_inv:
  assumes inv: "fs_inv fs" and i: "rf_nodes fs i = Some n" "i \<noteq> ROOT" and q: "rf_nodes fs q = Some m" "n_is_dir m"
    and na: "\<not> above (f_par fs) i q"
  shows "fs_inv (reattach fs i q leaf) \<and> keeps fs (reattach fs i q leaf)"
    and "f_par (reattach fs i q leaf) = (f_par fs)(i := Some q)" and "n_name (node (reattach fs i q leaf) i) = leaf"
proof -
  have t: "tree_links (f_par fs) (f_kids fs) (f_isdir fs) (dom (rf_nodes fs)) (rf_next fs)"
    using inv by (simp add: fs_inv_def tree_ok_def)
  then obtain p where p: "f_par fs i = Some p" using i unfolding tree_links_def by (metis domI option.exhaust)
  then obtain np where np: "rf_nodes fs p = Some np" using t unfolding tree_links_def by (metis domD)
  have ip: "i \<noteq> p" using t p unfolding tree_links_def by (metis less_irrefl)
  have iq: "i \<noteq> q" using na above_self by metis
  have par: "n_parent n = Some p" using p link_node [OF i(1)] by simp
  have r: "reattach fs i q leaf = set_node (set_node (set_node fs p (np\<lparr>n_children := remove1 i (n_children np)\<rparr>))
        i (n\<lparr>n_name := leaf, n_parent := Some q\<rparr>)) q
      ((if q = p then np\<lparr>n_children := remove1 i (n_children np)\<rparr> else m)\<lparr>n_children :=
         i # n_children (if q = p then np\<lparr>n_children := remove1 i (n_children np)\<rparr> else m)\<rparr>)"
    using ip iq i(1) q(1) np par by (simp add: reattach_def detach_def Let_def node_of)
  note ln = link_node [OF i(1)] link_node [OF q(1)] link_node [OF np]
  have same: "same_data fs (reattach fs i q leaf)"
    unfolding same_data_def r stuff_def using i(1) q(1) np ip iq by auto
  show "n_name (node (reattach fs i q leaf) i) = leaf" unfolding r using ip iq by (simp add: node_of)
  show "f_par (reattach fs i q leaf) = (f_par fs)(i := Some q)"
    unfolding r using ln ip iq q(1) np by (auto simp: fun_eq_iff)
  moreover note this
  moreover have "f_kids (reattach fs i q leaf) =
      ((f_kids fs)(p := remove1 i (f_kids fs p)))(q := i # ((f_kids fs)(p := remove1 i (f_kids fs p))) q)"
    unfolding r using ln ip iq q(1) np by (auto simp: fun_eq_iff)
  moreover have "f_isdir (reattach fs i q leaf) = f_isdir fs"
    unfolding r using ln ip iq q(1) np by (auto simp: fun_eq_iff)
  moreover have "tree_links ((f_par fs)(i := Some q))
      (((f_kids fs)(p := remove1 i (f_kids fs p)))(q := i # ((f_kids fs)(p := remove1 i (f_kids fs p))) q))
      (f_isdir fs) (dom (rf_nodes fs)) (rf_next fs)"
    by (rule tree_move [OF t p _ _ na]) (use q ln in auto)
  ultimately have "tree_ok (reattach fs i q leaf)"
    unfolding tree_ok_def same_data_dom [OF same] using same by (simp add: same_data_def)
  then show "fs_inv (reattach fs i q leaf) \<and> keeps fs (reattach fs i q leaf)" by (rule same_data_inv [OF inv same])
qed

text \<open>What a successful rename did: the node found under the old name now hangs, alone of all, elsewhere.\<close>

definition renamed :: "ag_ramfs \<Rightarrow> string \<Rightarrow> string \<Rightarrow> ag_ramfs \<Rightarrow> bool" where
  "renamed fs a b fs' \<longleftrightarrow> (\<exists>i q leaf. fst (walk fs ROOT a False) = Some i \<and> walk fs ROOT b True = (Some q, Some leaf) \<and>
     \<not> above (f_par fs) i q \<and> f_par fs' = (f_par fs)(i := Some q) \<and> n_name (node fs' i) = leaf)"

lemma rename_inv:
  assumes inv: "fs_inv fs"
  obtains r fs' where "ramfs_rename fs a b = Some (r, fs')" and "fs_inv fs' \<and> keeps fs fs'"
    and "if r = Inr () then renamed fs a b fs' else fs' = fs"
proof -
  have t: "tree_ok fs" using inv by (simp add: fs_inv_def)
  obtain w l where w: "walk fs ROOT a False = (w, l)" by (cases "walk fs ROOT a False")
  obtain pr lf where wp: "walk fs ROOT b True = (pr, lf)" by (cases "walk fs ROOT b True")
  show ?thesis
  proof (cases "w \<noteq> None \<and> w \<noteq> Some ROOT \<and> fst (walk fs ROOT b False) = None \<and> pr \<noteq> None \<and> lf \<noteq> None \<and> length (the lf) < AG_NAME_MAX")
    case False
    then have "\<exists>e. ramfs_rename fs a b = Some (Inl e, fs)"
      using w wp by (cases w; cases pr; cases lf) (auto simp: ramfs_rename_def)
    then show ?thesis using that inv by auto
  next
    case True
    then obtain i q leaf where "w = Some i" "pr = Some q" "lf = Some leaf" by auto
    with True have e: "w = Some i" "pr = Some q" "lf = Some leaf" "i \<noteq> ROOT" "length leaf < AG_NAME_MAX"
      and nf: "fst (walk fs ROOT b False) = None" by auto
    from walk_root [OF t t, of a False i l] w e obtain n where n: "rf_nodes fs i = Some n" by auto
    from walk_root [OF t t, of b True q lf] wp e obtain m where m: "rf_nodes fs q = Some m" "n_is_dir m"
      by (auto simp: node_def)
    have bl: "below fs i (Some q) = Some (above (f_par fs) i q)" by (rule below_above [OF t]) (use m in auto)
    show ?thesis
    proof (cases "above (f_par fs) i q")
      case True
      then have "ramfs_rename fs a b = Some (Inl AG_EINVAL, fs)"
        using bl w wp e nf by (simp add: ramfs_rename_def)
      then show ?thesis using that inv by auto
    next
      case False
      then have "ramfs_rename fs a b = Some (Inr (), reattach fs i q leaf)"
        using bl w wp e nf by (simp add: ramfs_rename_def)
      moreover have "renamed fs a b (reattach fs i q leaf)"
        using w wp e False reattach_inv(2,3) [OF inv n e(4) m False, of leaf] by (simp add: renamed_def)
      ultimately show ?thesis using that [of "Inr ()"] reattach_inv(1) [OF inv n e(4) m False, of leaf] by simp
    qed
  qed
qed


section \<open>Every history of calls\<close>

text \<open>
  The states the calls can reach, with the handles that are open: from a fresh filesystem of less than
  2 GiB, any call, granted or refused memory at will, at any time of the clock. Unlinking does not look
  at the open handles.
\<close>

inductive ram_reach :: "ag_ramfs \<Rightarrow> ram_file list \<Rightarrow> bool" where
  reach_create: "ag_ramfs_create mem (Some budget) = Some fs \<Longrightarrow> budget < 0x80000000 \<Longrightarrow> ram_reach fs []"
| reach_open: "ram_reach fs hs \<Longrightarrow> ramfs_open mem now fs rel flags = (Inr h, fs') \<Longrightarrow> ram_reach fs' (h # hs)"
| reach_open_err: "ram_reach fs hs \<Longrightarrow> ramfs_open mem now fs rel flags = (Inl e, fs') \<Longrightarrow> ram_reach fs' hs"
| reach_close: "ram_reach fs hs \<Longrightarrow> ram_reach fs (remove1 h hs)"
| reach_read: "ram_reach fs hs \<Longrightarrow> k < length hs \<Longrightarrow> ramfs_read fs (hs ! k) len = Some (bs, h') \<Longrightarrow>
    ram_reach fs (hs[k := h'])"
| reach_write: "ram_reach fs hs \<Longrightarrow> k < length hs \<Longrightarrow> ramfs_write mem now fs (hs ! k) buf = Some (r, fs', h') \<Longrightarrow>
    ram_reach fs' (hs[k := h'])"
| reach_seek: "ram_reach fs hs \<Longrightarrow> k < length hs \<Longrightarrow> ramfs_seek fs (hs ! k) off whence = (r, h') \<Longrightarrow>
    ram_reach fs (hs[k := h'])"
| reach_truncate: "ram_reach fs hs \<Longrightarrow> h \<in> set hs \<Longrightarrow> ramfs_truncate mem fs h len = Some (r, fs') \<Longrightarrow> ram_reach fs' hs"
| reach_unlink: "ram_reach fs hs \<Longrightarrow> ramfs_unlink fs rel = (r, fs') \<Longrightarrow> ram_reach fs' hs"
| reach_mkdir: "ram_reach fs hs \<Longrightarrow> ramfs_mkdir mem now fs rel = (r, fs') \<Longrightarrow> ram_reach fs' hs"
| reach_rmdir: "ram_reach fs hs \<Longrightarrow> ramfs_rmdir fs rel = (r, fs') \<Longrightarrow> ram_reach fs' hs"
| reach_rename: "ram_reach fs hs \<Longrightarrow> ramfs_rename fs a b = Some (r, fs') \<Longrightarrow> ram_reach fs' hs"

lemma create_inv:
  assumes "ag_ramfs_create mem (Some budget) = Some fs" and "budget < 0x80000000"
  shows "fs_inv fs"
proof -
  have fs: "fs = \<lparr>rf_nodes = [ROOT \<mapsto> root_node], rf_next = 1, rf_budget = budget, rf_used = 0\<rparr>"
    using assms(1) by (auto simp: ag_ramfs_create_def split: if_splits)
  have "f_par fs = (\<lambda>_. None)" "f_kids fs = (\<lambda>_. [])" "f_isdir fs = (\<lambda>i. i = ROOT)"
    by (auto simp: fun_eq_iff fs f_par_def f_kids_def f_isdir_def root_node_def)
  then have "tree_ok fs" by (simp add: tree_ok_def tree_links_def) (simp add: fs ROOT_def)
  moreover have "data_ok fs" by (auto simp: data_ok_def fs root_node_def)
  moreover have "budget_ok fs" using assms(2) by (simp add: budget_ok_def spent_def fs)
  ultimately show ?thesis by (simp add: fs_inv_def)
qed

lemma read_handle: "ramfs_read fs h len = Some (bs, h') \<Longrightarrow> f_node h' = f_node h"
  by (auto simp: ramfs_read_def Let_def split: option.splits if_splits)

lemma seek_handle: "ramfs_seek fs h off w = (r, h') \<Longrightarrow> f_node h' = f_node h"
  by (auto simp: ramfs_seek_def split: option.splits if_splits)

lemma handle_ok_same: "f_node h' = f_node h \<Longrightarrow> handle_ok fs h \<Longrightarrow> handle_ok fs h'"
  by (simp add: handle_ok_def)

lemma handles_update:
  "\<forall>h \<in> set hs. handle_ok fs h \<Longrightarrow> k < length hs \<Longrightarrow> f_node h' = f_node (hs ! k) \<Longrightarrow> keeps fs fs' \<Longrightarrow>
   \<forall>h \<in> set (hs[k := h']). handle_ok fs' h"
  by (metis handle_ok_same in_set_conv_nth insert_iff keeps_handle set_update_subset_insert subsetD)

lemma reach_inv: "ram_reach fs hs \<Longrightarrow> fs_inv fs \<and> (\<forall>h \<in> set hs. handle_ok fs h)"
proof (induction rule: ram_reach.induct)
  case (reach_create mem budget fs)
  then show ?case using create_inv by simp
next
  case (reach_open fs hs mem now rel flags h fs')
  then show ?case using open_inv [of fs mem now rel flags "Inr h" fs'] keeps_handle by auto
next
  case (reach_open_err fs hs mem now rel flags e fs')
  then show ?case using open_inv [of fs mem now rel flags "Inl e" fs'] keeps_handle by blast
next
  case (reach_close fs hs h)
  then show ?case by (meson notin_set_remove1)
next
  case (reach_read fs hs k len bs h')
  then show ?case using handles_update [of hs fs k h' fs] read_handle by simp
next
  case (reach_write fs hs k mem now buf r fs' h')
  then have w: "fs_inv fs' \<and> keeps fs fs' \<and> f_node h' = f_node (hs ! k)"
    by (intro write_inv [of fs "hs ! k" mem now buf r fs' h']) simp_all
  then show ?case using reach_write handles_update [of hs fs k h' fs'] by simp
next
  case (reach_seek fs hs k off whence r h')
  then show ?case using handles_update [of hs fs k h' fs] seek_handle by simp
next
  case (reach_truncate fs hs h mem len r fs')
  then have "fs_inv fs' \<and> keeps fs fs'" by (intro truncate_inv [of fs h mem len r fs']) simp_all
  then show ?case using reach_truncate keeps_handle by blast
next
  case (reach_unlink fs hs rel r fs')
  then show ?case using unlink_inv [of fs rel r fs'] keeps_handle by blast
next
  case (reach_mkdir fs hs mem now rel r fs')
  then show ?case using mkdir_inv [of fs mem now rel r fs'] keeps_handle by blast
next
  case (reach_rmdir fs hs rel r fs')
  then show ?case using rmdir_inv [of fs rel r fs'] keeps_handle by blast
next
  case (reach_rename fs hs a b r fs')
  from reach_rename have inv: "fs_inv fs" by simp
  from rename_inv [OF inv, of a b] reach_rename(2) have "fs_inv fs' \<and> keeps fs fs'" by (metis option.inject prod.inject)
  then show ?case using reach_rename keeps_handle by blast
qed


section \<open>Contents\<close>

definition contents :: "ag_ramfs \<Rightarrow> nat \<Rightarrow> u8 list" where
  "contents fs i = (case rf_nodes fs i of None \<Rightarrow> [] | Some n \<Rightarrow> take (unat (n_size n)) (n_data n))"

text \<open>A file as an array of bytes: writing \<open>bs\<close> at \<open>p\<close>, a gap filled with zeros.\<close>

definition overwrite :: "u8 list \<Rightarrow> nat \<Rightarrow> u8 list \<Rightarrow> u8 list" where
  "overwrite c p bs = take p (c @ replicate (p - length c) 0) @ bs @ drop (p + length bs) c"

lemma file_size:
  assumes "fs_inv fs" and "rf_nodes fs i = Some n"
  shows "length (contents fs i) = unat (n_size n)" and "length (n_data n) = unat (n_capacity n)"
    and "unat (n_size n) \<le> unat (n_capacity n)"
proof -
  show c: "length (n_data n) = unat (n_capacity n)" "unat (n_size n) \<le> unat (n_capacity n)"
    using assms unfolding fs_inv_def data_ok_def by (metis word_le_nat_alt)+
  then show "length (contents fs i) = unat (n_size n)" using assms(2) by (simp add: contents_def)
qed

lemma read_contents:
  assumes "fs_inv fs" and n: "rf_nodes fs (f_node h) = Some n"
  shows "ramfs_read fs h len = Some (take (unat len) (drop (unat (f_pos h)) (contents fs (f_node h))),
    h\<lparr>f_pos := f_pos h + word_of_nat (length (take (unat len) (drop (unat (f_pos h)) (contents fs (f_node h)))))\<rparr>)"
proof -
  note sz = file_size [OF assms]
  have ct: "contents fs (f_node h) = take (unat (n_size n)) (n_data n)" using n by (simp add: contents_def)
  show ?thesis
  proof (cases "f_pos h \<ge> n_size n")
    case True
    then show ?thesis using sz by (simp add: ramfs_read_def n word_le_nat_alt)
  next
    case False
    define k where "k = (if len > n_size n - f_pos h then n_size n - f_pos h else len)"
    have d: "unat (n_size n - f_pos h) = unat (n_size n) - unat (f_pos h)" using False by (intro unat_sub_no_wrap) simp
    then have k: "unat k = min (unat len) (unat (n_size n) - unat (f_pos h))"
      by (auto simp: k_def word_less_nat_alt)
    have "unat (f_pos h) \<le> unat (n_size n)" using False by (simp add: word_le_nat_alt)
    then have "unat (f_pos h) + unat k \<le> length (n_data n)" using sz k by simp
    moreover have "take (unat k) (drop (unat (f_pos h)) (n_data n)) = take (unat len) (drop (unat (f_pos h)) (contents fs (f_node h)))"
      unfolding ct k by (simp add: drop_take)
    moreover have "length (take (unat len) (drop (unat (f_pos h)) (contents fs (f_node h)))) = unat k"
      using sz k by simp
    ultimately show ?thesis using False n unfolding ramfs_read_def k_def [symmetric] by (simp add: Let_def k_def [symmetric])
  qed
qed

lemma overwrite_buffer:
  assumes "length d = cap" and "sz \<le> cap" and "p + length bs \<le> cap"
    and d1: "d1 = (if sz < p then take sz d @ replicate (p - sz) 0 @ drop p d else d)"
  shows "take (max sz (p + length bs)) (take p d1 @ bs @ drop (p + length bs) d1) = overwrite (take sz d) p bs"
proof (cases "sz < p")
  case True
  then show ?thesis using assms unfolding overwrite_def by simp
next
  case False
  have "max sz (p + length bs) - p = length bs + (sz - (p + length bs))" using False by simp
  then show ?thesis using False assms unfolding overwrite_def by (simp add: drop_take min_absorb2)
qed

lemma write_contents:
  assumes inv: "fs_inv fs" and n: "rf_nodes fs (f_node h) = Some n" and nd: "\<not> n_is_dir n" and "f_writable h" and "buf \<noteq> []"
    and pos: "pos = write_pos fs h" and far: "unat pos + length buf \<le> 0x80000000"
  obtains (full) "ramfs_write mem now fs h buf = Some (Inl AG_ENOSPC, fs, h\<lparr>f_pos := pos\<rparr>)"
      "\<not> ((\<forall>c. mem c) \<and> unat (rf_used fs) + 64 + 2 * (unat pos + length buf) \<le> unat (rf_budget fs))"
  | (stored) fs' where "ramfs_write mem now fs h buf = Some (Inr (length buf), fs', h\<lparr>f_pos := pos + word_of_nat (length buf)\<rparr>)"
      "contents fs' (f_node h) = overwrite (contents fs (f_node h)) (unat pos) buf"
      "\<And>j. j \<noteq> f_node h \<Longrightarrow> rf_nodes fs' j = rf_nodes fs j"
proof -
  let ?i = "f_node h"
  define fin where "fin = pos + word_of_nat (length buf)"
  have fin: "unat fin = unat pos + length buf"
    using far by (simp add: fin_def unat_word_ariths unsigned_of_nat take_bit_eq_mod)
  then have small: "fin \<le> 0x80000000" using far by (simp add: word_le_nat_alt)
  note W = write_unfold [OF assms(4,5) n pos fin_def, of mem now]
  from grow_cases [OF inv n nd, of fin mem] small obtain r fs1 where
    g: "grow mem fs ?i fin = Some (r, fs1)" and gr: "grown fs ?i n fin r fs1" by auto
  show thesis
  proof (cases r)
    case False
    have "\<not> ((\<forall>c. mem c) \<and> unat (rf_used fs) + 64 + 2 * (unat pos + length buf) \<le> unat (rf_budget fs))"
      using grow_succeeds [OF inv n nd, of mem fin] g False fin by auto
    then show ?thesis using full W g False gr by (simp add: grown_def)
  next
    case True
    note gt = gr [unfolded True [THEN eqTrueI]]
    from grown_node [OF gt] obtain d c where
      n1: "rf_nodes fs1 ?i = Some (n\<lparr>n_data := d, n_capacity := c\<rparr>)" and c: "fin \<le> c" "length d = unat c" "n_size n \<le> c"
        "take (unat (n_size n)) d = take (unat (n_size n)) (n_data n)" and others: "\<And>j. j \<noteq> ?i \<Longrightarrow> rf_nodes fs1 j = rf_nodes fs j"
      by blast
    have le: "unat (n_size n) \<le> unat c" "unat pos + length buf \<le> unat c" using c fin by (simp_all add: word_le_nat_alt)
    define d1 where "d1 = (if unat (n_size n) < unat pos then take (unat (n_size n)) d @ replicate (unat pos - unat (n_size n)) 0 @ drop (unat pos) d else d)"
    have b1: "(if pos > n_size n then blit d (unat (n_size n)) (replicate (unat (pos - n_size n)) 0) else Some d) = Some d1"
      using le c(2) by (auto simp: d1_def blit_def word_less_nat_alt unat_sub_no_wrap word_le_nat_alt)
    have ld1: "length d1 = unat c" using le c(2) by (simp add: d1_def)
    define d2 where "d2 = take (unat pos) d1 @ buf @ drop (unat pos + length buf) d1"
    have b2: "blit d1 (unat pos) buf = Some d2" using le ld1 by (simp add: blit_def d2_def)
    let ?fs' = "set_node fs1 ?i (n\<lparr>n_capacity := c, n_data := d2, n_size := (if fin > n_size n then fin else n_size n),
        n_mtime := (case now of None \<Rightarrow> n_mtime n | Some t \<Rightarrow> t)\<rparr>)"
    have sel: "n_size (n\<lparr>n_data := d, n_capacity := c\<rparr>) = n_size n" "n_data (n\<lparr>n_data := d, n_capacity := c\<rparr>) = d"
      "n_mtime (n\<lparr>n_data := d, n_capacity := c\<rparr>) = n_mtime n" by simp_all
    have w: "ramfs_write mem now fs h buf = Some (Inr (length buf), ?fs', h\<lparr>f_pos := fin\<rparr>)"
      unfolding W g option.case prod.case True [THEN eqTrueI] bool.case if_True node_of [OF n1] sel b1 b2 by simp
    have sz: "unat (if fin > n_size n then fin else n_size n) = max (unat (n_size n)) (unat pos + length buf)"
      using fin by (auto simp: word_less_nat_alt)
    have "contents ?fs' ?i = overwrite (take (unat (n_size n)) d) (unat pos) buf"
      using overwrite_buffer [OF c(2) le d1_def] by (simp add: contents_def sz d2_def)
    then have "contents ?fs' ?i = overwrite (contents fs ?i) (unat pos) buf" using c(4) n by (simp add: contents_def)
    then show ?thesis using stored [folded fin_def, OF w] others by simp
  qed
qed


text \<open>The file \<open>/a\<close> of a fresh filesystem, opened to be written.\<close>

definition demo :: "ram_file ag_err \<times> ag_ramfs" where
  "demo = ramfs_open (\<lambda>_. True) None (the (ag_ramfs_create (\<lambda>_. True) (Some 4096))) ''/a'' (AG_O_RDWR OR AG_O_CREATE)"

definition demo_fs :: ag_ramfs where
  "demo_fs = \<lparr>rf_nodes = [1 \<mapsto> \<lparr>n_name = ''a'', n_parent = Some ROOT, n_children = [], n_is_dir = False, n_data = [],
         n_size = 0, n_capacity = 0, n_mtime = 0\<rparr>, ROOT \<mapsto> root_node\<lparr>n_children := [1]\<rparr>],
     rf_next = 2, rf_budget = 4096, rf_used = 104\<rparr>"

definition demo_file :: ram_file where
  "demo_file = \<lparr>f_node = 1, f_pos = 0, f_writable = True, f_append = False\<rparr>"

lemmas demo_simps = root_node_def node_def set_node_def find_child_def is_slash_def charge_def refund_def has_flag_def
  ROOT_def SIZEOF_NODE_def SIZEOF_FILE_def AG_O_WRONLY_def AG_O_RDWR_def AG_O_CREATE_def AG_O_TRUNC_def AG_O_APPEND_def
  AG_O_EXCL_def AG_NAME_MAX_def

lemma demo_open: "demo = (Inr demo_file, demo_fs)"
  by (simp add: demo_def ramfs_open_def open_file_def create_node_def ag_ramfs_create_def walk.simps demo_simps demo_fs_def demo_file_def)

lemma demo_reach: "ram_reach demo_fs [demo_file]"
proof -
  let ?fs = "the (ag_ramfs_create (\<lambda>_. True) (Some 4096))"
  have "ag_ramfs_create (\<lambda>_. True) (Some 4096) = Some ?fs" by (simp add: ag_ramfs_create_def)
  then have "ram_reach ?fs []" by (rule reach_create) simp
  then show ?thesis using demo_open unfolding demo_def by (rule reach_open)
qed


section \<open>Properties\<close>

text \<open>
  C4. The filesystem stays whole. After any history of calls, successful or not, whatever the heap
  grants: every node is listed once, where its parent says, parents are directories and nothing is above
  itself; every file's contents fit its buffer and the buffer is what its capacity says; and \<open>used\<close> is
  exactly the sum of what the nodes and buffers cost, within the budget.
\<close>

theorem ramfs_stays_whole:
  "ram_reach fs hs \<Longrightarrow> tree_ok fs \<and> data_ok fs \<and> unat (rf_used fs) = spent fs \<and> rf_used fs \<le> rf_budget fs"
  using reach_inv by (simp add: fs_inv_def budget_ok_def)

theorem ramfs_stays_whole_witness: "tree_ok demo_fs \<and> spent demo_fs = 104"
  using ramfs_stays_whole [OF demo_reach] by (simp add: demo_fs_def)

text \<open>
  C18. A write is a write. On an open handle that may write, at its position (at the end of the file when
  it appends), ending within 2 GiB: the call returns, and either reports \<open>AG_ENOSPC\<close> and changes nothing,
  which it does not do when the heap grants memory and the budget has room for the doubled size, or the
  file holds the bytes at that position, zeros in any gap before them and its old bytes elsewhere, no
  other node changes, and the position is after the bytes.
\<close>

theorem ramfs_write_spec:
  assumes "ram_reach fs hs" and "h \<in> set hs" and "rf_nodes fs (f_node h) \<noteq> None" and "f_writable h" and "buf \<noteq> []"
    and "unat (write_pos fs h) + length buf \<le> 0x80000000"
  shows "(ramfs_write mem now fs h buf = Some (Inl AG_ENOSPC, fs, h\<lparr>f_pos := write_pos fs h\<rparr>) \<and>
      \<not> ((\<forall>c. mem c) \<and> unat (rf_used fs) + 64 + 2 * (unat (write_pos fs h) + length buf) \<le> unat (rf_budget fs))) \<or>
    (\<exists>fs'. ramfs_write mem now fs h buf =
        Some (Inr (length buf), fs', h\<lparr>f_pos := write_pos fs h + word_of_nat (length buf)\<rparr>) \<and>
      contents fs' (f_node h) = overwrite (contents fs (f_node h)) (unat (write_pos fs h)) buf \<and>
      (\<forall>j. j \<noteq> f_node h \<longrightarrow> rf_nodes fs' j = rf_nodes fs j))"
proof -
  from assms(3) obtain n where n: "rf_nodes fs (f_node h) = Some n" by auto
  have inv: "fs_inv fs" "handle_ok fs h" using reach_inv [OF assms(1)] assms(2) by auto
  then have "\<not> n_is_dir n" using n by (simp add: handle_ok_def)
  from write_contents [OF inv(1) n this assms(4,5) refl assms(6), of mem now] show ?thesis
    by cases blast+
qed

theorem ramfs_write_spec_witness:
  "\<exists>fs'. ramfs_write (\<lambda>_. True) None demo_fs demo_file [1, 2, 3] = Some (Inr 3, fs', demo_file\<lparr>f_pos := 3\<rparr>) \<and>
     contents fs' 1 = [1, 2, 3]"
  using ramfs_write_spec [OF demo_reach, of demo_file "[1, 2, 3]" "\<lambda>_. True" None]
  by (auto simp: demo_fs_def demo_file_def demo_simps write_pos_def contents_def overwrite_def)

text \<open>
  What was written is read. After a successful write that ends within 2 GiB, seeking back to where it
  began and reading as many bytes returns the bytes written, and leaves the handle as the write left it.
\<close>

theorem ramfs_write_then_read:
  assumes "ram_reach fs hs" and "h \<in> set hs" and "buf \<noteq> []"
    and "unat (write_pos fs h) + length buf \<le> 0x80000000"
    and w: "ramfs_write mem now fs h buf = Some (Inr k, fs', h')"
  shows "ramfs_read fs' (snd (ramfs_seek fs' h' (uint (write_pos fs h)) AG_SEEK_SET)) (word_of_nat (length buf)) = Some (buf, h')"
proof -
  obtain n where n: "rf_nodes fs (f_node h) = Some n" and wr: "f_writable h"
    using w assms(3) by (auto simp: ramfs_write_def split: if_splits)
  have inv: "fs_inv fs" "handle_ok fs h" using reach_inv [OF assms(1)] assms(2) by auto
  then have nd: "\<not> n_is_dir n" using n by (simp add: handle_ok_def)
  have inv': "fs_inv fs'" using write_inv [OF inv w] by simp
  from write_contents [OF inv(1) n nd wr assms(3) refl assms(4), of mem now]
  have c: "contents fs' (f_node h) = overwrite (contents fs (f_node h)) (unat (write_pos fs h)) buf"
    and h': "h' = h\<lparr>f_pos := write_pos fs h + word_of_nat (length buf)\<rparr>"
    using w by (cases; simp)+
  have "contents fs' (f_node h) \<noteq> []" using c assms(3) by (simp add: overwrite_def)
  then obtain n' where n': "rf_nodes fs' (f_node h) = Some n'" by (auto simp: contents_def split: option.splits)
  let ?h = "h'\<lparr>f_pos := write_pos fs h\<rparr>"
  have s: "snd (ramfs_seek fs' h' (uint (write_pos fs h)) AG_SEEK_SET) = ?h" by (simp add: ramfs_seek_def)
  have len: "unat (word_of_nat (length buf) :: u32) = length buf"
    using assms(4) by (simp add: unsigned_of_nat take_bit_nat_eq_self)
  have "take (length buf) (drop (unat (write_pos fs h)) (contents fs' (f_node h))) = buf"
    unfolding c overwrite_def by simp
  then show ?thesis unfolding s using read_contents [OF inv', of ?h n' "word_of_nat (length buf)"] n' h' len by simp
qed

theorem ramfs_write_then_read_witness:
  "\<exists>fs' h'. ramfs_write (\<lambda>_. True) None demo_fs demo_file [7] = Some (Inr 1, fs', h') \<and>
     ramfs_read fs' (snd (ramfs_seek fs' h' 0 AG_SEEK_SET)) 1 = Some ([7], h')"
proof -
  have u: "double_until 64 1 = Some 64" by (subst double_until.simps) simp
  obtain fs' h' where w: "ramfs_write (\<lambda>_. True) None demo_fs demo_file [7] = Some (Inr 1, fs', h')"
    by (simp add: ramfs_write_def grow_def demo_fs_def demo_file_def demo_simps blit_def u)
  have "ramfs_read fs' (snd (ramfs_seek fs' h' (uint (write_pos demo_fs demo_file)) AG_SEEK_SET)) (word_of_nat (length [7::u8])) = Some ([7], h')"
    by (rule ramfs_write_then_read [OF demo_reach _ _ _ w]) (simp_all add: write_pos_def demo_file_def)
  with w show ?thesis by (auto simp: write_pos_def demo_file_def)
qed

text \<open>
  C23. Renaming always returns. The walk up from the new parent ends, in every state the calls can reach;
  a rename that reports an error changes nothing, and one that succeeds moves exactly the node that the
  old name led to, to a directory it is not above.
\<close>

theorem ramfs_rename_returns:
  "ram_reach fs hs \<Longrightarrow> \<exists>r fs'. ramfs_rename fs a b = Some (r, fs') \<and> (if r = Inr () then renamed fs a b fs' else fs' = fs)"
  using reach_inv rename_inv by metis

theorem ramfs_rename_returns_witness:
  "\<exists>r fs'. ramfs_rename demo_fs ''/a'' ''/b'' = Some (r, fs') \<and> (if r = Inr () then renamed demo_fs ''/a'' ''/b'' fs' else fs' = demo_fs)"
  using ramfs_rename_returns [OF demo_reach] .

text \<open>
  C24. A write that ends between 2 GiB and 4 GiB never returns: however often \<open>grow\<close> has doubled the capacity, it is still below what is
  needed, so the loop goes on for ever, \<open>grow\<close> does not return (its loop is all that can keep it from returning), and the write does not
  either. A seek to such a position is enough.
\<close>

theorem ramfs_far_write_hangs:
  assumes "ram_reach fs hs" and "h \<in> set hs" and "rf_nodes fs (f_node h) = Some n" and "f_writable h" and "buf \<noteq> []"
    and far: "0x80000000 < unat (write_pos fs h) + length buf" "unat (write_pos fs h) + length buf < 2 ^ 32"
    and needed: "needed = write_pos fs h + word_of_nat (length buf)"
  shows "(\<forall>k. (if n_capacity n = 0 then 64 else n_capacity n) * 2 ^ k < needed) \<and>
    double_until (if n_capacity n = 0 then 64 else n_capacity n) needed = None \<and>
    grow mem fs (f_node h) needed = None \<and> ramfs_write mem now fs h buf = None"
proof -
  note n = assms(3)
  have inv: "fs_inv fs" "handle_ok fs h" using reach_inv [OF assms(1)] assms(2) by auto
  then have nd: "\<not> n_is_dir n" using n by (simp add: handle_ok_def)
  have fin: "unat needed = unat (write_pos fs h) + length buf"
    using far(2) by (simp add: needed unat_word_ariths unsigned_of_nat take_bit_eq_mod)
  have "n_capacity n = 0 \<or> (\<exists>k \<le> 31. n_capacity n = 2 ^ k)" using inv(1) n unfolding fs_inv_def data_ok_def by blast
  then obtain j where j: "j \<le> 31" "(if n_capacity n = 0 then 64 else n_capacity n) = 2 ^ j"
  proof
    assume "n_capacity n = 0"
    then show thesis using that [of 6] by simp
  next
    assume "\<exists>k \<le> 31. n_capacity n = 2 ^ k"
    then show thesis using that by (auto simp: exp_eq_zero_iff)
  qed
  have loop: "(2 :: u32) ^ j * 2 ^ k < needed" for k
  proof (cases "j + k \<le> 31")
    case True
    then have "unat ((2 :: u32) ^ (j + k)) \<le> 2 ^ 31" using unat_pow2 [OF True] power_increasing [OF True, of "2 :: nat"] by simp
    then show ?thesis using far(1) fin by (simp add: word_less_nat_alt power_add)
  next
    case False
    then have "(2 :: u32) ^ (j + k) = 0" by (simp add: exp_eq_zero_iff)
    moreover have "0 < needed" using assms(5) fin by (simp add: word_less_nat_alt)
    ultimately show ?thesis by (simp add: power_add)
  qed
  have "2 ^ 31 < unat needed" using far(1) fin by simp
  then have d: "double_until (2 ^ j) needed = None" using double_until_pow [OF j(1), of needed] by (simp add: word_le_nat_alt)
  have "n_capacity n < needed" using loop [of 0] j(2) word_gt_0 [of needed] by (auto split: if_splits)
  then have g: "grow mem fs (f_node h) needed = None" using d by (simp add: grow_def node_of [OF n] j(2))
  have "ramfs_write mem now fs h buf = None" using write_unfold [OF assms(4,5) n refl refl, of mem now] g needed by simp
  then show ?thesis using loop d g by (simp only: j(2)) blast
qed

theorem ramfs_far_write_hangs_witness:
  "(\<forall>k. (64 :: u32) * 2 ^ k < 0x80000001) \<and>
   ramfs_write (\<lambda>_. True) None demo_fs (demo_file\<lparr>f_pos := 0x80000000\<rparr>) [7] = None"
proof -
  have "ram_reach demo_fs ([demo_file][0 := demo_file\<lparr>f_pos := 0x80000000\<rparr>])"
    using demo_reach by (rule reach_seek [where off = "0x80000000" and whence = AG_SEEK_SET])
      (simp_all add: ramfs_seek_def)
  moreover obtain n where n: "rf_nodes demo_fs (f_node demo_file) = Some n" "n_capacity n = 0"
    by (simp add: demo_fs_def demo_file_def ROOT_def)
  ultimately show ?thesis
    using ramfs_far_write_hangs [of demo_fs _ "demo_file\<lparr>f_pos := 0x80000000\<rparr>" n "[7]" "0x80000001" "\<lambda>_. True" None]
    by (simp add: demo_file_def write_pos_def)
qed

text \<open>
  Unlinking an open file leaves its handles dangling: the node is freed at once, and a read through a
  handle that was open on it reads freed memory.
\<close>

theorem ramfs_unlink_leaves_handles:
  assumes "ram_reach fs hs" and "h \<in> set hs" and "fst (walk fs ROOT rel False) = Some (f_node h)"
  shows "\<exists>fs'. ramfs_unlink fs rel = (Inr (), fs') \<and> ram_reach fs' hs \<and> ramfs_read fs' h len = None"
proof -
  have inv: "fs_inv fs" "handle_ok fs h" using reach_inv [OF assms(1)] assms(2) by auto
  then have t: "tree_ok fs" by (simp add: fs_inv_def)
  from walk_root [OF t t, of rel False "f_node h"] assms(3) obtain n where n: "rf_nodes fs (f_node h) = Some n"
    by (cases "walk fs ROOT rel False") auto
  then have nd: "\<not> n_is_dir n" using inv(2) by (simp add: handle_ok_def)
  have u: "ramfs_unlink fs rel = (Inr (), unlink_node fs (f_node h))"
    using assms(3) nd by (simp add: ramfs_unlink_def node_of [OF n])
  have "rf_nodes (unlink_node fs (f_node h)) (f_node h) = None" by (simp add: unlink_node_def Let_def)
  then show ?thesis using u reach_unlink [OF assms(1) u] by (simp add: ramfs_read_def)
qed

theorem ramfs_unlink_leaves_handles_witness:
  "\<exists>fs'. ramfs_unlink demo_fs ''/a'' = (Inr (), fs') \<and> ram_reach fs' [demo_file] \<and> ramfs_read fs' demo_file 1 = None"
  by (rule ramfs_unlink_leaves_handles [OF demo_reach])
    (simp_all add: walk.simps demo_simps demo_fs_def demo_file_def)

end
