(* ===== verification/RamDestroy.thy ===== *)
theory RamDestroy
  imports Ramfs
begin

text \<open>
  The end of a RAM filesystem (\<open>destroy_subtree\<close> and \<open>ag_ramfs_destroy\<close> of \<open>fs/ramfs.c\<close>): every node is freed, each once, and none is
  looked at after it was freed.
\<close>

section \<open>Model\<close>

definition free_node :: "ag_ramfs \<Rightarrow> nat \<Rightarrow> ag_ramfs" where
  "free_node fs n = fs\<lparr>rf_nodes := (rf_nodes fs)(n := None)\<rparr>"

definition no_child :: "ag_ramfs \<Rightarrow> nat \<Rightarrow> ag_ramfs" where
  "no_child fs dir = set_node fs dir ((node fs dir)\<lparr>n_children := []\<rparr>)"

text \<open>The loop over a chain of siblings. \<open>None\<close> is a look at a node that is not there, or a call that does not return.\<close>

partial_function (option) destroy_chain :: "ag_ramfs \<Rightarrow> nat list \<Rightarrow> ag_ramfs option" where
  "destroy_chain fs ns =
     (case ns of
        [] \<Rightarrow> Some fs
      | n # next \<Rightarrow>
          (case rf_nodes fs n of
             None \<Rightarrow> None
           | Some nd \<Rightarrow>
               Option.bind (if n_is_dir nd then Option.bind (destroy_chain fs (n_children nd)) (\<lambda>fs1. Some (no_child fs1 n)) else Some fs)
                 (\<lambda>fs1. destroy_chain (free_node fs1 n) next)))"

definition destroy_subtree :: "ag_ramfs \<Rightarrow> nat \<Rightarrow> ag_ramfs option" where
  "destroy_subtree fs dir = Option.bind (destroy_chain fs (n_children (node fs dir))) (\<lambda>fs1. Some (no_child fs1 dir))"

text \<open>The nodes that are still allocated when the filesystem is gone; its root is inside it.\<close>

definition ag_ramfs_destroy :: "ag_ramfs option \<Rightarrow> (nat \<Rightarrow> ram_node option) option" where
  "ag_ramfs_destroy fs =
     (case fs of
        None \<Rightarrow> Some Map.empty
      | Some s \<Rightarrow> Option.bind (destroy_subtree s ROOT) (\<lambda>s1. Some ((rf_nodes s1)(ROOT := None))))"

section \<open>What lies below a node\<close>

definition up :: "ag_ramfs \<Rightarrow> (nat \<times> nat) set" where
  "up fs = {(i, p). f_par fs i = Some p}"

definition beneath :: "ag_ramfs \<Rightarrow> nat \<Rightarrow> nat set" where
  "beneath fs n = {m. (m, n) \<in> (up fs)\<^sup>*}"

lemma up_step: "tree_ok fs \<Longrightarrow> (i, p) \<in> up fs \<longleftrightarrow> i \<in> set (f_kids fs p)"
  by (auto simp: up_def tree_ok_def tree_links_def)

lemma tree_rank:
  assumes "tree_ok fs"
  obtains rank :: "nat \<Rightarrow> nat" where "\<And>i p. (i, p) \<in> up fs \<Longrightarrow> rank p < rank i"
  using assms unfolding tree_ok_def tree_links_def up_def by blast

lemma under_self: "n \<in> beneath fs n"
  by (simp add: beneath_def)

lemma under_unfold:
  assumes "tree_ok fs"
  shows "beneath fs n = insert n (\<Union>c \<in> set (f_kids fs n). beneath fs c)"
proof (intro set_eqI iffI)
  fix m assume "m \<in> beneath fs n"
  then show "m \<in> insert n (\<Union>c \<in> set (f_kids fs n). beneath fs c)"
    using up_step [OF assms] by (auto simp: beneath_def elim: rtranclE)
next
  fix m assume "m \<in> insert n (\<Union>c \<in> set (f_kids fs n). beneath fs c)"
  then show "m \<in> beneath fs n" using up_step [OF assms] by (auto simp: beneath_def intro: rtrancl_into_rtrancl)
qed

lemma rank_under:
  assumes r: "\<And>i p. (i, p) \<in> up fs \<Longrightarrow> rank p < (rank i :: nat)" and "m \<in> beneath fs n"
  shows "rank n \<le> rank m"
  using assms(2) unfolding beneath_def mem_Collect_eq by (induction rule: converse_rtrancl_induct) (auto dest: r)

lemma not_under_child: "tree_ok fs \<Longrightarrow> c \<in> set (f_kids fs n) \<Longrightarrow> n \<notin> beneath fs c"
  using tree_rank [of fs] rank_under [of fs] up_step [of fs c n] by (metis linorder_not_le)

lemma siblings_apart:
  assumes t: "tree_ok fs" and a: "a \<in> set (f_kids fs n)" and b: "b \<in> set (f_kids fs n)" and ne: "a \<noteq> b"
  shows "beneath fs a \<inter> beneath fs b = {}"
proof -
  have apart: False if "(x, y) \<in> (up fs)\<^sup>*" "x \<in> set (f_kids fs n)" "y \<in> set (f_kids fs n)" "x \<noteq> y" for x y
  proof -
    from that(1,4) obtain z where z: "(x, z) \<in> up fs" "(z, y) \<in> (up fs)\<^sup>*" by (blast elim: converse_rtranclE)
    have "f_par fs x = Some z" "f_par fs x = Some n" using z(1) that(2) up_step [OF t, of x n] by (simp_all add: up_def)
    then have "z = n" by simp
    then show False using z(2) not_under_child [OF t that(3)] by (simp add: beneath_def)
  qed
  have "single_valued (up fs)" by (auto simp: single_valued_def up_def)
  from single_valued_confluent [OF this] show ?thesis using apart a b ne unfolding beneath_def by blast
qed

lemma under_dom:
  assumes t: "tree_ok fs" and n: "n \<in> dom (rf_nodes fs)"
  shows "beneath fs n \<subseteq> dom (rf_nodes fs)"
proof
  fix m assume "m \<in> beneath fs n"
  then have "(m, n) \<in> (up fs)\<^sup>*" by (simp add: beneath_def)
  then show "m \<in> dom (rf_nodes fs)" using n t by (cases rule: converse_rtranclE) (auto simp: up_def tree_ok_def tree_links_def)
qed

lemma root_above:
  assumes t: "tree_ok fs" and m: "m \<in> dom (rf_nodes fs)"
  shows "m \<in> beneath fs ROOT"
proof -
  obtain rank :: "nat \<Rightarrow> nat" where r: "\<And>i p. (i, p) \<in> up fs \<Longrightarrow> rank p < rank i" using tree_rank [OF t] by metis
  show ?thesis using m
  proof (induction "rank m" arbitrary: m rule: less_induct)
    case less
    show ?case
    proof (cases "f_par fs m")
      case None
      then have "m = ROOT" using t less.prems by (simp add: tree_ok_def tree_links_def)
      then show ?thesis by (simp add: under_self)
    next
      case (Some p)
      then have "(m, p) \<in> up fs" "p \<in> dom (rf_nodes fs)" using t by (auto simp: up_def tree_ok_def tree_links_def)
      then have "(m, p) \<in> up fs" "p \<in> beneath fs ROOT" using less.hyps [of p] r by blast+
      then show ?thesis by (auto simp: beneath_def intro: converse_rtrancl_into_rtrancl)
    qed
  qed
qed

section \<open>The loop\<close>

text \<open>Siblings with nothing in common below them.\<close>

definition apart :: "ag_ramfs \<Rightarrow> nat list \<Rightarrow> bool" where
  "apart fs ns \<longleftrightarrow> distinct ns \<and> set ns \<subseteq> dom (rf_nodes fs) \<and> (\<forall>a \<in> set ns. \<forall>b \<in> set ns. a \<noteq> b \<longrightarrow> beneath fs a \<inter> beneath fs b = {})"

definition all_under :: "ag_ramfs \<Rightarrow> nat list \<Rightarrow> nat set" where
  "all_under fs ns = (\<Union>n \<in> set ns. beneath fs n)"

lemma kids_apart:
  assumes t: "tree_ok fs"
  shows "apart fs (f_kids fs n)"
proof -
  have "set (f_kids fs n) \<subseteq> dom (rf_nodes fs)" "distinct (f_kids fs n)" using t unfolding tree_ok_def tree_links_def by blast+
  then show ?thesis using siblings_apart [OF t] by (simp add: apart_def)
qed

lemma destroy_chain_frees:
  assumes t: "tree_ok fs0" and "apart fs0 ns" and "\<forall>i \<in> all_under fs0 ns. rf_nodes fs i = rf_nodes fs0 i"
  shows "\<exists>fs'. destroy_chain fs ns = Some fs' \<and> rf_nodes fs' = rf_nodes fs |` (- all_under fs0 ns)"
  using assms(2,3)
proof (induction "card (all_under fs0 ns)" arbitrary: fs ns rule: less_induct)
  case less
  show ?case
  proof (cases ns)
    case Nil
    then show ?thesis by (simp add: destroy_chain.simps all_under_def restrict_map_def)
  next
    case (Cons n rest)
    let ?K = "f_kids fs0 n" let ?U = "all_under fs0 ?K"
    have "all_under fs0 ns \<subseteq> dom (rf_nodes fs0)" using less.prems(1) under_dom [OF t] unfolding all_under_def apart_def by blast
    then have fin: "finite (all_under fs0 ns)" using finite_nodes [OF t] by (rule finite_subset)
    have un: "beneath fs0 n = insert n ?U" unfolding all_under_def by (rule under_unfold [OF t])
    have nU: "n \<notin> ?U" using not_under_child [OF t] by (auto simp: all_under_def)
    have all: "all_under fs0 ns = insert n (?U \<union> all_under fs0 rest)" by (simp add: Cons all_under_def un [unfolded all_under_def])
    have dis: "beneath fs0 n \<inter> all_under fs0 rest = {}" using less.prems(1) unfolding Cons apart_def all_under_def by auto
    have "rf_nodes fs n = rf_nodes fs0 n" "n \<in> dom (rf_nodes fs0)" using less.prems all unfolding Cons apart_def by auto
    then obtain nd where nd: "rf_nodes fs n = Some nd" "rf_nodes fs0 n = Some nd" by auto
    have kids: "n_children nd = ?K" "n_is_dir nd = f_isdir fs0 n" using link_node [OF nd(2)] by simp_all
    have "\<exists>fs1. (if n_is_dir nd then Option.bind (destroy_chain fs (n_children nd)) (\<lambda>fs1. Some (no_child fs1 n)) else Some fs) = Some fs1 \<and>
        rf_nodes (free_node fs1 n) = rf_nodes fs |` (- beneath fs0 n)"
    proof (cases "n_is_dir nd")
      case True
      have "card ?U < card (all_under fs0 ns)" using fin nU unfolding all by (intro psubset_card_mono) auto
      from less.hyps [OF this kids_apart [OF t]] less.prems(2) obtain fs' where
        "destroy_chain fs ?K = Some fs'" "rf_nodes fs' = rf_nodes fs |` (- ?U)" unfolding all by auto
      then show ?thesis using True kids(1) unfolding un by (auto simp: no_child_def free_node_def restrict_map_def fun_eq_iff)
    next
      case False
      then have "?K = []" using t kids(2) unfolding tree_ok_def tree_links_def by (metis list.set_intros(1) neq_Nil_conv)
      then show ?thesis using False by (auto simp: un all_under_def free_node_def restrict_map_def fun_eq_iff)
    qed
    then obtain fs1 where f1: "(if n_is_dir nd then Option.bind (destroy_chain fs (n_children nd)) (\<lambda>fs1. Some (no_child fs1 n)) else Some fs) = Some fs1"
      "rf_nodes (free_node fs1 n) = rf_nodes fs |` (- beneath fs0 n)" by blast
    have "n \<notin> all_under fs0 rest" using dis under_self by blast
    then have "card (all_under fs0 rest) < card (all_under fs0 ns)" using fin unfolding all by (intro psubset_card_mono) auto
    moreover have "apart fs0 rest" using less.prems(1) unfolding Cons apart_def by auto
    moreover have "\<forall>i \<in> all_under fs0 rest. rf_nodes (free_node fs1 n) i = rf_nodes fs0 i"
      unfolding f1(2) using dis less.prems(2) unfolding all by (auto simp: restrict_map_def)
    ultimately obtain fs' where "destroy_chain (free_node fs1 n) rest = Some fs'"
      "rf_nodes fs' = rf_nodes (free_node fs1 n) |` (- all_under fs0 rest)" using less.hyps by blast
    moreover have "- beneath fs0 n \<inter> - all_under fs0 rest = - all_under fs0 ns" unfolding all un by blast
    ultimately show ?thesis using nd(1) f1 unfolding Cons destroy_chain.simps [of fs "n # rest"] by auto
  qed
qed

lemma destroy_all:
  assumes t: "tree_ok fs"
  shows "ag_ramfs_destroy (Some fs) = Some Map.empty"
proof -
  obtain nd where root: "rf_nodes fs ROOT = Some nd" using t by (auto simp: tree_ok_def tree_links_def)
  have k: "n_children (node fs ROOT) = f_kids fs ROOT" using link_node [OF root] by (simp add: node_of [OF root])
  obtain fs' where d: "destroy_chain fs (f_kids fs ROOT) = Some fs'" "rf_nodes fs' = rf_nodes fs |` (- all_under fs (f_kids fs ROOT))"
    using destroy_chain_frees [OF t kids_apart [OF t]] by blast
  have "dom (rf_nodes fs) \<subseteq> insert ROOT (all_under fs (f_kids fs ROOT))"
    using root_above [OF t] under_unfold [OF t, of ROOT] by (auto simp: all_under_def)
  then have "(rf_nodes (no_child fs' ROOT))(ROOT := None) = Map.empty" using d(2) by (auto simp: no_child_def restrict_map_def fun_eq_iff)
  then show ?thesis using d(1) k by (simp add: ag_ramfs_destroy_def destroy_subtree_def)
qed

section \<open>Properties\<close>

text \<open>
  C22. Destroying a filesystem in any state it can reach returns, frees every node exactly once, and looks at no node after it was freed:
  nothing of it is left allocated.
\<close>

theorem ramfs_destroy_frees_all:
  assumes "ram_reach fs hs"
  shows "ag_ramfs_destroy (Some fs) = Some Map.empty"
  using destroy_all reach_inv [OF assms] by (simp add: fs_inv_def)

theorem ramfs_destroy_frees_all_witness: "ag_ramfs_destroy (Some demo_fs) = Some Map.empty"
  by (rule ramfs_destroy_frees_all [OF demo_reach])

end
