(* ===== verification/Vfs.thy ===== *)
theory Vfs
  imports Path Ramfs
begin

text \<open>
  \<open>fs/vfs.c\<close>: the mount table, the handle table, the memory of names that were not there, and every call of
  the filesystem interface. The backends are reached through their table of operations; a table is a record of
  functions on the state \<open>'w\<close> of everything outside the VFS, an operation a table leaves out is \<open>None\<close>, and
  \<open>fs_addr\<close> is the address of the table, which the code compares.

  What the code does between taking and dropping the VFS lock is one step. \<open>ag_vfs_open\<close> drops the lock around
  the call of the backend, so it is three steps, \<open>open_begin\<close>, \<open>open_call\<close> and \<open>open_finish\<close> (or
  \<open>remember_absent\<close> when the backend refuses), and \<open>ag_vfs_open\<close> is their composition when nothing comes
  between. The function that reports the owner of the calling task is applied to the task that calls.
  Reads, writes and seeks drop the lock before the backend is called and do nothing after it.
\<close>

section \<open>State\<close>

type_synonym task = nat
type_synonym pid = int

definition AG_VFS_MAX_MOUNTS :: nat where "AG_VFS_MAX_MOUNTS = 6"
definition AG_VFS_MAX_HANDLES :: nat where "AG_VFS_MAX_HANDLES = 24"
definition AG_VFS_NEG_ENTRIES :: nat where "AG_VFS_NEG_ENTRIES = 32"
definition AG_VFS_NEG_PATH :: nat where "AG_VFS_NEG_PATH = 80"
definition POINT_SIZE :: nat where "POINT_SIZE = 32"

definition AG_MOUNT_READONLY :: u32 where "AG_MOUNT_READONLY = 1"
definition AG_MOUNT_REMOVABLE :: u32 where "AG_MOUNT_REMOVABLE = 2"
definition AG_MOUNT_VOLATILE :: u32 where "AG_MOUNT_VOLATILE = 4"

record ag_fsinfo =
  fi_fs :: string
  fi_total :: u64
  fi_free :: u64
  fi_read_only :: bool
  fi_removable :: bool

record 'w ag_fs_ops =
  fs_addr :: ptr
  fs_name :: "string option"
  fs_open :: "(ptr \<Rightarrow> string \<Rightarrow> u32 \<Rightarrow> 'w \<Rightarrow> ptr ag_err \<times> 'w) option"
  fs_close :: "(ptr \<Rightarrow> ptr \<Rightarrow> 'w \<Rightarrow> unit ag_err \<times> 'w) option"
  fs_read :: "(ptr \<Rightarrow> ptr \<Rightarrow> u32 \<Rightarrow> 'w \<Rightarrow> u8 list ag_err \<times> 'w) option"
  fs_write :: "(ptr \<Rightarrow> ptr \<Rightarrow> u8 list \<Rightarrow> 'w \<Rightarrow> nat ag_err \<times> 'w) option"
  fs_seek :: "(ptr \<Rightarrow> ptr \<Rightarrow> int \<Rightarrow> whence \<Rightarrow> 'w \<Rightarrow> int ag_err \<times> 'w) option"
  fs_sync :: "(ptr \<Rightarrow> ptr \<Rightarrow> 'w \<Rightarrow> unit ag_err \<times> 'w) option"
  fs_truncate :: "(ptr \<Rightarrow> ptr \<Rightarrow> u64 \<Rightarrow> 'w \<Rightarrow> unit ag_err \<times> 'w) option"
  fs_stat :: "(ptr \<Rightarrow> string \<Rightarrow> 'w \<Rightarrow> ag_stat ag_err \<times> 'w) option"
  fs_unlink :: "(ptr \<Rightarrow> string \<Rightarrow> 'w \<Rightarrow> unit ag_err \<times> 'w) option"
  fs_rename :: "(ptr \<Rightarrow> string \<Rightarrow> string \<Rightarrow> 'w \<Rightarrow> unit ag_err \<times> 'w) option"
  fs_mkdir :: "(ptr \<Rightarrow> string \<Rightarrow> 'w \<Rightarrow> unit ag_err \<times> 'w) option"
  fs_rmdir :: "(ptr \<Rightarrow> string \<Rightarrow> 'w \<Rightarrow> unit ag_err \<times> 'w) option"
  fs_opendir :: "(ptr \<Rightarrow> string \<Rightarrow> 'w \<Rightarrow> ptr ag_err \<times> 'w) option"
  fs_readdir :: "(ptr \<Rightarrow> ptr \<Rightarrow> 'w \<Rightarrow> (string \<times> ag_stat) ag_err \<times> 'w) option"
  fs_closedir :: "(ptr \<Rightarrow> ptr \<Rightarrow> 'w \<Rightarrow> unit ag_err \<times> 'w) option"
  fs_info :: "(ptr \<Rightarrow> ag_fsinfo \<Rightarrow> 'w \<Rightarrow> ag_fsinfo \<times> 'w) option"
  fs_canonicalize :: "(ptr \<Rightarrow> string \<Rightarrow> nat \<Rightarrow> 'w \<Rightarrow> string ag_err \<times> 'w) option"

record 'w ag_mount =
  mn_point :: string
  mn_point_len :: nat
  mn_ops :: "'w ag_fs_ops option"
  mn_ctx :: ptr
  mn_flags :: u32
  mn_open_handles :: nat
  mn_used :: bool
  mn_ejected :: bool

record ag_vfs_handle_slot =
  hs_used :: bool
  hs_is_dir :: bool
  hs_is_root :: bool
  hs_mount :: nat
  hs_obj :: ptr
  hs_owner :: pid
  hs_root_index :: nat

record ag_neg =
  ng_hash :: u32
  ng_len :: nat
  ng_subtree :: bool
  ng_path :: string

record 'w vfs =
  s_mounts :: "'w ag_mount list"
  s_handles :: "ag_vfs_handle_slot list"
  s_neg :: "ag_neg list"
  s_neg_hits :: u32
  s_neg_count :: nat
  s_owner_fn :: "(task \<Rightarrow> pid) option"
  s_initialised :: bool
  v_world :: 'w

definition zero_mount :: "'w ag_mount" where
  "zero_mount = \<lparr>mn_point = [], mn_point_len = 0, mn_ops = None, mn_ctx = NULL, mn_flags = 0, mn_open_handles = 0,
     mn_used = False, mn_ejected = False\<rparr>"

definition zero_slot :: ag_vfs_handle_slot where
  "zero_slot = \<lparr>hs_used = False, hs_is_dir = False, hs_is_root = False, hs_mount = 0, hs_obj = NULL, hs_owner = 0, hs_root_index = 0\<rparr>"

definition zero_neg :: ag_neg where
  "zero_neg = \<lparr>ng_hash = 0, ng_len = 0, ng_subtree = False, ng_path = replicate AG_VFS_NEG_PATH CHR 0x00\<rparr>"

definition ag_vfs_init :: "'w vfs \<Rightarrow> unit ag_err \<times> 'w vfs" where
  "ag_vfs_init s = (Inr (), s\<lparr>s_mounts := replicate AG_VFS_MAX_MOUNTS zero_mount, s_handles := replicate AG_VFS_MAX_HANDLES zero_slot,
     s_neg := replicate AG_VFS_NEG_ENTRIES zero_neg, s_neg_count := 0, s_neg_hits := 0, s_owner_fn := None, s_initialised := True\<rparr>)"

definition ag_vfs_set_owner_fn :: "'w vfs \<Rightarrow> (task \<Rightarrow> pid) option \<Rightarrow> 'w vfs" where
  "ag_vfs_set_owner_fn s fn = s\<lparr>s_owner_fn := fn\<rparr>"

definition current_owner :: "'w vfs \<Rightarrow> task \<Rightarrow> pid" where
  "current_owner s t = (case s_owner_fn s of None \<Rightarrow> 0 | Some f \<Rightarrow> f t)"

definition set_mount :: "'w vfs \<Rightarrow> nat \<Rightarrow> 'w ag_mount \<Rightarrow> 'w vfs" where
  "set_mount s i m = s\<lparr>s_mounts := (s_mounts s)[i := m]\<rparr>"

definition set_handle :: "'w vfs \<Rightarrow> nat \<Rightarrow> ag_vfs_handle_slot \<Rightarrow> 'w vfs" where
  "set_handle s h x = s\<lparr>s_handles := (s_handles s)[h := x]\<rparr>"

definition flagged :: "u32 \<Rightarrow> u32 \<Rightarrow> bool" where
  "flagged flags f \<longleftrightarrow> flags AND f \<noteq> 0"

section \<open>Mount table\<close>

definition mount_matches :: "'w ag_mount \<Rightarrow> string \<Rightarrow> bool" where
  "mount_matches m path \<longleftrightarrow>
     mn_used m \<and> take (mn_point_len m) path = take (mn_point_len m) (mn_point m) \<and>
     (let after = cstr_at path (mn_point_len m) in after = CHR 0x00 \<or> after = CHR ''/'')"

definition find_mount :: "'w vfs \<Rightarrow> string \<Rightarrow> (nat \<times> string) option" where
  "find_mount s path =
     (case foldl (\<lambda>(best, best_len) i.
              let m = s_mounts s ! i in
              if mount_matches m path \<and> mn_point_len m \<ge> best_len then (Some i, mn_point_len m) else (best, best_len))
            (None, 0) [0..<AG_VFS_MAX_MOUNTS] of
        (None, _) \<Rightarrow> None
      | (Some i, best_len) \<Rightarrow>
          (let tail = drop best_len path in Some (i, if tail = [] then ''/'' else tail)))"

definition forget_misses_locked :: "'w vfs \<Rightarrow> 'w vfs" where
  "forget_misses_locked s =
     (if s_neg_count s \<noteq> 0 then s\<lparr>s_neg := replicate AG_VFS_NEG_ENTRIES zero_neg, s_neg_count := 0\<rparr> else s)"

text \<open>The mount whose point a path names.\<close>

definition mount_named :: "'w vfs \<Rightarrow> string \<Rightarrow> nat option" where
  "mount_named s canonical = find (\<lambda>i. mn_used (s_mounts s ! i) \<and> mn_point (s_mounts s ! i) = canonical) [0..<AG_VFS_MAX_MOUNTS]"

definition ag_vfs_mount :: "'w vfs \<Rightarrow> string option \<Rightarrow> 'w ag_fs_ops option \<Rightarrow> ptr \<Rightarrow> u32 \<Rightarrow> unit ag_err \<times> 'w vfs" where
  "ag_vfs_mount s mountpoint ops ctx flags =
     (if \<not> s_initialised s \<or> Option.is_none mountpoint \<or> Option.is_none ops then (Inl AG_EINVAL, s)
      else
        case ag_path_resolve mountpoint None (Some []) AG_PATH_MAX of
          (Inl e, _) \<Rightarrow> (Inl e, s)
        | (Inr _, out) \<Rightarrow>
            let canonical = the out in
            if length canonical \<ge> POINT_SIZE then (Inl AG_ERANGE, s)
            else if mount_named s canonical \<noteq> None then (Inl AG_EEXIST, s)
            else case find (\<lambda>i. \<not> mn_used (s_mounts s ! i)) [0..<AG_VFS_MAX_MOUNTS] of
                   None \<Rightarrow> (Inl AG_ENFILE, s)
                 | Some i \<Rightarrow>
                     (Inr (), forget_misses_locked (set_mount s i
                        \<lparr>mn_point = canonical, mn_point_len = (if canonical = ''/'' then 0 else length canonical), mn_ops = ops,
                         mn_ctx = ctx, mn_flags = flags, mn_open_handles = 0, mn_used = True, mn_ejected = False\<rparr>)))"

definition ag_vfs_unmount :: "'w vfs \<Rightarrow> string option \<Rightarrow> unit ag_err \<times> 'w vfs" where
  "ag_vfs_unmount s mountpoint =
     (case ag_path_resolve mountpoint None (Some []) AG_PATH_MAX of
        (Inl e, _) \<Rightarrow> (Inl e, s)
      | (Inr _, out) \<Rightarrow>
          (case mount_named s (the out) of
             None \<Rightarrow> (Inl AG_ENOENT, s)
           | Some i \<Rightarrow>
               if mn_open_handles (s_mounts s ! i) > 0 then (Inl AG_EBUSY, s)
               else (Inr (), forget_misses_locked (set_mount s i zero_mount))))"

definition ag_vfs_eject :: "'w vfs \<Rightarrow> string option \<Rightarrow> unit ag_err \<times> 'w vfs" where
  "ag_vfs_eject s mountpoint =
     (case ag_path_resolve mountpoint None (Some []) AG_PATH_MAX of
        (Inl e, _) \<Rightarrow> (Inl e, s)
      | (Inr _, out) \<Rightarrow>
          (case mount_named s (the out) of
             None \<Rightarrow> (Inl AG_ENOENT, s)
           | Some i \<Rightarrow>
               let m = s_mounts s ! i;
                   m' = (if mn_open_handles m = 0 then zero_mount else m\<lparr>mn_ejected := True, mn_ops := None, mn_ctx := NULL\<rparr>)
               in (Inr (), forget_misses_locked (set_mount s i m'))))"

record ag_mountinfo =
  mi_mount :: string
  mi_info :: ag_fsinfo
  mi_flags :: u32
  mi_open_handles :: nat

text \<open>The places of the table in use, in order: what a caller that counts from 0 walks through.\<close>

definition used_mounts :: "'w vfs \<Rightarrow> nat list" where
  "used_mounts s = filter (\<lambda>i. mn_used (s_mounts s ! i)) [0..<AG_VFS_MAX_MOUNTS]"

definition ag_vfs_mount_info :: "'w vfs \<Rightarrow> nat \<Rightarrow> ag_mountinfo ag_err \<times> 'w vfs" where
  "ag_vfs_mount_info s index =
     (if index \<ge> length (used_mounts s) then (Inl AG_ENOENT, s)
      else
        let m = s_mounts s ! (used_mounts s ! index);
            name = (case mn_ops m of None \<Rightarrow> [] | Some fs \<Rightarrow> (case fs_name fs of None \<Rightarrow> [] | Some n \<Rightarrow> take 7 n));
            info0 = \<lparr>fi_fs = name, fi_total = 0, fi_free = 0, fi_read_only = False, fi_removable = False\<rparr>;
            (info1, w) = (case (if mn_ejected m then None else Option.bind (mn_ops m) fs_info) of
                            None \<Rightarrow> (info0, v_world s)
                          | Some f \<Rightarrow> f (mn_ctx m) info0 (v_world s))
        in (Inr \<lparr>mi_mount = take 31 (mn_point m),
                 mi_info = info1\<lparr>fi_removable := flagged (mn_flags m) AG_MOUNT_REMOVABLE,
                                 fi_read_only := flagged (mn_flags m) AG_MOUNT_READONLY\<rparr>,
                 mi_flags = mn_flags m, mi_open_handles = mn_open_handles m\<rparr>,
            s\<lparr>v_world := w\<rparr>))"

section \<open>Handles\<close>

definition slot_of :: "'w vfs \<Rightarrow> int \<Rightarrow> nat option" where
  "slot_of s h = (if h < 0 \<or> h \<ge> int AG_VFS_MAX_HANDLES \<or> \<not> hs_used (s_handles s ! nat h) then None else Some (nat h))"

definition alloc_slot :: "'w vfs \<Rightarrow> task \<Rightarrow> nat ag_err \<times> 'w vfs" where
  "alloc_slot s t =
     (case find (\<lambda>i. \<not> hs_used (s_handles s ! i)) [0..<AG_VFS_MAX_HANDLES] of
        None \<Rightarrow> (Inl AG_ENFILE, s)
      | Some i \<Rightarrow> (Inr i, set_handle s i (zero_slot\<lparr>hs_used := True, hs_owner := current_owner s t\<rparr>)))"

definition free_slot :: "'w vfs \<Rightarrow> nat \<Rightarrow> 'w vfs" where
  "free_slot s h =
     (let x = s_handles s ! h;
          s1 = (if \<not> hs_is_root x \<and> hs_mount x < AG_VFS_MAX_MOUNTS then
                  let m = s_mounts s ! hs_mount x in
                  if mn_used m \<and> mn_open_handles m > 0 then
                    let n = mn_open_handles m - 1
                    in set_mount s (hs_mount x) (if mn_ejected m \<and> n = 0 then zero_mount else m\<lparr>mn_open_handles := n\<rparr>)
                  else s
                else s)
      in set_handle s1 h zero_slot)"

definition ag_vfs_open_count :: "'w vfs \<Rightarrow> nat" where
  "ag_vfs_open_count s = length (filter (\<lambda>i. hs_used (s_handles s ! i)) [0..<AG_VFS_MAX_HANDLES])"

definition ag_vfs_backend_object :: "'w vfs \<Rightarrow> int \<Rightarrow> ptr \<Rightarrow> ptr" where
  "ag_vfs_backend_object s h ops =
     (case slot_of s h of
        None \<Rightarrow> NULL
      | Some i \<Rightarrow>
          let x = s_handles s ! i; m = s_mounts s ! hs_mount x in
          if \<not> hs_is_root x \<and> \<not> hs_is_dir x \<and> mn_used m \<and> \<not> mn_ejected m \<and>
             (case mn_ops m of None \<Rightarrow> NULL | Some fs \<Rightarrow> fs_addr fs) = ops
          then hs_obj x else NULL)"

text \<open>The call that gives an object back to its backend, when there still is one to give it to.\<close>

definition backend_close :: "'w vfs \<Rightarrow> ag_vfs_handle_slot \<Rightarrow> unit ag_err \<times> 'w vfs" where
  "backend_close s x =
     (let m = s_mounts s ! hs_mount x in
      case (if mn_ejected m then None else Option.bind (mn_ops m) (\<lambda>fs. if hs_is_dir x then fs_closedir fs else fs_close fs)) of
        None \<Rightarrow> (Inr (), s)
      | Some f \<Rightarrow> (case f (mn_ctx m) (hs_obj x) (v_world s) of (r, w) \<Rightarrow> (r, s\<lparr>v_world := w\<rparr>)))"

fun close_owned_from :: "'w vfs \<Rightarrow> pid \<Rightarrow> nat list \<Rightarrow> nat \<times> 'w vfs" where
  "close_owned_from s p [] = (0, s)"
| "close_owned_from s p (i # is) =
     (let x = s_handles s ! i in
      if \<not> hs_used x \<or> hs_owner x \<noteq> p then close_owned_from s p is
      else
        let s1 = (if hs_is_root x then s else snd (backend_close s x)) in
        case close_owned_from (free_slot s1 i) p is of (n, s2) \<Rightarrow> (Suc n, s2))"

definition ag_vfs_close_owned_by :: "'w vfs \<Rightarrow> pid \<Rightarrow> nat \<times> 'w vfs" where
  "ag_vfs_close_owned_by s p = close_owned_from s p [0..<AG_VFS_MAX_HANDLES]"

section \<open>Path plumbing\<close>

record resolved =
  rv_index :: nat
  rv_rel :: string
  rv_canonical :: string

text \<open>\<open>rv_index\<close> and \<open>rv_rel\<close> mean something only when a mount was found.\<close>

definition resolve :: "'w vfs \<Rightarrow> string option \<Rightarrow> string option \<Rightarrow> unit ag_err \<times> resolved" where
  "resolve s path cwd =
     (case ag_path_resolve path cwd (Some []) AG_PATH_MAX of
        (Inl e, out) \<Rightarrow> (Inl e, \<lparr>rv_index = 0, rv_rel = [], rv_canonical = the out\<rparr>)
      | (Inr _, out) \<Rightarrow>
          (case find_mount s (the out) of
             None \<Rightarrow> (Inl AG_ENOENT, \<lparr>rv_index = 0, rv_rel = [], rv_canonical = the out\<rparr>)
           | Some (i, rel) \<Rightarrow>
               (if mn_ejected (s_mounts s ! i) then Inl AG_EIO else Inr (), \<lparr>rv_index = i, rv_rel = rel, rv_canonical = the out\<rparr>)))"

definition is_write_flag :: "u32 \<Rightarrow> bool" where
  "is_write_flag flags = flagged flags (AG_O_WRONLY OR AG_O_RDWR OR AG_O_CREATE OR AG_O_TRUNC OR AG_O_APPEND)"

section \<open>Negative lookups\<close>

definition fold_char :: "char \<Rightarrow> char" where
  "fold_char c = (if char_in CHR ''A'' CHR ''Z'' c
                  then char_of ((of_char c :: nat) - of_char CHR ''A'' + of_char CHR ''a'') else c)"

definition hash_step :: "u32 \<Rightarrow> char \<Rightarrow> u32" where
  "hash_step h c = (h XOR of_char (fold_char c)) * 16777619"

definition hash_done :: "u32 \<Rightarrow> u32" where
  "hash_done h = (if h = 0 then 1 else h)"

definition FNV_BASIS :: u32 where "FNV_BASIS = 2166136261"

definition neg_same :: "ag_neg \<Rightarrow> string \<Rightarrow> nat \<Rightarrow> bool" where
  "neg_same e path len = list_all (\<lambda>i. fold_char (ng_path e ! i) = fold_char (path ! i)) [0..<len]"

definition neg_slot :: "u32 \<Rightarrow> nat" where
  "neg_slot h = unat (h mod word_of_nat AG_VFS_NEG_ENTRIES)"

definition neg_probe :: "'w vfs \<Rightarrow> u32 \<Rightarrow> string \<Rightarrow> nat \<Rightarrow> bool \<Rightarrow> bool" where
  "neg_probe s h path len dir_only =
     (let e = s_neg s ! neg_slot h in
      if ng_hash e \<noteq> h \<or> ng_len e \<noteq> len then False
      else if dir_only \<and> \<not> ng_subtree e then False
      else neg_same e path len)"

text \<open>The loop of \<open>miss_known\<close> from the \<open>i\<close>-th character on, with the hash of those before it.\<close>

function miss_from :: "'w vfs \<Rightarrow> string \<Rightarrow> nat \<Rightarrow> u32 \<Rightarrow> bool" where
  "miss_from s canonical i h =
     (if i < length canonical then
        if canonical ! i = CHR ''/'' \<and> i > 0 \<and> neg_probe s (hash_done h) canonical i True then True
        else miss_from s canonical (i + 1) (hash_step h (canonical ! i))
      else neg_probe s (hash_done h) canonical (length canonical) False)"
  by auto
termination
  by (relation "measure (\<lambda>(_, c, i, _). length c - i)") auto

declare miss_from.simps [simp del]

definition miss_known :: "'w vfs \<Rightarrow> string \<Rightarrow> bool \<times> 'w vfs" where
  "miss_known s canonical =
     (if miss_from s canonical 0 FNV_BASIS then (True, s\<lparr>s_neg_hits := s_neg_hits s + 1\<rparr>) else (False, s))"

definition miss_remember :: "'w vfs \<Rightarrow> string \<Rightarrow> nat \<Rightarrow> bool \<Rightarrow> 'w vfs" where
  "miss_remember s path len subtree =
     (if len = 0 \<or> len \<ge> AG_VFS_NEG_PATH then s
      else
        let h = hash_done (foldl hash_step FNV_BASIS (take len path));
            e = s_neg s ! neg_slot h
        in s\<lparr>s_neg_count := (if ng_hash e = 0 then s_neg_count s + 1 else s_neg_count s),
             s_neg := (s_neg s)[neg_slot h := \<lparr>ng_hash = h, ng_len = len, ng_subtree = subtree,
                                               ng_path = take len path @ drop len (ng_path e)\<rparr>]\<rparr>)"

definition ag_vfs_forget_misses :: "'w vfs \<Rightarrow> 'w vfs" where
  "ag_vfs_forget_misses s = s\<lparr>s_neg := replicate AG_VFS_NEG_ENTRIES zero_neg, s_neg_count := 0\<rparr>"

definition ag_vfs_miss_stats :: "'w vfs \<Rightarrow> u32 \<times> nat" where
  "ag_vfs_miss_stats s = (s_neg_hits s, s_neg_count s)"

fun to_slash :: "string \<Rightarrow> nat \<Rightarrow> nat" where
  "to_slash path 0 = 0"
| "to_slash path (Suc len) = (if Suc len > 1 \<and> path ! len \<noteq> CHR ''/'' then to_slash path len else Suc len)"

definition parent_len :: "string \<Rightarrow> nat \<Rightarrow> nat" where
  "parent_len path len = (let l = to_slash path len in if l > 1 then l - 1 else l)"

definition remember_absent :: "'w vfs \<Rightarrow> ptr \<Rightarrow> 'w ag_fs_ops \<Rightarrow> string \<Rightarrow> string \<Rightarrow> 'w vfs" where
  "remember_absent s ctx fs canonical rel =
     (let rel_parent = parent_len rel (length rel) in
      case (if rel_parent > 1 then fs_stat fs else None) of
        None \<Rightarrow> miss_remember s canonical (length canonical) False
      | Some f \<Rightarrow>
          (case f ctx (take rel_parent rel) (v_world s) of
             (r, w) \<Rightarrow>
               let s1 = s\<lparr>v_world := w\<rparr> in
               if r = Inl AG_ENOENT then miss_remember s1 canonical (parent_len canonical (length canonical)) True
               else miss_remember s1 canonical (length canonical) False))"

section \<open>Files\<close>

text \<open>What \<open>ag_vfs_open\<close> keeps in its locals while the lock is dropped.\<close>

record 'w pending_open =
  po_flags :: u32
  po_index :: nat
  po_ctx :: ptr
  po_ops :: "'w ag_fs_ops"
  po_open :: "ptr \<Rightarrow> string \<Rightarrow> u32 \<Rightarrow> 'w \<Rightarrow> ptr ag_err \<times> 'w"
  po_rel :: string
  po_canonical :: string
  po_cacheable :: bool

definition open_begin :: "'w vfs \<Rightarrow> string option \<Rightarrow> string option \<Rightarrow> u32 \<Rightarrow> 'w pending_open ag_err \<times> 'w vfs" where
  "open_begin s path cwd flags =
     (case resolve s path cwd of
        (Inl e, _) \<Rightarrow> (Inl e, s)
      | (Inr _, r) \<Rightarrow>
          let m = s_mounts s ! rv_index r in
          if is_write_flag flags \<and> flagged (mn_flags m) AG_MOUNT_READONLY then (Inl AG_EROFS, s)
          else case fs_open (the (mn_ops m)) of
                 None \<Rightarrow> (Inl AG_ENOTSUP, s)
               | Some f \<Rightarrow>
                   let cacheable = (\<not> is_write_flag flags \<and> \<not> flagged (mn_flags m) AG_MOUNT_VOLATILE);
                       (known, s1) = (if cacheable then miss_known s (rv_canonical r) else (False, s))
                   in if known then (Inl AG_ENOENT, s1)
                      else (Inr \<lparr>po_flags = flags, po_index = rv_index r, po_ctx = mn_ctx m, po_ops = the (mn_ops m), po_open = f,
                                 po_rel = rv_rel r, po_canonical = rv_canonical r, po_cacheable = cacheable\<rparr>, s1))"

definition open_call :: "'w vfs \<Rightarrow> 'w pending_open \<Rightarrow> ptr ag_err \<times> 'w vfs" where
  "open_call s po = (case po_open po (po_ctx po) (po_rel po) (po_flags po) (v_world s) of (r, w) \<Rightarrow> (r, s\<lparr>v_world := w\<rparr>))"

definition give_back :: "'w vfs \<Rightarrow> 'w pending_open \<Rightarrow> ptr \<Rightarrow> 'w vfs" where
  "give_back s po file =
     (case fs_close (po_ops po) of None \<Rightarrow> s | Some f \<Rightarrow> s\<lparr>v_world := snd (f (po_ctx po) file (v_world s))\<rparr>)"

definition open_finish :: "'w vfs \<Rightarrow> task \<Rightarrow> 'w pending_open \<Rightarrow> ptr \<Rightarrow> nat ag_err \<times> 'w vfs" where
  "open_finish s t po file =
     (let s1 = (if flagged (po_flags po) AG_O_CREATE then forget_misses_locked s else s);
          m = s_mounts s1 ! po_index po
      in if \<not> mn_used m \<or> mn_ejected m then (Inl AG_EIO, give_back s1 po file)
         else case alloc_slot s1 t of
                (Inl e, s2) \<Rightarrow> (Inl e, give_back s2 po file)
              | (Inr h, s2) \<Rightarrow>
                  (Inr h, set_mount (set_handle s2 h ((s_handles s2 ! h)\<lparr>hs_mount := po_index po, hs_obj := file, hs_is_dir := False\<rparr>))
                            (po_index po) (m\<lparr>mn_open_handles := mn_open_handles m + 1\<rparr>)))"

definition open_refused :: "'w vfs \<Rightarrow> 'w pending_open \<Rightarrow> ag_errno \<Rightarrow> 'w vfs" where
  "open_refused s po e =
     (if e = AG_ENOENT \<and> po_cacheable po then remember_absent s (po_ctx po) (po_ops po) (po_canonical po) (po_rel po) else s)"

definition ag_vfs_open :: "'w vfs \<Rightarrow> task \<Rightarrow> string option \<Rightarrow> string option \<Rightarrow> u32 \<Rightarrow> nat ag_err \<times> 'w vfs" where
  "ag_vfs_open s t path cwd flags =
     (case open_begin s path cwd flags of
        (Inl e, s1) \<Rightarrow> (Inl e, s1)
      | (Inr po, s1) \<Rightarrow>
          (case open_call s1 po of
             (Inl e, s2) \<Rightarrow> (Inl e, open_refused s2 po e)
           | (Inr file, s2) \<Rightarrow> open_finish s2 t po file))"

text \<open>The slot and the table behind an open handle.\<close>

definition handle_ref :: "'w vfs \<Rightarrow> int \<Rightarrow> bool \<Rightarrow> (nat \<times> 'w ag_fs_ops) ag_err" where
  "handle_ref s h want_dir =
     (case slot_of s h of
        None \<Rightarrow> Inl AG_EBADF
      | Some i \<Rightarrow>
          let x = s_handles s ! i in
          if hs_is_dir x \<noteq> want_dir then Inl AG_EBADF
          else if hs_is_root x then Inl AG_EISDIR
          else
            let m = s_mounts s ! hs_mount x in
            if mn_ejected m then Inl AG_EIO
            else case mn_ops m of None \<Rightarrow> Inl AG_EIO | Some fs \<Rightarrow> Inr (i, fs))"

definition ag_vfs_close :: "'w vfs \<Rightarrow> int \<Rightarrow> unit ag_err \<times> 'w vfs" where
  "ag_vfs_close s h =
     (case slot_of s h of
        None \<Rightarrow> (Inl AG_EBADF, s)
      | Some i \<Rightarrow>
          if hs_is_dir (s_handles s ! i) then (Inl AG_EBADF, s)
          else case backend_close s (s_handles s ! i) of (r, s1) \<Rightarrow> (r, free_slot s1 i))"

text \<open>An operation of the backend on an open file: the checks, then the call.\<close>

definition on_file :: "'w vfs \<Rightarrow> int \<Rightarrow> bool \<Rightarrow> ('w ag_fs_ops \<Rightarrow> (ptr \<Rightarrow> ptr \<Rightarrow> 'w \<Rightarrow> 'a ag_err \<times> 'w) option) \<Rightarrow> 'a ag_err \<times> 'w vfs" where
  "on_file s h writes sel =
     (case handle_ref s h False of
        Inl e \<Rightarrow> (Inl e, s)
      | Inr (i, fs) \<Rightarrow>
          let x = s_handles s ! i; m = s_mounts s ! hs_mount x in
          if writes \<and> flagged (mn_flags m) AG_MOUNT_READONLY then (Inl AG_EROFS, s)
          else case sel fs of
                 None \<Rightarrow> (Inl AG_ENOTSUP, s)
               | Some f \<Rightarrow> (case f (mn_ctx m) (hs_obj x) (v_world s) of (r, w) \<Rightarrow> (r, s\<lparr>v_world := w\<rparr>)))"

definition ag_vfs_read :: "'w vfs \<Rightarrow> int \<Rightarrow> u32 \<Rightarrow> u8 list ag_err \<times> 'w vfs" where
  "ag_vfs_read s h len = on_file s h False (\<lambda>fs. map_option (\<lambda>f ctx obj. f ctx obj len) (fs_read fs))"

definition ag_vfs_write :: "'w vfs \<Rightarrow> int \<Rightarrow> u8 list \<Rightarrow> nat ag_err \<times> 'w vfs" where
  "ag_vfs_write s h buf = on_file s h True (\<lambda>fs. map_option (\<lambda>f ctx obj. f ctx obj buf) (fs_write fs))"

definition ag_vfs_seek :: "'w vfs \<Rightarrow> int \<Rightarrow> int \<Rightarrow> whence \<Rightarrow> int ag_err \<times> 'w vfs" where
  "ag_vfs_seek s h off wh = on_file s h False (\<lambda>fs. map_option (\<lambda>f ctx obj. f ctx obj off wh) (fs_seek fs))"

definition ag_vfs_sync :: "'w vfs \<Rightarrow> int \<Rightarrow> unit ag_err \<times> 'w vfs" where
  "ag_vfs_sync s h = on_file s h False (\<lambda>fs. Some (case fs_sync fs of None \<Rightarrow> \<lambda>ctx obj w. (Inr (), w) | Some f \<Rightarrow> f))"

definition ag_vfs_truncate :: "'w vfs \<Rightarrow> int \<Rightarrow> u64 \<Rightarrow> unit ag_err \<times> 'w vfs" where
  "ag_vfs_truncate s h len = on_file s h True (\<lambda>fs. map_option (\<lambda>f ctx obj. f ctx obj len) (fs_truncate fs))"

section \<open>Names\<close>

definition root_stat :: ag_stat where
  "root_stat = \<lparr>st_size = 0, st_mtime = 0, st_dir = True\<rparr>"

definition ag_vfs_stat :: "'w vfs \<Rightarrow> string option \<Rightarrow> string option \<Rightarrow> ag_stat ag_err \<times> 'w vfs" where
  "ag_vfs_stat s path cwd =
     (case resolve s path cwd of
        (Inl e, r) \<Rightarrow> (if e = AG_ENOENT \<and> rv_canonical r = ''/'' then Inr root_stat else Inl e, s)
      | (Inr _, r) \<Rightarrow>
          let m = s_mounts s ! rv_index r in
          case fs_stat (the (mn_ops m)) of
            None \<Rightarrow> (Inl AG_ENOTSUP, s)
          | Some f \<Rightarrow>
              let cacheable = (\<not> flagged (mn_flags m) AG_MOUNT_VOLATILE);
                  (known, s1) = (if cacheable then miss_known s (rv_canonical r) else (False, s))
              in if known then (Inl AG_ENOENT, s1)
                 else case f (mn_ctx m) (rv_rel r) (v_world s1) of
                        (res, w) \<Rightarrow>
                          let s2 = s1\<lparr>v_world := w\<rparr>
                          in (res, if res = Inl AG_ENOENT \<and> cacheable then miss_remember s2 (rv_canonical r) (length (rv_canonical r)) False else s2))"

definition ag_vfs_realpath :: "'w vfs \<Rightarrow> string option \<Rightarrow> string option \<Rightarrow> nat \<Rightarrow> string ag_err \<times> 'w vfs" where
  "ag_vfs_realpath s path cwd outlen =
     (if outlen = 0 then (Inl AG_EINVAL, s)
      else
        case resolve s path cwd of
          (Inl e, _) \<Rightarrow> (Inl e, s)
        | (Inr _, r) \<Rightarrow>
            if length (rv_rel r) \<ge> AG_PATH_MAX then (Inl AG_ERANGE, s)
            else
              let m = s_mounts s ! rv_index r;
                  (c, w) = (case fs_canonicalize (the (mn_ops m)) of
                              None \<Rightarrow> (Inr (rv_rel r), v_world s)
                            | Some f \<Rightarrow> f (mn_ctx m) (rv_rel r) AG_PATH_MAX (v_world s))
              in (case c of
                    Inl e \<Rightarrow> Inl e
                  | Inr rel \<Rightarrow>
                      (let out = (if rel = ''/'' then mn_point m else mn_point m @ rel)
                       in if length out \<ge> outlen then Inl AG_ERANGE else Inr out),
                  s\<lparr>v_world := w\<rparr>))"

datatype mutate_op = MUTATE_UNLINK | MUTATE_MKDIR | MUTATE_RMDIR

definition mutate :: "'w vfs \<Rightarrow> string option \<Rightarrow> string option \<Rightarrow> mutate_op \<Rightarrow> unit ag_err \<times> 'w vfs" where
  "mutate s path cwd which =
     (case resolve s path cwd of
        (Inl e, _) \<Rightarrow> (Inl e, s)
      | (Inr _, r) \<Rightarrow>
          let m = s_mounts s ! rv_index r in
          if flagged (mn_flags m) AG_MOUNT_READONLY then (Inl AG_EROFS, s)
          else case (case which of MUTATE_UNLINK \<Rightarrow> fs_unlink (the (mn_ops m)) | MUTATE_MKDIR \<Rightarrow> fs_mkdir (the (mn_ops m))
                     | MUTATE_RMDIR \<Rightarrow> fs_rmdir (the (mn_ops m))) of
                 None \<Rightarrow> (Inl AG_ENOTSUP, s)
               | Some f \<Rightarrow>
                   (case f (mn_ctx m) (rv_rel r) (v_world s) of
                      (res, w) \<Rightarrow>
                        let s1 = s\<lparr>v_world := w\<rparr> in (res, if res = Inr () then forget_misses_locked s1 else s1)))"

definition ag_vfs_unlink :: "'w vfs \<Rightarrow> string option \<Rightarrow> string option \<Rightarrow> unit ag_err \<times> 'w vfs" where
  "ag_vfs_unlink s path cwd = mutate s path cwd MUTATE_UNLINK"

definition ag_vfs_mkdir :: "'w vfs \<Rightarrow> string option \<Rightarrow> string option \<Rightarrow> unit ag_err \<times> 'w vfs" where
  "ag_vfs_mkdir s path cwd = mutate s path cwd MUTATE_MKDIR"

definition ag_vfs_rmdir :: "'w vfs \<Rightarrow> string option \<Rightarrow> string option \<Rightarrow> unit ag_err \<times> 'w vfs" where
  "ag_vfs_rmdir s path cwd = mutate s path cwd MUTATE_RMDIR"

definition ag_vfs_rename :: "'w vfs \<Rightarrow> string option \<Rightarrow> string option \<Rightarrow> string option \<Rightarrow> unit ag_err \<times> 'w vfs" where
  "ag_vfs_rename s old new cwd =
     (case resolve s old cwd of
        (Inl e, _) \<Rightarrow> (Inl e, s)
      | (Inr _, rf) \<Rightarrow>
          (case resolve s new cwd of
             (Inl e, _) \<Rightarrow> (Inl e, s)
           | (Inr _, rt) \<Rightarrow>
               let m = s_mounts s ! rv_index rf in
               if rv_index rf \<noteq> rv_index rt then (Inl AG_EPERM, s)
               else if flagged (mn_flags m) AG_MOUNT_READONLY then (Inl AG_EROFS, s)
               else case fs_rename (the (mn_ops m)) of
                      None \<Rightarrow> (Inl AG_ENOTSUP, s)
                    | Some f \<Rightarrow>
                        (case f (mn_ctx m) (rv_rel rf) (rv_rel rt) (v_world s) of
                           (res, w) \<Rightarrow>
                             let s1 = s\<lparr>v_world := w\<rparr> in (res, if res = Inr () then forget_misses_locked s1 else s1))))"

section \<open>Directories\<close>

definition ag_vfs_opendir :: "'w vfs \<Rightarrow> task \<Rightarrow> string option \<Rightarrow> string option \<Rightarrow> nat ag_err \<times> 'w vfs" where
  "ag_vfs_opendir s t path cwd =
     (case resolve s path cwd of
        (Inl e, r) \<Rightarrow>
          if e = AG_ENOENT \<and> rv_canonical r = ''/'' then
            (case alloc_slot s t of
               (Inl e1, s1) \<Rightarrow> (Inl e1, s1)
             | (Inr h, s1) \<Rightarrow> (Inr h, set_handle s1 h ((s_handles s1 ! h)\<lparr>hs_is_dir := True, hs_is_root := True\<rparr>)))
          else (Inl e, s)
      | (Inr _, r) \<Rightarrow>
          let m = s_mounts s ! rv_index r; fs = the (mn_ops m) in
          case fs_opendir fs of
            None \<Rightarrow> (Inl AG_ENOTSUP, s)
          | Some f \<Rightarrow>
              (case f (mn_ctx m) (rv_rel r) (v_world s) of
                 (Inl e, w) \<Rightarrow> (Inl e, s\<lparr>v_world := w\<rparr>)
               | (Inr dir, w) \<Rightarrow>
                   let s1 = s\<lparr>v_world := w\<rparr> in
                   case alloc_slot s1 t of
                     (Inl e, s2) \<Rightarrow>
                       (Inl e, case fs_closedir fs of
                                 None \<Rightarrow> s2 | Some g \<Rightarrow> s2\<lparr>v_world := snd (g (mn_ctx m) dir (v_world s2))\<rparr>)
                   | (Inr h, s2) \<Rightarrow>
                       (Inr h, set_mount (set_handle s2 h ((s_handles s2 ! h)\<lparr>hs_mount := rv_index r, hs_obj := dir, hs_is_dir := True\<rparr>))
                                 (rv_index r) (m\<lparr>mn_open_handles := mn_open_handles m + 1\<rparr>))))"

definition ag_vfs_readdir :: "'w vfs \<Rightarrow> int \<Rightarrow> (string \<times> ag_stat) ag_err \<times> 'w vfs" where
  "ag_vfs_readdir s h =
     (case slot_of s h of
        None \<Rightarrow> (Inl AG_EBADF, s)
      | Some i \<Rightarrow>
          let x = s_handles s ! i in
          if \<not> hs_is_dir x then (Inl AG_EBADF, s)
          else if hs_is_root x then
            if hs_root_index x < length (used_mounts s) then
              (Inr (tl (mn_point (s_mounts s ! (used_mounts s ! hs_root_index x))), root_stat),
               set_handle s i (x\<lparr>hs_root_index := hs_root_index x + 1\<rparr>))
            else (Inl AG_ENOENT, s)
          else
            let m = s_mounts s ! hs_mount x in
            if mn_ejected m then (Inl AG_EIO, s)
            else case mn_ops m of
                   None \<Rightarrow> (Inl AG_EIO, s)
                 | Some fs \<Rightarrow>
                     (case fs_readdir fs of
                        None \<Rightarrow> (Inl AG_ENOTSUP, s)
                      | Some f \<Rightarrow> (case f (mn_ctx m) (hs_obj x) (v_world s) of (r, w) \<Rightarrow> (r, s\<lparr>v_world := w\<rparr>))))"

definition ag_vfs_closedir :: "'w vfs \<Rightarrow> int \<Rightarrow> unit ag_err \<times> 'w vfs" where
  "ag_vfs_closedir s h =
     (case slot_of s h of
        None \<Rightarrow> (Inl AG_EBADF, s)
      | Some i \<Rightarrow>
          let x = s_handles s ! i in
          if \<not> hs_is_dir x then (Inl AG_EBADF, s)
          else case (if hs_is_root x then (Inr (), s) else backend_close s x) of (r, s1) \<Rightarrow> (r, free_slot s1 i))"

section \<open>Runs\<close>

text \<open>
  The calls, as tasks make them. The opens that wait for their backend are listed; anything may happen between the
  steps of an open, and \<open>world\<close> is a change the VFS is not told of.
\<close>

datatype 'w vfs_call =
    Mount "string option" "'w ag_fs_ops option" ptr u32 | Unmount "string option" | Eject "string option" | Mount_info nat
  | Set_owner_fn "(task \<Rightarrow> pid) option" | Close int | Read int u32 | Write int "u8 list" | Seek int int whence | Sync int | Truncate int u64
  | Stat "string option" "string option" | Realpath "string option" "string option" nat | Mutate "string option" "string option" mutate_op
  | Rename "string option" "string option" "string option" | Opendir task "string option" "string option" | Readdir int | Closedir int
  | Close_owned_by pid | Forget_misses

fun vfs_exec :: "'w vfs \<Rightarrow> 'w vfs_call \<Rightarrow> 'w vfs" where
  "vfs_exec s (Mount p fs ctx flags) = snd (ag_vfs_mount s p fs ctx flags)"
| "vfs_exec s (Unmount p) = snd (ag_vfs_unmount s p)"
| "vfs_exec s (Eject p) = snd (ag_vfs_eject s p)"
| "vfs_exec s (Mount_info i) = snd (ag_vfs_mount_info s i)"
| "vfs_exec s (Set_owner_fn f) = ag_vfs_set_owner_fn s f"
| "vfs_exec s (Close h) = snd (ag_vfs_close s h)"
| "vfs_exec s (Read h n) = snd (ag_vfs_read s h n)"
| "vfs_exec s (Write h b) = snd (ag_vfs_write s h b)"
| "vfs_exec s (Seek h off wh) = snd (ag_vfs_seek s h off wh)"
| "vfs_exec s (Sync h) = snd (ag_vfs_sync s h)"
| "vfs_exec s (Truncate h n) = snd (ag_vfs_truncate s h n)"
| "vfs_exec s (Stat p cwd) = snd (ag_vfs_stat s p cwd)"
| "vfs_exec s (Realpath p cwd n) = snd (ag_vfs_realpath s p cwd n)"
| "vfs_exec s (Mutate p cwd k) = snd (mutate s p cwd k)"
| "vfs_exec s (Rename a b cwd) = snd (ag_vfs_rename s a b cwd)"
| "vfs_exec s (Opendir t p cwd) = snd (ag_vfs_opendir s t p cwd)"
| "vfs_exec s (Readdir h) = snd (ag_vfs_readdir s h)"
| "vfs_exec s (Closedir h) = snd (ag_vfs_closedir s h)"
| "vfs_exec s (Close_owned_by p) = snd (ag_vfs_close_owned_by s p)"
| "vfs_exec s Forget_misses = ag_vfs_forget_misses s"

datatype open_stage = In_backend | Opened ptr | Refused ag_errno

type_synonym 'w opens = "('w pending_open \<times> open_stage) list"

inductive vfs_step :: "'w vfs \<times> 'w opens \<Rightarrow> 'w vfs \<times> 'w opens \<Rightarrow> bool" where
  step_call: "vfs_step (s, ps) (vfs_exec s c, ps)"
| step_world: "vfs_step (s, ps) (s\<lparr>v_world := w\<rparr>, ps)"
| step_begin: "open_begin s path cwd flags = (Inr po, s1) \<Longrightarrow> vfs_step (s, ps) (s1, (po, In_backend) # ps)"
| step_begin_err: "open_begin s path cwd flags = (Inl e, s1) \<Longrightarrow> vfs_step (s, ps) (s1, ps)"
| step_backend: "open_call s po = (r, s1) \<Longrightarrow>
    vfs_step (s, as @ (po, In_backend) # bs) (s1, as @ (po, case r of Inl e \<Rightarrow> Refused e | Inr file \<Rightarrow> Opened file) # bs)"
| step_finish: "open_finish s t po file = (r, s1) \<Longrightarrow> vfs_step (s, as @ (po, Opened file) # bs) (s1, as @ bs)"
| step_refused: "vfs_step (s, as @ (po, Refused e) # bs) (open_refused s po e, as @ bs)"

inductive vfs_reach :: "'w vfs \<Rightarrow> 'w opens \<Rightarrow> bool" where
  reach_init: "vfs_reach (snd (ag_vfs_init s)) []"
| reach_step: "vfs_reach s ps \<Longrightarrow> vfs_step (s, ps) (s', ps') \<Longrightarrow> vfs_reach s' ps'"

end
