(* ===== verification/VfsInv.thy ===== *)
theory VfsInv
  imports Vfs
begin

text \<open>
  What the mount table and the handle table promise each other, in every state the calls of any tasks can reach,
  with opens waiting in their backends: which mounts are in use, how many handles each counts, what a handle refers to.
\<close>

section \<open>The invariant\<close>

definition on_mount :: "nat \<Rightarrow> ag_vfs_handle_slot \<Rightarrow> bool" where
  "on_mount i x \<longleftrightarrow> hs_used x \<and> \<not> hs_is_root x \<and> hs_mount x = i"

definition handles_on :: "ag_vfs_handle_slot list \<Rightarrow> nat \<Rightarrow> nat" where
  "handles_on hs i = length (filter (on_mount i) hs)"

definition point_ok :: "'w ag_mount \<Rightarrow> bool" where
  "point_ok m \<longleftrightarrow> length (mn_point m) < POINT_SIZE \<and> mn_point_len m = (if mn_point m = ''/'' then 0 else length (mn_point m)) \<and>
     (\<exists>cs. (\<forall>c \<in> set cs. good_comp c) \<and> mn_point m = finish_root (render cs))"

definition mount_ok :: "'w ag_mount \<Rightarrow> nat \<Rightarrow> bool" where
  "mount_ok m n \<longleftrightarrow> mn_open_handles m = n \<and>
     (if mn_used m then point_ok m \<and> (if mn_ejected m then mn_ops m = None \<and> 0 < n else mn_ops m \<noteq> None) else m = zero_mount)"

definition hslot_ok :: "ag_vfs_handle_slot \<Rightarrow> bool" where
  "hslot_ok x \<longleftrightarrow> (hs_used x \<longrightarrow> (if hs_is_root x then hs_is_dir x else hs_mount x < AG_VFS_MAX_MOUNTS))"

definition points_distinct :: "'w ag_mount list \<Rightarrow> bool" where
  "points_distinct ms \<longleftrightarrow> (\<forall>i < length ms. \<forall>j < length ms.
     mn_used (ms ! i) \<longrightarrow> mn_used (ms ! j) \<longrightarrow> mn_point (ms ! i) = mn_point (ms ! j) \<longrightarrow> i = j)"

definition mounts_ok :: "'w ag_mount list \<Rightarrow> ag_vfs_handle_slot list \<Rightarrow> bool" where
  "mounts_ok ms hs \<longleftrightarrow> length ms = AG_VFS_MAX_MOUNTS \<and> length hs = AG_VFS_MAX_HANDLES \<and>
     (\<forall>i < AG_VFS_MAX_MOUNTS. mount_ok (ms ! i) (handles_on hs i)) \<and> (\<forall>x \<in> set hs. hslot_ok x) \<and> points_distinct ms"

abbreviation vfs_inv :: "'w vfs \<Rightarrow> bool" where
  "vfs_inv s \<equiv> mounts_ok (s_mounts s) (s_handles s)"

section \<open>Changes to the tables\<close>

lemma handles_on_update:
  "h < length hs \<Longrightarrow> handles_on (hs[h := x]) i + of_bool (on_mount i (hs ! h)) = handles_on hs i + of_bool (on_mount i x)"
proof (induction hs arbitrary: h)
  case (Cons y hs)
  then show ?case by (cases h) (auto simp: handles_on_def)
qed simp

lemma zero_mount_sel [simp]:
  "mn_used zero_mount = False" "mn_open_handles zero_mount = 0" "mn_ops zero_mount = None" "mn_ejected zero_mount = False"
  by (simp_all add: zero_mount_def)

lemma zero_slot_sel [simp]: "hs_used zero_slot = False" "hs_is_root zero_slot = False" "hs_is_dir zero_slot = False" "\<not> on_mount i zero_slot" "hslot_ok zero_slot"
  by (simp_all add: zero_slot_def on_mount_def hslot_ok_def)

lemma tables_init: "mounts_ok (replicate AG_VFS_MAX_MOUNTS zero_mount) (replicate AG_VFS_MAX_HANDLES zero_slot)"
  by (auto simp: mounts_ok_def mount_ok_def handles_on_def points_distinct_def)

lemma points_update:
  assumes "points_distinct ms" and "mn_used m \<Longrightarrow> \<forall>j < length ms. j \<noteq> i \<longrightarrow> mn_used (ms ! j) \<longrightarrow> mn_point (ms ! j) \<noteq> mn_point m"
  shows "points_distinct (ms[i := m])"
  unfolding points_distinct_def
proof (intro allI impI)
  fix j k
  assume "j < length (ms[i := m])" "k < length (ms[i := m])" "mn_used (ms[i := m] ! j)" "mn_used (ms[i := m] ! k)"
    "mn_point (ms[i := m] ! j) = mn_point (ms[i := m] ! k)"
  then show "j = k" using assms by (cases "j = i"; cases "k = i") (auto simp: points_distinct_def)
qed

lemma mount_update:
  assumes "mounts_ok ms hs" and "i < AG_VFS_MAX_MOUNTS" and "mount_ok m (handles_on hs i)"
    and "mn_used m \<Longrightarrow> \<forall>j < AG_VFS_MAX_MOUNTS. j \<noteq> i \<longrightarrow> mn_used (ms ! j) \<longrightarrow> mn_point (ms ! j) \<noteq> mn_point m"
  shows "mounts_ok (ms[i := m]) hs"
  using assms points_update [of ms m i] by (auto simp: mounts_ok_def nth_list_update)

text \<open>A change to a mount in use that leaves its name alone.\<close>

lemma mount_change:
  assumes "mounts_ok ms hs" and "i < AG_VFS_MAX_MOUNTS" and "mn_used (ms ! i)" and "mount_ok m (handles_on hs i)"
    and "mn_used m \<Longrightarrow> mn_point m = mn_point (ms ! i)"
  shows "mounts_ok (ms[i := m]) hs"
  using assms by (intro mount_update) (auto simp: mounts_ok_def points_distinct_def)

lemma slot_change:
  assumes ok: "mounts_ok ms hs" and h: "h < AG_VFS_MAX_HANDLES" and x: "hslot_ok x" and same: "\<And>i. on_mount i x = on_mount i (hs ! h)"
  shows "mounts_ok ms (hs[h := x])"
proof -
  have hl: "h < length hs" using ok h by (simp add: mounts_ok_def)
  have "handles_on (hs[h := x]) i = handles_on hs i" for i using handles_on_update [OF hl, of x i] same by simp
  moreover have "\<forall>y \<in> set (hs[h := x]). hslot_ok y" using ok x set_update_subset_insert [of hs h x] by (auto simp: mounts_ok_def)
  ultimately show ?thesis using ok by (simp add: mounts_ok_def)
qed

text \<open>One handle comes or goes on a mount, and the mount's count with it.\<close>

lemma handle_change:
  assumes ok: "mounts_ok ms hs" and i: "i < AG_VFS_MAX_MOUNTS" and h: "h < AG_VFS_MAX_HANDLES" and x: "hslot_ok x"
    and others: "\<And>j. j \<noteq> i \<Longrightarrow> on_mount j x = on_mount j (hs ! h)" and u: "mn_used (ms ! i)"
    and m: "mount_ok m (handles_on (hs[h := x]) i)" and pt: "mn_used m \<Longrightarrow> mn_point m = mn_point (ms ! i)"
  shows "mounts_ok (ms[i := m]) (hs[h := x])"
proof -
  have hl: "h < length hs" using ok h by (simp add: mounts_ok_def)
  have "handles_on (hs[h := x]) j = handles_on hs j" if "j \<noteq> i" for j using handles_on_update [OF hl, of x j] others [OF that] by simp
  then have "mount_ok ((ms[i := m]) ! j) (handles_on (hs[h := x]) j)" if "j < AG_VFS_MAX_MOUNTS" for j
    using ok i m that by (cases "j = i") (auto simp: mounts_ok_def)
  moreover have "\<forall>y \<in> set (hs[h := x]). hslot_ok y" using ok x set_update_subset_insert [of hs h x] by (auto simp: mounts_ok_def)
  moreover have "points_distinct (ms[i := m])" using ok i u pt by (intro points_update) (auto simp: mounts_ok_def points_distinct_def)
  ultimately show ?thesis using ok by (simp add: mounts_ok_def)
qed

section \<open>Each operation\<close>

lemma forget_same [simp]:
  "s_mounts (forget_misses_locked s) = s_mounts s" "s_handles (forget_misses_locked s) = s_handles s" "v_world (forget_misses_locked s) = v_world s"
  "s_owner_fn (forget_misses_locked s) = s_owner_fn s" "s_initialised (forget_misses_locked s) = s_initialised s"
  by (simp_all add: forget_misses_locked_def)

lemma set_sel [simp]:
  "s_mounts (set_mount s i m) = (s_mounts s)[i := m]" "s_handles (set_mount s i m) = s_handles s"
  "s_mounts (set_handle s h x) = s_mounts s" "s_handles (set_handle s h x) = (s_handles s)[h := x]"
  "v_world (set_mount s i m) = v_world s" "v_world (set_handle s h x) = v_world s"
  by (simp_all add: set_mount_def set_handle_def)

lemma miss_same [simp]:
  "s_mounts (miss_remember s p n b) = s_mounts s" "s_handles (miss_remember s p n b) = s_handles s"
  "s_mounts (snd (miss_known s p)) = s_mounts s" "s_handles (snd (miss_known s p)) = s_handles s" "v_world (snd (miss_known s p)) = v_world s"
  by (simp_all add: miss_remember_def miss_known_def Let_def)

lemma remember_same [simp]:
  "s_mounts (remember_absent s ctx fs c rel) = s_mounts s" "s_handles (remember_absent s ctx fs c rel) = s_handles s"
  by (simp_all add: remember_absent_def Let_def split: option.split prod.split)

lemma resolve_out: "snd (ag_path_resolve p cwd (Some b) n) \<noteq> None"
  by (auto simp: ag_path_resolve_def Let_def split: prod.splits sum.splits if_splits option.splits)

lemma resolve_good:
  assumes "ag_path_resolve (Some p) None (Some b) outlen = (Inr (), Some out)"
  obtains cs where "\<forall>c \<in> set cs. good_comp c" and "out = finish_root (render cs)"
proof -
  have n: "outlen \<ge> 2" using assms(1) by (auto simp: ag_path_resolve_def split: if_splits)
  from assms(1) [unfolded resolve_follow [OF n, of None, simplified]] obtain d cs dir where
    st: "start_comps p None = Some (d, cs)" and f: "follow_all outlen [] (d @ cs) = (Inr (), dir)"
    and out: "out = (if dir = [] then ''/'' else render dir)"
    by (fastforce split: option.splits prod.splits sum.splits)
  have "\<forall>c \<in> set (d @ cs). c \<noteq> [] \<and> (\<forall>x \<in> set c. \<not> is_sep x)"
    using st by (auto simp: start_comps_def dest: path_comps_mem split: option.splits if_splits)
  then have "\<forall>c \<in> set dir. good_comp c" using follow_all_good [of "[]" "d @ cs" outlen] f by auto
  then show thesis using that out by (simp add: finish_root_render)
qed

lemma mount_inv:
  assumes inv: "vfs_inv s"
  shows "vfs_inv (snd (ag_vfs_mount s p fs ctx flags))"
proof (cases "fst (ag_vfs_mount s p fs ctx flags)")
  case (Inl e)
  then have "snd (ag_vfs_mount s p fs ctx flags) = s"
    by (auto simp: ag_vfs_mount_def Let_def split: if_splits prod.splits sum.splits option.splits)
  then show ?thesis using inv by simp
next
  case (Inr u)
  then obtain q g out i where a: "p = Some q" "fs = Some g" "ag_path_resolve (Some q) None (Some []) AG_PATH_MAX = (Inr (), Some out)"
      "length out < POINT_SIZE" "mount_named s out = None" "find (\<lambda>i. \<not> mn_used (s_mounts s ! i)) [0..<AG_VFS_MAX_MOUNTS] = Some i"
      and e: "snd (ag_vfs_mount s p fs ctx flags) = forget_misses_locked (set_mount s i
        \<lparr>mn_point = out, mn_point_len = (if out = ''/'' then 0 else length out), mn_ops = Some g,
         mn_ctx = ctx, mn_flags = flags, mn_open_handles = 0, mn_used = True, mn_ejected = False\<rparr>)"
    using resolve_out [of p None "[]" AG_PATH_MAX]
    by (auto simp: ag_vfs_mount_def Option.is_none_def Let_def not_le split: if_splits prod.splits sum.splits option.splits)
  from resolve_good [OF a(3)] obtain cs where cs: "\<forall>c \<in> set cs. good_comp c" "out = finish_root (render cs)" .
  have i: "i < AG_VFS_MAX_MOUNTS" "\<not> mn_used (s_mounts s ! i)" using find_upt_SomeD [OF a(6)] by auto
  have z: "handles_on (s_handles s) i = 0" using inv i by (auto simp: mounts_ok_def mount_ok_def)
  have new: "\<forall>j < AG_VFS_MAX_MOUNTS. mn_used (s_mounts s ! j) \<longrightarrow> mn_point (s_mounts s ! j) \<noteq> out"
    using a(5) by (auto simp: mount_named_def find_None_iff)
  have "\<exists>cs. (\<forall>c \<in> set cs. good_comp c) \<and> out = finish_root (render cs)" using cs by blast
  then have "point_ok \<lparr>mn_point = out, mn_point_len = (if out = ''/'' then 0 else length out), mn_ops = Some g,
         mn_ctx = ctx, mn_flags = flags, mn_open_handles = 0, mn_used = True, mn_ejected = False\<rparr>" using a(4) by (simp add: point_ok_def)
  then show ?thesis unfolding e using inv i new by (auto intro!: mount_update simp: mount_ok_def z)
qed

lemma named_SomeD: "mount_named s c = Some i \<Longrightarrow> i < AG_VFS_MAX_MOUNTS \<and> mn_used (s_mounts s ! i) \<and> mn_point (s_mounts s ! i) = c"
  unfolding mount_named_def by (drule find_upt_SomeD) auto

lemma mount_okD: "vfs_inv s \<Longrightarrow> i < AG_VFS_MAX_MOUNTS \<Longrightarrow> mount_ok (s_mounts s ! i) (handles_on (s_handles s) i)"
  by (simp add: mounts_ok_def)

lemma unmount_inv: "vfs_inv s \<Longrightarrow> vfs_inv (snd (ag_vfs_unmount s p))"
  using mount_okD [of s]
  by (auto simp: ag_vfs_unmount_def mount_ok_def dest!: named_SomeD intro!: mount_change split: prod.splits sum.splits option.splits)

lemma eject_ok: "mount_ok m n \<Longrightarrow> mn_used m \<Longrightarrow> mn_open_handles m \<noteq> 0 \<Longrightarrow> mount_ok (m\<lparr>mn_ejected := True, mn_ops := None, mn_ctx := NULL\<rparr>) n"
  by (simp add: mount_ok_def point_ok_def)

lemma eject_inv: "vfs_inv s \<Longrightarrow> vfs_inv (snd (ag_vfs_eject s p))"
  using mount_okD [of s]
  by (auto simp: ag_vfs_eject_def Let_def dest!: named_SomeD intro!: mount_change eject_ok split: prod.splits sum.splits option.splits if_splits)
    (simp add: mount_ok_def)

section \<open>Handles\<close>

lemma count_ok: "mount_ok m n \<Longrightarrow> mn_used m \<Longrightarrow> \<not> mn_ejected m \<Longrightarrow> k = n + 1 \<Longrightarrow> mount_ok (m\<lparr>mn_open_handles := k\<rparr>) k"
  by (simp add: mount_ok_def point_ok_def)

lemma alloc_SomeD:
  assumes "alloc_slot s t = (Inr h, s1)"
  shows "h < AG_VFS_MAX_HANDLES" "\<not> hs_used (s_handles s ! h)" "s1 = set_handle s h (zero_slot\<lparr>hs_used := True, hs_owner := current_owner s t\<rparr>)"
  using assms by (auto simp: alloc_slot_def dest!: find_upt_SomeD split: option.splits)

lemma alloc_NoneD: "alloc_slot s t = (Inl e, s1) \<Longrightarrow> s1 = s \<and> e = AG_ENFILE"
  by (auto simp: alloc_slot_def split: option.splits)

text \<open>A slot that is free becomes a handle on a mount that is there.\<close>

lemma attach_inv:
  assumes inv: "vfs_inv s" and a: "alloc_slot s t = (Inr h, s1)" and i: "i < AG_VFS_MAX_MOUNTS" "mn_used (s_mounts s ! i)" "\<not> mn_ejected (s_mounts s ! i)"
    and x: "x = (s_handles s1 ! h)\<lparr>hs_mount := i, hs_obj := obj, hs_is_dir := d\<rparr>"
  shows "vfs_inv (set_mount (set_handle s1 h x) i ((s_mounts s ! i)\<lparr>mn_open_handles := mn_open_handles (s_mounts s ! i) + 1\<rparr>))"
proof -
  note h = alloc_SomeD [OF a]
  have len: "length (s_handles s) = AG_VFS_MAX_HANDLES" using inv by (simp add: mounts_ok_def)
  have xs: "hs_used x" "\<not> hs_is_root x" "hs_mount x = i" using h len by (simp_all add: x)
  have old: "\<not> on_mount j (s_handles s ! h)" for j using h(2) by (simp add: on_mount_def)
  have on: "on_mount j x = (j = i)" for j using xs by (auto simp: on_mount_def)
  have up: "handles_on ((s_handles s)[h := x]) i = handles_on (s_handles s) i + 1"
    using handles_on_update [of h "s_handles s" x i] h(1) len old on by simp
  let ?m = "(s_mounts s ! i)\<lparr>mn_open_handles := mn_open_handles (s_mounts s ! i) + 1\<rparr>"
  have "mn_open_handles (s_mounts s ! i) = handles_on (s_handles s) i" using mount_okD [OF inv i(1)] by (simp add: mount_ok_def)
  then have "mount_ok ?m (handles_on ((s_handles s)[h := x]) i)" unfolding up using count_ok [OF mount_okD [OF inv i(1)] i(2,3)] by simp
  then have "mounts_ok ((s_mounts s)[i := ?m]) ((s_handles s)[h := x])"
    using inv i h(1) xs old on by (intro handle_change) (simp_all add: hslot_ok_def)
  then show ?thesis by (simp add: h(3))
qed

lemma free_inv:
  assumes inv: "vfs_inv s" and h: "h < AG_VFS_MAX_HANDLES" and u: "hs_used (s_handles s ! h)"
  shows "vfs_inv (free_slot s h)"
proof (cases "hs_is_root (s_handles s ! h)")
  case True
  then have "\<not> on_mount i (s_handles s ! h)" for i by (simp add: on_mount_def)
  then show ?thesis using True inv h by (auto simp: free_slot_def Let_def intro: slot_change)
next
  case False
  let ?x = "s_handles s ! h" let ?i = "hs_mount ?x" let ?m = "s_mounts s ! ?i"
  have len: "length (s_handles s) = AG_VFS_MAX_HANDLES" using inv by (simp add: mounts_ok_def)
  have i: "?i < AG_VFS_MAX_MOUNTS" using inv h u False len nth_mem [of h "s_handles s"] by (auto simp: mounts_ok_def hslot_ok_def)
  have on: "on_mount j ?x = (j = ?i)" for j using u False by (auto simp: on_mount_def)
  have down: "handles_on ((s_handles s)[h := zero_slot]) ?i + 1 = handles_on (s_handles s) ?i"
    using handles_on_update [of h "s_handles s" zero_slot ?i] h len on by simp
  have ok: "mount_ok ?m (handles_on (s_handles s) ?i)" by (rule mount_okD [OF inv i])
  have pos: "0 < mn_open_handles ?m" using ok down by (simp add: mount_ok_def)
  then have used: "mn_used ?m" "0 < mn_open_handles ?m" using ok unfolding mount_ok_def by (metis less_irrefl zero_mount_sel(2))+
  let ?n = "mn_open_handles ?m - 1"
  let ?m' = "if mn_ejected ?m \<and> ?n = 0 then zero_mount else ?m\<lparr>mn_open_handles := ?n\<rparr>"
  have cnt: "handles_on ((s_handles s)[h := zero_slot]) ?i = ?n" using ok down by (simp add: mount_ok_def)
  have "mount_ok ?m' (handles_on ((s_handles s)[h := zero_slot]) ?i)" unfolding cnt using ok used by (auto simp: mount_ok_def point_ok_def)
  then have "mounts_ok ((s_mounts s)[?i := ?m']) ((s_handles s)[h := zero_slot])"
    using inv i h on used by (intro handle_change) auto
  moreover have "free_slot s h = set_handle (set_mount s ?i ?m') h zero_slot" using False i used by (simp add: free_slot_def Let_def)
  ultimately show ?thesis by simp
qed

lemma slot_of_SomeD: "slot_of s h = Some i \<Longrightarrow> i < AG_VFS_MAX_HANDLES \<and> hs_used (s_handles s ! i) \<and> h = int i"
  by (auto simp: slot_of_def split: if_splits)

lemma backend_close_same [simp]:
  "s_mounts (snd (backend_close s x)) = s_mounts s" "s_handles (snd (backend_close s x)) = s_handles s" "s_neg (snd (backend_close s x)) = s_neg s"
  by (simp_all add: backend_close_def Let_def split: option.split prod.split)

lemma give_back_same [simp]: "s_mounts (give_back s po f) = s_mounts s" "s_handles (give_back s po f) = s_handles s"
  by (simp_all add: give_back_def split: option.split)

lemma free_slot_cong: "s_mounts s' = s_mounts s \<Longrightarrow> s_handles s' = s_handles s \<Longrightarrow>
    s_mounts (free_slot s' h) = s_mounts (free_slot s h) \<and> s_handles (free_slot s' h) = s_handles (free_slot s h)"
  by (simp add: free_slot_def Let_def)

lemma close_inv: "vfs_inv s \<Longrightarrow> vfs_inv (snd (ag_vfs_close s h))"
  by (auto simp: ag_vfs_close_def split_beta dest!: slot_of_SomeD intro!: free_inv split: option.split)

lemma closedir_inv: "vfs_inv s \<Longrightarrow> vfs_inv (snd (ag_vfs_closedir s h))"
  by (auto simp: ag_vfs_closedir_def split_beta Let_def dest!: slot_of_SomeD intro!: free_inv split: option.split)

lemma free_used: "j \<noteq> h \<Longrightarrow> s_handles (free_slot s h) ! j = s_handles s ! j"
  by (simp add: free_slot_def Let_def)

lemma close_owned_inv: "vfs_inv s \<Longrightarrow> set js \<subseteq> {..<AG_VFS_MAX_HANDLES} \<Longrightarrow> vfs_inv (snd (close_owned_from s p js))"
proof (induction js arbitrary: s)
  case (Cons j js)
  let ?s1 = "if hs_is_root (s_handles s ! j) then s else snd (backend_close s (s_handles s ! j))"
  have "vfs_inv (free_slot ?s1 j)" if "hs_used (s_handles s ! j)"
    using Cons.prems that by (intro free_inv) auto
  then show ?case using Cons by (auto simp: Let_def split_beta)
qed simp

lemma on_file_same [simp]: "s_mounts (snd (on_file s h w sel)) = s_mounts s" "s_handles (snd (on_file s h w sel)) = s_handles s"
  by (simp_all add: on_file_def Let_def split: sum.split prod.split option.split)

lemma stat_same [simp]: "s_mounts (snd (ag_vfs_stat s p c)) = s_mounts s" "s_handles (snd (ag_vfs_stat s p c)) = s_handles s"
  by (simp_all add: ag_vfs_stat_def Let_def split_beta split: sum.split prod.split option.split)

lemma realpath_same [simp]: "s_mounts (snd (ag_vfs_realpath s p c n)) = s_mounts s" "s_handles (snd (ag_vfs_realpath s p c n)) = s_handles s"
  by (simp_all add: ag_vfs_realpath_def Let_def split_beta split: sum.split prod.split option.split)

lemma mutate_same [simp]: "s_mounts (snd (mutate s p c k)) = s_mounts s" "s_handles (snd (mutate s p c k)) = s_handles s"
  by (simp_all add: mutate_def Let_def split_beta split: sum.split prod.split option.split)

lemma rename_same [simp]: "s_mounts (snd (ag_vfs_rename s p q c)) = s_mounts s" "s_handles (snd (ag_vfs_rename s p q c)) = s_handles s"
  by (simp_all add: ag_vfs_rename_def Let_def split_beta split: sum.split prod.split option.split)

lemma info_same [simp]: "s_mounts (snd (ag_vfs_mount_info s i)) = s_mounts s" "s_handles (snd (ag_vfs_mount_info s i)) = s_handles s"
  by (simp_all add: ag_vfs_mount_info_def Let_def split_beta split: prod.split option.split)

section \<open>Finding a mount\<close>

text \<open>The scan: the last of the longest matching points among the first \<open>n\<close> places.\<close>

abbreviation scan_step :: "'w vfs \<Rightarrow> string \<Rightarrow> nat option \<times> nat \<Rightarrow> nat \<Rightarrow> nat option \<times> nat" where
  "scan_step s path \<equiv> (\<lambda>(best, best_len) i.
     let m = s_mounts s ! i in
     if mount_matches m path \<and> mn_point_len m \<ge> best_len then (Some i, mn_point_len m) else (best, best_len))"

lemma scan_spec:
  "case foldl (scan_step s path) (None, 0) [0..<n] of
     (None, l) \<Rightarrow> l = 0 \<and> (\<forall>j < n. \<not> mount_matches (s_mounts s ! j) path)
   | (Some i, l) \<Rightarrow> i < n \<and> mount_matches (s_mounts s ! i) path \<and> l = mn_point_len (s_mounts s ! i) \<and>
       (\<forall>j < n. mount_matches (s_mounts s ! j) path \<longrightarrow> mn_point_len (s_mounts s ! j) \<le> l)"
proof (induction n)
  case (Suc n)
  obtain b l where f: "foldl (scan_step s path) (None, 0) [0..<n] = (b, l)" by (cases "foldl (scan_step s path) (None, 0) [0..<n]")
  have g: "foldl (scan_step s path) (None, 0) [0..<Suc n] = scan_step s path (b, l) n" by (simp add: f)
  show ?case unfolding g using Suc.IH [unfolded f]
    by (cases b) (auto simp: Let_def less_Suc_eq not_le intro: less_imp_le le_trans)
qed simp

lemma find_mount_SomeD:
  assumes "find_mount s path = Some (i, rel)"
  shows "i < AG_VFS_MAX_MOUNTS" and "mount_matches (s_mounts s ! i) path"
    and "rel = (let tail = drop (mn_point_len (s_mounts s ! i)) path in if tail = [] then ''/'' else tail)"
    and "\<And>j. j < AG_VFS_MAX_MOUNTS \<Longrightarrow> mount_matches (s_mounts s ! j) path \<Longrightarrow> mn_point_len (s_mounts s ! j) \<le> mn_point_len (s_mounts s ! i)"
  using assms scan_spec [where s = s and path = path and n = AG_VFS_MAX_MOUNTS] by (auto simp: find_mount_def Let_def split: prod.splits option.splits)

lemma find_mount_NoneD: "find_mount s path = None \<Longrightarrow> j < AG_VFS_MAX_MOUNTS \<Longrightarrow> \<not> mount_matches (s_mounts s ! j) path"
  using scan_spec [where s = s and path = path and n = AG_VFS_MAX_MOUNTS] by (auto simp: find_mount_def Let_def split: prod.splits option.splits)

lemma resolve_InrD:
  assumes "resolve s path cwd = (Inr u, r)"
  shows "rv_index r < AG_VFS_MAX_MOUNTS" "mn_used (s_mounts s ! rv_index r)" "\<not> mn_ejected (s_mounts s ! rv_index r)"
    and "find_mount s (rv_canonical r) = Some (rv_index r, rv_rel r)"
    and "ag_path_resolve path cwd (Some []) AG_PATH_MAX = (Inr (), Some (rv_canonical r))"
proof -
  show f: "find_mount s (rv_canonical r) = Some (rv_index r, rv_rel r)" and "\<not> mn_ejected (s_mounts s ! rv_index r)"
    and "ag_path_resolve path cwd (Some []) AG_PATH_MAX = (Inr (), Some (rv_canonical r))"
    using assms resolve_out [of path cwd "[]" AG_PATH_MAX] by (auto simp: resolve_def split: prod.splits sum.splits option.splits if_splits)
  show "rv_index r < AG_VFS_MAX_MOUNTS" "mn_used (s_mounts s ! rv_index r)" using find_mount_SomeD(1,2) [OF f] by (simp_all add: mount_matches_def)
qed

lemma opendir_inv:
  assumes inv: "vfs_inv s"
  shows "vfs_inv (snd (ag_vfs_opendir s t p c))"
proof -
  obtain e r where rs: "resolve s p c = (e, r)" by (cases "resolve s p c")
  show ?thesis
  proof (cases e)
    case (Inl x)
    show ?thesis
    proof (cases "alloc_slot s t")
      case (Pair a s1)
      show ?thesis
      proof (cases a)
        case (Inr h)
        note al = alloc_SomeD [OF Pair [unfolded Inr]]
        have "\<not> on_mount i (s_handles s ! h)" for i using al(2) by (simp add: on_mount_def)
        then show ?thesis using inv rs Inl Pair Inr al
          by (auto simp: ag_vfs_opendir_def on_mount_def hslot_ok_def intro!: slot_change)
      qed (use inv rs Inl Pair in \<open>auto simp: ag_vfs_opendir_def dest: alloc_NoneD\<close>)
    qed
  next
    case (Inr u)
    note r = resolve_InrD [OF rs [unfolded Inr]]
    let ?m = "s_mounts s ! rv_index r"
    show ?thesis
    proof (cases "fs_opendir (the (mn_ops ?m))")
      case None
      then show ?thesis using inv rs Inr by (simp add: ag_vfs_opendir_def Let_def)
    next
      case (Some f)
      obtain d w where fw: "f (mn_ctx ?m) (rv_rel r) (v_world s) = (d, w)" by (cases "f (mn_ctx ?m) (rv_rel r) (v_world s)")
      show ?thesis
      proof (cases d)
        case (Inr dir)
        let ?s1 = "s\<lparr>v_world := w\<rparr>"
        show ?thesis
        proof (cases "alloc_slot ?s1 t")
          case (Pair a s2)
          show ?thesis
          proof (cases a)
            case (Inl x)
            then show ?thesis using inv rs \<open>e = Inr u\<close> Some fw Inr alloc_NoneD [OF Pair [unfolded Inl]] Pair
              by (simp add: ag_vfs_opendir_def Let_def split: option.split)
          next
            case (Inr h)
            have "vfs_inv ?s1" using inv by simp
            from attach_inv [OF this Pair [unfolded Inr], of "rv_index r"] r
            show ?thesis using rs \<open>e = Inr u\<close> Some fw \<open>d = Inr dir\<close> Pair Inr by (simp add: ag_vfs_opendir_def Let_def)
          qed
        qed
      qed (use inv rs \<open>e = Inr u\<close> Some fw in \<open>simp add: ag_vfs_opendir_def Let_def\<close>)
    qed
  qed
qed

lemma readdir_inv:
  assumes inv: "vfs_inv s"
  shows "vfs_inv (snd (ag_vfs_readdir s h))"
proof (cases "slot_of s h")
  case None
  then show ?thesis using inv by (simp add: ag_vfs_readdir_def)
next
  case (Some i)
  note i = slot_of_SomeD [OF Some]
  let ?x = "s_handles s ! i"
  have "hslot_ok ?x" using inv i by (simp add: mounts_ok_def)
  then have "vfs_inv (set_handle s i (?x\<lparr>hs_root_index := n\<rparr>))" for n
    using inv i by (simp add: on_mount_def hslot_ok_def slot_change)
  then show ?thesis using Some inv by (auto simp: ag_vfs_readdir_def Let_def split: option.split prod.split)
qed

section \<open>Opening, in its steps\<close>

lemma open_begin_same:
  "s_mounts (snd (open_begin s p c f)) = s_mounts s \<and> s_handles (snd (open_begin s p c f)) = s_handles s"
  by (simp add: open_begin_def Let_def split_beta split: sum.split prod.split option.split)

lemma open_begin_InrD:
  assumes "open_begin s p c f = (Inr po, s1)"
  obtains r where "resolve s p c = (Inr (), r)" and "po_index po = rv_index r" and "po_rel po = rv_rel r" and "po_canonical po = rv_canonical r"
    and "po_ctx po = mn_ctx (s_mounts s ! rv_index r)" and "po_ops po = the (mn_ops (s_mounts s ! rv_index r))"
    and "fs_open (the (mn_ops (s_mounts s ! rv_index r))) = Some (po_open po)" and "po_flags po = f"
    and "po_cacheable po = (\<not> is_write_flag f \<and> \<not> flagged (mn_flags (s_mounts s ! rv_index r)) AG_MOUNT_VOLATILE)"
proof -
  obtain e r where rs: "resolve s p c = (e, r)" by (cases "resolve s p c")
  then show thesis using assms that [of r]
    by (auto simp: open_begin_def Let_def split_beta split: sum.splits option.splits if_splits)
qed

lemma open_begin_index: "open_begin s p c f = (Inr po, s1) \<Longrightarrow> po_index po < AG_VFS_MAX_MOUNTS"
  by (erule open_begin_InrD) (simp add: resolve_InrD(1))

lemma open_call_same [simp]: "s_mounts (snd (open_call s po)) = s_mounts s" "s_handles (snd (open_call s po)) = s_handles s"
  by (simp_all add: open_call_def split: prod.split)

lemma refused_same [simp]: "s_mounts (open_refused s po e) = s_mounts s" "s_handles (open_refused s po e) = s_handles s"
  by (simp_all add: open_refused_def)

lemma finish_inv:
  assumes inv: "vfs_inv s" and i: "po_index po < AG_VFS_MAX_MOUNTS"
  shows "vfs_inv (snd (open_finish s t po file))"
proof -
  let ?s1 = "if flagged (po_flags po) AG_O_CREATE then forget_misses_locked s else s"
  let ?m = "s_mounts ?s1 ! po_index po"
  have inv1: "vfs_inv ?s1" using inv by simp
  show ?thesis
  proof (cases "\<not> mn_used ?m \<or> mn_ejected ?m")
    case True
    then show ?thesis using inv by (simp add: open_finish_def Let_def)
  next
    case False
    obtain a s2 where al: "alloc_slot ?s1 t = (a, s2)" by (cases "alloc_slot ?s1 t")
    show ?thesis
    proof (cases a)
      case (Inl e)
      then show ?thesis using alloc_NoneD [OF al [unfolded Inl]] al False inv unfolding open_finish_def Let_def by auto
    next
      case (Inr h)
      from attach_inv [OF inv1 al [unfolded Inr] i] False
      show ?thesis using al Inr unfolding open_finish_def Let_def by auto
    qed
  qed
qed

section \<open>Reachable states\<close>

lemma exec_inv: "vfs_inv s \<Longrightarrow> vfs_inv (vfs_exec s c)"
  by (cases c)
    (simp_all add: mount_inv unmount_inv eject_inv close_inv closedir_inv opendir_inv readdir_inv close_owned_inv ag_vfs_close_owned_by_def
       ag_vfs_set_owner_fn_def ag_vfs_read_def ag_vfs_write_def ag_vfs_seek_def ag_vfs_sync_def ag_vfs_truncate_def ag_vfs_forget_misses_def lessThan_atLeast0)

lemma step_inv:
  assumes "vfs_step c c'" and "vfs_inv (fst c)" and "\<forall>p \<in> set (snd c). po_index (fst p) < AG_VFS_MAX_MOUNTS"
  shows "vfs_inv (fst c') \<and> (\<forall>p \<in> set (snd c'). po_index (fst p) < AG_VFS_MAX_MOUNTS)"
  using assms
proof cases
  case (step_begin s path cwd flags po s1 ps)
  then show ?thesis using assms(2,3) open_begin_same [of s path cwd flags] open_begin_index by fastforce
next
  case (step_begin_err s path cwd flags e s1 ps)
  then show ?thesis using assms(2,3) open_begin_same [of s path cwd flags] by fastforce
next
  case (step_backend s po r s1 as bs)
  then show ?thesis using assms(2,3) open_call_same [of s po] by (auto split: sum.split)
next
  case (step_finish s t po f r s1 as bs)
  then show ?thesis using assms(2,3) finish_inv [of s po t f] by auto
qed (auto simp: exec_inv)

lemma vfs_reach_inv: "vfs_reach s ps \<Longrightarrow> vfs_inv s \<and> (\<forall>p \<in> set ps. po_index (fst p) < AG_VFS_MAX_MOUNTS)"
proof (induction rule: vfs_reach.induct)
  case (reach_init s)
  then show ?case using tables_init by (simp add: ag_vfs_init_def)
next
  case (reach_step s ps s' ps')
  then show ?case using step_inv by fastforce
qed

text \<open>An open handle that is not a listing of the mount points is on a mount in use.\<close>

lemma handle_mount:
  assumes inv: "vfs_inv s" and h: "h < AG_VFS_MAX_HANDLES" "hs_used (s_handles s ! h)"
  shows "hs_is_root (s_handles s ! h) \<or> hs_mount (s_handles s ! h) < AG_VFS_MAX_MOUNTS \<and> mn_used (s_mounts s ! hs_mount (s_handles s ! h)) \<and>
    0 < mn_open_handles (s_mounts s ! hs_mount (s_handles s ! h))"
proof (cases "hs_is_root (s_handles s ! h)")
  case False
  let ?x = "s_handles s ! h"
  have mem: "?x \<in> set (s_handles s)" using h inv by (simp add: mounts_ok_def)
  then have "hslot_ok ?x" using inv by (simp add: mounts_ok_def)
  then have i: "hs_mount ?x < AG_VFS_MAX_MOUNTS" "on_mount (hs_mount ?x) ?x" using False h by (auto simp: hslot_ok_def on_mount_def)
  then have "handles_on (s_handles s) (hs_mount ?x) \<noteq> 0" using mem by (auto simp: handles_on_def filter_empty_conv)
  then show ?thesis using mount_okD [OF inv i(1)] i(1) by (auto simp: mount_ok_def)
qed simp

lemma named_unique: "vfs_inv s \<Longrightarrow> i < AG_VFS_MAX_MOUNTS \<Longrightarrow> mn_used (s_mounts s ! i) \<Longrightarrow> mn_point (s_mounts s ! i) = c \<Longrightarrow> mount_named s c = Some i"
proof -
  assume a: "vfs_inv s" "i < AG_VFS_MAX_MOUNTS" "mn_used (s_mounts s ! i)" "mn_point (s_mounts s ! i) = c"
  then have "mount_named s c \<noteq> None" by (auto simp: mount_named_def find_None_iff)
  then obtain j where "mount_named s c = Some j" by blast
  with named_SomeD [OF this] a show ?thesis by (auto simp: mounts_ok_def points_distinct_def)
qed

text \<open>A handle whose mount is ejected.\<close>

lemma ejected_on_file: "slot_of s h = Some k \<Longrightarrow> \<not> hs_is_dir (s_handles s ! k) \<Longrightarrow> \<not> hs_is_root (s_handles s ! k) \<Longrightarrow>
    mn_ejected (s_mounts s ! hs_mount (s_handles s ! k)) \<Longrightarrow> on_file s h w sel = (Inl AG_EIO, s)"
  by (simp add: on_file_def handle_ref_def Let_def)

lemma eject_unfold:
  assumes "vfs_inv s" and "i < AG_VFS_MAX_MOUNTS" and "mn_used (s_mounts s ! i)" and "0 < mn_open_handles (s_mounts s ! i)"
    and "ag_path_resolve p None (Some []) AG_PATH_MAX = (Inr (), Some (mn_point (s_mounts s ! i)))"
  shows "ag_vfs_eject s p = (Inr (), forget_misses_locked (set_mount s i ((s_mounts s ! i)\<lparr>mn_ejected := True, mn_ops := None, mn_ctx := NULL\<rparr>)))"
  using assms named_unique [OF assms(1-3) refl] by (simp add: ag_vfs_eject_def Let_def)

subsection \<open>Closing what a process left open\<close>

text \<open>The table and the context that a call reaches through a mount, if any, and what giving an object back does to the world.\<close>

definition live_table :: "'w ag_mount \<Rightarrow> ('w ag_fs_ops \<times> ptr) option" where
  "live_table m = (if mn_ejected m then None else map_option (\<lambda>fs. (fs, mn_ctx m)) (mn_ops m))"

definition closing :: "'w vfs \<Rightarrow> ag_vfs_handle_slot \<Rightarrow> 'w \<Rightarrow> 'w" where
  "closing s x w =
     (case live_table (s_mounts s ! hs_mount x) of
        None \<Rightarrow> w
      | Some (fs, ctx) \<Rightarrow> (case (if hs_is_dir x then fs_closedir fs else fs_close fs) of None \<Rightarrow> w | Some f \<Rightarrow> snd (f ctx (hs_obj x) w)))"

lemma backend_close_world: "v_world (snd (backend_close s x)) = closing s x (v_world s)"
  by (auto simp: backend_close_def closing_def live_table_def Let_def split: option.split prod.split)

lemma free_live: "live_table (s_mounts (free_slot s h) ! i) = live_table (s_mounts s ! i)"
proof (cases "i = hs_mount (s_handles s ! h) \<and> i < length (s_mounts s)")
  case True
  then show ?thesis by (auto simp: free_slot_def Let_def live_table_def)
next
  case False
  have "(s_mounts s)[hs_mount (s_handles s ! h) := m] ! i = s_mounts s ! i" for m
    using False by (metis list_update_beyond linorder_not_less nth_list_update_neq)
  then show ?thesis by (simp add: free_slot_def Let_def)
qed

lemma free_world [simp]: "v_world (free_slot s h) = v_world s"
  by (simp add: free_slot_def Let_def)

lemma free_length: "length (s_handles (free_slot s h)) = length (s_handles s)"
  by (simp add: free_slot_def Let_def)

lemma free_self: "h < length (s_handles s) \<Longrightarrow> s_handles (free_slot s h) ! h = zero_slot"
  by (simp add: free_slot_def Let_def)

definition owned_by :: "pid \<Rightarrow> ag_vfs_handle_slot \<Rightarrow> bool" where
  "owned_by p x \<longleftrightarrow> hs_used x \<and> hs_owner x = p"

lemma close_owned_spec:
  assumes "distinct js" and "set js \<subseteq> {..<length (s_handles s)}"
  shows "fst (close_owned_from s p js) = length (filter (\<lambda>j. owned_by p (s_handles s ! j)) js) \<and>
    (\<forall>h. s_handles (snd (close_owned_from s p js)) ! h = (if h \<in> set js \<and> owned_by p (s_handles s ! h) then zero_slot else s_handles s ! h)) \<and>
    v_world (snd (close_owned_from s p js)) = foldl (\<lambda>w x. closing s x w) (v_world s)
      (filter (\<lambda>x. owned_by p x \<and> \<not> hs_is_root x) (map ((!) (s_handles s)) js))"
  using assms
proof (induction js arbitrary: s)
  case (Cons j js)
  let ?x = "s_handles s ! j"
  show ?case
  proof (cases "owned_by p ?x")
    case False
    then show ?thesis using Cons by (auto simp: owned_by_def)
  next
    case True
    define s1 where "s1 = (if hs_is_root ?x then s else snd (backend_close s ?x))"
    define s2 where "s2 = free_slot s1 j"
    have s1: "s_mounts s1 = s_mounts s" "s_handles s1 = s_handles s" "v_world s1 = (if hs_is_root ?x then v_world s else closing s ?x (v_world s))"
      by (simp_all add: s1_def backend_close_world)
    have j: "j < length (s_handles s)" "j \<notin> set js" using Cons.prems by auto
    have h2: "s_handles s2 ! h = (if h = j then zero_slot else s_handles s ! h)" for h
      using j s1 free_used [of h j s1] free_self [of j s1] by (auto simp: s2_def)
    have w2: "v_world s2 = v_world s1" by (simp add: s2_def)
    have c2: "closing s2 = closing s" by (rule ext)+ (simp add: closing_def s2_def free_live s1)
    have l2: "length (s_handles s2) = length (s_handles s)" by (simp add: s2_def free_length s1)
    have eq: "close_owned_from s p (j # js) = map_prod Suc id (close_owned_from s2 p js)"
      using True unfolding s2_def s1_def by (simp add: owned_by_def Let_def split_beta map_prod_def)
    have IH: "fst (close_owned_from s2 p js) = length (filter (\<lambda>j. owned_by p (s_handles s2 ! j)) js)"
      "s_handles (snd (close_owned_from s2 p js)) ! h = (if h \<in> set js \<and> owned_by p (s_handles s2 ! h) then zero_slot else s_handles s2 ! h)"
      "v_world (snd (close_owned_from s2 p js)) = foldl (\<lambda>w x. closing s x w) (v_world s2)
         (filter (\<lambda>x. owned_by p x \<and> \<not> hs_is_root x) (map ((!) (s_handles s2)) js))" for h
      using Cons.IH [of s2] Cons.prems l2 by (auto simp: c2)
    have same: "s_handles s2 ! i = s_handles s ! i" if "i \<in> set js" for i using h2 j(2) that by auto
    have m: "map ((!) (s_handles s2)) js = map ((!) (s_handles s)) js" using same by simp
    have n: "filter (\<lambda>j. owned_by p (s_handles s2 ! j)) js = filter (\<lambda>j. owned_by p (s_handles s ! j)) js" using same by (intro filter_cong) auto
    have "s_handles (snd (close_owned_from s p (j # js))) ! h = (if h \<in> set (j # js) \<and> owned_by p (s_handles s ! h) then zero_slot else s_handles s ! h)" for h
      unfolding eq using IH(2) [of h] h2 [of h] True j(2) by (auto simp: owned_by_def)
    moreover have "v_world (snd (close_owned_from s p (j # js))) = foldl (\<lambda>w x. closing s x w) (v_world s)
      (filter (\<lambda>x. owned_by p x \<and> \<not> hs_is_root x) (map ((!) (s_handles s)) (j # js)))"
      unfolding eq using IH(3) True by (simp add: m w2 s1(3))
    ultimately show ?thesis using IH(1) True unfolding eq by (simp add: n)
  qed
qed simp

subsection \<open>Points as prefixes\<close>

lemma no_slash_split:
  assumes "a @ t = b @ u" and "CHR ''/'' \<notin> set a" "CHR ''/'' \<notin> set b"
    and "t = [] \<or> hd t = CHR ''/''" "u = [] \<or> hd u = CHR ''/''"
  shows "a = b \<and> t = u"
proof -
  have tw: "takeWhile (\<lambda>c. c \<noteq> CHR ''/'') (x @ y) = x" if "CHR ''/'' \<notin> set x" "y = [] \<or> hd y = CHR ''/''" for x y :: string
    using that by (cases y) (auto simp: takeWhile_append2 takeWhile_tail)
  have "a = b" using tw [of a t] tw [of b u] assms by metis
  then show ?thesis using assms(1) by simp
qed

lemma render_hd: "render cs = [] \<or> hd (render cs) = CHR ''/''"
  by (cases cs) simp_all

lemma render_prefix:
  assumes "\<forall>c \<in> set ps. good_comp c" and "\<forall>c \<in> set cs. good_comp c" and "t = [] \<or> hd t = CHR ''/''" and "render cs = render ps @ t"
  shows "\<exists>ds. cs = ps @ ds \<and> t = render ds"
  using assms
proof (induction ps arbitrary: cs)
  case (Cons p ps)
  then obtain c ds where cs: "cs = c # ds" by (cases cs) auto
  have g: "CHR ''/'' \<notin> set p" "CHR ''/'' \<notin> set c" using Cons.prems cs by (auto simp: good_comp_def dest: sep_slash)
  have e: "c @ render ds = p @ (render ps @ t)" using Cons.prems(4) cs by simp
  have "render ps @ t = [] \<or> hd (render ps @ t) = CHR ''/''" using render_hd [of ps] Cons.prems(3) by (cases "render ps") auto
  from no_slash_split [OF e g(2,1) render_hd this] have "c = p" "render ds = render ps @ t" by auto
  with Cons.IH [of ds] Cons.prems cs show ?case by auto
qed simp

lemma render_length_prefix: "prefix a b \<Longrightarrow> length (render a) \<le> length (render b)"
  by (auto simp: prefix_def render_def)

definition point_comps :: "'w ag_mount \<Rightarrow> string list" where
  "point_comps m = path_comps (mn_point m)"

lemma point_facts:
  assumes "point_ok m"
  shows "\<forall>c \<in> set (point_comps m). good_comp c" and "mn_point_len m = length (render (point_comps m))"
    and "take (mn_point_len m) (mn_point m) = render (point_comps m)"
proof -
  obtain cs where cs: "\<forall>c \<in> set cs. good_comp c" "mn_point m = finish_root (render cs)" using assms by (auto simp: point_ok_def)
  have pc: "path_comps (render cs) = cs" using cs(1) by (intro path_comps_render) (auto simp: good_comp_def)
  have "point_comps m = cs" using pc cs(2) by (cases "cs = []") (auto simp: point_comps_def finish_root_def)
  moreover have "render cs \<noteq> ''/''" using cs(1) by (cases cs) (auto simp: good_comp_def)
  ultimately show "\<forall>c \<in> set (point_comps m). good_comp c" "mn_point_len m = length (render (point_comps m))"
    "take (mn_point_len m) (mn_point m) = render (point_comps m)"
    using assms cs by (cases "cs = []", auto simp: point_ok_def finish_root_render)+
qed

lemma point_of_comps: "point_ok m \<Longrightarrow> mn_point m = finish_root (render (point_comps m))"
proof -
  assume "point_ok m"
  then obtain cs where cs: "\<forall>c \<in> set cs. good_comp c" "mn_point m = finish_root (render cs)" by (auto simp: point_ok_def)
  have "path_comps (render cs) = cs" using cs(1) by (intro path_comps_render) (auto simp: good_comp_def)
  then show ?thesis using cs(2) by (cases "cs = []") (auto simp: point_comps_def finish_root_def)
qed

lemma matches_prefix:
  assumes m: "point_ok m" and cs: "\<forall>c \<in> set cs. good_comp c \<and> cstr c"
  shows "mount_matches m (finish_root (render cs)) \<longleftrightarrow> mn_used m \<and> prefix (point_comps m) cs"
proof -
  let ?q = "point_comps m" let ?p = "finish_root (render cs)" let ?n = "length (render ?q)"
  note f = point_facts [OF m]
  have nul: "CHR 0x00 \<notin> set ?p" using cs by (auto simp: finish_root_def cstr_def render_def)
  have at: "cstr_at ?p ?n = CHR 0x00 \<or> cstr_at ?p ?n = CHR ''/'' \<longleftrightarrow> drop ?n ?p = [] \<or> hd (drop ?n ?p) = CHR ''/''"
    using nul by (auto simp: cstr_at_def hd_drop_conv_nth dest: nth_mem)
  have mm: "mount_matches m ?p \<longleftrightarrow> mn_used m \<and> take ?n ?p = render ?q \<and> (drop ?n ?p = [] \<or> hd (drop ?n ?p) = CHR ''/'')"
    unfolding mount_matches_def Let_def f(3) unfolding f(2) using at by blast
  show ?thesis
  proof (cases "cs = []")
    case True
    have "\<forall>c \<in> set ?q. c \<noteq> []" using f(1) by (auto simp: good_comp_def)
    then show ?thesis unfolding mm using True by (cases ?q) (auto simp: finish_root_def)
  next
    case False
    then have p: "?p = render cs" by (simp add: finish_root_render)
    have "(\<exists>ds. cs = ?q @ ds) \<longleftrightarrow> take ?n ?p = render ?q \<and> (drop ?n ?p = [] \<or> hd (drop ?n ?p) = CHR ''/'')"
    proof
      assume "\<exists>ds. cs = ?q @ ds"
      then obtain ds where "cs = ?q @ ds" by blast
      then have "?p = render ?q @ render ds" using p by (simp add: render_def)
      then show "take ?n ?p = render ?q \<and> (drop ?n ?p = [] \<or> hd (drop ?n ?p) = CHR ''/'')" using render_hd [of ds] by simp
    next
      assume a: "take ?n ?p = render ?q \<and> (drop ?n ?p = [] \<or> hd (drop ?n ?p) = CHR ''/'')"
      then have "render cs = render ?q @ drop ?n ?p" using p by (metis append_take_drop_id)
      then show "\<exists>ds. cs = ?q @ ds" using render_prefix [OF f(1)] cs a by blast
    qed
    then show ?thesis unfolding mm prefix_def by blast
  qed
qed

lemma longest_mount:
  assumes inv: "vfs_inv s" and good: "\<forall>c \<in> set cs. good_comp c \<and> cstr c"
  shows "case find_mount s (finish_root (render cs)) of
      None \<Rightarrow> \<forall>j < AG_VFS_MAX_MOUNTS. mn_used (s_mounts s ! j) \<longrightarrow> \<not> prefix (point_comps (s_mounts s ! j)) cs
    | Some (i, rel) \<Rightarrow> i < AG_VFS_MAX_MOUNTS \<and> mn_used (s_mounts s ! i) \<and> prefix (point_comps (s_mounts s ! i)) cs \<and>
        rel = finish_root (render (drop (length (point_comps (s_mounts s ! i))) cs)) \<and>
        (\<forall>j < AG_VFS_MAX_MOUNTS. mn_used (s_mounts s ! j) \<longrightarrow> prefix (point_comps (s_mounts s ! j)) cs \<longrightarrow>
           j = i \<or> length (point_comps (s_mounts s ! j)) < length (point_comps (s_mounts s ! i)))"
proof -
  have pok: "point_ok (s_mounts s ! j)" if "j < AG_VFS_MAX_MOUNTS" "mn_used (s_mounts s ! j)" for j
    using mount_okD [OF inv that(1)] that(2) by (simp add: mount_ok_def)
  have mt: "mount_matches (s_mounts s ! j) (finish_root (render cs)) \<longleftrightarrow> mn_used (s_mounts s ! j) \<and> prefix (point_comps (s_mounts s ! j)) cs"
    if "j < AG_VFS_MAX_MOUNTS" for j using matches_prefix [OF pok [OF that] good] by (auto simp: mount_matches_def)
  show ?thesis
  proof (cases "find_mount s (finish_root (render cs))")
    case None
    then show ?thesis using find_mount_NoneD [OF None] mt by auto
  next
    case (Some r)
    obtain i rel where r: "r = (i, rel)" by (cases r)
    note f = find_mount_SomeD [OF Some [unfolded r]]
    let ?m = "s_mounts s ! i"
    have i: "mn_used ?m" "prefix (point_comps ?m) cs" using f(2) mt [OF f(1)] by auto
    note pf = point_facts [OF pok [OF f(1) i(1)]]
    from i(2) obtain ds where ds: "cs = point_comps ?m @ ds" by (auto simp: prefix_def)
    have rd: "render cs = render (point_comps ?m) @ render ds" using ds by (simp add: render_def)
    have "rel = finish_root (render ds)" unfolding f(3) pf(2) Let_def
      using rd ds by (cases "ds = []"; cases "point_comps ?m = []") (auto simp: finish_root_render finish_root_def)
    moreover have "j = i \<or> length (point_comps (s_mounts s ! j)) < length (point_comps ?m)"
      if j: "j < AG_VFS_MAX_MOUNTS" "mn_used (s_mounts s ! j)" "prefix (point_comps (s_mounts s ! j)) cs" for j
    proof (rule ccontr)
      assume n: "\<not> (j = i \<or> length (point_comps (s_mounts s ! j)) < length (point_comps ?m))"
      note pj = point_facts [OF pok [OF j(1,2)]]
      from n have pij: "prefix (point_comps ?m) (point_comps (s_mounts s ! j))" using i(2) j(3) by (auto intro: prefix_length_prefix)
      then obtain es where es: "point_comps (s_mounts s ! j) = point_comps ?m @ es" by (auto simp: prefix_def)
      have "length (render (point_comps (s_mounts s ! j))) \<le> length (render (point_comps ?m))"
        using f(4) [OF j(1)] j mt [OF j(1)] pj(2) pf(2) by simp
      then have "render es = []" by (simp add: es render_def)
      then have "es = []" by (cases es) simp_all
      then have eq: "point_comps (s_mounts s ! j) = point_comps ?m" using es by simp
      have "mn_point (s_mounts s ! j) = mn_point ?m"
        using point_of_comps [OF pok [OF j(1,2)]] point_of_comps [OF pok [OF f(1) i(1)]] eq by simp
      then show False using n inv f(1) i(1) j by (auto simp: mounts_ok_def points_distinct_def)
    qed
    ultimately show ?thesis unfolding Some r using f(1) i ds by simp
  qed
qed

subsection \<open>Calls without interleaving\<close>

lemma reach_exec: "vfs_reach s ps \<Longrightarrow> vfs_reach (vfs_exec s c) ps"
  by (rule reach_step [OF _ step_call])

lemma reach_open:
  assumes "vfs_reach s ps"
  shows "vfs_reach (snd (ag_vfs_open s t p c f)) ps"
proof (cases "open_begin s p c f")
  case (Pair e s1)
  show ?thesis
  proof (cases e)
    case (Inl x)
    then show ?thesis using reach_step [OF assms step_begin_err] Pair by (simp add: ag_vfs_open_def)
  next
    case (Inr po)
    have r1: "vfs_reach s1 ([] @ (po, In_backend) # ps)" using reach_step [OF assms step_begin] Pair Inr by simp
    obtain r s2 where call: "open_call s1 po = (r, s2)" by (cases "open_call s1 po")
    note r2 = reach_step [OF r1 step_backend [OF call]]
    show ?thesis
    proof (cases r)
      case (Inl x)
      then have "vfs_reach s2 ([] @ (po, Refused x) # ps)" using r2 by simp
      from reach_step [OF this step_refused] show ?thesis using Pair Inr call Inl by (simp add: ag_vfs_open_def)
    next
      case (Inr obj)
      obtain q s3 where fin: "open_finish s2 t po obj = (q, s3)" by (cases "open_finish s2 t po obj")
      have "vfs_reach s2 ([] @ (po, Opened obj) # ps)" using r2 Inr by simp
      from reach_step [OF this step_finish [OF fin]] show ?thesis using Pair \<open>e = Inr po\<close> call Inr fin by (simp add: ag_vfs_open_def)
    qed
  qed
qed

subsection \<open>An example\<close>

definition demo_table :: "unit ag_fs_ops" where
  "demo_table = \<lparr>fs_addr = 16, fs_name = Some ''ram'', fs_open = Some (\<lambda>ctx rel flags w. (Inr 7, w)), fs_close = Some (\<lambda>ctx obj w. (Inr (), w)),
     fs_read = None, fs_write = None, fs_seek = None, fs_sync = None, fs_truncate = None, fs_stat = None, fs_unlink = None, fs_rename = None,
     fs_mkdir = None, fs_rmdir = None, fs_opendir = None, fs_readdir = None, fs_closedir = None, fs_info = None, fs_canonicalize = None\<rparr>"

definition boot_vfs :: "'w \<Rightarrow> 'w vfs" where
  "boot_vfs w = snd (ag_vfs_init \<lparr>s_mounts = [], s_handles = [], s_neg = [], s_neg_hits = 0, s_neg_count = 0, s_owner_fn = None,
     s_initialised = False, v_world = w\<rparr>)"

definition demo_vfs :: "unit vfs" where
  "demo_vfs = snd (ag_vfs_open (snd (ag_vfs_mount (boot_vfs ()) (Some ''/sd'') (Some demo_table) 0 0)) 0 (Some ''/sd/a'') None 0)"

lemma boot_reach: "vfs_reach (boot_vfs w) []"
  unfolding boot_vfs_def by (rule reach_init)

lemma demo_vfs_reach: "vfs_reach demo_vfs []"
  unfolding demo_vfs_def using reach_open [OF reach_exec [OF boot_reach, of _ "Mount (Some ''/sd'') (Some demo_table) 0 0"]] by simp

section \<open>Properties\<close>

text \<open>
  C3. Whatever any tasks do, with any backends, and whatever happens between the steps of an open: a mount counts exactly
  the handles that are open on it, a place of the mount table that is not in use has none, and every open handle, other than a listing
  of the mount points, refers to a mount that is there.
\<close>

theorem vfs_accounting:
  assumes "vfs_reach s ps"
  shows "(\<forall>i < AG_VFS_MAX_MOUNTS. mn_open_handles (s_mounts s ! i) = length (filter (on_mount i) (s_handles s)) \<and>
      (\<not> mn_used (s_mounts s ! i) \<longrightarrow> filter (on_mount i) (s_handles s) = [])) \<and>
    (\<forall>h < AG_VFS_MAX_HANDLES. hs_used (s_handles s ! h) \<longrightarrow> hs_is_root (s_handles s ! h) \<or>
      hs_mount (s_handles s ! h) < AG_VFS_MAX_MOUNTS \<and> mn_used (s_mounts s ! hs_mount (s_handles s ! h)))"
proof (intro conjI allI impI)
  have inv: "vfs_inv s" using vfs_reach_inv [OF assms] by blast
  then have m: "mount_ok (s_mounts s ! i) (handles_on (s_handles s) i)" if "i < AG_VFS_MAX_MOUNTS" for i using mount_okD that by blast
  show "mn_open_handles (s_mounts s ! i) = length (filter (on_mount i) (s_handles s))" if "i < AG_VFS_MAX_MOUNTS" for i
    using m [OF that] by (simp add: mount_ok_def handles_on_def)
  show none: "filter (on_mount i) (s_handles s) = []" if "i < AG_VFS_MAX_MOUNTS" "\<not> mn_used (s_mounts s ! i)" for i
    using m [OF that(1)] that(2) by (auto simp: mount_ok_def handles_on_def)
  show "hs_is_root (s_handles s ! h) \<or> hs_mount (s_handles s ! h) < AG_VFS_MAX_MOUNTS \<and> mn_used (s_mounts s ! hs_mount (s_handles s ! h))"
    if h: "h < AG_VFS_MAX_HANDLES" "hs_used (s_handles s ! h)" for h
    using handle_mount [OF inv h] none by blast
qed

theorem vfs_accounting_witness:
  "mn_open_handles (s_mounts demo_vfs ! 0) = 1 \<and> mn_used (s_mounts demo_vfs ! hs_mount (s_handles demo_vfs ! 0))"
proof -
  have "hs_used (s_handles demo_vfs ! 0)" "\<not> hs_is_root (s_handles demo_vfs ! 0)" "length (filter (on_mount 0) (s_handles demo_vfs)) = 1"
    by code_simp+
  moreover have "0 < AG_VFS_MAX_MOUNTS" "0 < AG_VFS_MAX_HANDLES" by (simp_all add: AG_VFS_MAX_MOUNTS_def AG_VFS_MAX_HANDLES_def)
  ultimately show ?thesis using vfs_accounting [OF demo_vfs_reach] by metis
qed

text \<open>
  C28. Media that goes away takes no one with it. Once a mount with open handles is ejected, every operation on such a handle is answered
  with an I/O error and changes nothing; closing the handle succeeds without a call of the backend, and with the last
  handle the place in the mount table is free again.
\<close>

theorem vfs_eject_poisons:
  assumes "vfs_reach s ps" and "slot_of s h = Some k" and "x = s_handles s ! k" and "\<not> hs_is_root x"
    and "ag_path_resolve p None (Some []) AG_PATH_MAX = (Inr (), Some (mn_point (s_mounts s ! hs_mount x)))"
    and "ag_vfs_eject s p = (r, s1)" and "close = (if hs_is_dir x then ag_vfs_closedir s1 h else ag_vfs_close s1 h)"
  shows "r = Inr () \<and>
    (if hs_is_dir x then ag_vfs_readdir s1 h = (Inl AG_EIO, s1)
     else ag_vfs_read s1 h n = (Inl AG_EIO, s1) \<and> ag_vfs_write s1 h buf = (Inl AG_EIO, s1) \<and> ag_vfs_seek s1 h off wh = (Inl AG_EIO, s1) \<and>
       ag_vfs_sync s1 h = (Inl AG_EIO, s1) \<and> ag_vfs_truncate s1 h len = (Inl AG_EIO, s1)) \<and>
    fst close = Inr () \<and> v_world (snd close) = v_world s \<and>
    mn_used (s_mounts (snd close) ! hs_mount x) = (mn_open_handles (s_mounts s ! hs_mount x) \<noteq> 1)"
proof -
  have inv: "vfs_inv s" using vfs_reach_inv [OF assms(1)] by blast
  have len: "length (s_mounts s) = AG_VFS_MAX_MOUNTS" "length (s_handles s) = AG_VFS_MAX_HANDLES" using inv by (simp_all add: mounts_ok_def)
  note k = slot_of_SomeD [OF assms(2)]
  let ?i = "hs_mount x" let ?m = "s_mounts s ! ?i"
  have i: "?i < AG_VFS_MAX_MOUNTS" "mn_used ?m" "0 < mn_open_handles ?m" using handle_mount [OF inv, of k] k assms(3,4) by auto
  note e = eject_unfold [OF inv i assms(5)]
  have s1: "s1 = forget_misses_locked (set_mount s ?i (?m\<lparr>mn_ejected := True, mn_ops := None, mn_ctx := NULL\<rparr>))" and r: "r = Inr ()"
    using e assms(6) by auto
  have hs: "s_handles s1 = s_handles s" "v_world s1 = v_world s" by (simp_all add: s1)
  have m1: "s_mounts s1 ! ?i = ?m\<lparr>mn_ejected := True, mn_ops := None, mn_ctx := NULL\<rparr>" using i len by (simp add: s1)
  have sl: "slot_of s1 h = Some k" using assms(2) by (simp add: slot_of_def hs)
  have x: "s_handles s1 ! k = x" by (simp add: hs assms(3))
  have len1: "length (s_mounts s1) = AG_VFS_MAX_MOUNTS" using len by (simp add: s1)
  have f: "\<not> hs_is_dir x \<Longrightarrow> on_file s1 h w sel = (Inl AG_EIO, s1)" for w and sel :: "'a ag_fs_ops \<Rightarrow> (ptr \<Rightarrow> ptr \<Rightarrow> 'a \<Rightarrow> 'c ag_err \<times> 'a) option"
    using ejected_on_file [OF sl] x m1 assms(4) by simp
  have cl: "close = (Inr (), free_slot s1 k)" unfolding assms(7)
    using sl x m1 assms(4) by (simp add: ag_vfs_close_def ag_vfs_closedir_def backend_close_def Let_def)
  have "mn_used (s_mounts (free_slot s1 k) ! ?i) = (mn_open_handles ?m \<noteq> 1)" "v_world (free_slot s1 k) = v_world s1"
    using x m1 assms(4) i len1 by (auto simp: free_slot_def Let_def)
  moreover have "hs_is_dir x \<Longrightarrow> ag_vfs_readdir s1 h = (Inl AG_EIO, s1)" using sl x m1 assms(4) by (simp add: ag_vfs_readdir_def)
  ultimately show ?thesis
    unfolding ag_vfs_read_def ag_vfs_write_def ag_vfs_seek_def ag_vfs_sync_def ag_vfs_truncate_def by (simp add: r f cl hs)
qed

theorem vfs_eject_poisons_witness: "fst (ag_vfs_read (snd (ag_vfs_eject demo_vfs (Some ''A:''))) 0 10) = Inl AG_EIO"
proof -
  have a: "slot_of demo_vfs 0 = Some 0" by code_simp
  have b: "\<not> hs_is_root (s_handles demo_vfs ! 0)" "hs_is_dir (s_handles demo_vfs ! 0) = False" by code_simp+
  have c: "ag_path_resolve (Some ''A:'') None (Some []) AG_PATH_MAX = (Inr (), Some (mn_point (s_mounts demo_vfs ! hs_mount (s_handles demo_vfs ! 0))))"
    by code_simp
  show ?thesis using vfs_eject_poisons [OF demo_vfs_reach a refl b(1) c surjective_pairing refl] b(2) by simp
qed

text \<open>
  Killing a process closes its files and no one else's. \<open>ag_vfs_close_owned_by\<close> clears exactly the handles that the process opened,
  returns how many they were, leaves every other handle as it is, and gives each object back to its backend once, in the order of the
  handles, unless the backend is gone.
\<close>

theorem vfs_close_owned_exact:
  assumes "vfs_reach s ps" and "ag_vfs_close_owned_by s p = (n, s1)"
  shows "n = length (filter (owned_by p) (s_handles s)) \<and>
    s_handles s1 = map (\<lambda>x. if owned_by p x then zero_slot else x) (s_handles s) \<and>
    v_world s1 = foldl (\<lambda>w x. closing s x w) (v_world s) (filter (\<lambda>x. owned_by p x \<and> \<not> hs_is_root x) (s_handles s))"
proof -
  have len: "length (s_handles s) = AG_VFS_MAX_HANDLES" using vfs_reach_inv [OF assms(1)] by (simp add: mounts_ok_def)
  let ?js = "[0..<AG_VFS_MAX_HANDLES]"
  have e: "n = fst (close_owned_from s p ?js)" "s1 = snd (close_owned_from s p ?js)" using assms(2) by (simp_all add: ag_vfs_close_owned_by_def)
  have all: "map ((!) (s_handles s)) ?js = s_handles s" using len by (metis map_nth)
  have "distinct ?js" "set ?js \<subseteq> {..<length (s_handles s)}" using len by auto
  note sp = close_owned_spec [OF this, of p, unfolded all]
  have "vfs_inv s1" unfolding e using vfs_reach_inv [OF assms(1)] by (auto intro!: close_owned_inv)
  then have "length (s_handles s1) = length (s_handles s)" using len by (simp add: mounts_ok_def)
  moreover have "s_handles s1 ! h = (if owned_by p (s_handles s ! h) then zero_slot else s_handles s ! h)" if "h < AG_VFS_MAX_HANDLES" for h
    using sp that len unfolding e by simp
  ultimately have "s_handles s1 = map (\<lambda>x. if owned_by p x then zero_slot else x) (s_handles s)" using len by (intro nth_equalityI) auto
  moreover have "length (filter (\<lambda>j. owned_by p (s_handles s ! j)) ?js) = length (filter (owned_by p) (s_handles s))"
    using arg_cong [OF all, of "\<lambda>xs. length (filter (owned_by p) xs)"] by (simp add: filter_map o_def)
  ultimately show ?thesis using sp len unfolding e by simp
qed

theorem vfs_close_owned_exact_witness: "fst (ag_vfs_close_owned_by demo_vfs 0) = 1"
proof -
  have "length (filter (owned_by 0) (s_handles demo_vfs)) = 1" by code_simp
  then show ?thesis using vfs_close_owned_exact [OF demo_vfs_reach surjective_pairing, of 0] by simp
qed

text \<open>
  A path goes to the mount whose point is the longest leading part of it, component by component, so that a point
  \<open>/sd\<close> does not catch \<open>/sdcard\<close>, and the backend is handed the rest of the path, starting with a slash. A path that no point leads is on no mount.
\<close>

theorem vfs_longest_mount:
  assumes "vfs_reach s ps" and "\<forall>c \<in> set cs. good_comp c \<and> cstr c"
  shows "case find_mount s (finish_root (render cs)) of
      None \<Rightarrow> \<forall>j < AG_VFS_MAX_MOUNTS. mn_used (s_mounts s ! j) \<longrightarrow> \<not> prefix (point_comps (s_mounts s ! j)) cs
    | Some (i, rel) \<Rightarrow> i < AG_VFS_MAX_MOUNTS \<and> mn_used (s_mounts s ! i) \<and> prefix (point_comps (s_mounts s ! i)) cs \<and>
        rel = finish_root (render (drop (length (point_comps (s_mounts s ! i))) cs)) \<and>
        (\<forall>j < AG_VFS_MAX_MOUNTS. mn_used (s_mounts s ! j) \<longrightarrow> prefix (point_comps (s_mounts s ! j)) cs \<longrightarrow>
           j = i \<or> length (point_comps (s_mounts s ! j)) < length (point_comps (s_mounts s ! i)))"
  using longest_mount vfs_reach_inv [OF assms(1)] assms(2) by blast

theorem vfs_longest_mount_witness:
  "find_mount demo_vfs ''/sd/a'' = Some (0, ''/a'') \<and> \<not> prefix (point_comps (s_mounts demo_vfs ! 0)) [''sdcard'', ''a'']"
proof -
  have f: "find_mount demo_vfs ''/sd/a'' = Some (0, ''/a'')" "find_mount demo_vfs ''/sdcard/a'' = None" "mn_used (s_mounts demo_vfs ! 0)"
    by code_simp+
  have g: "\<forall>c \<in> set [''sdcard'', ''a'']. good_comp c \<and> cstr c" by code_simp
  have "finish_root (render [''sdcard'', ''a'']) = ''/sdcard/a''" by code_simp
  then show ?thesis using vfs_longest_mount [OF demo_vfs_reach g] f by (auto simp: AG_VFS_MAX_MOUNTS_def)
qed

end
