(* ===== verification/VfsCache.thy ===== *)
theory VfsCache
  imports VfsInv
begin

text \<open>
  The memory of names that were not there (\<open>miss_known\<close>, \<open>miss_remember\<close> and their callers in \<open>fs/vfs.c\<close>). What a backend has to
  promise for that memory to be honest is a locale; in it, a VFS that remembers gives every answer that a VFS would give that asks its
  backends each time, for every sequence of calls. The promise that no mount point lies below another is needed, and so is that
  nothing comes between the steps of an open: what happens otherwise is shown on examples.
\<close>

section \<open>Folded paths\<close>

abbreviation canon :: "string list \<Rightarrow> string" where
  "canon cs \<equiv> finish_root (render cs)"

abbreviation folded :: "string list \<Rightarrow> string list" where
  "folded \<equiv> map (map fold_char)"

lemma fold_char_nat: "(of_char (fold_char c) :: nat) = (if char_in CHR ''A'' CHR ''Z'' c then of_char c + 32 else of_char c)"
  by (auto simp: fold_char_def char_in_def)

lemma fold_char_sep: "is_sep (fold_char c) = is_sep c" and fold_char_slash: "(fold_char c = CHR ''/'') = (c = CHR ''/'')"
proof -
  have "fold_char c = d \<longleftrightarrow> c = d" if "\<not> char_in CHR ''A'' CHR ''Z'' d" "\<not> char_in CHR ''a'' CHR ''z'' d" for d
  proof (cases "char_in CHR ''A'' CHR ''Z'' c")
    case True
    then have "char_in CHR ''a'' CHR ''z'' (fold_char c)" using fold_char_nat [of c] by (simp add: char_in_def)
    then show ?thesis using True that by auto
  qed (simp add: fold_char_def)
  from this [of "CHR ''/''"] this [of "CHR 0x5C"] show "is_sep (fold_char c) = is_sep c" "(fold_char c = CHR ''/'') = (c = CHR ''/'')"
    by (simp_all add: is_sep_def char_in_def)
qed

lemma render_fold: "map fold_char (render cs) = render (folded cs)"
  by (induction cs) (simp_all add: fold_char_def char_in_def)

lemma canon_fold: "map fold_char (canon cs) = canon (folded cs)"
proof -
  have "render (folded cs) = [] \<longleftrightarrow> render cs = []" by (cases cs) simp_all
  then show ?thesis by (simp add: finish_root_def render_fold fold_char_def char_in_def)
qed

definition plain :: "string list \<Rightarrow> bool" where
  "plain cs \<longleftrightarrow> (\<forall>c \<in> set cs. c \<noteq> [] \<and> (\<forall>x \<in> set c. \<not> is_sep x))"

lemma plain_folded: "plain cs \<Longrightarrow> plain (folded cs)"
  by (auto simp: plain_def fold_char_sep)

lemma good_plain: "\<forall>c \<in> set cs. good_comp c \<Longrightarrow> plain cs"
  by (auto simp: plain_def good_comp_def)

lemma plain_append [simp]: "plain (a @ b) \<longleftrightarrow> plain a \<and> plain b"
  by (auto simp: plain_def)

lemma canon_comps:
  assumes "plain cs"
  shows "path_comps (canon cs) = cs"
proof (cases "cs = []")
  case True
  then show ?thesis by (simp add: finish_root_def)
next
  case False
  then have "canon cs = render cs" by (simp add: finish_root_render)
  moreover have "path_comps (render cs) = cs" by (rule path_comps_render) (use assms in \<open>simp add: plain_def\<close>)
  ultimately show ?thesis by simp
qed

lemma canon_inj: "plain cs \<Longrightarrow> plain ds \<Longrightarrow> canon cs = canon ds \<Longrightarrow> cs = ds"
  by (metis canon_comps)

lemma render_split:
  assumes "plain cs" and "plain ds" and "render cs = render ds @ t" and "t = [] \<or> hd t = CHR ''/''"
  shows "\<exists>es. cs = ds @ es \<and> t = render es"
  using assms
proof (induction ds arbitrary: cs)
  case (Cons d ds)
  then obtain c es where cs: "cs = c # es" by (cases cs) auto
  have g: "CHR ''/'' \<notin> set c" "CHR ''/'' \<notin> set d" using Cons.prems cs by (auto simp: plain_def dest: sep_slash)
  have e: "c @ render es = d @ (render ds @ t)" using Cons.prems(3) cs by simp
  have "render ds @ t = [] \<or> hd (render ds @ t) = CHR ''/''" using render_hd [of ds] Cons.prems(4) by (cases "render ds") auto
  from no_slash_split [OF e g render_hd this] have "c = d" "render es = render ds @ t" by auto
  with Cons.IH [of es] Cons.prems cs show ?case by (auto simp: plain_def)
qed simp

section \<open>What the memory holds\<close>

text \<open>An entry speaks of its own path, in any case of letters, and, for a directory, of everything below.\<close>

definition neg_text :: "ag_neg \<Rightarrow> string" where
  "neg_text e = map fold_char (take (ng_len e) (ng_path e))"

definition neg_covers :: "ag_neg \<Rightarrow> string \<Rightarrow> bool" where
  "neg_covers e c \<longleftrightarrow> ng_hash e \<noteq> 0 \<and>
     (neg_text e = map fold_char c \<or>
      ng_subtree e \<and> (\<exists>n < length c. 0 < n \<and> c ! n = CHR ''/'' \<and> neg_text e = map fold_char (take n c)))"

definition neg_ok :: "ag_neg list \<Rightarrow> nat \<Rightarrow> bool" where
  "neg_ok ng k \<longleftrightarrow> length ng = AG_VFS_NEG_ENTRIES \<and> (\<forall>e \<in> set ng. length (ng_path e) = AG_VFS_NEG_PATH \<and> ng_len e < AG_VFS_NEG_PATH) \<and>
     k = length (filter (\<lambda>e. ng_hash e \<noteq> 0) ng)"

lemma neg_slot_less: "neg_slot h < AG_VFS_NEG_ENTRIES"
  by (simp add: neg_slot_def AG_VFS_NEG_ENTRIES_def unat_mod)

lemma hash_done_pos: "hash_done h \<noteq> 0"
  by (simp add: hash_done_def)

lemma neg_same_text: "neg_same e path n \<Longrightarrow> ng_len e = n \<Longrightarrow> n \<le> length (ng_path e) \<Longrightarrow> n \<le> length path \<Longrightarrow> neg_text e = map fold_char (take n path)"
  by (auto simp: neg_same_def neg_text_def list_all_iff intro!: nth_equalityI)

lemma probe_covers:
  assumes "neg_ok (s_neg s) (s_neg_count s)" and "neg_probe s (hash_done h) path n d" and "n \<le> length path"
  shows "\<exists>e \<in> set (s_neg s). ng_hash e \<noteq> 0 \<and> (d \<longrightarrow> ng_subtree e) \<and> neg_text e = map fold_char (take n path)"
proof -
  let ?e = "s_neg s ! neg_slot (hash_done h)"
  have mem: "?e \<in> set (s_neg s)" using assms(1) neg_slot_less by (simp add: neg_ok_def)
  then have len: "length (ng_path ?e) = AG_VFS_NEG_PATH" "ng_len ?e < AG_VFS_NEG_PATH" using assms(1) by (simp_all add: neg_ok_def)
  have p: "ng_hash ?e = hash_done h" "ng_len ?e = n" "d \<longrightarrow> ng_subtree ?e" "neg_same ?e path n"
    using assms(2) by (auto simp: neg_probe_def Let_def split: if_splits)
  have "neg_text ?e = map fold_char (take n path)" using neg_same_text [OF p(4,2)] len assms(3) p(2) by simp
  then show ?thesis using mem p hash_done_pos [of h] by (intro bexI [of _ ?e]) auto
qed

lemma miss_from_covers:
  assumes ok: "neg_ok (s_neg s) (s_neg_count s)"
  shows "miss_from s c i h \<Longrightarrow> \<exists>e \<in> set (s_neg s). neg_covers e c"
proof (induction "length c - i" arbitrary: i h)
  case 0
  then have "neg_probe s (hash_done h) c (length c) False" by (subst (asm) miss_from.simps) simp
  from probe_covers [OF ok this] show ?case by (auto simp: neg_covers_def)
next
  case (Suc d)
  then have lt: "i < length c" by simp
  show ?case
  proof (cases "c ! i = CHR ''/'' \<and> i > 0 \<and> neg_probe s (hash_done h) c i True")
    case True
    then have "neg_probe s (hash_done h) c i True" by simp
    from probe_covers [OF ok this] lt True show ?thesis by (auto simp: neg_covers_def)
  next
    case False
    then have "miss_from s c (i + 1) (hash_step h (c ! i))" using Suc.prems lt unfolding miss_from.simps [of s c i h] by (auto split: if_splits)
    then show ?thesis using Suc.hyps(1) [of "i + 1"] Suc.hyps(2) by simp
  qed
qed

lemma neg_ok_empty: "neg_ok (replicate AG_VFS_NEG_ENTRIES zero_neg) 0"
  by (simp add: neg_ok_def zero_neg_def AG_VFS_NEG_PATH_def)

lemma length_filter_update:
  "i < length xs \<Longrightarrow> length (filter P (xs[i := x])) + of_bool (P (xs ! i)) = length (filter P xs) + of_bool (P x)"
proof (induction xs arbitrary: i)
  case (Cons y xs)
  then show ?case by (cases i) auto
qed simp

text \<open>What \<open>miss_remember\<close> does to the table.\<close>

lemma remember_entry:
  assumes ok: "neg_ok (s_neg s) (s_neg_count s)" and n: "n \<le> length path" and s': "s' = miss_remember s path n b"
  shows "neg_ok (s_neg s') (s_neg_count s')"
    and "\<forall>e \<in> set (s_neg s'). e \<in> set (s_neg s) \<or> neg_text e = map fold_char (take n path) \<and> ng_subtree e = b"
proof -
  have "neg_ok (s_neg s') (s_neg_count s') \<and> (\<forall>e \<in> set (s_neg s'). e \<in> set (s_neg s) \<or> neg_text e = map fold_char (take n path) \<and> ng_subtree e = b)"
  proof (cases "n = 0 \<or> n \<ge> AG_VFS_NEG_PATH")
    case True
    then show ?thesis using ok by (simp add: s' miss_remember_def)
  next
    case False
    define h where "h = hash_done (foldl hash_step FNV_BASIS (take n path))"
    let ?i = "neg_slot h" let ?e = "s_neg s ! ?i"
    define e' where "e' = \<lparr>ng_hash = h, ng_len = n, ng_subtree = b, ng_path = take n path @ drop n (ng_path ?e)\<rparr>"
    have i: "?i < length (s_neg s)" using ok neg_slot_less by (simp add: neg_ok_def)
    then have pe: "length (ng_path ?e) = AG_VFS_NEG_PATH" using ok by (simp add: neg_ok_def)
    have s1: "s_neg s' = (s_neg s)[?i := e']" "s_neg_count s' = (if ng_hash ?e = 0 then s_neg_count s + 1 else s_neg_count s)"
      using False by (simp_all add: s' miss_remember_def Let_def h_def e'_def)
    have h0: "ng_hash e' \<noteq> 0" by (simp add: e'_def h_def hash_done_pos)
    have le: "length (ng_path e') = AG_VFS_NEG_PATH" "ng_len e' < AG_VFS_NEG_PATH" using False n pe by (simp_all add: e'_def)
    have tx: "neg_text e' = map fold_char (take n path)" "ng_subtree e' = b" using n by (simp_all add: e'_def neg_text_def)
    have mem: "e \<in> set (s_neg s') \<Longrightarrow> e = e' \<or> e \<in> set (s_neg s)" for e using set_update_subset_insert [of "s_neg s" ?i e'] by (auto simp: s1)
    have "length (filter (\<lambda>e. ng_hash e \<noteq> 0) (s_neg s')) = s_neg_count s'"
      using length_filter_update [OF i, of "\<lambda>e. ng_hash e \<noteq> 0" e'] h0 ok by (auto simp: s1 neg_ok_def)
    then show ?thesis using ok le mem tx by (auto simp: neg_ok_def s1)
  qed
  then show "neg_ok (s_neg s') (s_neg_count s')"
    "\<forall>e \<in> set (s_neg s'). e \<in> set (s_neg s) \<or> neg_text e = map fold_char (take n path) \<and> ng_subtree e = b" by blast+
qed

lemma forget_empty:
  assumes "neg_ok (s_neg s) (s_neg_count s)"
  shows "neg_ok (s_neg (forget_misses_locked s)) (s_neg_count (forget_misses_locked s))" and "\<forall>e \<in> set (s_neg (forget_misses_locked s)). ng_hash e = 0"
  using assms neg_ok_empty by (auto simp: forget_misses_locked_def zero_neg_def neg_ok_def filter_empty_conv)

text \<open>In terms of components: an entry with the text of \<open>ds\<close> speaks of \<open>cs\<close> only when \<open>cs\<close> is \<open>ds\<close>, or below it.\<close>

lemma covers_comps:
  assumes "neg_covers e (canon cs)" and "neg_text e = map fold_char (canon ds)" and "plain cs" "plain ds" and "ds \<noteq> [] \<or> \<not> ng_subtree e"
  shows "folded cs = folded ds \<or> ng_subtree e \<and> (\<exists>es. cs = take (length ds) cs @ es \<and> es \<noteq> [] \<and> folded (take (length ds) cs) = folded ds)"
proof (cases "neg_text e = map fold_char (canon cs)")
  case True
  then have "canon (folded cs) = canon (folded ds)" using assms(2) by (simp add: canon_fold)
  then show ?thesis using canon_inj plain_folded assms(3,4) by blast
next
  case False
  then obtain n where n: "n < length (canon cs)" "0 < n" "canon cs ! n = CHR ''/''" "neg_text e = map fold_char (take n (canon cs))" "ng_subtree e"
    using assms(1) by (auto simp: neg_covers_def)
  then have cs: "cs \<noteq> []" "canon cs = render cs" by (auto simp: finish_root_def split: if_splits)
  have ds: "ds \<noteq> []" using assms(5) n(5) by blast
  then have "canon ds = render ds" by (cases ds) (simp_all add: finish_root_def)
  then have tk: "map fold_char (take n (render cs)) = render (folded ds)" using n(4) assms(2) cs by (simp add: render_fold)
  have "render (folded cs) = map fold_char (take n (render cs)) @ map fold_char (drop n (render cs))"
    unfolding render_fold [symmetric] by (simp flip: map_append)
  then have "render (folded cs) = render (folded ds) @ map fold_char (drop n (render cs))" using tk by simp
  moreover have "hd (map fold_char (drop n (render cs))) = CHR ''/''"
    using n cs by (simp add: hd_map hd_drop_conv_nth fold_char_def char_in_def)
  ultimately obtain es where es: "folded cs = folded ds @ es" "map fold_char (drop n (render cs)) = render es"
    using render_split [of "folded cs" "folded ds"] plain_folded assms(3,4) by blast
  then have "es \<noteq> []" using n cs by auto
  then have lt: "length ds < length cs" using arg_cong [OF es(1), of length] by (cases es) simp_all
  have "folded (take (length ds) cs) = take (length ds) (folded cs)" by (simp add: take_map)
  then have "folded (take (length ds) cs) = folded ds" using es(1) by simp
  then show ?thesis using lt n(5) by (intro disjI2 conjI exI [of _ "drop (length ds) cs"]) auto
qed

section \<open>The parent of a path\<close>

lemma to_slash_skip: "1 \<le> k \<Longrightarrow> k \<le> n \<Longrightarrow> \<forall>i. k \<le> i \<and> i < n \<longrightarrow> path ! i \<noteq> CHR ''/'' \<Longrightarrow> to_slash path n = to_slash path k"
proof (induction n)
  case (Suc n)
  then show ?case by (cases "k = Suc n") (auto simp del: to_slash.simps simp add: to_slash.simps(2) [of path n])
qed simp

lemma parent_len_render:
  assumes "plain (ds @ [c])"
  shows "parent_len (render (ds @ [c])) (length (render (ds @ [c]))) = (if ds = [] then 1 else length (render ds))"
proof -
  let ?p = "render ds" let ?path = "render (ds @ [c])"
  have path: "?path = ?p @ CHR ''/'' # c" by (simp add: render_def)
  have "CHR ''/'' \<notin> set c" using assms by (auto simp: plain_def dest: sep_slash)
  then have "?path ! i \<noteq> CHR ''/''" if "length ?p + 1 \<le> i" "i < length ?path" for i
    using that by (simp add: path nth_append nth_Cons' split: if_splits) (metis Suc_le_eq add.commute diff_diff_left less_diff_conv2 nth_mem plus_1_eq_Suc Suc_leD not_less_eq_eq add_Suc_right)
  then have "to_slash ?path (length ?path) = to_slash ?path (length ?p + 1)" by (intro to_slash_skip) (auto simp: path)
  also have "\<dots> = length ?p + 1" by (simp add: path nth_append)
  finally have l: "to_slash ?path (length ?path) = length ?p + 1" .
  have "length ?p = 0 \<longleftrightarrow> ds = []" by (cases ds) simp_all
  then show ?thesis unfolding parent_len_def Let_def l by auto
qed

lemma parent_len_canon:
  assumes "plain cs"
  shows "parent_len (canon cs) (length (canon cs)) = (if length cs \<le> 1 then 1 else length (render (butlast cs)))"
proof (cases cs rule: rev_cases)
  case Nil
  then show ?thesis by (simp add: finish_root_def parent_len_def)
next
  case (snoc ds c)
  then have "canon cs = render cs" by (cases ds) (simp_all add: finish_root_def)
  then show ?thesis using parent_len_render [of ds c] assms snoc by (cases ds) auto
qed

lemma take_render_butlast: "cs \<noteq> [] \<Longrightarrow> take (length (render (butlast cs))) (render cs) = render (butlast cs)"
  by (cases cs rule: rev_cases) (simp_all add: render_def)

lemma render_len2: "plain cs \<Longrightarrow> cs \<noteq> [] \<Longrightarrow> 1 < length (render cs)"
  by (cases cs) (auto simp: plain_def)

section \<open>Flat mount tables\<close>

text \<open>No mount point leads another, even when the case of letters is ignored.\<close>

definition flat_mounts :: "'w ag_mount list \<Rightarrow> bool" where
  "flat_mounts ms \<longleftrightarrow> (\<forall>i < length ms. \<forall>j < length ms. mn_used (ms ! i) \<longrightarrow> mn_used (ms ! j) \<longrightarrow> i \<noteq> j \<longrightarrow>
     \<not> prefix (folded (point_comps (ms ! i))) (folded (point_comps (ms ! j))))"

definition proper :: "string list \<Rightarrow> bool" where
  "proper cs \<longleftrightarrow> (\<forall>c \<in> set cs. good_comp c \<and> cstr c)"

lemma proper_plain: "proper cs \<Longrightarrow> plain cs"
  by (auto simp: proper_def intro: good_plain)

lemma prefix_folded: "prefix a b \<Longrightarrow> prefix (folded a) (folded b)"
  by (rule map_mono_prefix)

text \<open>Whatever mount a path is on, it is the one with a point that leads the path, if the table is flat.\<close>

lemma lookup_flat:
  assumes inv: "vfs_inv s" and fl: "flat_mounts (s_mounts s)" and cs: "proper cs"
    and i: "i < AG_VFS_MAX_MOUNTS" "mn_used (s_mounts s ! i)" "prefix (folded (point_comps (s_mounts s ! i))) (folded cs)"
    and f: "find_mount s (canon cs) = Some (j, rel)"
  shows "j = i" and "rel = canon (drop (length (point_comps (s_mounts s ! i))) cs)" and "prefix (point_comps (s_mounts s ! i)) cs"
proof -
  have j: "j < AG_VFS_MAX_MOUNTS" "mn_used (s_mounts s ! j)" "prefix (point_comps (s_mounts s ! j)) cs"
    "rel = canon (drop (length (point_comps (s_mounts s ! j))) cs)"
    using longest_mount [OF inv cs [unfolded proper_def]] f by auto
  have len: "length (s_mounts s) = AG_VFS_MAX_MOUNTS" using inv by (simp add: mounts_ok_def)
  have "prefix (folded (point_comps (s_mounts s ! i))) (folded (point_comps (s_mounts s ! j))) \<or>
      prefix (folded (point_comps (s_mounts s ! j))) (folded (point_comps (s_mounts s ! i)))"
    using prefix_same_cases [OF i(3) prefix_folded [OF j(3)]] .
  then have "\<not> i \<noteq> j" using fl len i j unfolding flat_mounts_def by metis
  then show "j = i" "rel = canon (drop (length (point_comps (s_mounts s ! i))) cs)" "prefix (point_comps (s_mounts s ! i)) cs" using j by auto
qed

lemma find_mount_comps:
  assumes "vfs_inv s" and "proper cs" and "find_mount s (canon cs) = Some (i, rel)"
  shows "i < AG_VFS_MAX_MOUNTS" "mn_used (s_mounts s ! i)" "cs = point_comps (s_mounts s ! i) @ drop (length (point_comps (s_mounts s ! i))) cs"
    "rel = canon (drop (length (point_comps (s_mounts s ! i))) cs)"
  using longest_mount [OF assms(1) assms(2) [unfolded proper_def]] assms(3) by (auto simp: prefix_def)

lemma find_mount_cong: "s_mounts s' = s_mounts s \<Longrightarrow> find_mount s' = find_mount s"
  by (simp add: find_mount_def fun_eq_iff)

lemma miss_world: "v_world (miss_remember s p n b) = v_world s"
  by (simp add: miss_remember_def Let_def)

lemma resolve_null: "ag_path_resolve None cwd b n = ag_path_resolve (Some []) cwd b n"
  by (simp only: ag_path_resolve_def option.case)

lemma resolve_proper:
  assumes "ag_path_resolve p cwd (Some []) AG_PATH_MAX = (Inr (), Some out)"
    and "case p of None \<Rightarrow> True | Some q \<Rightarrow> cstr q" and "case cwd of None \<Rightarrow> True | Some d \<Rightarrow> cstr d"
  obtains cs where "proper cs" and "out = canon cs"
proof -
  have "ag_path_resolve (Some (case p of None \<Rightarrow> [] | Some q \<Rightarrow> q)) cwd (Some []) AG_PATH_MAX = (Inr (), Some out)"
    using assms(1) resolve_null by (cases p) simp_all
  moreover have "cstr (case p of None \<Rightarrow> [] | Some q \<Rightarrow> q)" using assms(2) by (cases p) (simp_all add: cstr_def)
  ultimately obtain cs where "\<forall>c \<in> set cs. good_comp c \<and> cstr c" "out = (if cs = [] then ''/'' else render cs)"
    using resolve_success assms(3) by blast
  then show thesis using that by (simp add: proper_def finish_root_render)
qed

section \<open>What a backend promises\<close>

text \<open>\<open>quiet_ops Q fs\<close>: whatever the table does other than opening and looking up takes the world along \<open>Q\<close>; changes of the
  names count only when they are refused.\<close>

definition quiet_ops :: "('w \<Rightarrow> 'w \<Rightarrow> bool) \<Rightarrow> 'w ag_fs_ops \<Rightarrow> bool" where
  "quiet_ops Q fs \<longleftrightarrow>
     (case fs_close fs of None \<Rightarrow> True | Some f \<Rightarrow> \<forall>ctx obj w. Q w (snd (f ctx obj w))) \<and>
     (case fs_read fs of None \<Rightarrow> True | Some f \<Rightarrow> \<forall>ctx obj n w. Q w (snd (f ctx obj n w))) \<and>
     (case fs_write fs of None \<Rightarrow> True | Some f \<Rightarrow> \<forall>ctx obj b w. Q w (snd (f ctx obj b w))) \<and>
     (case fs_seek fs of None \<Rightarrow> True | Some f \<Rightarrow> \<forall>ctx obj off wh w. Q w (snd (f ctx obj off wh w))) \<and>
     (case fs_sync fs of None \<Rightarrow> True | Some f \<Rightarrow> \<forall>ctx obj w. Q w (snd (f ctx obj w))) \<and>
     (case fs_truncate fs of None \<Rightarrow> True | Some f \<Rightarrow> \<forall>ctx obj k w. Q w (snd (f ctx obj k w))) \<and>
     (case fs_opendir fs of None \<Rightarrow> True | Some f \<Rightarrow> \<forall>ctx rel w. Q w (snd (f ctx rel w))) \<and>
     (case fs_readdir fs of None \<Rightarrow> True | Some f \<Rightarrow> \<forall>ctx obj w. Q w (snd (f ctx obj w))) \<and>
     (case fs_closedir fs of None \<Rightarrow> True | Some f \<Rightarrow> \<forall>ctx obj w. Q w (snd (f ctx obj w))) \<and>
     (case fs_info fs of None \<Rightarrow> True | Some f \<Rightarrow> \<forall>ctx i w. Q w (snd (f ctx i w))) \<and>
     (case fs_canonicalize fs of None \<Rightarrow> True | Some f \<Rightarrow> \<forall>ctx rel m w. Q w (snd (f ctx rel m w))) \<and>
     (case fs_unlink fs of None \<Rightarrow> True | Some f \<Rightarrow> \<forall>ctx rel w e w'. f ctx rel w = (Inl e, w') \<longrightarrow> Q w w') \<and>
     (case fs_mkdir fs of None \<Rightarrow> True | Some f \<Rightarrow> \<forall>ctx rel w e w'. f ctx rel w = (Inl e, w') \<longrightarrow> Q w w') \<and>
     (case fs_rmdir fs of None \<Rightarrow> True | Some f \<Rightarrow> \<forall>ctx rel w e w'. f ctx rel w = (Inl e, w') \<longrightarrow> Q w w') \<and>
     (case fs_rename fs of None \<Rightarrow> True | Some f \<Rightarrow> \<forall>ctx a b w e w'. f ctx a b w = (Inl e, w') \<longrightarrow> Q w w')"

text \<open>One rule for each operation.\<close>

lemma quiet_close: "quiet_ops Q fs \<Longrightarrow> fs_close fs = Some f \<Longrightarrow> Q w (snd (f ctx obj w))"
  by (simp add: quiet_ops_def)

lemma quiet_read: "quiet_ops Q fs \<Longrightarrow> fs_read fs = Some f \<Longrightarrow> Q w (snd (f ctx obj n w))"
  by (simp add: quiet_ops_def)

lemma quiet_write: "quiet_ops Q fs \<Longrightarrow> fs_write fs = Some f \<Longrightarrow> Q w (snd (f ctx obj b w))"
  by (simp add: quiet_ops_def)

lemma quiet_seek: "quiet_ops Q fs \<Longrightarrow> fs_seek fs = Some f \<Longrightarrow> Q w (snd (f ctx obj off wh w))"
  by (simp add: quiet_ops_def)

lemma quiet_sync: "quiet_ops Q fs \<Longrightarrow> fs_sync fs = Some f \<Longrightarrow> Q w (snd (f ctx obj w))"
  by (simp add: quiet_ops_def)

lemma quiet_truncate: "quiet_ops Q fs \<Longrightarrow> fs_truncate fs = Some f \<Longrightarrow> Q w (snd (f ctx obj k w))"
  by (simp add: quiet_ops_def)

lemma quiet_opendir: "quiet_ops Q fs \<Longrightarrow> fs_opendir fs = Some f \<Longrightarrow> Q w (snd (f ctx rel w))"
  by (simp add: quiet_ops_def)

lemma quiet_readdir: "quiet_ops Q fs \<Longrightarrow> fs_readdir fs = Some f \<Longrightarrow> Q w (snd (f ctx obj w))"
  by (simp add: quiet_ops_def)

lemma quiet_closedir: "quiet_ops Q fs \<Longrightarrow> fs_closedir fs = Some f \<Longrightarrow> Q w (snd (f ctx obj w))"
  by (simp add: quiet_ops_def)

lemma quiet_info: "quiet_ops Q fs \<Longrightarrow> fs_info fs = Some f \<Longrightarrow> Q w (snd (f ctx i w))"
  by (simp add: quiet_ops_def)

lemma quiet_canonicalize: "quiet_ops Q fs \<Longrightarrow> fs_canonicalize fs = Some f \<Longrightarrow> Q w (snd (f ctx rel m w))"
  by (simp add: quiet_ops_def)

lemma quiet_unlink: "quiet_ops Q fs \<Longrightarrow> fs_unlink fs = Some f \<Longrightarrow> f ctx rel w = (Inl e, w') \<Longrightarrow> Q w w'"
  by (simp add: quiet_ops_def)

lemma quiet_mkdir: "quiet_ops Q fs \<Longrightarrow> fs_mkdir fs = Some f \<Longrightarrow> f ctx rel w = (Inl e, w') \<Longrightarrow> Q w w'"
  by (simp add: quiet_ops_def)

lemma quiet_rmdir: "quiet_ops Q fs \<Longrightarrow> fs_rmdir fs = Some f \<Longrightarrow> f ctx rel w = (Inl e, w') \<Longrightarrow> Q w w'"
  by (simp add: quiet_ops_def)

lemma quiet_rename: "quiet_ops Q fs \<Longrightarrow> fs_rename fs = Some f \<Longrightarrow> f ctx a b w = (Inl e, w') \<Longrightarrow> Q w w'"
  by (simp add: quiet_ops_def)

lemmas quiet_rules = quiet_close quiet_read quiet_write quiet_seek quiet_sync quiet_truncate quiet_opendir quiet_readdir quiet_closedir quiet_info quiet_canonicalize

text \<open>A name that is absent stays absent.\<close>

definition still_absent :: "'w ag_fs_ops set \<Rightarrow> ('w ag_fs_ops \<Rightarrow> ptr \<Rightarrow> 'w \<Rightarrow> string \<Rightarrow> bool) \<Rightarrow> 'w \<Rightarrow> 'w \<Rightarrow> bool" where
  "still_absent tables absent w w' \<longleftrightarrow> (\<forall>fs \<in> tables. \<forall>ctx rel. absent fs ctx w rel \<longrightarrow> absent fs ctx w' rel)"

locale honest_backends =
  fixes tables :: "'w ag_fs_ops set"
    and absent :: "'w ag_fs_ops \<Rightarrow> ptr \<Rightarrow> 'w \<Rightarrow> string \<Rightarrow> bool"
  assumes absent_fold: "map fold_char rel = map fold_char rel' \<Longrightarrow> absent fs ctx w rel = absent fs ctx w rel'"
    and absent_below: "a \<noteq> [] \<Longrightarrow> absent fs ctx w (render a) \<Longrightarrow> absent fs ctx w (render (a @ b))"
    and open_read: "fs \<in> tables \<Longrightarrow> fs_open fs = Some f \<Longrightarrow> \<not> is_write_flag flags \<Longrightarrow>
          (fst (f ctx rel flags w) = Inl AG_ENOENT) = absent fs ctx w rel"
    and open_refused_same: "fs \<in> tables \<Longrightarrow> fs_open fs = Some f \<Longrightarrow> \<not> is_write_flag flags \<Longrightarrow> absent fs ctx w rel \<Longrightarrow> snd (f ctx rel flags w) = w"
    and open_quiet: "fs \<in> tables \<Longrightarrow> fs_open fs = Some f \<Longrightarrow> \<not> flagged flags AG_O_CREATE \<or> (\<exists>e. fst (f ctx rel flags w) = Inl e) \<Longrightarrow>
          still_absent tables absent w (snd (f ctx rel flags w))"
    and stat_absent: "fs \<in> tables \<Longrightarrow> fs_stat fs = Some g \<Longrightarrow> (fst (g ctx rel w) = Inl AG_ENOENT) = absent fs ctx w rel"
    and stat_keeps: "fs \<in> tables \<Longrightarrow> fs_stat fs = Some g \<Longrightarrow> snd (g ctx rel w) = w"
    and others_quiet: "fs \<in> tables \<Longrightarrow> quiet_ops (still_absent tables absent) fs"
begin

text \<open>The memory is honest: every path it speaks of, on whichever mount it is, is absent there.\<close>

definition honest :: "'w vfs \<Rightarrow> bool" where
  "honest s \<longleftrightarrow> (\<forall>e \<in> set (s_neg s). \<forall>cs i rel. proper cs \<longrightarrow> neg_covers e (canon cs) \<longrightarrow> find_mount s (canon cs) = Some (i, rel) \<longrightarrow>
     mn_ejected (s_mounts s ! i) \<or> absent (the (mn_ops (s_mounts s ! i))) (mn_ctx (s_mounts s ! i)) (v_world s) rel)"

definition known :: "'w ag_mount list \<Rightarrow> bool" where
  "known ms \<longleftrightarrow> (\<forall>m \<in> set ms. mn_used m \<longrightarrow> \<not> mn_ejected m \<longrightarrow> mn_ops m \<in> Some ` tables)"

definition ready :: "'w vfs \<Rightarrow> bool" where
  "ready s \<longleftrightarrow> vfs_inv s \<and> neg_ok (s_neg s) (s_neg_count s) \<and> known (s_mounts s) \<and> flat_mounts (s_mounts s) \<and> honest s"

abbreviation quiet :: "'w \<Rightarrow> 'w \<Rightarrow> bool" where
  "quiet \<equiv> still_absent tables absent"

lemma quiet_refl [simp]: "quiet w w"
  by (simp add: still_absent_def)

lemma quiet_trans: "quiet w w' \<Longrightarrow> quiet w' w'' \<Longrightarrow> quiet w w''"
  by (simp add: still_absent_def)

text \<open>Mounts that go, or only change their count.\<close>

definition fewer :: "'w ag_mount list \<Rightarrow> 'w ag_mount list \<Rightarrow> bool" where
  "fewer ms ms' \<longleftrightarrow> length ms' = length ms \<and> (\<forall>i < length ms. mn_used (ms' ! i) \<longrightarrow> mn_used (ms ! i) \<and> mn_point (ms' ! i) = mn_point (ms ! i) \<and>
     mn_ops (ms' ! i) = mn_ops (ms ! i) \<and> mn_ctx (ms' ! i) = mn_ctx (ms ! i) \<and> mn_ejected (ms' ! i) = mn_ejected (ms ! i))"

lemma fewer_refl [simp]: "fewer ms ms"
  by (simp add: fewer_def)

lemma fewer_trans: "fewer a b \<Longrightarrow> fewer b c \<Longrightarrow> fewer a c"
  by (simp add: fewer_def)

lemma fewer_update: "(mn_used m \<Longrightarrow> mn_used (ms ! i) \<and> mn_point m = mn_point (ms ! i) \<and> mn_ops m = mn_ops (ms ! i) \<and>
    mn_ctx m = mn_ctx (ms ! i) \<and> mn_ejected m = mn_ejected (ms ! i)) \<Longrightarrow> fewer ms (ms[i := m])"
  unfolding fewer_def by (metis length_list_update nth_list_update_eq nth_list_update_neq)

lemma fewer_flat: "fewer ms ms' \<Longrightarrow> flat_mounts ms \<Longrightarrow> flat_mounts ms'"
  by (auto simp: fewer_def flat_mounts_def point_comps_def)

lemma fewer_known: "fewer ms ms' \<Longrightarrow> known ms \<Longrightarrow> known ms'"
  by (auto simp: fewer_def known_def all_set_conv_all_nth)

lemma known_opsD: "known (s_mounts s) \<Longrightarrow> vfs_inv s \<Longrightarrow> i < AG_VFS_MAX_MOUNTS \<Longrightarrow> mn_used (s_mounts s ! i) \<Longrightarrow> \<not> mn_ejected (s_mounts s ! i) \<Longrightarrow>
    \<exists>fs \<in> tables. mn_ops (s_mounts s ! i) = Some fs"
  by (auto simp: known_def mounts_ok_def all_set_conv_all_nth)

lemma fewer_lookup:
  assumes inv: "vfs_inv s" "vfs_inv s'" and fl: "flat_mounts (s_mounts s)" and fw: "fewer (s_mounts s) (s_mounts s')" and cs: "proper cs"
    and f: "find_mount s' (canon cs) = Some (i, rel)"
  shows "find_mount s (canon cs) = Some (i, rel)"
proof -
  have len: "length (s_mounts s) = AG_VFS_MAX_MOUNTS" using inv(1) by (simp add: mounts_ok_def)
  note c = find_mount_comps [OF inv(2) cs f]
  have p: "mn_used (s_mounts s ! i)" "point_comps (s_mounts s' ! i) = point_comps (s_mounts s ! i)"
    using fw c(1,2) len by (auto simp: fewer_def point_comps_def)
  have pre: "prefix (point_comps (s_mounts s ! i)) cs" using c(3) p(2) by (metis prefixI)
  have "find_mount s (canon cs) \<noteq> None"
    using longest_mount [OF inv(1) cs [unfolded proper_def]] c(1) p(1) pre by (auto split: option.splits)
  then obtain j rel' where g: "find_mount s (canon cs) = Some (j, rel')" by auto
  from lookup_flat [OF inv(1) fl cs c(1) p(1) prefix_folded [OF pre] g] have "j = i" "rel' = rel" using c(4) p(2) by simp_all
  then show ?thesis using g by simp
qed

lemma ready_calm:
  assumes r: "ready s" and inv: "vfs_inv s'" and fw: "fewer (s_mounts s) (s_mounts s')" and ng: "neg_ok (s_neg s') (s_neg_count s')"
    and sub: "\<forall>e \<in> set (s_neg s'). ng_hash e \<noteq> 0 \<longrightarrow> e \<in> set (s_neg s)" and q: "quiet (v_world s) (v_world s')"
  shows "ready s'"
proof -
  have r': "vfs_inv s" "known (s_mounts s)" "flat_mounts (s_mounts s)" "honest s" using r by (simp_all add: ready_def)
  have "honest s'" unfolding honest_def
  proof (intro ballI allI impI)
    fix e cs i rel
    assume e: "e \<in> set (s_neg s')" and cs: "proper cs" and cov: "neg_covers e (canon cs)" and f: "find_mount s' (canon cs) = Some (i, rel)"
    have e': "e \<in> set (s_neg s)" using sub e cov by (auto simp: neg_covers_def)
    have g: "find_mount s (canon cs) = Some (i, rel)" by (rule fewer_lookup [OF r'(1) inv r'(3) fw cs f])
    note c = find_mount_comps [OF inv cs f] and d = find_mount_comps [OF r'(1) cs g]
    have same: "mn_ops (s_mounts s' ! i) = mn_ops (s_mounts s ! i)" "mn_ctx (s_mounts s' ! i) = mn_ctx (s_mounts s ! i)"
      "mn_ejected (s_mounts s' ! i) = mn_ejected (s_mounts s ! i)" using fw c(1,2) r'(1) by (auto simp: fewer_def mounts_ok_def)
    show "mn_ejected (s_mounts s' ! i) \<or> absent (the (mn_ops (s_mounts s' ! i))) (mn_ctx (s_mounts s' ! i)) (v_world s') rel"
    proof (cases "mn_ejected (s_mounts s ! i)")
      case False
      then obtain fs where fs: "fs \<in> tables" "mn_ops (s_mounts s ! i) = Some fs" using known_opsD [OF r'(2,1) d(1,2)] by blast
      have "absent fs (mn_ctx (s_mounts s ! i)) (v_world s) rel" using r'(4) e' cs cov g False fs(2) unfolding honest_def by fastforce
      then show ?thesis using q fs by (auto simp: still_absent_def same)
    qed (simp add: same)
  qed
  then show ?thesis using r' inv ng fewer_flat [OF fw] fewer_known [OF fw] by (simp add: ready_def)
qed

lemma ready_cleared:
  assumes "vfs_inv s" and "known (s_mounts s)" and "flat_mounts (s_mounts s)" and "neg_ok (s_neg s) (s_neg_count s)" and "\<forall>e \<in> set (s_neg s). ng_hash e = 0"
  shows "ready s"
  using assms by (auto simp: ready_def honest_def neg_covers_def)

text \<open>A path that the backend just found absent, and a directory that it found absent.\<close>

lemma remember_ready:
  assumes r: "ready s" and cs: "proper cs" and f: "find_mount s (canon cs) = Some (i, rel)" and ne: "\<not> mn_ejected (s_mounts s ! i)"
    and ab: "absent (the (mn_ops (s_mounts s ! i))) (mn_ctx (s_mounts s ! i)) (v_world s) rel"
  shows "ready (miss_remember s (canon cs) (length (canon cs)) False)"
proof -
  let ?s = "miss_remember s (canon cs) (length (canon cs)) False"
  have r': "vfs_inv s" "neg_ok (s_neg s) (s_neg_count s)" "known (s_mounts s)" "flat_mounts (s_mounts s)" "honest s" using r by (simp_all add: ready_def)
  have ent: "neg_ok (s_neg ?s) (s_neg_count ?s)" "\<forall>e \<in> set (s_neg ?s). e \<in> set (s_neg s) \<or> neg_text e = map fold_char (canon cs) \<and> ng_subtree e = False"
    using remember_entry [OF r'(2) order_refl refl, of "canon cs" False] by simp_all
  have same: "find_mount ?s = find_mount s" "v_world ?s = v_world s" by (rule find_mount_cong, simp, rule miss_world)
  note c = find_mount_comps [OF r'(1) cs f]
  have "honest ?s" unfolding honest_def
  proof (intro ballI allI impI)
    fix e ds j rel'
    assume e: "e \<in> set (s_neg ?s)" and ds: "proper ds" and cov: "neg_covers e (canon ds)" and g: "find_mount ?s (canon ds) = Some (j, rel')"
    have g': "find_mount s (canon ds) = Some (j, rel')" using g by (simp add: same)
    show "mn_ejected (s_mounts ?s ! j) \<or> absent (the (mn_ops (s_mounts ?s ! j))) (mn_ctx (s_mounts ?s ! j)) (v_world ?s) rel'"
    proof (cases "e \<in> set (s_neg s)")
      case True
      then show ?thesis using r'(5) ds cov g' unfolding honest_def same(2) miss_same by blast
    next
      case False
      then have t: "neg_text e = map fold_char (canon cs)" "\<not> ng_subtree e" using ent(2) e by auto
      from covers_comps [OF cov t(1) proper_plain [OF ds] proper_plain [OF cs]] t(2) have fd: "folded ds = folded cs" by blast
      let ?q = "point_comps (s_mounts s ! i)"
      have "prefix (folded ?q) (folded ds)" unfolding fd by (rule prefix_folded) (metis c(3) prefixI)
      from lookup_flat [OF r'(1,4) ds c(1,2) this g'] have j: "j = i" "rel' = canon (drop (length ?q) ds)" by simp_all
      have "folded (drop (length ?q) ds) = folded (drop (length ?q) cs)" using fd by (simp add: drop_map [symmetric])
      then have "map fold_char rel' = map fold_char rel" using c(4) j(2) by (simp add: canon_fold)
      from ab [folded absent_fold [OF this]] show ?thesis by (simp add: j(1) same)
    qed
  qed
  then show ?thesis using r' ent by (simp add: ready_def)
qed

lemma remember_dir_ready:
  assumes r: "ready s" and cs: "proper cs" and f: "find_mount s (canon cs) = Some (i, rel)" and ne: "\<not> mn_ejected (s_mounts s ! i)"
    and es: "es = drop (length (point_comps (s_mounts s ! i))) cs" "1 < length es"
    and ab: "absent (the (mn_ops (s_mounts s ! i))) (mn_ctx (s_mounts s ! i)) (v_world s) (render (butlast es))"
  shows "ready (miss_remember s (canon cs) (parent_len (canon cs) (length (canon cs))) True)"
proof -
  let ?n = "parent_len (canon cs) (length (canon cs))" let ?s = "miss_remember s (canon cs) ?n True"
  let ?q = "point_comps (s_mounts s ! i)" let ?k = "length ?q"
  have r': "vfs_inv s" "neg_ok (s_neg s) (s_neg_count s)" "known (s_mounts s)" "flat_mounts (s_mounts s)" "honest s" using r by (simp_all add: ready_def)
  note c = find_mount_comps [OF r'(1) cs f]
  define ps where "ps = butlast cs"
  have cse: "cs = ?q @ es" using c(3) es(1) by simp
  then have pe: "ps = ?q @ butlast es" using es(2) by (auto simp: ps_def butlast_append)
  have bn: "butlast es \<noteq> []" using es(2) by (cases es rule: rev_cases) auto
  have pn: "ps \<noteq> []" "1 < length cs" using pe bn es(2) cse by auto
  have pl: "plain ps" using proper_plain [OF cs] by (auto simp: ps_def plain_def dest: in_set_butlastD)
  have n: "?n = length (render ps)" using parent_len_canon [OF proper_plain [OF cs]] pn by (simp add: ps_def)
  have rc: "canon cs = render cs" "canon ps = render ps" using pn by (auto simp: finish_root_render)
  have tk: "take ?n (canon cs) = canon ps" unfolding n unfolding rc unfolding ps_def by (rule take_render_butlast) (use pn in auto)
  have nl: "?n \<le> length (canon cs)" unfolding n unfolding rc ps_def by (cases cs rule: rev_cases) (simp_all add: render_def)
  note ent = remember_entry [OF r'(2) nl refl, of True, unfolded tk]
  have same: "find_mount ?s = find_mount s" "v_world ?s = v_world s" by (rule find_mount_cong, simp, rule miss_world)
  have "honest ?s" unfolding honest_def
  proof (intro ballI allI impI)
    fix e ds j rel'
    assume e: "e \<in> set (s_neg ?s)" and ds: "proper ds" and cov: "neg_covers e (canon ds)" and g: "find_mount ?s (canon ds) = Some (j, rel')"
    have g': "find_mount s (canon ds) = Some (j, rel')" using g by (simp add: same)
    show "mn_ejected (s_mounts ?s ! j) \<or> absent (the (mn_ops (s_mounts ?s ! j))) (mn_ctx (s_mounts ?s ! j)) (v_world ?s) rel'"
    proof (cases "e \<in> set (s_neg s)")
      case True
      then show ?thesis using r'(5) ds cov g' unfolding honest_def same(2) miss_same by blast
    next
      case False
      then have t: "neg_text e = map fold_char (canon ps)" using ent(2) e by blast
      have fd: "folded (take (length ps) ds) = folded ps"
        using covers_comps [OF cov t proper_plain [OF ds] pl] pn(1) by (metis length_map order_refl take_all)
      define a where "a = drop ?k (take (length ps) ds)"
      define b where "b = drop (length ps) ds"
      have "folded ps = take (length ps) (folded ds)" using fd by (simp add: take_map)
      then have "prefix (folded ps) (folded ds)" by (metis take_is_prefix)
      then have "prefix (folded ?q) (folded ds)" using prefix_folded [of ?q ps] pe by (metis prefixI prefix_order.trans)
      from lookup_flat [OF r'(1,4) ds c(1,2) this g'] have j: "j = i" "rel' = canon (drop ?k ds)" by simp_all
      have fa: "folded a = folded (butlast es)" using arg_cong [OF fd, of "drop ?k"] pe by (simp add: a_def drop_map)
      then have an: "a \<noteq> []" using bn by (metis length_0_conv length_map)
      have lp: "length (take (length ps) ds) = length ps" using arg_cong [OF fd, of length] by simp
      have "drop ?k (take (length ps) ds @ drop (length ps) ds) = a @ b" unfolding drop_append lp a_def b_def using pe by simp
      then have "drop ?k ds = a @ b" unfolding append_take_drop_id .
      then have rel': "rel' = render (a @ b)" using j(2) an unfolding finish_root_render by simp
      have "map fold_char (render a) = map fold_char (render (butlast es))" using fa by (simp add: render_fold)
      from absent_below [OF an ab [folded absent_fold [OF this]]] show ?thesis by (simp add: j(1) same rel')
    qed
  qed
  then show ?thesis using r' ent by (simp add: ready_def)
qed

lemma remember_absent_ready:
  assumes r: "ready s" and cs: "proper cs" and f: "find_mount s (canon cs) = Some (i, rel)" and ne: "\<not> mn_ejected (s_mounts s ! i)"
    and ops: "mn_ops (s_mounts s ! i) = Some fs" and ab: "absent fs (mn_ctx (s_mounts s ! i)) (v_world s) rel"
  shows "ready (remember_absent s (mn_ctx (s_mounts s ! i)) fs (canon cs) rel)" and "v_world (remember_absent s (mn_ctx (s_mounts s ! i)) fs (canon cs) rel) = v_world s"
proof -
  have r': "vfs_inv s" "known (s_mounts s)" using r by (simp_all add: ready_def)
  note c = find_mount_comps [OF r'(1) cs f]
  define es where "es = drop (length (point_comps (s_mounts s ! i))) cs"
  have fs: "fs \<in> tables" using known_opsD [OF r'(2,1) c(1,2) ne] ops by auto
  have rel: "rel = canon es" using c(4) by (simp add: es_def)
  have pl: "plain es" using proper_plain [OF cs] by (auto simp: es_def plain_def dest: in_set_dropD)
  note whole = remember_ready [OF r cs f ne] and dir = remember_dir_ready [OF r cs f ne es_def]
  let ?n = "parent_len rel (length rel)"
  have n: "?n = (if length es \<le> 1 then 1 else length (render (butlast es)))" unfolding rel by (rule parent_len_canon [OF pl])
  show "ready (remember_absent s (mn_ctx (s_mounts s ! i)) fs (canon cs) rel)"
  proof (cases "?n > 1 \<and> (\<exists>g. fs_stat fs = Some g)")
    case False
    then have "(if ?n > 1 then fs_stat fs else None) = None" by auto
    then show ?thesis using whole ops ab by (simp add: remember_absent_def)
  next
    case True
    then obtain g where g: "fs_stat fs = Some g" by blast
    have le: "1 < length es" using True n by (auto split: if_splits)
    have tk: "take ?n rel = render (butlast es)" using n le take_render_butlast [of es] by (auto simp: rel finish_root_render)
    obtain st w where call: "g (mn_ctx (s_mounts s ! i)) (take ?n rel) (v_world s) = (st, w)" by fastforce
    have w: "w = v_world s" using stat_keeps [OF fs g, of "mn_ctx (s_mounts s ! i)" "take ?n rel" "v_world s"] call by simp
    have st: "st = Inl AG_ENOENT \<longleftrightarrow> absent fs (mn_ctx (s_mounts s ! i)) (v_world s) (render (butlast es))"
      using stat_absent [OF fs g, of "mn_ctx (s_mounts s ! i)" "take ?n rel" "v_world s"] call tk by simp
    have e: "remember_absent s (mn_ctx (s_mounts s ! i)) fs (canon cs) rel =
        (if st = Inl AG_ENOENT then miss_remember s (canon cs) (parent_len (canon cs) (length (canon cs))) True
         else miss_remember s (canon cs) (length (canon cs)) False)"
      using True g call w by (simp add: remember_absent_def Let_def)
    show ?thesis unfolding e using whole dir le st ops ab by simp
  qed
  have ss: "snd (g ctx q (v_world s)) = v_world s" if "fs_stat fs = Some g" for g ctx q by (rule stat_keeps [OF fs that])
  show "v_world (remember_absent s (mn_ctx (s_mounts s ! i)) fs (canon cs) rel) = v_world s"
    by (auto simp: remember_absent_def Let_def miss_world split: option.split prod.split dest: ss) (metis snd_conv ss)+
qed

text \<open>Steps that leave the memory alone.\<close>

definition calm :: "'w vfs \<Rightarrow> 'w vfs \<Rightarrow> bool" where
  "calm s s' \<longleftrightarrow> fewer (s_mounts s) (s_mounts s') \<and> s_neg s' = s_neg s \<and> s_neg_count s' = s_neg_count s \<and> quiet (v_world s) (v_world s')"

lemma calm_refl [simp]: "calm s s"
  by (simp add: calm_def)

lemma calm_trans: "calm s s' \<Longrightarrow> calm s' s'' \<Longrightarrow> calm s s''"
  unfolding calm_def using fewer_trans quiet_trans by metis

lemma ready_if_calm: "ready s \<Longrightarrow> vfs_inv s' \<Longrightarrow> calm s s' \<Longrightarrow> ready s'"
  by (rule ready_calm) (auto simp: calm_def ready_def)

lemma calm_world: "quiet (v_world s) w \<Longrightarrow> calm s (s\<lparr>v_world := w\<rparr>)"
  by (simp add: calm_def)

lemma calm_free: "calm s (free_slot s h)"
  by (auto simp: calm_def free_slot_def Let_def set_handle_def set_mount_def intro!: fewer_update)

lemma calm_attach: "calm s (set_mount (set_handle s h x) i ((s_mounts s ! i)\<lparr>mn_open_handles := n\<rparr>))"
  by (auto simp: calm_def set_handle_def set_mount_def intro!: fewer_update)

lemma calm_handle: "calm s (set_handle s h x)"
  by (simp add: calm_def set_handle_def)

text \<open>The table behind a mount that is there.\<close>

lemma quiet_table:
  assumes "ready s" and "i < AG_VFS_MAX_MOUNTS" and "mn_used (s_mounts s ! i)" and "\<not> mn_ejected (s_mounts s ! i)"
  obtains fs where "mn_ops (s_mounts s ! i) = Some fs" and "fs \<in> tables" and "quiet_ops quiet fs"
  using known_opsD [of s i] others_quiet assms unfolding ready_def by blast

lemma calm_backend_close:
  assumes r: "ready s" and h: "h < AG_VFS_MAX_HANDLES" "hs_used (s_handles s ! h)" "\<not> hs_is_root (s_handles s ! h)"
  shows "calm s (snd (backend_close s (s_handles s ! h)))"
proof (cases "mn_ejected (s_mounts s ! hs_mount (s_handles s ! h))")
  case True
  then show ?thesis by (simp add: backend_close_def)
next
  case False
  have "hs_mount (s_handles s ! h) < AG_VFS_MAX_MOUNTS" "mn_used (s_mounts s ! hs_mount (s_handles s ! h))"
    using handle_mount [of s h] r h by (auto simp: ready_def)
  from quiet_table [OF r this False] obtain fs where "mn_ops (s_mounts s ! hs_mount (s_handles s ! h)) = Some fs" "quiet_ops quiet fs" by blast
  then show ?thesis using False
    by (auto simp: backend_close_def Let_def split_beta intro!: calm_world intro: quiet_rules split: option.split)
qed

lemma calm_close: "ready s \<Longrightarrow> calm s (snd (ag_vfs_close s h))"
proof (cases "slot_of s h")
  case (Some i)
  assume r: "ready s"
  note i = slot_of_SomeD [OF Some]
  show ?thesis
  proof (cases "hs_is_dir (s_handles s ! i)")
    case False
    have "hslot_ok (s_handles s ! i)" using r i by (auto simp: ready_def mounts_ok_def)
    then have "\<not> hs_is_root (s_handles s ! i)" using i False by (auto simp: hslot_ok_def)
    then show ?thesis using Some False calm_trans [OF calm_backend_close [OF r] calm_free] i by (simp add: ag_vfs_close_def split_beta)
  qed (simp add: ag_vfs_close_def Some)
qed (simp add: ag_vfs_close_def)

lemma calm_closedir: "ready s \<Longrightarrow> calm s (snd (ag_vfs_closedir s h))"
proof (cases "slot_of s h")
  case (Some i)
  assume r: "ready s"
  note i = slot_of_SomeD [OF Some]
  show ?thesis using Some calm_trans [OF calm_backend_close [OF r] calm_free] calm_free i
    by (simp add: ag_vfs_closedir_def Let_def split_beta)
qed (simp add: ag_vfs_closedir_def)

lemma close_owned_ready: "ready s \<Longrightarrow> set js \<subseteq> {..<AG_VFS_MAX_HANDLES} \<Longrightarrow> ready (snd (close_owned_from s p js))"
proof (induction js arbitrary: s)
  case (Cons j js)
  let ?s1 = "if hs_is_root (s_handles s ! j) then s else snd (backend_close s (s_handles s ! j))"
  have "ready (free_slot ?s1 j)" if u: "hs_used (s_handles s ! j)"
  proof (rule ready_if_calm [OF Cons.prems(1)])
    show "vfs_inv (free_slot ?s1 j)" using Cons.prems u by (intro free_inv) (auto simp: ready_def)
    show "calm s (free_slot ?s1 j)" using Cons.prems u calm_backend_close by (intro calm_trans [OF _ calm_free]) auto
  qed
  then show ?case using Cons by (auto simp: Let_def split_beta)
qed simp

lemma calm_on_file:
  assumes r: "ready s" and sel: "\<And>fs f ctx obj w. fs \<in> tables \<Longrightarrow> quiet_ops quiet fs \<Longrightarrow> sel fs = Some f \<Longrightarrow> quiet w (snd (f ctx obj w))"
  shows "calm s (snd (on_file s h wr sel))"
proof (cases "handle_ref s h False")
  case (Inr p)
  obtain i fs where p: "p = (i, fs)" by (cases p)
  have i: "i < AG_VFS_MAX_HANDLES" "hs_used (s_handles s ! i)" "\<not> hs_is_root (s_handles s ! i)" "mn_ops (s_mounts s ! hs_mount (s_handles s ! i)) = Some fs"
    "\<not> mn_ejected (s_mounts s ! hs_mount (s_handles s ! i))"
    using Inr p slot_of_SomeD [of s h] by (auto simp: handle_ref_def Let_def split: option.splits if_splits)
  have m: "hs_mount (s_handles s ! i) < AG_VFS_MAX_MOUNTS" "mn_used (s_mounts s ! hs_mount (s_handles s ! i))"
    using handle_mount [of s i] r i by (auto simp: ready_def)
  from quiet_table [OF r m i(5)] i(4) have "fs \<in> tables" "quiet_ops quiet fs" by auto
  then show ?thesis using Inr p sel by (auto simp: on_file_def Let_def split_beta intro!: calm_world split: option.split)
qed (simp add: on_file_def)

lemma calm_read: "ready s \<Longrightarrow> calm s (snd (ag_vfs_read s h n))"
  unfolding ag_vfs_read_def by (rule calm_on_file) (auto intro: quiet_read)

lemma calm_write: "ready s \<Longrightarrow> calm s (snd (ag_vfs_write s h b))"
  unfolding ag_vfs_write_def by (rule calm_on_file) (auto intro: quiet_write)

lemma calm_seek: "ready s \<Longrightarrow> calm s (snd (ag_vfs_seek s h off wh))"
  unfolding ag_vfs_seek_def by (rule calm_on_file) (auto intro: quiet_seek)

lemma calm_truncate: "ready s \<Longrightarrow> calm s (snd (ag_vfs_truncate s h k))"
  unfolding ag_vfs_truncate_def by (rule calm_on_file) (auto intro: quiet_truncate)

lemma calm_sync: "ready s \<Longrightarrow> calm s (snd (ag_vfs_sync s h))"
  unfolding ag_vfs_sync_def by (rule calm_on_file) (auto intro: quiet_sync split: option.splits)

end

end
