(* ===== verification/VfsCold.thy ===== *)
theory VfsCold
  imports VfsCache
begin

text \<open>
  Two runs of the same calls: one of the VFS as it is, and one of a VFS that has forgotten every miss before each call and so always asks its
  backends. With backends that keep the promises of \<open>honest_backends\<close>, and mount points none of which leads another, the two cannot be told
  apart. At the end are the examples that show what the promises are needed for.
\<close>

section \<open>Runs\<close>

datatype 'w vfs_op = Do "'w vfs_call" | Open task "string option" "string option" u32

text \<open>The answers that may come from the memory are those of an open and of a stat.\<close>

fun op_exec :: "'w vfs \<Rightarrow> 'w vfs_op \<Rightarrow> (nat ag_err + ag_stat ag_err) option \<times> 'w vfs" where
  "op_exec s (Open t p c f) = (case ag_vfs_open s t p c f of (r, s') \<Rightarrow> (Some (Inl r), s'))"
| "op_exec s (Do (Stat p c)) = (case ag_vfs_stat s p c of (r, s') \<Rightarrow> (Some (Inr r), s'))"
| "op_exec s (Do c) = (None, vfs_exec s c)"

fun op_run :: "'w vfs \<Rightarrow> 'w vfs_op list \<Rightarrow> (nat ag_err + ag_stat ag_err) option list \<times> 'w vfs" where
  "op_run s [] = ([], s)"
| "op_run s (x # xs) = (case op_exec s x of (r, s1) \<Rightarrow> case op_run s1 xs of (rs, s2) \<Rightarrow> (r # rs, s2))"

fun cold_run :: "'w vfs \<Rightarrow> 'w vfs_op list \<Rightarrow> (nat ag_err + ag_stat ag_err) option list \<times> 'w vfs" where
  "cold_run s [] = ([], s)"
| "cold_run s (x # xs) = (case op_exec (ag_vfs_forget_misses s) x of (r, s1) \<Rightarrow> case cold_run s1 xs of (rs, s2) \<Rightarrow> (r # rs, s2))"

text \<open>What is asked of the calls: paths are C strings, a table that is mounted is one of \<open>tables\<close>, and the mount points stay flat.\<close>

definition c_string :: "string option \<Rightarrow> bool" where
  "c_string p \<longleftrightarrow> (case p of None \<Rightarrow> True | Some q \<Rightarrow> cstr q)"

fun op_fine :: "'w ag_fs_ops set \<Rightarrow> 'w vfs \<Rightarrow> 'w vfs_op \<Rightarrow> bool" where
  "op_fine T s (Open t p c f) = (c_string p \<and> c_string c)"
| "op_fine T s (Do (Stat p c)) = (c_string p \<and> c_string c)"
| "op_fine T s (Do (Mount p fs ctx flags)) =
     ((case fs of None \<Rightarrow> True | Some g \<Rightarrow> g \<in> T) \<and> flat_mounts (s_mounts (snd (ag_vfs_mount s p fs ctx flags))))"
| "op_fine T s (Do c) = True"

fun fine_run :: "'w ag_fs_ops set \<Rightarrow> 'w vfs \<Rightarrow> 'w vfs_op list \<Rightarrow> bool" where
  "fine_run T s [] = True"
| "fine_run T s (x # xs) = (op_fine T s x \<and> fine_run T (snd (op_exec s x)) xs)"

text \<open>The same but for the memory.\<close>

definition alike :: "'w vfs \<Rightarrow> 'w vfs \<Rightarrow> bool" where
  "alike s s' \<longleftrightarrow> s_mounts s' = s_mounts s \<and> s_handles s' = s_handles s \<and> v_world s' = v_world s \<and> s_owner_fn s' = s_owner_fn s \<and>
     s_initialised s' = s_initialised s"

section \<open>Everything else does not look at the memory\<close>

lemma alike_refl [simp]: "alike s s"
  by (simp add: alike_def)

lemma alike_trans: "alike s s' \<Longrightarrow> alike s' s'' \<Longrightarrow> alike s s''"
  by (simp add: alike_def)

lemma alike_find: "alike s s' \<Longrightarrow> find_mount s' = find_mount s"
  by (rule find_mount_cong) (simp add: alike_def)

lemma alike_resolve: "alike s s' \<Longrightarrow> resolve s' p c = resolve s p c"
  using alike_find [of s s'] by (auto simp: resolve_def alike_def split: prod.split sum.split option.split)

lemma alike_named: "alike s s' \<Longrightarrow> mount_named s' c = mount_named s c"
  by (simp add: alike_def mount_named_def)

lemma alike_slot: "alike s s' \<Longrightarrow> slot_of s' h = slot_of s h"
  by (simp add: alike_def slot_of_def)

lemma alike_used: "alike s s' \<Longrightarrow> used_mounts s' = used_mounts s"
  by (simp add: alike_def used_mounts_def)

lemma alike_forget: "alike s (forget_misses_locked s)" "alike s (ag_vfs_forget_misses s)"
  by (simp_all add: alike_def ag_vfs_forget_misses_def)

lemma alike_forgets: "alike s s' \<Longrightarrow> alike (forget_misses_locked s) (forget_misses_locked s')"
  by (simp add: alike_def)

lemma set_more [simp]: "s_owner_fn (set_mount s i m) = s_owner_fn s" "s_initialised (set_mount s i m) = s_initialised s"
  "s_owner_fn (set_handle s h x) = s_owner_fn s" "s_initialised (set_handle s h x) = s_initialised s"
  by (simp_all add: set_mount_def set_handle_def)

lemma alike_sets: "alike s s' \<Longrightarrow> alike (set_mount s i m) (set_mount s' i m)" "alike s s' \<Longrightarrow> alike (set_handle s h x) (set_handle s' h x)"
  "alike s s' \<Longrightarrow> alike (s\<lparr>v_world := w\<rparr>) (s'\<lparr>v_world := w\<rparr>)"
  by (simp_all add: alike_def)

lemma alike_fields: "alike s s' \<Longrightarrow> s_mounts s' = s_mounts s" "alike s s' \<Longrightarrow> s_handles s' = s_handles s" "alike s s' \<Longrightarrow> v_world s' = v_world s"
  "alike s s' \<Longrightarrow> s_initialised s' = s_initialised s" "alike s s' \<Longrightarrow> current_owner s' t = current_owner s t"
  by (simp_all add: alike_def current_owner_def)

lemmas alike_rules = alike_resolve alike_named alike_slot alike_used alike_fields alike_sets alike_forgets

lemma alike_free: "alike s s' \<Longrightarrow> alike (free_slot s h) (free_slot s' h)"
  by (simp add: free_slot_def Let_def alike_rules)

lemma alike_backend_close: "alike s s' \<Longrightarrow> alike (snd (backend_close s x)) (snd (backend_close s' x))"
  by (simp add: backend_close_def Let_def alike_rules split: option.split prod.split)

lemma alike_close_owned: "alike s s' \<Longrightarrow> alike (snd (close_owned_from s p js)) (snd (close_owned_from s' p js))"
proof (induction js arbitrary: s s')
  case (Cons j js)
  have "alike (if hs_is_root (s_handles s ! j) then s else snd (backend_close s (s_handles s ! j)))
      (if hs_is_root (s_handles s ! j) then s' else snd (backend_close s' (s_handles s ! j)))"
    using Cons.prems alike_backend_close [OF Cons.prems] by (cases "hs_is_root (s_handles s ! j)") simp_all
  from Cons.IH [OF alike_free [OF this]] show ?case
    using Cons.IH [OF Cons.prems] alike_fields(2) [OF Cons.prems] by (simp add: Let_def split_beta)
qed simp

lemma alike_alloc: "alike s s' \<Longrightarrow> fst (alloc_slot s' t) = fst (alloc_slot s t) \<and> alike (snd (alloc_slot s t)) (snd (alloc_slot s' t))"
  by (simp add: alloc_slot_def alike_rules split: option.split)

lemma alike_back: "alike s s' \<Longrightarrow> alike s (s'\<lparr>v_world := v_world s\<rparr>)"
  and alike_set_owner: "alike s s' \<Longrightarrow> alike (ag_vfs_set_owner_fn s f) (ag_vfs_set_owner_fn s' f)"
  and alike_forget_all: "alike s s' \<Longrightarrow> alike (ag_vfs_forget_misses s) (ag_vfs_forget_misses s')"
  by (simp_all add: alike_def ag_vfs_set_owner_fn_def ag_vfs_forget_misses_def)

text \<open>What two states that are alike agree on, as rewrite rules.\<close>

lemmas alike_eqs = alike_resolve alike_named alike_slot alike_used alike_fields

lemma alike_mount:
  assumes a: "alike s s'"
  shows "alike (snd (ag_vfs_mount s p fs ctx fl)) (snd (ag_vfs_mount s' p fs ctx fl))"
  by (simp add: ag_vfs_mount_def Let_def alike_eqs [OF a] alike_sets alike_forgets alike_back a split_beta split: sum.split option.split prod.split)

lemma alike_unmount:
  assumes a: "alike s s'"
  shows "alike (snd (ag_vfs_unmount s p)) (snd (ag_vfs_unmount s' p))"
  by (simp add: ag_vfs_unmount_def Let_def alike_eqs [OF a] alike_sets alike_forgets alike_back a split_beta split: sum.split option.split prod.split)

lemma alike_eject:
  assumes a: "alike s s'"
  shows "alike (snd (ag_vfs_eject s p)) (snd (ag_vfs_eject s' p))"
  by (simp add: ag_vfs_eject_def Let_def alike_eqs [OF a] alike_sets alike_forgets alike_back a split_beta split: sum.split option.split prod.split)

lemma alike_info:
  assumes a: "alike s s'"
  shows "alike (snd (ag_vfs_mount_info s i)) (snd (ag_vfs_mount_info s' i))"
  by (simp add: ag_vfs_mount_info_def Let_def alike_eqs [OF a] alike_sets alike_forgets alike_back a split_beta split: sum.split option.split prod.split)

lemma alike_close:
  assumes a: "alike s s'"
  shows "alike (snd (ag_vfs_close s h)) (snd (ag_vfs_close s' h))"
  by (simp add: ag_vfs_close_def alike_free alike_backend_close Let_def alike_eqs [OF a] alike_sets alike_forgets alike_back a split_beta split: sum.split option.split prod.split)

lemma alike_closedir:
  assumes a: "alike s s'"
  shows "alike (snd (ag_vfs_closedir s h)) (snd (ag_vfs_closedir s' h))"
  by (simp add: ag_vfs_closedir_def alike_free alike_backend_close Let_def alike_eqs [OF a] alike_sets alike_forgets alike_back a split_beta split: sum.split option.split prod.split)

lemma alike_on_file:
  assumes a: "alike s s'"
  shows "alike (snd (on_file s h wr sel)) (snd (on_file s' h wr sel))"
  by (auto simp: on_file_def handle_ref_def Let_def alike_eqs [OF a] alike_sets alike_forgets alike_back a split_beta split: sum.split option.split prod.split)

lemma alike_realpath:
  assumes a: "alike s s'"
  shows "alike (snd (ag_vfs_realpath s p c n)) (snd (ag_vfs_realpath s' p c n))"
  by (simp add: ag_vfs_realpath_def Let_def alike_eqs [OF a] alike_sets alike_forgets alike_back a split_beta split: sum.split option.split prod.split)

lemma alike_mutate:
  assumes a: "alike s s'"
  shows "alike (snd (mutate s p c k)) (snd (mutate s' p c k))"
  by (simp add: mutate_def Let_def alike_eqs [OF a] alike_sets alike_forgets alike_back a split_beta split: sum.split option.split prod.split)

lemma alike_rename:
  assumes a: "alike s s'"
  shows "alike (snd (ag_vfs_rename s p q c)) (snd (ag_vfs_rename s' p q c))"
  by (simp add: ag_vfs_rename_def Let_def alike_eqs [OF a] alike_sets alike_forgets alike_back a split_beta split: sum.split option.split prod.split)

lemma alike_readdir:
  assumes a: "alike s s'"
  shows "alike (snd (ag_vfs_readdir s h)) (snd (ag_vfs_readdir s' h))"
  by (simp add: ag_vfs_readdir_def Let_def alike_eqs [OF a] alike_sets alike_forgets alike_back a split_beta split: sum.split option.split prod.split)

lemma alike_opendir:
  assumes a: "alike s s'"
  shows "alike (snd (ag_vfs_opendir s t p c)) (snd (ag_vfs_opendir s' t p c))"
proof -
  have al: "fst (alloc_slot (s'\<lparr>v_world := w\<rparr>) t) = fst (alloc_slot (s\<lparr>v_world := w\<rparr>) t)"
    "alike (snd (alloc_slot (s\<lparr>v_world := w\<rparr>) t)) (snd (alloc_slot (s'\<lparr>v_world := w\<rparr>) t))" for w
    using alike_alloc [OF alike_sets(3) [OF a]] by simp_all
  have al0: "fst (alloc_slot s' t) = fst (alloc_slot s t)" "alike (snd (alloc_slot s t)) (snd (alloc_slot s' t))"
    using alike_alloc [OF a] by simp_all
  show ?thesis unfolding ag_vfs_opendir_def Let_def split_beta alike_eqs [OF a] al al0
    by (simp add: alike_eqs [OF al(2)] alike_eqs [OF al0(2)] alike_sets al al0 a split: sum.split option.split)
qed

lemma alike_exec:
  assumes a: "alike s s'" and c: "\<forall>p d. c \<noteq> Stat p d"
  shows "alike (vfs_exec s c) (vfs_exec s' c)"
  using c
  by (cases c) (simp_all add: ag_vfs_read_def ag_vfs_write_def ag_vfs_seek_def ag_vfs_sync_def ag_vfs_truncate_def ag_vfs_close_owned_by_def
    alike_mount [OF a] alike_unmount [OF a] alike_eject [OF a] alike_info [OF a] alike_close [OF a] alike_closedir [OF a] alike_set_owner [OF a]
    alike_on_file [OF a] alike_realpath [OF a] alike_mutate [OF a] alike_rename [OF a] alike_readdir [OF a] alike_opendir [OF a]
    alike_close_owned [OF a] alike_forget_all [OF a])

section \<open>The memory cannot be told apart from asking\<close>

context honest_backends
begin

lemma calm_alloc: "calm s (snd (alloc_slot s t))"
  by (simp add: alloc_slot_def calm_handle split: option.split)

lemma quiet_resolved:
  assumes "ready s" and "resolve s p c = (Inr u, r)"
  obtains fs where "mn_ops (s_mounts s ! rv_index r) = Some fs" and "fs \<in> tables" and "quiet_ops quiet fs"
  using resolve_InrD(1-3) [OF assms(2)] quiet_table [OF assms(1)] by metis

lemma calm_opendir:
  assumes r: "ready s"
  shows "calm s (snd (ag_vfs_opendir s t p c))"
proof (cases "resolve s p c")
  case (Pair e q)
  show ?thesis
  proof (cases e)
    case (Inl x)
    have "calm s (set_handle (snd (alloc_slot s t)) h y)" for h y by (rule calm_trans [OF calm_alloc calm_handle])
    then show ?thesis using Pair Inl calm_alloc [of s t] by (simp add: ag_vfs_opendir_def split_beta split: sum.split)
  next
    case (Inr u)
    from quiet_resolved [OF r Pair [unfolded Inr]] obtain fs where fs: "mn_ops (s_mounts s ! rv_index q) = Some fs" "quiet_ops quiet fs" by metis
    show ?thesis
    proof (cases "fs_opendir fs")
      case (Some f)
      obtain d w where fw: "f (mn_ctx (s_mounts s ! rv_index q)) (rv_rel q) (v_world s) = (d, w)" by fastforce
      have w: "calm s (s\<lparr>v_world := w\<rparr>)" using quiet_opendir [OF fs(2) Some, of "v_world s"] fw by (metis calm_world snd_conv)
      obtain a s2 where al: "alloc_slot (s\<lparr>v_world := w\<rparr>) t = (a, s2)" by fastforce
      have s2: "calm s s2" using calm_trans [OF w calm_alloc] al by (metis snd_conv)
      have m: "s_mounts s2 = s_mounts s" using al by (auto simp: alloc_slot_def split: option.splits)
      have cl: "calm s (s2\<lparr>v_world := snd (g ctx o1 (v_world s2))\<rparr>)" if "fs_closedir fs = Some g" for g ctx o1
        by (rule calm_trans [OF s2 calm_world [OF quiet_closedir [OF fs(2) that]]])
      have "calm s (set_mount (set_handle s2 h y) (rv_index q) ((s_mounts s ! rv_index q)\<lparr>mn_open_handles := n\<rparr>))" for h y n
        using calm_trans [OF s2 calm_attach] m by metis
      then show ?thesis using Pair Inr fs Some fw w al s2 cl
        by (auto simp: ag_vfs_opendir_def Let_def split: sum.split option.split)
    qed (use Pair Inr fs in \<open>simp add: ag_vfs_opendir_def Let_def\<close>)
  qed
qed

lemma calm_readdir:
  assumes r: "ready s"
  shows "calm s (snd (ag_vfs_readdir s h))"
proof (cases "slot_of s h")
  case (Some i)
  note i = slot_of_SomeD [OF Some]
  let ?x = "s_handles s ! i" let ?m = "s_mounts s ! hs_mount ?x"
  have "calm s (s\<lparr>v_world := snd (f (mn_ctx ?m) (hs_obj ?x) (v_world s))\<rparr>)"
    if "\<not> hs_is_root ?x" "\<not> mn_ejected ?m" "mn_ops ?m = Some fs" "fs_readdir fs = Some f" for fs f
  proof -
    have "hs_mount ?x < AG_VFS_MAX_MOUNTS" "mn_used ?m" using handle_mount [of s i] r i that(1) by (auto simp: ready_def)
    from quiet_table [OF r this that(2)] that(3) have "quiet_ops quiet fs" by auto
    from quiet_readdir [OF this that(4)] show ?thesis by (rule calm_world)
  qed
  then show ?thesis using Some calm_handle by (auto simp: ag_vfs_readdir_def Let_def split_beta split: option.split)
qed (simp add: ag_vfs_readdir_def)

lemma calm_realpath:
  assumes r: "ready s"
  shows "calm s (snd (ag_vfs_realpath s p c n))"
proof (cases "resolve s p c")
  case (Pair e q)
  show ?thesis
  proof (cases e)
    case (Inr u)
    from quiet_resolved [OF r Pair [unfolded Inr]] obtain fs where fs: "mn_ops (s_mounts s ! rv_index q) = Some fs" "quiet_ops quiet fs" by metis
    have "calm s (s\<lparr>v_world := snd (f ctx rel m (v_world s))\<rparr>)" if "fs_canonicalize fs = Some f" for f ctx rel m
      by (rule calm_world) (rule quiet_canonicalize [OF fs(2) that])
    then show ?thesis using Pair Inr fs calm_world [of s "v_world s"]
      by (simp add: ag_vfs_realpath_def Let_def split_beta split: option.split)
  qed (use Pair in \<open>simp add: ag_vfs_realpath_def\<close>)
qed

lemma calm_info:
  assumes r: "ready s"
  shows "calm s (snd (ag_vfs_mount_info s n))"
proof (cases "n < length (used_mounts s)")
  case True
  let ?i = "used_mounts s ! n" let ?m = "s_mounts s ! ?i"
  have "?i \<in> set (used_mounts s)" using True by simp
  then have i: "?i < AG_VFS_MAX_MOUNTS" "mn_used ?m" by (simp_all add: used_mounts_def)
  have "calm s (s\<lparr>v_world := snd (f ctx inf (v_world s))\<rparr>)" if "\<not> mn_ejected ?m" "mn_ops ?m = Some fs" "fs_info fs = Some f" for fs f ctx inf
  proof -
    from quiet_table [OF r i that(1)] that(2) have "quiet_ops quiet fs" by auto
    from quiet_info [OF this that(3)] show ?thesis by (rule calm_world)
  qed
  then show ?thesis using True calm_world [of s "v_world s"]
    by (auto simp: ag_vfs_mount_info_def Let_def split_beta split: option.split bind_split)
qed (simp add: ag_vfs_mount_info_def)

text \<open>Changes of names: a success empties the memory, a refusal leaves what was absent absent.\<close>

lemma ready_forget:
  assumes inv: "vfs_inv s" and k: "known (s_mounts s)" "flat_mounts (s_mounts s)" and ok: "neg_ok (s_neg s) (s_neg_count s)"
  shows "ready (forget_misses_locked s)"
  using forget_empty [OF ok] assms by (intro ready_cleared) auto

lemma ready_names: "ready s \<Longrightarrow> (res \<noteq> Inr () \<Longrightarrow> quiet (v_world s) w) \<Longrightarrow>
    ready (if res = Inr () then forget_misses_locked (s\<lparr>v_world := w\<rparr>) else s\<lparr>v_world := w\<rparr>)"
  using ready_forget [of "s\<lparr>v_world := w\<rparr>"] ready_if_calm [of s "s\<lparr>v_world := w\<rparr>"] calm_world [of s w] by (auto simp: ready_def)

lemma ready_mutate:
  assumes r: "ready s"
  shows "ready (snd (mutate s p c k))"
proof (cases "resolve s p c")
  case (Pair e q)
  show ?thesis
  proof (cases e)
    case (Inr u)
    from quiet_resolved [OF r Pair [unfolded Inr]] obtain fs where fs: "mn_ops (s_mounts s ! rv_index q) = Some fs" "quiet_ops quiet fs" by metis
    have q: "quiet (v_world s) (snd (f ctx rel (v_world s)))" if "fst (f ctx rel (v_world s)) \<noteq> Inr ()"
      and "(case k of MUTATE_UNLINK \<Rightarrow> fs_unlink fs | MUTATE_MKDIR \<Rightarrow> fs_mkdir fs | MUTATE_RMDIR \<Rightarrow> fs_rmdir fs) = Some f" for f ctx rel
      using that quiet_unlink [OF fs(2)] quiet_mkdir [OF fs(2)] quiet_rmdir [OF fs(2)]
      by (cases "f ctx rel (v_world s)"; cases "fst (f ctx rel (v_world s))") (auto split: mutate_op.splits)
    note n = ready_names [OF r q]
    show ?thesis
    proof (cases "case k of MUTATE_UNLINK \<Rightarrow> fs_unlink fs | MUTATE_MKDIR \<Rightarrow> fs_mkdir fs | MUTATE_RMDIR \<Rightarrow> fs_rmdir fs")
      case (Some f)
      have "ready (let x = f ctx rel (v_world s); s1 = s\<lparr>v_world := snd x\<rparr> in if fst x = Inr () then forget_misses_locked s1 else s1)" for ctx rel
        unfolding Let_def by (rule n [OF _ Some])
      then show ?thesis using Pair Inr fs r Some by (cases k) (simp_all add: mutate_def Let_def split_beta)
    qed (use Pair Inr fs r in \<open>cases k; simp add: mutate_def Let_def\<close>)
  qed (use Pair r in \<open>simp add: mutate_def\<close>)
qed

lemma ready_rename:
  assumes r: "ready s"
  shows "ready (snd (ag_vfs_rename s p p' c))"
proof (cases "resolve s p c")
  case (Pair e q)
  show ?thesis
  proof (cases e)
    case (Inr u)
    from quiet_resolved [OF r Pair [unfolded Inr]] obtain fs where fs: "mn_ops (s_mounts s ! rv_index q) = Some fs" "quiet_ops quiet fs" by metis
    have q: "quiet (v_world s) (snd (f ctx a b (v_world s)))" if "fst (f ctx a b (v_world s)) \<noteq> Inr ()" and "fs_rename fs = Some f" for f ctx a b
      using that quiet_rename [OF fs(2)] by (cases "f ctx a b (v_world s)"; cases "fst (f ctx a b (v_world s))") auto
    note n = ready_names [OF r q]
    show ?thesis
    proof (cases "fs_rename fs")
      case (Some f)
      have "ready (let x = f ctx a b (v_world s); s1 = s\<lparr>v_world := snd x\<rparr> in if fst x = Inr () then forget_misses_locked s1 else s1)" for ctx a b
        unfolding Let_def by (rule n [OF _ Some])
      then show ?thesis using Pair Inr fs r Some by (auto simp: ag_vfs_rename_def Let_def split_beta split: sum.split)
    qed (use Pair Inr fs r in \<open>auto simp: ag_vfs_rename_def Let_def split: sum.split prod.split\<close>)
  qed (use Pair r in \<open>simp add: ag_vfs_rename_def\<close>)
qed

text \<open>Changes of the mount table empty the memory.\<close>

lemma set_mount_neg [simp]: "s_neg (set_mount s i m) = s_neg s" "s_neg_count (set_mount s i m) = s_neg_count s"
  by (simp_all add: set_mount_def)

lemma known_update: "known ms \<Longrightarrow> (mn_used m \<Longrightarrow> \<not> mn_ejected m \<Longrightarrow> mn_ops m \<in> Some ` tables) \<Longrightarrow> known (ms[i := m])"
  using set_update_subset_insert [of ms i m] by (auto simp: known_def)

lemma flat_update:
  assumes "flat_mounts ms" and "mn_used m \<Longrightarrow> mn_used (ms ! i) \<and> mn_point m = mn_point (ms ! i)"
  shows "flat_mounts (ms[i := m])"
  using assms unfolding flat_mounts_def point_comps_def by (metis length_list_update nth_list_update_eq nth_list_update_neq)

lemma ready_mount:
  assumes r: "ready s" and f: "op_fine tables s (Do (Mount p fs ctx fl))"
  shows "ready (snd (ag_vfs_mount s p fs ctx fl))"
proof -
  have r': "vfs_inv s" "neg_ok (s_neg s) (s_neg_count s)" "known (s_mounts s)" using r by (simp_all add: ready_def)
  have inv: "vfs_inv (snd (ag_vfs_mount s p fs ctx fl))" by (rule mount_inv [OF r'(1)])
  define Q where "Q x \<longleftrightarrow> x = s \<or> (\<exists>g i m. fs = Some g \<and> mn_ops m = Some g \<and> \<not> mn_ejected m \<and> x = forget_misses_locked (set_mount s i m))" for x
  have "Q s" and "fs = Some g \<Longrightarrow> Q (forget_misses_locked (set_mount s i \<lparr>mn_point = x, mn_point_len = n, mn_ops = Some g, mn_ctx = ctx, mn_flags = fl,
      mn_open_handles = 0, mn_used = True, mn_ejected = False\<rparr>))" for g i x n by (force simp: Q_def)+
  then have "Q (snd (ag_vfs_mount s p fs ctx fl))"
    by (cases fs) (auto simp: ag_vfs_mount_def Let_def split: sum.split option.split prod.split)
  then consider "snd (ag_vfs_mount s p fs ctx fl) = s" | g i m where "fs = Some g" "mn_ops m = Some g" "\<not> mn_ejected m"
      "snd (ag_vfs_mount s p fs ctx fl) = forget_misses_locked (set_mount s i m)" unfolding Q_def by blast
  then show ?thesis
  proof cases
    case (2 g i m)
    have k: "known (s_mounts (set_mount s i m))" using known_update [OF r'(3), of m i] 2 f by simp
    have "flat_mounts (s_mounts (set_mount s i m))" using f 2(4) by simp
    then show ?thesis unfolding 2(4) using inv k r'(2) by (intro ready_forget) (simp_all add: 2(4))
  qed (use r in simp)
qed

lemma ready_unmount:
  assumes r: "ready s"
  shows "ready (snd (ag_vfs_unmount s p))"
proof -
  have r': "vfs_inv s" "neg_ok (s_neg s) (s_neg_count s)" "known (s_mounts s)" "flat_mounts (s_mounts s)" using r by (simp_all add: ready_def)
  have inv: "vfs_inv (snd (ag_vfs_unmount s p))" by (rule unmount_inv [OF r'(1)])
  have "snd (ag_vfs_unmount s p) = s \<or> (\<exists>i. snd (ag_vfs_unmount s p) = forget_misses_locked (set_mount s i zero_mount))"
    by (auto simp: ag_vfs_unmount_def split: sum.split option.split prod.split)
  then consider "snd (ag_vfs_unmount s p) = s" | i where "snd (ag_vfs_unmount s p) = forget_misses_locked (set_mount s i zero_mount)" by blast
  then show ?thesis
  proof cases
    case (2 i)
    show ?thesis unfolding 2 using inv r'(2) known_update [OF r'(3), of zero_mount] flat_update [OF r'(4), of zero_mount]
      by (intro ready_forget) (simp_all add: 2)
  qed (use r in simp)
qed

lemma ready_eject:
  assumes r: "ready s"
  shows "ready (snd (ag_vfs_eject s p))"
proof -
  have r': "vfs_inv s" "neg_ok (s_neg s) (s_neg_count s)" "known (s_mounts s)" "flat_mounts (s_mounts s)" using r by (simp_all add: ready_def)
  have inv: "vfs_inv (snd (ag_vfs_eject s p))" by (rule eject_inv [OF r'(1)])
  consider "snd (ag_vfs_eject s p) = s" | i m where "snd (ag_vfs_eject s p) = forget_misses_locked (set_mount s i m)"
      "mn_used m \<Longrightarrow> mn_ejected m \<and> mn_used (s_mounts s ! i) \<and> mn_point m = mn_point (s_mounts s ! i)"
  proof (cases "ag_path_resolve p None (Some []) AG_PATH_MAX")
    case (Pair e out)
    show thesis
    proof (cases "Option.bind (case e of Inl x \<Rightarrow> None | Inr u \<Rightarrow> Some ()) (\<lambda>_. mount_named s (the out))")
      case None
      then show thesis using Pair that(1) by (auto simp: ag_vfs_eject_def split: sum.splits)
    next
      case (Some i)
      then have i: "mount_named s (the out) = Some i" "e = Inr ()" by (auto split: sum.splits)
      let ?m = "if mn_open_handles (s_mounts s ! i) = 0 then zero_mount else (s_mounts s ! i)\<lparr>mn_ejected := True, mn_ops := None, mn_ctx := NULL\<rparr>"
      show thesis by (rule that(2) [of i ?m]) (use Pair i named_SomeD [OF i(1)] in \<open>simp_all add: ag_vfs_eject_def Let_def split: if_splits\<close>)
    qed
  qed
  then show ?thesis
  proof cases
    case (2 i m)
    show ?thesis unfolding 2(1) using inv r'(2) known_update [OF r'(3), of m i] flat_update [OF r'(4), of m i] 2(2)
      by (intro ready_forget) (auto simp: 2(1))
  qed (use r in simp)
qed

lemma ready_all_forgotten: "ready s \<Longrightarrow> ready (ag_vfs_forget_misses s)"
  using neg_ok_empty by (intro ready_cleared) (auto simp: ready_def ag_vfs_forget_misses_def zero_neg_def)

lemma calm_owner: "calm s (ag_vfs_set_owner_fn s f)"
  by (simp add: calm_def ag_vfs_set_owner_fn_def)

lemma ready_exec:
  assumes r: "ready s" and f: "op_fine tables s (Do c)" and n: "\<forall>p d. c \<noteq> Stat p d"
  shows "ready (vfs_exec s c)"
proof -
  have calm: "calm s (vfs_exec s c) \<Longrightarrow> ready (vfs_exec s c)"
    using ready_if_calm [OF r exec_inv [of s c]] r by (simp add: ready_def)
  show ?thesis using calm n r f
    by (cases c) (simp_all add: ready_mount ready_unmount ready_eject calm_info calm_close calm_read calm_write calm_seek calm_sync calm_truncate
      calm_realpath ready_mutate ready_rename calm_opendir calm_readdir calm_closedir ag_vfs_close_owned_by_def close_owned_ready lessThan_atLeast0
      ready_all_forgotten calm_owner del: op_fine.simps)
qed

text \<open>A memory with nothing in it.\<close>

definition cold :: "'w vfs \<Rightarrow> bool" where
  "cold s \<longleftrightarrow> neg_ok (s_neg s) (s_neg_count s) \<and> (\<forall>e \<in> set (s_neg s). ng_hash e = 0)"

lemma cold_forgotten: "cold (ag_vfs_forget_misses s)"
  using neg_ok_empty by (simp add: cold_def ag_vfs_forget_misses_def zero_neg_def)

lemma cold_unknown: "cold s \<Longrightarrow> miss_known s c = (False, s)"
  using miss_from_covers [of s c 0 FNV_BASIS] by (auto simp: cold_def miss_known_def neg_covers_def)

lemma known_absent:
  assumes r: "ready s" and rs: "resolve s p c = (Inr u, q)" and cs: "c_string p" "c_string c" and m: "miss_from s (rv_canonical q) 0 FNV_BASIS"
    and ops: "mn_ops (s_mounts s ! rv_index q) = Some fs"
  shows "absent fs (mn_ctx (s_mounts s ! rv_index q)) (v_world s) (rv_rel q)"
proof -
  note f = resolve_InrD [OF rs]
  from resolve_proper [OF f(5)] cs obtain ds where ds: "proper ds" "rv_canonical q = canon ds" unfolding c_string_def by blast
  from miss_from_covers [OF _ m] r obtain e where "e \<in> set (s_neg s)" "neg_covers e (canon ds)" unfolding ready_def ds(2) by blast
  then have "mn_ejected (s_mounts s ! rv_index q) \<or> absent (the (mn_ops (s_mounts s ! rv_index q))) (mn_ctx (s_mounts s ! rv_index q)) (v_world s) (rv_rel q)"
    using r ds f(4) unfolding ready_def honest_def ds(2) by blast
  then show ?thesis using f(3) ops by simp
qed

lemma alike_hit: "alike s (s\<lparr>s_neg_hits := n\<rparr>)" and calm_hit: "calm s (s\<lparr>s_neg_hits := n\<rparr>)"
  by (simp_all add: alike_def calm_def)

lemma ready_hit: "ready s \<Longrightarrow> ready (s\<lparr>s_neg_hits := n\<rparr>)"
  by (rule ready_if_calm [OF _ _ calm_hit]) (simp_all add: ready_def)

lemma alike_miss: "alike s (miss_remember s p n b)"
  by (simp add: alike_def miss_remember_def Let_def)

lemma alike_remember: "fs \<in> tables \<Longrightarrow> alike s (remember_absent s ctx fs c rel)"
proof -
  assume "fs \<in> tables"
  then have "s\<lparr>v_world := snd (g ctx q (v_world s))\<rparr> = s" if "fs_stat fs = Some g" for g q using stat_keeps [OF _ that] by simp
  then show ?thesis by (auto simp: remember_absent_def Let_def split_beta alike_miss split: option.split)
qed

lemma alike_sym: "alike s s' \<Longrightarrow> alike s' s"
  by (simp add: alike_def)

text \<open>A stat that asks the backend.\<close>

lemma stat_asked:
  assumes rs: "resolve s p c = (Inr u, q)" and fs: "mn_ops (s_mounts s ! rv_index q) = Some fs" "fs \<in> tables" and g: "fs_stat fs = Some g"
    and cache: "cache = (\<not> flagged (mn_flags (s_mounts s ! rv_index q)) AG_MOUNT_VOLATILE)"
    and ans: "ans = fst (g (mn_ctx (s_mounts s ! rv_index q)) (rv_rel q) (v_world s))"
    and a: "alike s x" and m: "cache \<Longrightarrow> \<not> miss_from x (rv_canonical q) 0 FNV_BASIS"
  shows "ag_vfs_stat x p c = (ans, if ans = Inl AG_ENOENT \<and> cache then miss_remember x (rv_canonical q) (length (rv_canonical q)) False else x)"
proof -
  have "g (mn_ctx (s_mounts s ! rv_index q)) (rv_rel q) (v_world s) = (ans, v_world s)"
    using stat_keeps [OF fs(2) g] ans by (metis prod.collapse)
  moreover have v: "x\<lparr>v_world := v_world s\<rparr> = x" using alike_fields(3) [OF a] by simp
  ultimately show ?thesis using m rs fs g cache
    by (simp add: ag_vfs_stat_def alike_resolve [OF a] alike_fields(1,3) [OF a] v miss_known_def Let_def)
qed

lemma stat_cold:
  assumes r: "ready s" and a: "alike s s'" and c': "cold s'" and cs: "c_string p" "c_string c"
  shows "fst (ag_vfs_stat s' p c) = fst (ag_vfs_stat s p c) \<and> alike (snd (ag_vfs_stat s p c)) (snd (ag_vfs_stat s' p c)) \<and> ready (snd (ag_vfs_stat s p c))"
proof (cases "resolve s p c")
  case (Pair e q)
  show ?thesis
  proof (cases "e = Inr ()")
    case False
    then obtain x where "e = Inl x" by (cases e) auto
    then show ?thesis using Pair a r by (simp add: ag_vfs_stat_def alike_resolve [OF a])
  next
    case True
    note rs = Pair [unfolded True] and f = resolve_InrD [OF Pair [unfolded True]]
    let ?m = "s_mounts s ! rv_index q" let ?c = "rv_canonical q"
    from quiet_resolved [OF r rs] obtain fs where fs: "mn_ops ?m = Some fs" "fs \<in> tables" by metis
    show ?thesis
    proof (cases "fs_stat fs")
      case None
      then show ?thesis using rs a r fs by (simp add: ag_vfs_stat_def alike_resolve [OF a] alike_fields [OF a])
    next
      case (Some g)
      define ans where "ans = fst (g (mn_ctx ?m) (rv_rel q) (v_world s))"
      define cache where "cache = (\<not> flagged (mn_flags ?m) AG_MOUNT_VOLATILE)"
      define after where "after x = (if ans = Inl AG_ENOENT \<and> cache then miss_remember x ?c (length ?c) False else x)" for x :: "'w vfs"
      have ab: "ans = Inl AG_ENOENT \<longleftrightarrow> absent fs (mn_ctx ?m) (v_world s) (rv_rel q)" unfolding ans_def by (rule stat_absent [OF fs(2) Some])
      note asked = stat_asked [OF rs fs Some cache_def ans_def, folded after_def]
      have "\<not> miss_from s' ?c 0 FNV_BASIS" using cold_unknown [OF c', of ?c] by (auto simp: miss_known_def split: if_splits)
      then have there: "ag_vfs_stat s' p c = (ans, after s')" by (intro asked a)
      have after: "alike s (after x)" if "alike s x" for x using that alike_trans [OF that alike_miss] by (simp add: after_def)
      show ?thesis
      proof (cases "cache \<and> miss_from s ?c 0 FNV_BASIS")
        case True
        then have hit: "ag_vfs_stat s p c = (Inl AG_ENOENT, s\<lparr>s_neg_hits := s_neg_hits s + 1\<rparr>)"
          using rs fs Some by (simp add: ag_vfs_stat_def miss_known_def Let_def cache_def)
        have "ans = Inl AG_ENOENT" using ab known_absent [OF r rs cs _ fs(1)] True by simp
        then show ?thesis using after [OF a] alike_trans [OF alike_sym [OF alike_hit]] ready_hit [OF r] unfolding there hit by simp
      next
        case False
        then have here: "ag_vfs_stat s p c = (ans, after s)" by (intro asked) auto
        from resolve_proper [OF f(5)] cs obtain ds where ds: "proper ds" "?c = canon ds" unfolding c_string_def by blast
        have "ready (after s)" using remember_ready [OF r ds(1) f(4) [unfolded ds(2)] f(3)] ab fs r unfolding after_def ds(2) by auto
        then show ?thesis using after [OF a] after [OF alike_refl] alike_trans [OF alike_sym] unfolding there here by auto
      qed
    qed
  qed
qed

text \<open>An open: what it ends with, and what it answers.\<close>

lemma alike_give_back: "alike s s' \<Longrightarrow> alike (give_back s po obj) (give_back s' po obj)"
  by (simp add: give_back_def alike_def split: option.split)

lemma calm_give_back: "po_ops po \<in> tables \<Longrightarrow> calm s (give_back s po obj)"
  using quiet_close [OF others_quiet [of "po_ops po"]] by (auto simp: give_back_def intro!: calm_world split: option.split)

lemma alike_finish:
  fixes s s' :: "'w vfs"
  assumes a: "alike s s'"
  shows "fst (open_finish s' t po obj) = fst (open_finish s t po obj)" and "alike (snd (open_finish s t po obj)) (snd (open_finish s' t po obj))"
proof -
  define f where "f = (\<lambda>x :: 'w vfs. if flagged (po_flags po) AG_O_CREATE then forget_misses_locked x else x)"
  have a1: "alike (f s) (f s')" using a alike_forgets [OF a] by (simp add: f_def)
  have al: "fst (alloc_slot (f s') t) = fst (alloc_slot (f s) t)" "alike (snd (alloc_slot (f s) t)) (snd (alloc_slot (f s') t))"
    using alike_alloc [OF a1, of t] by simp_all
  have fin: "open_finish x t po obj = (let m = s_mounts (f x) ! po_index po; r = alloc_slot (f x) t in
      if \<not> mn_used m \<or> mn_ejected m then (Inl AG_EIO, give_back (f x) po obj)
      else case fst r of Inl e \<Rightarrow> (Inl e, give_back (snd r) po obj)
        | Inr h \<Rightarrow> (Inr h, set_mount (set_handle (snd r) h ((s_handles (snd r) ! h)\<lparr>hs_mount := po_index po, hs_obj := obj, hs_is_dir := False\<rparr>))
            (po_index po) (m\<lparr>mn_open_handles := mn_open_handles m + 1\<rparr>)))" for x
    by (simp add: open_finish_def f_def Let_def split_beta)
  show "fst (open_finish s' t po obj) = fst (open_finish s t po obj)" "alike (snd (open_finish s t po obj)) (snd (open_finish s' t po obj))"
    unfolding fin Let_def alike_fields(1) [OF a1] al(1) alike_fields(2) [OF al(2)]
    using alike_give_back [OF a1] alike_give_back [OF al(2)] by (auto simp: alike_sets al(2) split: sum.split)
qed

lemma ready_finish:
  assumes r: "ready (if flagged (po_flags po) AG_O_CREATE then forget_misses_locked s else s)" (is "ready ?s1")
    and t: "po_ops po \<in> tables" and i: "po_index po < AG_VFS_MAX_MOUNTS"
  shows "ready (snd (open_finish s t po obj))"
proof (rule ready_if_calm [OF r])
  have "vfs_inv s" using r by (cases "flagged (po_flags po) AG_O_CREATE") (simp_all add: ready_def)
  from finish_inv [OF this i] show "vfs_inv (snd (open_finish s t po obj))" .
  obtain a s2 where al: "alloc_slot ?s1 t = (a, s2)" by fastforce
  have s2: "calm ?s1 s2" using calm_alloc [of ?s1 t] al by simp
  have m: "s_mounts s2 = s_mounts ?s1" using al by (auto simp: alloc_slot_def split: option.splits)
  have "calm ?s1 (set_mount (set_handle s2 h x) (po_index po) ((s_mounts ?s1 ! po_index po)\<lparr>mn_open_handles := n\<rparr>))" for h x n
    using calm_trans [OF s2 calm_attach] m by metis
  then show "calm ?s1 (snd (open_finish s t po obj))"
    unfolding open_finish_def Let_def al using calm_give_back [OF t] calm_trans [OF s2 calm_give_back [OF t]] by (auto split: sum.split)
qed

text \<open>What the open of a path on the mount of table \<open>fs\<close> keeps while the backend works, and what it ends with once the backend has answered.\<close>

definition pend :: "'w vfs \<Rightarrow> resolved \<Rightarrow> 'w ag_fs_ops \<Rightarrow> (ptr \<Rightarrow> string \<Rightarrow> u32 \<Rightarrow> 'w \<Rightarrow> ptr ag_err \<times> 'w) \<Rightarrow> u32 \<Rightarrow> 'w pending_open" where
  "pend s q fs g fl = \<lparr>po_flags = fl, po_index = rv_index q, po_ctx = mn_ctx (s_mounts s ! rv_index q), po_ops = fs, po_open = g, po_rel = rv_rel q,
     po_canonical = rv_canonical q, po_cacheable = (\<not> is_write_flag fl \<and> \<not> flagged (mn_flags (s_mounts s ! rv_index q)) AG_MOUNT_VOLATILE)\<rparr>"

definition answered :: "task \<Rightarrow> 'w pending_open \<Rightarrow> ptr ag_err \<times> 'w \<Rightarrow> 'w vfs \<Rightarrow> nat ag_err \<times> 'w vfs" where
  "answered t po ans x = (let y = x\<lparr>v_world := snd ans\<rparr> in case fst ans of Inl e \<Rightarrow> (Inl e, open_refused y po e) | Inr obj \<Rightarrow> open_finish y t po obj)"

lemma alike_answered:
  assumes a: "alike s s'" and t: "po_ops po \<in> tables"
  shows "fst (answered t po ans s') = fst (answered t po ans s) \<and> alike (snd (answered t po ans s)) (snd (answered t po ans s'))"
proof -
  have a1: "alike (s\<lparr>v_world := snd ans\<rparr>) (s'\<lparr>v_world := snd ans\<rparr>)" by (rule alike_sets(3) [OF a])
  have "alike x (open_refused x po e)" for x e using alike_remember [OF t] by (simp add: open_refused_def)
  then have "alike (open_refused (s\<lparr>v_world := snd ans\<rparr>) po e) (open_refused (s'\<lparr>v_world := snd ans\<rparr>) po e)" for e
    using a1 alike_trans alike_sym by metis
  then show ?thesis using alike_finish [OF a1] by (simp add: answered_def Let_def split: sum.split)
qed

lemma open_asked:
  assumes rs: "resolve s p c = (Inr u, q)" and ops: "mn_ops (s_mounts s ! rv_index q) = Some fs" and g: "fs_open fs = Some g"
    and rw: "\<not> (is_write_flag fl \<and> flagged (mn_flags (s_mounts s ! rv_index q)) AG_MOUNT_READONLY)"
    and a: "alike s x" and m: "po_cacheable (pend s q fs g fl) \<Longrightarrow> \<not> miss_from x (rv_canonical q) 0 FNV_BASIS"
  shows "ag_vfs_open x t p c fl = answered t (pend s q fs g fl) (g (mn_ctx (s_mounts s ! rv_index q)) (rv_rel q) fl (v_world s)) x"
  using m rs ops g rw by (auto simp: ag_vfs_open_def open_begin_def open_call_def alike_resolve [OF a] alike_fields [OF a] miss_known_def
    Let_def split_beta pend_def answered_def split: sum.split)

lemma open_refused_early:
  assumes rs: "resolve s p c = (Inr u, q)" and ops: "mn_ops (s_mounts s ! rv_index q) = Some fs" and a: "alike s x"
    and no: "is_write_flag fl \<and> flagged (mn_flags (s_mounts s ! rv_index q)) AG_MOUNT_READONLY \<or> fs_open fs = None"
  shows "ag_vfs_open x t p c fl =
    (Inl (if is_write_flag fl \<and> flagged (mn_flags (s_mounts s ! rv_index q)) AG_MOUNT_READONLY then AG_EROFS else AG_ENOTSUP), x)"
  using rs ops no by (simp add: ag_vfs_open_def open_begin_def alike_resolve [OF a] alike_fields [OF a] Let_def) (cases "fs_open fs"; auto)

lemma answered_ready:
  assumes r: "ready s" and rs: "resolve s p c = (Inr u, q)" and cs: "c_string p" "c_string c"
    and fs: "mn_ops (s_mounts s ! rv_index q) = Some fs" "fs \<in> tables" and g: "fs_open fs = Some g"
  shows "ready (snd (answered t (pend s q fs g fl) (g (mn_ctx (s_mounts s ! rv_index q)) (rv_rel q) fl (v_world s)) s))"
proof -
  note f = resolve_InrD [OF rs]
  let ?ctx = "mn_ctx (s_mounts s ! rv_index q)" let ?po = "pend s q fs g fl"
  let ?ans = "g ?ctx (rv_rel q) fl (v_world s)" let ?s = "s\<lparr>v_world := snd ?ans\<rparr>"
  have q: "ready ?s" if "\<not> flagged fl AG_O_CREATE \<or> (\<exists>e. fst ?ans = Inl e)"
    using ready_if_calm [OF r _ calm_world [OF open_quiet [OF fs(2) g that]]] r by (simp add: ready_def)
  show ?thesis
  proof (cases "fst ?ans")
    case (Inl e)
    have "ready (open_refused ?s ?po e)"
    proof (cases "e = AG_ENOENT \<and> po_cacheable ?po")
      case True
      then have nw: "\<not> is_write_flag fl" by (simp add: pend_def)
      have ab: "absent fs ?ctx (v_world s) (rv_rel q)" using open_read [OF fs(2) g nw, of ?ctx "rv_rel q" "v_world s"] Inl True by simp
      have same: "?s = s" using open_refused_same [OF fs(2) g nw ab] by simp
      from resolve_proper [OF f(5)] cs obtain ds where ds: "proper ds" "rv_canonical q = canon ds" unfolding c_string_def by blast
      from remember_absent_ready(1) [OF r ds(1) f(4) [unfolded ds(2)] f(3) fs(1) ab] True
      show ?thesis unfolding same by (simp add: open_refused_def pend_def ds(2))
    qed (use q Inl in \<open>auto simp: open_refused_def\<close>)
    then show ?thesis by (simp add: answered_def Inl)
  next
    case (Inr obj)
    have "ready (if flagged fl AG_O_CREATE then forget_misses_locked ?s else ?s)" using q r ready_forget [of ?s] by (auto simp: ready_def)
    then have "ready (snd (open_finish ?s t ?po obj))" using fs(2) f(1) by (intro ready_finish) (simp_all add: pend_def)
    then show ?thesis by (simp add: answered_def Inr)
  qed
qed

lemma open_cold:
  assumes r: "ready s" and a: "alike s s'" and c': "cold s'" and cs: "c_string p" "c_string c"
  shows "fst (ag_vfs_open s' t p c fl) = fst (ag_vfs_open s t p c fl) \<and> alike (snd (ag_vfs_open s t p c fl)) (snd (ag_vfs_open s' t p c fl)) \<and>
    ready (snd (ag_vfs_open s t p c fl))"
proof (cases "resolve s p c")
  case (Pair e q)
  show ?thesis
  proof (cases e)
    case (Inl x)
    then show ?thesis using Pair a r by (simp add: ag_vfs_open_def open_begin_def alike_resolve [OF a])
  next
    case (Inr u)
    note rs = Pair [unfolded Inr]
    let ?m = "s_mounts s ! rv_index q"
    from quiet_resolved [OF r rs] obtain fs where fs: "mn_ops ?m = Some fs" "fs \<in> tables" by metis
    show ?thesis
    proof (cases "is_write_flag fl \<and> flagged (mn_flags ?m) AG_MOUNT_READONLY \<or> fs_open fs = None")
      case True
      show ?thesis using a r unfolding open_refused_early [OF rs fs(1) a True] open_refused_early [OF rs fs(1) alike_refl True] by simp
    next
      case False
      then obtain g where g: "fs_open fs = Some g" by blast
      let ?po = "pend s q fs g fl" let ?ans = "g (mn_ctx ?m) (rv_rel q) fl (v_world s)"
      have "\<not> miss_from s' (rv_canonical q) 0 FNV_BASIS" using cold_unknown [OF c', of "rv_canonical q"] by (auto simp: miss_known_def split: if_splits)
      then have there: "ag_vfs_open s' t p c fl = answered t ?po ?ans s'" using False a by (intro open_asked [OF rs fs(1) g]) auto
      have same: "fst (answered t ?po ?ans s') = fst (answered t ?po ?ans s) \<and> alike (snd (answered t ?po ?ans s)) (snd (answered t ?po ?ans s'))"
        by (rule alike_answered [OF a]) (simp add: pend_def fs)
      show ?thesis
      proof (cases "po_cacheable ?po \<and> miss_from s (rv_canonical q) 0 FNV_BASIS")
        case True
        then have nw: "\<not> is_write_flag fl" by (simp add: pend_def)
        have hit: "ag_vfs_open s t p c fl = (Inl AG_ENOENT, s\<lparr>s_neg_hits := s_neg_hits s + 1\<rparr>)"
          using rs fs g False True by (auto simp: ag_vfs_open_def open_begin_def miss_known_def Let_def pend_def)
        have ab: "absent fs (mn_ctx ?m) (v_world s) (rv_rel q)" using known_absent [OF r rs cs _ fs(1)] True by blast
        have en: "fst ?ans = Inl AG_ENOENT" using open_read [OF fs(2) g nw] ab by simp
        have "s\<lparr>v_world := snd ?ans\<rparr> = s" using open_refused_same [OF fs(2) g nw ab] by simp
        then have "answered t ?po ?ans s = (Inl AG_ENOENT, open_refused s ?po AG_ENOENT)" by (simp add: answered_def en)
        moreover have "alike s (open_refused s ?po AG_ENOENT)" using alike_remember [OF fs(2)] by (simp add: open_refused_def pend_def)
        ultimately have "fst (answered t ?po ?ans s') = Inl AG_ENOENT" "alike s (snd (answered t ?po ?ans s'))"
          using same alike_trans by auto
        then show ?thesis unfolding there hit using alike_trans [OF alike_sym [OF alike_hit]] ready_hit [OF r] by simp
      next
        case F: False
        have "ag_vfs_open s t p c fl = answered t ?po ?ans s" using False F by (intro open_asked [OF rs fs(1) g]) auto
        then show ?thesis using same answered_ready [OF r rs cs fs g] unfolding there by simp
      qed
    qed
  qed
qed

lemma exec_cold:
  assumes r: "ready s" and a: "alike s s'" and c': "cold s'" and f: "op_fine tables s x"
  shows "fst (op_exec s' x) = fst (op_exec s x) \<and> alike (snd (op_exec s x)) (snd (op_exec s' x)) \<and> ready (snd (op_exec s x))"
proof (cases x)
  case (Open t p c fl)
  then show ?thesis using open_cold [OF r a c', of p c t fl] f by (simp add: split_beta)
next
  case (Do c)
  show ?thesis
  proof (cases "\<exists>p d. c = Stat p d")
    case True
    then show ?thesis using stat_cold [OF r a c'] f Do by (auto simp: split_beta)
  next
    case False
    then have "op_exec y x = (None, vfs_exec y c)" for y unfolding Do by (cases c) auto
    then show ?thesis using alike_exec [OF a, of c] ready_exec [OF r, of c] f Do False by simp
  qed
qed

lemma run_cold:
  assumes "ready s" and "alike s s'" and "fine_run tables s xs"
  shows "fst (cold_run s' xs) = fst (op_run s xs) \<and> alike (snd (op_run s xs)) (snd (cold_run s' xs))"
  using assms
proof (induction xs arbitrary: s s')
  case (Cons x xs)
  have a: "alike s (ag_vfs_forget_misses s')" using alike_trans [OF Cons.prems(2) alike_forget(2)] .
  from exec_cold [OF Cons.prems(1) a cold_forgotten] Cons.prems(3) Cons.IH [of "snd (op_exec s x)" "snd (op_exec (ag_vfs_forget_misses s') x)"]
  show ?case by (simp add: split_beta)
qed simp

lemma boot_ready: "ready (boot_vfs w)"
  using vfs_reach_inv [OF boot_reach, of w] neg_ok_empty
  by (intro ready_cleared) (auto simp: boot_vfs_def ag_vfs_init_def known_def flat_mounts_def zero_neg_def)

end

end
