(* ===== verification/VfsRam.thy ===== *)
theory VfsRam
  imports VfsCold
begin

text \<open>
  The RAM filesystem as a backend of the VFS (\<open>k_ramfs_ops\<close> of \<open>fs/ramfs.c\<close>): the operations of theory \<open>Ramfs\<close> behind the
  table of functions the VFS calls. It keeps the promises of \<open>honest_backends\<close> as long as the heap has room for a file handle, so
  the memory of names of the VFS is transparent over it; examples show what goes wrong otherwise.
\<close>

section \<open>The table\<close>

text \<open>
  The filesystems by their contexts and the objects by their addresses. A call that touches memory that is not its own, or that does not
  return, is recorded in \<open>rw_lost\<close>; nothing is said of what follows it.
\<close>

record ram_world =
  rw_fs :: "ptr \<Rightarrow> ag_ramfs"
  rw_files :: "ptr \<Rightarrow> ram_file option"
  rw_dirs :: "ptr \<Rightarrow> nat option option"
  rw_lost :: bool

text \<open>What is given from outside: where the table lies, which sizes the heap grants, the clock, and the address of the next object.\<close>

record ram_env =
  re_addr :: ptr
  re_mem :: heap
  re_now :: "u64 option"
  re_place :: "ram_world \<Rightarrow> ptr"

definition put_fs :: "ram_world \<Rightarrow> ptr \<Rightarrow> ag_ramfs \<Rightarrow> ram_world" where
  "put_fs w ctx fs = w\<lparr>rw_fs := (rw_fs w)(ctx := fs)\<rparr>"

definition put_file :: "ram_world \<Rightarrow> ptr \<Rightarrow> ram_file \<Rightarrow> ram_world" where
  "put_file w obj f = w\<lparr>rw_files := (rw_files w)(obj \<mapsto> f)\<rparr>"

definition lost :: "ram_world \<Rightarrow> 'a ag_err \<times> ram_world" where
  "lost w = (Inl AG_EIO, w\<lparr>rw_lost := True\<rparr>)"

definition ram_open :: "ram_env \<Rightarrow> ptr \<Rightarrow> string \<Rightarrow> u32 \<Rightarrow> ram_world \<Rightarrow> ptr ag_err \<times> ram_world" where
  "ram_open E ctx rel flags w =
     (case ramfs_open (re_mem E) (re_now E) (rw_fs w ctx) rel flags of
        (Inl e, fs) \<Rightarrow> (Inl e, put_fs w ctx fs)
      | (Inr f, fs) \<Rightarrow> (Inr (re_place E w), put_file (put_fs w ctx fs) (re_place E w) f))"

definition ramfs_close :: "ptr \<Rightarrow> ptr \<Rightarrow> ram_world \<Rightarrow> unit ag_err \<times> ram_world" where
  "ramfs_close ctx obj w =
     (case rw_files w obj of None \<Rightarrow> lost w | Some f \<Rightarrow> (Inr (), w\<lparr>rw_files := (rw_files w)(obj := None)\<rparr>))"

definition ram_read :: "ptr \<Rightarrow> ptr \<Rightarrow> u32 \<Rightarrow> ram_world \<Rightarrow> u8 list ag_err \<times> ram_world" where
  "ram_read ctx obj len w =
     (case Option.bind (rw_files w obj) (\<lambda>f. ramfs_read (rw_fs w ctx) f len) of
        None \<Rightarrow> lost w | Some (bs, f) \<Rightarrow> (Inr bs, put_file w obj f))"

definition ram_write :: "ram_env \<Rightarrow> ptr \<Rightarrow> ptr \<Rightarrow> u8 list \<Rightarrow> ram_world \<Rightarrow> nat ag_err \<times> ram_world" where
  "ram_write E ctx obj buf w =
     (case Option.bind (rw_files w obj) (\<lambda>f. ramfs_write (re_mem E) (re_now E) (rw_fs w ctx) f buf) of
        None \<Rightarrow> lost w | Some (r, fs, f) \<Rightarrow> (r, put_file (put_fs w ctx fs) obj f))"

definition ram_seek :: "ptr \<Rightarrow> ptr \<Rightarrow> int \<Rightarrow> whence \<Rightarrow> ram_world \<Rightarrow> int ag_err \<times> ram_world" where
  "ram_seek ctx obj off wh w =
     (case rw_files w obj of
        None \<Rightarrow> lost w
      | Some f \<Rightarrow> if wh = AG_SEEK_END \<and> Option.is_none (rf_nodes (rw_fs w ctx) (f_node f)) then lost w
                  else case ramfs_seek (rw_fs w ctx) f off wh of (r, f') \<Rightarrow> (r, put_file w obj f'))"

definition ram_truncate :: "ram_env \<Rightarrow> ptr \<Rightarrow> ptr \<Rightarrow> u64 \<Rightarrow> ram_world \<Rightarrow> unit ag_err \<times> ram_world" where
  "ram_truncate E ctx obj len w =
     (case Option.bind (rw_files w obj) (\<lambda>f. ramfs_truncate (re_mem E) (rw_fs w ctx) f len) of
        None \<Rightarrow> lost w | Some (r, fs) \<Rightarrow> (r, put_fs w ctx fs))"

definition ram_stat :: "ptr \<Rightarrow> string \<Rightarrow> ram_world \<Rightarrow> ag_stat ag_err \<times> ram_world" where
  "ram_stat ctx rel w = (ramfs_stat (rw_fs w ctx) rel, w)"

definition ram_unlink :: "ptr \<Rightarrow> string \<Rightarrow> ram_world \<Rightarrow> unit ag_err \<times> ram_world" where
  "ram_unlink ctx rel w = (case ramfs_unlink (rw_fs w ctx) rel of (r, fs) \<Rightarrow> (r, put_fs w ctx fs))"

definition ram_rename :: "ptr \<Rightarrow> string \<Rightarrow> string \<Rightarrow> ram_world \<Rightarrow> unit ag_err \<times> ram_world" where
  "ram_rename ctx a b w = (case ramfs_rename (rw_fs w ctx) a b of None \<Rightarrow> lost w | Some (r, fs) \<Rightarrow> (r, put_fs w ctx fs))"

definition ram_mkdir :: "ram_env \<Rightarrow> ptr \<Rightarrow> string \<Rightarrow> ram_world \<Rightarrow> unit ag_err \<times> ram_world" where
  "ram_mkdir E ctx rel w = (case ramfs_mkdir (re_mem E) (re_now E) (rw_fs w ctx) rel of (r, fs) \<Rightarrow> (r, put_fs w ctx fs))"

definition ram_rmdir :: "ptr \<Rightarrow> string \<Rightarrow> ram_world \<Rightarrow> unit ag_err \<times> ram_world" where
  "ram_rmdir ctx rel w = (case ramfs_rmdir (rw_fs w ctx) rel of (r, fs) \<Rightarrow> (r, put_fs w ctx fs))"

definition ram_opendir :: "ram_env \<Rightarrow> ptr \<Rightarrow> string \<Rightarrow> ram_world \<Rightarrow> ptr ag_err \<times> ram_world" where
  "ram_opendir E ctx rel w =
     (case ramfs_opendir (re_mem E) (rw_fs w ctx) rel of
        Inl e \<Rightarrow> (Inl e, w)
      | Inr d \<Rightarrow> (Inr (re_place E w), w\<lparr>rw_dirs := (rw_dirs w)(re_place E w \<mapsto> d)\<rparr>))"

definition ram_readdir :: "ptr \<Rightarrow> ptr \<Rightarrow> ram_world \<Rightarrow> (string \<times> ag_stat) ag_err \<times> ram_world" where
  "ram_readdir ctx obj w =
     (case Option.bind (rw_dirs w obj) (ramfs_readdir (rw_fs w ctx)) of
        None \<Rightarrow> lost w | Some (r, d) \<Rightarrow> (r, w\<lparr>rw_dirs := (rw_dirs w)(obj \<mapsto> d)\<rparr>))"

definition ramfs_closedir :: "ptr \<Rightarrow> ptr \<Rightarrow> ram_world \<Rightarrow> unit ag_err \<times> ram_world" where
  "ramfs_closedir ctx obj w =
     (case rw_dirs w obj of None \<Rightarrow> lost w | Some d \<Rightarrow> (Inr (), w\<lparr>rw_dirs := (rw_dirs w)(obj := None)\<rparr>))"

definition ram_info :: "ptr \<Rightarrow> ag_fsinfo \<Rightarrow> ram_world \<Rightarrow> ag_fsinfo \<times> ram_world" where
  "ram_info ctx out w =
     (case ramfs_info (rw_fs w ctx) of
        (budget, free) \<Rightarrow> (\<lparr>fi_fs = ''ram'', fi_total = ucast budget, fi_free = ucast free, fi_read_only = False, fi_removable = False\<rparr>, w))"

definition ram_canonicalize :: "ptr \<Rightarrow> string \<Rightarrow> nat \<Rightarrow> ram_world \<Rightarrow> string ag_err \<times> ram_world" where
  "ram_canonicalize ctx rel rel_len w = (ramfs_canonicalize (rw_fs w ctx) (Some rel) rel_len, w)"

definition k_ramfs_ops :: "ram_env \<Rightarrow> ram_world ag_fs_ops" where
  "k_ramfs_ops E = \<lparr>fs_addr = re_addr E, fs_name = Some ''ram'', fs_open = Some (ram_open E), fs_close = Some ramfs_close, fs_read = Some ram_read,
     fs_write = Some (ram_write E), fs_seek = Some ram_seek, fs_sync = None, fs_truncate = Some (ram_truncate E), fs_stat = Some ram_stat,
     fs_unlink = Some ram_unlink, fs_rename = Some ram_rename, fs_mkdir = Some (ram_mkdir E), fs_rmdir = Some ram_rmdir,
     fs_opendir = Some (ram_opendir E), fs_readdir = Some ram_readdir, fs_closedir = Some ramfs_closedir, fs_info = Some ram_info,
     fs_canonicalize = Some ram_canonicalize\<rparr>"

section \<open>Names\<close>

text \<open>Two filesystems with the same names answer every walk alike.\<close>

definition same_names :: "ag_ramfs \<Rightarrow> ag_ramfs \<Rightarrow> bool" where
  "same_names fs fs' \<longleftrightarrow> (\<forall>i. n_name (node fs' i) = n_name (node fs i) \<and> n_children (node fs' i) = n_children (node fs i) \<and>
     n_is_dir (node fs' i) = n_is_dir (node fs i))"

lemma same_names_refl [simp]: "same_names fs fs"
  by (simp add: same_names_def)

lemma same_names_trans: "same_names a b \<Longrightarrow> same_names b c \<Longrightarrow> same_names a c"
  by (simp add: same_names_def)

lemma same_names_nodes: "rf_nodes fs' = rf_nodes fs \<Longrightarrow> same_names fs fs'"
  by (simp add: same_names_def node_def)

lemma same_names_set: "n_name n = n_name (node fs i) \<Longrightarrow> n_children n = n_children (node fs i) \<Longrightarrow> n_is_dir n = n_is_dir (node fs i) \<Longrightarrow>
    same_names fs (set_node fs i n)"
  by (simp add: same_names_def node_def set_node_def)

lemma names_walk: "same_names fs fs' \<Longrightarrow> walk fs' i p b = walk fs i p b"
proof (induction fs i p b rule: walk.induct)
  case (1 fs i p b)
  have c: "find_child fs' i n = find_child fs i n" for n using 1(2) by (simp add: find_child_def same_names_def)
  have d: "n_is_dir (node fs' i) = n_is_dir (node fs i)" using 1(2) by (simp add: same_names_def)
  let ?p = "dropWhile is_slash p" let ?r = "dropWhile (\<lambda>c. \<not> is_slash c)" let ?n = "takeWhile (\<lambda>c. \<not> is_slash c)"
  have "walk fs' j (?r ?p) b = walk fs j (?r ?p) b" if "?p \<noteq> []" "\<not> (dropWhile is_slash (?r ?p) = [] \<and> b)" "n_is_dir (node fs i)"
    "find_child fs i (?n ?p) = Some j" for j
    using 1(1) [OF refl that(1) refl refl refl that(2) _ that(4) 1(2)] that(3) by simp
  then show ?case unfolding walk.simps [of fs' i p b] walk.simps [of fs i p b] c d Let_def
    by (auto simp del: dropWhile_eq_Nil_conv split: option.split)
qed

lemma charge_names: "rf_nodes (snd (charge fs n)) = rf_nodes fs" and refund_names: "rf_nodes (refund fs n) = rf_nodes fs"
  by (simp_all add: charge_def refund_def)

lemma grow_names: "grow mem fs i k = Some (b, fs') \<Longrightarrow> same_names fs fs'"
proof -
  assume g: "grow mem fs i k = Some (b, fs')"
  have "same_names fs (set_node fs1 i ((node fs i)\<lparr>n_data := d, n_capacity := c\<rparr>))" if "rf_nodes fs1 = rf_nodes fs" for fs1 d c
    by (rule same_names_trans [OF same_names_nodes [OF that] same_names_set]) (simp_all add: node_def that)
  then show ?thesis using g
    by (auto simp: grow_def Let_def charge_def refund_def intro: same_names_nodes split: if_splits option.splits)
qed

lemma grown_set:
  assumes "grow mem fs i k = Some (b, fs1)" and "n_name n = n_name (node fs1 i)" "n_children n = n_children (node fs1 i)" "n_is_dir n = n_is_dir (node fs1 i)"
  shows "same_names fs (set_node fs1 i n)"
  by (rule same_names_trans [OF grow_names [OF assms(1)] same_names_set [OF assms(2-)]])

lemma write_names:
  assumes w: "ramfs_write mem now fs f buf = Some (r, fs', f')"
  shows "same_names fs fs'"
proof (cases "\<not> f_writable f \<or> buf = [] \<or> rf_nodes fs (f_node f) = None")
  case True
  then show ?thesis using w by (auto simp: ramfs_write_def split: if_splits)
next
  case False
  define pos where "pos = f_pos (if f_append f then f\<lparr>f_pos := n_size (node fs (f_node f))\<rparr> else f)"
  obtain b fs1 where g: "grow mem fs (f_node f) (pos + word_of_nat (length buf)) = Some (b, fs1)"
    using w False by (cases "grow mem fs (f_node f) (pos + word_of_nat (length buf))") (auto simp: ramfs_write_def Let_def pos_def)
  show ?thesis using w g grow_names [OF g] False
    by (cases b) (auto simp: ramfs_write_def Let_def pos_def split: option.splits intro!: grown_set [OF g])
qed

lemma truncate_names:
  assumes w: "ramfs_truncate mem fs f len = Some (r, fs')"
  shows "same_names fs fs'"
proof -
  have "same_names fs (set_node fs i ((node fs i)\<lparr>n_size := c\<rparr>))" for i c by (rule same_names_set) simp_all
  moreover have "same_names fs (set_node fs1 i ((node fs1 i)\<lparr>n_data := d, n_size := c\<rparr>))" if "grow mem fs i k = Some (b, fs1)" for fs1 i k b d c
    by (rule grown_set [OF that]) simp_all
  ultimately show ?thesis using w grow_names
    by (auto simp: ramfs_truncate_def Let_def split: if_splits option.splits bool.splits)
qed

lemma create_refused: "create_node mem now fs parent name d = (None, fs') \<Longrightarrow> same_names fs fs'"
  by (auto simp: create_node_def charge_def refund_def Let_def intro: same_names_nodes split: if_splits)

lemma open_file_names: "same_names fs (snd (open_file mem flags fs i))"
  by (auto simp: open_file_def Let_def intro!: same_names_set)

text \<open>An open that does not create, or that fails with the handle granted, changes no name.\<close>

lemma open_names:
  assumes "mem SIZEOF_FILE" and "\<not> has_flag flags AG_O_CREATE \<or> fst (ramfs_open mem now fs rel flags) = Inl e"
  shows "same_names fs (snd (ramfs_open mem now fs rel flags))"
proof (cases "fst (walk fs ROOT rel False)")
  case (Some i)
  then show ?thesis using open_file_names by (simp add: ramfs_open_def)
next
  case None
  then show ?thesis using assms
    by (auto simp: ramfs_open_def open_file_def Let_def dest: create_refused split: prod.splits option.splits if_splits)
qed

lemma mkdir_names: "ramfs_mkdir mem now fs rel = (Inl e, fs') \<Longrightarrow> same_names fs fs'"
  by (auto simp: ramfs_mkdir_def dest: create_refused split: prod.splits option.splits if_splits)

section \<open>Folded walks\<close>

lemma fold_same: "fold_case = fold_char"
proof
  fix c
  show "fold_case c = fold_char c" by (auto simp: fold_case_def fold_char_def char_in_def)
qed

lemma child_fold: "map fold_char m = map fold_char n \<Longrightarrow> find_child fs i m = find_child fs i n"
proof -
  assume e: "map fold_char m = map fold_char n"
  then have l: "length m = length n" by (metis length_map)
  have "list_all2 (\<lambda>a b. fold_case a = fold_case b) x m = list_all2 (\<lambda>a b. fold_case a = fold_case b) x n" for x
    using e l by (auto simp: fold_same list_all2_conv_all_nth list_eq_iff_nth_eq)
  then show ?thesis by (simp add: find_child_def l)
qed

lemma slash_fold: "is_slash (fold_char c) = is_slash c"
  by (simp add: is_slash_def fold_char_slash)

lemma fold_drop: "map fold_char (dropWhile is_slash p) = dropWhile is_slash (map fold_char p)"
  "map fold_char (dropWhile (\<lambda>c. \<not> is_slash c) p) = dropWhile (\<lambda>c. \<not> is_slash c) (map fold_char p)"
  "map fold_char (takeWhile (\<lambda>c. \<not> is_slash c) p) = takeWhile (\<lambda>c. \<not> is_slash c) (map fold_char p)"
  by (induction p) (simp_all add: slash_fold)

lemma walk_fold: "map fold_char p = map fold_char q \<Longrightarrow> fst (walk fs i p False) = fst (walk fs i q False)"
proof (induction fs i p "False" arbitrary: q rule: walk.induct)
  case (1 fs i p)
  let ?p = "dropWhile is_slash p" let ?q = "dropWhile is_slash q"
  let ?n = "takeWhile (\<lambda>c. \<not> is_slash c)" let ?r = "dropWhile (\<lambda>c. \<not> is_slash c)"
  have s: "map fold_char ?p = map fold_char ?q" by (simp add: fold_drop 1(2))
  have n: "find_child fs i (?n ?p) = find_child fs i (?n ?q)" by (rule child_fold) (simp add: fold_drop(3) s)
  have r: "map fold_char (?r ?p) = map fold_char (?r ?q)" by (simp add: fold_drop(2) s)
  have "fst (walk fs j (?r ?p) False) = fst (walk fs j (?r ?q) False)" if "?p \<noteq> []" "n_is_dir (node fs i)" "find_child fs i (?n ?p) = Some j" for j
    using 1(1) [OF refl that(1) refl refl refl _ _ that(3) r] that(2) by simp
  moreover have "?p = [] \<longleftrightarrow> ?q = []" using s by (metis map_is_Nil_conv)
  ultimately show ?case unfolding walk.simps [of fs i p] walk.simps [of fs i q]
    by (simp add: Let_def n del: dropWhile_eq_Nil_conv split: option.split)
qed

lemma walk_below:
  assumes "q = [] \<or> hd q = CHR ''/''"
  shows "fst (walk fs i p False) = None \<Longrightarrow> fst (walk fs i (p @ q) False) = None"
proof (induction fs i p "False" rule: walk.induct)
  case (1 fs i p)
  let ?p = "dropWhile is_slash p"
  let ?n = "takeWhile (\<lambda>c. \<not> is_slash c)" let ?r = "dropWhile (\<lambda>c. \<not> is_slash c)"
  have ne: "?p \<noteq> []"
  proof
    assume "?p = []"
    then have "walk fs i p False = (Some i, None)" by (simp add: walk.simps [of fs i p])
    then show False using 1(2) by simp
  qed
  have d: "dropWhile is_slash (p @ q) = ?p @ q" using ne by (induction p) auto
  have q: "?n q = []" "?r q = q" using assms by (cases q; simp add: is_slash_def)+
  have t: "?n (x @ q) = ?n x" "?r (x @ q) = ?r x @ q" for x using q by (induction x) auto
  have "fst (walk fs j (?r ?p @ q) False) = None" if "n_is_dir (node fs i)" "find_child fs i (?n ?p) = Some j" for j
  proof -
    have "walk fs i p False = walk fs j (?r ?p) False" using that ne by (simp add: walk.simps [of fs i p] Let_def del: dropWhile_eq_Nil_conv)
    then show ?thesis using 1(1) [OF refl ne refl refl refl _ _ that(2)] that 1(2) by simp
  qed
  then show ?case unfolding walk.simps [of fs i "p @ q"] using ne by (simp add: Let_def d t del: dropWhile_eq_Nil_conv split: option.split)
qed

section \<open>The promises\<close>

definition ram_tables :: "ram_world ag_fs_ops set" where
  "ram_tables = {k_ramfs_ops E | E. re_mem E SIZEOF_FILE}"

definition ram_absent :: "ram_world ag_fs_ops \<Rightarrow> ptr \<Rightarrow> ram_world \<Rightarrow> string \<Rightarrow> bool" where
  "ram_absent fs ctx w rel \<longleftrightarrow> fst (walk (rw_fs w ctx) ROOT rel False) = None"

lemma flagged_or: "flagged f (a OR b) \<longleftrightarrow> flagged f a \<or> flagged f b"
  by (simp add: flagged_def bit.conj_disj_distrib or_eq_0_iff)

lemma reads_do_not_create: "\<not> is_write_flag f \<Longrightarrow> \<not> has_flag f AG_O_CREATE"
  by (auto simp: is_write_flag_def flagged_or) (simp add: flagged_def has_flag_def)

lemma put_same [simp]: "put_fs w ctx (rw_fs w ctx) = w"
  by (simp add: put_fs_def)

lemma still_names: "(\<And>ctx. same_names (rw_fs w ctx) (rw_fs w' ctx)) \<Longrightarrow> still_absent ram_tables ram_absent w w'"
proof -
  assume n: "\<And>ctx. same_names (rw_fs w ctx) (rw_fs w' ctx)"
  have "walk (rw_fs w' ctx) i p b = walk (rw_fs w ctx) i p b" for ctx i p b by (rule names_walk [OF n])
  then show ?thesis by (simp add: still_absent_def ram_absent_def)
qed

lemma still_put: "same_names (rw_fs w ctx) fs \<Longrightarrow> still_absent ram_tables ram_absent w (put_fs w ctx fs)"
  by (rule still_names) (simp add: put_fs_def)

lemma still_same: "rw_fs w' = rw_fs w \<Longrightarrow> still_absent ram_tables ram_absent w w'"
  by (rule still_names) simp

lemma still_file: "still_absent ram_tables ram_absent w w' \<Longrightarrow> still_absent ram_tables ram_absent w (put_file w' obj f)"
  by (simp add: still_absent_def ram_absent_def put_file_def)

lemma still_lost: "still_absent ram_tables ram_absent w (snd (lost w))"
  by (rule still_same) (simp add: lost_def)

lemmas still_rules = still_put still_file still_lost

lemma ram_open_quiet:
  assumes "re_mem E SIZEOF_FILE" and "\<not> flagged flags AG_O_CREATE \<or> (\<exists>e. fst (ram_open E ctx rel flags w) = Inl e)"
  shows "still_absent ram_tables ram_absent w (snd (ram_open E ctx rel flags w))"
proof -
  obtain r fs where o: "ramfs_open (re_mem E) (re_now E) (rw_fs w ctx) rel flags = (r, fs)" by fastforce
  have "\<not> has_flag flags AG_O_CREATE \<or> (\<exists>e. r = Inl e)" using assms(2) o by (auto simp: ram_open_def flagged_def has_flag_def split: sum.splits)
  then have "same_names (rw_fs w ctx) fs" using open_names [where mem = "re_mem E" and now = "re_now E", OF assms(1)] o by (metis fst_conv snd_conv)
  then show ?thesis using o by (auto simp: ram_open_def intro!: still_rules split: sum.split)
qed

lemma ram_quiet: "quiet_ops (still_absent ram_tables ram_absent) (k_ramfs_ops E)"
proof -
  let ?Q = "still_absent ram_tables ram_absent"
  have w: "?Q w (snd (ram_write E ctx obj b w))" for ctx obj b w
    by (auto simp: ram_write_def intro!: still_rules dest!: write_names split: option.split bind_splits)
  have t: "?Q w (snd (ram_truncate E ctx obj k w))" for ctx obj k w
    by (auto simp: ram_truncate_def intro!: still_rules dest!: truncate_names split: option.split bind_splits)
  have m: "?Q w w'" if "ram_mkdir E ctx rel w = (Inl e, w')" for ctx rel w e w'
    using that mkdir_names by (fastforce simp: ram_mkdir_def intro!: still_put split: prod.splits)
  have r: "?Q w w'" if "ram_rename ctx a b w = (Inl e, w')" for ctx a b w e w'
    using that still_lost [of w] by (auto simp: ram_rename_def ramfs_rename_def lost_def still_same split: option.splits prod.splits if_splits bool.splits)
  have "?Q w (snd (ramfs_close ctx obj w))" "?Q w (snd (ram_read ctx obj n w))" "?Q w (snd (ram_seek ctx obj off wh w))"
    "?Q w (snd (ram_opendir E ctx rel w))" "?Q w (snd (ram_readdir ctx obj w))" "?Q w (snd (ramfs_closedir ctx obj w))"
    "?Q w (snd (ram_info ctx inf w))" "?Q w (snd (ram_canonicalize ctx rel k w))" for ctx obj n off wh rel inf k w
    by (auto simp: ramfs_close_def ram_read_def ram_seek_def ram_opendir_def ram_readdir_def ramfs_closedir_def ram_info_def ram_canonicalize_def
      split_beta intro!: still_rules intro: still_same split: option.split sum.split)
  moreover have "?Q w w'" if "ram_unlink ctx rel w = (Inl e, w')" for ctx rel w e w'
    using that by (auto simp: ram_unlink_def ramfs_unlink_def still_same split: option.splits if_splits)
  moreover have "?Q w w'" if "ram_rmdir ctx rel w = (Inl e, w')" for ctx rel w e w'
    using that by (auto simp: ram_rmdir_def ramfs_rmdir_def still_same split: option.splits if_splits)
  ultimately show ?thesis using w t m r by (simp add: quiet_ops_def k_ramfs_ops_def)
qed

interpretation ram: honest_backends ram_tables ram_absent
proof
  show "map fold_char rel = map fold_char rel' \<Longrightarrow> ram_absent fs ctx w rel = ram_absent fs ctx w rel'" for rel rel' fs ctx w
    unfolding ram_absent_def by (drule walk_fold [where fs = "rw_fs w ctx" and i = ROOT]) simp
  show "a \<noteq> [] \<Longrightarrow> ram_absent fs ctx w (render a) \<Longrightarrow> ram_absent fs ctx w (render (a @ b))" for a b fs ctx w
    using walk_below [OF render_hd] by (simp add: ram_absent_def render_def)
  fix fs assume "fs \<in> ram_tables"
  then obtain E where E: "fs = k_ramfs_ops E" "re_mem E SIZEOF_FILE" by (auto simp: ram_tables_def)
  have op: "fs_open fs = Some (ram_open E)" "fs_stat fs = Some ram_stat" by (simp_all add: E k_ramfs_ops_def)
  show "(fst (f ctx rel flags w) = Inl AG_ENOENT) = ram_absent fs ctx w rel"
    if "fs_open fs = Some f" "\<not> is_write_flag flags" for f ctx rel flags w
    using that op reads_do_not_create [OF that(2)]
    by (auto simp: ram_open_def ramfs_open_def open_file_def ram_absent_def Let_def split: option.splits if_splits)
  show "snd (f ctx rel flags w) = w"
    if "fs_open fs = Some f" "\<not> is_write_flag flags" "ram_absent fs ctx w rel" for f ctx rel flags w
    using that op reads_do_not_create [OF that(2)] by (auto simp: ram_open_def ramfs_open_def ram_absent_def)
  show "still_absent ram_tables ram_absent w (snd (f ctx rel flags w))"
    if "fs_open fs = Some f" "\<not> flagged flags AG_O_CREATE \<or> (\<exists>e. fst (f ctx rel flags w) = Inl e)" for f ctx rel flags w
    using ram_open_quiet [OF E(2)] that op by simp
  show "(fst (g ctx rel w) = Inl AG_ENOENT) = ram_absent fs ctx w rel" "snd (g ctx rel w) = w" if "fs_stat fs = Some g" for g ctx rel w
    using that op by (auto simp: ram_stat_def ramfs_stat_def ram_absent_def split: option.splits)
  show "quiet_ops (still_absent ram_tables ram_absent) fs" unfolding E(1) by (rule ram_quiet)
qed

section \<open>An example\<close>

text \<open>Two empty filesystems, at contexts 1 and 2, and objects placed one after the other.\<close>

definition demo_ram :: ag_ramfs where
  "demo_ram = the (ag_ramfs_create (\<lambda>_. True) (Some 4096))"

definition demo_world :: ram_world where
  "demo_world = \<lparr>rw_fs = (\<lambda>_. demo_ram), rw_files = (\<lambda>_. None), rw_dirs = (\<lambda>_. None), rw_lost = False\<rparr>"

definition demo_env :: "heap \<Rightarrow> ram_env" where
  "demo_env mem = \<lparr>re_addr = 16, re_mem = mem, re_now = None, re_place = (\<lambda>w. 4096)\<rparr>"

definition demo_run :: "heap \<Rightarrow> ram_world vfs_op list" where
  "demo_run mem = [Do (Mount (Some ''/tmp'') (Some (k_ramfs_ops (demo_env mem))) 1 0), Do (Stat (Some ''/tmp/x'') None),
     Open 0 (Some ''/tmp/x'') None AG_O_CREATE, Do (Stat (Some ''/tmp/X'') None)]"

lemma flat_mounts_code [code]: "flat_mounts ms = list_all (\<lambda>i. list_all (\<lambda>j. mn_used (ms ! i) \<longrightarrow> mn_used (ms ! j) \<longrightarrow> i \<noteq> j \<longrightarrow>
     \<not> prefix (folded (point_comps (ms ! i))) (folded (point_comps (ms ! j)))) [0..<length ms]) [0..<length ms]"
  by (auto simp: flat_mounts_def list_all_iff)

lemma demo_fine: "fine_run ram_tables (boot_vfs demo_world) (demo_run (\<lambda>_. True))"
proof -
  have "k_ramfs_ops (demo_env (\<lambda>_. True)) \<in> ram_tables" by (auto simp: ram_tables_def demo_env_def)
  moreover have "flat_mounts (s_mounts (snd (ag_vfs_mount (boot_vfs demo_world) (Some ''/tmp'') (Some (k_ramfs_ops (demo_env (\<lambda>_. True)))) 1 0)))" by code_simp
  moreover have "c_string (Some ''/tmp/x'')" "c_string (Some ''/tmp/X'')" "c_string None" by code_simp+
  ultimately show ?thesis by (simp add: demo_run_def)
qed

section \<open>Properties\<close>

text \<open>
  C12. The memory of missing names cannot be noticed. Take any sequence of calls from start-up on, each complete before the next, over RAM
  filesystems whose heap always has room for a file handle, with paths that are C strings and mount points none of which leads another.
  Then every open and every stat answers exactly as it would in a VFS that forgets everything before each call and asks its backends, and
  both end with the same mounts, the same handles and the same contents of the filesystems.
\<close>

theorem vfs_cache_transparent:
  assumes "fine_run ram_tables (boot_vfs w) xs"
  shows "fst (op_run (boot_vfs w) xs) = fst (cold_run (boot_vfs w) xs) \<and> alike (snd (op_run (boot_vfs w) xs)) (snd (cold_run (boot_vfs w) xs))"
  using ram.run_cold [OF ram.boot_ready alike_refl assms] by simp

theorem vfs_cache_transparent_witness:
  "fst (op_run (boot_vfs demo_world) (demo_run (\<lambda>_. True))) = fst (cold_run (boot_vfs demo_world) (demo_run (\<lambda>_. True))) \<and>
   fst (op_run (boot_vfs demo_world) (demo_run (\<lambda>_. True))) =
     [None, Some (Inr (Inl AG_ENOENT)), Some (Inl (Inr 0)), Some (Inr (Inr \<lparr>st_size = 0, st_mtime = 0, st_dir = False\<rparr>))]"
proof
  show "fst (op_run (boot_vfs demo_world) (demo_run (\<lambda>_. True))) = fst (cold_run (boot_vfs demo_world) (demo_run (\<lambda>_. True)))"
    using vfs_cache_transparent [OF demo_fine] by blast
  show "fst (op_run (boot_vfs demo_world) (demo_run (\<lambda>_. True))) =
     [None, Some (Inr (Inl AG_ENOENT)), Some (Inl (Inr 0)), Some (Inr (Inr \<lparr>st_size = 0, st_mtime = 0, st_dir = False\<rparr>))]" by code_simp
qed

end
