(* ===== verification/VfsRace.thy ===== *)
theory VfsRace
  imports VfsRam
begin

text \<open>
  What the transparency of the memory needs: that nothing comes between the steps of an open, and that an open that fails has
  created nothing. Neither need be so: what follows when something does come in between is stated for every state, with a run that reaches
  such a state; the second on an example.
\<close>

section \<open>Between the steps of an open\<close>

text \<open>A backend that opens and closes, and one that has no open at all but reads.\<close>

definition opens_table :: "nat ag_fs_ops" where
  "opens_table = \<lparr>fs_addr = 16, fs_name = None, fs_open = Some (\<lambda>ctx rel flags w. (Inr 7, w)), fs_close = Some (\<lambda>ctx obj w. (Inr (), w)),
     fs_read = None, fs_write = None, fs_seek = None, fs_sync = None, fs_truncate = None, fs_stat = None, fs_unlink = None, fs_rename = None,
     fs_mkdir = None, fs_rmdir = None, fs_opendir = None, fs_readdir = None, fs_closedir = None, fs_info = None, fs_canonicalize = None\<rparr>"

definition reads_table :: "nat ag_fs_ops" where
  "reads_table = opens_table\<lparr>fs_addr := 32, fs_open := None, fs_read := Some (\<lambda>ctx obj n w. (Inr [], unat obj))\<rparr>"

text \<open>An open of \<open>/sd/a\<close> whose backend has answered while \<open>/sd\<close> was unmounted and \<open>/tmp\<close> took its place.\<close>

definition race_begin :: "nat pending_open ag_err \<times> nat vfs" where
  "race_begin = open_begin (vfs_exec (boot_vfs 0) (Mount (Some ''/sd'') (Some opens_table) 0 0)) (Some ''/sd/a'') None 0"

definition race_po :: "nat pending_open" where
  "race_po = projr (fst race_begin)"

definition race_mid :: "nat vfs" where
  "race_mid = vfs_exec (vfs_exec (snd (open_call (snd race_begin) race_po)) (Unmount (Some ''/sd''))) (Mount (Some ''/tmp'') (Some reads_table) 0 0)"

definition race_vfs :: "nat vfs" where
  "race_vfs = snd (open_finish race_mid 0 race_po 7)"

lemma reach_begin: "vfs_reach s ps \<Longrightarrow> open_begin s p c f = b \<Longrightarrow> \<not> isl (fst b) \<Longrightarrow> vfs_reach (snd b) ([] @ (projr (fst b), In_backend) # ps)"
  using reach_step [OF _ step_begin] by (cases b; cases "fst b") auto

lemma reach_call: "vfs_reach s (as @ (po, In_backend) # bs) \<Longrightarrow> fst (open_call s po) = r \<Longrightarrow>
    vfs_reach (snd (open_call s po)) (as @ (po, case r of Inl e \<Rightarrow> Refused e | Inr obj \<Rightarrow> Opened obj) # bs)"
  using reach_step [OF _ step_backend] by (metis prod.collapse)

lemma reach_finish: "vfs_reach s (as @ (po, Opened obj) # bs) \<Longrightarrow> vfs_reach (snd (open_finish s t po obj)) (as @ bs)"
  using reach_step [OF _ step_finish] by (metis prod.collapse)

lemma race_mid_reach: "vfs_reach race_mid ([] @ (race_po, Opened 7) # [])"
proof -
  have r1: "vfs_reach (snd race_begin) ([] @ (race_po, In_backend) # [])" unfolding race_po_def
    by (rule reach_begin [OF reach_exec [OF boot_reach] race_begin_def [symmetric]]) code_simp
  have a: "fst (open_call (snd race_begin) race_po) = Inr 7" by code_simp
  show ?thesis unfolding race_mid_def by (intro reach_exec) (rule reach_call [OF r1 a, unfolded sum.case])
qed

lemma race_reach: "vfs_reach race_vfs []"
  using reach_finish [OF race_mid_reach] by (simp add: race_vfs_def)

text \<open>A read of a missing name that is refused, then an open that creates it, then the refusal is remembered.\<close>

definition late_begin :: "ram_world pending_open ag_err \<times> ram_world vfs" where
  "late_begin = open_begin (vfs_exec (boot_vfs demo_world) (Mount (Some ''/tmp'') (Some (k_ramfs_ops (demo_env (\<lambda>_. True)))) 1 0)) (Some ''/tmp/x'') None 0"

definition late_po :: "ram_world pending_open" where
  "late_po = projr (fst late_begin)"

definition late_mid :: "ram_world vfs" where
  "late_mid = snd (ag_vfs_open (snd (open_call (snd late_begin) late_po)) 1 (Some ''/tmp/x'') None AG_O_CREATE)"

definition late_vfs :: "ram_world vfs" where
  "late_vfs = open_refused late_mid late_po AG_ENOENT"

lemma late_reach: "vfs_reach late_vfs []"
proof -
  have r1: "vfs_reach (snd late_begin) ([] @ (late_po, In_backend) # [])" unfolding late_po_def
    by (rule reach_begin [OF reach_exec [OF boot_reach] late_begin_def [symmetric]]) code_simp
  have a: "fst (open_call (snd late_begin) late_po) = Inl AG_ENOENT" by code_simp
  have "vfs_reach late_mid ([] @ (late_po, Refused AG_ENOENT) # [])" unfolding late_mid_def
    by (rule reach_open) (rule reach_call [OF r1 a, unfolded sum.case])
  from reach_step [OF this step_refused] show ?thesis unfolding late_vfs_def by simp
qed

section \<open>Whatever happens in between\<close>

lemma refound:
  assumes "i \<le> n" and "n \<le> length c" and "neg_probe s (hash_done (foldl hash_step FNV_BASIS (take n c))) c n (n < length c)"
    and "n < length c \<Longrightarrow> 0 < n \<and> c ! n = CHR ''/''" and "h = foldl hash_step FNV_BASIS (take i c)"
  shows "miss_from s c i h"
  using assms(1,5)
proof (induction "n - i" arbitrary: i h)
  case 0
  then have i: "i = n" by simp
  show ?case
  proof (cases "n < length c")
    case True
    then show ?thesis using assms(3,4) 0 i by (subst miss_from.simps) simp
  next
    case False
    then have "n = length c" using assms(2) by simp
    then show ?thesis using assms(3) 0 i by (subst miss_from.simps) simp
  qed
next
  case (Suc k)
  then have lt: "i < length c" using assms(2) by simp
  have "miss_from s c (i + 1) (hash_step h (c ! i))"
    by (rule Suc(1)) (use Suc lt in \<open>simp_all add: take_Suc_conv_app_nth\<close>)
  then show ?case using lt by (subst miss_from.simps) simp
qed

lemma remembered:
  assumes "length (s_neg s) = AG_VFS_NEG_ENTRIES" and "0 < length c" and "length c < AG_VFS_NEG_PATH"
  shows "miss_from (miss_remember s c (length c) False) c 0 FNV_BASIS"
proof (rule refound [where n = "length c"])
  let ?h = "hash_done (foldl hash_step FNV_BASIS c)"
  have "neg_slot ?h < length (s_neg s)" using assms(1) neg_slot_less by simp
  then show "neg_probe (miss_remember s c (length c) False) (hash_done (foldl hash_step FNV_BASIS (take (length c) c))) c (length c) (length c < length c)"
    using assms(2,3) by (simp add: neg_probe_def miss_remember_def Let_def neg_same_def list_all_iff nth_append)
qed simp_all

text \<open>The directory that the name of a refused open is in is there, as far as is asked.\<close>

definition parent_found :: "'w vfs \<Rightarrow> 'w pending_open \<Rightarrow> bool" where
  "parent_found s po \<longleftrightarrow>
     (let n = parent_len (po_rel po) (length (po_rel po)) in
      n > 1 \<longrightarrow> (case fs_stat (po_ops po) of None \<Rightarrow> True | Some f \<Rightarrow> fst (f (po_ctx po) (take n (po_rel po)) (v_world s)) \<noteq> Inl AG_ENOENT))"

lemma refused_remembers:
  assumes "po_cacheable po" and "parent_found s po"
  obtains w where "open_refused s po AG_ENOENT = miss_remember (s\<lparr>v_world := w\<rparr>) (po_canonical po) (length (po_canonical po)) False"
proof (cases "parent_len (po_rel po) (length (po_rel po)) > 1 \<and> fs_stat (po_ops po) \<noteq> None")
  case True
  then show thesis using assms that
    by (auto simp: open_refused_def remember_absent_def parent_found_def Let_def case_prod_beta)
next
  case False
  then have "(if parent_len (po_rel po) (length (po_rel po)) > 1 then fs_stat (po_ops po) else None) = None" by auto
  then have "open_refused s po AG_ENOENT = miss_remember (s\<lparr>v_world := v_world s\<rparr>) (po_canonical po) (length (po_canonical po)) False"
    using assms(1) by (simp add: open_refused_def remember_absent_def Let_def)
  then show thesis by (rule that)
qed

lemma resolve_mounts:
  assumes "s_mounts s1 = s_mounts s"
  shows "resolve s1 path cwd = resolve s path cwd"
proof -
  have "find_mount s1 c = find_mount s c" for c using assms by (simp add: find_mount_def)
  then show ?thesis using assms by (auto simp: resolve_def split: prod.split sum.split option.split)
qed

lemma some_of: "\<not> Option.is_none x \<Longrightarrow> x = Some (the x)"
  by (cases x) simp_all

section \<open>Properties\<close>

text \<open>
  C29. An open ends on whatever filesystem has its place of the table by then. While a backend opens a file the lock is not held; whenever
  the open that follows succeeds, in any state that calls and other opens can have led to, the handle is on the mount that is in that place now, be it the one
  the file was opened on or another that was mounted there meanwhile: a read passes the object of the one to the \<open>read\<close> of the other, with the
  other's context, and the backend that made the object is not told.
\<close>

theorem vfs_open_race:
  assumes "vfs_reach s (as @ (po, Opened obj) # bs)" and "open_finish s t po obj = (Inr h, s')"
    and "mn_ops (s_mounts s ! po_index po) = Some fs" and "fs_read fs = Some rd"
  shows "v_world s' = v_world s \<and>
    ag_vfs_read s' (int h) n = (case rd (mn_ctx (s_mounts s ! po_index po)) obj n (v_world s) of (r, w) \<Rightarrow> (r, s'\<lparr>v_world := w\<rparr>))"
proof -
  let ?m = "s_mounts s ! po_index po"
  let ?s1 = "if flagged (po_flags po) AG_O_CREATE then forget_misses_locked s else s"
  have f: "s_mounts ?s1 = s_mounts s" "s_handles ?s1 = s_handles s" "v_world ?s1 = v_world s" by (simp_all add: forget_misses_locked_def)
  have inv: "vfs_inv s" "po_index po < AG_VFS_MAX_MOUNTS" using vfs_reach_inv [OF assms(1)] by auto
  then have len: "length (s_mounts s) = AG_VFS_MAX_MOUNTS" "length (s_handles s) = AG_VFS_MAX_HANDLES" by (simp_all add: mounts_ok_def)
  from assms(2) obtain s2 where u: "mn_used ?m" "\<not> mn_ejected ?m" and al: "alloc_slot ?s1 t = (Inr h, s2)"
    and s': "s' = set_mount (set_handle s2 h ((s_handles s2 ! h)\<lparr>hs_mount := po_index po, hs_obj := obj, hs_is_dir := False\<rparr>)) (po_index po)
      (?m\<lparr>mn_open_handles := mn_open_handles ?m + 1\<rparr>)"
    unfolding open_finish_def Let_def f(1) by (auto split: if_splits sum.splits prod.splits)
  have h: "h < AG_VFS_MAX_HANDLES" "s2 = set_handle ?s1 h (zero_slot\<lparr>hs_used := True, hs_owner := current_owner ?s1 t\<rparr>)"
    using al find_upt_SomeD by (auto simp: alloc_slot_def split: option.splits)
  have w: "v_world s' = v_world s" using f(3) by (simp add: s' h(2) set_mount_def set_handle_def)
  have x: "s_handles s' ! h = zero_slot\<lparr>hs_used := True, hs_owner := current_owner ?s1 t, hs_mount := po_index po, hs_obj := obj, hs_is_dir := False\<rparr>"
    using h(1) len(2) f(2) by (simp add: s' h(2) set_mount_def set_handle_def)
  have m: "s_mounts s' ! po_index po = ?m\<lparr>mn_open_handles := mn_open_handles ?m + 1\<rparr>"
    using inv(2) len(1) f(1) by (simp add: s' h(2) set_mount_def set_handle_def)
  have "handle_ref s' (int h) False = Inr (h, fs)"
    using h(1) u assms(3) by (simp add: handle_ref_def slot_of_def x m zero_slot_def Let_def)
  then show ?thesis using assms(4) w by (simp add: ag_vfs_read_def on_file_def x m Let_def)
qed

theorem vfs_open_race_witness:
  "vfs_reach race_vfs [] \<and> mn_point (s_mounts race_vfs ! hs_mount (s_handles race_vfs ! 0)) = ''/tmp'' \<and> v_world (snd (ag_vfs_read race_vfs 0 10)) = 7"
proof -
  let ?fs = "the (mn_ops (s_mounts race_mid ! po_index race_po))"
  have "\<not> Option.is_none (mn_ops (s_mounts race_mid ! po_index race_po))" "\<not> Option.is_none (fs_read ?fs)" by code_simp+
  note o = this [THEN some_of]
  have "fst (open_finish race_mid 0 race_po 7) = Inr 0" by code_simp
  then have f: "open_finish race_mid 0 race_po 7 = (Inr 0, race_vfs)" by (simp add: race_vfs_def prod_eq_iff)
  have "snd (the (fs_read ?fs) (mn_ctx (s_mounts race_mid ! po_index race_po)) 7 10 (v_world race_mid)) = 7" by code_simp
  then have "v_world (snd (ag_vfs_read race_vfs (int 0) 10)) = 7"
    using vfs_open_race [OF race_mid_reach f o, of 10] by (simp add: case_prod_beta)
  moreover have "mn_point (s_mounts race_vfs ! hs_mount (s_handles race_vfs ! 0)) = ''/tmp''" by code_simp
  ultimately show ?thesis using race_reach by simp
qed

text \<open>
  C30. A refusal that is noted late hides a file that exists. A task that was refused notes the miss after the lock was dropped: whatever has
  happened since, in particular when another task has created the name, a stat of that name is then answered without asking the backend, and
  the answer is that there is no such file; with the memory emptied the answer is the backend's.
\<close>

theorem vfs_stale_miss:
  assumes "length (s_neg s) = AG_VFS_NEG_ENTRIES" and "po_cacheable po" and "parent_found s po" and "s' = open_refused s po AG_ENOENT"
    and "resolve s path cwd = (Inr u, r)" and "rv_canonical r = po_canonical po" and "po_canonical po \<noteq> []" and "length (po_canonical po) < AG_VFS_NEG_PATH"
    and "m = s_mounts s ! rv_index r" and "\<not> flagged (mn_flags m) AG_MOUNT_VOLATILE" and "fs_stat (the (mn_ops m)) = Some f"
  shows "fst (ag_vfs_stat s' path cwd) = Inl AG_ENOENT \<and> v_world (snd (ag_vfs_stat s' path cwd)) = v_world s' \<and>
    fst (ag_vfs_stat (ag_vfs_forget_misses s') path cwd) = fst (f (mn_ctx m) (rv_rel r) (v_world s'))"
proof -
  obtain w where w: "s' = miss_remember (s\<lparr>v_world := w\<rparr>) (po_canonical po) (length (po_canonical po)) False"
    using refused_remembers [OF assms(2,3)] assms(4) by metis
  then have mt: "s_mounts s' = s_mounts s" by (simp add: miss_remember_def Let_def)
  have k: "miss_from s' (po_canonical po) 0 FNV_BASIS" unfolding w using assms(1,7,8) by (intro remembered) simp_all
  have st: "fst (ag_vfs_stat s' path cwd) = Inl AG_ENOENT" "v_world (snd (ag_vfs_stat s' path cwd)) = v_world s'"
    unfolding ag_vfs_stat_def resolve_mounts [OF mt] assms(5) using assms(6,9-11) k mt by (simp_all add: miss_known_def Let_def)
  let ?c = "ag_vfs_forget_misses s'"
  have c: "s_mounts ?c = s_mounts s" "v_world ?c = v_world s'" using mt by (simp_all add: ag_vfs_forget_misses_def)
  have "neg_ok (s_neg ?c) (s_neg_count ?c)" "\<forall>e \<in> set (s_neg ?c). ng_hash e = 0"
    using neg_ok_empty by (simp_all add: ag_vfs_forget_misses_def zero_neg_def)
  then have nk: "\<not> miss_from ?c (po_canonical po) 0 FNV_BASIS" using miss_from_covers [of ?c "po_canonical po" 0 FNV_BASIS] by (auto simp: neg_covers_def)
  have "fst (ag_vfs_stat ?c path cwd) = fst (f (mn_ctx m) (rv_rel r) (v_world s'))"
    unfolding ag_vfs_stat_def resolve_mounts [OF c(1)] assms(5) using assms(6,9-11) nk c by (simp add: miss_known_def Let_def case_prod_beta)
  then show ?thesis using st by simp
qed

theorem vfs_stale_miss_witness:
  "vfs_reach late_vfs [] \<and> fst (ag_vfs_stat late_vfs (Some ''/tmp/x'') None) = Inl AG_ENOENT \<and>
   fst (ag_vfs_stat (ag_vfs_forget_misses late_vfs) (Some ''/tmp/x'') None) = Inr \<lparr>st_size = 0, st_mtime = 0, st_dir = False\<rparr>"
proof -
  let ?r = "snd (resolve late_mid (Some ''/tmp/x'') None)"
  let ?m = "s_mounts late_mid ! rv_index ?r"
  have a: "length (s_neg late_mid) = AG_VFS_NEG_ENTRIES" "po_cacheable late_po" "parent_found late_mid late_po"
    "rv_canonical ?r = po_canonical late_po" "po_canonical late_po \<noteq> []" "length (po_canonical late_po) < AG_VFS_NEG_PATH"
    "\<not> flagged (mn_flags ?m) AG_MOUNT_VOLATILE" by code_simp+
  have "fst (resolve late_mid (Some ''/tmp/x'') None) = Inr ()" by code_simp
  then have r: "resolve late_mid (Some ''/tmp/x'') None = (Inr (), ?r)" by (simp add: prod_eq_iff)
  have "\<not> Option.is_none (fs_stat (the (mn_ops ?m)))" by code_simp
  note f = some_of [OF this]
  have "fst (the (fs_stat (the (mn_ops ?m))) (mn_ctx ?m) (rv_rel ?r) (v_world late_vfs)) = Inr \<lparr>st_size = 0, st_mtime = 0, st_dir = False\<rparr>" by code_simp
  then show ?thesis using late_reach vfs_stale_miss [OF a(1-3) late_vfs_def r a(4-6) refl a(7) f] by simp
qed

text \<open>
  A failed open can leave a file behind that is then reported missing: when the heap has room for the node and not for the handle, an open
  that creates \<open>/tmp/x\<close> reports that there is no memory, the file is there, and a stat that follows says that it is not.
\<close>

theorem vfs_enomem_hides:
  "fst (op_run (boot_vfs demo_world) (demo_run (\<lambda>n. n \<noteq> SIZEOF_FILE))) =
     [None, Some (Inr (Inl AG_ENOENT)), Some (Inl (Inl AG_ENOMEM)), Some (Inr (Inl AG_ENOENT))] \<and>
   fst (cold_run (boot_vfs demo_world) (demo_run (\<lambda>n. n \<noteq> SIZEOF_FILE))) =
     [None, Some (Inr (Inl AG_ENOENT)), Some (Inl (Inl AG_ENOMEM)), Some (Inr (Inr \<lparr>st_size = 0, st_mtime = 0, st_dir = False\<rparr>))]"
proof
  show "fst (op_run (boot_vfs demo_world) (demo_run (\<lambda>n. n \<noteq> SIZEOF_FILE))) =
     [None, Some (Inr (Inl AG_ENOENT)), Some (Inl (Inl AG_ENOMEM)), Some (Inr (Inl AG_ENOENT))]" by code_simp
  show "fst (cold_run (boot_vfs demo_world) (demo_run (\<lambda>n. n \<noteq> SIZEOF_FILE))) =
     [None, Some (Inr (Inl AG_ENOENT)), Some (Inl (Inl AG_ENOMEM)), Some (Inr (Inr \<lparr>st_size = 0, st_mtime = 0, st_dir = False\<rparr>))]" by code_simp
qed

end
