(* ===== verification/Screen.thy ===== *)
theory Screen
  imports Prelude
begin

text \<open>
  \<open>console/screen.c\<close>: the grid of character cells that every console shows, and the parser of the escape sequences that programs write
  to it. Cells are a list, row after row, as the array is; the dirty rows are bits of 32-bit words; bytes are written as their codes. The
  columns, rows and cursor are natural numbers: the grid is at most 240 by 128, and where the code casts to \<open>uint16_t\<close> the cast is
  written out. The parameters of a sequence stay below 1000010, so \<open>int32_t\<close> is \<open>int\<close>. The field \<open>param_seen\<close> is never read.
\<close>

section \<open>State\<close>

record ag_cell =
  c_ch :: u8
  c_attr :: u8

datatype ag_vt_state = AG_VT_GROUND | AG_VT_ESC | AG_VT_ESC_SKIP1 | AG_VT_CSI | AG_VT_OSC

definition AG_SCREEN_MAX_COLS :: nat where "AG_SCREEN_MAX_COLS = 240"
definition AG_SCREEN_MAX_ROWS :: nat where "AG_SCREEN_MAX_ROWS = 128"
definition AG_VT_MAX_PARAMS :: nat where "AG_VT_MAX_PARAMS = 8"
definition AG_TAB_WIDTH :: nat where "AG_TAB_WIDTH = 8"
definition AG_ATTR_DEFAULT :: u8 where "AG_ATTR_DEFAULT = 0x07"

record ag_screen =
  sc_cells :: "ag_cell list"
  sc_dirty :: "u32 list"
  sc_cols :: nat
  sc_rows :: nat
  sc_x :: nat
  sc_y :: nat
  sc_attr :: u8
  sc_visible :: bool
  sc_reverse :: bool
  sc_wrap :: bool
  sc_saved_x :: nat
  sc_saved_y :: nat
  sc_saved_attr :: u8
  sc_state :: ag_vt_state
  sc_params :: "int list"
  sc_nparams :: nat
  sc_private :: bool
  sc_generation :: u32
  sc_scrolled :: nat

definition k_ansi_to_cga :: "u8 list" where
  "k_ansi_to_cga = [0, 4, 2, 6, 1, 5, 3, 7]"

definition blank :: "u8 \<Rightarrow> ag_cell" where
  "blank attr = \<lparr>c_ch = 0x20, c_attr = attr\<rparr>"

definition u16_of :: "int \<Rightarrow> nat" where
  "u16_of i = nat (i mod 65536)"

section \<open>Dirty rows\<close>

definition dirty_words :: "nat \<Rightarrow> nat" where
  "dirty_words rows = (rows + 31) div 32"

definition ag_screen_memsize :: "nat \<Rightarrow> nat \<Rightarrow> nat" where
  "ag_screen_memsize cols rows = dirty_words rows * 4 + cols * rows * 2"

definition cell_at :: "ag_screen \<Rightarrow> nat \<Rightarrow> nat \<Rightarrow> ag_cell" where
  "cell_at s x y = sc_cells s ! (y * sc_cols s + x)"

definition set_cell :: "ag_screen \<Rightarrow> nat \<Rightarrow> nat \<Rightarrow> ag_cell \<Rightarrow> ag_screen" where
  "set_cell s x y c = s\<lparr>sc_cells := (sc_cells s)[y * sc_cols s + x := c]\<rparr>"

text \<open>One bit of the words, set or cleared.\<close>

definition row_bit :: "nat \<Rightarrow> u32" where
  "row_bit y = push_bit (y mod 32) 1"

definition or_bit :: "u32 list \<Rightarrow> nat \<Rightarrow> u32 list" where
  "or_bit d y = d[y div 32 := (d ! (y div 32)) OR row_bit y]"

definition clear_bit :: "u32 list \<Rightarrow> nat \<Rightarrow> u32 list" where
  "clear_bit d y = d[y div 32 := (d ! (y div 32)) AND NOT (row_bit y)]"

definition has_bit :: "u32 list \<Rightarrow> nat \<Rightarrow> bool" where
  "has_bit d y \<longleftrightarrow> (d ! (y div 32)) AND row_bit y \<noteq> 0"

definition bump :: "ag_screen \<Rightarrow> ag_screen" where
  "bump s = s\<lparr>sc_generation := sc_generation s + 1\<rparr>"

definition ag_screen_mark_row_dirty :: "ag_screen \<Rightarrow> nat \<Rightarrow> ag_screen" where
  "ag_screen_mark_row_dirty s y = (if y < sc_rows s then bump (s\<lparr>sc_dirty := or_bit (sc_dirty s) y\<rparr>) else s)"

definition ag_screen_mark_all_dirty :: "ag_screen \<Rightarrow> ag_screen" where
  "ag_screen_mark_all_dirty s = bump (s\<lparr>sc_dirty := replicate (dirty_words (sc_rows s)) 0xffffffff, sc_scrolled := 0\<rparr>)"

definition ag_screen_clear_dirty :: "ag_screen \<Rightarrow> ag_screen" where
  "ag_screen_clear_dirty s = s\<lparr>sc_dirty := replicate (dirty_words (sc_rows s)) 0, sc_scrolled := 0\<rparr>"

definition ag_screen_scrolled :: "ag_screen option \<Rightarrow> nat" where
  "ag_screen_scrolled s = (case s of None \<Rightarrow> 0 | Some x \<Rightarrow> sc_scrolled x)"

definition ag_screen_scroll_usable :: "ag_screen option \<Rightarrow> bool" where
  "ag_screen_scroll_usable s = (case s of None \<Rightarrow> False | Some x \<Rightarrow> sc_scrolled x > 0 \<and> sc_scrolled x < sc_rows x)"

text \<open>The two loops of \<open>shift_dirty_up\<close>, on the words.\<close>

definition shift_bits :: "nat \<Rightarrow> nat \<Rightarrow> u32 list \<Rightarrow> u32 list" where
  "shift_bits rows lines d =
     foldl or_bit (foldl (\<lambda>d y. if has_bit d (y + lines) then or_bit d y else clear_bit d y) d [0..<rows - lines]) [rows - lines..<rows]"

definition shift_dirty_up :: "ag_screen \<Rightarrow> nat \<Rightarrow> ag_screen" where
  "shift_dirty_up s lines =
     (if lines = 0 \<or> lines \<ge> sc_rows s then s else s\<lparr>sc_dirty := shift_bits (sc_rows s) lines (sc_dirty s)\<rparr>)"

definition ag_screen_row_dirty :: "ag_screen \<Rightarrow> nat \<Rightarrow> bool" where
  "ag_screen_row_dirty s y = (if y \<ge> sc_rows s then False else has_bit (sc_dirty s) y)"

definition ag_screen_any_dirty :: "ag_screen \<Rightarrow> bool" where
  "ag_screen_any_dirty s = list_ex (\<lambda>w. w \<noteq> 0) (take (dirty_words (sc_rows s)) (sc_dirty s))"

section \<open>Cells\<close>

definition fill_row :: "ag_screen \<Rightarrow> nat \<Rightarrow> nat \<Rightarrow> nat \<Rightarrow> u8 \<Rightarrow> u8 \<Rightarrow> ag_screen" where
  "fill_row s y x0 x1 ch attr =
     (if y \<ge> sc_rows s then s
      else
        let x2 = (if x1 > sc_cols s then sc_cols s else x1);
            s1 = foldl (\<lambda>s x. set_cell s x y \<lparr>c_ch = ch, c_attr = attr\<rparr>) s [x0..<x2]
        in if x2 > x0 then ag_screen_mark_row_dirty s1 y else s1)"

definition blank_rows :: "ag_screen \<Rightarrow> nat list \<Rightarrow> ag_screen" where
  "blank_rows s ys = foldl (\<lambda>s y. fill_row s y 0 (sc_cols s) 0x20 (sc_attr s)) s ys"

definition ag_screen_cls :: "ag_screen \<Rightarrow> ag_screen" where
  "ag_screen_cls s = ag_screen_mark_all_dirty ((blank_rows s [0..<sc_rows s])\<lparr>sc_x := 0, sc_y := 0, sc_wrap := False\<rparr>)"

text \<open>The memory starts with whatever it held.\<close>

definition ag_screen_init :: "ag_cell list \<Rightarrow> u32 list \<Rightarrow> ptr \<Rightarrow> nat \<Rightarrow> nat \<Rightarrow> nat \<Rightarrow> ag_screen ag_err" where
  "ag_screen_init held_cells held_dirty mem memsize cols rows =
     (if mem = NULL then Inl AG_EINVAL
      else if cols = 0 \<or> rows = 0 \<or> cols > AG_SCREEN_MAX_COLS \<or> rows > AG_SCREEN_MAX_ROWS then Inl AG_EINVAL
      else if memsize < ag_screen_memsize cols rows then Inl AG_ERANGE
      else if mem AND 3 \<noteq> 0 then Inl AG_EINVAL
      else Inr (ag_screen_cls
        \<lparr>sc_cells = held_cells, sc_dirty = held_dirty, sc_cols = cols, sc_rows = rows, sc_x = 0, sc_y = 0, sc_attr = AG_ATTR_DEFAULT,
         sc_visible = True, sc_reverse = False, sc_wrap = False, sc_saved_x = 0, sc_saved_y = 0, sc_saved_attr = AG_ATTR_DEFAULT,
         sc_state = AG_VT_GROUND, sc_params = replicate AG_VT_MAX_PARAMS 0, sc_nparams = 0, sc_private = False, sc_generation = 0, sc_scrolled = 0\<rparr>))"

definition copy_row :: "ag_screen \<Rightarrow> nat \<Rightarrow> nat \<Rightarrow> ag_screen \<Rightarrow> nat \<Rightarrow> ag_screen" where
  "copy_row src from_row wide dst y =
     ag_screen_mark_row_dirty (foldl (\<lambda>d x. set_cell d x y (cell_at src x (y + from_row))) dst [0..<wide]) y"

definition ag_screen_recreate :: "ag_cell list \<Rightarrow> u32 list \<Rightarrow> ptr \<Rightarrow> nat \<Rightarrow> nat \<Rightarrow> nat \<Rightarrow> ag_screen option \<Rightarrow> ag_screen ag_err" where
  "ag_screen_recreate held_cells held_dirty mem memsize cols rows src0 =
     (case src0 of
        None \<Rightarrow> Inl AG_EINVAL
      | Some src \<Rightarrow>
          (case ag_screen_init held_cells held_dirty mem memsize cols rows of
             Inl e \<Rightarrow> Inl e
           | Inr next0 \<Rightarrow>
               let keep = (if rows < sc_rows src then rows else sc_rows src);
                   from_row = (if sc_y src \<ge> keep then sc_y src + 1 - keep else 0);
                   wide = (if cols < sc_cols src then cols else sc_cols src);
                   next = foldl (copy_row src from_row wide) next0 (takeWhile (\<lambda>y. y + from_row < sc_rows src) [0..<keep]);
                   cy = sc_y src - from_row
               in Inr (next\<lparr>sc_attr := sc_attr src, sc_saved_attr := sc_saved_attr src, sc_visible := sc_visible src,
                            sc_x := (if sc_x src < cols then sc_x src else cols - 1),
                            sc_y := (if cy \<ge> rows then rows - 1 else cy),
                            sc_generation := sc_generation src + 1\<rparr>)))"

definition ag_screen_scroll_up :: "ag_screen \<Rightarrow> nat \<Rightarrow> ag_screen" where
  "ag_screen_scroll_up s lines =
     (if lines = 0 then s
      else if lines \<ge> sc_rows s then ag_screen_mark_all_dirty (blank_rows s [0..<sc_rows s])
      else
        let moved = (sc_rows s - lines) * sc_cols s;
            s1 = s\<lparr>sc_cells := take moved (drop (lines * sc_cols s) (sc_cells s)) @ drop moved (sc_cells s)\<rparr>;
            s2 = blank_rows (shift_dirty_up s1 lines) [sc_rows s - lines..<sc_rows s];
            total = sc_scrolled s2 + lines
        in bump (s2\<lparr>sc_scrolled := (if total < sc_rows s then total else sc_rows s)\<rparr>))"

definition scroll_down :: "ag_screen \<Rightarrow> nat \<Rightarrow> ag_screen" where
  "scroll_down s lines =
     (if lines = 0 then s
      else if lines \<ge> sc_rows s then ag_screen_scroll_up s (sc_rows s)
      else
        let moved = (sc_rows s - lines) * sc_cols s;
            s1 = s\<lparr>sc_cells := take (lines * sc_cols s) (sc_cells s) @ take moved (sc_cells s)\<rparr>
        in ag_screen_mark_all_dirty (blank_rows s1 [0..<lines]))"

definition new_line :: "ag_screen \<Rightarrow> ag_screen" where
  "new_line s =
     (let s1 = s\<lparr>sc_x := 0, sc_wrap := False\<rparr> in
      if sc_y s1 + 1 \<ge> sc_rows s1 then (ag_screen_scroll_up s1 1)\<lparr>sc_y := sc_rows s1 - 1\<rparr>
      else s1\<lparr>sc_y := sc_y s1 + 1\<rparr>)"

text \<open>A cell written where it differs.\<close>

definition put_cell :: "ag_screen \<Rightarrow> nat \<Rightarrow> nat \<Rightarrow> u8 \<Rightarrow> u8 \<Rightarrow> ag_screen" where
  "put_cell s x y ch attr =
     (let c = cell_at s x y in
      if c_ch c \<noteq> ch \<or> c_attr c \<noteq> attr then ag_screen_mark_row_dirty (set_cell s x y \<lparr>c_ch = ch, c_attr = attr\<rparr>) y else s)"

definition ag_screen_putc_raw :: "ag_screen \<Rightarrow> u8 \<Rightarrow> ag_screen" where
  "ag_screen_putc_raw s ch =
     (let s1 = (if sc_wrap s then new_line s else s);
          s2 = put_cell s1 (sc_x s1) (sc_y s1) ch (sc_attr s1)
      in if sc_x s2 + 1 \<ge> sc_cols s2 then s2\<lparr>sc_wrap := True\<rparr> else s2\<lparr>sc_x := sc_x s2 + 1\<rparr>)"

definition ag_screen_gotoxy :: "ag_screen \<Rightarrow> nat \<Rightarrow> nat \<Rightarrow> ag_screen" where
  "ag_screen_gotoxy s x y =
     s\<lparr>sc_x := (if x < sc_cols s then x else sc_cols s - 1), sc_y := (if y < sc_rows s then y else sc_rows s - 1), sc_wrap := False\<rparr>"

definition ag_screen_set_attr :: "ag_screen \<Rightarrow> u8 \<Rightarrow> ag_screen" where
  "ag_screen_set_attr s attr = s\<lparr>sc_attr := attr\<rparr>"

definition ag_screen_set_cursor :: "ag_screen \<Rightarrow> bool \<Rightarrow> ag_screen" where
  "ag_screen_set_cursor s visible = (if sc_visible s \<noteq> visible then bump (s\<lparr>sc_visible := visible\<rparr>) else s)"

definition ag_screen_poke :: "ag_screen \<Rightarrow> nat \<Rightarrow> nat \<Rightarrow> u8 \<Rightarrow> u8 \<Rightarrow> ag_screen" where
  "ag_screen_poke s x y ch attr = (if x \<ge> sc_cols s \<or> y \<ge> sc_rows s then s else put_cell s x y ch attr)"

definition ag_screen_fill :: "ag_screen \<Rightarrow> nat \<Rightarrow> nat \<Rightarrow> nat \<Rightarrow> nat \<Rightarrow> u8 \<Rightarrow> u8 \<Rightarrow> ag_screen" where
  "ag_screen_fill s x y w h ch attr =
     foldl (\<lambda>s row. fill_row s row x (u16_of (int x + int w)) ch attr) s [y..<min (y + h) (sc_rows s)]"

definition ag_screen_row :: "ag_screen \<Rightarrow> nat \<Rightarrow> ag_cell list option" where
  "ag_screen_row s y = (if y < sc_rows s then Some (drop (y * sc_cols s) (sc_cells s)) else None)"

definition ag_screen_at :: "ag_screen \<Rightarrow> nat \<Rightarrow> nat \<Rightarrow> ag_cell" where
  "ag_screen_at s x y = (if x \<ge> sc_cols s \<or> y \<ge> sc_rows s then blank AG_ATTR_DEFAULT else cell_at s x y)"

section \<open>Escape sequences\<close>

definition pget :: "ag_screen \<Rightarrow> nat \<Rightarrow> int \<Rightarrow> int" where
  "pget s index fallback = (if index \<ge> sc_nparams s \<or> sc_params s ! index < 0 then fallback else sc_params s ! index)"

definition csi_reset :: "ag_screen \<Rightarrow> ag_screen" where
  "csi_reset s = s\<lparr>sc_params := replicate AG_VT_MAX_PARAMS (-1), sc_nparams := 0, sc_private := False\<rparr>"

definition sgr_set_fg :: "ag_screen \<Rightarrow> u8 \<Rightarrow> ag_screen" where
  "sgr_set_fg s colour = s\<lparr>sc_attr := (sc_attr s AND 0xf0) OR (colour AND 0x07) OR (sc_attr s AND 0x08)\<rparr>"

definition sgr_set_bg :: "ag_screen \<Rightarrow> u8 \<Rightarrow> ag_screen" where
  "sgr_set_bg s colour = s\<lparr>sc_attr := (sc_attr s AND 0x0f) OR push_bit 4 (colour AND 0x0f)\<rparr>"

definition swap_nibbles :: "ag_screen \<Rightarrow> ag_screen" where
  "swap_nibbles s = s\<lparr>sc_attr := push_bit 4 (sc_attr s AND 0x0f) OR drop_bit 4 (sc_attr s AND 0xf0)\<rparr>"

definition ansi :: "int \<Rightarrow> u8" where
  "ansi i = k_ansi_to_cga ! nat i"

text \<open>The colour of an index of the palette of 256.\<close>

definition indexed :: "int \<Rightarrow> u8" where
  "indexed idx = (if idx \<ge> 0 \<and> idx < 8 then ansi idx else if idx \<ge> 8 \<and> idx < 16 then ansi (idx - 8) OR 0x08 else 0x07)"

text \<open>One attribute, and how many parameters it took.\<close>

definition sgr_one :: "ag_screen \<Rightarrow> nat \<Rightarrow> ag_screen \<times> nat" where
  "sgr_one s i =
     (let p = pget s i 0; a = sc_attr s in
      if p = 0 then (s\<lparr>sc_attr := AG_ATTR_DEFAULT, sc_reverse := False\<rparr>, 1)
      else if p = 1 then (s\<lparr>sc_attr := a OR 0x08\<rparr>, 1)
      else if p = 2 \<or> p = 22 then (s\<lparr>sc_attr := a AND NOT 0x08\<rparr>, 1)
      else if p = 7 then (if \<not> sc_reverse s then (swap_nibbles s)\<lparr>sc_reverse := True\<rparr> else s, 1)
      else if p = 27 then (if sc_reverse s then (swap_nibbles s)\<lparr>sc_reverse := False\<rparr> else s, 1)
      else if p \<ge> 30 \<and> p \<le> 37 then (sgr_set_fg s (ansi (p - 30)), 1)
      else if p = 39 then (sgr_set_fg s 0x07, 1)
      else if p \<ge> 40 \<and> p \<le> 47 then (sgr_set_bg s (ansi (p - 40)), 1)
      else if p = 49 then (sgr_set_bg s 0x00, 1)
      else if p \<ge> 90 \<and> p \<le> 97 then (s\<lparr>sc_attr := (a AND 0xf0) OR (ansi (p - 90) OR 0x08)\<rparr>, 1)
      else if p \<ge> 100 \<and> p \<le> 107 then (sgr_set_bg s (ansi (p - 100) OR 0x08), 1)
      else if p = 38 \<or> p = 48 then
        let kind = pget s (i + 1) (-1) in
        if kind = 5 then
          let c = indexed (pget s (i + 2) 7) in
          (if p = 38 then let s1 = sgr_set_fg s (c AND 0x07) in s1\<lparr>sc_attr := (sc_attr s1 AND NOT 0x08) OR (c AND 0x08)\<rparr>
           else sgr_set_bg s c, 3)
        else if kind = 2 then (s, 5)
        else (s, 1)
      else (s, 1))"

lemma sgr_one_pos: "(s1, k) = sgr_one s i \<Longrightarrow> 0 < k"
  by (auto simp: sgr_one_def Let_def split: if_splits)

function sgr_loop :: "ag_screen \<Rightarrow> nat \<Rightarrow> nat \<Rightarrow> ag_screen" where
  "sgr_loop s i n = (if i < n then (case sgr_one s i of (s1, k) \<Rightarrow> sgr_loop s1 (i + k) n) else s)"
  by auto
termination
  by (relation "measure (\<lambda>(s, i, n). n - i)") (auto dest!: sgr_one_pos)

declare sgr_loop.simps [simp del]

definition apply_sgr :: "ag_screen \<Rightarrow> ag_screen" where
  "apply_sgr s = sgr_loop s 0 (if sc_nparams s = 0 then 1 else sc_nparams s)"

definition erase_display :: "ag_screen \<Rightarrow> int \<Rightarrow> ag_screen" where
  "erase_display s mode =
     (if mode = 0 then blank_rows (fill_row s (sc_y s) (sc_x s) (sc_cols s) 0x20 (sc_attr s)) [sc_y s + 1..<sc_rows s]
      else if mode = 1 then (let s1 = blank_rows s [0..<sc_y s] in fill_row s1 (sc_y s1) 0 (sc_x s1 + 1) 0x20 (sc_attr s1))
      else ag_screen_mark_all_dirty (blank_rows s [0..<sc_rows s]))"

definition erase_line :: "ag_screen \<Rightarrow> int \<Rightarrow> ag_screen" where
  "erase_line s mode =
     (if mode = 0 then fill_row s (sc_y s) (sc_x s) (sc_cols s) 0x20 (sc_attr s)
      else if mode = 1 then fill_row s (sc_y s) 0 (sc_x s + 1) 0x20 (sc_attr s)
      else fill_row s (sc_y s) 0 (sc_cols s) 0x20 (sc_attr s))"

definition move_cursor :: "ag_screen \<Rightarrow> int \<Rightarrow> int \<Rightarrow> ag_screen" where
  "move_cursor s dx dy =
     (let nx = int (sc_x s) + dx; ny = int (sc_y s) + dy;
          nx1 = (if nx < 0 then 0 else nx); ny1 = (if ny < 0 then 0 else ny);
          nx2 = (if nx1 \<ge> int (sc_cols s) then int (sc_cols s) - 1 else nx1);
          ny2 = (if ny1 \<ge> int (sc_rows s) then int (sc_rows s) - 1 else ny1)
      in s\<lparr>sc_x := u16_of nx2, sc_y := u16_of ny2, sc_wrap := False\<rparr>)"

definition save_cursor :: "ag_screen \<Rightarrow> ag_screen" where
  "save_cursor s = s\<lparr>sc_saved_x := sc_x s, sc_saved_y := sc_y s, sc_saved_attr := sc_attr s\<rparr>"

definition restore_cursor :: "ag_screen \<Rightarrow> ag_screen" where
  "restore_cursor s = s\<lparr>sc_x := sc_saved_x s, sc_y := sc_saved_y s, sc_attr := sc_saved_attr s, sc_wrap := False\<rparr>"

definition csi_dispatch :: "ag_screen \<Rightarrow> u8 \<Rightarrow> ag_screen" where
  "csi_dispatch s final =
     (if final = 0x41 then move_cursor s 0 (- pget s 0 1)
      else if final = 0x42 then move_cursor s 0 (pget s 0 1)
      else if final = 0x43 then move_cursor s (pget s 0 1) 0
      else if final = 0x44 then move_cursor s (- pget s 0 1) 0
      else if final = 0x45 then (move_cursor s 0 (pget s 0 1))\<lparr>sc_x := 0\<rparr>
      else if final = 0x46 then (move_cursor s 0 (- pget s 0 1))\<lparr>sc_x := 0\<rparr>
      else if final = 0x47 then ag_screen_gotoxy s (u16_of (pget s 0 1 - 1)) (sc_y s)
      else if final = 0x64 then ag_screen_gotoxy s (sc_x s) (u16_of (pget s 0 1 - 1))
      else if final = 0x48 \<or> final = 0x66 then ag_screen_gotoxy s (u16_of (pget s 1 1 - 1)) (u16_of (pget s 0 1 - 1))
      else if final = 0x4A then erase_display s (pget s 0 0)
      else if final = 0x4B then erase_line s (pget s 0 0)
      else if final = 0x53 then ag_screen_scroll_up s (u16_of (pget s 0 1))
      else if final = 0x54 then scroll_down s (u16_of (pget s 0 1))
      else if final = 0x6D then apply_sgr s
      else if final = 0x68 \<or> final = 0x6C then
        (if sc_private s \<and> pget s 0 0 = 25 then ag_screen_set_cursor s (final = 0x68) else s)
      else if final = 0x73 then save_cursor s
      else if final = 0x75 then restore_cursor s
      else s)"

definition ground_char :: "ag_screen \<Rightarrow> u8 \<Rightarrow> ag_screen" where
  "ground_char s ch =
     (if ch = 0x0A then new_line s
      else if ch = 0x0D then s\<lparr>sc_x := 0, sc_wrap := False\<rparr>
      else if ch = 0x09 then
        (let next = (sc_x s div AG_TAB_WIDTH + 1) * AG_TAB_WIDTH
         in s\<lparr>sc_x := (if next \<ge> sc_cols s then sc_cols s - 1 else next), sc_wrap := False\<rparr>)
      else if ch = 0x08 then s\<lparr>sc_x := (if sc_x s > 0 then sc_x s - 1 else sc_x s), sc_wrap := False\<rparr>
      else if ch = 0x07 then s
      else if ch = 0x1B then s\<lparr>sc_state := AG_VT_ESC\<rparr>
      else if ch \<ge> 0x20 then ag_screen_putc_raw s ch
      else s)"

text \<open>The byte after an escape, inside a sequence, and any byte.\<close>

definition esc_char :: "ag_screen \<Rightarrow> u8 \<Rightarrow> ag_screen" where
  "esc_char s ch =
     (if ch = 0x5B then (csi_reset s)\<lparr>sc_state := AG_VT_CSI\<rparr>
      else if ch = 0x5D then s\<lparr>sc_state := AG_VT_OSC\<rparr>
      else if ch = 0x28 \<or> ch = 0x29 \<or> ch = 0x23 then s\<lparr>sc_state := AG_VT_ESC_SKIP1\<rparr>
      else if ch = 0x37 then (save_cursor s)\<lparr>sc_state := AG_VT_GROUND\<rparr>
      else if ch = 0x38 then (restore_cursor s)\<lparr>sc_state := AG_VT_GROUND\<rparr>
      else if ch = 0x63 then (ag_screen_cls (s\<lparr>sc_attr := AG_ATTR_DEFAULT, sc_reverse := False\<rparr>))\<lparr>sc_state := AG_VT_GROUND\<rparr>
      else if ch = 0x4D then
        (if sc_y s = 0 then scroll_down s 1 else s\<lparr>sc_y := sc_y s - 1\<rparr>)\<lparr>sc_wrap := False, sc_state := AG_VT_GROUND\<rparr>
      else s\<lparr>sc_state := AG_VT_GROUND\<rparr>)"

definition digit_in :: "ag_screen \<Rightarrow> u8 \<Rightarrow> ag_screen" where
  "digit_in s ch =
     (let n = (if sc_nparams s = 0 then 1 else sc_nparams s);
          p = sc_params s ! (n - 1);
          base = (if p < 0 then 0 else p)
      in s\<lparr>sc_nparams := n, sc_params := (if base < 100000 then (sc_params s)[n - 1 := base * 10 + (uint ch - 0x30)] else sc_params s)\<rparr>)"

definition csi_char :: "ag_screen \<Rightarrow> u8 \<Rightarrow> ag_screen" where
  "csi_char s ch =
     (if ch \<ge> 0x30 \<and> ch \<le> 0x39 then digit_in s ch
      else if ch = 0x3B then
        (let n = (if sc_nparams s = 0 then 1 else sc_nparams s) in s\<lparr>sc_nparams := (if n < AG_VT_MAX_PARAMS then n + 1 else n)\<rparr>)
      else if ch = 0x3F \<or> ch = 0x3C \<or> ch = 0x3E \<or> ch = 0x3D then s\<lparr>sc_private := True\<rparr>
      else if ch \<ge> 0x40 \<and> ch \<le> 0x7E then (csi_dispatch s ch)\<lparr>sc_state := AG_VT_GROUND\<rparr>
      else if ch < 0x20 then ground_char s ch
      else s)"

definition write_char :: "ag_screen \<Rightarrow> u8 \<Rightarrow> ag_screen" where
  "write_char s ch =
     (case sc_state s of
        AG_VT_GROUND \<Rightarrow> ground_char s ch
      | AG_VT_ESC \<Rightarrow> esc_char s ch
      | AG_VT_ESC_SKIP1 \<Rightarrow> s\<lparr>sc_state := AG_VT_GROUND\<rparr>
      | AG_VT_CSI \<Rightarrow> csi_char s ch
      | AG_VT_OSC \<Rightarrow> if ch = 0x07 \<or> ch = 0x1B then s\<lparr>sc_state := AG_VT_GROUND\<rparr> else s)"

definition ag_screen_write :: "ag_screen \<Rightarrow> u8 list \<Rightarrow> ag_screen" where
  "ag_screen_write s buf = foldl write_char s buf"

definition ag_screen_puts :: "ag_screen \<Rightarrow> u8 list option \<Rightarrow> ag_screen" where
  "ag_screen_puts s str = (case str of None \<Rightarrow> s | Some b \<Rightarrow> ag_screen_write s (takeWhile (\<lambda>c. c \<noteq> 0) b))"

section \<open>Bits\<close>

lemma row_bit_iff: "bit (row_bit y) n \<longleftrightarrow> n = y mod 32"
proof -
  have "y mod 32 < 32" by simp
  then show ?thesis by (auto simp: row_bit_def push_bit_of_1 bit_exp_iff)
qed

lemma has_bit_iff: "has_bit d y \<longleftrightarrow> bit (d ! (y div 32)) (y mod 32)"
proof -
  have "w \<noteq> 0 \<longleftrightarrow> (\<exists>n. bit w n)" for w :: u32 using bit_eq_iff [of w 0] bit_imp_le_length [of w] by auto
  then show ?thesis by (auto simp: has_bit_def bit_and_iff row_bit_iff)
qed

lemma length_bits [simp]: "length (or_bit d y) = length d" "length (clear_bit d y) = length d"
  by (simp_all add: or_bit_def clear_bit_def)

lemma same_bit: "(y :: nat) div 32 = z div 32 \<Longrightarrow> y mod 32 = z mod 32 \<longleftrightarrow> y = z"
  by (metis div_mult_mod_eq)

lemma has_or_bit: "y div 32 < length d \<Longrightarrow> has_bit (or_bit d y) z \<longleftrightarrow> z = y \<or> has_bit d z"
  using same_bit [of y z] by (cases "z div 32 = y div 32") (auto simp: has_bit_iff or_bit_def bit_or_iff row_bit_iff)

lemma has_clear_bit: "y div 32 < length d \<Longrightarrow> has_bit (clear_bit d y) z \<longleftrightarrow> z \<noteq> y \<and> has_bit d z"
proof -
  assume y: "y div 32 < length d"
  have "z mod 32 < 32" by simp
  then show ?thesis using same_bit [of y z] y
    by (cases "z div 32 = y div 32") (auto simp: has_bit_iff clear_bit_def bit_and_iff bit_not_iff row_bit_iff)
qed

lemma row_word_le: "y < rows \<Longrightarrow> dirty_words rows \<le> length d \<Longrightarrow> y div 32 < length d"
proof -
  assume "y < rows" "dirty_words rows \<le> length d"
  moreover from \<open>y < rows\<close> have "y div 32 < dirty_words rows" by (simp add: dirty_words_def div_less_iff_less_mult)
  ultimately show ?thesis by simp
qed

lemma row_word: "y < rows \<Longrightarrow> length d = dirty_words rows \<Longrightarrow> y div 32 < length d"
  using row_word_le [of y rows d] by simp

lemma has_or_bits: "\<forall>y \<in> set ys. y div 32 < length d \<Longrightarrow> has_bit (foldl or_bit d ys) z \<longleftrightarrow> z \<in> set ys \<or> has_bit d z"
  by (induction ys arbitrary: d) (auto simp: has_or_bit)

lemma length_or_bits [simp]: "length (foldl or_bit d ys) = length d"
  by (induction ys arbitrary: d) simp_all

text \<open>The first loop of the shift, which reads only what it has not yet written.\<close>

lemma move_bits:
  assumes "0 < lines" and "k + lines \<le> rows" and "dirty_words rows \<le> length d"
  shows "let d' = foldl (\<lambda>d y. if has_bit d (y + lines) then or_bit d y else clear_bit d y) d [0..<k] in
    length d' = length d \<and> (\<forall>z. has_bit d' z \<longleftrightarrow> (if z < k then has_bit d (z + lines) else has_bit d z))"
  using assms(2)
proof (induction k)
  case (Suc k)
  define e where "e = foldl (\<lambda>d y. if has_bit d (y + lines) then or_bit d y else clear_bit d y) d [0..<k]"
  have e: "length e = length d" "\<And>z. has_bit e z \<longleftrightarrow> (if z < k then has_bit d (z + lines) else has_bit d z)"
    using Suc by (simp_all add: e_def Let_def)
  have k: "k div 32 < length e" using row_word_le [of k rows e] Suc.prems assms(1,3) e(1) by simp
  have "foldl (\<lambda>d y. if has_bit d (y + lines) then or_bit d y else clear_bit d y) d [0..<Suc k] =
      (if has_bit e (k + lines) then or_bit e k else clear_bit e k)" by (simp add: e_def)
  then show ?case using e assms(1) by (auto simp: Let_def has_or_bit [OF k] has_clear_bit [OF k] less_Suc_eq)
qed simp

lemma shift_bits_spec:
  assumes "0 < lines" and "lines < rows" and "dirty_words rows \<le> length d"
  shows "length (shift_bits rows lines d) = length d"
    and "y < rows \<Longrightarrow> has_bit (shift_bits rows lines d) y \<longleftrightarrow> rows \<le> y + lines \<or> has_bit d (y + lines)"
proof -
  define e where "e = foldl (\<lambda>d y. if has_bit d (y + lines) then or_bit d y else clear_bit d y) d [0..<rows - lines]"
  have e: "length e = length d" "\<And>z. has_bit e z \<longleftrightarrow> (if z < rows - lines then has_bit d (z + lines) else has_bit d z)"
    using move_bits [of lines "rows - lines" rows d] assms by (simp_all add: e_def Let_def)
  have s: "shift_bits rows lines d = foldl or_bit e [rows - lines..<rows]" by (simp add: shift_bits_def e_def)
  show "length (shift_bits rows lines d) = length d" by (simp add: s e)
  have "\<forall>y \<in> set [rows - lines..<rows]. y div 32 < length e" using row_word_le [of _ rows e] assms(3) e(1) by simp
  from has_or_bits [OF this] show "y < rows \<Longrightarrow> has_bit (shift_bits rows lines d) y \<longleftrightarrow> rows \<le> y + lines \<or> has_bit d (y + lines)"
    unfolding s by (auto simp: e(2))
qed

lemma has_bit_all: "y < rows \<Longrightarrow> has_bit (replicate (dirty_words rows) 0xffffffff) y"
proof -
  assume y: "y < rows"
  have "bit (mask 32 :: u32) (y mod 32)" by (simp only: bit_mask_iff) simp
  then have "bit (0xffffffff :: u32) (y mod 32)" by (simp add: mask_eq_exp_minus_1)
  then show ?thesis using row_word [OF y, of "replicate (dirty_words rows) 0"] by (simp add: has_bit_iff)
qed

lemma has_bit_none: "y < rows \<Longrightarrow> \<not> has_bit (replicate (dirty_words rows) 0) y"
  using row_word [of y rows "replicate (dirty_words rows) 0"] by (simp add: has_bit_iff)

section \<open>Cells\<close>

lemma cell_index: "x < cols \<Longrightarrow> x' < cols \<Longrightarrow> y * cols + x = y' * cols + x' \<longleftrightarrow> (y :: nat) = y' \<and> (x :: nat) = x'"
proof
  assume "x < cols" "x' < cols" "y * cols + x = y' * cols + x'"
  then have "(y * cols + x) div cols = (y' * cols + x') div cols" "(y * cols + x) mod cols = (y' * cols + x') mod cols" by simp_all
  then show "y = y' \<and> x = x'" using \<open>x < cols\<close> \<open>x' < cols\<close> by simp
qed simp

lemma cell_bound: "x < cols \<Longrightarrow> y < rows \<Longrightarrow> y * cols + x < cols * (rows :: nat)"
proof -
  assume "x < cols" "y < rows"
  then have "y * cols + x < (y + 1) * cols" by simp
  also have "\<dots> \<le> rows * cols" using \<open>y < rows\<close> by (intro mult_le_mono1) simp
  finally show ?thesis by (simp add: mult.commute)
qed

text \<open>The grid: its size, its marks, and that a row that is not marked came from inside the screen.\<close>

definition grid_ok :: "ag_screen \<Rightarrow> bool" where
  "grid_ok s \<longleftrightarrow> length (sc_cells s) = sc_cols s * sc_rows s \<and> length (sc_dirty s) = dirty_words (sc_rows s) \<and>
     0 < sc_cols s \<and> sc_cols s \<le> AG_SCREEN_MAX_COLS \<and> 0 < sc_rows s \<and> sc_rows s \<le> AG_SCREEN_MAX_ROWS \<and> sc_scrolled s \<le> sc_rows s \<and>
     (\<forall>y < sc_rows s. has_bit (sc_dirty s) y \<or> y + sc_scrolled s < sc_rows s)"

text \<open>Everything but the picture and its marks stays.\<close>

definition keeps_rest :: "ag_screen \<Rightarrow> ag_screen \<Rightarrow> bool" where
  "keeps_rest s s' \<longleftrightarrow> s' = s\<lparr>sc_cells := sc_cells s', sc_dirty := sc_dirty s', sc_generation := sc_generation s', sc_scrolled := sc_scrolled s'\<rparr>"

text \<open>A row that is not marked was not marked before, and is the row that moved there.\<close>

definition tracked :: "ag_screen \<Rightarrow> ag_screen \<Rightarrow> bool" where
  "tracked s s' \<longleftrightarrow> sc_cols s' = sc_cols s \<and> sc_rows s' = sc_rows s \<and>
     (\<forall>y < sc_rows s. \<not> has_bit (sc_dirty s') y \<longrightarrow>
        (\<exists>k. sc_scrolled s' = sc_scrolled s + k \<and> y + k < sc_rows s \<and> \<not> has_bit (sc_dirty s) (y + k) \<and>
             (\<forall>x < sc_cols s. cell_at s' x y = cell_at s x (y + k))))"

definition redraw :: "ag_screen \<Rightarrow> ag_screen \<Rightarrow> bool" where
  "redraw s s' \<longleftrightarrow> keeps_rest s s' \<and> (grid_ok s \<longrightarrow> grid_ok s' \<and> tracked s s')"

lemma frame_refl [simp]: "keeps_rest s s"
  by (simp add: keeps_rest_def)

lemma frame_trans: "keeps_rest s s' \<Longrightarrow> keeps_rest s' s'' \<Longrightarrow> keeps_rest s s''"
  by (cases s; cases s'; cases s''; simp add: keeps_rest_def)

lemma frame_fields:
  assumes "keeps_rest s s'"
  shows "sc_cols s' = sc_cols s" "sc_rows s' = sc_rows s" "sc_x s' = sc_x s" "sc_y s' = sc_y s" "sc_attr s' = sc_attr s" "sc_visible s' = sc_visible s"
    "sc_reverse s' = sc_reverse s" "sc_wrap s' = sc_wrap s" "sc_saved_x s' = sc_saved_x s" "sc_saved_y s' = sc_saved_y s"
    "sc_saved_attr s' = sc_saved_attr s" "sc_state s' = sc_state s" "sc_params s' = sc_params s" "sc_nparams s' = sc_nparams s" "sc_private s' = sc_private s"
  by (subst assms [unfolded keeps_rest_def], simp)+

lemma tracked_refl [simp]: "tracked s s"
  by (simp add: tracked_def)

lemma tracked_trans:
  assumes "tracked s s'" and "tracked s' s''"
  shows "tracked s s''"
  unfolding tracked_def
proof (intro conjI allI impI)
  show "sc_cols s'' = sc_cols s" "sc_rows s'' = sc_rows s" using assms by (simp_all add: tracked_def)
  fix y assume y: "y < sc_rows s" "\<not> has_bit (sc_dirty s'') y"
  obtain k where k: "sc_scrolled s'' = sc_scrolled s' + k" "y + k < sc_rows s" "\<not> has_bit (sc_dirty s') (y + k)"
    "\<forall>x < sc_cols s. cell_at s'' x y = cell_at s' x (y + k)" using assms y unfolding tracked_def by metis
  obtain j where j: "sc_scrolled s' = sc_scrolled s + j" "y + k + j < sc_rows s" "\<not> has_bit (sc_dirty s) (y + k + j)"
    "\<forall>x < sc_cols s. cell_at s' x (y + k) = cell_at s x (y + k + j)" using assms(1) k(2,3) unfolding tracked_def by metis
  show "\<exists>k. sc_scrolled s'' = sc_scrolled s + k \<and> y + k < sc_rows s \<and> \<not> has_bit (sc_dirty s) (y + k) \<and>
      (\<forall>x < sc_cols s. cell_at s'' x y = cell_at s x (y + k))"
    using k j by (intro exI [of _ "k + j"]) (simp add: add.assoc)
qed

lemma redraw_refl [simp]: "redraw s s"
  by (simp add: redraw_def)

lemma redraw_trans: "redraw s s' \<Longrightarrow> redraw s' s'' \<Longrightarrow> redraw s s''"
  unfolding redraw_def using frame_trans tracked_trans by blast

lemma redraw_foldl: "(\<And>s y. redraw s (f s y)) \<Longrightarrow> redraw s (foldl f s ys)"
  by (induction ys arbitrary: s) (auto intro: redraw_trans)

text \<open>The sizes alone, which hold in the middle of an operation too.\<close>

definition size_ok :: "ag_screen \<Rightarrow> bool" where
  "size_ok s \<longleftrightarrow> length (sc_cells s) = sc_cols s * sc_rows s \<and> length (sc_dirty s) = dirty_words (sc_rows s) \<and> 0 < sc_cols s"

lemma grid_size: "grid_ok s \<Longrightarrow> size_ok s"
  by (simp add: grid_ok_def size_ok_def)

lemma nth_fill: "i < length l \<Longrightarrow> foldl (\<lambda>l x. l[f x := g x]) l xs ! i = (case find (\<lambda>x. f x = i) (rev xs) of None \<Rightarrow> l ! i | Some x \<Rightarrow> g x)"
proof (induction xs rule: rev_induct)
  case (snoc x xs)
  have "length (foldl (\<lambda>l x. l[f x := g x]) l xs) = length l" by (induction xs arbitrary: l rule: rev_induct) simp_all
  then show ?case using snoc by simp
qed simp

lemma length_fill: "length (foldl (\<lambda>l x. l[f x := g x]) l xs) = length l"
  by (induction xs arbitrary: l) simp_all

lemma fill_cells: "foldl (\<lambda>s x. set_cell s x y (g x)) s xs = s\<lparr>sc_cells := foldl (\<lambda>l x. l[y * sc_cols s + x := g x]) (sc_cells s) xs\<rparr>"
  by (induction xs arbitrary: s) (simp_all add: set_cell_def)

text \<open>A run of cells of one row.\<close>

lemma run_cell:
  assumes "size_ok s" and "y < sc_rows s" and "x1 \<le> sc_cols s" and "x < sc_cols s" and "y' < sc_rows s"
  shows "cell_at (foldl (\<lambda>s x. set_cell s x y (g x)) s [x0..<x1]) x y' = (if y' = y \<and> x0 \<le> x \<and> x < x1 then g x else cell_at s x y')"
proof -
  let ?f = "\<lambda>x. y * sc_cols s + x" let ?i = "y' * sc_cols s + x"
  have i: "?i < length (sc_cells s)" using cell_bound [OF assms(4,5)] assms(1) by (simp add: size_ok_def)
  have e: "?f z = ?i \<longleftrightarrow> y = y' \<and> z = x" if "z < x1" for z using cell_index [of z "sc_cols s" x y y'] that assms by simp
  have "find (\<lambda>z. ?f z = ?i) (rev [x0..<x1]) = (if y' = y \<and> x0 \<le> x \<and> x < x1 then Some x else None)"
  proof (cases "find (\<lambda>z. ?f z = ?i) (rev [x0..<x1])")
    case None
    then show ?thesis by (auto simp: find_None_iff)
  next
    case (Some z)
    then obtain n where "n < x1 - x0" "rev [x0..<x1] ! n = z" "?f z = ?i" by (auto simp: find_Some_iff)
    then have "x0 \<le> z" "z < x1" by (auto simp: rev_nth)
    then show ?thesis using Some e [of z] \<open>?f z = ?i\<close> by auto
  qed
  then show ?thesis unfolding fill_cells cell_at_def using nth_fill [OF i, of ?f g "[x0..<x1]"] by simp
qed

lemma run_frame: "keeps_rest s (foldl (\<lambda>s x. set_cell s x y (g x)) s xs)" "sc_dirty (foldl (\<lambda>s x. set_cell s x y (g x)) s xs) = sc_dirty s"
  "sc_scrolled (foldl (\<lambda>s x. set_cell s x y (g x)) s xs) = sc_scrolled s" "sc_rows (foldl (\<lambda>s x. set_cell s x y (g x)) s xs) = sc_rows s"
  "sc_cols (foldl (\<lambda>s x. set_cell s x y (g x)) s xs) = sc_cols s" "length (sc_cells (foldl (\<lambda>s x. set_cell s x y (g x)) s xs)) = length (sc_cells s)"
  by (simp_all add: fill_cells keeps_rest_def length_fill)

lemma mark_frame: "keeps_rest s (ag_screen_mark_row_dirty s y)" "sc_cells (ag_screen_mark_row_dirty s y) = sc_cells s"
  "sc_scrolled (ag_screen_mark_row_dirty s y) = sc_scrolled s" "sc_rows (ag_screen_mark_row_dirty s y) = sc_rows s" "sc_cols (ag_screen_mark_row_dirty s y) = sc_cols s"
  "y < sc_rows s \<Longrightarrow> sc_dirty (ag_screen_mark_row_dirty s y) = or_bit (sc_dirty s) y" "cell_at (ag_screen_mark_row_dirty s y) = cell_at s"
  by (auto simp: ag_screen_mark_row_dirty_def bump_def keeps_rest_def cell_at_def fun_eq_iff)

lemma fill_row_spec:
  assumes "size_ok s" and "y < sc_rows s"
  shows "keeps_rest s (fill_row s y x0 x1 ch a)" "sc_scrolled (fill_row s y x0 x1 ch a) = sc_scrolled s" "size_ok (fill_row s y x0 x1 ch a)"
    "\<lbrakk>x < sc_cols s; y' < sc_rows s\<rbrakk> \<Longrightarrow>
      cell_at (fill_row s y x0 x1 ch a) x y' = (if y' = y \<and> x0 \<le> x \<and> x < x1 then \<lparr>c_ch = ch, c_attr = a\<rparr> else cell_at s x y')"
    "sc_dirty (fill_row s y x0 x1 ch a) = (if x0 < min x1 (sc_cols s) then or_bit (sc_dirty s) y else sc_dirty s)"
proof -
  define x2 where "x2 = min x1 (sc_cols s)"
  define s1 where "s1 = foldl (\<lambda>s x. set_cell s x y \<lparr>c_ch = ch, c_attr = a\<rparr>) s [x0..<x2]"
  have f: "fill_row s y x0 x1 ch a = (if x2 > x0 then ag_screen_mark_row_dirty s1 y else s1)"
    using assms(2) by (simp add: fill_row_def Let_def s1_def x2_def min_def)
  note r = run_frame [where g = "\<lambda>_. \<lparr>c_ch = ch, c_attr = a\<rparr>" and xs = "[x0..<x2]" and s = s and y = y, folded s1_def]
  have y: "y < sc_rows s1" using assms(2) r(4) by simp
  show "keeps_rest s (fill_row s y x0 x1 ch a)" using r(1) frame_trans [OF r(1) mark_frame(1)] by (simp add: f)
  show "sc_scrolled (fill_row s y x0 x1 ch a) = sc_scrolled s" by (simp add: f r mark_frame)
  show d: "sc_dirty (fill_row s y x0 x1 ch a) = (if x0 < min x1 (sc_cols s) then or_bit (sc_dirty s) y else sc_dirty s)"
    by (simp add: f r mark_frame(6) [OF y] x2_def)
  show "size_ok (fill_row s y x0 x1 ch a)" using assms(1) unfolding size_ok_def d by (simp add: f r mark_frame)
  show "cell_at (fill_row s y x0 x1 ch a) x y' = (if y' = y \<and> x0 \<le> x \<and> x < x1 then \<lparr>c_ch = ch, c_attr = a\<rparr> else cell_at s x y')"
    if "x < sc_cols s" "y' < sc_rows s"
    using run_cell [OF assms, of x2 x y' "\<lambda>_. \<lparr>c_ch = ch, c_attr = a\<rparr>" x0, folded s1_def] that by (auto simp: f mark_frame(7) x2_def)
qed

lemma row_change:
  assumes f: "keeps_rest s s'" and sc: "sc_scrolled s' = sc_scrolled s" and len: "length (sc_cells s') = length (sc_cells s)" and y: "y < sc_rows s"
    and d: "sc_dirty s' = or_bit (sc_dirty s) y \<or> sc_dirty s' = sc_dirty s \<and> (\<forall>x < sc_cols s. cell_at s' x y = cell_at s x y)"
    and c: "\<And>x z. x < sc_cols s \<Longrightarrow> z < sc_rows s \<Longrightarrow> z \<noteq> y \<Longrightarrow> cell_at s' x z = cell_at s x z"
  shows "redraw s s'"
  unfolding redraw_def
proof (intro conjI impI f)
  assume g: "grid_ok s"
  have w: "y div 32 < length (sc_dirty s)" using row_word [OF y, of "sc_dirty s"] g by (simp add: grid_ok_def)
  have h: "has_bit (sc_dirty s) z \<Longrightarrow> has_bit (sc_dirty s') z" for z using d has_or_bit [OF w] by auto
  have u: "\<not> has_bit (sc_dirty s') y \<Longrightarrow> \<forall>x < sc_cols s. cell_at s' x y = cell_at s x y" using d has_or_bit [OF w] by auto
  have l: "length (sc_dirty s') = length (sc_dirty s)" using d by auto
  show "grid_ok s'" using g h l by (auto simp: grid_ok_def frame_fields [OF f] sc len)
  show "tracked s s'" unfolding tracked_def frame_fields [OF f]
    using u c h sc by (metis add.right_neutral)
qed

lemma fill_row_redraw: "redraw s (fill_row s y x0 x1 ch a)"
proof (cases "size_ok s \<and> y < sc_rows s")
  case True
  then have t: "size_ok s" "y < sc_rows s" by simp_all
  note f = fill_row_spec [OF t]
  show ?thesis
  proof (rule row_change [OF f(1,2) _ t(2)])
    show "length (sc_cells (fill_row s y x0 x1 ch a)) = length (sc_cells s)" using t(1) f(3) frame_fields [OF f(1)] by (simp add: size_ok_def)
    show "sc_dirty (fill_row s y x0 x1 ch a) = or_bit (sc_dirty s) y \<or>
        sc_dirty (fill_row s y x0 x1 ch a) = sc_dirty s \<and> (\<forall>x < sc_cols s. cell_at (fill_row s y x0 x1 ch a) x y = cell_at s x y)"
      using f(4) [OF _ t(2)] by (auto simp: f(5))
    show "cell_at (fill_row s y x0 x1 ch a) x z = cell_at s x z" if "x < sc_cols s" "z < sc_rows s" "z \<noteq> y" for x z
      using f(4) [OF that(1,2)] that(3) by simp
  qed
next
  case False
  have "keeps_rest s (fill_row s y x0 x1 ch a)"
    using run_frame(1) frame_trans [OF run_frame(1) mark_frame(1)] by (simp add: fill_row_def Let_def)
  moreover have "fill_row s y x0 x1 ch a = s" if "\<not> y < sc_rows s" using that by (simp add: fill_row_def)
  ultimately show ?thesis using False grid_size by (auto simp: redraw_def)
qed

lemma blank_rows_spec:
  assumes "size_ok s" and "\<forall>y \<in> set ys. y < sc_rows s"
  shows "keeps_rest s (blank_rows s ys) \<and> sc_scrolled (blank_rows s ys) = sc_scrolled s \<and> size_ok (blank_rows s ys) \<and>
    (\<forall>x < sc_cols s. \<forall>y < sc_rows s. cell_at (blank_rows s ys) x y = (if y \<in> set ys then blank (sc_attr s) else cell_at s x y)) \<and>
    (\<forall>z < sc_rows s. has_bit (sc_dirty (blank_rows s ys)) z \<longleftrightarrow> z \<in> set ys \<or> has_bit (sc_dirty s) z)"
  using assms
proof (induction ys arbitrary: s)
  case Nil
  then show ?case by (simp add: blank_rows_def)
next
  case (Cons y ys)
  let ?s = "fill_row s y 0 (sc_cols s) 0x20 (sc_attr s)"
  have y: "y < sc_rows s" using Cons.prems by simp
  note f = fill_row_spec [OF Cons.prems(1) y]
  have fr: "keeps_rest s ?s" by (rule f(1))
  note ff = frame_fields [OF fr]
  have b: "blank_rows s (y # ys) = blank_rows ?s ys" by (simp add: blank_rows_def)
  have w: "y div 32 < length (sc_dirty s)" using row_word [OF y, of "sc_dirty s"] Cons.prems(1) by (simp add: size_ok_def)
  have d: "has_bit (sc_dirty ?s) z \<longleftrightarrow> z = y \<or> has_bit (sc_dirty s) z" for z
    using f(5) has_or_bit [OF w] Cons.prems(1) by (simp add: size_ok_def)
  have c: "cell_at ?s x z = (if z = y then blank (sc_attr s) else cell_at s x z)" if "x < sc_cols s" "z < sc_rows s" for x z
    using f(4) [OF that] that by (simp add: blank_def)
  have "\<forall>y \<in> set ys. y < sc_rows ?s" using Cons.prems(2) by (simp add: ff)
  from Cons.IH [OF f(3) this] have ih: "keeps_rest ?s (blank_rows ?s ys)" "sc_scrolled (blank_rows ?s ys) = sc_scrolled ?s" "size_ok (blank_rows ?s ys)"
    "\<And>x z. x < sc_cols s \<Longrightarrow> z < sc_rows s \<Longrightarrow> cell_at (blank_rows ?s ys) x z = (if z \<in> set ys then blank (sc_attr s) else cell_at ?s x z)"
    "\<And>z. z < sc_rows s \<Longrightarrow> has_bit (sc_dirty (blank_rows ?s ys)) z \<longleftrightarrow> z \<in> set ys \<or> has_bit (sc_dirty ?s) z" by (simp_all add: ff)
  show ?case unfolding b using frame_trans [OF fr ih(1)] ih(2-) f(2) by (auto simp: c d)
qed

lemmas blank_rows_facts = blank_rows_spec [THEN conjunct1] blank_rows_spec [THEN conjunct2, THEN conjunct1]
  blank_rows_spec [THEN conjunct2, THEN conjunct2, THEN conjunct1]

lemma blank_rows_redraw: "redraw s (blank_rows s ys)"
  unfolding blank_rows_def by (rule redraw_foldl) (rule fill_row_redraw)

lemma all_redraw:
  assumes f: "keeps_rest s s'" and len: "grid_ok s \<Longrightarrow> length (sc_cells s') = length (sc_cells s)"
  shows "redraw s (ag_screen_mark_all_dirty s')"
proof -
  have fr: "keeps_rest s' (ag_screen_mark_all_dirty s')" by (simp add: keeps_rest_def ag_screen_mark_all_dirty_def bump_def)
  have g: "sc_dirty (ag_screen_mark_all_dirty s') = replicate (dirty_words (sc_rows s)) 0xffffffff"
    "sc_scrolled (ag_screen_mark_all_dirty s') = 0" "sc_cells (ag_screen_mark_all_dirty s') = sc_cells s'"
    by (simp_all add: ag_screen_mark_all_dirty_def bump_def frame_fields [OF f])
  show ?thesis unfolding redraw_def
  proof (intro conjI impI)
    show "keeps_rest s (ag_screen_mark_all_dirty s')" by (rule frame_trans [OF f fr])
    assume ok: "grid_ok s"
    note ff = frame_fields [OF f] frame_fields [OF fr]
    show "grid_ok (ag_screen_mark_all_dirty s')" using ok len has_bit_all by (auto simp: grid_ok_def g ff)
    show "tracked s (ag_screen_mark_all_dirty s')" using has_bit_all by (auto simp: tracked_def g ff)
  qed
qed

lemma mark_all_redraw: "redraw s (ag_screen_mark_all_dirty s)"
  by (rule all_redraw) simp_all

lemma mark_row_redraw: "redraw s (ag_screen_mark_row_dirty s y)"
proof (cases "y < sc_rows s")
  case True
  show ?thesis by (rule row_change [OF mark_frame(1) mark_frame(3) _ True]) (simp_all add: mark_frame True)
qed (simp add: ag_screen_mark_row_dirty_def)

text \<open>A scroll by fewer lines than there are: every row comes from below, the last ones are blank.\<close>

lemma scroll_up_part:
  assumes "0 < lines" "lines < sc_rows s"
  shows "ag_screen_scroll_up s lines =
    (let moved = (sc_rows s - lines) * sc_cols s;
         s1 = s\<lparr>sc_cells := take moved (drop (lines * sc_cols s) (sc_cells s)) @ drop moved (sc_cells s)\<rparr>;
         s2 = blank_rows (shift_dirty_up s1 lines) [sc_rows s - lines..<sc_rows s]; total = sc_scrolled s2 + lines
     in bump (s2\<lparr>sc_scrolled := (if total < sc_rows s then total else sc_rows s)\<rparr>))"
proof -
  have "(lines = 0) = False" "(lines \<ge> sc_rows s) = False" using assms by simp_all
  then show ?thesis by (simp only: ag_screen_scroll_up_def if_False)
qed

lemma scroll_up_spec:
  assumes g: "grid_ok s" and l: "0 < lines" "lines < sc_rows s"
  shows "keeps_rest s (ag_screen_scroll_up s lines)" "size_ok (ag_screen_scroll_up s lines)"
    "sc_scrolled (ag_screen_scroll_up s lines) = min (sc_scrolled s + lines) (sc_rows s)"
    "\<lbrakk>x < sc_cols s; y < sc_rows s\<rbrakk> \<Longrightarrow> cell_at (ag_screen_scroll_up s lines) x y =
       (if y + lines < sc_rows s then cell_at s x (y + lines) else blank (sc_attr s))"
    "y < sc_rows s \<Longrightarrow> has_bit (sc_dirty (ag_screen_scroll_up s lines)) y \<longleftrightarrow> sc_rows s \<le> y + lines \<or> has_bit (sc_dirty s) (y + lines)"
proof -
  let ?R = "sc_rows s" let ?C = "sc_cols s"
  define moved where "moved = (?R - lines) * ?C"
  define s1 where "s1 = shift_dirty_up (s\<lparr>sc_cells := take moved (drop (lines * ?C) (sc_cells s)) @ drop moved (sc_cells s)\<rparr>) lines"
  define s2 where "s2 = blank_rows s1 [?R - lines..<?R]"
  define k where "k = (if sc_scrolled s2 + lines < ?R then sc_scrolled s2 + lines else ?R)"
  have up: "ag_screen_scroll_up s lines = bump (s2\<lparr>sc_scrolled := k\<rparr>)"
    unfolding scroll_up_part [OF l] by (simp only: Let_def s2_def s1_def moved_def k_def)
  have sz: "length (sc_cells s) = ?C * ?R" "length (sc_dirty s) = dirty_words ?R" "0 < ?C" using g by (simp_all add: grid_ok_def)
  note b = shift_bits_spec [OF l eq_refl [OF sz(2) [symmetric]]]
  have s1: "keeps_rest s s1" "sc_dirty s1 = shift_bits ?R lines (sc_dirty s)" "sc_scrolled s1 = sc_scrolled s"
    "sc_cells s1 = take moved (drop (lines * ?C) (sc_cells s)) @ drop moved (sc_cells s)"
    using l by (simp_all add: s1_def shift_dirty_up_def keeps_rest_def)
  note f1 = frame_fields [OF s1(1)]
  have mv: "moved + lines * ?C = ?C * ?R" using l by (simp add: moved_def algebra_simps flip: add_mult_distrib)
  have z1: "size_ok s1" using sz b(1) mv by (simp add: size_ok_def f1 s1)
  have "\<forall>y \<in> set [?R - lines..<?R]. y < sc_rows s1" by (simp add: f1)
  note b2 = blank_rows_spec [OF z1 this, folded s2_def]
  have f2: "keeps_rest s s2" using frame_trans [OF s1(1)] b2 by blast
  show "keeps_rest s (ag_screen_scroll_up s lines)" unfolding up by (rule frame_trans [OF f2]) (simp add: keeps_rest_def bump_def)
  show "size_ok (ag_screen_scroll_up s lines)" using b2 by (simp add: up size_ok_def bump_def)
  show "sc_scrolled (ag_screen_scroll_up s lines) = min (sc_scrolled s + lines) ?R" using b2 s1(3) by (simp add: up bump_def k_def)
  show "has_bit (sc_dirty (ag_screen_scroll_up s lines)) y \<longleftrightarrow> ?R \<le> y + lines \<or> has_bit (sc_dirty s) (y + lines)" if "y < ?R"
    using b2 b(2) [OF that] that by (auto simp: up bump_def f1 s1(2))
  show "cell_at (ag_screen_scroll_up s lines) x y = (if y + lines < ?R then cell_at s x (y + lines) else blank (sc_attr s))"
    if "x < ?C" "y < ?R"
  proof -
    have "cell_at (ag_screen_scroll_up s lines) x y = cell_at s2 x y" by (simp add: up bump_def cell_at_def)
    moreover have "cell_at s2 x y = (if y + lines < ?R then cell_at s1 x y else blank (sc_attr s))" using b2 that by (auto simp: f1)
    moreover have "cell_at s1 x y = cell_at s x (y + lines)" if "y + lines < ?R"
    proof -
      have "y * ?C + x < moved" unfolding moved_def using cell_bound [OF \<open>x < ?C\<close>, of y "?R - lines"] that by (simp add: mult.commute)
      moreover have "lines * ?C \<le> length (sc_cells s)" unfolding sz(1) using mv by linarith
      moreover have "length (take moved (drop (lines * ?C) (sc_cells s))) = moved" using mv sz(1) by (simp only: length_take length_drop)
      ultimately have "sc_cells s1 ! (y * ?C + x) = sc_cells s ! (lines * ?C + (y * ?C + x))" by (simp add: s1(4) nth_append)
      then show ?thesis by (simp add: cell_at_def f1 algebra_simps)
    qed
    ultimately show ?thesis by simp
  qed
qed

lemma blank_all: "grid_ok s \<Longrightarrow> length (sc_cells (blank_rows s ys)) = length (sc_cells s)"
  using blank_rows_redraw [of s ys] frame_fields [of s "blank_rows s ys"] by (simp add: redraw_def grid_ok_def)

lemma scroll_up_redraw: "redraw s (ag_screen_scroll_up s lines)"
proof -
  consider "lines = 0" | "lines \<ge> sc_rows s" "lines \<noteq> 0" | "0 < lines" "lines < sc_rows s" by linarith
  then show ?thesis
  proof cases
    case 2
    have "redraw s (ag_screen_mark_all_dirty (blank_rows s [0..<sc_rows s]))"
      using blank_rows_redraw by (intro all_redraw blank_all) (auto simp: redraw_def)
    then show ?thesis using 2 by (simp add: ag_screen_scroll_up_def)
  next
    case 3
    have fr: "keeps_rest s (ag_screen_scroll_up s lines)"
    proof -
      let ?s1 = "shift_dirty_up (s\<lparr>sc_cells := take ((sc_rows s - lines) * sc_cols s) (drop (lines * sc_cols s) (sc_cells s)) @ drop ((sc_rows s - lines) * sc_cols s) (sc_cells s)\<rparr>) lines"
      have "keeps_rest s ?s1" by (simp add: shift_dirty_up_def keeps_rest_def)
      then have "keeps_rest s (blank_rows ?s1 [sc_rows s - lines..<sc_rows s])" using blank_rows_redraw frame_trans unfolding redraw_def by blast
      moreover have "keeps_rest t (bump (t\<lparr>sc_scrolled := n\<rparr>))" for t n by (simp add: keeps_rest_def bump_def)
      ultimately show ?thesis unfolding scroll_up_part [OF 3] Let_def by (rule frame_trans)
    qed
    show ?thesis unfolding redraw_def
    proof (intro conjI impI fr)
      assume g: "grid_ok s"
      note u = scroll_up_spec [OF g 3] and ff = frame_fields [OF fr]
      have in_screen: "y + lines + sc_scrolled s < sc_rows s" if "y < sc_rows s" "\<not> has_bit (sc_dirty (ag_screen_scroll_up s lines)) y" for y
        using u(5) [OF that(1)] that(2) g unfolding grid_ok_def by (metis not_le)
      have "has_bit (sc_dirty (ag_screen_scroll_up s lines)) y \<or> y + min (sc_scrolled s + lines) (sc_rows s) < sc_rows s" if "y < sc_rows s" for y
        using in_screen [OF that] by (cases "has_bit (sc_dirty (ag_screen_scroll_up s lines)) y") simp_all
      then show "grid_ok (ag_screen_scroll_up s lines)" using u(2) g by (simp add: grid_ok_def size_ok_def ff u(3))
      show "tracked s (ag_screen_scroll_up s lines)" unfolding tracked_def ff
      proof (intro conjI allI impI refl exI [of _ lines])
        fix y assume y: "y < sc_rows s" "\<not> has_bit (sc_dirty (ag_screen_scroll_up s lines)) y"
        show "sc_scrolled (ag_screen_scroll_up s lines) = sc_scrolled s + lines" "y + lines < sc_rows s"
          using in_screen [OF y] by (simp_all add: u(3))
        show "\<not> has_bit (sc_dirty s) (y + lines)" using u(5) [OF y(1)] y(2) by simp
        show "cell_at (ag_screen_scroll_up s lines) x y = cell_at s x (y + lines)" if "x < sc_cols s" for x
          using u(4) [OF that y(1)] in_screen [OF y] by simp
      qed
    qed
  qed (simp add: ag_screen_scroll_up_def)
qed

lemma scroll_down_redraw: "redraw s (scroll_down s lines)"
proof (cases "lines = 0 \<or> lines \<ge> sc_rows s")
  case True
  then show ?thesis using scroll_up_redraw by (auto simp: scroll_down_def)
next
  case False
  let ?c = "take (lines * sc_cols s) (sc_cells s) @ take ((sc_rows s - lines) * sc_cols s) (sc_cells s)"
  let ?s1 = "s\<lparr>sc_cells := ?c\<rparr>"
  have fr: "keeps_rest s ?s1" by (simp add: keeps_rest_def)
  have "redraw s (ag_screen_mark_all_dirty (blank_rows ?s1 [0..<lines]))"
  proof (rule all_redraw)
    show "keeps_rest s (blank_rows ?s1 [0..<lines])" using blank_rows_redraw frame_trans [OF fr] unfolding redraw_def by blast
    assume g: "grid_ok s"
    have "lines * sc_cols s + (sc_rows s - lines) * sc_cols s = sc_cols s * sc_rows s" using False by (simp add: algebra_simps flip: add_mult_distrib)
    then have "length ?c = sc_cols s * sc_rows s" using g by (simp add: grid_ok_def)
    then have z: "size_ok ?s1" using g by (simp add: grid_ok_def size_ok_def)
    have "\<forall>y \<in> set [0..<lines]. y < sc_rows ?s1" using False by simp
    from blank_rows_spec [OF z this] have "size_ok (blank_rows ?s1 [0..<lines])" "keeps_rest ?s1 (blank_rows ?s1 [0..<lines])" by simp_all
    then show "length (sc_cells (blank_rows ?s1 [0..<lines])) = length (sc_cells s)"
      using g frame_fields [of ?s1 "blank_rows ?s1 [0..<lines]"] by (simp add: size_ok_def grid_ok_def)
  qed
  then show ?thesis using False by (simp add: scroll_down_def Let_def)
qed

lemma put_cell_spec:
  assumes "size_ok s" and "x < sc_cols s" and "y < sc_rows s"
  shows "keeps_rest s (put_cell s x y ch a)" "size_ok (put_cell s x y ch a)" "sc_scrolled (put_cell s x y ch a) = sc_scrolled s"
    "\<lbrakk>x' < sc_cols s; y' < sc_rows s\<rbrakk> \<Longrightarrow> cell_at (put_cell s x y ch a) x' y' = (if x' = x \<and> y' = y then \<lparr>c_ch = ch, c_attr = a\<rparr> else cell_at s x' y')"
    "sc_dirty (put_cell s x y ch a) = or_bit (sc_dirty s) y \<or> put_cell s x y ch a = s"
proof -
  let ?c = "\<lparr>c_ch = ch, c_attr = a\<rparr>" let ?t = "set_cell s x y ?c"
  have t: "keeps_rest s ?t" "sc_dirty ?t = sc_dirty s" "sc_scrolled ?t = sc_scrolled s" "sc_rows ?t = sc_rows s" "sc_cols ?t = sc_cols s"
    "length (sc_cells ?t) = length (sc_cells s)" by (simp_all add: set_cell_def keeps_rest_def)
  have same: "\<not> (c_ch (cell_at s x y) \<noteq> ch \<or> c_attr (cell_at s x y) \<noteq> a) \<longleftrightarrow> cell_at s x y = ?c" by (cases "cell_at s x y") auto
  then have p: "put_cell s x y ch a = (if cell_at s x y = ?c then s else ag_screen_mark_row_dirty ?t y)" by (auto simp: put_cell_def Let_def)
  have y: "y < sc_rows ?t" using assms(3) by (simp add: t)
  show "keeps_rest s (put_cell s x y ch a)" using frame_trans [OF t(1) mark_frame(1)] by (simp add: p)
  show "size_ok (put_cell s x y ch a)" using assms(1) by (simp add: p size_ok_def mark_frame t mark_frame(6) [OF y])
  show "sc_scrolled (put_cell s x y ch a) = sc_scrolled s" by (simp add: p mark_frame t)
  show "sc_dirty (put_cell s x y ch a) = or_bit (sc_dirty s) y \<or> put_cell s x y ch a = s" by (simp add: p mark_frame(6) [OF y] t)
  show "cell_at (put_cell s x y ch a) x' y' = (if x' = x \<and> y' = y then ?c else cell_at s x' y')" if "x' < sc_cols s" "y' < sc_rows s"
  proof -
    have "y * sc_cols s + x < length (sc_cells s)" using cell_bound [OF assms(2,3)] assms(1) by (simp add: size_ok_def)
    then have "cell_at ?t x' y' = (if x' = x \<and> y' = y then ?c else cell_at s x' y')"
      using cell_index [OF that(1) assms(2), of y' y] by (auto simp: cell_at_def set_cell_def nth_list_update)
    then show ?thesis by (auto simp: p mark_frame(7))
  qed
qed

lemma put_cell_redraw: "x < sc_cols s \<Longrightarrow> y < sc_rows s \<Longrightarrow> redraw s (put_cell s x y ch a)"
proof (cases "size_ok s")
  case True
  assume xy: "x < sc_cols s" "y < sc_rows s"
  note p = put_cell_spec [OF True xy]
  show ?thesis
  proof (rule row_change [OF p(1,3) _ xy(2)])
    show "length (sc_cells (put_cell s x y ch a)) = length (sc_cells s)" using p(2) True frame_fields [OF p(1)] by (simp add: size_ok_def)
    show "sc_dirty (put_cell s x y ch a) = or_bit (sc_dirty s) y \<or>
        sc_dirty (put_cell s x y ch a) = sc_dirty s \<and> (\<forall>z < sc_cols s. cell_at (put_cell s x y ch a) z y = cell_at s z y)"
      using p(5) [of ch a] by (cases "put_cell s x y ch a = s") simp_all
    show "cell_at (put_cell s x y ch a) x' z = cell_at s x' z" if "x' < sc_cols s" "z < sc_rows s" "z \<noteq> y" for x' z
      using p(4) [OF that(1,2)] that(3) by simp
  qed
next
  case False
  have "keeps_rest s (put_cell s x y ch a)"
    using frame_trans [OF _ mark_frame(1)] by (simp add: put_cell_def Let_def set_cell_def keeps_rest_def)
  then show ?thesis using False grid_size by (auto simp: redraw_def)
qed

end
