(* ===== verification/ScreenInv.thy ===== *)
theory ScreenInv
  imports Screen
begin

text \<open>
  The invariant of \<open>console/screen.c\<close>: the grid has its size, the cursor and the saved cursor lie inside it, the parameters of a sequence
  fit their array; every call keeps it, whatever bytes are written. And the contract with the renderers: since the marks were last
  cleared, a row that is not marked is the row that the counted scroll moved there.
\<close>

section \<open>The invariant\<close>

definition pos_ok :: "ag_screen \<Rightarrow> bool" where
  "pos_ok s \<longleftrightarrow> sc_x s < sc_cols s \<and> sc_y s < sc_rows s \<and> sc_saved_x s < sc_cols s \<and> sc_saved_y s < sc_rows s"

definition parse_ok :: "ag_screen \<Rightarrow> bool" where
  "parse_ok s \<longleftrightarrow> length (sc_params s) = AG_VT_MAX_PARAMS \<and> sc_nparams s \<le> AG_VT_MAX_PARAMS \<and> list_all (\<lambda>p. -1 \<le> p \<and> p \<le> 999999) (sc_params s)"

definition screen_ok :: "ag_screen \<Rightarrow> bool" where
  "screen_ok s \<longleftrightarrow> grid_ok s \<and> pos_ok s \<and> parse_ok s"

definition good :: "ag_screen \<Rightarrow> ag_screen \<Rightarrow> bool" where
  "good s s' \<longleftrightarrow> (screen_ok s \<longrightarrow> screen_ok s' \<and> tracked s s')"

lemma goodI: "(screen_ok s \<Longrightarrow> good s s') \<Longrightarrow> good s s'"
  by (auto simp: good_def)

lemma good_refl [simp]: "good s s"
  by (simp add: good_def)

lemma good_trans: "good s s' \<Longrightarrow> good s' s'' \<Longrightarrow> good s s''"
  unfolding good_def using tracked_trans by blast

lemma good_foldl: "(\<And>s y. good s (f s y)) \<Longrightarrow> good s (foldl f s ys)"
  by (induction ys arbitrary: s) (auto intro: good_trans)

lemma redraw_good: "redraw s s' \<Longrightarrow> good s s'"
proof -
  assume r: "redraw s s'"
  then have f: "keeps_rest s s'" by (simp add: redraw_def)
  have "pos_ok s' = pos_ok s" "parse_ok s' = parse_ok s" by (simp_all add: pos_ok_def parse_ok_def frame_fields [OF f])
  then show ?thesis using r by (auto simp: redraw_def good_def screen_ok_def)
qed

text \<open>A change of the cursor, the attributes or the parser only.\<close>

definition still :: "ag_screen \<Rightarrow> ag_screen \<Rightarrow> bool" where
  "still s s' \<longleftrightarrow> sc_cells s' = sc_cells s \<and> sc_dirty s' = sc_dirty s \<and> sc_cols s' = sc_cols s \<and> sc_rows s' = sc_rows s \<and> sc_scrolled s' = sc_scrolled s"

lemma still_good:
  assumes "still s s'" and "screen_ok s \<Longrightarrow> pos_ok s' \<and> parse_ok s'"
  shows "good s s'"
proof -
  have "grid_ok s' = grid_ok s" using assms(1) by (simp add: still_def grid_ok_def)
  moreover have "tracked s s'" using assms(1) by (simp add: still_def tracked_def cell_at_def)
  ultimately show ?thesis using assms(2) by (simp add: good_def screen_ok_def)
qed

lemma grid_pos: "grid_ok s \<Longrightarrow> 0 < sc_cols s \<and> 0 < sc_rows s"
  by (simp add: grid_ok_def)

lemmas keep_simps = still_def screen_ok_def pos_ok_def parse_ok_def

section \<open>The operations\<close>

lemma cls_good: "good s (ag_screen_cls s)"
proof -
  have "good s (blank_rows s [0..<sc_rows s])" by (intro redraw_good blank_rows_redraw)
  moreover have "good t (t\<lparr>sc_x := 0, sc_y := 0, sc_wrap := False\<rparr>)" for t
    by (rule still_good) (auto simp: keep_simps dest: grid_pos)
  ultimately show ?thesis unfolding ag_screen_cls_def by (blast intro: good_trans redraw_good mark_all_redraw)
qed

lemma new_line_good: "good s (new_line s)"
proof (rule goodI)
  assume ok: "screen_ok s"
  let ?s1 = "s\<lparr>sc_x := 0, sc_wrap := False\<rparr>"
  have s1: "good s ?s1" by (rule still_good) (auto simp: keep_simps dest: grid_pos)
  show "good s (new_line s)"
  proof (cases "sc_y s + 1 \<ge> sc_rows s")
    case True
    let ?s2 = "ag_screen_scroll_up ?s1 1"
    have "good ?s1 ?s2" by (rule redraw_good [OF scroll_up_redraw])
    moreover have "good ?s2 (?s2\<lparr>sc_y := sc_rows ?s1 - 1\<rparr>)"
      using frame_fields(2) [of ?s1 ?s2] scroll_up_redraw [of ?s1 1] by (intro still_good) (auto simp: keep_simps redraw_def dest: grid_pos)
    ultimately have "good s (?s2\<lparr>sc_y := sc_rows ?s1 - 1\<rparr>)" using s1 good_trans by blast
    then show ?thesis using True by (simp add: new_line_def)
  next
    case False
    then show ?thesis using ok by (intro still_good) (auto simp: new_line_def keep_simps dest: grid_pos)
  qed
qed

lemma put_cell_good: "x < sc_cols s \<Longrightarrow> y < sc_rows s \<Longrightarrow> good s (put_cell s x y ch a)"
  by (rule redraw_good [OF put_cell_redraw])

lemma putc_raw_good: "good s (ag_screen_putc_raw s ch)"
proof (rule goodI)
  assume ok: "screen_ok s"
  define s1 where "s1 = (if sc_wrap s then new_line s else s)"
  define s2 where "s2 = put_cell s1 (sc_x s1) (sc_y s1) ch (sc_attr s1)"
  have s1: "good s s1" using new_line_good by (simp add: s1_def)
  then have "pos_ok s1" using ok by (simp add: good_def screen_ok_def)
  then have s2: "good s1 s2" unfolding s2_def by (intro put_cell_good) (simp_all add: pos_ok_def)
  have "good s2 (if sc_x s2 + 1 \<ge> sc_cols s2 then s2\<lparr>sc_wrap := True\<rparr> else s2\<lparr>sc_x := sc_x s2 + 1\<rparr>)"
    by (rule still_good) (auto simp: keep_simps)
  then show "good s (ag_screen_putc_raw s ch)"
    unfolding ag_screen_putc_raw_def Let_def s1_def [symmetric] s2_def [symmetric] by (blast intro: good_trans s1 s2)
qed

lemma gotoxy_good: "good s (ag_screen_gotoxy s x y)"
  by (rule still_good) (auto simp: keep_simps ag_screen_gotoxy_def dest: grid_pos)

lemma set_attr_good: "good s (ag_screen_set_attr s a)"
  by (rule still_good) (simp_all add: keep_simps ag_screen_set_attr_def)

lemma set_cursor_good: "good s (ag_screen_set_cursor s v)"
  by (rule still_good) (simp_all add: keep_simps ag_screen_set_cursor_def bump_def)

lemma poke_good: "good s (ag_screen_poke s x y ch a)"
  using put_cell_good [of x s y ch a] by (auto simp: ag_screen_poke_def)

lemma fill_good: "good s (ag_screen_fill s x y w h ch a)"
  unfolding ag_screen_fill_def by (rule redraw_good, rule redraw_foldl) (rule fill_row_redraw)

section \<open>Escape sequences\<close>

lemma sgr_one_still: "still s (fst (sgr_one s i)) \<and> sc_x (fst (sgr_one s i)) = sc_x s \<and> sc_y (fst (sgr_one s i)) = sc_y s \<and>
    sc_saved_x (fst (sgr_one s i)) = sc_saved_x s \<and> sc_saved_y (fst (sgr_one s i)) = sc_saved_y s \<and>
    sc_params (fst (sgr_one s i)) = sc_params s \<and> sc_nparams (fst (sgr_one s i)) = sc_nparams s"
  by (simp add: sgr_one_def Let_def sgr_set_fg_def sgr_set_bg_def swap_nibbles_def still_def)

lemma sgr_good: "good s (sgr_loop s i n)"
proof (induction s i n rule: sgr_loop.induct)
  case (1 s i n)
  obtain s1 k where o: "sgr_one s i = (s1, k)" by (cases "sgr_one s i")
  have "good s s1" using sgr_one_still [of s i] o by (intro still_good) (auto simp: keep_simps)
  then show ?case using 1 o good_trans by (subst sgr_loop.simps) (auto split: prod.splits)
qed

lemma erase_display_good: "good s (erase_display s m)"
  unfolding erase_display_def Let_def
  by (auto intro!: redraw_good intro: redraw_trans fill_row_redraw blank_rows_redraw mark_all_redraw)

lemma erase_line_good: "good s (erase_line s m)"
  unfolding erase_line_def by (auto intro!: redraw_good fill_row_redraw)

lemma u16_small: "0 \<le> i \<Longrightarrow> i < 65536 \<Longrightarrow> u16_of i = nat i"
  by (simp add: u16_of_def)

lemma move_cursor_good: "good s (move_cursor s dx dy)"
proof (rule still_good)
  show "still s (move_cursor s dx dy)" by (simp add: still_def move_cursor_def Let_def)
  assume ok: "screen_ok s"
  then have b: "0 < sc_cols s" "sc_cols s \<le> 240" "0 < sc_rows s" "sc_rows s \<le> 128"
    by (simp_all add: screen_ok_def grid_ok_def AG_SCREEN_MAX_COLS_def AG_SCREEN_MAX_ROWS_def)
  have c: "u16_of (if (if v < 0 then 0 else v) \<ge> int n then int n - 1 else if v < 0 then 0 else v) < n" if "0 < n" "n \<le> 240" for v n
    using that by (auto simp: u16_small)
  show "pos_ok (move_cursor s dx dy) \<and> parse_ok (move_cursor s dx dy)"
    using ok c [of "sc_cols s" "int (sc_x s) + dx"] c [of "sc_rows s" "int (sc_y s) + dy"] b by (simp add: keep_simps move_cursor_def Let_def)
qed

lemma home_good: "good s (s\<lparr>sc_x := 0\<rparr>)"
  by (rule still_good) (auto simp: keep_simps dest: grid_pos)

lemma save_good: "good s (save_cursor s)" and restore_good: "good s (restore_cursor s)"
  by (rule still_good, auto simp: keep_simps save_cursor_def restore_cursor_def)+

lemma csi_good: "good s (csi_dispatch s ch)"
  unfolding csi_dispatch_def apply_sgr_def
  by (simp add: move_cursor_good gotoxy_good erase_display_good erase_line_good sgr_good set_cursor_good save_good restore_good
      redraw_good scroll_up_redraw scroll_down_redraw good_trans [OF move_cursor_good home_good])

lemma state_good: "good s (s\<lparr>sc_state := v\<rparr>)"
  by (rule still_good) (simp_all add: keep_simps)

lemma ground_good: "good s (ground_char s ch)"
proof -
  have "good s (s\<lparr>sc_x := 0, sc_wrap := False\<rparr>)" "good s (s\<lparr>sc_x := (if n \<ge> sc_cols s then sc_cols s - 1 else n), sc_wrap := False\<rparr>)"
    "good s (s\<lparr>sc_x := (if sc_x s > 0 then sc_x s - 1 else sc_x s), sc_wrap := False\<rparr>)" for n
    by (rule still_good, auto simp: keep_simps dest: grid_pos)+
  then show ?thesis unfolding ground_char_def Let_def by (simp only: new_line_good putc_raw_good state_good good_refl split: if_split) simp
qed

lemma esc_good: "good s (esc_char s ch)"
proof -
  have r: "good s ((csi_reset s)\<lparr>sc_state := v\<rparr>)" for v
    by (rule still_good) (auto simp: keep_simps csi_reset_def AG_VT_MAX_PARAMS_def list_all_iff)
  have a: "good s (s\<lparr>sc_attr := AG_ATTR_DEFAULT, sc_reverse := False\<rparr>)" by (rule still_good) (simp_all add: keep_simps)
  have m: "good t (t\<lparr>sc_wrap := False, sc_state := AG_VT_GROUND\<rparr>)" for t by (rule still_good) (simp_all add: keep_simps)
  have u: "good s (s\<lparr>sc_y := sc_y s - 1, sc_wrap := False, sc_state := AG_VT_GROUND\<rparr>)" by (rule still_good) (auto simp: keep_simps)
  have d: "good s ((scroll_down s 1)\<lparr>sc_wrap := False, sc_state := AG_VT_GROUND\<rparr>)"
    by (rule good_trans [OF redraw_good [OF scroll_down_redraw] m])
  show ?thesis unfolding esc_char_def
    by (simp add: r u d state_good good_trans [OF save_good state_good] good_trans [OF restore_good state_good]
        good_trans [OF good_trans [OF a cls_good] state_good] del: One_nat_def)
qed

lemma digit_good:
  assumes "ch \<ge> 0x30" and "ch \<le> 0x39"
  shows "good s (digit_in s ch)"
proof (rule still_good)
  show "still s (digit_in s ch)" by (simp add: still_def digit_in_def Let_def)
  assume ok: "screen_ok s"
  let ?n = "if sc_nparams s = 0 then 1 else sc_nparams s"
  let ?p = "sc_params s ! (?n - 1)"
  have d: "0 \<le> uint ch - 0x30" "uint ch - 0x30 \<le> 9" using assms by (simp_all add: word_le_def)
  have "list_all (\<lambda>p. -1 \<le> p \<and> p \<le> 999999) ((sc_params s)[?n - 1 := v])" if "-1 \<le> v" "v \<le> 999999" for v
    using ok that by (auto simp: keep_simps list_all_iff dest: set_update_subset_insert [THEN subsetD])
  then show "pos_ok (digit_in s ch) \<and> parse_ok (digit_in s ch)" using ok d by (auto simp: keep_simps digit_in_def Let_def AG_VT_MAX_PARAMS_def)
qed

lemma csi_char_good: "good s (csi_char s ch)"
proof -
  have "good s (s\<lparr>sc_nparams := (if n < AG_VT_MAX_PARAMS then n + 1 else n)\<rparr>)" if "n = (if sc_nparams s = 0 then 1 else sc_nparams s)" for n
    using that by (intro still_good) (auto simp: keep_simps AG_VT_MAX_PARAMS_def)
  moreover have "good s (s\<lparr>sc_private := True\<rparr>)" by (rule still_good) (simp_all add: keep_simps)
  moreover have "good s ((csi_dispatch s ch)\<lparr>sc_state := AG_VT_GROUND\<rparr>)" by (rule good_trans [OF csi_good state_good])
  ultimately show ?thesis unfolding csi_char_def Let_def by (simp add: digit_good ground_good)
qed

lemma write_good: "good s (ag_screen_write s buf)"
  unfolding ag_screen_write_def
proof (rule good_foldl)
  show "good s (write_char s ch)" for s ch
    unfolding write_char_def by (cases "sc_state s") (simp_all add: ground_good esc_good csi_char_good state_good)
qed

section \<open>Every run of calls\<close>

text \<open>The calls a client of the screen makes; the last one is the renderers', once they have drawn.\<close>

datatype screen_call =
    Write "u8 list" | Puts "u8 list option" | Putc_raw u8 | Cls | Gotoxy nat nat | Set_attr u8 | Set_cursor bool | Scroll_up nat
  | Poke nat nat u8 u8 | Fill nat nat nat nat u8 u8 | Mark_row nat | Mark_all | Clear_dirty

fun screen_do :: "ag_screen \<Rightarrow> screen_call \<Rightarrow> ag_screen" where
  "screen_do s (Write b) = ag_screen_write s b"
| "screen_do s (Puts b) = ag_screen_puts s b"
| "screen_do s (Putc_raw c) = ag_screen_putc_raw s c"
| "screen_do s Cls = ag_screen_cls s"
| "screen_do s (Gotoxy x y) = ag_screen_gotoxy s x y"
| "screen_do s (Set_attr a) = ag_screen_set_attr s a"
| "screen_do s (Set_cursor v) = ag_screen_set_cursor s v"
| "screen_do s (Scroll_up n) = ag_screen_scroll_up s n"
| "screen_do s (Poke x y c a) = ag_screen_poke s x y c a"
| "screen_do s (Fill x y w h c a) = ag_screen_fill s x y w h c a"
| "screen_do s (Mark_row y) = ag_screen_mark_row_dirty s y"
| "screen_do s Mark_all = ag_screen_mark_all_dirty s"
| "screen_do s Clear_dirty = ag_screen_clear_dirty s"

lemma screen_do_good: "c \<noteq> Clear_dirty \<Longrightarrow> good s (screen_do s c)"
  by (cases c) (auto simp: write_good putc_raw_good cls_good gotoxy_good set_attr_good set_cursor_good redraw_good scroll_up_redraw poke_good
      fill_good mark_row_redraw mark_all_redraw ag_screen_puts_def split: option.splits)

lemma clear_ok: "screen_ok s \<Longrightarrow> screen_ok (ag_screen_clear_dirty s)"
  by (simp add: screen_ok_def grid_ok_def pos_ok_def parse_ok_def ag_screen_clear_dirty_def)

lemma screen_do_ok: "screen_ok s \<Longrightarrow> screen_ok (screen_do s c)"
  using screen_do_good [of c s] clear_ok by (cases "c = Clear_dirty") (auto simp: good_def)

lemma screen_run_ok: "screen_ok s \<Longrightarrow> screen_ok (foldl screen_do s cs)"
  by (induction cs arbitrary: s) (simp_all add: screen_do_ok)

lemma screen_run_tracked: "screen_ok s \<Longrightarrow> Clear_dirty \<notin> set cs \<Longrightarrow> tracked s (foldl screen_do s cs)"
proof (induction cs arbitrary: s)
  case (Cons c cs)
  then have "tracked s (screen_do s c)" "screen_ok (screen_do s c)" using screen_do_good [of c s] by (auto simp: good_def)
  then show ?case using Cons by (auto intro: tracked_trans)
qed simp

lemma cls_spec:
  assumes z: "size_ok s" and y: "y < sc_rows s"
  shows "x < sc_cols s \<Longrightarrow> cell_at (ag_screen_cls s) x y = blank (sc_attr s)" "has_bit (sc_dirty (ag_screen_cls s)) y"
proof -
  have "\<forall>y \<in> set [0..<sc_rows s]. y < sc_rows s" by simp
  note b = blank_rows_spec [OF z this]
  have "keeps_rest s (blank_rows s [0..<sc_rows s])" using b by blast
  note f = frame_fields [OF this]
  show "cell_at (ag_screen_cls s) x y = blank (sc_attr s)" if "x < sc_cols s"
    using b y that by (simp add: ag_screen_cls_def ag_screen_mark_all_dirty_def bump_def cell_at_def f)
  show "has_bit (sc_dirty (ag_screen_cls s)) y"
    using has_bit_all [OF y] by (simp add: ag_screen_cls_def ag_screen_mark_all_dirty_def bump_def f)
qed

text \<open>The memory that an initialised screen is given has room for its cells and its marks.\<close>

lemma init_ok:
  assumes "ag_screen_init hc hb mem n cols rows = Inr s" and "length hc = cols * rows" and "length hb = dirty_words rows"
  shows "screen_ok s \<and> sc_cols s = cols \<and> sc_rows s = rows"
    "y < rows \<Longrightarrow> x < cols \<Longrightarrow> cell_at s x y = blank AG_ATTR_DEFAULT" "y < rows \<Longrightarrow> has_bit (sc_dirty s) y"
proof -
  let ?s = "\<lparr>sc_cells = hc, sc_dirty = hb, sc_cols = cols, sc_rows = rows, sc_x = 0, sc_y = 0, sc_attr = AG_ATTR_DEFAULT,
         sc_visible = True, sc_reverse = False, sc_wrap = False, sc_saved_x = 0, sc_saved_y = 0, sc_saved_attr = AG_ATTR_DEFAULT,
         sc_state = AG_VT_GROUND, sc_params = replicate AG_VT_MAX_PARAMS 0, sc_nparams = 0, sc_private = False, sc_generation = 0, sc_scrolled = 0\<rparr>"
  have s: "s = ag_screen_cls ?s" and c: "0 < cols" "cols \<le> AG_SCREEN_MAX_COLS" "0 < rows" "rows \<le> AG_SCREEN_MAX_ROWS"
    using assms(1) by (auto simp: ag_screen_init_def not_less split: if_splits)
  have ok: "screen_ok ?s" using c assms(2,3) by (simp add: screen_ok_def grid_ok_def pos_ok_def parse_ok_def list_all_iff)
  then show "screen_ok s \<and> sc_cols s = cols \<and> sc_rows s = rows" using cls_good [of ?s] by (simp add: s good_def tracked_def)
  have z: "size_ok ?s" using ok by (simp add: screen_ok_def grid_size)
  show "cell_at s x y = blank AG_ATTR_DEFAULT" if "y < rows" "x < cols" using cls_spec(1) [OF z, of y x] that by (simp add: s)
  show "has_bit (sc_dirty s) y" if "y < rows" using cls_spec(2) [OF z, of y] that by (simp add: s)
qed

section \<open>A resized screen\<close>

lemma copy_row_spec:
  assumes z: "size_ok d" and y: "y < sc_rows d" and w: "wide \<le> sc_cols d"
  shows "size_ok (copy_row src k wide d y)" "redraw d (copy_row src k wide d y)"
    "\<lbrakk>x < sc_cols d; y' < sc_rows d\<rbrakk> \<Longrightarrow>
      cell_at (copy_row src k wide d y) x y' = (if y' = y \<and> x < wide then cell_at src x (y + k) else cell_at d x y')"
proof -
  let ?g = "\<lambda>x. cell_at src x (y + k)"
  define r where "r = foldl (\<lambda>d x. set_cell d x y (?g x)) d [0..<wide]"
  have c: "copy_row src k wide d y = ag_screen_mark_row_dirty r y" by (simp add: copy_row_def r_def)
  note f = run_frame [where g = ?g and xs = "[0..<wide]" and s = d and y = y, folded r_def]
  have yr: "y < sc_rows r" using y f(4) by simp
  note m = mark_frame(2-5) [of r y] mark_frame(6) [OF yr] mark_frame(7) [of r y]
  show cell: "cell_at (copy_row src k wide d y) x y' = (if y' = y \<and> x < wide then ?g x else cell_at d x y')" if "x < sc_cols d" "y' < sc_rows d" for x y'
    using run_cell [OF z y w that, of ?g 0, folded r_def] by (simp add: c m)
  show "size_ok (copy_row src k wide d y)" using z by (simp add: size_ok_def c m f)
  show "redraw d (copy_row src k wide d y)"
    by (rule row_change [OF _ _ _ y]) (simp_all add: cell, simp_all add: c m f frame_trans [OF f(1) mark_frame(1)])
qed

lemma copy_rows_spec:
  assumes z: "size_ok d" and w: "wide \<le> sc_cols d" and n: "n \<le> sc_rows d"
  shows "let d' = foldl (copy_row src k wide) d [0..<n] in size_ok d' \<and> redraw d d' \<and>
    (\<forall>x < sc_cols d. \<forall>y < sc_rows d. cell_at d' x y = (if y < n \<and> x < wide then cell_at src x (y + k) else cell_at d x y))"
  using n
proof (induction n)
  case (Suc n)
  define e where "e = foldl (copy_row src k wide) d [0..<n]"
  have e: "size_ok e" "redraw d e"
    "\<And>x y. x < sc_cols d \<Longrightarrow> y < sc_rows d \<Longrightarrow> cell_at e x y = (if y < n \<and> x < wide then cell_at src x (y + k) else cell_at d x y)"
    using Suc by (simp_all add: e_def Let_def)
  then have f: "sc_cols e = sc_cols d" "sc_rows e = sc_rows d" using frame_fields [of d e] by (simp_all add: redraw_def)
  have "n < sc_rows e" "wide \<le> sc_cols e" using Suc.prems w f by simp_all
  note c = copy_row_spec [OF e(1) this, where src = src and k = k]
  have "foldl (copy_row src k wide) d [0..<Suc n] = copy_row src k wide e n" by (simp add: e_def)
  then show ?case using c(1) redraw_trans [OF e(2) c(2)] c(3) e(3) by (auto simp: Let_def f less_Suc_eq)
qed (simp add: z)

text \<open>The first row that is kept.\<close>

definition kept_from :: "ag_screen \<Rightarrow> nat \<Rightarrow> nat" where
  "kept_from src rows = (let keep = min rows (sc_rows src) in if sc_y src \<ge> keep then sc_y src + 1 - keep else 0)"

lemma kept_all: "sc_y src < sc_rows src \<Longrightarrow>
    takeWhile (\<lambda>y. y + kept_from src rows < sc_rows src) [0..<min rows (sc_rows src)] = [0..<min rows (sc_rows src)]"
  by (auto simp: takeWhile_eq_all_conv kept_from_def Let_def)

lemma recreate_eq:
  assumes "sc_y src < sc_rows src"
  shows "ag_screen_recreate hc hb mem n cols rows (Some src) =
    (case ag_screen_init hc hb mem n cols rows of Inl e \<Rightarrow> Inl e
     | Inr next0 \<Rightarrow> let k = kept_from src rows in
         Inr ((foldl (copy_row src k (min cols (sc_cols src))) next0 [0..<min rows (sc_rows src)])
           \<lparr>sc_attr := sc_attr src, sc_saved_attr := sc_saved_attr src, sc_visible := sc_visible src,
            sc_x := (if sc_x src < cols then sc_x src else cols - 1), sc_y := (if sc_y src - k \<ge> rows then rows - 1 else sc_y src - k),
            sc_generation := sc_generation src + 1\<rparr>))"
proof -
  have m: "(if a < b then a else b) = min a b" for a b :: nat by simp
  have k: "(if sc_y src \<ge> min rows (sc_rows src) then sc_y src + 1 - min rows (sc_rows src) else 0) = kept_from src rows"
    by (simp add: kept_from_def Let_def)
  show ?thesis by (simp only: ag_screen_recreate_def option.case Let_def m k kept_all [OF assms])
qed

lemma recreate_spec:
  assumes r: "ag_screen_recreate hc hb mem n cols rows (Some src) = Inr s" and src: "screen_ok src"
    and m: "length hc = cols * rows" "length hb = dirty_words rows"
  shows "screen_ok s" "sc_cols s = cols" "sc_rows s = rows" "sc_y s + kept_from src rows = sc_y src" "sc_x s = min (sc_x src) (cols - 1)"
    "\<lbrakk>x < cols; y < rows\<rbrakk> \<Longrightarrow> cell_at s x y =
      (if y < sc_rows src \<and> x < sc_cols src then cell_at src x (y + kept_from src rows) else blank AG_ATTR_DEFAULT)"
    "\<lbrakk>y < rows; y < sc_rows src\<rbrakk> \<Longrightarrow> y + kept_from src rows < sc_rows src"
    "\<forall>y < rows. ag_screen_row_dirty s y"
proof -
  let ?k = "kept_from src rows" let ?w = "min cols (sc_cols src)" let ?n = "min rows (sc_rows src)"
  have y: "sc_y src < sc_rows src" and x: "sc_x src < sc_cols src" and p: "parse_ok src" using src by (simp_all add: screen_ok_def pos_ok_def)
  obtain s0 where s0: "ag_screen_init hc hb mem n cols rows = Inr s0"
    using r by (cases "ag_screen_init hc hb mem n cols rows") (simp_all add: recreate_eq [OF y])
  define d where "d = foldl (copy_row src ?k ?w) s0 [0..<?n]"
  have s: "s = d\<lparr>sc_attr := sc_attr src, sc_saved_attr := sc_saved_attr src, sc_visible := sc_visible src,
      sc_x := (if sc_x src < cols then sc_x src else cols - 1), sc_y := (if sc_y src - ?k \<ge> rows then rows - 1 else sc_y src - ?k),
      sc_generation := sc_generation src + 1\<rparr>" using r s0 by (simp add: recreate_eq [OF y] d_def Let_def)
  note i = init_ok [OF s0 m]
  have z: "size_ok s0" "?w \<le> sc_cols s0" "?n \<le> sc_rows s0" using i by (simp_all add: screen_ok_def grid_size)
  note c = copy_rows_spec [OF z, of src ?k, folded d_def, unfolded Let_def]
  have f: "keeps_rest s0 d" using c by (simp add: redraw_def)
  note ff = frame_fields [OF f]
  have pos: "0 < cols" "0 < rows" using i grid_pos [of s0] by (simp_all add: screen_ok_def)
  show kc: "sc_cols s = cols" "sc_rows s = rows" using i by (simp_all add: s ff)
  show ky: "sc_y s + ?k = sc_y src" using y pos by (auto simp: s kept_from_def Let_def)
  show "sc_x s = min (sc_x src) (cols - 1)" using pos by (auto simp: s)
  show "y + ?k < sc_rows src" if "y < rows" "y < sc_rows src" for y using that y by (auto simp: kept_from_def Let_def)
  have g: "grid_ok d" "tracked s0 d" using c i(1) by (simp_all add: redraw_def screen_ok_def)
  have "grid_ok s" using g(1) by (simp add: s grid_ok_def)
  moreover have "pos_ok s" using i(1) ky y pos kc unfolding pos_ok_def by (auto simp: s ff screen_ok_def pos_ok_def)
  moreover have "parse_ok s" using i(1) by (simp add: s screen_ok_def parse_ok_def ff)
  ultimately show "screen_ok s" by (simp add: screen_ok_def)
  have "has_bit (sc_dirty d) y" if "y < rows" for y using g(2) i(1,3) that unfolding tracked_def by blast
  then show "\<forall>y < rows. ag_screen_row_dirty s y" using i(1) by (simp add: ag_screen_row_dirty_def s ff)
  show "cell_at s x y = (if y < sc_rows src \<and> x < sc_cols src then cell_at src x (y + ?k) else blank AG_ATTR_DEFAULT)" if "x < cols" "y < rows" for x y
  proof -
    have "cell_at s x y = cell_at d x y" by (simp add: s cell_at_def)
    then show ?thesis using c i(1) i(2) [OF that(2,1)] that by simp
  qed
qed

section \<open>The marks\<close>

lemma clear_tracked:
  assumes "screen_ok s" and "Clear_dirty \<notin> set cs" and "s' = foldl screen_do (ag_screen_clear_dirty s) cs"
    and "y < sc_rows s" and "\<not> ag_screen_row_dirty s' y"
  shows "y + sc_scrolled s' < sc_rows s \<and> (\<forall>x < sc_cols s. cell_at s' x y = cell_at s x (y + sc_scrolled s'))"
proof -
  let ?c = "ag_screen_clear_dirty s"
  have c: "sc_rows ?c = sc_rows s" "sc_cols ?c = sc_cols s" "sc_scrolled ?c = 0" "cell_at ?c = cell_at s"
    by (simp_all add: ag_screen_clear_dirty_def cell_at_def fun_eq_iff)
  have t: "tracked ?c s'" unfolding assms(3) by (rule screen_run_tracked [OF clear_ok [OF assms(1)] assms(2)])
  then have "\<not> has_bit (sc_dirty s') y" using assms(4,5) c by (simp add: ag_screen_row_dirty_def tracked_def)
  then show ?thesis using t assms(4) c unfolding tracked_def by auto
qed

section \<open>The operating system command\<close>

lemma osc_text: "sc_state s = AG_VT_OSC \<Longrightarrow> 0x07 \<notin> set t \<Longrightarrow> 0x1B \<notin> set t \<Longrightarrow> foldl write_char s t = s"
  by (induction t) (auto simp: write_char_def)

lemma osc_spec:
  assumes "sc_state s = AG_VT_GROUND" and "0x07 \<notin> set t" and "0x1B \<notin> set t"
  shows "ag_screen_write s ([0x1B, 0x5D] @ t @ [0x07] @ u) = ag_screen_write s u"
    "ag_screen_write s ([0x1B, 0x5D] @ t @ [0x1B, 0x5C] @ u) = ag_screen_write s (0x5C # u)"
proof -
  let ?o = "s\<lparr>sc_state := AG_VT_OSC\<rparr>"
  have "write_char (write_char s 0x1B) 0x5D = ?o" using assms(1) by (simp add: write_char_def ground_char_def esc_char_def)
  moreover have "foldl write_char ?o t = ?o" by (rule osc_text) (simp_all add: assms)
  moreover have "write_char ?o 0x07 = s" "write_char ?o 0x1B = s" using assms(1) by (simp_all add: write_char_def)
  ultimately show "ag_screen_write s ([0x1B, 0x5D] @ t @ [0x07] @ u) = ag_screen_write s u"
    "ag_screen_write s ([0x1B, 0x5D] @ t @ [0x1B, 0x5C] @ u) = ag_screen_write s (0x5C # u)" by (simp_all add: ag_screen_write_def)
qed

section \<open>Properties\<close>

text \<open>
  C15. A screen that was initialised in memory of the size it asks for keeps its invariant under every sequence of calls, whatever bytes
  are written to it: the cells and marks keep their number, the cursor and the saved cursor stay inside the grid, at most eight
  parameters of a sequence are stored and none of them overflows. So no cell, mark or parameter is accessed outside its array.
\<close>

theorem screen_safe:
  assumes "ag_screen_init hc hb mem n cols rows = Inr s" and "length hc = cols * rows" and "length hb = dirty_words rows"
  shows "screen_ok (foldl screen_do s cs)"
  using screen_run_ok init_ok(1) [OF assms] by blast

theorem screen_safe_witness:
  "\<exists>s. ag_screen_init (replicate 8 (blank 0)) [0] 4 20 4 2 = Inr s \<and> screen_ok (foldl screen_do s [Write [0x1B, 0x5B, 0x39], Cls])"
proof -
  obtain s where s: "ag_screen_init (replicate 8 (blank 0)) [0] 4 20 4 2 = Inr s"
    by (simp add: ag_screen_init_def AG_SCREEN_MAX_COLS_def AG_SCREEN_MAX_ROWS_def ag_screen_memsize_def dirty_words_def)
  show ?thesis using screen_safe [OF s, of "[Write [0x1B, 0x5B, 0x39], Cls]"] s by (simp add: dirty_words_def)
qed

text \<open>
  C16. The marks are enough to draw by. Whatever calls were made since the marks were cleared, a row that is not marked shows what stood
  before, cell for cell, on the row that is as many rows lower as the screen has counted lines of scrolling, and that row was on the
  screen: scrolling the old picture by the count and repainting the marked rows gives the new picture.
\<close>

theorem screen_damage:
  assumes "screen_ok s" and "Clear_dirty \<notin> set cs" and "s' = foldl screen_do (ag_screen_clear_dirty s) cs"
    and "y < sc_rows s" and "\<not> ag_screen_row_dirty s' y"
  shows "y + sc_scrolled s' < sc_rows s \<and> (\<forall>x < sc_cols s. cell_at s' x y = cell_at s x (y + sc_scrolled s'))"
  by (rule clear_tracked [OF assms])

definition shown :: ag_screen where
  "shown = \<lparr>sc_cells = replicate 8 (blank 0x07), sc_dirty = [0], sc_cols = 4, sc_rows = 2, sc_x = 0, sc_y = 1, sc_attr = 0x07, sc_visible = True,
     sc_reverse = False, sc_wrap = False, sc_saved_x = 0, sc_saved_y = 0, sc_saved_attr = 0x07, sc_state = AG_VT_GROUND,
     sc_params = replicate AG_VT_MAX_PARAMS 0, sc_nparams = 0, sc_private = False, sc_generation = 0, sc_scrolled = 0\<rparr>"

lemma shown_ok: "screen_ok shown"
  by (simp add: shown_def screen_ok_def grid_ok_def pos_ok_def parse_ok_def dirty_words_def AG_SCREEN_MAX_COLS_def AG_SCREEN_MAX_ROWS_def list_all_iff)

theorem screen_damage_witness:
  "let s' = foldl screen_do (ag_screen_clear_dirty shown) [Write [0x0A, 0x41]] in
   \<not> ag_screen_row_dirty s' 0 \<and> sc_scrolled s' = 1 \<and> (\<forall>x < sc_cols shown. cell_at s' x 0 = cell_at shown x (0 + sc_scrolled s'))"
proof -
  define s' where "s' = foldl screen_do (ag_screen_clear_dirty shown) [Write [0x0A, 0x41]]"
  have d: "\<not> ag_screen_row_dirty s' 0 \<and> sc_scrolled s' = 1 \<and> 0 < sc_rows shown" unfolding s'_def by code_simp
  then show ?thesis unfolding s'_def [symmetric] Let_def using screen_damage [OF shown_ok _ s'_def, of 0] by simp
qed

text \<open>
  A resize keeps the picture and the cursor's row. When the new screen could be made, it satisfies the invariant, the row of the cursor
  is the row it was, every cell of the new grid holds the cell of the kept rows or is blank, all rows are marked, and the rows kept are the
  first ones unless the cursor would fall off, and then the ones that end at it.
\<close>

theorem screen_resize:
  assumes "ag_screen_recreate hc hb mem n cols rows (Some src) = Inr s" and "screen_ok src"
    and "length hc = cols * rows" "length hb = dirty_words rows"
  shows "screen_ok s \<and> sc_cols s = cols \<and> sc_rows s = rows \<and>
    (\<exists>k. sc_y s + k = sc_y src \<and> sc_x s = min (sc_x src) (cols - 1) \<and> (k = 0 \<or> sc_y s + 1 = min rows (sc_rows src)) \<and>
      (\<forall>y < rows. ag_screen_row_dirty s y \<and> (\<forall>x < cols. cell_at s x y =
        (if y + k < sc_rows src \<and> y < sc_rows src \<and> x < sc_cols src then cell_at src x (y + k) else blank AG_ATTR_DEFAULT))))"
proof -
  note r = recreate_spec [OF assms]
  define m where "m = min rows (sc_rows src)"
  have "kept_from src rows = 0 \<or> sc_y s + 1 = m" using r(4) unfolding kept_from_def m_def [symmetric] Let_def by (auto split: if_splits)
  then show ?thesis using r by (intro conjI exI [of _ "kept_from src rows"]) (auto simp: m_def)
qed

theorem screen_resize_witness:
  "\<exists>s. ag_screen_recreate (replicate 4 (blank 0)) [0] 4 12 4 1 (Some shown) = Inr s \<and> sc_rows s = 1 \<and> screen_ok s"
proof -
  obtain s where s: "ag_screen_recreate (replicate 4 (blank 0)) [0] 4 12 4 1 (Some shown) = Inr s"
    by (simp add: ag_screen_recreate_def ag_screen_init_def AG_SCREEN_MAX_COLS_def AG_SCREEN_MAX_ROWS_def ag_screen_memsize_def dirty_words_def Let_def)
  show ?thesis using screen_resize [OF s shown_ok] s by (simp add: dirty_words_def)
qed

text \<open>
  A command to the terminal's window (\<open>ESC ]\<close>) that ends in a bell is swallowed whole; one that ends in the string terminator
  \<open>ESC \\<close> is swallowed but for the backslash, which is printed as text.
\<close>

theorem screen_osc:
  assumes "sc_state s = AG_VT_GROUND" and "0x07 \<notin> set t" and "0x1B \<notin> set t"
  shows "ag_screen_write s ([0x1B, 0x5D] @ t @ [0x07] @ u) = ag_screen_write s u \<and>
    ag_screen_write s ([0x1B, 0x5D] @ t @ [0x1B, 0x5C] @ u) = ag_screen_write s (0x5C # u)"
  using osc_spec [OF assms] by simp

theorem screen_osc_witness:
  "ag_screen_write shown [0x1B, 0x5D, 0x30, 0x07] = shown \<and> cell_at (ag_screen_write shown [0x1B, 0x5D, 0x30, 0x1B, 0x5C]) 0 1 = \<lparr>c_ch = 0x5C, c_attr = 0x07\<rparr>"
proof -
  have g: "sc_state shown = AG_VT_GROUND" by (simp add: shown_def)
  have "cell_at (ag_screen_write shown [0x5C]) 0 1 = \<lparr>c_ch = 0x5C, c_attr = 0x07\<rparr>" by code_simp
  then show ?thesis using screen_osc [OF g, of "[0x30]" "[]"] by (simp add: ag_screen_write_def)
qed

end
