(* ===== verification/VtOut.thy ===== *)
theory VtOut
  imports Codepage ScreenInv
begin

text \<open>
  \<open>console/vtout.c\<close>: how a screen goes out to a terminal. Each endpoint keeps the rows it has yet to send, the scrolling it has yet to
  tell, and what it believes of the terminal; a flush writes the bytes that bring the terminal up to date. The sink is the list of blocks it
  is called with. The active code page is an argument.
\<close>

section \<open>Output buffering\<close>

record emitter_t =
  em_sunk :: "u8 list list"
  em_buf :: "u8 list"

definition EMIT_BUF :: nat where "EMIT_BUF = 96"

definition emit_drain :: "emitter_t \<Rightarrow> emitter_t" where
  "emit_drain e = (if length (em_buf e) > 0 then \<lparr>em_sunk = em_sunk e @ [em_buf e], em_buf = []\<rparr> else e)"

definition emit_char :: "emitter_t \<Rightarrow> u8 \<Rightarrow> emitter_t" where
  "emit_char e c = (let e1 = (if length (em_buf e) = EMIT_BUF then emit_drain e else e) in e1\<lparr>em_buf := em_buf e1 @ [c]\<rparr>)"

definition emit :: "emitter_t \<Rightarrow> u8 list \<Rightarrow> emitter_t" where
  "emit e data = foldl emit_char e data"

text \<open>The digits of a number, the last one first, and how many there is room for.\<close>

primrec tmp_digits :: "nat \<Rightarrow> nat \<Rightarrow> u8 list" where
  "tmp_digits 0 v = []"
| "tmp_digits (Suc room) v = of_nat (0x30 + v mod 10) # (if v div 10 \<noteq> 0 then tmp_digits room (v div 10) else [])"

definition emit_uint :: "emitter_t \<Rightarrow> nat \<Rightarrow> emitter_t" where
  "emit_uint e v = foldl emit_char e (rev (tmp_digits 10 v))"

definition emit_goto :: "emitter_t \<Rightarrow> nat \<Rightarrow> nat \<Rightarrow> emitter_t" where
  "emit_goto e x y = emit_char (emit_uint (emit_char (emit_uint (emit e [0x1B, 0x5B]) (y + 1)) 0x3B) (x + 1)) 0x48"

definition k_cga_to_ansi :: "nat list" where
  "k_cga_to_ansi = [0, 4, 2, 6, 1, 5, 3, 7]"

definition emit_attr :: "emitter_t \<Rightarrow> u8 \<Rightarrow> emitter_t" where
  "emit_attr e attr =
     (let fg = attr AND 0x07; bg = drop_bit 4 attr AND 0x07; fg_bright = attr AND 0x08 \<noteq> 0; bg_bright = attr AND 0x80 \<noteq> 0;
          e1 = emit e [0x1B, 0x5B, 0x30];
          e2 = (if fg_bright then emit e1 [0x3B, 0x39] else emit e1 [0x3B, 0x33]);
          e3 = emit_uint e2 (k_cga_to_ansi ! unat fg);
          e4 = (if bg \<noteq> 0 \<or> bg_bright then emit_uint (emit e3 (if bg_bright then [0x3B, 0x31, 0x30] else [0x3B, 0x34])) (k_cga_to_ansi ! unat bg) else e3)
      in emit_char e4 0x6D)"

section \<open>An endpoint\<close>

record ag_vtout =
  vo_dirty :: "u32 list"
  vo_last_x :: nat
  vo_last_y :: nat
  vo_attr :: u8
  vo_visible :: bool
  vo_synced :: bool
  vo_cols :: nat
  vo_rows :: nat
  vo_scroll :: nat
  vo_region :: nat

definition AG_VT_X_UNKNOWN :: nat where "AG_VT_X_UNKNOWN = 0xffff"

definition VO_WORDS :: nat where "VO_WORDS = 4"

definition row_pending :: "ag_vtout \<Rightarrow> nat \<Rightarrow> bool" where
  "row_pending ep y = has_bit (vo_dirty ep) y"

definition ag_vtout_init :: ag_vtout where
  "ag_vtout_init = \<lparr>vo_dirty = replicate VO_WORDS 0, vo_last_x = AG_VT_X_UNKNOWN, vo_last_y = 0, vo_attr = AG_ATTR_DEFAULT, vo_visible = True,
     vo_synced = False, vo_cols = 0, vo_rows = 0, vo_scroll = 0, vo_region = 0\<rparr>"

definition ag_vtout_mark_all :: "ag_vtout \<Rightarrow> ag_vtout" where
  "ag_vtout_mark_all ep = ep\<lparr>vo_dirty := replicate VO_WORDS 0xffffffff, vo_synced := False, vo_scroll := 0\<rparr>"

definition shift_pending_up :: "ag_vtout \<Rightarrow> nat \<Rightarrow> nat \<Rightarrow> ag_vtout" where
  "shift_pending_up ep rows lines = ep\<lparr>vo_dirty := shift_bits rows lines (vo_dirty ep)\<rparr>"

definition smaller :: "nat \<Rightarrow> nat \<Rightarrow> nat" where
  "smaller own whole = (if own \<noteq> 0 \<and> own < whole then own else whole)"

definition ag_vtout_take_dirty :: "ag_vtout \<Rightarrow> ag_screen \<Rightarrow> ag_vtout" where
  "ag_vtout_take_dirty ep s =
     (let rows = smaller (vo_rows ep) (sc_rows s); moved = ag_screen_scrolled (Some s); total = vo_scroll ep + moved;
          ep1 = (if moved > 0 then
                   if \<not> ag_screen_scroll_usable (Some s) \<or> moved \<ge> rows \<or> total \<ge> rows then ag_vtout_mark_all ep
                   else (shift_pending_up ep rows moved)\<lparr>vo_scroll := total\<rparr>
                 else ep)
      in ep1\<lparr>vo_dirty := foldl (\<lambda>d i. d[i := d ! i OR sc_dirty s ! i]) (vo_dirty ep1) [0..<min (dirty_words (sc_rows s)) VO_WORDS]\<rparr>)"

definition ag_vtout_pending :: "ag_vtout \<Rightarrow> bool" where
  "ag_vtout_pending ep = list_ex (\<lambda>w. w \<noteq> 0) (vo_dirty ep)"

definition row_done :: "ag_vtout \<Rightarrow> nat \<Rightarrow> ag_vtout" where
  "row_done ep y = ep\<lparr>vo_dirty := clear_bit (vo_dirty ep) y\<rparr>"

section \<open>Rendering\<close>

definition row_extent :: "ag_cell list \<Rightarrow> nat \<Rightarrow> nat" where
  "row_extent row cols =
     foldl (\<lambda>extent x. if c_ch (row ! x) \<noteq> 0x20 \<or> c_attr (row ! x) \<noteq> AG_ATTR_DEFAULT then x + 1 else extent) 0 [0..<cols]"

definition emit_cell :: "ag_cp option \<Rightarrow> emitter_t \<Rightarrow> u8 \<Rightarrow> emitter_t" where
  "emit_cell cp e ch =
     (if ch < 0x20 \<or> ch = 0x7f then emit_char e 0x20
      else if ch < 0x80 then emit_char e ch
      else
        let u = ag_cp_to_unicode cp ch; utf8 = (if u \<noteq> 0 then ag_utf8_encode u else [])
        in if length utf8 > 0 then emit e utf8 else emit_char e 0x20)"

definition use_attr :: "u8 \<Rightarrow> ag_vtout \<times> emitter_t \<Rightarrow> ag_vtout \<times> emitter_t" where
  "use_attr attr = (\<lambda>(ep, e). if attr \<noteq> vo_attr ep then (ep\<lparr>vo_attr := attr\<rparr>, emit_attr e attr) else (ep, e))"

definition render_cell :: "ag_cp option \<Rightarrow> ag_cell list \<Rightarrow> ag_vtout \<times> emitter_t \<Rightarrow> nat \<Rightarrow> ag_vtout \<times> emitter_t" where
  "render_cell cp row oe x = (case use_attr (c_attr (row ! x)) oe of (ep, e) \<Rightarrow> (ep, emit_cell cp e (c_ch (row ! x))))"

definition render_row :: "ag_cp option \<Rightarrow> ag_screen \<Rightarrow> nat \<Rightarrow> nat \<Rightarrow> ag_vtout \<times> emitter_t \<Rightarrow> ag_vtout \<times> emitter_t" where
  "render_row cp s y cols = (\<lambda>(ep, e).
     case ag_screen_row s y of
       None \<Rightarrow> (ep, e)
     | Some row \<Rightarrow>
         let extent = row_extent row cols;
             oe1 = foldl (render_cell cp row) (ep\<lparr>vo_last_y := y\<rparr>, emit_goto e 0 y) [0..<extent];
             oe2 = (if extent < cols then case use_attr AG_ATTR_DEFAULT oe1 of (ep2, e2) \<Rightarrow> (ep2, emit e2 [0x1B, 0x5B, 0x4B]) else oe1)
         in (fst oe2\<lparr>vo_last_x := AG_VT_X_UNKNOWN\<rparr>, snd oe2))"

text \<open>The parts of a flush: what a terminal is told first, the scrolling, the rows, the cursor.\<close>

definition flush_sync :: "ag_vtout \<times> emitter_t \<Rightarrow> ag_vtout \<times> emitter_t" where
  "flush_sync = (\<lambda>(ep, e).
     if \<not> vo_synced ep then
       (ep\<lparr>vo_attr := AG_ATTR_DEFAULT, vo_visible := False, vo_synced := True, vo_scroll := 0\<rparr>,
        emit e [0x1B, 0x5B, 0x3F, 0x32, 0x35, 0x6C, 0x1B, 0x5B, 0x30, 0x6D])
     else (ep, e))"

definition set_region :: "nat \<Rightarrow> ag_vtout \<times> emitter_t \<Rightarrow> ag_vtout \<times> emitter_t" where
  "set_region rows = (\<lambda>(ep, e).
     if vo_region ep \<noteq> rows then (ep\<lparr>vo_region := rows\<rparr>, emit_char (emit_uint (emit e [0x1B, 0x5B, 0x31, 0x3B]) rows) 0x72) else (ep, e))"

definition flush_scroll :: "nat \<Rightarrow> ag_vtout \<times> emitter_t \<Rightarrow> ag_vtout \<times> emitter_t" where
  "flush_scroll rows oe =
     (let n = vo_scroll (fst oe);
          oe1 = (if n > 0 \<and> n < rows then
                   case use_attr AG_ATTR_DEFAULT (set_region rows oe) of (ep1, e1) \<Rightarrow>
                     (ep1\<lparr>vo_last_x := 0, vo_last_y := rows - 1\<rparr>, foldl (\<lambda>e _. emit_char e 0x0A) (emit_goto e1 0 (rows - 1)) [0..<n])
                 else oe)
      in ((fst oe1)\<lparr>vo_scroll := 0\<rparr>, snd oe1))"

definition flush_row :: "ag_cp option \<Rightarrow> ag_screen \<Rightarrow> nat \<Rightarrow> ag_vtout \<times> emitter_t \<Rightarrow> nat \<Rightarrow> ag_vtout \<times> emitter_t" where
  "flush_row cp s cols oe y =
     (if row_pending (fst oe) y then case render_row cp s y cols oe of (ep1, e1) \<Rightarrow> (row_done ep1 y, e1) else oe)"

definition put_cursor :: "nat \<Rightarrow> nat \<Rightarrow> ag_vtout \<times> emitter_t \<Rightarrow> ag_vtout \<times> emitter_t" where
  "put_cursor cx cy = (\<lambda>(ep, e).
     if vo_last_x ep \<noteq> cx \<or> vo_last_y ep \<noteq> cy then (ep\<lparr>vo_last_x := cx, vo_last_y := cy\<rparr>, emit_goto e cx cy) else (ep, e))"

definition show_cursor :: "bool \<Rightarrow> ag_vtout \<times> emitter_t \<Rightarrow> ag_vtout \<times> emitter_t" where
  "show_cursor v = (\<lambda>(ep, e).
     if vo_visible ep \<noteq> v then (ep\<lparr>vo_visible := v\<rparr>, emit e [0x1B, 0x5B, 0x3F, 0x32, 0x35, if v then 0x68 else 0x6C]) else (ep, e))"

definition flush_cursor :: "ag_screen \<Rightarrow> nat \<Rightarrow> nat \<Rightarrow> ag_vtout \<times> emitter_t \<Rightarrow> ag_vtout \<times> emitter_t" where
  "flush_cursor s cols rows oe =
     show_cursor (sc_visible s) (put_cursor (if sc_x s < cols then sc_x s else cols - 1) (if sc_y s < rows then sc_y s else rows - 1) oe)"

definition ag_vtout_flush :: "ag_cp option \<Rightarrow> ag_vtout \<Rightarrow> ag_screen \<Rightarrow> ag_vtout \<times> u8 list list" where
  "ag_vtout_flush cp ep s =
     (let cols = smaller (vo_cols ep) (sc_cols s); rows = smaller (vo_rows ep) (sc_rows s);
          oe1 = flush_scroll rows (flush_sync (ep, \<lparr>em_sunk = [], em_buf = []\<rparr>));
          oe2 = foldl (flush_row cp s cols) oe1 [0..<rows];
          ep3 = foldl row_done (fst oe2) [rows..<AG_SCREEN_MAX_ROWS];
          oe4 = flush_cursor s cols rows (ep3, snd oe2)
      in (fst oe4, em_sunk (emit_drain (snd oe4))))"

definition ag_vtout_hello :: "bool \<Rightarrow> ag_vtout \<times> u8 list list" where
  "ag_vtout_hello key_events =
     (let e1 = emit \<lparr>em_sunk = [], em_buf = []\<rparr>
            ([0x1B, 0x5B, 0x30, 0x6D] @ [0x1B, 0x5B, 0x72] @ [0x1B, 0x5B, 0x3F, 0x37, 0x68] @ [0x1B, 0x5B, 0x32, 0x4A] @ [0x1B, 0x5B, 0x48] @
             [0x1B, 0x5B, 0x3F, 0x32, 0x35, 0x68]);
          e2 = (if key_events then emit (emit e1 [0x1B, 0x5B, 0x3E, 0x33, 0x75]) [0x1B, 0x5B, 0x3F, 0x39, 0x30, 0x30, 0x31, 0x68] else e1)
      in (ag_vtout_mark_all ag_vtout_init, em_sunk (emit_drain e2)))"

definition ag_vtout_goodbye :: "u8 list list" where
  "ag_vtout_goodbye =
     em_sunk (emit_drain (emit \<lparr>em_sunk = [], em_buf = []\<rparr>
       ([0x1B, 0x5B, 0x30, 0x6D] @ [0x1B, 0x5B, 0x72] @ [0x1B, 0x5B, 0x3F, 0x32, 0x35, 0x68] @ [0x0D, 0x0A])))"

section \<open>What was emitted\<close>

definition emitted :: "emitter_t \<Rightarrow> u8 list" where
  "emitted e = concat (em_sunk e) @ em_buf e"

lemma emitted_char [simp]: "emitted (emit_char e c) = emitted e @ [c]"
  by (simp add: emitted_def emit_char_def emit_drain_def Let_def)

lemma emitted_chars [simp]: "emitted (foldl emit_char e cs) = emitted e @ cs"
  by (induction cs arbitrary: e) simp_all

lemma emitted_emit [simp]: "emitted (emit e cs) = emitted e @ cs"
  by (simp add: emit_def)

lemma emitted_uint [simp]: "emitted (emit_uint e v) = emitted e @ rev (tmp_digits 10 v)"
  by (simp add: emit_uint_def)

lemma emitted_drain: "concat (em_sunk (emit_drain e)) = emitted e"
  by (simp add: emitted_def emit_drain_def)

definition goto_text :: "nat \<Rightarrow> nat \<Rightarrow> u8 list" where
  "goto_text x y = [0x1B, 0x5B] @ rev (tmp_digits 10 (y + 1)) @ [0x3B] @ rev (tmp_digits 10 (x + 1)) @ [0x48]"

lemma emitted_goto [simp]: "emitted (emit_goto e x y) = emitted e @ goto_text x y"
  by (simp add: emit_goto_def goto_text_def)

definition attr_text :: "u8 \<Rightarrow> u8 list" where
  "attr_text a = emitted (emit_attr \<lparr>em_sunk = [], em_buf = []\<rparr> a)"

lemma emitted_attr [simp]: "emitted (emit_attr e a) = emitted e @ attr_text a"
proof -
  have "emitted \<lparr>em_sunk = [], em_buf = []\<rparr> = []" by (simp add: emitted_def)
  then show ?thesis by (simp add: attr_text_def emit_attr_def Let_def)
qed

text \<open>Every block is at most as large as the buffer.\<close>

definition sunk_ok :: "emitter_t \<Rightarrow> bool" where
  "sunk_ok e \<longleftrightarrow> length (em_buf e) \<le> EMIT_BUF \<and> (\<forall>b \<in> set (em_sunk e). 0 < length b \<and> length b \<le> EMIT_BUF)"

lemma blocks_char: "sunk_ok e \<Longrightarrow> sunk_ok (emit_char e c)"
  by (auto simp: sunk_ok_def emit_char_def emit_drain_def Let_def EMIT_BUF_def)

lemma blocks_chars: "sunk_ok e \<Longrightarrow> sunk_ok (foldl emit_char e cs)"
  by (induction cs arbitrary: e) (simp_all add: blocks_char)

lemma blocks_emit: "sunk_ok e \<Longrightarrow> sunk_ok (emit e cs)" "sunk_ok e \<Longrightarrow> sunk_ok (emit_uint e v)" "sunk_ok e \<Longrightarrow> sunk_ok (emit_goto e x y)"
  "sunk_ok e \<Longrightarrow> sunk_ok (emit_attr e a)" "sunk_ok e \<Longrightarrow> sunk_ok (emit_cell cp e ch)"
  by (simp_all add: emit_def emit_uint_def emit_goto_def emit_attr_def emit_cell_def Let_def blocks_chars blocks_char)

lemma blocks_pairs:
  assumes "sunk_ok (snd oe)"
  shows "sunk_ok (snd (use_attr a oe))" "sunk_ok (snd (set_region r oe))" "sunk_ok (snd (flush_sync oe))" "sunk_ok (snd (put_cursor x y oe))"
    "sunk_ok (snd (show_cursor v oe))" "sunk_ok (snd (render_cell cp row oe x))"
  using assms by (auto simp: use_attr_def set_region_def flush_sync_def put_cursor_def show_cursor_def render_cell_def case_prod_beta intro!: blocks_emit blocks_char)

lemma blocks_pair_foldl: "(\<And>oe x. sunk_ok (snd oe) \<Longrightarrow> sunk_ok (snd (g oe x))) \<Longrightarrow> sunk_ok (snd oe) \<Longrightarrow> sunk_ok (snd (foldl g oe xs))"
  by (induction xs arbitrary: oe) simp_all

lemma blocks_row: "sunk_ok (snd oe) \<Longrightarrow> sunk_ok (snd (flush_row cp s c oe y))"
proof -
  assume b: "sunk_ok (snd oe)"
  have "sunk_ok (snd (render_row cp s y c oe))"
  proof (cases "ag_screen_row s y")
    case (Some row)
    have "sunk_ok (snd (foldl (render_cell cp row) ((fst oe)\<lparr>vo_last_y := y\<rparr>, emit_goto (snd oe) 0 y) [0..<row_extent row c]))"
      using b by (intro blocks_pair_foldl blocks_pairs) (simp_all add: blocks_emit)
    then show ?thesis using Some by (simp add: render_row_def case_prod_beta Let_def blocks_emit blocks_pairs)
  qed (simp add: render_row_def case_prod_beta b)
  then show ?thesis using b by (simp add: flush_row_def case_prod_beta)
qed

lemma blocks_newlines: "sunk_ok e \<Longrightarrow> sunk_ok (foldl (\<lambda>e _. emit_char e 0x0A) e xs)"
  by (induction xs arbitrary: e) (simp_all add: blocks_char)

lemma blocks_scroll: "sunk_ok (snd oe) \<Longrightarrow> sunk_ok (snd (flush_scroll r oe))"
  by (simp add: flush_scroll_def Let_def case_prod_beta blocks_newlines blocks_emit blocks_pairs)

text \<open>
  C31. The 96 bytes of the output buffer are never overrun, and no call of the sink is empty: whatever the screen holds and the endpoint
  believes, a flush calls the sink with blocks of 1 to 96 bytes.
\<close>

theorem vtout_blocks: "list_all (\<lambda>b. 0 < length b \<and> length b \<le> EMIT_BUF) (snd (ag_vtout_flush cp ep s))"
proof -
  let ?c = "smaller (vo_cols ep) (sc_cols s)" let ?r = "smaller (vo_rows ep) (sc_rows s)"
  define oe where "oe = foldl (flush_row cp s ?c) (flush_scroll ?r (flush_sync (ep, \<lparr>em_sunk = [], em_buf = []\<rparr>))) [0..<?r]"
  have "sunk_ok (snd oe)" unfolding oe_def
    by (intro blocks_pair_foldl blocks_row blocks_scroll blocks_pairs) (simp_all add: sunk_ok_def)
  then have "sunk_ok (snd (flush_cursor s ?c ?r (foldl row_done (fst oe) [?r..<AG_SCREEN_MAX_ROWS], snd oe)))"
    unfolding flush_cursor_def by (intro blocks_pairs) simp
  then have "sunk_ok (emit_drain (snd (flush_cursor s ?c ?r (foldl row_done (fst oe) [?r..<AG_SCREEN_MAX_ROWS], snd oe))))"
    by (auto simp: sunk_ok_def emit_drain_def)
  then show ?thesis by (simp add: ag_vtout_flush_def Let_def oe_def [symmetric] sunk_ok_def list_all_iff)
qed

end
