(* ===== verification/VtTerm.thy ===== *)
theory VtTerm
  imports VtOut
begin

text \<open>
  What the sequences of \<open>console/vtout.c\<close> do to a terminal that is itself a screen of \<open>console/screen.c\<close>: each is parsed as one
  command, and only the parser's scratch fields remember it.
\<close>

section \<open>Sequences\<close>

definition parsed :: "ag_screen \<Rightarrow> ag_screen \<Rightarrow> bool" where
  "parsed t t' \<longleftrightarrow> t' = t\<lparr>sc_params := sc_params t', sc_nparams := sc_nparams t', sc_private := sc_private t'\<rparr>"

definition opened :: "ag_screen \<Rightarrow> ag_screen" where
  "opened t = t\<lparr>sc_params := replicate AG_VT_MAX_PARAMS (-1), sc_nparams := 0, sc_private := False, sc_state := AG_VT_CSI\<rparr>"

abbreviation ground :: "ag_screen \<Rightarrow> bool" where
  "ground t \<equiv> sc_state t = AG_VT_GROUND"

lemma write_append: "ag_screen_write t (a @ b) = ag_screen_write (ag_screen_write t a) b"
  by (simp add: ag_screen_write_def)

lemma write_nil [simp]: "ag_screen_write t [] = t"
  by (simp add: ag_screen_write_def)

lemma write_open: "ground t \<Longrightarrow> ag_screen_write t ([0x1B, 0x5B] @ cs) = ag_screen_write (opened t) cs"
  by (simp add: ag_screen_write_def write_char_def ground_char_def esc_char_def csi_reset_def opened_def)

lemma write_digit: "sc_state t = AG_VT_CSI \<Longrightarrow> m < 10 \<Longrightarrow> write_char t (of_nat (0x30 + m)) =
    (let n = (if sc_nparams t = 0 then 1 else sc_nparams t); p = sc_params t ! (n - 1); base = (if p < 0 then 0 else p) in
     t\<lparr>sc_nparams := n, sc_params := (if base < 100000 then (sc_params t)[n - 1 := base * 10 + int m] else sc_params t)\<rparr>)"
  unfolding write_char_def csi_char_def digit_in_def by (simp only: digit_char [of m] ag_vt_state.case simp_thms if_True)

lemma write_uint:
  assumes "sc_state t = AG_VT_CSI" and "length (sc_params t) = AG_VT_MAX_PARAMS" and "sc_nparams t \<le> AG_VT_MAX_PARAMS"
    and n: "n = (if sc_nparams t = 0 then 1 else sc_nparams t)" and "sc_params t ! (n - 1) = -1" and "v < 10 ^ r" and "v < 1000000"
  shows "0 < r \<Longrightarrow> foldl write_char t (rev (tmp_digits r v)) = t\<lparr>sc_nparams := n, sc_params := (sc_params t)[n - 1 := int v]\<rparr>"
  using assms(6,7)
proof (induction r arbitrary: v)
  case (Suc r)
  have slot: "n - 1 < length (sc_params t)" "0 < n" using assms(2-4) by (auto simp: AG_VT_MAX_PARAMS_def split: if_splits)
  have m: "v mod 10 < 10" by simp
  show ?case
  proof (cases "v div 10 = 0")
    case True
    then show ?thesis using assms(1,5) n slot write_digit [OF assms(1) m] by (simp add: Let_def)
  next
    case False
    let ?t = "t\<lparr>sc_nparams := n, sc_params := (sc_params t)[n - 1 := int (v div 10)]\<rparr>"
    have v: "v div 10 < 10 ^ r" "v div 10 < 1000000" using Suc.prems(2,3) by (auto simp: less_mult_imp_div_less mult.commute)
    then have "0 < r" using False by (cases r) auto
    then have "foldl write_char t (rev (tmp_digits r (v div 10))) = ?t" using Suc.IH v by simp
    moreover have "write_char ?t (of_nat (0x30 + v mod 10)) = t\<lparr>sc_nparams := n, sc_params := (sc_params t)[n - 1 := int v]\<rparr>"
    proof -
      have "int (v div 10) < 100000" using Suc.prems(3) by linarith
      moreover have "int (v div 10) * 10 + int (v mod 10) = int v" by presburger
      ultimately show ?thesis using slot assms(1) by (subst write_digit [OF _ m]) (simp_all add: Let_def)
    qed
    ultimately show ?thesis using False by simp
  qed
next
  case 0
  from 0(1) show ?case by simp
qed

lemma write_uint10:
  assumes "sc_state t = AG_VT_CSI" and "length (sc_params t) = AG_VT_MAX_PARAMS" and "sc_nparams t \<le> AG_VT_MAX_PARAMS"
    and "n = (if sc_nparams t = 0 then 1 else sc_nparams t)" and "sc_params t ! (n - 1) = -1" and "v < 1000000"
  shows "foldl write_char t (rev (tmp_digits 10 v)) = t\<lparr>sc_nparams := n, sc_params := (sc_params t)[n - 1 := int v]\<rparr>"
  by (rule write_uint [OF assms(1-5)]) (use assms(6) in simp_all)

lemma write_private: "sc_state t = AG_VT_CSI \<Longrightarrow> write_char t 0x3F = t\<lparr>sc_private := True\<rparr>"
  by (simp add: write_char_def csi_char_def)

lemma write_final: "sc_state t = AG_VT_CSI \<Longrightarrow> 0x40 \<le> c \<Longrightarrow> c \<le> 0x7E \<Longrightarrow> write_char t c = (csi_dispatch t c)\<lparr>sc_state := AG_VT_GROUND\<rparr>"
proof -
  assume t: "sc_state t = AG_VT_CSI" and c: "0x40 \<le> c" "c \<le> 0x7E"
  have "\<not> c \<le> 0x39" using c(1) by (simp add: word_le_def)
  moreover have "c \<noteq> 0x3B" "c \<noteq> 0x3F" "c \<noteq> 0x3C" "c \<noteq> 0x3E" "c \<noteq> 0x3D" using c(1) by auto
  ultimately show ?thesis unfolding write_char_def csi_char_def t by (simp only: ag_vt_state.case simp_thms if_True if_False c)
qed

lemma eight: "AG_VT_MAX_PARAMS = 8"
  by (simp add: AG_VT_MAX_PARAMS_def)

lemma minus_ones: "replicate 8 (-1 :: int) = [-1, -1, -1, -1, -1, -1, -1, -1]"
  by (simp add: eval_nat_numeral)

text \<open>Two numbers, with the semicolon between.\<close>

lemma write_one:
  assumes "v < 1000000"
  shows "foldl write_char (opened t) (rev (tmp_digits 10 v)) = (opened t)\<lparr>sc_nparams := 1, sc_params := [int v, -1, -1, -1, -1, -1, -1, -1]\<rparr>"
  using write_uint10 [of "opened t" 1 v] assms by (simp add: opened_def eight minus_ones)

lemma write_two:
  assumes "v < 1000000" and "w < 1000000"
  shows "foldl write_char (opened t) (rev (tmp_digits 10 v) @ [0x3B] @ rev (tmp_digits 10 w)) =
    (opened t)\<lparr>sc_nparams := 2, sc_params := [int v, int w, -1, -1, -1, -1, -1, -1]\<rparr>"
proof -
  let ?t1 = "(opened t)\<lparr>sc_nparams := 1, sc_params := [int v, -1, -1, -1, -1, -1, -1, -1]\<rparr>"
  have "foldl write_char (opened t) (rev (tmp_digits 10 v)) = ?t1" by (rule write_one [OF assms(1)])
  moreover have "write_char ?t1 0x3B = ?t1\<lparr>sc_nparams := 2\<rparr>" by (simp add: write_char_def csi_char_def opened_def eight)
  moreover have "foldl write_char (?t1\<lparr>sc_nparams := 2\<rparr>) (rev (tmp_digits 10 w)) =
      (opened t)\<lparr>sc_nparams := 2, sc_params := [int v, int w, -1, -1, -1, -1, -1, -1]\<rparr>"
    using write_uint10 [of "?t1\<lparr>sc_nparams := 2\<rparr>" 2 w] assms(2) by (simp add: opened_def eight)
  ultimately show ?thesis by simp
qed

lemma goto_effect:
  assumes "ground t" and "x < sc_cols t" and "y < sc_rows t" and "sc_cols t \<le> 240" and "sc_rows t \<le> 128"
  shows "parsed (t\<lparr>sc_x := x, sc_y := y, sc_wrap := False\<rparr>) (ag_screen_write t (goto_text x y))"
proof -
  let ?u = "(opened t)\<lparr>sc_nparams := 2, sc_params := [int (y + 1), int (x + 1), -1, -1, -1, -1, -1, -1]\<rparr>"
  have "ag_screen_write t (goto_text x y) = write_char ?u 0x48"
    using write_open [OF assms(1), of "(rev (tmp_digits 10 (y + 1)) @ [0x3B] @ rev (tmp_digits 10 (x + 1))) @ [0x48]"] write_two [of "y + 1" "x + 1" t] assms(2-)
    unfolding goto_text_def by (simp add: ag_screen_write_def)
  also have "\<dots> = (ag_screen_gotoxy ?u x y)\<lparr>sc_state := AG_VT_GROUND\<rparr>"
    using assms(2-) by (simp add: write_char_def csi_char_def csi_dispatch_def opened_def pget_def u16_small)
  finally show ?thesis using assms by (simp add: parsed_def ag_screen_gotoxy_def opened_def)
qed

lemma one_digit: "v < 10 \<Longrightarrow> rev (tmp_digits 10 v) = [of_nat (0x30 + v)]"
  using tmp_digits.simps(2) [of 9 v] by simp

lemma region_effect:
  assumes "ground t" and "rows \<le> 128"
  shows "parsed t (ag_screen_write t ([0x1B, 0x5B, 0x31, 0x3B] @ rev (tmp_digits 10 rows) @ [0x72]))"
proof -
  have o: "rev (tmp_digits 10 1) = [0x31]" by (simp add: one_digit)
  let ?u = "(opened t)\<lparr>sc_nparams := 2, sc_params := [1, int rows, -1, -1, -1, -1, -1, -1]\<rparr>"
  have "ag_screen_write t ([0x1B, 0x5B, 0x31, 0x3B] @ rev (tmp_digits 10 rows) @ [0x72]) = write_char ?u 0x72"
    using write_open [OF assms(1), of "(rev (tmp_digits 10 1) @ [0x3B] @ rev (tmp_digits 10 rows)) @ [0x72]"] write_two [of 1 rows t] assms(2)
    unfolding o by (simp add: ag_screen_write_def)
  also have "\<dots> = ?u\<lparr>sc_state := AG_VT_GROUND\<rparr>" by (simp add: write_char_def csi_char_def csi_dispatch_def opened_def)
  finally show ?thesis using assms(1) by (simp add: parsed_def opened_def)
qed

lemma fill_row_parser: "fill_row (t\<lparr>sc_params := p, sc_nparams := n, sc_private := b, sc_state := v\<rparr>) y x0 x1 c a =
    (fill_row t y x0 x1 c a)\<lparr>sc_params := p, sc_nparams := n, sc_private := b, sc_state := v\<rparr>"
  by (simp add: fill_row_def Let_def fill_cells ag_screen_mark_row_dirty_def bump_def)

lemma erase_effect:
  assumes "ground t"
  shows "parsed (fill_row t (sc_y t) (sc_x t) (sc_cols t) 0x20 (sc_attr t)) (ag_screen_write t [0x1B, 0x5B, 0x4B])"
proof -
  let ?f = "fill_row t (sc_y t) (sc_x t) (sc_cols t) 0x20 (sc_attr t)"
  have "ag_screen_write t [0x1B, 0x5B, 0x4B] = (erase_line (opened t) 0)\<lparr>sc_state := AG_VT_GROUND\<rparr>"
    using write_open [OF assms, of "[0x4B]"] by (simp add: ag_screen_write_def write_char_def csi_char_def csi_dispatch_def opened_def pget_def)
  moreover have "sc_state ?f = AG_VT_GROUND"
    using assms frame_fields [OF conjunct1 [OF fill_row_redraw [unfolded redraw_def]]] by metis
  ultimately show ?thesis by (cases ?f) (simp add: parsed_def erase_line_def opened_def fill_row_parser)
qed

lemma digits_25: "rev (tmp_digits 10 25) = [0x32, 0x35]"
  using tmp_digits.simps(2) [of 9 25] tmp_digits.simps(2) [of 8 2] by simp

lemma visible_effect:
  assumes "ground t"
  shows "\<exists>g. parsed (t\<lparr>sc_visible := v, sc_generation := g\<rparr>) (ag_screen_write t [0x1B, 0x5B, 0x3F, 0x32, 0x35, if v then 0x68 else 0x6C])"
proof -
  let ?p = "(opened t)\<lparr>sc_private := True\<rparr>"
  let ?u = "?p\<lparr>sc_nparams := 1, sc_params := [25, -1, -1, -1, -1, -1, -1, -1]\<rparr>"
  let ?c = "if v then 0x68 else 0x6C :: u8"
  have "write_char (opened t) 0x3F = ?p" by (rule write_private) (simp add: opened_def)
  moreover have "foldl write_char ?p (rev (tmp_digits 10 25)) = ?u"
    using write_uint10 [of ?p 1 25] by (simp add: opened_def eight minus_ones)
  moreover have "write_char ?u ?c = (csi_dispatch ?u ?c)\<lparr>sc_state := AG_VT_GROUND\<rparr>" by (rule write_final) (simp_all add: opened_def)
  moreover have "csi_dispatch ?u ?c = ag_screen_set_cursor ?u v" by (cases v) (simp_all add: csi_dispatch_def pget_def)
  ultimately have "ag_screen_write t ([0x1B, 0x5B] @ [0x3F, 0x32, 0x35, ?c]) = (ag_screen_set_cursor ?u v)\<lparr>sc_state := AG_VT_GROUND\<rparr>"
    unfolding write_open [OF assms] by (simp only: digits_25 ag_screen_write_def foldl.simps)
  then show ?thesis using assms
    by (intro exI [of _ "if sc_visible t = v then sc_generation t else sc_generation t + 1"]) (simp add: parsed_def ag_screen_set_cursor_def bump_def opened_def)
qed

lemma sgr_effect:
  assumes "ground t" and "foldl write_char (opened t) ps = u" and "sc_state u = AG_VT_CSI"
  shows "ag_screen_write t ([0x1B, 0x5B] @ ps @ [0x6D]) = (apply_sgr u)\<lparr>sc_state := AG_VT_GROUND\<rparr>"
proof -
  have "write_char u 0x6D = (csi_dispatch u 0x6D)\<lparr>sc_state := AG_VT_GROUND\<rparr>" by (rule write_final) (simp_all add: assms(3))
  moreover have "csi_dispatch u 0x6D = apply_sgr u" by (simp add: csi_dispatch_def)
  ultimately show ?thesis unfolding write_open [OF assms(1)] by (simp only: ag_screen_write_def foldl_append assms(2) foldl.simps)
qed

lemma sgr_step: "i < n \<Longrightarrow> sgr_one s i = (s1, k) \<Longrightarrow> sgr_loop s i n = sgr_loop s1 (i + k) n"
  using sgr_loop.simps [of s i n] by simp

lemma sgr_end: "n \<le> i \<Longrightarrow> sgr_loop s i n = s"
  using sgr_loop.simps [of s i n] by simp

lemma pget_attr [simp]: "pget (s\<lparr>sc_attr := a\<rparr>) i d = pget s i d" "pget (s\<lparr>sc_reverse := r\<rparr>) i d = pget s i d"
  by (simp_all add: pget_def)

lemma sgr_reset: "pget s i 0 = 0 \<Longrightarrow> sgr_one s i = (s\<lparr>sc_attr := AG_ATTR_DEFAULT, sc_reverse := False\<rparr>, 1)"
  by (simp add: sgr_one_def)

lemma sgr_fg: "pget s i 0 = 30 + k \<Longrightarrow> 0 \<le> k \<Longrightarrow> k \<le> 7 \<Longrightarrow> sgr_one s i = (sgr_set_fg s (ansi k), 1)"
  by (simp add: sgr_one_def Let_def)

lemma sgr_bright: "pget s i 0 = 90 + k \<Longrightarrow> 0 \<le> k \<Longrightarrow> k \<le> 7 \<Longrightarrow> sgr_one s i = (s\<lparr>sc_attr := (sc_attr s AND 0xf0) OR (ansi k OR 0x08)\<rparr>, 1)"
  by (simp add: sgr_one_def Let_def)

lemma sgr_bg: "pget s i 0 = 40 + k \<Longrightarrow> 0 \<le> k \<Longrightarrow> k \<le> 7 \<Longrightarrow> sgr_one s i = (sgr_set_bg s (ansi k), 1)"
  by (simp add: sgr_one_def Let_def)

lemma sgr_bright_bg: "pget s i 0 = 100 + k \<Longrightarrow> 0 \<le> k \<Longrightarrow> k \<le> 7 \<Longrightarrow> sgr_one s i = (sgr_set_bg s (ansi k OR 0x08), 1)"
  by (simp add: sgr_one_def Let_def)

lemma reset_effect:
  assumes "ground t"
  shows "parsed (t\<lparr>sc_attr := AG_ATTR_DEFAULT, sc_reverse := False\<rparr>) (ag_screen_write t [0x1B, 0x5B, 0x30, 0x6D])"
proof -
  let ?u = "(opened t)\<lparr>sc_nparams := 1, sc_params := [0, -1, -1, -1, -1, -1, -1, -1]\<rparr>"
  have "foldl write_char (opened t) [0x30] = ?u" using write_one [of 0 t] by (simp add: one_digit)
  from sgr_effect [OF assms this] have w: "ag_screen_write t [0x1B, 0x5B, 0x30, 0x6D] = (apply_sgr ?u)\<lparr>sc_state := AG_VT_GROUND\<rparr>" by (simp add: opened_def)
  have "apply_sgr ?u = sgr_loop ?u 0 1" by (simp add: apply_sgr_def)
  also have "\<dots> = ?u\<lparr>sc_attr := AG_ATTR_DEFAULT, sc_reverse := False\<rparr>"
    by (subst sgr_step [OF _ sgr_reset]) (simp_all add: pget_def sgr_end)
  finally show ?thesis using assms by (simp add: w parsed_def opened_def)
qed

section \<open>Attributes\<close>

text \<open>The parameters an attribute goes out with.\<close>

definition fg_param :: "u8 \<Rightarrow> int" where
  "fg_param a = (if a AND 0x08 \<noteq> 0 then 90 else 30) + int (k_cga_to_ansi ! unat (a AND 0x07))"

definition bg_param :: "u8 \<Rightarrow> int" where
  "bg_param a = (if a AND 0x80 \<noteq> 0 then 100 else 40) + int (k_cga_to_ansi ! unat (drop_bit 4 a AND 0x07))"

definition has_bg :: "u8 \<Rightarrow> bool" where
  "has_bg a \<longleftrightarrow> drop_bit 4 a AND 0x07 \<noteq> 0 \<or> a AND 0x80 \<noteq> 0"

text \<open>The attribute that the parameters set, from the default.\<close>

definition after_fg :: "u8 \<Rightarrow> u8" where
  "after_fg a = (let c = ansi (int (k_cga_to_ansi ! unat (a AND 0x07))) in
     if a AND 0x08 \<noteq> 0 then (0x07 AND 0xf0) OR (c OR 0x08) else (0x07 AND 0xf0) OR (c AND 0x07) OR (0x07 AND 0x08))"

definition after_bg :: "u8 \<Rightarrow> u8" where
  "after_bg a = (let c = ansi (int (k_cga_to_ansi ! unat (drop_bit 4 a AND 0x07))) in
     (after_fg a AND 0x0f) OR push_bit 4 ((if a AND 0x80 \<noteq> 0 then c OR 0x08 else c) AND 0x0f))"

lemma all_attrs: "list_all (\<lambda>n. (if has_bg (word_of_int n) then after_bg (word_of_int n) else after_fg (word_of_int n)) = word_of_int n \<and>
    k_cga_to_ansi ! unat (word_of_int n AND 0x07 :: u8) \<le> 7 \<and> k_cga_to_ansi ! unat (drop_bit 4 (word_of_int n) AND 0x07 :: u8) \<le> 7) [0..255]"
  by code_simp

lemma attr_back: "(if has_bg a then after_bg a else after_fg a) = a" "k_cga_to_ansi ! unat (a AND 0x07) \<le> 7" "k_cga_to_ansi ! unat (drop_bit 4 a AND 0x07) \<le> 7"
proof -
  have "uint a \<in> set [0..255]" using uint_bounded [of a] by simp
  then show "(if has_bg a then after_bg a else after_fg a) = a" "k_cga_to_ansi ! unat (a AND 0x07) \<le> 7" "k_cga_to_ansi ! unat (drop_bit 4 a AND 0x07) \<le> 7"
    using all_attrs [unfolded list_all_iff] by (metis word_of_int_uint)+
qed

lemma tens: "w < 10 \<Longrightarrow> 0 < w \<Longrightarrow> k < 10 \<Longrightarrow> rev (tmp_digits 10 (10 * w + k)) = [of_nat (0x30 + w), of_nat (0x30 + k)]"
  using tmp_digits.simps(2) [of 9 "10 * w + k"] tmp_digits.simps(2) [of 8 w] by simp

lemma hundred: "k < 10 \<Longrightarrow> rev (tmp_digits 10 (100 + k)) = [0x31, 0x30, of_nat (0x30 + k)]"
proof -
  assume "k < 10"
  then have "k \<in> {0, 1, 2, 3, 4, 5, 6, 7, 8, 9}" by auto
  then have "(100 + k) div 10 = 10" "(100 + k) mod 10 = k" by auto
  then show ?thesis using tmp_digits.simps(2) [of 9 "100 + k"] tmp_digits.simps(2) [of 8 10] tmp_digits.simps(2) [of 7 1] by simp
qed

lemma attr_text_params: "attr_text a = [0x1B, 0x5B] @ (rev (tmp_digits 10 0) @ [0x3B] @ rev (tmp_digits 10 (nat (fg_param a))) @
    (if has_bg a then [0x3B] @ rev (tmp_digits 10 (nat (bg_param a))) else [])) @ [0x6D]"
proof -
  define k where "k = k_cga_to_ansi ! unat (a AND 0x07)"
  define j where "j = k_cga_to_ansi ! unat (drop_bit 4 a AND 0x07)"
  have b: "k \<le> 7" "j \<le> 7" using attr_back(2,3) [of a] by (simp_all add: k_def j_def)
  have f: "rev (tmp_digits 10 (nat (fg_param a))) = (if a AND 0x08 \<noteq> 0 then [0x39] else [0x33]) @ rev (tmp_digits 10 k)"
    using tens [of 9 k] tens [of 3 k] b by (simp add: fg_param_def k_def [symmetric] one_digit nat_add_distrib)
  have g: "rev (tmp_digits 10 (nat (bg_param a))) = (if a AND 0x80 \<noteq> 0 then [0x31, 0x30] else [0x34]) @ rev (tmp_digits 10 j)"
    using hundred [of j] tens [of 4 j] b by (simp add: bg_param_def j_def [symmetric] one_digit nat_add_distrib)
  have z: "rev (tmp_digits 10 0) = [0x30]" by (simp add: one_digit)
  have e: "emitted \<lparr>em_sunk = [], em_buf = []\<rparr> = []" by (simp add: emitted_def)
  show ?thesis unfolding attr_text_def emit_attr_def Let_def f g z k_def [symmetric] j_def [symmetric] has_bg_def [symmetric]
    by (simp add: e)
qed

lemma fg_param_range: "0 \<le> fg_param a" "fg_param a \<le> 97" "0 \<le> bg_param a" "bg_param a \<le> 107"
  using attr_back(2,3) [of a] by (auto simp: fg_param_def bg_param_def)

lemma attr_effect:
  assumes "ground t"
  shows "parsed (t\<lparr>sc_attr := a, sc_reverse := False\<rparr>) (ag_screen_write t (attr_text a))"
proof -
  let ?f = "fg_param a" let ?b = "bg_param a"
  note r = fg_param_range [of a] and bk = attr_back [of a]
  let ?u2 = "(opened t)\<lparr>sc_nparams := 2, sc_params := [0, ?f, -1, -1, -1, -1, -1, -1]\<rparr>"
  let ?u3 = "(opened t)\<lparr>sc_nparams := 3, sc_params := [0, ?f, ?b, -1, -1, -1, -1, -1]\<rparr>"
  let ?ps = "rev (tmp_digits 10 0) @ [0x3B] @ rev (tmp_digits 10 (nat ?f))"
  have u2: "foldl write_char (opened t) ?ps = ?u2" using write_two [of 0 "nat ?f" t] r by simp
  have fg: "sgr_one s 1 = (s\<lparr>sc_attr := after_fg a\<rparr>, 1)" if "pget s 1 0 = ?f" "sc_attr s = AG_ATTR_DEFAULT" for s
    using that bk(2) sgr_fg [of s 1 "?f - 30"] sgr_bright [of s 1 "?f - 90"]
    by (auto simp: after_fg_def Let_def fg_param_def sgr_set_fg_def AG_ATTR_DEFAULT_def)
  have bg: "sgr_one s 2 = (s\<lparr>sc_attr := after_bg a\<rparr>, 1)" if "pget s 2 0 = ?b" "sc_attr s = after_fg a" for s
    using that bk(3) sgr_bg [of s 2 "?b - 40"] sgr_bright_bg [of s 2 "?b - 100"]
    by (auto simp: after_bg_def Let_def bg_param_def sgr_set_bg_def)
  have two: "sgr_loop s 0 n = sgr_loop (s\<lparr>sc_reverse := False, sc_attr := after_fg a\<rparr>) 2 n" if "pget s 0 0 = 0" "pget s 1 0 = ?f" "2 \<le> n" for s n
  proof -
    have "sgr_loop s 0 n = sgr_loop (s\<lparr>sc_attr := AG_ATTR_DEFAULT, sc_reverse := False\<rparr>) (0 + 1) n"
      using that by (intro sgr_step sgr_reset) simp_all
    also have "\<dots> = sgr_loop (s\<lparr>sc_attr := AG_ATTR_DEFAULT, sc_reverse := False, sc_attr := after_fg a\<rparr>) (0 + 1 + 1) n"
      using that fg [of "s\<lparr>sc_attr := AG_ATTR_DEFAULT, sc_reverse := False\<rparr>"] by (intro sgr_step) simp_all
    finally show ?thesis by (simp add: numeral_2_eq_2)
  qed
  show ?thesis
  proof (cases "has_bg a")
    case False
    have "ag_screen_write t (attr_text a) = (apply_sgr ?u2)\<lparr>sc_state := AG_VT_GROUND\<rparr>"
      using sgr_effect [OF assms u2] False unfolding attr_text_params by (simp add: opened_def)
    moreover have "apply_sgr ?u2 = ?u2\<lparr>sc_attr := a, sc_reverse := False\<rparr>"
      using two [of ?u2 2] bk(1) False r by (simp add: apply_sgr_def pget_def sgr_end)
    ultimately show ?thesis using assms by (simp add: parsed_def opened_def)
  next
    case True
    have "write_char ?u2 0x3B = ?u2\<lparr>sc_nparams := 3\<rparr>" by (simp add: write_char_def csi_char_def opened_def eight)
    moreover have "foldl write_char (?u2\<lparr>sc_nparams := 3\<rparr>) (rev (tmp_digits 10 (nat ?b))) = ?u3"
      using write_uint10 [of "?u2\<lparr>sc_nparams := 3\<rparr>" 3 "nat ?b"] r by (simp add: opened_def eight)
    moreover have "foldl write_char (opened t) (?ps @ r) = foldl write_char ?u2 r" for r by (subst foldl_append, subst u2) (rule refl)
    ultimately have u3: "foldl write_char (opened t) (?ps @ [0x3B] @ rev (tmp_digits 10 (nat ?b))) = ?u3"
      by (simp only: append_Cons append_Nil foldl.simps)
    have "ag_screen_write t (attr_text a) = (apply_sgr ?u3)\<lparr>sc_state := AG_VT_GROUND\<rparr>"
      using sgr_effect [OF assms u3] True unfolding attr_text_params by (simp add: opened_def)
    moreover have "apply_sgr ?u3 = ?u3\<lparr>sc_attr := a, sc_reverse := False\<rparr>"
    proof -
      have "apply_sgr ?u3 = sgr_loop (?u3\<lparr>sc_reverse := False, sc_attr := after_fg a\<rparr>) 2 3"
        using two [of ?u3 3] r by (simp add: apply_sgr_def pget_def)
      also have "\<dots> = sgr_loop (?u3\<lparr>sc_reverse := False, sc_attr := after_bg a\<rparr>) (2 + 1) 3"
        using bg [of "?u3\<lparr>sc_reverse := False, sc_attr := after_fg a\<rparr>"] r by (intro sgr_step) (simp_all add: pget_def)
      also have "\<dots> = ?u3\<lparr>sc_attr := a, sc_reverse := False\<rparr>" using bk(1) True by (simp add: sgr_end numeral_3_eq_3)
      finally show ?thesis .
    qed
    ultimately show ?thesis using assms by (simp add: parsed_def opened_def)
  qed
qed

end
