(* ===== verification/VtMirror.thy ===== *)
theory VtMirror
  imports VtTerm
begin

text \<open>
  The round trip of \<open>console/vtout.c\<close> and \<open>console/screen.c\<close>: what a flush writes, read by a terminal that is a screen of the same
  size, makes that terminal show what the screen holds; and so it does after every pass of \<open>render_all\<close> in \<open>console/console.c\<close>, whatever
  was written between the passes.
\<close>

section \<open>What a terminal shows\<close>

definition tty :: "ag_screen \<Rightarrow> nat \<Rightarrow> nat \<Rightarrow> bool \<Rightarrow> u8 \<Rightarrow> nat \<Rightarrow> nat \<Rightarrow> bool \<Rightarrow> (nat \<Rightarrow> nat \<Rightarrow> ag_cell) \<Rightarrow> bool" where
  "tty t c r v a x y w f \<longleftrightarrow> screen_ok t \<and> ground t \<and> sc_cols t = c \<and> sc_rows t = r \<and> sc_visible t = v \<and> sc_attr t = a \<and> sc_x t = x \<and>
     sc_y t = y \<and> sc_wrap t = w \<and> (\<forall>i < c. \<forall>j < r. cell_at t i j = f i j)"

lemma quiet_fields:
  assumes "parsed t t'"
  shows "sc_cols t' = sc_cols t" "sc_rows t' = sc_rows t" "sc_x t' = sc_x t" "sc_y t' = sc_y t" "sc_attr t' = sc_attr t" "sc_visible t' = sc_visible t"
    "sc_wrap t' = sc_wrap t" "sc_state t' = sc_state t" "sc_cells t' = sc_cells t"
  by (subst assms [unfolded parsed_def], simp)+

lemma quiet_cell: "parsed t t' \<Longrightarrow> cell_at t' = cell_at t"
  by (simp add: cell_at_def fun_eq_iff quiet_fields)

lemma write_ok: "screen_ok t \<Longrightarrow> screen_ok (ag_screen_write t b)"
  using write_good [of t b] by (simp add: good_def)

lemma ok_bounds: "screen_ok t \<Longrightarrow> 0 < sc_cols t \<and> sc_cols t \<le> 240 \<and> 0 < sc_rows t \<and> sc_rows t \<le> 128 \<and> sc_x t < sc_cols t \<and> sc_y t < sc_rows t \<and> size_ok t"
  by (simp add: screen_ok_def grid_ok_def pos_ok_def size_ok_def AG_SCREEN_MAX_COLS_def AG_SCREEN_MAX_ROWS_def)

lemma tty_bounds: "tty t c r v a x y w f \<Longrightarrow> 0 < c \<and> c \<le> 240 \<and> 0 < r \<and> r \<le> 128 \<and> x < c \<and> y < r"
  using ok_bounds [of t] by (auto simp: tty_def)

lemma tty_goto: "tty t c r v a x y w f \<Longrightarrow> i < c \<Longrightarrow> j < r \<Longrightarrow> tty (ag_screen_write t (goto_text i j)) c r v a i j False f"
proof -
  assume t: "tty t c r v a x y w f" and ij: "i < c" "j < r"
  then have q: "parsed (t\<lparr>sc_x := i, sc_y := j, sc_wrap := False\<rparr>) (ag_screen_write t (goto_text i j))"
    using tty_bounds [OF t] by (intro goto_effect) (auto simp: tty_def)
  have "cell_at (t\<lparr>sc_x := i, sc_y := j, sc_wrap := False\<rparr>) = cell_at t" by (simp add: cell_at_def fun_eq_iff)
  then show ?thesis using t by (simp add: tty_def write_ok quiet_fields [OF q] quiet_cell [OF q])
qed

lemma tty_attr: "tty t c r v a x y w f \<Longrightarrow> tty (ag_screen_write t (attr_text b)) c r v b x y w f"
proof -
  assume t: "tty t c r v a x y w f"
  then have q: "parsed (t\<lparr>sc_attr := b, sc_reverse := False\<rparr>) (ag_screen_write t (attr_text b))" by (intro attr_effect) (simp add: tty_def)
  have "cell_at (t\<lparr>sc_attr := b, sc_reverse := False\<rparr>) = cell_at t" by (simp add: cell_at_def fun_eq_iff)
  then show ?thesis using t by (simp add: tty_def write_ok quiet_fields [OF q] quiet_cell [OF q])
qed

lemma tty_reset: "tty t c r v a x y w f \<Longrightarrow> tty (ag_screen_write t [0x1B, 0x5B, 0x30, 0x6D]) c r v AG_ATTR_DEFAULT x y w f"
proof -
  assume t: "tty t c r v a x y w f"
  then have q: "parsed (t\<lparr>sc_attr := AG_ATTR_DEFAULT, sc_reverse := False\<rparr>) (ag_screen_write t [0x1B, 0x5B, 0x30, 0x6D])"
    by (intro reset_effect) (simp add: tty_def)
  have "cell_at (t\<lparr>sc_attr := AG_ATTR_DEFAULT, sc_reverse := False\<rparr>) = cell_at t" by (simp add: cell_at_def fun_eq_iff)
  then show ?thesis using t by (simp add: tty_def write_ok quiet_fields [OF q] quiet_cell [OF q])
qed

lemma tty_region: "tty t c r v a x y w f \<Longrightarrow> tty (ag_screen_write t ([0x1B, 0x5B, 0x31, 0x3B] @ rev (tmp_digits 10 r) @ [0x72])) c r v a x y w f"
proof -
  assume t: "tty t c r v a x y w f"
  then have q: "parsed t (ag_screen_write t ([0x1B, 0x5B, 0x31, 0x3B] @ rev (tmp_digits 10 r) @ [0x72]))"
    using tty_bounds [OF t] by (intro region_effect) (simp_all add: tty_def)
  then show ?thesis using t by (simp add: tty_def write_ok quiet_fields [OF q] quiet_cell [OF q] del: append_Cons append_Nil append.simps)
qed

lemma tty_visible: "tty t c r v a x y w f \<Longrightarrow> tty (ag_screen_write t [0x1B, 0x5B, 0x3F, 0x32, 0x35, if b then 0x68 else 0x6C]) c r b a x y w f"
proof -
  assume t: "tty t c r v a x y w f"
  then obtain g where q: "parsed (t\<lparr>sc_visible := b, sc_generation := g\<rparr>) (ag_screen_write t [0x1B, 0x5B, 0x3F, 0x32, 0x35, if b then 0x68 else 0x6C])"
    using visible_effect [of t b] by (auto simp: tty_def)
  have "cell_at (t\<lparr>sc_visible := b, sc_generation := g\<rparr>) = cell_at t" by (simp add: cell_at_def fun_eq_iff)
  then show ?thesis using t by (simp add: tty_def write_ok quiet_fields [OF q] quiet_cell [OF q])
qed

lemma tty_erase: "tty t c r v a x y w f \<Longrightarrow>
    tty (ag_screen_write t [0x1B, 0x5B, 0x4B]) c r v a x y w (\<lambda>i j. if j = y \<and> x \<le> i then blank a else f i j)"
proof -
  assume t: "tty t c r v a x y w f"
  then have q: "parsed (fill_row t y x c 0x20 a) (ag_screen_write t [0x1B, 0x5B, 0x4B])" using erase_effect [of t] by (auto simp: tty_def)
  have z: "size_ok t" "y < sc_rows t" using t ok_bounds [of t] by (auto simp: tty_def)
  note s = fill_row_spec [OF z]
  show ?thesis using t s(4) by (auto simp: tty_def write_ok quiet_fields [OF q] quiet_cell [OF q] frame_fields [OF s(1)] blank_def)
qed

lemma tty_newline: "tty t c r v a x (r - 1) w f \<Longrightarrow> 1 < r \<Longrightarrow>
    tty (ag_screen_write t [0x0A]) c r v a 0 (r - 1) False (\<lambda>i j. if j + 1 < r then f i (j + 1) else blank a)"
proof -
  assume t: "tty t c r v a x (r - 1) w f" and r: "1 < r"
  let ?s = "t\<lparr>sc_x := 0, sc_wrap := False\<rparr>"
  have n: "ag_screen_write t [0x0A] = (ag_screen_scroll_up ?s 1)\<lparr>sc_y := r - 1\<rparr>"
    using t r by (simp add: tty_def ag_screen_write_def write_char_def ground_char_def new_line_def)
  have "grid_ok ?s = grid_ok t" by (simp add: grid_ok_def)
  then have g: "grid_ok ?s" using t by (simp add: tty_def screen_ok_def)
  have l: "(0 :: nat) < 1" "1 < sc_rows ?s" using t r by (simp_all add: tty_def)
  define u where "u = ag_screen_scroll_up ?s 1"
  note k = scroll_up_spec [OF g l, folded u_def]
  have c: "cell_at (k\<lparr>sc_y := m\<rparr>) = cell_at k" "cell_at ?s = cell_at t" for k m by (simp_all add: cell_at_def fun_eq_iff)
  have "cell_at u i j = (if j + 1 < r then f i (j + 1) else blank a)" if "i < c" "j < r" for i j
    using k(4) [of i j] t that by (auto simp: tty_def c)
  then show ?thesis using t write_ok [of t "[0x0A]"] unfolding n u_def [symmetric] tty_def by (simp add: frame_fields [OF k(1)] c)
qed

lemma tty_char:
  assumes t: "tty t c r v a x y False f" and ch: "0x20 \<le> ch"
  shows "tty (ag_screen_write t [ch]) c r v a (min (x + 1) (c - 1)) y (x + 1 = c) (\<lambda>i j. if i = x \<and> j = y then \<lparr>c_ch = ch, c_attr = a\<rparr> else f i j)"
proof -
  have z: "size_ok t" "x < sc_cols t" "y < sc_rows t" using t ok_bounds [of t] by (auto simp: tty_def)
  note p = put_cell_spec [OF z, where ch = ch and a = a]
  let ?p = "put_cell t x y ch a"
  have "ch \<noteq> 0x0A" "ch \<noteq> 0x0D" "ch \<noteq> 0x09" "ch \<noteq> 0x08" "ch \<noteq> 0x07" "ch \<noteq> 0x1B" using ch by auto
  then have "ag_screen_write t [ch] = ag_screen_putc_raw t ch" using t ch by (simp add: tty_def ag_screen_write_def write_char_def ground_char_def)
  also have "\<dots> = (if x + 1 \<ge> c then ?p\<lparr>sc_wrap := True\<rparr> else ?p\<lparr>sc_x := x + 1\<rparr>)"
    using t by (simp add: ag_screen_putc_raw_def Let_def tty_def frame_fields [OF p(1)])
  finally have w: "ag_screen_write t [ch] = (if x + 1 \<ge> c then ?p\<lparr>sc_wrap := True\<rparr> else ?p\<lparr>sc_x := x + 1\<rparr>)" .
  have c: "cell_at (k\<lparr>sc_wrap := True\<rparr>) = cell_at k" "cell_at (k\<lparr>sc_x := m\<rparr>) = cell_at k" for k m by (simp_all add: cell_at_def fun_eq_iff)
  have "screen_ok (ag_screen_write t [ch])" using t by (intro write_ok) (simp add: tty_def)
  then show ?thesis using t z p(4) by (auto simp: w tty_def frame_fields [OF p(1)] c)
qed

section \<open>A row\<close>

text \<open>A cell as it goes out: the codes of control characters are blanks.\<close>

definition vis :: "ag_cell \<Rightarrow> ag_cell" where
  "vis k = \<lparr>c_ch = (if c_ch k < 0x20 \<or> c_ch k = 0x7f then 0x20 else c_ch k), c_attr = c_attr k\<rparr>"

definition ascii_only :: "ag_screen \<Rightarrow> bool" where
  "ascii_only s \<longleftrightarrow> list_all (\<lambda>k. c_ch k < 0x80) (sc_cells s)"

lemma emit_plain: "ch < 0x80 \<Longrightarrow> emitted (emit_cell cp e ch) = emitted e @ [if ch < 0x20 \<or> ch = 0x7f then 0x20 else ch]"
  by (simp add: emit_cell_def)

lemma extent_spec:
  shows "row_extent row c \<le> c" "i < c \<Longrightarrow> row_extent row c \<le> i \<Longrightarrow> row ! i = blank AG_ATTR_DEFAULT"
proof -
  have "row_extent row c \<le> c \<and> (\<forall>i < c. row_extent row c \<le> i \<longrightarrow> row ! i = blank AG_ATTR_DEFAULT)"
  proof (induction c)
    case (Suc c)
    have "row_extent row (Suc c) = (if c_ch (row ! c) \<noteq> 0x20 \<or> c_attr (row ! c) \<noteq> AG_ATTR_DEFAULT then c + 1 else row_extent row c)"
      by (simp add: row_extent_def)
    moreover have "row ! c = blank AG_ATTR_DEFAULT \<longleftrightarrow> \<not> (c_ch (row ! c) \<noteq> 0x20 \<or> c_attr (row ! c) \<noteq> AG_ATTR_DEFAULT)"
      by (cases "row ! c") (auto simp: blank_def)
    ultimately show ?case using Suc by (auto simp: less_Suc_eq)
  qed (simp add: row_extent_def)
  then show "row_extent row c \<le> c" "i < c \<Longrightarrow> row_extent row c \<le> i \<Longrightarrow> row ! i = blank AG_ATTR_DEFAULT" by auto
qed

abbreviation far :: "ag_screen \<Rightarrow> emitter_t \<Rightarrow> ag_screen" where
  "far t e \<equiv> ag_screen_write t (emitted e)"

lemma far_add: "emitted e' = emitted e @ b \<Longrightarrow> far t e' = ag_screen_write (far t e) b"
  by (simp add: write_append)

lemma use_attr_tty:
  assumes "tty (far t (snd oe)) c r v (vo_attr (fst oe)) x y w f" and "use_attr a oe = (ep', e')"
  shows "tty (far t e') c r v a x y w f" "ep' = (fst oe)\<lparr>vo_attr := a\<rparr>"
proof -
  obtain ep e where o: "oe = (ep, e)" by (cases oe)
  have "tty (far t e') c r v a x y w f \<and> ep' = (fst oe)\<lparr>vo_attr := a\<rparr>"
  proof (cases "a = vo_attr ep")
    case True
    then show ?thesis using assms by (simp add: use_attr_def o)
  next
    case False
    then have "ep' = ep\<lparr>vo_attr := a\<rparr>" "e' = emit_attr e a" using assms(2) by (auto simp: use_attr_def o)
    then show ?thesis using tty_attr [OF assms(1), of a] far_add [OF emitted_attr] by (simp add: o)
  qed
  then show "tty (far t e') c r v a x y w f" "ep' = (fst oe)\<lparr>vo_attr := a\<rparr>" by simp_all
qed

lemma render_cells:
  assumes t: "tty (far t e) c r v (vo_attr ep) 0 y False f" and p: "\<forall>i < c. c_ch (row ! i) < 0x80"
  shows "n \<le> c \<Longrightarrow> \<exists>a. fst (foldl (render_cell cp row) (ep, e) [0..<n]) = ep\<lparr>vo_attr := a\<rparr> \<and>
    tty (far t (snd (foldl (render_cell cp row) (ep, e) [0..<n]))) c r v a (min n (c - 1)) y (n = c)
      (\<lambda>i j. if j = y \<and> i < n then vis (row ! i) else f i j)"
proof (induction n)
  case 0
  have "0 < c" using tty_bounds [OF t] by simp
  then show ?case using t by (intro exI [of _ "vo_attr ep"]) simp
next
  case (Suc n)
  define oe where "oe = foldl (render_cell cp row) (ep, e) [0..<n]"
  have n: "n \<le> c" "min n (c - 1) = n" "(n = c) = False" using Suc.prems by auto
  from Suc.IH [OF n(1)] obtain a where a: "fst oe = ep\<lparr>vo_attr := a\<rparr>"
    and T: "tty (far t (snd oe)) c r v a n y False (\<lambda>i j. if j = y \<and> i < n then vis (row ! i) else f i j)"
    unfolding oe_def n(2,3) by blast
  let ?k = "row ! n"
  obtain ep1 e1 where u: "use_attr (c_attr ?k) oe = (ep1, e1)" by (cases "use_attr (c_attr ?k) oe")
  have T1: "tty (far t e1) c r v (c_attr ?k) n y False (\<lambda>i j. if j = y \<and> i < n then vis (row ! i) else f i j)" and e1: "ep1 = ep\<lparr>vo_attr := c_attr ?k\<rparr>"
    using use_attr_tty [OF _ u, of t c r v n y False "\<lambda>i j. if j = y \<and> i < n then vis (row ! i) else f i j"] T a by simp_all
  have step: "foldl (render_cell cp row) (ep, e) [0..<Suc n] = (ep1, emit_cell cp e1 (c_ch ?k))" by (simp add: oe_def [symmetric] render_cell_def u)
  have ch: "c_ch ?k < 0x80" using p Suc.prems by simp
  have "0x20 \<le> c_ch (vis ?k)" by (simp add: vis_def not_less)
  from tty_char [OF T1 this] have T2: "tty (ag_screen_write (far t e1) [c_ch (vis ?k)]) c r v (c_attr ?k) (min (n + 1) (c - 1)) y (n + 1 = c)
      (\<lambda>i j. if i = n \<and> j = y then \<lparr>c_ch = c_ch (vis ?k), c_attr = c_attr ?k\<rparr> else if j = y \<and> i < n then vis (row ! i) else f i j)" .
  have F: "(\<lambda>i j. if i = n \<and> j = y then \<lparr>c_ch = c_ch (vis ?k), c_attr = c_attr ?k\<rparr> else if j = y \<and> i < n then vis (row ! i) else f i j) =
      (\<lambda>i j. if j = y \<and> i < Suc n then vis (row ! i) else f i j)" by (auto simp: fun_eq_iff vis_def less_Suc_eq)
  have "far t (emit_cell cp e1 (c_ch ?k)) = ag_screen_write (far t e1) [c_ch (vis ?k)]" by (rule far_add) (simp add: emit_plain [OF ch] vis_def)
  then show ?case unfolding step using T2 e1 unfolding F by (intro exI [of _ "c_attr ?k"]) simp
qed

lemma row_cells: "size_ok s \<Longrightarrow> y < sc_rows s \<Longrightarrow> ag_screen_row s y = Some (drop (y * sc_cols s) (sc_cells s)) \<and>
    (\<forall>i < sc_cols s. drop (y * sc_cols s) (sc_cells s) ! i = cell_at s i y)"
proof -
  assume z: "size_ok s" "y < sc_rows s"
  have "y * sc_cols s + 0 < sc_cols s * sc_rows s" using z cell_bound [of 0 "sc_cols s" y "sc_rows s"] by (simp add: size_ok_def)
  then show ?thesis using z by (simp add: ag_screen_row_def cell_at_def size_ok_def)
qed

lemma plain_cell: "ascii_only s \<Longrightarrow> size_ok s \<Longrightarrow> i < sc_cols s \<Longrightarrow> j < sc_rows s \<Longrightarrow> c_ch (cell_at s i j) < 0x80"
  using cell_bound [of i "sc_cols s" j "sc_rows s"] by (auto simp: ascii_only_def list_all_length cell_at_def size_ok_def)

lemma render_row_tty:
  assumes t: "tty (far t e) c r v (vo_attr ep) x y0 w f" and s: "size_ok s" "ascii_only s" "c \<le> sc_cols s" "r \<le> sc_rows s" and y: "y < r"
  shows "\<exists>a x' w'. fst (render_row cp s y c (ep, e)) = ep\<lparr>vo_last_y := y, vo_attr := a, vo_last_x := AG_VT_X_UNKNOWN\<rparr> \<and>
    tty (far t (snd (render_row cp s y c (ep, e)))) c r v a x' y w' (\<lambda>i j. if j = y then vis (cell_at s i j) else f i j)"
proof -
  let ?row = "drop (y * sc_cols s) (sc_cells s)"
  have ys: "y < sc_rows s" using y s(4) by simp
  have row: "ag_screen_row s y = Some ?row" "\<And>i. i < c \<Longrightarrow> ?row ! i = cell_at s i y" using row_cells [OF s(1) ys] s(3) by auto
  define n where "n = row_extent ?row c"
  have n: "n \<le> c" "\<And>i. i < c \<Longrightarrow> n \<le> i \<Longrightarrow> cell_at s i y = blank AG_ATTR_DEFAULT" using extent_spec [where row = ?row and c = c] row(2) by (auto simp: n_def)
  let ?ep = "ep\<lparr>vo_last_y := y\<rparr>" let ?e = "emit_goto e 0 y"
  have "tty (far t ?e) c r v (vo_attr ?ep) 0 y False f" using tty_goto [OF t _ y, of 0] tty_bounds [OF t] by (simp add: write_append)
  moreover have "\<forall>i < c. c_ch (?row ! i) < 0x80" using plain_cell [OF s(2,1)] s(3) ys row(2) by simp
  ultimately obtain a where a: "fst (foldl (render_cell cp ?row) (?ep, ?e) [0..<n]) = ?ep\<lparr>vo_attr := a\<rparr>"
    and T: "tty (far t (snd (foldl (render_cell cp ?row) (?ep, ?e) [0..<n]))) c r v a (min n (c - 1)) y (n = c)
      (\<lambda>i j. if j = y \<and> i < n then vis (?row ! i) else f i j)" using render_cells n(1) by blast
  define oe where "oe = foldl (render_cell cp ?row) (?ep, ?e) [0..<n]"
  note a = a [folded oe_def] and T = T [folded oe_def]
  have vb: "vis (blank AG_ATTR_DEFAULT) = blank AG_ATTR_DEFAULT" by (simp add: vis_def blank_def)
  have rr: "render_row cp s y c (ep, e) = (let oe2 = (if n < c then case use_attr AG_ATTR_DEFAULT oe of (ep2, e2) \<Rightarrow> (ep2, emit e2 [0x1B, 0x5B, 0x4B]) else oe)
      in ((fst oe2)\<lparr>vo_last_x := AG_VT_X_UNKNOWN\<rparr>, snd oe2))" by (simp add: render_row_def row(1) n_def oe_def Let_def)
  show ?thesis
  proof (cases "n < c")
    case True
    obtain ep2 e2 where u: "use_attr AG_ATTR_DEFAULT oe = (ep2, e2)" by (cases "use_attr AG_ATTR_DEFAULT oe")
    have m: "min n (c - 1) = n" "(n = c) = False" using True by simp_all
    from T have "tty (far t (snd oe)) c r v (vo_attr (fst oe)) n y False (\<lambda>i j. if j = y \<and> i < n then vis (?row ! i) else f i j)" unfolding m a by simp
    note T2 = use_attr_tty [OF this u]
    have "tty (far t (emit e2 [0x1B, 0x5B, 0x4B])) c r v AG_ATTR_DEFAULT n y False
        (\<lambda>i j. if j = y \<and> n \<le> i then blank AG_ATTR_DEFAULT else if j = y \<and> i < n then vis (?row ! i) else f i j)"
      using tty_erase [OF T2(1)] by (simp add: write_append)
    then have "tty (far t (emit e2 [0x1B, 0x5B, 0x4B])) c r v AG_ATTR_DEFAULT n y False (\<lambda>i j. if j = y then vis (cell_at s i j) else f i j)"
      unfolding tty_def using n(2) row(2) vb by auto
    then show ?thesis using True T2(2) a by (auto simp: rr u Let_def)
  next
    case False
    then have "n = c" using n(1) by simp
    then have "tty (far t (snd oe)) c r v a (min n (c - 1)) y (n = c) (\<lambda>i j. if j = y then vis (cell_at s i j) else f i j)"
      using T row(2) unfolding tty_def by auto
    then show ?thesis using False a by (auto simp: rr Let_def)
  qed
qed

section \<open>A flush\<close>

text \<open>
  Between flushes: what the endpoint believes of the terminal is so, once it has painted it; a row that is not pending stands on the
  terminal, lower by the scrolling it has yet to be told.
\<close>

definition believed :: "nat \<Rightarrow> nat \<Rightarrow> ag_vtout \<Rightarrow> ag_screen \<Rightarrow> bool" where
  "believed c r ep t \<longleftrightarrow> screen_ok t \<and> ground t \<and> sc_cols t = c \<and> sc_rows t = r \<and> length (vo_dirty ep) = VO_WORDS \<and>
     (vo_last_x ep = AG_VT_X_UNKNOWN \<or> sc_x t = vo_last_x ep \<and> sc_y t = vo_last_y ep) \<and>
     (vo_synced ep \<longrightarrow> sc_attr t = vo_attr ep \<and> sc_visible t = vo_visible ep)"

definition owed :: "nat \<Rightarrow> nat \<Rightarrow> ag_vtout \<Rightarrow> ag_screen \<Rightarrow> (nat \<Rightarrow> nat \<Rightarrow> ag_cell) \<Rightarrow> bool" where
  "owed c r ep s f \<longleftrightarrow> (\<forall>y < r. row_pending ep y \<or>
     vo_synced ep \<and> y + vo_scroll ep < r \<and> (\<forall>x < c. f x (y + vo_scroll ep) = vis (cell_at s x y)))"

text \<open>In the middle of a flush.\<close>

definition going :: "ag_screen \<Rightarrow> nat \<Rightarrow> nat \<Rightarrow> ag_screen \<Rightarrow> ag_vtout \<times> emitter_t \<Rightarrow> bool" where
  "going t c r s oe \<longleftrightarrow> (\<exists>x y w f. tty (far t (snd oe)) c r (vo_visible (fst oe)) (vo_attr (fst oe)) x y w f \<and>
     (vo_last_x (fst oe) = AG_VT_X_UNKNOWN \<or> x = vo_last_x (fst oe) \<and> y = vo_last_y (fst oe)) \<and>
     length (vo_dirty (fst oe)) = VO_WORDS \<and> vo_synced (fst oe) \<and> owed c r (fst oe) s f)"

lemma sync_going:
  assumes "believed c r ep t" and "owed c r ep s (cell_at t)" and "emitted e = []"
  shows "going t c r s (flush_sync (ep, e))"
proof -
  let ?t = "\<lambda>v a. tty t c r v a (sc_x t) (sc_y t) (sc_wrap t) (cell_at t)"
  show ?thesis
  proof (cases "vo_synced ep")
    case True
    then have "?t (vo_visible ep) (vo_attr ep)" using assms(1) by (simp add: believed_def tty_def)
    then show ?thesis using assms True unfolding going_def by (auto simp: flush_sync_def believed_def)
  next
    case False
    have T: "?t (sc_visible t) (sc_attr t)" using assms(1) by (simp add: believed_def tty_def)
    have "tty (ag_screen_write (ag_screen_write t [0x1B, 0x5B, 0x3F, 0x32, 0x35, if False then 0x68 else 0x6C]) [0x1B, 0x5B, 0x30, 0x6D])
        c r False AG_ATTR_DEFAULT (sc_x t) (sc_y t) (sc_wrap t) (cell_at t)" by (rule tty_reset [OF tty_visible [OF T]])
    then have "tty (far t (snd (flush_sync (ep, e)))) c r False AG_ATTR_DEFAULT (sc_x t) (sc_y t) (sc_wrap t) (cell_at t)"
      using False assms(3) by (simp add: flush_sync_def write_append [symmetric])
    moreover have "owed c r (fst (flush_sync (ep, e))) s g" for g using assms(2) False by (simp add: owed_def flush_sync_def row_pending_def)
    ultimately show ?thesis using assms(1) False unfolding going_def by (auto simp: flush_sync_def believed_def)
  qed
qed

lemma newlines_tty:
  assumes "tty (far t e) c r v a x (r - 1) w f" and "1 < r"
  shows "n < r \<Longrightarrow> \<exists>w' x'. tty (far t (foldl (\<lambda>e _. emit_char e 0x0A) e [0..<n])) c r v a x' (r - 1) w'
    (\<lambda>i j. if j + n < r then f i (j + n) else blank a) \<and> (0 < n \<longrightarrow> x' = 0)"
proof (induction n)
  case 0
  have "tty (far t e) c r v a x (r - 1) w (\<lambda>i j. if j + 0 < r then f i (j + 0) else blank a)" using assms(1) by (auto simp: tty_def)
  moreover have z: "foldl (\<lambda>e _. emit_char e 0x0A) e [0..<0] = e" by simp
  ultimately show ?case unfolding z by blast
next
  case (Suc n)
  define e' where "e' = foldl (\<lambda>e _. emit_char e 0x0A) e [0..<n]"
  from Suc obtain w' x' where T: "tty (far t e') c r v a x' (r - 1) w' (\<lambda>i j. if j + n < r then f i (j + n) else blank a)" by (auto simp: e'_def)
  have "tty (far t (emit_char e' 0x0A)) c r v a 0 (r - 1) False (\<lambda>i j. if j + 1 < r then (if j + 1 + n < r then f i (j + 1 + n) else blank a) else blank a)"
    using tty_newline [OF T assms(2)] by (simp add: write_append)
  then have "tty (far t (emit_char e' 0x0A)) c r v a 0 (r - 1) False (\<lambda>i j. if j + Suc n < r then f i (j + Suc n) else blank a)"
    unfolding tty_def by auto
  then show ?case by (auto simp: e'_def)
qed

lemma scroll_going:
  assumes "going t c r s oe"
  shows "going t c r s (flush_scroll r oe) \<and> vo_scroll (fst (flush_scroll r oe)) = 0"
proof -
  obtain x y w f where T: "tty (far t (snd oe)) c r (vo_visible (fst oe)) (vo_attr (fst oe)) x y w f"
    and l: "vo_last_x (fst oe) = AG_VT_X_UNKNOWN \<or> x = vo_last_x (fst oe) \<and> y = vo_last_y (fst oe)" "length (vo_dirty (fst oe)) = VO_WORDS" "vo_synced (fst oe)"
    and o: "owed c r (fst oe) s f" using assms unfolding going_def by blast
  define n where "n = vo_scroll (fst oe)"
  show ?thesis
  proof (cases "n > 0 \<and> n < r")
    case False
    have "owed c r ((fst oe)\<lparr>vo_scroll := 0\<rparr>) s f" using o False by (auto simp: owed_def row_pending_def n_def)
    then show ?thesis using T l False unfolding going_def by (auto simp: flush_scroll_def Let_def n_def)
  next
    case True
    obtain ep1 e1 where g: "set_region r oe = (ep1, e1)" by (cases "set_region r oe")
    have T1: "tty (far t e1) c r (vo_visible (fst oe)) (vo_attr (fst oe)) x y w f" and g1: "ep1 = (fst oe)\<lparr>vo_region := r\<rparr>"
    proof -
      have "tty (far t e1) c r (vo_visible (fst oe)) (vo_attr (fst oe)) x y w f \<and> ep1 = (fst oe)\<lparr>vo_region := r\<rparr>"
      proof (cases "vo_region (fst oe) = r")
        case True
        then show ?thesis using g T by (auto simp: set_region_def split: prod.splits)
      next
        case False
        then have "e1 = emit_char (emit_uint (emit (snd oe) [0x1B, 0x5B, 0x31, 0x3B]) r) 0x72" "ep1 = (fst oe)\<lparr>vo_region := r\<rparr>"
          using g by (auto simp: set_region_def split: prod.splits)
        then show ?thesis using tty_region [OF T] by (simp add: write_append [symmetric])
      qed
      then show "tty (far t e1) c r (vo_visible (fst oe)) (vo_attr (fst oe)) x y w f" "ep1 = (fst oe)\<lparr>vo_region := r\<rparr>" by simp_all
    qed
    obtain ep2 e2 where u: "use_attr AG_ATTR_DEFAULT (ep1, e1) = (ep2, e2)" by (cases "use_attr AG_ATTR_DEFAULT (ep1, e1)")
    have T2: "tty (far t e2) c r (vo_visible (fst oe)) AG_ATTR_DEFAULT x y w f" and g2: "ep2 = ep1\<lparr>vo_attr := AG_ATTR_DEFAULT\<rparr>"
      using use_attr_tty [OF _ u, of t c r "vo_visible (fst oe)" x y w f] T1 by (simp_all add: g1)
    have "tty (far t (emit_goto e2 0 (r - 1))) c r (vo_visible (fst oe)) AG_ATTR_DEFAULT 0 (r - 1) False f"
      using tty_goto [OF T2, of 0 "r - 1"] tty_bounds [OF T2] by (simp add: write_append)
    from newlines_tty [OF this, of n] obtain w' where
      T3: "tty (far t (foldl (\<lambda>e _. emit_char e 0x0A) (emit_goto e2 0 (r - 1)) [0..<n])) c r (vo_visible (fst oe)) AG_ATTR_DEFAULT 0 (r - 1) w'
        (\<lambda>i j. if j + n < r then f i (j + n) else blank AG_ATTR_DEFAULT)" using True by auto
    have fs: "flush_scroll r oe = (ep2\<lparr>vo_last_x := 0, vo_last_y := r - 1, vo_scroll := 0\<rparr>,
        foldl (\<lambda>e _. emit_char e 0x0A) (emit_goto e2 0 (r - 1)) [0..<n])" using True by (simp add: flush_scroll_def Let_def n_def g u)
    have "owed c r (fst (flush_scroll r oe)) s (\<lambda>i j. if j + n < r then f i (j + n) else blank AG_ATTR_DEFAULT)"
      using o by (auto simp: owed_def row_pending_def fs g2 g1 n_def)
    then show ?thesis using T3 l unfolding going_def fs by (auto simp: g2 g1)
  qed
qed

lemma pending_done:
  assumes "length (vo_dirty ep) = VO_WORDS" and "y < 128"
  shows "row_pending (row_done ep y) z \<longleftrightarrow> z \<noteq> y \<and> row_pending ep z"
proof -
  have "y div 32 < length (vo_dirty ep)" using assms by (simp add: VO_WORDS_def)
  then show ?thesis by (simp add: row_pending_def row_done_def has_clear_bit)
qed

lemma row_going:
  assumes g: "going t c r s oe" "vo_scroll (fst oe) = 0" and s: "size_ok s" "ascii_only s" "c \<le> sc_cols s" "r \<le> sc_rows s" and y: "y < r"
  shows "going t c r s (flush_row cp s c oe y)" "vo_scroll (fst (flush_row cp s c oe y)) = 0"
    "row_pending (fst (flush_row cp s c oe y)) z \<longleftrightarrow> z \<noteq> y \<and> row_pending (fst oe) z"
proof -
  obtain ep e where oe: "oe = (ep, e)" by (cases oe)
  obtain x y0 w f where T: "tty (far t e) c r (vo_visible ep) (vo_attr ep) x y0 w f"
    and l: "length (vo_dirty ep) = VO_WORDS" "vo_synced ep"
    and o: "owed c r ep s f" using g(1) unfolding going_def oe by auto
  let ?G = "\<lambda>oe'. going t c r s oe' \<and> vo_scroll (fst oe') = 0 \<and> (\<forall>z. row_pending (fst oe') z \<longleftrightarrow> z \<noteq> y \<and> row_pending ep z)"
  have "?G (flush_row cp s c oe y)"
  proof (cases "row_pending ep y")
    case False
    then show ?thesis using g by (auto simp: flush_row_def oe)
  next
    case True
    obtain a x' w' where R: "fst (render_row cp s y c (ep, e)) = ep\<lparr>vo_last_y := y, vo_attr := a, vo_last_x := AG_VT_X_UNKNOWN\<rparr>"
      and T': "tty (far t (snd (render_row cp s y c (ep, e)))) c r (vo_visible ep) a x' y w' (\<lambda>i j. if j = y then vis (cell_at s i j) else f i j)"
      using render_row_tty [OF T s y] by blast
    define ep1 where "ep1 = ep\<lparr>vo_last_y := y, vo_attr := a, vo_last_x := AG_VT_X_UNKNOWN\<rparr>"
    define e1 where "e1 = snd (render_row cp s y c (ep, e))"
    have F: "flush_row cp s c oe y = (row_done ep1 y, e1)"
      using True R by (cases "render_row cp s y c (ep, e)") (simp add: flush_row_def oe ep1_def e1_def)
    have "y < 128" using tty_bounds [OF T] y by simp
    then have p: "row_pending (row_done ep1 y) z \<longleftrightarrow> z \<noteq> y \<and> row_pending ep z" for z
      using pending_done [of ep1 y] l(1) by (simp add: ep1_def row_pending_def)
    have d: "vo_visible (row_done ep1 y) = vo_visible ep" "vo_attr (row_done ep1 y) = a" "vo_last_x (row_done ep1 y) = AG_VT_X_UNKNOWN"
      "length (vo_dirty (row_done ep1 y)) = VO_WORDS" "vo_synced (row_done ep1 y)" "vo_scroll (row_done ep1 y) = 0"
      using l g(2) by (simp_all add: row_done_def ep1_def oe)
    have "owed c r (row_done ep1 y) s (\<lambda>i j. if j = y then vis (cell_at s i j) else f i j)"
      using o g(2) y d(5) unfolding owed_def d(6) p by (auto simp: oe)
    then have "going t c r s (row_done ep1 y, e1)" unfolding going_def using T' d by (auto simp: e1_def)
    then show ?thesis unfolding F using d p by simp
  qed
  then show "going t c r s (flush_row cp s c oe y)" "vo_scroll (fst (flush_row cp s c oe y)) = 0"
    "row_pending (fst (flush_row cp s c oe y)) z \<longleftrightarrow> z \<noteq> y \<and> row_pending (fst oe) z" by (simp_all add: oe)
qed

lemma rows_going:
  assumes g: "going t c r s oe" "vo_scroll (fst oe) = 0" and s: "size_ok s" "ascii_only s" "c \<le> sc_cols s" "r \<le> sc_rows s"
  shows "n \<le> r \<Longrightarrow> going t c r s (foldl (flush_row cp s c) oe [0..<n]) \<and> vo_scroll (fst (foldl (flush_row cp s c) oe [0..<n])) = 0 \<and>
    (\<forall>y < n. \<not> row_pending (fst (foldl (flush_row cp s c) oe [0..<n])) y)"
proof (induction n)
  case (Suc n)
  let ?oe = "foldl (flush_row cp s c) oe [0..<n]"
  have i: "going t c r s ?oe" "vo_scroll (fst ?oe) = 0" and n: "n < r" using Suc by simp_all
  show ?case using row_going [OF i s n, of cp] Suc by (auto simp: less_Suc_eq)
qed (simp add: g)

lemma done_eq: "foldl row_done ep ys = ep\<lparr>vo_dirty := foldl clear_bit (vo_dirty ep) ys\<rparr>"
  by (induction ys arbitrary: ep) (simp_all add: row_done_def)

lemma clear_bits:
  assumes "length d = VO_WORDS" and "\<forall>y \<in> set ys. y < 128"
  shows "length (foldl clear_bit d ys) = VO_WORDS \<and> (has_bit (foldl clear_bit d ys) z \<longleftrightarrow> z \<notin> set ys \<and> has_bit d z)"
  using assms
proof (induction ys arbitrary: d)
  case (Cons y ys)
  have "y div 32 < length d" using Cons.prems less_mult_imp_div_less [of y 4 32] by (simp add: VO_WORDS_def)
  then show ?case using Cons.IH [of "clear_bit d y"] Cons.prems has_clear_bit [of y d z] by auto
qed simp

lemma no_bits: "length d = VO_WORDS \<Longrightarrow> (\<forall>y < 128. \<not> has_bit d y) \<Longrightarrow> \<not> list_ex (\<lambda>w. w \<noteq> 0) d"
proof -
  assume l: "length d = VO_WORDS" and n: "\<forall>y < 128. \<not> has_bit d y"
  have "d ! i = 0" if "i < 4" for i
  proof (rule bit_eqI)
    fix b assume "possible_bit TYPE(u32) b"
    then have b: "b < 32" by (simp add: possible_bit_word)
    have "\<not> has_bit d (i * 32 + b)" using n that b by simp
    then show "bit (d ! i) b = bit (0 :: u32) b" using b by (simp add: has_bit_iff)
  qed
  then show ?thesis using l by (auto simp: list_ex_length VO_WORDS_def)
qed

lemma put_cursor_tty:
  assumes T: "tty (far t (snd oe)) c r (vo_visible (fst oe)) (vo_attr (fst oe)) x y w f"
    and l: "vo_last_x (fst oe) = AG_VT_X_UNKNOWN \<or> x = vo_last_x (fst oe) \<and> y = vo_last_y (fst oe)" and cb: "cx < c" "cy < r" "cx \<noteq> AG_VT_X_UNKNOWN"
  shows "\<exists>w'. tty (far t (snd (put_cursor cx cy oe))) c r (vo_visible (fst oe)) (vo_attr (fst oe)) cx cy w' f"
    "fst (put_cursor cx cy oe) = (fst oe)\<lparr>vo_last_x := cx, vo_last_y := cy\<rparr>"
proof -
  obtain ep e where oe: "oe = (ep, e)" by (cases oe)
  show "fst (put_cursor cx cy oe) = (fst oe)\<lparr>vo_last_x := cx, vo_last_y := cy\<rparr>" by (auto simp: put_cursor_def oe)
  show "\<exists>w'. tty (far t (snd (put_cursor cx cy oe))) c r (vo_visible (fst oe)) (vo_attr (fst oe)) cx cy w' f"
  proof (cases "vo_last_x ep \<noteq> cx \<or> vo_last_y ep \<noteq> cy")
    case True
    then show ?thesis using tty_goto [OF T cb(1,2)] by (auto simp: put_cursor_def oe write_append)
  next
    case False
    then show ?thesis using T l cb by (auto simp: put_cursor_def oe)
  qed
qed

lemma show_cursor_tty:
  assumes T: "tty (far t (snd oe)) c r (vo_visible (fst oe)) a x y w f"
  shows "tty (far t (snd (show_cursor v oe))) c r v a x y w f" "fst (show_cursor v oe) = (fst oe)\<lparr>vo_visible := v\<rparr>"
proof -
  obtain ep e where oe: "oe = (ep, e)" by (cases oe)
  show "fst (show_cursor v oe) = (fst oe)\<lparr>vo_visible := v\<rparr>" by (auto simp: show_cursor_def oe)
  show "tty (far t (snd (show_cursor v oe))) c r v a x y w f"
  proof (cases "vo_visible ep = v")
    case True
    then show ?thesis using T by (auto simp: show_cursor_def oe)
  next
    case False
    then have "snd (show_cursor v oe) = emit e [0x1B, 0x5B, 0x3F, 0x32, 0x35, if v then 0x68 else 0x6C]" by (simp add: show_cursor_def oe)
    then show ?thesis using tty_visible [OF T, of v] unfolding oe snd_conv by (simp only: emitted_emit write_append)
  qed
qed

lemma cursor_tty:
  assumes T: "tty (far t (snd oe)) c r (vo_visible (fst oe)) (vo_attr (fst oe)) x y w f"
    and l: "vo_last_x (fst oe) = AG_VT_X_UNKNOWN \<or> x = vo_last_x (fst oe) \<and> y = vo_last_y (fst oe)"
  shows "\<exists>w'. tty (far t (snd (flush_cursor s c r oe))) c r (sc_visible s) (vo_attr (fst oe)) (min (sc_x s) (c - 1)) (min (sc_y s) (r - 1)) w' f"
    "fst (flush_cursor s c r oe) = (fst oe)\<lparr>vo_last_x := min (sc_x s) (c - 1), vo_last_y := min (sc_y s) (r - 1), vo_visible := sc_visible s\<rparr>"
proof -
  define cx where "cx = min (sc_x s) (c - 1)"
  define cy where "cy = min (sc_y s) (r - 1)"
  note b = tty_bounds [OF T]
  have m: "(if sc_x s < c then sc_x s else c - 1) = cx" "(if sc_y s < r then sc_y s else r - 1) = cy" using b by (auto simp: cx_def cy_def)
  have cb: "cx < c" "cy < r" "cx \<noteq> AG_VT_X_UNKNOWN" using b by (auto simp: cx_def cy_def AG_VT_X_UNKNOWN_def)
  note p = put_cursor_tty [OF T l cb]
  from p(1) obtain w' where "tty (far t (snd (put_cursor cx cy oe))) c r (vo_visible (fst (put_cursor cx cy oe))) (vo_attr (fst oe)) cx cy w' f"
    unfolding p(2) by auto
  note q = show_cursor_tty [OF this, of "sc_visible s"]
  show "\<exists>w'. tty (far t (snd (flush_cursor s c r oe))) c r (sc_visible s) (vo_attr (fst oe)) (min (sc_x s) (c - 1)) (min (sc_y s) (r - 1)) w' f"
    using q(1) unfolding flush_cursor_def m cx_def [symmetric] cy_def [symmetric] by blast
  show "fst (flush_cursor s c r oe) = (fst oe)\<lparr>vo_last_x := min (sc_x s) (c - 1), vo_last_y := min (sc_y s) (r - 1), vo_visible := sc_visible s\<rparr>"
    using q(2) p(2) unfolding flush_cursor_def m cx_def [symmetric] cy_def [symmetric] by simp
qed

end
