(* ===== verification/VtRound.thy ===== *)
theory VtRound
  imports VtMirror
begin

text \<open>
  The passes of \<open>render_all\<close> of \<open>console/console.c\<close>, for one endpoint: its terminal shows the screen after each, whatever was called between.
\<close>

section \<open>A whole flush\<close>

definition same_window :: "ag_vtout \<Rightarrow> ag_vtout \<Rightarrow> bool" where
  "same_window ep ep' \<longleftrightarrow> vo_cols ep' = vo_cols ep \<and> vo_rows ep' = vo_rows ep"

lemma window_use [simp]: "same_window (fst oe) (fst (use_attr a oe))"
  by (simp add: same_window_def use_attr_def case_prod_beta)

lemma window_foldl: "(\<And>oe x. same_window (fst oe) (fst (g oe x))) \<Longrightarrow> same_window (fst oe) (fst (foldl g oe xs))"
  by (induction xs arbitrary: oe) (auto simp: same_window_def)

lemma window_cell: "same_window (fst oe) (fst (render_cell cp row oe x))"
  using window_use [of oe "c_attr (row ! x)"] by (simp add: render_cell_def case_prod_beta)

lemma window_row: "same_window (fst oe) (fst (flush_row cp s c oe y))"
proof -
  have "same_window ep (fst (render_row cp s y c (ep, e)))" for ep e
  proof (cases "ag_screen_row s y")
    case (Some row)
    let ?oe = "foldl (render_cell cp row) (ep\<lparr>vo_last_y := y\<rparr>, emit_goto e 0 y) [0..<row_extent row c]"
    have "same_window (fst (ep\<lparr>vo_last_y := y\<rparr>, emit_goto e 0 y)) (fst ?oe)" by (rule window_foldl) (rule window_cell)
    then show ?thesis using window_use [of ?oe AG_ATTR_DEFAULT] Some by (simp add: render_row_def Let_def same_window_def case_prod_beta)
  qed (simp add: render_row_def same_window_def)
  then show ?thesis by (cases oe) (auto simp: flush_row_def same_window_def row_done_def case_prod_beta)
qed

lemma window_sync: "same_window ep (fst (flush_sync (ep, e)))"
  by (simp add: flush_sync_def same_window_def)

lemma window_scroll: "same_window (fst oe) (fst (flush_scroll r oe))"
proof -
  have "same_window (fst oe) (fst (set_region r oe))" by (simp add: set_region_def same_window_def case_prod_beta)
  then show ?thesis using window_use [of "set_region r oe" AG_ATTR_DEFAULT] by (simp add: flush_scroll_def Let_def same_window_def case_prod_beta)
qed

lemma flush_spec:
  assumes b: "believed c r ep t" and o: "owed c r ep s (cell_at t)" and s: "screen_ok s" "ascii_only s"
    and cr: "c = smaller (vo_cols ep) (sc_cols s)" "r = smaller (vo_rows ep) (sc_rows s)"
    and f: "ag_vtout_flush cp ep s = (ep', bs)"
  shows "tty (ag_screen_write t (concat bs)) c r (sc_visible s) (vo_attr ep') (min (sc_x s) (c - 1)) (min (sc_y s) (r - 1))
      (sc_wrap (ag_screen_write t (concat bs))) (\<lambda>i j. vis (cell_at s i j))"
    "believed c r ep' (ag_screen_write t (concat bs))" "\<not> ag_vtout_pending ep'" "vo_scroll ep' = 0" "same_window ep ep'" "vo_synced ep'"
proof -
  let ?e = "\<lparr>em_sunk = [], em_buf = []\<rparr>"
  have z: "size_ok s" "c \<le> sc_cols s" "r \<le> sc_rows s" using ok_bounds [OF s(1)] cr by (auto simp: smaller_def)
  have r: "r \<le> 128" using ok_bounds [OF s(1)] z(3) by simp
  define oe1 where "oe1 = flush_scroll r (flush_sync (ep, ?e))"
  define oe2 where "oe2 = foldl (flush_row cp s c) oe1 [0..<r]"
  define ep3 where "ep3 = foldl row_done (fst oe2) [r..<AG_SCREEN_MAX_ROWS]"
  define oe4 where "oe4 = flush_cursor s c r (ep3, snd oe2)"
  have F: "ep' = fst oe4" "concat bs = emitted (snd oe4)"
    using f by (auto simp: ag_vtout_flush_def Let_def cr [symmetric] oe1_def [symmetric] oe2_def [symmetric] ep3_def [symmetric] oe4_def [symmetric] emitted_drain)
  have "going t c r s (flush_sync (ep, ?e))" using b o by (rule sync_going) (simp add: emitted_def)
  then have g1: "going t c r s oe1" "vo_scroll (fst oe1) = 0" using scroll_going by (auto simp: oe1_def)
  have g2: "going t c r s oe2" "vo_scroll (fst oe2) = 0" "\<forall>y < r. \<not> row_pending (fst oe2) y"
    using rows_going [OF g1 z(1) s(2) z(2,3), of r cp] by (simp_all add: oe2_def)
  obtain x y w g where T: "tty (far t (snd oe2)) c r (vo_visible (fst oe2)) (vo_attr (fst oe2)) x y w g"
    and l: "vo_last_x (fst oe2) = AG_VT_X_UNKNOWN \<or> x = vo_last_x (fst oe2) \<and> y = vo_last_y (fst oe2)"
      "length (vo_dirty (fst oe2)) = VO_WORDS" "vo_synced (fst oe2)" and o2: "owed c r (fst oe2) s g" using g2(1) unfolding going_def by blast
  have ep3: "ep3 = (fst oe2)\<lparr>vo_dirty := foldl clear_bit (vo_dirty (fst oe2)) [r..<AG_SCREEN_MAX_ROWS]\<rparr>" by (simp add: ep3_def done_eq)
  have cell: "g i j = vis (cell_at s i j)" if "i < c" "j < r" for i j using o2 g2(2,3) that by (auto simp: owed_def)
  have T3: "tty (far t (snd (ep3, snd oe2))) c r (vo_visible (fst (ep3, snd oe2))) (vo_attr (fst (ep3, snd oe2))) x y w (\<lambda>i j. vis (cell_at s i j))"
    using T cell by (simp add: ep3 tty_def)
  have l3: "vo_last_x (fst (ep3, snd oe2)) = AG_VT_X_UNKNOWN \<or> x = vo_last_x (fst (ep3, snd oe2)) \<and> y = vo_last_y (fst (ep3, snd oe2))"
    using l(1) by (simp add: ep3)
  note q = cursor_tty [OF T3 l3, of s, folded oe4_def]
  have e4: "ep' = ep3\<lparr>vo_last_x := min (sc_x s) (c - 1), vo_last_y := min (sc_y s) (r - 1), vo_visible := sc_visible s\<rparr>" using q(2) F(1) by simp
  show T4: "tty (ag_screen_write t (concat bs)) c r (sc_visible s) (vo_attr ep') (min (sc_x s) (c - 1)) (min (sc_y s) (r - 1))
      (sc_wrap (ag_screen_write t (concat bs))) (\<lambda>i j. vis (cell_at s i j))" using q(1) F(2) by (auto simp: tty_def e4)
  have d: "length (vo_dirty ep') = VO_WORDS \<and> (has_bit (vo_dirty ep') j \<longleftrightarrow> j \<notin> set [r..<AG_SCREEN_MAX_ROWS] \<and> has_bit (vo_dirty (fst oe2)) j)" for j
    using clear_bits [OF l(2), of "[r..<AG_SCREEN_MAX_ROWS]" j] by (simp add: e4 ep3 AG_SCREEN_MAX_ROWS_def)
  show "believed c r ep' (ag_screen_write t (concat bs))" using T4 d by (auto simp: believed_def tty_def e4)
  have "\<not> has_bit (vo_dirty ep') j" if "j < 128" for j using d [of j] g2(3) that by (auto simp: row_pending_def AG_SCREEN_MAX_ROWS_def)
  then show "\<not> ag_vtout_pending ep'" unfolding ag_vtout_pending_def using d by (intro no_bits) auto
  show "vo_scroll ep' = 0" "vo_synced ep'" using g2(2) l(3) by (simp_all add: e4 ep3)
  have "same_window (fst oe1) (fst oe2)" unfolding oe2_def by (rule window_foldl) (rule window_row)
  then show "same_window ep ep'" using window_sync [of ep ?e] window_scroll [of "flush_sync (ep, ?e)" r]
    by (simp add: same_window_def oe1_def [symmetric] e4 ep3)
qed

section \<open>The marks of the screen\<close>

lemma or_words:
  assumes "n \<le> length d"
  shows "length (foldl (\<lambda>d i. d[i := d ! i OR e ! i]) d [0..<n]) = length d \<and>
    (has_bit (foldl (\<lambda>d i. d[i := d ! i OR e ! i]) d [0..<n]) y \<longleftrightarrow> has_bit d y \<or> y div 32 < n \<and> has_bit e y) \<and>
    (\<forall>i \<ge> n. foldl (\<lambda>d i. d[i := d ! i OR e ! i]) d [0..<n] ! i = d ! i)"
  using assms
proof (induction n)
  case (Suc n)
  let ?d = "foldl (\<lambda>d i. d[i := d ! i OR e ! i]) d [0..<n]"
  have i: "length ?d = length d" "has_bit ?d y \<longleftrightarrow> has_bit d y \<or> y div 32 < n \<and> has_bit e y" "\<And>i. n \<le> i \<Longrightarrow> ?d ! i = d ! i" using Suc by auto
  have "has_bit (?d[n := ?d ! n OR e ! n]) y \<longleftrightarrow> has_bit ?d y \<or> y div 32 = n \<and> has_bit e y"
    using i(1) Suc.prems by (cases "y div 32 = n") (auto simp: has_bit_iff bit_or_iff)
  then show ?case using i Suc.prems by (auto simp: less_Suc_eq)
qed simp

lemma take_window: "same_window ep (ag_vtout_take_dirty ep s)"
  by (simp add: ag_vtout_take_dirty_def Let_def same_window_def ag_vtout_mark_all_def shift_pending_up_def)

lemma mark_all_pending: "y < 128 \<Longrightarrow> row_pending (ag_vtout_mark_all ep) y"
  using has_bit_all [of y 128] by (simp add: row_pending_def ag_vtout_mark_all_def VO_WORDS_def dirty_words_def)

text \<open>The endpoint told of the scrolling, before the marks are added.\<close>

definition told :: "ag_vtout \<Rightarrow> ag_screen \<Rightarrow> nat \<Rightarrow> ag_vtout" where
  "told ep s r = (let m = sc_scrolled s in if m > 0 then
     if \<not> ag_screen_scroll_usable (Some s) \<or> m \<ge> r \<or> vo_scroll ep + m \<ge> r then ag_vtout_mark_all ep
     else (shift_pending_up ep r m)\<lparr>vo_scroll := vo_scroll ep + m\<rparr> else ep)"

lemma told_pending:
  assumes "length (vo_dirty ep) = VO_WORDS" and "r \<le> 128"
  shows "length (vo_dirty (told ep s r)) = VO_WORDS"
    "y < r \<Longrightarrow> row_pending (told ep s r) y \<or> told ep s r = ep \<and> sc_scrolled s = 0 \<and> \<not> row_pending ep y \<or>
      told ep s r = (shift_pending_up ep r (sc_scrolled s))\<lparr>vo_scroll := vo_scroll ep + sc_scrolled s\<rparr> \<and>
      y + sc_scrolled s < r \<and> \<not> row_pending ep (y + sc_scrolled s)"
proof -
  let ?m = "sc_scrolled s"
  have dw: "dirty_words r \<le> length (vo_dirty ep)" using assms by (simp add: dirty_words_def VO_WORDS_def)
  show "length (vo_dirty (told ep s r)) = VO_WORDS"
    using assms(1) shift_bits_spec(1) [OF _ _ dw, of ?m] by (auto simp: told_def Let_def ag_vtout_mark_all_def shift_pending_up_def)
  show "row_pending (told ep s r) y \<or> told ep s r = ep \<and> ?m = 0 \<and> \<not> row_pending ep y \<or>
      told ep s r = (shift_pending_up ep r ?m)\<lparr>vo_scroll := vo_scroll ep + ?m\<rparr> \<and> y + ?m < r \<and> \<not> row_pending ep (y + ?m)" if y: "y < r"
  proof -
    consider "?m = 0" "told ep s r = ep" | "told ep s r = ag_vtout_mark_all ep"
      | "0 < ?m" "?m < r" "told ep s r = (shift_pending_up ep r ?m)\<lparr>vo_scroll := vo_scroll ep + ?m\<rparr>"
      by (cases "?m = 0"; cases "\<not> ag_screen_scroll_usable (Some s) \<or> ?m \<ge> r \<or> vo_scroll ep + ?m \<ge> r") (simp_all add: told_def Let_def)
    then show ?thesis
    proof cases
      case 2
      then show ?thesis using mark_all_pending [of y ep] y assms(2) by simp
    next
      case 3
      have "row_pending (told ep s r) y \<longleftrightarrow> r \<le> y + ?m \<or> row_pending ep (y + ?m)"
        using shift_bits_spec(2) [OF 3(1,2) dw y] 3(3) by (simp add: row_pending_def shift_pending_up_def)
      then show ?thesis using 3(3) by auto
    qed auto
  qed
qed

lemma take_dirty_eq: "ag_vtout_take_dirty ep s = (let ep1 = told ep s (smaller (vo_rows ep) (sc_rows s)) in
    ep1\<lparr>vo_dirty := foldl (\<lambda>d i. d[i := d ! i OR sc_dirty s ! i]) (vo_dirty ep1) [0..<min (dirty_words (sc_rows s)) VO_WORDS]\<rparr>)"
  unfolding ag_vtout_take_dirty_def Let_def told_def ag_screen_scrolled_def by simp

lemma take_dirty_believed:
  assumes s: "screen_ok s" and b: "believed c r ep t" and r: "r = smaller (vo_rows ep) (sc_rows s)"
  shows "believed c r (ag_vtout_take_dirty ep s) t" "vo_synced (ag_vtout_take_dirty ep s) = vo_synced (told ep s r)"
    "vo_scroll (ag_vtout_take_dirty ep s) = vo_scroll (told ep s r)"
    "y < r \<Longrightarrow> row_pending (ag_vtout_take_dirty ep s) y \<longleftrightarrow> row_pending (told ep s r) y \<or> has_bit (sc_dirty s) y"
proof -
  have z: "r \<le> sc_rows s" "sc_rows s \<le> 128" using ok_bounds [OF s] r by (auto simp: smaller_def)
  have len: "length (vo_dirty ep) = VO_WORDS" using b by (simp add: believed_def)
  have r128: "r \<le> 128" using z by simp
  note l1 = told_pending(1) [OF len r128, of s]
  note w = or_words [of "min (dirty_words (sc_rows s)) VO_WORDS" "vo_dirty (told ep s r)" "sc_dirty s", unfolded l1]
  have td: "ag_vtout_take_dirty ep s = (told ep s r)\<lparr>vo_dirty := foldl (\<lambda>d i. d[i := d ! i OR sc_dirty s ! i]) (vo_dirty (told ep s r)) [0..<min (dirty_words (sc_rows s)) VO_WORDS]\<rparr>"
    unfolding take_dirty_eq Let_def r by simp
  show "believed c r (ag_vtout_take_dirty ep s) t"
    using b w [of 0] unfolding td by (auto simp: believed_def told_def Let_def ag_vtout_mark_all_def shift_pending_up_def)
  show "vo_synced (ag_vtout_take_dirty ep s) = vo_synced (told ep s r)" "vo_scroll (ag_vtout_take_dirty ep s) = vo_scroll (told ep s r)" by (simp_all add: td)
  show "row_pending (ag_vtout_take_dirty ep s) y \<longleftrightarrow> row_pending (told ep s r) y \<or> has_bit (sc_dirty s) y" if "y < r"
  proof -
    have "y div 32 < min (dirty_words (sc_rows s)) VO_WORDS"
      using that z row_word_le [of y "sc_rows s" "replicate (dirty_words (sc_rows s)) 0"] less_mult_imp_div_less [of y 4 32] by (simp add: VO_WORDS_def)
    then show ?thesis using w [of y] by (auto simp: row_pending_def td)
  qed
qed

text \<open>What the screen did since the last pass, taken over by the endpoint.\<close>

lemma take_dirty_owed:
  assumes s: "screen_ok s" and cs: "Clear_dirty \<notin> set cs" and s': "s' = foldl screen_do (ag_screen_clear_dirty s) cs"
    and b: "believed c r ep t" and o: "owed c r ep s (cell_at t)"
    and cr: "c = smaller (vo_cols ep) (sc_cols s)" "r = smaller (vo_rows ep) (sc_rows s)" and d: "sc_rows s' = sc_rows s" and ok: "screen_ok s'"
  shows "owed c r (ag_vtout_take_dirty ep s') s' (cell_at t)"
proof -
  have z: "r \<le> sc_rows s" "c \<le> sc_cols s" "sc_rows s \<le> 128" using ok_bounds [OF s] cr by (auto simp: smaller_def)
  have r: "r = smaller (vo_rows ep) (sc_rows s')" "r \<le> 128" using cr d z by simp_all
  have len: "length (vo_dirty ep) = VO_WORDS" using b by (simp add: believed_def)
  note k = take_dirty_believed [OF ok b r(1)]
  let ?m = "sc_scrolled s'"
  show ?thesis unfolding owed_def k(2,3) disj_imp
  proof (intro allI impI)
    fix y assume y: "y < r" "\<not> row_pending (ag_vtout_take_dirty ep s') y"
    then have n: "\<not> row_pending (told ep s' r) y" "\<not> has_bit (sc_dirty s') y" using k(4) by auto
    have c: "y + ?m < sc_rows s \<and> (\<forall>x < sc_cols s. cell_at s' x y = cell_at s x (y + ?m))"
      using clear_tracked [OF s cs s', of y] y(1) n(2) z d by (simp add: ag_screen_row_dirty_def)
    from told_pending(2) [OF len r(2) y(1), of s'] n(1)
    consider "told ep s' r = ep" "?m = 0" "\<not> row_pending ep y"
      | "told ep s' r = (shift_pending_up ep r ?m)\<lparr>vo_scroll := vo_scroll ep + ?m\<rparr>" "y + ?m < r" "\<not> row_pending ep (y + ?m)" by auto
    then show "vo_synced (told ep s' r) \<and> y + vo_scroll (told ep s' r) < r \<and>
        (\<forall>x < c. cell_at t x (y + vo_scroll (told ep s' r)) = vis (cell_at s' x y))"
    proof cases
      case 1
      then show ?thesis using o y(1) c z unfolding owed_def by auto
    next
      case 2
      then have "vo_synced ep \<and> y + ?m + vo_scroll ep < r \<and> (\<forall>x < c. cell_at t x (y + ?m + vo_scroll ep) = vis (cell_at s x (y + ?m)))"
        using o unfolding owed_def by blast
      then show ?thesis using 2(1) c z(2) by (auto simp: shift_pending_up_def add.assoc add.commute [of ?m])
    qed
  qed
qed

text \<open>And when everything is pending anyway.\<close>

lemma take_dirty_all:
  assumes ok: "screen_ok s" and b: "believed c r ep t" and a: "\<forall>y < r. row_pending ep y" and r: "r = smaller (vo_rows ep) (sc_rows s)"
  shows "owed c r (ag_vtout_take_dirty ep s) s f"
proof -
  have "r \<le> 128" "length (vo_dirty ep) = VO_WORDS" using ok_bounds [OF ok] r b by (auto simp: smaller_def believed_def)
  then show ?thesis unfolding owed_def using take_dirty_believed(4) [OF ok b r] told_pending(2) [of ep r _ s] a by blast
qed

section \<open>Text of seven bits\<close>

lemma plain_set: "ascii_only s \<Longrightarrow> ch < 0x80 \<Longrightarrow> ascii_only (set_cell s x y \<lparr>c_ch = ch, c_attr = a\<rparr>)"
  by (auto simp: ascii_only_def set_cell_def list_all_iff dest: set_update_subset_insert [THEN subsetD])

lemma plain_foldl: "ascii_only s \<Longrightarrow> (\<And>s x. ascii_only s \<Longrightarrow> ascii_only (g s x)) \<Longrightarrow> ascii_only (foldl g s xs)"
  by (induction xs arbitrary: s) auto

lemma plain_mark [simp]: "ascii_only (ag_screen_mark_row_dirty s y) = ascii_only s" "ascii_only (ag_screen_mark_all_dirty s) = ascii_only s" "ascii_only (bump s) = ascii_only s"
  "ascii_only (shift_dirty_up s n) = ascii_only s" "ascii_only (ag_screen_clear_dirty s) = ascii_only s"
  by (simp_all add: ascii_only_def ag_screen_mark_row_dirty_def ag_screen_mark_all_dirty_def bump_def shift_dirty_up_def ag_screen_clear_dirty_def)

lemma plain_fill: "ascii_only s \<Longrightarrow> ch < 0x80 \<Longrightarrow> ascii_only (fill_row s y x0 x1 ch a)"
  by (auto simp: fill_row_def Let_def intro!: plain_foldl plain_set)

lemma plain_blank_rows: "ascii_only s \<Longrightarrow> ascii_only (blank_rows s ys)"
  unfolding blank_rows_def by (erule plain_foldl) (rule plain_fill, auto)

lemma plain_update:
  "ascii_only (s\<lparr>sc_x := x\<rparr>) = ascii_only s" "ascii_only (s\<lparr>sc_y := x\<rparr>) = ascii_only s" "ascii_only (s\<lparr>sc_wrap := b\<rparr>) = ascii_only s" "ascii_only (s\<lparr>sc_attr := a\<rparr>) = ascii_only s"
  "ascii_only (s\<lparr>sc_reverse := b\<rparr>) = ascii_only s" "ascii_only (s\<lparr>sc_state := v\<rparr>) = ascii_only s" "ascii_only (s\<lparr>sc_scrolled := n\<rparr>) = ascii_only s" "ascii_only (s\<lparr>sc_visible := b\<rparr>) = ascii_only s"
  "ascii_only (s\<lparr>sc_saved_x := x\<rparr>) = ascii_only s" "ascii_only (s\<lparr>sc_saved_y := x\<rparr>) = ascii_only s" "ascii_only (s\<lparr>sc_saved_attr := a\<rparr>) = ascii_only s"
  "ascii_only (s\<lparr>sc_params := p\<rparr>) = ascii_only s" "ascii_only (s\<lparr>sc_nparams := n\<rparr>) = ascii_only s" "ascii_only (s\<lparr>sc_private := b\<rparr>) = ascii_only s"
  by (simp_all add: ascii_only_def)

lemma plain_scroll_up: "ascii_only s \<Longrightarrow> ascii_only (ag_screen_scroll_up s n)"
proof -
  assume p: "ascii_only s"
  have "ascii_only (s\<lparr>sc_cells := take m (drop k (sc_cells s)) @ drop m (sc_cells s)\<rparr>)" for m k
    using p by (auto simp: ascii_only_def list_all_iff dest: in_set_takeD in_set_dropD)
  then show ?thesis using p unfolding ag_screen_scroll_up_def Let_def by (auto simp: plain_update intro!: plain_blank_rows)
qed

lemma plain_scroll_down: "ascii_only s \<Longrightarrow> ascii_only (scroll_down s n)"
proof -
  assume p: "ascii_only s"
  have "ascii_only (s\<lparr>sc_cells := take m (sc_cells s) @ take k (sc_cells s)\<rparr>)" for m k
    using p by (auto simp: ascii_only_def list_all_iff dest: in_set_takeD)
  then show ?thesis using p plain_scroll_up unfolding scroll_down_def Let_def by (auto intro!: plain_blank_rows)
qed

lemma plain_cls: "ascii_only s \<Longrightarrow> ascii_only (ag_screen_cls s)"
  by (simp add: ag_screen_cls_def plain_update plain_blank_rows)

lemma plain_new_line: "ascii_only s \<Longrightarrow> ascii_only (new_line s)"
  unfolding new_line_def Let_def by (auto simp: plain_update intro!: plain_scroll_up)

lemma plain_put: "ascii_only s \<Longrightarrow> ch < 0x80 \<Longrightarrow> ascii_only (put_cell s x y ch a)"
  by (simp add: put_cell_def Let_def plain_set)

lemma plain_putc: "ascii_only s \<Longrightarrow> ch < 0x80 \<Longrightarrow> ascii_only (ag_screen_putc_raw s ch)"
  unfolding ag_screen_putc_raw_def Let_def by (auto simp: plain_update intro!: plain_put plain_new_line)

lemma plain_sgr: "ascii_only (sgr_loop s i n) = ascii_only s"
proof (induction s i n rule: sgr_loop.induct)
  case (1 s i n)
  obtain s1 k where o: "sgr_one s i = (s1, k)" by (cases "sgr_one s i")
  have "ascii_only s1 = ascii_only s" using sgr_one_still [of s i] o by (simp add: ascii_only_def still_def)
  then show ?case using 1 o by (subst sgr_loop.simps) (auto split: prod.splits)
qed

lemma plain_csi: "ascii_only s \<Longrightarrow> ascii_only (csi_dispatch s ch)"
  unfolding csi_dispatch_def apply_sgr_def
  by (simp add: plain_sgr plain_scroll_up plain_scroll_down plain_update move_cursor_def ag_screen_gotoxy_def erase_display_def erase_line_def Let_def
      ag_screen_set_cursor_def save_cursor_def restore_cursor_def plain_fill plain_blank_rows)

lemma plain_ground: "ascii_only s \<Longrightarrow> ch < 0x80 \<Longrightarrow> ascii_only (ground_char s ch)"
  unfolding ground_char_def Let_def by (simp add: plain_update plain_new_line plain_putc)

lemma plain_write_char: "ascii_only s \<Longrightarrow> ch < 0x80 \<Longrightarrow> ascii_only (write_char s ch)"
  unfolding write_char_def esc_char_def csi_char_def digit_in_def csi_reset_def Let_def
  by (cases "sc_state s") (simp_all add: plain_update plain_ground plain_csi plain_cls plain_scroll_down save_cursor_def restore_cursor_def)

lemma plain_write: "ascii_only s \<Longrightarrow> list_all (\<lambda>c. c < 0x80) b \<Longrightarrow> ascii_only (ag_screen_write s b)"
  unfolding ag_screen_write_def by (induction b arbitrary: s) (simp_all add: plain_write_char)

fun seven_bits :: "screen_call \<Rightarrow> bool" where
  "seven_bits (Write b) = list_all (\<lambda>c. c < 0x80) b"
| "seven_bits (Puts b) = (case b of None \<Rightarrow> True | Some t \<Rightarrow> list_all (\<lambda>c. c < 0x80) t)"
| "seven_bits (Putc_raw c) = (c < 0x80)"
| "seven_bits (Poke x y c a) = (c < 0x80)"
| "seven_bits (Fill x y w h c a) = (c < 0x80)"
| "seven_bits Clear_dirty = False"
| "seven_bits c = True"

lemma plain_do: "ascii_only s \<Longrightarrow> seven_bits k \<Longrightarrow> ascii_only (screen_do s k)"
proof (cases k)
  case (Puts b)
  assume p: "ascii_only s" and k: "seven_bits k"
  show ?thesis
  proof (cases b)
    case (Some t)
    have "list_all (\<lambda>c. c < 0x80) (takeWhile (\<lambda>c. c \<noteq> 0) t)" using k Puts Some set_takeWhileD by (fastforce simp: list_all_iff)
    then show ?thesis using p Puts Some by (simp add: ag_screen_puts_def plain_write)
  qed (simp add: Puts p ag_screen_puts_def)
qed (auto simp: plain_write plain_putc plain_cls plain_scroll_up plain_update ag_screen_gotoxy_def ag_screen_set_attr_def ag_screen_set_cursor_def
    ag_screen_poke_def plain_put ag_screen_fill_def intro!: plain_foldl plain_fill)

lemma plain_run: "ascii_only s \<Longrightarrow> list_all seven_bits cs \<Longrightarrow> ascii_only (foldl screen_do s cs) \<and> Clear_dirty \<notin> set cs"
  by (induction cs arbitrary: s) (auto simp: plain_do)

lemma plain_init: "ag_screen_init hc hb mem n cols rows = Inr s \<Longrightarrow> length hc = cols * rows \<Longrightarrow> length hb = dirty_words rows \<Longrightarrow> ascii_only s"
proof -
  assume i: "ag_screen_init hc hb mem n cols rows = Inr s" "length hc = cols * rows" "length hb = dirty_words rows"
  have ok: "screen_ok s" "sc_cols s = cols" "sc_rows s = rows" using init_ok(1) [OF i] by simp_all
  have "c_ch (sc_cells s ! k) = 0x20" if "k < length (sc_cells s)" for k
  proof -
    have z: "length (sc_cells s) = cols * rows" "0 < cols" using ok by (auto simp: screen_ok_def grid_ok_def)
    have "k div cols < rows" "k mod cols < cols" using that z by (simp_all add: less_mult_imp_div_less mult.commute)
    then have "cell_at s (k mod cols) (k div cols) = blank AG_ATTR_DEFAULT" using init_ok(2) [OF i] by simp
    then show ?thesis by (simp add: cell_at_def ok blank_def)
  qed
  then show ?thesis by (auto simp: ascii_only_def list_all_length)
qed

section \<open>A terminal attached\<close>

lemma params_state: "sc_state t = AG_VT_CSI \<Longrightarrow> list_all (\<lambda>c. 0x30 \<le> c \<and> c \<le> 0x3F) ps \<Longrightarrow> sc_state (foldl write_char t ps) = AG_VT_CSI"
proof (induction ps arbitrary: t)
  case (Cons c ps)
  have "0x30 \<le> c" "c \<le> 0x3F" using Cons.prems by simp_all
  then have "\<not> 0x40 \<le> c" "\<not> c < 0x20" by (simp_all add: word_le_def word_less_def)
  then have "sc_state (write_char t c) = AG_VT_CSI" using Cons.prems(1) by (simp add: write_char_def csi_char_def digit_in_def Let_def)
  then show ?case using Cons by simp
qed simp

lemma csi_ground:
  assumes "ground t" and "list_all (\<lambda>c. 0x30 \<le> c \<and> c \<le> 0x3F) ps" and "0x40 \<le> fin" and "fin \<le> 0x7E"
  shows "ground (ag_screen_write t ([0x1B, 0x5B] @ ps @ [fin]))"
proof -
  have "sc_state (foldl write_char (opened t) ps) = AG_VT_CSI" using assms(2) by (intro params_state) (simp_all add: opened_def)
  then show ?thesis using write_final [OF _ assms(3,4)] unfolding write_open [OF assms(1)] by (simp add: ag_screen_write_def)
qed

definition fresh :: "nat \<Rightarrow> nat \<Rightarrow> ag_screen \<Rightarrow> bool" where
  "fresh c r t \<longleftrightarrow> screen_ok t \<and> ground t \<and> sc_cols t = c \<and> sc_rows t = r"

lemma fresh_csi:
  assumes "fresh c r t" and "list_all (\<lambda>c. 0x30 \<le> c \<and> c \<le> 0x3F) ps" and "0x40 \<le> fin" and "fin \<le> 0x7E"
  shows "fresh c r (ag_screen_write t ([0x1B, 0x5B] @ ps @ [fin]))"
  using assms csi_ground [OF _ assms(2-)] write_good [of t "[0x1B, 0x5B] @ ps @ [fin]"] by (auto simp: fresh_def good_def tracked_def)

lemma hello_fresh:
  assumes "fresh c r t" and "ag_vtout_hello kv = (ep, bs)"
  shows "fresh c r (ag_screen_write t (concat bs))" "ep = ag_vtout_mark_all ag_vtout_init"
proof -
  let ?q = "\<lambda>t ps fin. ag_screen_write t ([0x1B, 0x5B] @ ps @ [fin])"
  let ?t1 = "?q (?q (?q (?q (?q (?q t [0x30] 0x6D) [] 0x72) [0x3F, 0x37] 0x68) [0x32] 0x4A) [] 0x48) [0x3F, 0x32, 0x35] 0x68"
  have f1: "fresh c r ?t1" using assms(1) by (intro fresh_csi) simp_all
  have f2: "fresh c r (?q (?q ?t1 [0x3E, 0x33] 0x75) [0x3F, 0x39, 0x30, 0x30, 0x31] 0x68)" by (rule fresh_csi [OF fresh_csi [OF f1]]) simp_all
  have e: "emitted \<lparr>em_sunk = [], em_buf = []\<rparr> = []" by (simp add: emitted_def)
  have "ag_screen_write t (concat bs) = (if kv then ?q (?q ?t1 [0x3E, 0x33] 0x75) [0x3F, 0x39, 0x30, 0x30, 0x31] 0x68 else ?t1)"
    using assms(2) by (auto simp: ag_vtout_hello_def Let_def emitted_drain e write_append [symmetric])
  then show "fresh c r (ag_screen_write t (concat bs))" using f1 f2 by simp
  show "ep = ag_vtout_mark_all ag_vtout_init" using assms(2) by (simp add: ag_vtout_hello_def Let_def)
qed

section \<open>The passes\<close>

text \<open>One pass of \<open>render_all\<close> with one endpoint, whose transport feeds the terminal.\<close>

definition render_all :: "ag_cp option \<Rightarrow> ag_screen \<times> ag_vtout \<times> ag_screen \<Rightarrow> ag_screen \<times> ag_vtout \<times> ag_screen" where
  "render_all cp = (\<lambda>(s, ep, t). case ag_vtout_flush cp (ag_vtout_take_dirty ep s) s of (ep', bs) \<Rightarrow>
     (ag_screen_clear_dirty s, ep', ag_screen_write t (concat bs)))"

definition console_round :: "ag_cp option \<Rightarrow> ag_screen \<times> ag_vtout \<times> ag_screen \<Rightarrow> screen_call list \<Rightarrow> ag_screen \<times> ag_vtout \<times> ag_screen" where
  "console_round cp = (\<lambda>(s, ep, t) cs. render_all cp (foldl screen_do s cs, ep, t))"

text \<open>Between passes.\<close>

definition in_step :: "nat \<Rightarrow> nat \<Rightarrow> ag_screen \<times> ag_vtout \<times> ag_screen \<Rightarrow> bool" where
  "in_step c r = (\<lambda>(s, ep, t). screen_ok s \<and> ascii_only s \<and> believed c r ep t \<and>
     (ag_screen_clear_dirty s = s \<and> owed c r ep s (cell_at t) \<or> (\<forall>y < r. row_pending ep y)) \<and>
     c = smaller (vo_cols ep) (sc_cols s) \<and> r = smaller (vo_rows ep) (sc_rows s))"

text \<open>The terminal shows the screen: the cells as they go out, the cursor, and whether it is to be seen.\<close>

definition displays :: "ag_screen \<Rightarrow> ag_screen \<Rightarrow> bool" where
  "displays t s \<longleftrightarrow> (\<forall>x < sc_cols t. \<forall>y < sc_rows t. ag_screen_at t x y = vis (ag_screen_at s x y)) \<and>
     sc_x t = min (sc_x s) (sc_cols t - 1) \<and> sc_y t = min (sc_y s) (sc_rows t - 1) \<and> sc_visible t = sc_visible s"

lemma clear_twice: "ag_screen_clear_dirty (ag_screen_clear_dirty s) = ag_screen_clear_dirty s"
  by (simp add: ag_screen_clear_dirty_def)

lemma round_step:
  assumes i: "in_step c r st" and cs: "list_all seven_bits cs" and o: "console_round cp st cs = (s', ep', t')"
  shows "in_step c r (s', ep', t') \<and> displays t' s' \<and> \<not> ag_vtout_pending ep' \<and> sc_cols t' = c \<and> sc_rows t' = r"
proof -
  obtain s ep t where st: "st = (s, ep, t)" by (cases st)
  have I: "screen_ok s" "ascii_only s" "believed c r ep t" "ag_screen_clear_dirty s = s \<and> owed c r ep s (cell_at t) \<or> (\<forall>y < r. row_pending ep y)"
    and cr: "c = smaller (vo_cols ep) (sc_cols s)" "r = smaller (vo_rows ep) (sc_rows s)" using i unfolding in_step_def st prod.case by blast+
  define s1 where "s1 = foldl screen_do s cs"
  have p: "ascii_only s1" "Clear_dirty \<notin> set cs" using plain_run [OF I(2) cs] by (simp_all add: s1_def)
  have ok1: "screen_ok s1" unfolding s1_def by (rule screen_run_ok [OF I(1)])
  define ep1 where "ep1 = ag_vtout_take_dirty ep s1"
  have d: "sc_cols s1 = sc_cols s" "sc_rows s1 = sc_rows s" using screen_run_tracked [OF I(1) p(2)] by (simp_all add: s1_def tracked_def)
  have r1: "r = smaller (vo_rows ep) (sc_rows s1)" using cr d by simp
  have k1: "believed c r ep1 t" unfolding ep1_def by (rule take_dirty_believed(1) [OF ok1 I(3) r1])
  have k2: "owed c r ep1 s1 (cell_at t)"
    using I(4) take_dirty_all [OF ok1 I(3) _ r1] take_dirty_owed [OF I(1) p(2) _ I(3) _ cr d(2) ok1] by (auto simp: ep1_def s1_def)
  have w1: "same_window ep ep1" by (simp add: ep1_def take_window)
  have cr1: "c = smaller (vo_cols ep1) (sc_cols s1)" "r = smaller (vo_rows ep1) (sc_rows s1)" using cr w1 d by (simp_all add: same_window_def)
  obtain ep2 bs where f: "ag_vtout_flush cp ep1 s1 = (ep2, bs)" by (cases "ag_vtout_flush cp ep1 s1")
  note F = flush_spec [OF k1 k2 ok1 p(1) cr1 f]
  have O: "s' = ag_screen_clear_dirty s1" "ep' = ep2" "t' = ag_screen_write t (concat bs)"
    using o f by (simp_all add: console_round_def render_all_def st s1_def [symmetric] ep1_def [symmetric])
  have c: "cell_at s' = cell_at s1" "sc_cols s' = sc_cols s1" "sc_rows s' = sc_rows s1" "sc_x s' = sc_x s1" "sc_y s' = sc_y s1" "sc_visible s' = sc_visible s1"
    by (simp_all add: O ag_screen_clear_dirty_def cell_at_def fun_eq_iff)
  have "owed c r ep' s' (cell_at t')" using F(1,4,6) by (auto simp: owed_def tty_def O(2,3) c(1))
  moreover have "ascii_only s'" using p(1) by (simp add: O)
  ultimately have "in_step c r (s', ep', t')" using F(2,5) cr1 c clear_ok [OF ok1] clear_twice
    by (simp add: in_step_def O(1,2) same_window_def) (simp add: O)
  moreover have "displays t' s'"
  proof -
    have le: "c \<le> sc_cols s1" "r \<le> sc_rows s1" using cr1 by (auto simp: smaller_def)
    then show ?thesis using F(1) c unfolding displays_def ag_screen_at_def O(3) tty_def by auto
  qed
  ultimately show ?thesis using F(1,3) by (simp add: O tty_def)
qed

lemma rounds_step:
  "in_step c r st \<Longrightarrow> list_all (list_all seven_bits) css \<Longrightarrow> in_step c r (foldl (console_round cp) st css)"
proof (induction css arbitrary: st)
  case (Cons cs css)
  obtain s' ep' t' where o: "console_round cp st cs = (s', ep', t')" by (cases "console_round cp st cs")
  show ?case using round_step [OF Cons.prems(1) _ o] Cons o by simp
qed simp

lemma hello_in_step:
  assumes i: "ag_screen_init hc hb mem n cols rows = Inr s" "length hc = cols * rows" "length hb = dirty_words rows"
    and t: "fresh (smaller wc cols) (smaller wr rows) t" and h: "ag_vtout_hello kv = (ep, bs)"
  shows "in_step (smaller wc cols) (smaller wr rows) (s, ep\<lparr>vo_cols := wc, vo_rows := wr\<rparr>, ag_screen_write t (concat bs))"
proof -
  note f = hello_fresh [OF t h]
  have s: "screen_ok s" "sc_cols s = cols" "sc_rows s = rows" using init_ok(1) [OF i] by simp_all
  have "smaller wr rows \<le> 128" using ok_bounds [OF s(1)] s(3) by (auto simp: smaller_def)
  then have "\<forall>y < smaller wr rows. row_pending (ep\<lparr>vo_cols := wc, vo_rows := wr\<rparr>) y"
    using mark_all_pending [of _ ag_vtout_init] by (simp add: f(2) row_pending_def)
  moreover have "believed (smaller wc cols) (smaller wr rows) (ep\<lparr>vo_cols := wc, vo_rows := wr\<rparr>) (ag_screen_write t (concat bs))"
    using f by (simp add: believed_def fresh_def ag_vtout_mark_all_def ag_vtout_init_def)
  ultimately show ?thesis using s plain_init [OF i] by (simp add: in_step_def)
qed

section \<open>Properties\<close>

text \<open>
  C13. What the console sends is enough. A screen is initialised, a terminal attaches and is greeted, and then the screen is called in any
  way with text of seven bits, with passes of \<open>render_all\<close> in between. After every pass a terminal that parses its input as
  \<open>screen.c\<close> does, and is of the endpoint's size, shows each cell of the screen that it has room for, with its colours (codes of control
  characters as blanks), and the cursor at its place, to be seen or not as the screen says; and nothing is left pending.
\<close>

theorem console_mirror:
  assumes "ag_screen_init hc hb mem n cols rows = Inr s0" and "length hc = cols * rows" and "length hb = dirty_words rows"
    and "fresh (smaller wc cols) (smaller wr rows) t0" and "ag_vtout_hello kv = (ep0, bs)"
    and "list_all (list_all seven_bits) css" and "list_all seven_bits cs"
    and "foldl (console_round cp) (s0, ep0\<lparr>vo_cols := wc, vo_rows := wr\<rparr>, ag_screen_write t0 (concat bs)) (css @ [cs]) = (s, ep, t)"
  shows "displays t s \<and> sc_cols t = smaller wc cols \<and> sc_rows t = smaller wr rows \<and> \<not> ag_vtout_pending ep"
proof -
  let ?st = "foldl (console_round cp) (s0, ep0\<lparr>vo_cols := wc, vo_rows := wr\<rparr>, ag_screen_write t0 (concat bs)) css"
  have "in_step (smaller wc cols) (smaller wr rows) ?st" by (rule rounds_step [OF hello_in_step [OF assms(1-5)] assms(6)])
  from round_step [OF this assms(7), of cp s ep t] show ?thesis using assms(8) by simp
qed

text \<open>A screen of four by two, and a terminal of the same size.\<close>

theorem console_mirror_witness:
  "\<exists>s0 s ep t. ag_screen_init (replicate 8 (blank 0)) [0] 4 20 4 2 = Inr s0 \<and>
     foldl (console_round None) (s0, (fst (ag_vtout_hello False))\<lparr>vo_cols := 0, vo_rows := 0\<rparr>, ag_screen_write shown (concat (snd (ag_vtout_hello False))))
       ([[Write [0x41, 0x0A]]] @ [[Write [0x42, 0x0A, 0x0A]]]) = (s, ep, t) \<and>
     displays t s \<and> sc_cols t = 4 \<and> \<not> ag_vtout_pending ep"
proof -
  obtain s0 where s0: "ag_screen_init (replicate 8 (blank 0)) [0] 4 20 4 2 = Inr s0"
    by (simp add: ag_screen_init_def AG_SCREEN_MAX_COLS_def AG_SCREEN_MAX_ROWS_def ag_screen_memsize_def dirty_words_def)
  obtain s ep t where r: "foldl (console_round None) (s0, (fst (ag_vtout_hello False))\<lparr>vo_cols := 0, vo_rows := 0\<rparr>,
      ag_screen_write shown (concat (snd (ag_vtout_hello False)))) ([[Write [0x41, 0x0A]]] @ [[Write [0x42, 0x0A, 0x0A]]]) = (s, ep, t)"
    using prod_cases3 by blast
  have f: "fresh (smaller 0 4) (smaller 0 2) shown" using shown_ok by (simp add: fresh_def smaller_def) (simp add: shown_def)
  have "displays t s \<and> sc_cols t = smaller 0 4 \<and> sc_rows t = smaller 0 2 \<and> \<not> ag_vtout_pending ep"
    by (rule console_mirror [OF s0 _ _ f _ _ _ r]) (simp_all add: dirty_words_def)
  then show ?thesis using s0 r by (auto simp: smaller_def)
qed

end
