(* ===== verification/Spec2Isabelle.thy ===== *)
theory Spec2Isabelle
  imports Arena Reslist IoClaim XipLoad Journal RdCodec Cluframe Cmdline Cfg ConInput RamDestroy VfsRace VtRound
begin

text \<open>
  ArgonOS is an operating system for small microcontrollers: a kernel that loads programs from files, runs them as
  processes, and gives them files, a console, pins, a network. This is a verification library for the portable part
  of that kernel, the C code under \<^verbatim>\<open>components/argon_kernel/src\<close> that also builds on a host: what keeps programs apart,
  what stands between a program and its files, and what travels between machines.

  \<^bold>\<open>The parts and how they meet.\<close> A program arrives as an image in a file. \<open>axeload.c\<close> decides whether the image may run and
  relocates it to where it was placed, in a code arena (\<open>arena.c\<close>) or, page by page, in flash (\<open>loader.c\<close>). Everything the
  program is given is entered in its resource list (\<open>reslist.c\<close>), which is settled when the program ends, however it ends;
  pins are given out by \<open>ioclaim.c\<close>. File calls go through \<open>vfs.c\<close>: it resolves the path (\<open>path.c\<close>), finds the mount, and calls the
  filesystem behind it; \<open>ramfs.c\<close> is the one the kernel brings itself. What the system says goes to the journal (\<open>journal.c\<close>);
  what programs print goes to a text screen (\<open>screen.c\<close>), and from there to every terminal as the escape sequences that bring its picture up
  to date (\<open>vtout.c\<close>). What is typed comes back through the decoder (\<open>vtin.c\<close>), or from a keyboard on the board (\<open>hidkbd.c\<close>), into
  the console's queue of events (\<open>console.c\<close>); the code page (\<open>codepage.c\<close>) and the line editor (\<open>lineedit.c\<close>) make a line of it, and
  \<open>cmdline.c\<close> the arguments of a command. Settings are text files, the system's (\<open>cfg.c\<close>) and those of the programs (\<open>appcfg_text.c\<close>). Between machines run the frames of \<open>cluframe.c\<close> and the pixel streams of \<open>rdcodec.c\<close>.

  \<^bold>\<open>Where each part is.\<close> One theory per component, opened by a note on how its state and its functions correspond to the code;
  definitions keep the names of the C functions.

    \<^item> \<open>Prelude\<close>: machine integers, pointers, C strings, the error numbers, and the lemmas on lists and words that are shared.
    \<^item> \<open>Interfaces\<close>: contracts between parts, as locales, with what every client may conclude from them.
    \<^item> \<open>Arena\<close> (\<open>core/arena.c\<close>): first-fit allocation in a fixed region; the blocks handed out never overlap, a request fails only
      when no gap is large enough. Interprets \<open>region_alloc\<close>.
    \<^item> \<open>Reslist\<close> (\<open>core/reslist.c\<close>): the ledger of a process; reclaiming releases each entry exactly once, in the order of the types and the
      newest first. Interprets the ledger contract.
    \<^item> \<open>IoClaim\<close> (\<open>dev/ioclaim.c\<close>): who holds which pin; a pin in use stays its holder's, a reserved pin is nobody's.
    \<^item> \<open>Path\<close> (\<open>core/path.c\<close>): resolving paths against a directory and drive letters, splitting, joining, wildcards. The specification is the list of
      components a path denotes.
    \<^item> \<open>AxeLoad\<close> (\<open>loader/axeload.c\<close>) and \<open>XipLoad\<close> (the streamed load of \<open>loader/loader.c\<close>): what an accepted header guarantees, that relocation
      writes only inside the placed parts and does what the tables say, and where the page-wise load differs from it.
    \<^item> \<open>Journal\<close> (\<open>core/journal.c\<close>): the ring of log text; reading gives the lines that still fit.
    \<^item> \<open>Ramfs\<close> and \<open>RamDestroy\<close> (\<open>fs/ramfs.c\<close>): the tree of nodes, the budget, and every file operation, with the runs that do not return or that
      touch freed memory as results of their own; taking the filesystem down gives every block back.
    \<^item> \<open>Vfs\<close> and \<open>VfsInv\<close> (\<open>fs/vfs.c\<close>): mounts, handles, the memory of names that were not there, opening in the steps between which the lock is
      dropped; the tables agree in every interleaving, an ejected mount answers nothing but errors.
    \<^item> \<open>VfsCache\<close>, \<open>VfsCold\<close>, \<open>VfsRam\<close>, \<open>VfsRace\<close>: the two together. The memory of missing names is sound over any backend that keeps the contract of
      \<open>Interfaces\<close>; the RAM filesystem keeps it, so that with complete calls the memory is invisible; with calls that overlap it is not, and an open
      ends on whatever mount has its place by then.
    \<^item> \<open>Screen\<close> and \<open>ScreenInv\<close> (\<open>console/screen.c\<close>): the grid, the cursor, the parser of escape sequences, resizing; whatever is written, every index stays
      inside, and a row that is not marked is the row the counted scroll moved there.
    \<^item> \<open>VtOut\<close> (\<open>console/vtout.c\<close>, and the pass of \<open>console.c\<close> over its endpoints): what is sent, in which blocks. \<open>VtTerm\<close> says what each of its
      sequences does to a terminal that parses them as \<open>screen.c\<close> does, \<open>VtMirror\<close> what holds between the two while a flush goes on, and \<open>VtRound\<close>
      concludes that after every pass the terminal shows the screen.
    \<^item> \<open>Codepage\<close> (\<open>console/codepage.c\<close>) and \<open>LineEdit\<close> (\<open>shell/lineedit.c\<close>): the three code pages entry by entry, and the editor's buffers against
      a specification on lists.
    \<^item> \<open>Vtin\<close> (\<open>console/vtin.c\<close>): bytes to key and pointer events, inverse to the UTF-8 and to the sequences that terminals write; \<open>Typing\<close> composes
      decoder, code page and editor: a line typed at a terminal is the line the shell gets. \<open>Cmdline\<close> (\<open>core/cmdline.c\<close>) goes on to the arguments: cutting the line
      inside its own buffer gives its words, so that what is typed between quotes is what a command receives.
    \<^item> \<open>HidKbd\<close> (\<open>dev/hidkbd.c\<close>): the reports of a keyboard as events; the events follow the keys, and for text they are those of a terminal.
    \<^item> \<open>ConInput\<close> (the input side of \<open>console/console.c\<close>, and \<open>ag_input_to_pixels\<close> of \<open>dev/input.c\<close>): the queue between ports, drivers and readers, with its
      backpressure, in every interleaving of their pieces; what is typed is read in order, and lost only to events that drivers inject meanwhile.
    \<^item> \<open>AppCfg\<close> (\<open>core/appcfg_text.c\<close>) and \<open>Cfg\<close> (\<open>core/cfg.c\<close>): the two formats of settings; what is written is what is read, and nothing else changes.
    \<^item> \<open>RdCodec\<close> (\<open>net/rdcodec.c\<close>): the three pixel codings and their inverses, with the room they need and the progress they make.
    \<^item> \<open>Cluframe\<close> (\<open>net/cluframe.c\<close>): frames on the wire and the reassembly of interleaved messages without losing a buffer.

  \<^bold>\<open>Conventions.\<close> \<open>size_t\<close> and pointers are 32 bits, as on every chip the kernel runs on, and arithmetic on them wraps; a quantity is a
  natural number where the code's bounds keep it far below the width of its type, which the theory then says. An error return is
  \<open>Inl\<close>, a pointer that is tested for null an \<open>option\<close>. Code that is not part of the kernel is an argument: the heap, the clock, the
  flash, the release callbacks, the backends of the VFS, the function that names the calling process. Loops are structural, or come with a
  measure; the three loops that can run for ever (\<open>grow\<close> of the RAM filesystem doubling a capacity that wraps, the walk up the parents in its
  rename, and the walk down the tree that takes it apart) are partial functions whose value is \<open>None\<close> when they do not return, with a theorem for
  when they do. No fuel is used.

  \<^bold>\<open>Not modelled.\<close> The shell and its commands, processes and the scheduler, drivers, the network stack and the start-up code: they are calls
  of FreeRTOS, of the vendor's SDK and of sockets, none of which are part of the sources. Of \<open>loader.c\<close> only the streamed load is modelled, of \<open>console.c\<close>
  the event queue and the pass over the endpoints, of \<open>shell.c\<close> the call that cuts a line. The
  lock of the VFS is not a definition: what runs under it is one step. An open is taken apart where the lock is dropped; the other calls, and the note of a
  refused open with the question about its directory, are one step together with their backend call. Applications, emulators, ported games, vendored libraries and tools are
  outside the scope.
\<close>

end
